(* ===== verification/Prelude.thy ===== *)
theory Prelude
  imports Main "HOL-Library.Word" "HOL-Library.While_Combinator"
begin

unbundle bit_operations_syntax

text \<open>
  The prelude of the development: the type of the results of kernel operations and its
  combinators, the collections of rewrite rules the component theories add to, and the
  facts on machine words, lists and functions that several components share.

  A kernel operation takes the kernel state and has one of four outcomes.
  \<open>Ok x s\<close> is a normal return with value \<open>x\<close> in state \<open>s\<close>. \<open>Panic m\<close> is a call of
  \<open>panic(m)\<close> (kernel/printf.c), which never returns. \<open>Spins\<close> is a busy-wait that cannot
  end before another hart acts (the spin loop of \<open>acquire\<close>, a corrupted list). \<open>Sleeps c s\<close>
  is a thread that has called \<open>sleep\<close> on channel \<open>c\<close> and has given up the CPU in state \<open>s\<close>.
  An error code returned by the C function (0 or -1) is part of the value of \<open>Ok\<close>.
\<close>

section \<open>Outcomes of kernel operations\<close>

datatype ('c, 'a, 's) res =
    Ok 'a 's
  | Panic string
  | Spins
  | Sleeps 'c 's

type_synonym ('c, 'a, 's) kop = "'s \<Rightarrow> ('c, 'a, 's) res"

named_theorems kop_simps "evaluation of the kernel operation combinators"

definition returnk :: "'a \<Rightarrow> ('c, 'a, 's) kop" where
  "returnk x s = Ok x s"

definition bindk :: "('c, 'a, 's) kop \<Rightarrow> ('a \<Rightarrow> ('c, 'b, 's) kop) \<Rightarrow> ('c, 'b, 's) kop" where
  "bindk m f s =
     (case m s of Ok x s' \<Rightarrow> f x s' | Panic e \<Rightarrow> Panic e | Spins \<Rightarrow> Spins | Sleeps c s' \<Rightarrow> Sleeps c s')"

definition panick :: "string \<Rightarrow> ('c, 'a, 's) kop" where
  "panick e s = Panic e"

definition getk :: "('s \<Rightarrow> 'a) \<Rightarrow> ('c, 'a, 's) kop" where
  "getk f s = Ok (f s) s"

definition modifyk :: "('s \<Rightarrow> 's) \<Rightarrow> ('c, unit, 's) kop" where
  "modifyk f s = Ok () (f s)"

definition whenk :: "bool \<Rightarrow> ('c, unit, 's) kop \<Rightarrow> ('c, unit, 's) kop" where
  "whenk b m = (if b then m else returnk ())"

lemma returnk_simp [kop_simps]: "returnk x s = Ok x s"
  by (simp add: returnk_def)

lemma panick_simp [kop_simps]: "panick e s = Panic e"
  by (simp add: panick_def)

lemma getk_simp [kop_simps]: "getk f s = Ok (f s) s"
  by (simp add: getk_def)

lemma modifyk_simp [kop_simps]: "modifyk f s = Ok () (f s)"
  by (simp add: modifyk_def)

lemma whenk_simps [kop_simps]:
  "whenk True m = m"
  "whenk False m = returnk ()"
  by (simp_all add: whenk_def)

lemma bindk_eq [kop_simps]:
  "m s = Ok x s' \<Longrightarrow> bindk m f s = f x s'"
  "m s = Panic e \<Longrightarrow> bindk m f s = Panic e"
  "m s = Spins \<Longrightarrow> bindk m f s = Spins"
  "m s = Sleeps c s' \<Longrightarrow> bindk m f s = Sleeps c s'"
  by (simp_all add: bindk_def)

lemma bindk_getk [kop_simps]: "bindk (getk g) f s = f (g s) s"
  by (simp add: bindk_def getk_def)

lemma bindk_modifyk [kop_simps]: "bindk (modifyk g) f s = f () (g s)"
  by (simp add: bindk_def modifyk_def)

lemma bindk_returnk [kop_simps]: "bindk (returnk x) f s = f x s"
  by (simp add: bindk_def returnk_def)

lemma bindk_panick [kop_simps]: "bindk (panick e) f s = Panic e"
  by (simp add: bindk_def panick_def)

lemma bindk_OkD:
  assumes "bindk m f s = Ok y t"
  obtains x s' where "m s = Ok x s'" "f x s' = Ok y t"
  using assms by (auto simp: bindk_def split: res.splits)

lemma bindk_assoc: "bindk (bindk m f) g = bindk m (\<lambda>x. bindk (f x) g)"
  by (rule ext) (simp add: bindk_def split: res.splits)

text \<open>
  A specification of an operation: from a state that satisfies \<open>P\<close> the operation returns
  normally, and value and final state satisfy \<open>Q\<close>. It is total correctness: neither a
  panic nor a wait is allowed.
\<close>

definition returns :: "('s \<Rightarrow> bool) \<Rightarrow> ('c, 'a, 's) kop \<Rightarrow> ('a \<Rightarrow> 's \<Rightarrow> bool) \<Rightarrow> bool" where
  "returns P m Q \<longleftrightarrow> (\<forall>s. P s \<longrightarrow> (\<exists>x s'. m s = Ok x s' \<and> Q x s'))"

lemma returnsI: "(\<And>s. P s \<Longrightarrow> \<exists>x s'. m s = Ok x s' \<and> Q x s') \<Longrightarrow> returns P m Q"
  by (simp add: returns_def)

lemma returnsE:
  assumes "returns P m Q" "P s"
  obtains x s' where "m s = Ok x s'" "Q x s'"
  using assms by (auto simp: returns_def)

lemma returns_bindk:
  assumes "returns P m Q" and "\<And>x. returns (Q x) (f x) R"
  shows "returns P (bindk m f) R"
proof (rule returnsI)
  fix s assume "P s"
  with assms(1) obtain x s' where m: "m s = Ok x s'" and "Q x s'"
    by (rule returnsE)
  from assms(2) \<open>Q x s'\<close> obtain y t where "f x s' = Ok y t" and "R y t"
    by (rule returnsE)
  with m show "\<exists>y t. bindk m f s = Ok y t \<and> R y t"
    by (simp add: bindk_def)
qed

lemma returns_weaken:
  "returns P m Q \<Longrightarrow> (\<And>s. P' s \<Longrightarrow> P s) \<Longrightarrow> (\<And>x s. Q x s \<Longrightarrow> Q' x s) \<Longrightarrow> returns P' m Q'"
  by (fastforce simp: returns_def)

section \<open>Loops\<close>

text \<open>
  A C loop: the body works on the loop variables \<open>v\<close> and ends with \<open>Inl v'\<close> (next iteration) or
  \<open>Inr r\<close> (the loop is left with result \<open>r\<close>). A loop that never ends has the outcome \<open>Spins\<close>.
\<close>

fun loop_goes :: "('c, 'v + 'r, 's) res \<Rightarrow> bool" where
  "loop_goes (Ok (Inl _) _) \<longleftrightarrow> True"
| "loop_goes _ \<longleftrightarrow> False"

fun loop_next :: "('v \<Rightarrow> ('c, 'v + 'r, 's) kop) \<Rightarrow> ('c, 'v + 'r, 's) res \<Rightarrow> ('c, 'v + 'r, 's) res" where
  "loop_next body (Ok (Inl v) s) = body v s"
| "loop_next body r = r"

fun loop_result :: "('c, 'v + 'r, 's) res option \<Rightarrow> ('c, 'r, 's) res" where
  "loop_result (Some (Ok (Inr r) s)) = Ok r s"
| "loop_result (Some (Panic e)) = Panic e"
| "loop_result (Some (Sleeps c s)) = Sleeps c s"
| "loop_result _ = Spins"

definition loopk :: "('v \<Rightarrow> ('c, 'v + 'r, 's) kop) \<Rightarrow> 'v \<Rightarrow> ('c, 'r, 's) kop" where
  "loopk body v s = loop_result (while_option loop_goes (loop_next body) (body v s))"

lemma loopk_unfold:
  "loopk body v = bindk (body v) (\<lambda>x. case x of Inl v' \<Rightarrow> loopk body v' | Inr r \<Rightarrow> returnk r)"
proof (rule ext)
  fix s
  show "loopk body v s = bindk (body v) (\<lambda>x. case x of Inl v' \<Rightarrow> loopk body v' | Inr r \<Rightarrow> returnk r) s"
    by (subst loopk_def, subst while_option_unfold)
      (auto simp: loopk_def bindk_def returnk_def split: res.splits sum.splits)
qed

lemma loopk_steps:
  "body v s = Ok (Inl v') s' \<Longrightarrow> loopk body v s = loopk body v' s'"
  "body v s = Ok (Inr r) s' \<Longrightarrow> loopk body v s = Ok r s'"
  "body v s = Panic e \<Longrightarrow> loopk body v s = Panic e"
  "body v s = Spins \<Longrightarrow> loopk body v s = Spins"
  "body v s = Sleeps c s' \<Longrightarrow> loopk body v s = Sleeps c s'"
  by (subst loopk_unfold, simp add: bindk_def returnk_def)+

text \<open>Total correctness of a loop: an invariant and a variant of the loop variables.\<close>

lemma loopk_rule:
  fixes variant :: "'v \<Rightarrow> nat"
  assumes "J v s"
    and "\<And>v s. J v s \<Longrightarrow> \<exists>x s'. body v s = Ok x s' \<and>
      (case x of Inl v' \<Rightarrow> J v' s' \<and> variant v' < variant v | Inr r \<Rightarrow> post r s')"
  shows "\<exists>r s'. loopk body v s = Ok r s' \<and> post r s'"
  using assms(1)
proof (induction "variant v" arbitrary: v s rule: less_induct)
  case less
  from assms(2)[OF less.prems] obtain x s' where x: "body v s = Ok x s'"
    "case x of Inl v' \<Rightarrow> J v' s' \<and> variant v' < variant v | Inr r \<Rightarrow> post r s'" by blast
  show ?case
  proof (cases x)
    case (Inl v')
    with x less.hyps[of v' s'] show ?thesis by (simp add: loopk_steps(1)[of body v s v' s'])
  next
    case (Inr r)
    with x show ?thesis by (auto simp: loopk_steps(2)[of body v s r s'])
  qed
qed

text \<open>Running an operation for each element of a list, in order.\<close>

primrec foreachk :: "'v list \<Rightarrow> ('v \<Rightarrow> ('c, unit, 's) kop) \<Rightarrow> ('c, unit, 's) kop" where
  "foreachk [] f = returnk ()"
| "foreachk (x # xs) f = bindk (f x) (\<lambda>_. foreachk xs f)"

lemma foreachk_append: "foreachk (xs @ ys) f = bindk (foreachk xs f) (\<lambda>_. foreachk ys f)"
proof (induction xs)
  case Nil
  then show ?case by (simp add: fun_eq_iff bindk_returnk)
next
  case (Cons x xs)
  then show ?case by (simp add: bindk_assoc)
qed

section \<open>Machine integers\<close>

type_synonym u8 = "8 word"
type_synonym u16 = "16 word"
type_synonym u32 = "32 word"
type_synonym u64 = "64 word"

text \<open>
  C types of kernel/types.h: \<open>uchar\<close> and \<open>uint8\<close> are \<open>u8\<close>, \<open>ushort\<close> and \<open>uint16\<close> are
  \<open>u16\<close>, \<open>uint\<close> and \<open>uint32\<close> are \<open>u32\<close>, \<open>uint64\<close>, \<open>pte_t\<close> and \<open>pde_t\<close> are \<open>u64\<close>.
\<close>

lemma unat_lt_64 [simp]: "unat (x :: u64) < 18446744073709551616"
  using unsigned_less[of x] by simp

lemma unat_lt_32 [simp]: "unat (x :: u32) < 4294967296"
  using unsigned_less[of x] by simp

lemma unat_lt_8 [simp]: "unat (x :: u8) < 256"
  using unsigned_less[of x] by simp

lemma unat_add_nowrap:
  fixes x y :: "'a::len word"
  shows "unat x + unat y < 2 ^ LENGTH('a) \<Longrightarrow> unat (x + y) = unat x + unat y"
  by (simp add: unat_word_ariths)

lemma unat_add_of_nat:
  fixes x :: "'a::len word"
  assumes "unat x + i < 2 ^ LENGTH('a)"
  shows "unat (x + of_nat i) = unat x + i"
  using assms by (simp add: unat_word_ariths take_bit_eq_mod unsigned_of_nat)

lemma bit_cleared_iff:
  fixes x y :: "'a::len word"
  shows "x AND y = 0 \<longleftrightarrow> (\<forall>n. bit x n \<longrightarrow> \<not> bit y n)"
  by (auto simp: bit_eq_iff bit_and_iff dest: bit_imp_le_length)

section \<open>Lists and functions\<close>

text \<open>The first index of a list whose element satisfies a predicate: the table scans
  \<open>for(p = tab; p < tab + N; p++) if(...)\<close> of the kernel.\<close>

fun find_index :: "('a \<Rightarrow> bool) \<Rightarrow> 'a list \<Rightarrow> nat option" where
  "find_index P [] = None"
| "find_index P (x # xs) = (if P x then Some 0 else map_option Suc (find_index P xs))"

lemma find_index_None: "find_index P xs = None \<longleftrightarrow> (\<forall>x \<in> set xs. \<not> P x)"
  by (induction xs) auto

lemma find_index_Some:
  "find_index P xs = Some i \<longleftrightarrow> i < length xs \<and> P (xs ! i) \<and> (\<forall>j < i. \<not> P (xs ! j))"
proof (induction xs arbitrary: i)
  case Nil
  then show ?case by simp
next
  case (Cons x xs)
  show ?case
  proof (cases i)
    case 0
    then show ?thesis by auto
  next
    case (Suc k)
    then show ?thesis using Cons.IH[of k] by (auto simp: nth_Cons split: nat.splits)
  qed
qed

lemma find_index_SomeD:
  assumes "find_index P xs = Some i"
  shows "i < length xs" "P (xs ! i)"
  using assms by (simp_all add: find_index_Some)

lemma fun_upd_cell_eq [simp]: "f x = y \<Longrightarrow> f(x := y) = f"
  by (rule ext) simp

end
