(* ===== verification/Riscv.thy ===== *)
theory Riscv
  imports Prelude
begin

text \<open>
  Constants and address arithmetic: the system parameters (kernel/param.h), the physical and
  virtual memory layout (kernel/memlayout.h) and the page-table macros of kernel/riscv.h.
  The macros are kept on 64-bit words; the lemmas give their meaning on natural numbers, the
  round trip between physical addresses and page-table entries, and the decomposition of a
  virtual address into its three page-table indices and its offset.
\<close>

section \<open>Parameters\<close>

abbreviation (input) NPROC :: nat where "NPROC \<equiv> 64"
abbreviation (input) NCPU :: nat where "NCPU \<equiv> 8"
abbreviation (input) NOFILE :: nat where "NOFILE \<equiv> 16"
abbreviation (input) NFILE :: nat where "NFILE \<equiv> 100"
abbreviation (input) NINODE :: nat where "NINODE \<equiv> 50"
abbreviation (input) NDEV :: nat where "NDEV \<equiv> 10"
abbreviation (input) ROOTDEV :: u32 where "ROOTDEV \<equiv> 1"
abbreviation (input) MAXARG :: nat where "MAXARG \<equiv> 32"
abbreviation (input) MAXOPBLOCKS :: nat where "MAXOPBLOCKS \<equiv> 10"
abbreviation (input) LOGSIZE :: nat where "LOGSIZE \<equiv> MAXOPBLOCKS * 3"
abbreviation (input) NBUF :: nat where "NBUF \<equiv> MAXOPBLOCKS * 3"
abbreviation (input) FSSIZE :: nat where "FSSIZE \<equiv> 2000"
abbreviation (input) MAXPATH :: nat where "MAXPATH \<equiv> 128"

section \<open>Pages and page-table entries\<close>

abbreviation (input) PGSIZE :: u64 where "PGSIZE \<equiv> 4096"
abbreviation (input) PGSHIFT :: nat where "PGSHIFT \<equiv> 12"

definition PGROUNDUP :: "u64 \<Rightarrow> u64" where
  "PGROUNDUP sz = (sz + PGSIZE - 1) AND NOT (PGSIZE - 1)"

definition PGROUNDDOWN :: "u64 \<Rightarrow> u64" where
  "PGROUNDDOWN a = a AND NOT (PGSIZE - 1)"

abbreviation (input) PTE_V :: u64 where "PTE_V \<equiv> 1"
abbreviation (input) PTE_R :: u64 where "PTE_R \<equiv> 2"
abbreviation (input) PTE_W :: u64 where "PTE_W \<equiv> 4"
abbreviation (input) PTE_X :: u64 where "PTE_X \<equiv> 8"
abbreviation (input) PTE_U :: u64 where "PTE_U \<equiv> 16"

definition PA2PTE :: "u64 \<Rightarrow> u64" where
  "PA2PTE pa = push_bit 10 (drop_bit 12 pa)"

definition PTE2PA :: "u64 \<Rightarrow> u64" where
  "PTE2PA pte = push_bit 12 (drop_bit 10 pte)"

definition PTE_FLAGS :: "u64 \<Rightarrow> u64" where
  "PTE_FLAGS pte = pte AND 0x3FF"

abbreviation (input) PXMASK :: u64 where "PXMASK \<equiv> 0x1FF"

definition PXSHIFT :: "nat \<Rightarrow> nat" where
  "PXSHIFT level = PGSHIFT + 9 * level"

definition PX :: "nat \<Rightarrow> u64 \<Rightarrow> u64" where
  "PX level va = drop_bit (PXSHIFT level) va AND PXMASK"

abbreviation (input) MAXVA :: u64 where "MAXVA \<equiv> 0x4000000000"

definition SATP_SV39 :: u64 where
  "SATP_SV39 = push_bit 60 8"

definition MAKE_SATP :: "u64 \<Rightarrow> u64" where
  "MAKE_SATP pagetable = SATP_SV39 OR drop_bit 12 pagetable"

section \<open>Memory layout\<close>

abbreviation (input) UART0 :: u64 where "UART0 \<equiv> 0x10000000"
abbreviation (input) VIRTIO0 :: u64 where "VIRTIO0 \<equiv> 0x10001000"
abbreviation (input) PLIC :: u64 where "PLIC \<equiv> 0x0c000000"
abbreviation (input) KERNBASE :: u64 where "KERNBASE \<equiv> 0x80000000"
abbreviation (input) PHYSTOP :: u64 where "PHYSTOP \<equiv> 0x88000000"
abbreviation (input) TRAMPOLINE :: u64 where "TRAMPOLINE \<equiv> 0x3FFFFFF000"
abbreviation (input) TRAPFRAME :: u64 where "TRAPFRAME \<equiv> 0x3FFFFFE000"

definition KSTACK :: "nat \<Rightarrow> u64" where
  "KSTACK p = TRAMPOLINE - (of_nat p + 1) * 2 * PGSIZE"

lemma layout_constants:
  "PHYSTOP = KERNBASE + 128 * 1024 * 1024"
  "MAXVA = push_bit (9 + 9 + 9 + 12 - 1) 1"
  "TRAMPOLINE = MAXVA - PGSIZE"
  "TRAPFRAME = TRAMPOLINE - PGSIZE"
  by simp_all

section \<open>Rounding to page boundaries\<close>

lemma and_not_mask:
  fixes a :: u64
  shows "a AND NOT 4095 = push_bit 12 (drop_bit 12 a)"
proof (rule bit_word_eqI)
  fix n assume "n < LENGTH(64)"
  have m: "(4095 :: u64) = mask 12"
    by (simp add: mask_eq_exp_minus_1)
  show "bit (a AND NOT 4095) n = bit (push_bit 12 (drop_bit 12 a)) n"
    unfolding m using \<open>n < LENGTH(64)\<close>
    by (auto simp: bit_simps)
qed

lemma pgrounddown_nat: "unat (PGROUNDDOWN a) = unat a div 4096 * 4096"
proof -
  have "unat a div 4096 * 4096 \<le> unat a" by simp
  then have "unat a div 4096 * 4096 < 18446744073709551616"
    using unat_lt_64[of a] by (rule le_less_trans)
  moreover have "PGROUNDDOWN a = push_bit 12 (drop_bit 12 a)"
    by (simp add: PGROUNDDOWN_def and_not_mask[simplified])
  ultimately show ?thesis
    by (simp add: push_bit_eq_mult drop_bit_eq_div unat_word_ariths take_bit_eq_mod unsigned_push_bit_eq unsigned_drop_bit_eq)
qed

lemma pgroundup_nat:
  assumes "unat a + 4095 < 2 ^ 64"
  shows "unat (PGROUNDUP a) = (unat a + 4095) div 4096 * 4096"
proof -
  have "PGROUNDUP a = PGROUNDDOWN (a + 4095)"
    by (simp add: PGROUNDUP_def PGROUNDDOWN_def algebra_simps)
  moreover have "unat (a + 4095) = unat a + 4095"
    using assms by (simp add: unat_word_ariths)
  ultimately show ?thesis
    by (simp add: pgrounddown_nat)
qed

lemma word_mod_4096_iff:
  fixes a :: u64
  shows "a mod 4096 = 0 \<longleftrightarrow> unat a mod 4096 = 0"
  by (simp add: word_unat_eq_iff unat_mod)

text \<open>A page-aligned address, as the code tests it with \<open>% PGSIZE\<close>.\<close>

definition pg_aligned :: "u64 \<Rightarrow> bool" where
  "pg_aligned a \<longleftrightarrow> a mod PGSIZE = 0"

lemma pg_aligned_nat: "pg_aligned a \<longleftrightarrow> unat a mod 4096 = 0"
  by (simp add: pg_aligned_def word_mod_4096_iff)

lemma pg_aligned_bits: "pg_aligned a \<longleftrightarrow> (\<forall>n < 12. \<not> bit a n)"
proof -
  have "a mod 4096 = take_bit 12 a"
    by (simp add: take_bit_eq_mod)
  also have "\<dots> = 0 \<longleftrightarrow> (\<forall>n < 12. \<not> bit a n)"
    by (auto simp: bit_eq_iff bit_take_bit_iff dest: bit_imp_le_length)
  finally show ?thesis by (simp add: pg_aligned_def)
qed

lemma pg_aligned_PGROUNDDOWN: "pg_aligned (PGROUNDDOWN a)"
  by (simp add: pg_aligned_nat pgrounddown_nat)

lemma pg_aligned_PGROUNDUP: "pg_aligned (PGROUNDUP a)"
  using pg_aligned_PGROUNDDOWN[of "a + 4095"]
  by (simp add: PGROUNDUP_def PGROUNDDOWN_def algebra_simps)

lemma PGROUNDDOWN_aligned: "pg_aligned a \<Longrightarrow> PGROUNDDOWN a = a"
  by (auto simp: word_unat_eq_iff pgrounddown_nat pg_aligned_nat)

section \<open>Page-table entries\<close>

lemma bit_lt_exp:
  fixes x :: "'a::len word"
  assumes "unat x < 2 ^ k" "bit x n"
  shows "n < k"
proof -
  have "take_bit k (unat x) = unat x"
    using assms(1) by (rule take_bit_nat_eq_self)
  moreover have "bit (unat x) n"
    using assms(2) by (simp add: bit_unsigned_iff)
  ultimately show ?thesis
    by (metis bit_take_bit_iff)
qed

text \<open>
  Physical addresses the machine can map have at most 56 bits; an entry built from an aligned
  address and ten flag bits gives both back.
\<close>

lemma PTE2PA_PA2PTE:
  assumes "pg_aligned pa" "unat pa < 2 ^ 56" "unat fl < 2 ^ 10"
  shows "PTE2PA (PA2PTE pa OR fl) = pa"
proof (rule bit_word_eqI)
  fix n assume n: "n < LENGTH(64)"
  show "bit (PTE2PA (PA2PTE pa OR fl)) n = bit pa n"
  proof (cases "n < 12")
    case True
    with assms(1) show ?thesis by (simp add: PTE2PA_def bit_simps pg_aligned_bits)
  next
    case False
    then obtain k where "n = 12 + k" using le_Suc_ex not_less by blast
    with bit_lt_exp[OF assms(2), of n] bit_lt_exp[OF assms(3), of "10 + k"] n show ?thesis
      by (auto simp: PTE2PA_def PA2PTE_def bit_simps)
  qed
qed

lemma PTE_FLAGS_PA2PTE:
  assumes "unat fl < 2 ^ 10"
  shows "PTE_FLAGS (PA2PTE pa OR fl) = fl"
proof (rule bit_word_eqI)
  fix n assume n: "n < LENGTH(64)"
  have m: "(0x3FF :: u64) = mask 10"
    by (simp add: mask_eq_exp_minus_1)
  show "bit (PTE_FLAGS (PA2PTE pa OR fl)) n = bit fl n"
    unfolding PTE_FLAGS_def m using bit_lt_exp[OF assms, of n] n
    by (auto simp: PA2PTE_def bit_simps)
qed

section \<open>Virtual addresses\<close>

lemma bit_PX: "bit (PX level va) n \<longleftrightarrow> n < 9 \<and> bit va (12 + 9 * level + n)"
proof -
  have m: "(0x1FF :: u64) = mask 9"
    by (simp add: mask_eq_exp_minus_1)
  show ?thesis
    unfolding PX_def PXSHIFT_def m by (auto simp: bit_simps)
qed

lemma PX_lt: "unat (PX level va) < 512"
proof -
  have "PX level va = take_bit 9 (PX level va)"
    by (rule bit_word_eqI) (auto simp: bit_PX bit_simps)
  then have "unat (PX level va) = unat (take_bit 9 (PX level va))"
    by simp
  also have "\<dots> = take_bit 9 (unat (PX level va))"
    by (simp add: unsigned_take_bit_eq)
  also have "\<dots> < 2 ^ 9"
    by (rule take_bit_nat_less_exp)
  finally show ?thesis by simp
qed

text \<open>A virtual address below \<open>MAXVA\<close> is its three indices and its offset.\<close>

lemma va_decompose:
  assumes "va < MAXVA"
  shows "va = push_bit 30 (PX 2 va) OR push_bit 21 (PX 1 va) OR push_bit 12 (PX 0 va) OR take_bit 12 va"
proof (rule bit_word_eqI)
  fix n assume n: "n < LENGTH(64)"
  have "unat va < 2 ^ 38"
    using assms by (simp add: word_less_nat_alt)
  then have lt: "bit va n \<Longrightarrow> n < 38"
    by (rule bit_lt_exp)
  consider "n < 12" | "12 \<le> n" "n < 21" | "21 \<le> n" "n < 30" | "30 \<le> n"
    by linarith
  then show "bit va n = bit (push_bit 30 (PX 2 va) OR push_bit 21 (PX 1 va) OR push_bit 12 (PX 0 va) OR take_bit 12 va) n"
    by cases (use n lt in \<open>auto simp: bit_PX bit_simps\<close>)
qed

lemma PX_inj:
  assumes "va < MAXVA" "vb < MAXVA" "pg_aligned va" "pg_aligned vb"
    and "PX 2 va = PX 2 vb" "PX 1 va = PX 1 vb" "PX 0 va = PX 0 vb"
  shows "va = vb"
proof -
  have "take_bit 12 va = 0" "take_bit 12 vb = 0"
    using assms(3,4) by (auto simp: pg_aligned_bits bit_eq_iff bit_take_bit_iff)
  then show ?thesis
    using va_decompose[OF assms(1)] va_decompose[OF assms(2)] assms(5-7) by simp
qed

end
