(* ===== verification/CString.thy ===== *)
theory CString
  imports Riscv
begin

text \<open>
  Physical memory as a function from addresses to bytes, little-endian word access, and the
  routines of kernel/string.c on it. Every routine is the C loop: it reads and writes memory
  in the order the code does, so overlapping arguments behave as they do in the program.
  The lemmas give closed forms: what \<open>memset\<close> and \<open>memmove\<close> leave in memory, which bytes
  \<open>safestrcpy\<close> and \<open>strncpy\<close> may write, and what the comparisons decide.
\<close>

type_synonym memory = "u64 \<Rightarrow> u8"

section \<open>Word access\<close>

text \<open>A value is stored least significant byte first.\<close>

primrec le_bytes :: "nat \<Rightarrow> 'a::len word \<Rightarrow> u8 list" where
  "le_bytes 0 v = []"
| "le_bytes (Suc n) v = ucast v # le_bytes n (drop_bit 8 v)"

primrec le_word :: "u8 list \<Rightarrow> 'a::len word" where
  "le_word [] = 0"
| "le_word (b # bs) = ucast b OR push_bit 8 (le_word bs)"

definition load_bytes :: "memory \<Rightarrow> u64 \<Rightarrow> nat \<Rightarrow> u8 list" where
  "load_bytes m a n = map (\<lambda>i. m (a + of_nat i)) [0..<n]"

definition store_bytes :: "memory \<Rightarrow> u64 \<Rightarrow> u8 list \<Rightarrow> memory" where
  "store_bytes m a bs = (\<lambda>x. if unat (x - a) < length bs then bs ! unat (x - a) else m x)"

definition load64 :: "memory \<Rightarrow> u64 \<Rightarrow> u64" where
  "load64 m a = le_word (load_bytes m a 8)"

definition store64 :: "memory \<Rightarrow> u64 \<Rightarrow> u64 \<Rightarrow> memory" where
  "store64 m a v = store_bytes m a (le_bytes 8 v)"

lemma length_le_bytes [simp]: "length (le_bytes n v) = n"
  by (induction n arbitrary: v) auto

lemma length_load_bytes [simp]: "length (load_bytes m a n) = n"
  by (simp add: load_bytes_def)

lemma bit_le_word:
  "bit (le_word bs :: 'a::len word) n \<longleftrightarrow>
     n < LENGTH('a) \<and> n div 8 < length bs \<and> bit (bs ! (n div 8)) (n mod 8)"
proof (induction bs arbitrary: n)
  case Nil
  then show ?case by simp
next
  case (Cons b bs)
  show ?case
  proof (cases "n < 8")
    case True
    then show ?thesis by (auto simp: bit_simps)
  next
    case False
    then obtain k where k: "n = 8 + k" using le_Suc_ex not_less by blast
    have "\<not> bit b (8 + k)"
      using bit_imp_le_length[of b "8 + k"] by auto
    moreover have "(8 + k) div 8 = Suc (k div 8)" by simp
    ultimately show ?thesis using Cons.IH[of k] k by (auto simp: bit_simps)
  qed
qed

lemma le_bytes_nth:
  "i < n \<Longrightarrow> le_bytes n v ! i = ucast (drop_bit (8 * i) v)"
proof (induction n arbitrary: v i)
  case 0
  then show ?case by simp
next
  case (Suc n)
  then show ?case by (cases i) (simp_all add: drop_bit_drop_bit add.commute)
qed

lemma le_word_le_bytes:
  assumes "LENGTH('a) \<le> 8 * n"
  shows "le_word (le_bytes n v) = (v :: 'a::len word)"
proof (rule bit_word_eqI)
  fix k assume k: "k < LENGTH('a)"
  with assms have "k div 8 < n" by auto
  then show "bit (le_word (le_bytes n v) :: 'a word) k = bit v k"
    using k by (simp add: bit_le_word le_bytes_nth bit_simps)
qed

lemma store_bytes_apply:
  "store_bytes m a bs x = (if unat (x - a) < length bs then bs ! unat (x - a) else m x)"
  by (simp add: store_bytes_def)

lemma unat_offset:
  fixes a :: u64
  shows "i < 2 ^ 64 \<Longrightarrow> unat (a + of_nat i - a) = i"
  by (simp add: unsigned_of_nat take_bit_nat_eq_self)

lemma load_store_bytes:
  assumes "length bs < 2 ^ 64"
  shows "load_bytes (store_bytes m a bs) a (length bs) = bs"
  using assms
  by (intro nth_equalityI) (auto simp: load_bytes_def store_bytes_apply unsigned_of_nat take_bit_nat_eq_self)

text \<open>Two address ranges that do not meet (without wrap-around).\<close>

definition disjoint_ranges :: "u64 \<Rightarrow> nat \<Rightarrow> u64 \<Rightarrow> nat \<Rightarrow> bool" where
  "disjoint_ranges a n b k \<longleftrightarrow> (\<forall>i < n. \<forall>j < k. a + of_nat i \<noteq> b + of_nat j)"

lemma load_store_bytes_disjoint:
  assumes "disjoint_ranges b n a (length bs)"
  shows "load_bytes (store_bytes m a bs) b n = load_bytes m b n"
proof (rule nth_equalityI)
  fix i assume "i < length (load_bytes (store_bytes m a bs) b n)"
  then have i: "i < n" by simp
  have "\<not> unat (b + of_nat i - a) < length bs"
  proof
    assume "unat (b + of_nat i - a) < length bs"
    then have "b + of_nat i \<noteq> a + of_nat (unat (b + of_nat i - a))"
      using assms i unfolding disjoint_ranges_def by blast
    then show False by simp
  qed
  with i show "load_bytes (store_bytes m a bs) b n ! i = load_bytes m b n ! i"
    by (simp add: load_bytes_def store_bytes_apply)
qed simp

lemma load64_store64 [simp]: "load64 (store64 m a v) a = v"
  using load_store_bytes[of "le_bytes 8 v" m a]
  by (simp add: load64_def store64_def le_word_le_bytes)

lemma load64_store64_disjoint:
  "disjoint_ranges b 8 a 8 \<Longrightarrow> load64 (store64 m a v) b = load64 m b"
  by (simp add: load64_def store64_def load_store_bytes_disjoint)


section \<open>kernel/string.c\<close>

text \<open>\<open>for(i = 0; i < n; i++) cdst[i] = c;\<close>\<close>

definition memset :: "memory \<Rightarrow> u64 \<Rightarrow> u8 \<Rightarrow> nat \<Rightarrow> memory" where
  "memset m dst c n = fold (\<lambda>i m. m(dst + of_nat i := c)) [0..<n] m"

text \<open>
  \<open>memcmp\<close> returns the difference of the first two bytes that differ.
\<close>

primrec memcmp :: "memory \<Rightarrow> u64 \<Rightarrow> u64 \<Rightarrow> nat \<Rightarrow> int" where
  "memcmp m s1 s2 0 = 0"
| "memcmp m s1 s2 (Suc n) =
     (if m s1 \<noteq> m s2 then uint (m s1) - uint (m s2) else memcmp m (s1 + 1) (s2 + 1) n)"

text \<open>The two copying loops of \<open>memmove\<close>: upwards, and downwards from the ends.\<close>

definition copy_up :: "memory \<Rightarrow> u64 \<Rightarrow> u64 \<Rightarrow> nat \<Rightarrow> memory" where
  "copy_up m dst src n = fold (\<lambda>i m. m(dst + of_nat i := m (src + of_nat i))) [0..<n] m"

definition copy_down :: "memory \<Rightarrow> u64 \<Rightarrow> u64 \<Rightarrow> nat \<Rightarrow> memory" where
  "copy_down m dst src n = fold (\<lambda>i m. m(dst + of_nat i := m (src + of_nat i))) (rev [0..<n]) m"

definition memmove :: "memory \<Rightarrow> u64 \<Rightarrow> u64 \<Rightarrow> nat \<Rightarrow> memory" where
  "memmove m dst src n =
     (if n = 0 then m
      else if src < dst \<and> src + of_nat n > dst then copy_down m dst src n
      else copy_up m dst src n)"

definition memcpy :: "memory \<Rightarrow> u64 \<Rightarrow> u64 \<Rightarrow> nat \<Rightarrow> memory" where
  "memcpy m dst src n = memmove m dst src n"

primrec strncmp :: "memory \<Rightarrow> u64 \<Rightarrow> u64 \<Rightarrow> nat \<Rightarrow> int" where
  "strncmp m p q 0 = 0"
| "strncmp m p q (Suc n) =
     (if m p \<noteq> 0 \<and> m p = m q then strncmp m (p + 1) (q + 1) n else uint (m p) - uint (m q))"

text \<open>
  The second loop of \<open>strncpy\<close> writes zeros to the rest of the destination; the first one
  stops at the terminating zero it has copied.
\<close>

primrec zero_fill :: "memory \<Rightarrow> u64 \<Rightarrow> nat \<Rightarrow> memory" where
  "zero_fill m s 0 = m"
| "zero_fill m s (Suc n) = zero_fill (m(s := 0)) (s + 1) n"

primrec strncpy :: "memory \<Rightarrow> u64 \<Rightarrow> u64 \<Rightarrow> nat \<Rightarrow> memory" where
  "strncpy m s t 0 = m"
| "strncpy m s t (Suc n) =
     (let c = m t; m' = m(s := c)
      in if c \<noteq> 0 then strncpy m' (s + 1) (t + 1) n else zero_fill m' (s + 1) n)"

text \<open>
  \<open>safestrcpy_loop m s t k\<close> is the loop \<open>while(--n > 0 && (*s++ = *t++) != 0)\<close> entered with
  \<open>n = k + 1\<close>, followed by \<open>*s = 0\<close>.
\<close>

primrec safestrcpy_loop :: "memory \<Rightarrow> u64 \<Rightarrow> u64 \<Rightarrow> nat \<Rightarrow> memory" where
  "safestrcpy_loop m s t 0 = m(s := 0)"
| "safestrcpy_loop m s t (Suc k) =
     (let c = m t; m' = m(s := c)
      in if c \<noteq> 0 then safestrcpy_loop m' (s + 1) (t + 1) k else m'(s + 1 := 0))"

definition safestrcpy :: "memory \<Rightarrow> u64 \<Rightarrow> u64 \<Rightarrow> int \<Rightarrow> memory" where
  "safestrcpy m s t n = (if n \<le> 0 then m else safestrcpy_loop m s t (nat n - 1))"

text \<open>\<open>strlen\<close> does not return when no zero byte follows.\<close>

partial_function (option) strlen_loop :: "memory \<Rightarrow> u64 \<Rightarrow> nat \<Rightarrow> nat option" where
  "strlen_loop m s n = (if m (s + of_nat n) = 0 then Some n else strlen_loop m s (Suc n))"

definition strlen :: "memory \<Rightarrow> u64 \<Rightarrow> nat option" where
  "strlen m s = strlen_loop m s 0"

subsection \<open>Closed forms of the copying routines\<close>

lemma offset_eq_iff:
  fixes a :: u64
  assumes "i < 2 ^ 64"
  shows "x = a + of_nat i \<longleftrightarrow> unat (x - a) = i"
proof
  assume "x = a + of_nat i"
  with assms show "unat (x - a) = i" by (simp add: unsigned_of_nat take_bit_nat_eq_self)
next
  assume "unat (x - a) = i"
  then have "of_nat i = x - a" by auto
  then show "x = a + of_nat i" by simp
qed

lemma memset_apply:
  assumes "n \<le> 2 ^ 64"
  shows "memset m dst c n x = (if unat (x - dst) < n then c else m x)"
  using assms
proof (induction n)
  case 0
  then show ?case by (simp add: memset_def)
next
  case (Suc n)
  then show ?case
    using offset_eq_iff[of n x dst] by (auto simp: memset_def less_Suc_eq)
qed

text \<open>What a copy must leave in memory: the destination holds the old source bytes.\<close>

definition copied :: "memory \<Rightarrow> u64 \<Rightarrow> u64 \<Rightarrow> nat \<Rightarrow> memory" where
  "copied m dst src n = (\<lambda>x. if unat (x - dst) < n then m (src + (x - dst)) else m x)"

lemma word_add_of_nat_neq:
  fixes dst src :: u64
  assumes "unat src + j < 2 ^ 64" "unat dst + i < 2 ^ 64" "unat src + j \<noteq> unat dst + i"
  shows "src + of_nat j \<noteq> dst + of_nat i"
proof
  assume "src + of_nat j = dst + of_nat i"
  then have "unat (src + of_nat j) = unat (dst + of_nat i)" by simp
  moreover have "unat (src + of_nat j) = unat src + j"
    using assms(1) by (intro unat_add_of_nat) simp
  moreover have "unat (dst + of_nat i) = unat dst + i"
    using assms(2) by (intro unat_add_of_nat) simp
  ultimately show False using assms(3) by simp
qed

lemma copy_up_apply:
  assumes "unat src + n \<le> 2 ^ 64" "unat dst + n \<le> 2 ^ 64"
    and "unat dst \<le> unat src \<or> unat src + n \<le> unat dst"
  shows "copy_up m dst src n x = copied m dst src n x"
  using assms
proof (induction n arbitrary: x)
  case 0
  then show ?case by (simp add: copy_up_def copied_def)
next
  case (Suc n)
  then have IH: "copy_up m dst src n y = copied m dst src n y" for y by auto
  have step: "copy_up m dst src (Suc n) = (copy_up m dst src n)(dst + of_nat n := copy_up m dst src n (src + of_nat n))"
    by (simp add: copy_up_def)
  have "\<not> unat (src + of_nat n - dst) < n"
  proof
    assume lt: "unat (src + of_nat n - dst) < n"
    define i where "i = unat (src + of_nat n - dst)"
    have "src + of_nat n \<noteq> dst + of_nat i"
      using Suc.prems lt unfolding i_def by (intro word_add_of_nat_neq) auto
    then show False by (simp add: i_def)
  qed
  then have "copy_up m dst src n (src + of_nat n) = m (src + of_nat n)"
    by (simp add: IH copied_def)
  then show ?case
    using Suc.prems offset_eq_iff[of n x dst] by (auto simp: step IH copied_def less_Suc_eq)
qed

lemma copy_down_Suc:
  "copy_down m dst src (Suc n) = copy_down (m(dst + of_nat n := m (src + of_nat n))) dst src n"
  by (simp add: copy_down_def)

lemma copy_down_apply:
  assumes "unat src + n \<le> 2 ^ 64" "unat dst + n \<le> 2 ^ 64" "unat src \<le> unat dst"
  shows "copy_down m dst src n x = copied m dst src n x"
  using assms
proof (induction n arbitrary: m x)
  case 0
  then show ?case by (simp add: copy_down_def copied_def)
next
  case (Suc n)
  let ?m = "m(dst + of_nat n := m (src + of_nat n))"
  have IH: "copy_down ?m dst src n x = copied ?m dst src n x"
    using Suc by auto
  have same: "?m (src + (x - dst)) = m (src + (x - dst))" if "unat (x - dst) < n"
  proof -
    have "src + of_nat (unat (x - dst)) \<noteq> dst + of_nat n"
      using Suc.prems that by (intro word_add_of_nat_neq) auto
    then show ?thesis by simp
  qed
  show ?case
    using Suc.prems same offset_eq_iff[of n x dst]
    unfolding copy_down_Suc IH copied_def by (auto simp: less_Suc_eq)
qed

lemma memmove_copied:
  assumes "unat src + n \<le> 2 ^ 64" "unat dst + n \<le> 2 ^ 64" "unat src + n < 2 ^ 64 \<or> dst \<le> src"
  shows "memmove m dst src n = copied m dst src n"
proof (rule ext)
  fix x
  show "memmove m dst src n x = copied m dst src n x"
  proof (cases "n = 0")
    case True
    then show ?thesis by (simp add: memmove_def copied_def)
  next
    case False
    show ?thesis
    proof (cases "src < dst")
      case True
      then have "unat (src + of_nat n) = unat src + n"
        using assms by (intro unat_add_of_nat) auto
      then have "src + of_nat n > dst \<longleftrightarrow> unat src + n > unat dst"
        by (simp add: word_less_nat_alt)
      then show ?thesis
        using False True assms copy_down_apply[of src n dst m x] copy_up_apply[of src n dst m x]
        by (auto simp: memmove_def word_less_nat_alt)
    next
      case le: False
      then show ?thesis
        using False assms copy_up_apply[of src n dst m x]
        by (auto simp: memmove_def word_less_nat_alt)
    qed
  qed
qed

subsection \<open>Strings\<close>

lemma strncmp_zero_iff:
  "strncmp m p q n = 0 \<longleftrightarrow>
     (\<forall>i < n. (\<forall>j < i. m (p + of_nat j) \<noteq> 0) \<longrightarrow> m (p + of_nat i) = m (q + of_nat i))"
proof (induction n arbitrary: p q)
  case 0
  then show ?case by simp
next
  case (Suc n)
  have split: "(\<forall>i < Suc n. P i) \<longleftrightarrow> P 0 \<and> (\<forall>i < n. P (Suc i))" for P
    using less_Suc_eq_0_disj by auto
  have split': "(\<forall>j < Suc i. P j) \<longleftrightarrow> P 0 \<and> (\<forall>j < i. P (Suc j))" for P i
    using less_Suc_eq_0_disj by auto
  have eq: "uint (m p) - uint (m q) = 0 \<longleftrightarrow> m p = m q"
    by (simp add: word_uint_eq_iff)
  show ?case
  proof (cases "m p \<noteq> 0 \<and> m p = m q")
    case True
    with Suc.IH[of "p + 1" "q + 1"] show ?thesis
      by (simp add: split split' algebra_simps)
  next
    case False
    then have "strncmp m p q (Suc n) = 0 \<longleftrightarrow> m p = m q"
      by (simp only: strncmp.simps if_False eq)
    with False show ?thesis by (auto simp: split split')
  qed
qed

lemma strlen_loop_Some:
  "strlen_loop m s n = Some k \<Longrightarrow> n \<le> k \<and> m (s + of_nat k) = 0 \<and> (\<forall>i. n \<le> i \<and> i < k \<longrightarrow> m (s + of_nat i) \<noteq> 0)"
proof (erule strlen_loop.raw_induct[rotated])
  fix f m s n k
  assume IH: "\<And>m s n k. f m s n = Some k \<Longrightarrow> n \<le> k \<and> m (s + of_nat k) = 0 \<and> (\<forall>i. n \<le> i \<and> i < k \<longrightarrow> m (s + of_nat i) \<noteq> 0)"
    and eq: "(if m (s + of_nat n) = 0 then Some n else f m s (Suc n)) = Some k"
  show "n \<le> k \<and> m (s + of_nat k) = 0 \<and> (\<forall>i. n \<le> i \<and> i < k \<longrightarrow> m (s + of_nat i) \<noteq> 0)"
  proof (cases "m (s + of_nat n) = 0")
    case True
    with eq show ?thesis by auto
  next
    case False
    with eq have "f m s (Suc n) = Some k" by simp
    then have k: "Suc n \<le> k" "m (s + of_nat k) = 0"
      and nz: "\<forall>i. Suc n \<le> i \<and> i < k \<longrightarrow> m (s + of_nat i) \<noteq> 0"
      using IH by blast+
    have "m (s + of_nat i) \<noteq> 0" if "n \<le> i" "i < k" for i
      using nz False that by (cases "i = n") auto
    with k show ?thesis by simp
  qed
qed

lemma strlen_loop_finds:
  assumes "m (s + of_nat (n + d)) = 0" "\<forall>i < d. m (s + of_nat (n + i)) \<noteq> 0"
  shows "strlen_loop m s n = Some (n + d)"
  using assms
proof (induction d arbitrary: n)
  case 0
  then show ?case by (subst strlen_loop.simps) simp
next
  case (Suc d)
  have "m (s + of_nat (Suc n + d)) = 0" using Suc.prems(1) by simp
  moreover have "m (s + of_nat (Suc n + i)) \<noteq> 0" if "i < d" for i
    using Suc.prems(2)[rule_format, of "Suc i"] that by simp
  ultimately have "strlen_loop m s (Suc n) = Some (Suc n + d)"
    using Suc.IH by blast
  moreover have "m (s + of_nat n) \<noteq> 0"
    using Suc.prems(2)[rule_format, of 0] by simp
  ultimately show ?case by (subst strlen_loop.simps) simp
qed

lemma strlen_iff:
  "strlen m s = Some n \<longleftrightarrow> m (s + of_nat n) = 0 \<and> (\<forall>i < n. m (s + of_nat i) \<noteq> 0)"
proof
  assume "strlen m s = Some n"
  then show "m (s + of_nat n) = 0 \<and> (\<forall>i < n. m (s + of_nat i) \<noteq> 0)"
    unfolding strlen_def by (blast dest: strlen_loop_Some)
next
  assume "m (s + of_nat n) = 0 \<and> (\<forall>i < n. m (s + of_nat i) \<noteq> 0)"
  then show "strlen m s = Some n"
    using strlen_loop_finds[of m s 0 n] unfolding strlen_def by simp
qed

lemma unat_offset_step:
  fixes x s :: u64
  assumes "x \<noteq> s"
  shows "unat (x - (s + 1)) = unat (x - s) - 1"
proof -
  have "x - (s + 1) = (x - s) - 1" by simp
  moreover have "x - s \<noteq> 0" using assms by simp
  ultimately show ?thesis by (metis unat_minus_one)
qed

lemma safestrcpy_loop_frame:
  "unat (x - s) > k \<Longrightarrow> safestrcpy_loop m s t k x = m x"
proof (induction k arbitrary: m s t)
  case 0
  then show ?case by auto
next
  case (Suc k)
  then have "x \<noteq> s" by auto
  with Suc.prems have "unat (x - (s + 1)) > k"
    by (simp add: unat_offset_step)
  moreover from this have "x \<noteq> s + 1" by auto
  ultimately show ?case
    using Suc.IH[of "s + 1"] \<open>x \<noteq> s\<close> by (simp add: Let_def)
qed

lemma disjoint_ranges_step:
  assumes "disjoint_ranges t (Suc k) s (Suc n)"
  shows "disjoint_ranges (t + 1) k (s + 1) n"
  unfolding disjoint_ranges_def
proof (intro allI impI)
  fix i j assume "i < k" "j < n"
  then have "t + of_nat (Suc i) \<noteq> s + of_nat (Suc j)"
    using assms unfolding disjoint_ranges_def by blast
  then show "t + 1 + of_nat i \<noteq> s + 1 + of_nat j" by (simp add: add.assoc)
qed

lemma disjoint_ranges_upd:
  assumes "disjoint_ranges t k s n" "i < k" "0 < n"
  shows "(m(s := c)) (t + of_nat i) = m (t + of_nat i)"
proof -
  have "t + of_nat i \<noteq> s + of_nat 0"
    using assms unfolding disjoint_ranges_def by blast
  then show ?thesis by simp
qed

text \<open>The result is the source string, cut to at most \<open>k\<close> bytes and terminated.\<close>

lemma safestrcpy_loop_copies:
  assumes "disjoint_ranges t k s (Suc k)" "k < 2 ^ 64 - 1"
  shows "\<exists>i \<le> k. safestrcpy_loop m s t k (s + of_nat i) = 0 \<and>
     (\<forall>j < i. safestrcpy_loop m s t k (s + of_nat j) = m (t + of_nat j) \<and> m (t + of_nat j) \<noteq> 0) \<and>
     (i < k \<longrightarrow> m (t + of_nat i) = 0)"
  using assms
proof (induction k arbitrary: m s t)
  case 0
  then show ?case by simp
next
  case (Suc k)
  define m' where "m' = m(s := m t)"
  have src: "m' (t + 1 + of_nat j) = m (t + 1 + of_nat j)" if "j < k" for j
    using disjoint_ranges_upd[OF Suc.prems(1), of "Suc j" m "m t"] that
    by (simp add: m'_def algebra_simps)
  show ?case
  proof (cases "m t = 0")
    case True
    have "safestrcpy_loop m s t (Suc k) s = 0"
      using True by (simp add: Let_def)
    with True show ?thesis by (intro exI[of _ 0]) simp
  next
    case False
    let ?r = "safestrcpy_loop m' (s + 1) (t + 1) k"
    have r: "safestrcpy_loop m s t (Suc k) = ?r"
      using False by (simp add: m'_def Let_def)
    have "disjoint_ranges (t + 1) k (s + 1) (Suc k)"
      by (rule disjoint_ranges_step[OF Suc.prems(1)])
    then obtain i where i: "i \<le> k" "?r (s + 1 + of_nat i) = 0"
      and cp: "\<forall>j < i. ?r (s + 1 + of_nat j) = m' (t + 1 + of_nat j) \<and> m' (t + 1 + of_nat j) \<noteq> 0"
      and last: "i < k \<longrightarrow> m' (t + 1 + of_nat i) = 0"
      using Suc.IH[of "t + 1" "s + 1" m'] Suc.prems(2) by auto
    have "unat (- 1 :: u64) = 18446744073709551615"
      by (simp add: unsigned_minus_1_eq_mask mask_eq_exp_minus_1)
    then have "unat (s - (s + 1)) > k"
      using Suc.prems(2) by simp
    then have s0: "?r s = m t"
      by (simp add: safestrcpy_loop_frame m'_def)
    have "?r (s + of_nat j) = m (t + of_nat j) \<and> m (t + of_nat j) \<noteq> 0" if "j < Suc i" for j
      using that s0 False cp src i(1) by (cases j) (auto simp: algebra_simps)
    moreover have "Suc i < Suc k \<longrightarrow> m (t + of_nat (Suc i)) = 0"
      using last src[of i] by (auto simp: algebra_simps)
    ultimately show ?thesis
      using i unfolding r by (intro exI[of _ "Suc i"]) (simp add: algebra_simps)
  qed
qed

lemma zero_fill_apply:
  "n \<le> 2 ^ 64 \<Longrightarrow> zero_fill m s n x = (if unat (x - s) < n then 0 else m x)"
proof (induction n arbitrary: m s)
  case 0
  then show ?case by simp
next
  case (Suc n)
  then have IH: "zero_fill (m(s := 0)) (s + 1) n x = (if unat (x - (s + 1)) < n then 0 else (m(s := 0)) x)"
    by simp
  show ?case
  proof (cases "x = s")
    case True
    with IH show ?thesis by simp
  next
    case False
    then have "0 < unat (x - s)" by (simp add: unat_gt_0)
    with IH False show ?thesis by (auto simp: unat_offset_step)
  qed
qed

lemma strncpy_frame:
  "n \<le> 2 ^ 64 \<Longrightarrow> unat (x - s) \<ge> n \<Longrightarrow> strncpy m s t n x = m x"
proof (induction n arbitrary: m s t)
  case 0
  then show ?case by simp
next
  case (Suc n)
  then have "x \<noteq> s" by auto
  with Suc.prems have "unat (x - (s + 1)) \<ge> n"
    by (simp add: unat_offset_step)
  with Suc \<open>x \<noteq> s\<close> show ?case
    by (simp add: Let_def zero_fill_apply)
qed

text \<open>Exactly \<open>n\<close> bytes are written: the source string, padded with zeros.\<close>

lemma strncpy_copies:
  assumes "disjoint_ranges t n s n" "n < 2 ^ 64" "i < n"
  shows "strncpy m s t n (s + of_nat i) = (if \<exists>j < i. m (t + of_nat j) = 0 then 0 else m (t + of_nat i))"
  using assms
proof (induction n arbitrary: m s t i)
  case 0
  then show ?case by simp
next
  case (Suc n)
  define m' where "m' = m(s := m t)"
  have src: "m' (t + 1 + of_nat j) = m (t + 1 + of_nat j)" if "j < n" for j
    using disjoint_ranges_upd[OF Suc.prems(1), of "Suc j" m "m t"] that
    by (simp add: m'_def algebra_simps)
  have m1: "unat (- 1 :: u64) = 18446744073709551615"
    by (simp add: unsigned_minus_1_eq_mask mask_eq_exp_minus_1)
  have split: "(\<exists>j < Suc k. P j) \<longleftrightarrow> P 0 \<or> (\<exists>j < k. P (Suc j))" for P and k :: nat
    using less_Suc_eq_0_disj by auto
  show ?case
  proof (cases "m t = 0")
    case True
    then have "strncpy m s t (Suc n) (s + of_nat i) = zero_fill m' (s + 1) n (s + of_nat i)"
      by (simp add: m'_def Let_def)
    also have "\<dots> = 0"
      using Suc.prems(2,3) True
      by (cases i) (auto simp: zero_fill_apply m'_def unsigned_of_nat take_bit_nat_eq_self m1)
    finally show ?thesis using True by (cases i) (auto intro: exI[of _ 0])
  next
    case False
    then have r: "strncpy m s t (Suc n) = strncpy m' (s + 1) (t + 1) n"
      by (simp add: m'_def Let_def)
    show ?thesis
    proof (cases i)
      case 0
      have "strncpy m' (s + 1) (t + 1) n s = m' s"
        using Suc.prems(2) by (intro strncpy_frame) (simp_all add: m1)
      with 0 r show ?thesis by (simp add: m'_def)
    next
      case (Suc k)
      have "strncpy m' (s + 1) (t + 1) n (s + 1 + of_nat k) =
          (if \<exists>j < k. m' (t + 1 + of_nat j) = 0 then 0 else m' (t + 1 + of_nat k))"
        using Suc Suc.prems disjoint_ranges_step[OF Suc.prems(1)]
        by (intro Suc.IH) auto
      moreover have "(\<exists>j < k. m' (t + 1 + of_nat j) = 0) \<longleftrightarrow> (\<exists>j < k. m (t + of_nat (Suc j)) = 0)"
        using src Suc Suc.prems(3) by (auto simp: algebra_simps)
      moreover have "m' (t + 1 + of_nat k) = m (t + of_nat (Suc k))"
        using src[of k] Suc Suc.prems(3) by (simp add: algebra_simps)
      ultimately show ?thesis
        using False unfolding r Suc split by (auto simp: add.assoc)
    qed
  qed
qed

lemma disjoint_rangesI:
  assumes "unat a + n \<le> 2 ^ 64" "unat b + k \<le> 2 ^ 64"
    and "unat a + n \<le> unat b \<or> unat b + k \<le> unat a"
  shows "disjoint_ranges a n b k"
  unfolding disjoint_ranges_def
proof (intro allI impI)
  fix i j assume "i < n" "j < k"
  with assms show "a + of_nat i \<noteq> b + of_nat j"
    by (intro word_add_of_nat_neq) auto
qed

section \<open>Properties\<close>

text \<open>
  C20: \<open>memmove\<close> copies correctly even when source and destination overlap: afterwards the
  destination holds the bytes the source held before the call, and no other byte of memory
  has changed, whichever of the two copying directions the code takes.
\<close>

theorem memmove_correct:
  assumes "unat src + n < 2 ^ 64" "unat dst + n < 2 ^ 64"
  shows "(\<forall>i < n. memmove m dst src n (dst + of_nat i) = m (src + of_nat i)) \<and>
     (\<forall>x. unat (x - dst) \<ge> n \<longrightarrow> memmove m dst src n x = m x)"
  using assms by (auto simp: memmove_copied copied_def unsigned_of_nat take_bit_nat_eq_self)

theorem memmove_correct_witness:
  "memmove (\<lambda>a. ucast a) 0x80000002 0x80000000 4 0x80000003 = 1"
  using memmove_correct[where src = "0x80000000" and n = 4 and dst = "0x80000002" and m = "\<lambda>a. ucast a"]
  by (auto dest!: spec[of _ 1])

text \<open>
  \<open>safestrcpy(s, t, n)\<close> with positive \<open>n\<close> writes only the \<open>n\<close> bytes from \<open>s\<close>, and leaves
  there a zero-terminated copy of the string at \<open>t\<close>, cut to \<open>n - 1\<close> bytes when it is longer.
\<close>

theorem safestrcpy_terminates_string:
  assumes "0 < n" "n < 2 ^ 31" "disjoint_ranges t (nat n - 1) s (nat n)"
  shows "(\<forall>x. unat (x - s) \<ge> nat n \<longrightarrow> safestrcpy m s t n x = m x) \<and>
    (\<exists>i < nat n. strlen (safestrcpy m s t n) s = Some i \<and>
       (\<forall>j < i. safestrcpy m s t n (s + of_nat j) = m (t + of_nat j)) \<and>
       (i < nat n - 1 \<longrightarrow> m (t + of_nat i) = 0))"
proof -
  define k where "k = nat n - 1"
  have n: "nat n = Suc k" and k: "k < 2 ^ 64 - 1" using assms by (simp_all add: k_def)
  have r: "safestrcpy m s t n = safestrcpy_loop m s t k"
    using assms(1) by (simp add: safestrcpy_def k_def)
  obtain i where "i \<le> k" "safestrcpy_loop m s t k (s + of_nat i) = 0"
    "\<forall>j < i. safestrcpy_loop m s t k (s + of_nat j) = m (t + of_nat j) \<and> m (t + of_nat j) \<noteq> 0"
    "i < k \<longrightarrow> m (t + of_nat i) = 0"
    using safestrcpy_loop_copies[of t k s m] assms(3) k n by auto
  then show ?thesis
    unfolding r n using safestrcpy_loop_frame[of k _ s m t]
    by (auto simp: strlen_iff intro!: exI[of _ i])
qed

theorem safestrcpy_terminates_string_witness:
  "strlen (safestrcpy (\<lambda>_. 65) 0x80000000 0x90000000 4) 0x80000000 = Some 3"
proof -
  have "disjoint_ranges 0x90000000 3 (0x80000000 :: u64) 4"
    by (rule disjoint_rangesI) simp_all
  then obtain i where "i < 4" "strlen (safestrcpy (\<lambda>_. 65) 0x80000000 0x90000000 4) 0x80000000 = Some i"
    "i < 3 \<longrightarrow> (65 :: u8) = 0"
    using safestrcpy_terminates_string[where n = 4 and t = "0x90000000" and s = "0x80000000" and m = "\<lambda>_. 65"]
    by auto
  then show ?thesis by (cases "i = 3") auto
qed

end
