(* ===== verification/Pages.thy ===== *)
theory Pages
  imports CString
begin

text \<open>
  Physical memory seen as page frames. An address lies in the frame \<open>PGROUNDDOWN\<close> gives, so
  separation of frames is inequality of addresses. The theory gives the frame rules that the
  allocator and the page tables use: what a store, \<open>memset\<close> or \<open>memmove\<close> to one frame leaves
  alone, and 64-bit slots inside a frame.
\<close>

section \<open>Frames\<close>

lemma in_frame_iff:
  assumes "pg_aligned a"
  shows "PGROUNDDOWN x = a \<longleftrightarrow> unat (x - a) < 4096"
proof -
  obtain k where k: "unat a = 4096 * k"
    using assms by (auto simp: pg_aligned_nat)
  then have "k < 4503599627370496" using unat_lt_64[of a] by simp
  then have bound: "unat a + 4096 \<le> 18446744073709551616" using k by simp
  show ?thesis
  proof
    assume "PGROUNDDOWN x = a"
    then have d: "unat a = unat x div 4096 * 4096" using pgrounddown_nat[of x] by simp
    then have "a \<le> x" by (simp add: word_le_nat_alt)
    then show "unat (x - a) < 4096" using d by (simp add: unat_sub minus_div_mult_eq_mod)
  next
    assume l: "unat (x - a) < 4096"
    then have "unat x = unat a + unat (x - a)"
      using bound unat_add_nowrap[of a "x - a"] by simp
    then have "unat x div 4096 * 4096 = unat a" using k l by simp
    then show "PGROUNDDOWN x = a" by (simp add: word_unat_eq_iff pgrounddown_nat)
  qed
qed

lemma frame_offset:
  assumes "pg_aligned a" "unat k < 4096"
  shows "PGROUNDDOWN (a + k) = a"
  using assms by (simp add: in_frame_iff)

lemma frame_self: "pg_aligned a \<Longrightarrow> PGROUNDDOWN a = a"
  by (rule PGROUNDDOWN_aligned)

lemma frame_split:
  "x = PGROUNDDOWN x + (x - PGROUNDDOWN x)" "unat (x - PGROUNDDOWN x) < 4096"
  using in_frame_iff[OF pg_aligned_PGROUNDDOWN, of x x] by simp_all

text \<open>Two memories that agree on one frame.\<close>

definition same_frame :: "u64 \<Rightarrow> memory \<Rightarrow> memory \<Rightarrow> bool" where
  "same_frame a m m' \<longleftrightarrow> (\<forall>x. PGROUNDDOWN x = a \<longrightarrow> m x = m' x)"

lemma same_frame_refl [simp]: "same_frame a m m"
  by (simp add: same_frame_def)

lemma same_frame_sym: "same_frame a m m' \<Longrightarrow> same_frame a m' m"
  by (simp add: same_frame_def)

lemma same_frame_trans: "\<lbrakk>same_frame a m m'; same_frame a m' m''\<rbrakk> \<Longrightarrow> same_frame a m m''"
  by (simp add: same_frame_def)

section \<open>Slots\<close>

text \<open>A frame is an array of 512 64-bit slots.\<close>

definition slot :: "u64 \<Rightarrow> nat \<Rightarrow> u64" where
  "slot a i = a + 8 * of_nat i"

lemma slot_0 [simp]: "slot a 0 = a"
  by (simp add: slot_def)

lemma slot_byte: "slot a i + of_nat j = a + of_nat (8 * i + j)"
  by (simp add: slot_def)

lemma unat_of_nat_small: "n < 18446744073709551616 \<Longrightarrow> unat (of_nat n :: u64) = n"
  by (simp add: unsigned_of_nat take_bit_nat_eq_self)

lemma frame_slot:
  assumes "pg_aligned a" "i < 512" "j < 8"
  shows "PGROUNDDOWN (slot a i + of_nat j) = a"
  unfolding slot_byte using assms
  by (intro frame_offset) (simp_all add: unat_of_nat_small del: of_nat_add of_nat_mult)

lemma load64_same_frame:
  assumes "same_frame a m m'" "pg_aligned a" "i < 512"
  shows "load64 m (slot a i) = load64 m' (slot a i)"
proof -
  have "load_bytes m (slot a i) 8 = load_bytes m' (slot a i) 8"
    using assms frame_slot[OF assms(2,3)]
    by (auto simp: load_bytes_def same_frame_def)
  then show ?thesis by (simp add: load64_def)
qed

lemma slots_disjoint:
  assumes "i < 512" "j < 512" "i \<noteq> j"
  shows "disjoint_ranges (slot a i) 8 (slot a j) 8"
  unfolding disjoint_ranges_def
proof (intro allI impI)
  fix k l :: nat assume kl: "k < 8" "l < 8"
  have "8 * i + k \<noteq> 8 * j + l" using assms(3) kl by presburger
  then have "(of_nat (8 * i + k) :: u64) \<noteq> of_nat (8 * j + l)"
    using assms kl by (simp add: word_unat_eq_iff unat_of_nat_small del: of_nat_add of_nat_mult)
  then show "slot a i + of_nat k \<noteq> slot a j + of_nat l"
    unfolding slot_byte by simp
qed

lemma load64_slot_store64:
  assumes "i < 512" "j < 512"
  shows "load64 (store64 m (slot a j) v) (slot a i) = (if i = j then v else load64 m (slot a i))"
  using assms by (simp add: load64_store64_disjoint slots_disjoint)

lemma store64_other_frame:
  assumes "pg_aligned a" "i < 512" "b \<noteq> a"
  shows "same_frame b (store64 m (slot a i) v) m"
  unfolding same_frame_def
proof (intro allI impI)
  fix x assume x: "PGROUNDDOWN x = b"
  have "\<not> unat (x - slot a i) < 8"
  proof
    assume l: "unat (x - slot a i) < 8"
    have "x = slot a i + of_nat (unat (x - slot a i))" by simp
    with frame_slot[OF assms(1,2) l] x assms(3) show False by simp
  qed
  then show "store64 m (slot a i) v x = m x"
    by (simp add: store64_def store_bytes_apply length_le_bytes)
qed

lemma memset_frame:
  assumes "pg_aligned a"
  shows "memset m a c 4096 x = (if PGROUNDDOWN x = a then c else m x)"
  using assms by (simp add: memset_apply in_frame_iff)

lemma memset_other_frame: "\<lbrakk>pg_aligned a; b \<noteq> a\<rbrakk> \<Longrightarrow> same_frame b (memset m a c 4096) m"
  by (simp add: same_frame_def memset_frame)

text \<open>A zeroed frame reads as zero slots.\<close>

lemma load64_zero:
  assumes "\<And>j. j < 8 \<Longrightarrow> m (a + of_nat j) = 0"
  shows "load64 m a = 0"
proof -
  have "load_bytes m a 8 = replicate 8 0"
    using assms by (intro nth_equalityI) (simp_all add: load_bytes_def)
  then show ?thesis by (simp add: load64_def numeral_eq_Suc)
qed

lemma load64_memset_0:
  assumes "pg_aligned a" "i < 512"
  shows "load64 (memset m a 0 4096) (slot a i) = 0"
  using assms by (intro load64_zero) (simp add: memset_frame frame_slot)

end
