(* ===== verification/Spinlock.thy ===== *)
theory Spinlock
  imports CString
begin

text \<open>
  The machine state of the executing hart and kernel/spinlock.c. A kernel operation is a
  function of this record or of one that extends it: physical memory, the hart number, the
  supervisor status register, the per-CPU structures and every spin lock of the kernel.

  The lemmas give the effect of a critical section: \<open>acquire\<close> of a free lock succeeds, and the
  matching \<open>release\<close> gives back the locks, the nesting depth and the interrupt flag as they
  were, for any code in between that leaves them alone. The last part models several harts
  that run the instructions of \<open>acquire\<close> and \<open>release\<close> on one lock in any interleaving.
\<close>

section \<open>State\<close>

text \<open>The spin locks of the kernel, by the structure they sit in.\<close>

datatype lockid =
    KmemLock | PidLock | WaitLock | ProcLock nat | TicksLock | ConsLock | PrLock | UartTxLock
  | VdiskLock | BcacheLock | BufLk nat | ItableLock | InodeLk nat | FtableLock | LogLock
  | PipeLock u64

text \<open>The addresses the kernel sleeps on.\<close>

datatype wchan =
    ChTicks | ChProc nat | ChLog | ChSleeplock lockid | ChPipeRead u64
  | ChPipeWrite u64 | ChCons | ChUart | ChDiskFree | ChBuf nat

type_synonym ('a, 's) kernel = "(wchan option, 'a, 's) kop"

record spinlock =
  locked :: u32
  lk_name :: string
  lk_cpu :: "nat option"

record kcontext =
  ctx_ra :: u64
  ctx_sp :: u64
  ctx_s :: "u64 list"

record cpu =
  cpu_proc :: "nat option"
  cpu_context :: kcontext
  noff :: int
  intena :: bool

record machine =
  mem :: memory
  tp :: nat
  sstatus :: u64
  cpus :: "nat \<Rightarrow> cpu"
  locks :: "lockid \<Rightarrow> spinlock"

text \<open>The state with zeroed data segment and interrupts enabled, used for concrete runs.\<close>

definition zero_cpu :: cpu where
  "zero_cpu = \<lparr>cpu_proc = None, cpu_context = \<lparr>ctx_ra = 0, ctx_sp = 0, ctx_s = replicate 12 0\<rparr>,
     noff = 0, intena = False\<rparr>"

definition zero_machine :: machine where
  "zero_machine = \<lparr>mem = \<lambda>_. 0, tp = 0, sstatus = 2, cpus = \<lambda>_. zero_cpu,
     locks = \<lambda>_. \<lparr>locked = 0, lk_name = [], lk_cpu = None\<rparr>\<rparr>"

section \<open>Interrupts\<close>

abbreviation (input) SSTATUS_SIE :: u64 where "SSTATUS_SIE \<equiv> 2"
abbreviation (input) SSTATUS_SPIE :: u64 where "SSTATUS_SPIE \<equiv> 32"
abbreviation (input) SSTATUS_SPP :: u64 where "SSTATUS_SPP \<equiv> 256"

definition intr_on :: "'z machine_scheme \<Rightarrow> 'z machine_scheme" where
  "intr_on s = s\<lparr>sstatus := sstatus s OR SSTATUS_SIE\<rparr>"

definition intr_off :: "'z machine_scheme \<Rightarrow> 'z machine_scheme" where
  "intr_off s = s\<lparr>sstatus := sstatus s AND NOT SSTATUS_SIE\<rparr>"

definition intr_get :: "'z machine_scheme \<Rightarrow> bool" where
  "intr_get s \<longleftrightarrow> sstatus s AND SSTATUS_SIE \<noteq> 0"

definition cpuid :: "'z machine_scheme \<Rightarrow> nat" where
  "cpuid s = tp s"

definition mycpu :: "'z machine_scheme \<Rightarrow> cpu" where
  "mycpu s = cpus s (cpuid s)"

definition upd_mycpu :: "(cpu \<Rightarrow> cpu) \<Rightarrow> 'z machine_scheme \<Rightarrow> 'z machine_scheme" where
  "upd_mycpu f s = s\<lparr>cpus := (cpus s)(cpuid s := f (mycpu s))\<rparr>"

section \<open>kernel/spinlock.c\<close>

definition initlock :: "lockid \<Rightarrow> string \<Rightarrow> 'z machine_scheme \<Rightarrow> 'z machine_scheme" where
  "initlock l name s =
     s\<lparr>locks := (locks s)(l := \<lparr>locked = 0, lk_name = name, lk_cpu = None\<rparr>)\<rparr>"

definition push_off :: "(unit, 'z machine_scheme) kernel" where
  "push_off =
     bindk (getk intr_get) (\<lambda>old.
     bindk (modifyk intr_off) (\<lambda>_.
     bindk (getk (\<lambda>s. noff (mycpu s))) (\<lambda>n.
     bindk (whenk (n = 0) (modifyk (upd_mycpu (intena_update (\<lambda>_. old))))) (\<lambda>_.
     modifyk (upd_mycpu (\<lambda>c. c\<lparr>noff := noff c + 1\<rparr>))))))"

definition pop_off :: "(unit, 'z machine_scheme) kernel" where
  "pop_off =
     bindk (getk intr_get) (\<lambda>on. if on then panick ''pop_off - interruptible'' else
     bindk (getk (\<lambda>s. noff (mycpu s))) (\<lambda>n. if n < 1 then panick ''pop_off'' else
     bindk (modifyk (upd_mycpu (\<lambda>c. c\<lparr>noff := noff c - 1\<rparr>))) (\<lambda>_.
     bindk (getk mycpu) (\<lambda>c.
     whenk (noff c = 0 \<and> intena c) (modifyk intr_on)))))"

definition holding :: "lockid \<Rightarrow> 'z machine_scheme \<Rightarrow> bool" where
  "holding l s \<longleftrightarrow> locked (locks s l) \<noteq> 0 \<and> lk_cpu (locks s l) = Some (cpuid s)"

text \<open>
  The atomic swap loops while the old value is not 0: with nothing else running, a lock that
  is held stays held, so the loop does not end.
\<close>

definition test_and_set :: "lockid \<Rightarrow> (unit, 'z machine_scheme) kernel" where
  "test_and_set l s =
     (if locked (locks s l) \<noteq> 0 then Spins
      else Ok () (s\<lparr>locks := (locks s)(l := (locks s l)\<lparr>locked := 1\<rparr>)\<rparr>))"

definition acquire :: "lockid \<Rightarrow> (unit, 'z machine_scheme) kernel" where
  "acquire l =
     bindk push_off (\<lambda>_.
     bindk (getk (holding l)) (\<lambda>h. if h then panick ''acquire'' else
     bindk (test_and_set l) (\<lambda>_.
     modifyk (\<lambda>s. s\<lparr>locks := (locks s)(l := (locks s l)\<lparr>lk_cpu := Some (cpuid s)\<rparr>)\<rparr>))))"

definition release :: "lockid \<Rightarrow> (unit, 'z machine_scheme) kernel" where
  "release l =
     bindk (getk (holding l)) (\<lambda>h. if \<not> h then panick ''release'' else
     bindk (modifyk (\<lambda>s. s\<lparr>locks := (locks s)(l := (locks s l)\<lparr>lk_cpu := None\<rparr>)\<rparr>)) (\<lambda>_.
     bindk (modifyk (\<lambda>s. s\<lparr>locks := (locks s)(l := (locks s l)\<lparr>locked := 0\<rparr>)\<rparr>)) (\<lambda>_.
     pop_off)))"

section \<open>Critical sections\<close>

text \<open>
  Interrupts are off whenever the hart is inside a nested \<open>push_off\<close>, and a lock is free when
  it is neither taken nor attributed to a hart.
\<close>

definition intr_ok :: "'z machine_scheme \<Rightarrow> bool" where
  "intr_ok s \<longleftrightarrow> 0 \<le> noff (mycpu s) \<and> (0 < noff (mycpu s) \<longrightarrow> \<not> intr_get s)"

definition lock_free :: "lockid \<Rightarrow> 'z machine_scheme \<Rightarrow> bool" where
  "lock_free l s \<longleftrightarrow> locked (locks s l) = 0 \<and> lk_cpu (locks s l) = None"

text \<open>The state right after \<open>acquire l\<close>.\<close>

definition entered :: "lockid \<Rightarrow> 'z machine_scheme \<Rightarrow> 'z machine_scheme" where
  "entered l s =
     s\<lparr>sstatus := sstatus s AND NOT SSTATUS_SIE,
       cpus := (cpus s)(tp s := (mycpu s)\<lparr>
         intena := (if noff (mycpu s) = 0 then intr_get s else intena (mycpu s)),
         noff := noff (mycpu s) + 1\<rparr>),
       locks := (locks s)(l := (locks s l)\<lparr>locked := 1, lk_cpu := Some (tp s)\<rparr>)\<rparr>"

text \<open>
  The per-CPU structures after a critical section: as before it, but for the saved interrupt
  flag, which an outermost \<open>push_off\<close> sets.
\<close>

definition cs_cpus :: "'z machine_scheme \<Rightarrow> nat \<Rightarrow> cpu" where
  "cs_cpus s = (cpus s)(tp s :=
     (if noff (mycpu s) = 0 then (mycpu s)\<lparr>intena := intr_get s\<rparr> else mycpu s))"

abbreviation touch :: "'z machine_scheme \<Rightarrow> 'z machine_scheme" where
  "touch s \<equiv> s\<lparr>cpus := cs_cpus s\<rparr>"

lemmas cpu_defs = mycpu_def cpuid_def upd_mycpu_def intr_on_def intr_off_def intr_get_def

lemma sie_clear [simp]: "(x AND -3) AND 2 = (0 :: u64)"
  by (rule bit_word_eqI) (auto simp: bit_simps simp flip: not_eq_complement)

lemma and_2_iff: "x AND 2 \<noteq> (0 :: u64) \<longleftrightarrow> bit x 1"
proof -
  have "(2 :: u64) = 2 ^ 1" by simp
  then show ?thesis by (metis and_exp_eq_0_iff_not_bit)
qed

lemma bit_2_iff: "bit (2 :: u64) n \<longleftrightarrow> n = 1"
  using bit_exp_iff[of 1 n, where 'a = "64 word"] by auto

lemma sie_restore:
  fixes x :: u64
  shows "x AND 2 \<noteq> 0 \<Longrightarrow> x AND -3 OR 2 = x"
    and "x AND 2 = 0 \<Longrightarrow> x AND -3 = x"
proof -
  have m: "(-3 :: u64) = NOT 2" by simp
  show "x AND -3 OR 2 = x" if "x AND 2 \<noteq> 0"
    using that unfolding m and_2_iff by (intro bit_word_eqI) (auto simp: bit_simps bit_2_iff)
  show "x AND -3 = x" if "x AND 2 = 0"
    using that and_2_iff[of x] unfolding m by (intro bit_word_eqI) (auto simp: bit_simps bit_2_iff)
qed

lemma acquire_free:
  assumes "lock_free l s"
  shows "acquire l s = Ok () (entered l s)"
  using assms
  by (simp add: acquire_def push_off_def test_and_set_def holding_def lock_free_def entered_def
      cpu_defs kop_simps whenk_def bindk_def)

lemma acquire_held:
  assumes "locked (locks s l) \<noteq> 0" "lk_cpu (locks s l) \<noteq> Some (tp s)"
  shows "acquire l s = Spins"
  using assms
  by (simp add: acquire_def push_off_def test_and_set_def holding_def cpu_defs kop_simps whenk_def bindk_def)

lemma acquire_twice:
  assumes "locked (locks s l) \<noteq> 0" "lk_cpu (locks s l) = Some (tp s)"
  shows "acquire l s = Panic ''acquire''"
  using assms
  by (simp add: acquire_def push_off_def test_and_set_def holding_def cpu_defs kop_simps whenk_def bindk_def)

lemma release_not_held:
  assumes "\<not> holding l s"
  shows "release l s = Panic ''release''"
  using assms by (simp add: release_def kop_simps bindk_def)

text \<open>
  The rule for critical sections: whatever the section does, if it leaves the hart, the status
  register, the per-CPU structures and the locks as \<open>acquire\<close> left them, then \<open>release\<close>
  restores them.
\<close>

lemma release_entered:
  assumes "lock_free l s" "intr_ok s"
    and "tp t = tp s" "sstatus t = sstatus (entered l s)" "cpus t = cpus (entered l s)"
    and "locks t = locks (entered l s)"
  shows "release l t = Ok () (t\<lparr>sstatus := sstatus s, cpus := cs_cpus s, locks := locks s\<rparr>)"
proof -
  let ?n = "noff (cpus s (tp s))"
  have lk: "(locks s)(l := (locks s l)\<lparr>lk_cpu := None, locked := 0\<rparr>) = locks s"
    using assms(1) by (simp add: lock_free_def)
  have n: "0 \<le> ?n" "0 < ?n \<Longrightarrow> sstatus s AND 2 = 0"
    using assms(2) by (auto simp: intr_ok_def cpu_defs)
  have cpu0: "c\<lparr>intena := e, noff := 0\<rparr> = c\<lparr>intena := e\<rparr>" if "noff c = 0" for c :: cpu and e
    using that by (simp add: cpu.equality)
  note unf = release_def pop_off_def holding_def entered_def cs_cpus_def cpu_defs kop_simps
    whenk_def bindk_def
  have "release l t = Ok () (t\<lparr>locks := locks s, cpus := cs_cpus s, sstatus := sstatus s\<rparr>)"
  proof (cases "?n = 0")
    case True
    then show ?thesis
      using assms(3-6) lk sie_restore[of "sstatus s"]
      by (cases "sstatus s AND 2 = 0") (simp_all add: unf machine.equality cpu0)
  next
    case False
    then show ?thesis
      using assms(3-6) lk n sie_restore[of "sstatus s"] by (simp add: unf machine.equality)
  qed
  then show ?thesis by (simp add: machine.equality)
qed

lemma intr_ok_entered: "intr_ok s \<Longrightarrow> intr_ok (entered l s)"
  by (simp add: intr_ok_def entered_def cpu_defs)

lemma lock_free_entered: "l' \<noteq> l \<Longrightarrow> lock_free l' (entered l s) \<longleftrightarrow> lock_free l' s"
  by (simp add: lock_free_def entered_def)

lemma cs_cpus_entered: "intr_ok s \<Longrightarrow> cs_cpus (entered l s) = cpus (entered l s)"
  by (auto simp: cs_cpus_def entered_def cpu_defs intr_ok_def)

lemma noff_cs_cpus [simp]: "noff (cs_cpus s h) = noff (cpus s h)"
  by (simp add: cs_cpus_def cpu_defs)

lemma cpu_proc_cs_cpus [simp]: "cpu_proc (cs_cpus s h) = cpu_proc (cpus s h)"
  by (simp add: cs_cpus_def cpu_defs)

lemma cs_cpus_idem: "intr_ok s \<Longrightarrow> cs_cpus (touch s) = cs_cpus s"
  by (auto simp: cs_cpus_def cpu_defs fun_eq_iff)

lemma intr_ok_touch: "intr_ok (touch s) \<longleftrightarrow> intr_ok s"
  by (auto simp: intr_ok_def cs_cpus_def cpu_defs)


lemma tp_entered [simp]: "tp (entered l s) = tp s"
  by (simp add: entered_def)

lemma mem_entered [simp]: "mem (entered l s) = mem s"
  by (simp add: entered_def)

section \<open>Interleaved harts\<close>

text \<open>
  One lock and any number of harts, each at a point of \<open>acquire\<close> and \<open>release\<close>: outside, in
  the swap loop, after the successful swap, inside the section, after clearing the owner, or
  stopped in \<open>panic\<close>. A step is one access of one hart to the shared lock word. The test by
  \<open>holding\<close>, which reads \<open>locked\<close> and \<open>cpu\<close>, is one step: only the hart itself makes \<open>cpu\<close> its own
  number, so no other hart can change the outcome between the two reads.
\<close>

datatype lock_pc = Outside | Spinning | Swapped | Inside | Disowned | Stopped

record lock_conf =
  the_lock :: spinlock
  pcs :: "nat \<Rightarrow> lock_pc"

definition holds :: "lock_conf \<Rightarrow> nat \<Rightarrow> bool" where
  "holds c h \<longleftrightarrow> locked (the_lock c) \<noteq> 0 \<and> lk_cpu (the_lock c) = Some h"

definition goto :: "nat \<Rightarrow> lock_pc \<Rightarrow> lock_conf \<Rightarrow> lock_conf" where
  "goto h p c = c\<lparr>pcs := (pcs c)(h := p)\<rparr>"

inductive lock_step :: "lock_conf \<Rightarrow> lock_conf \<Rightarrow> bool" where
  call_acquire: "\<lbrakk>pcs c h = Outside; \<not> holds c h\<rbrakk> \<Longrightarrow> lock_step c (goto h Spinning c)"
| acquire_panics: "\<lbrakk>pcs c h \<in> {Outside, Inside}; holds c h\<rbrakk> \<Longrightarrow> lock_step c (goto h Stopped c)"
| swap_fails: "\<lbrakk>pcs c h = Spinning; locked (the_lock c) \<noteq> 0\<rbrakk>
    \<Longrightarrow> lock_step c (c\<lparr>the_lock := (the_lock c)\<lparr>locked := 1\<rparr>\<rparr>)"
| swap_wins: "\<lbrakk>pcs c h = Spinning; locked (the_lock c) = 0\<rbrakk>
    \<Longrightarrow> lock_step c (goto h Swapped (c\<lparr>the_lock := (the_lock c)\<lparr>locked := 1\<rparr>\<rparr>))"
| record_owner: "pcs c h = Swapped
    \<Longrightarrow> lock_step c (goto h Inside (c\<lparr>the_lock := (the_lock c)\<lparr>lk_cpu := Some h\<rparr>\<rparr>))"
| clear_owner: "\<lbrakk>pcs c h = Inside; holds c h\<rbrakk>
    \<Longrightarrow> lock_step c (goto h Disowned (c\<lparr>the_lock := (the_lock c)\<lparr>lk_cpu := None\<rparr>\<rparr>))"
| release_panics: "\<lbrakk>pcs c h \<in> {Outside, Inside}; \<not> holds c h\<rbrakk> \<Longrightarrow> lock_step c (goto h Stopped c)"
| clear_locked: "pcs c h = Disowned
    \<Longrightarrow> lock_step c (goto h Outside (c\<lparr>the_lock := (the_lock c)\<lparr>locked := 0\<rparr>\<rparr>))"

inductive_cases lock_stepE: "lock_step c c'"

inductive lock_reach :: "lock_conf \<Rightarrow> bool" where
  lock_initial: "lock_reach \<lparr>the_lock = \<lparr>locked = 0, lk_name = name, lk_cpu = None\<rparr>, pcs = \<lambda>_. Outside\<rparr>"
| lock_moves: "\<lbrakk>lock_reach c; lock_step c c'\<rbrakk> \<Longrightarrow> lock_reach c'"

text \<open>
  The invariant: the lock word is clear and no hart is past the swap, or it is set and exactly
  one hart \<open>k\<close> is past it, recorded as the owner exactly while it is inside. A hart that
  panicked inside its section (a second \<open>acquire\<close>) keeps the lock for good.
\<close>

abbreviation waiting :: "lock_conf \<Rightarrow> nat \<Rightarrow> bool" where
  "waiting c h \<equiv> pcs c h \<notin> {Swapped, Inside, Disowned}"

definition lock_unowned :: "lock_conf \<Rightarrow> bool" where
  "lock_unowned c \<longleftrightarrow> locked (the_lock c) = 0 \<and> lk_cpu (the_lock c) = None \<and> (\<forall>h. waiting c h)"

definition lock_owned :: "nat \<Rightarrow> lock_conf \<Rightarrow> bool" where
  "lock_owned k c \<longleftrightarrow> locked (the_lock c) \<noteq> 0 \<and> (\<forall>h. h \<noteq> k \<longrightarrow> waiting c h) \<and>
     (lk_cpu (the_lock c) = None \<and> pcs c k \<in> {Swapped, Disowned} \<or>
      lk_cpu (the_lock c) = Some k \<and> pcs c k \<in> {Inside, Stopped})"

definition lock_inv :: "lock_conf \<Rightarrow> bool" where
  "lock_inv c \<longleftrightarrow> lock_unowned c \<or> (\<exists>k. lock_owned k c)"

lemmas lock_conf_defs = lock_unowned_def lock_owned_def holds_def goto_def

lemma lock_unowned_step:
  assumes "lock_step c c'" "lock_unowned c"
  shows "lock_unowned c' \<or> (\<exists>k. lock_owned k c')"
  using assms(1)
proof cases
  case (swap_wins h)
  with assms(2) have "lock_owned h c'" by (auto simp: lock_conf_defs)
  then show ?thesis by blast
qed (use assms(2) in \<open>auto simp: lock_conf_defs\<close>)

lemma lock_owned_step:
  assumes "lock_step c c'" "lock_owned k c"
  shows "lock_unowned c' \<or> lock_owned k c'"
  using assms(1)
proof cases
  case (record_owner h)
  with assms(2) have "h = k" by (auto simp: lock_conf_defs)
  with record_owner assms(2) show ?thesis by (auto simp: lock_conf_defs)
next
  case (clear_owner h)
  with assms(2) have "h = k" by (auto simp: lock_conf_defs)
  with clear_owner assms(2) show ?thesis by (auto simp: lock_conf_defs)
next
  case (clear_locked h)
  with assms(2) have "h = k" by (auto simp: lock_conf_defs)
  with clear_locked assms(2) show ?thesis by (auto simp: lock_conf_defs)
qed (use assms(2) in \<open>auto simp: lock_conf_defs\<close>)

lemma lock_inv_reach: "lock_reach c \<Longrightarrow> lock_inv c"
proof (induction rule: lock_reach.induct)
  case (lock_initial name)
  then show ?case by (simp add: lock_inv_def lock_unowned_def)
next
  case (lock_moves c c')
  then show ?case
    unfolding lock_inv_def using lock_unowned_step lock_owned_step by blast
qed

lemma past_swap_owns:
  assumes "lock_inv c" "pcs c h \<in> {Swapped, Inside, Disowned}"
  shows "lock_owned h c"
proof -
  have "\<not> waiting c h" using assms(2) by simp
  then obtain k where k: "lock_owned k c"
    using assms(1) unfolding lock_inv_def lock_unowned_def by blast
  with \<open>\<not> waiting c h\<close> have "h = k" unfolding lock_owned_def by blast
  with k show ?thesis by simp
qed

section \<open>Properties\<close>

text \<open>
  C8: mutual exclusion. In every interleaving of \<open>acquire\<close> and \<open>release\<close> by any number of harts,
  at most one hart is inside the critical section, and the lock then names that hart as its
  holder, so its \<open>release\<close> does not panic.
\<close>

theorem spinlock_mutual_exclusion:
  assumes "lock_reach c" "pcs c h = Inside"
  shows "holds c h \<and> (\<forall>h'. pcs c h' \<in> {Swapped, Inside, Disowned} \<longrightarrow> h' = h)"
proof -
  have own: "lock_owned h c" using past_swap_owns[OF lock_inv_reach[OF assms(1)], of h] assms(2) by simp
  then show ?thesis using assms(2) by (auto simp: lock_owned_def holds_def)
qed

theorem spinlock_mutual_exclusion_witness:
  "\<exists>c. lock_reach c \<and> pcs c 0 = Inside \<and> holds c 0 \<and> pcs c 1 = Spinning"
proof -
  let ?c0 = "\<lparr>the_lock = \<lparr>locked = 0, lk_name = ''lk'', lk_cpu = None\<rparr>, pcs = \<lambda>_. Outside\<rparr>"
  let ?c1 = "goto 0 Spinning ?c0"
  let ?c2 = "goto 1 Spinning ?c1"
  let ?c3 = "goto 0 Swapped (?c2\<lparr>the_lock := (the_lock ?c2)\<lparr>locked := 1\<rparr>\<rparr>)"
  let ?c4 = "goto 0 Inside (?c3\<lparr>the_lock := (the_lock ?c3)\<lparr>lk_cpu := Some 0\<rparr>\<rparr>)"
  have "lock_reach ?c0" by (rule lock_initial)
  then have "lock_reach ?c1" by (rule lock_moves) (rule call_acquire; simp add: holds_def)
  then have "lock_reach ?c2" by (rule lock_moves) (rule call_acquire; simp add: holds_def goto_def)
  then have "lock_reach ?c3" by (rule lock_moves) (rule swap_wins; simp add: goto_def)
  then have r: "lock_reach ?c4" by (rule lock_moves) (rule record_owner; simp add: goto_def)
  have "pcs ?c4 0 = Inside" "pcs ?c4 1 = Spinning" by (simp_all add: goto_def)
  with r spinlock_mutual_exclusion[OF r, of 0] show ?thesis by blast
qed

text \<open>
  C19: a critical section is balanced. If the lock is free, \<open>acquire\<close> takes it with interrupts
  off; after any section body that leaves the hart, its status register, the per-CPU structures
  and the locks alone, \<open>release\<close> gives back the interrupt flag, the nesting depth of
  \<open>push_off\<close> and all locks exactly as they were before \<open>acquire\<close>.
\<close>

theorem critical_section_balanced:
  assumes "lock_free l s" "intr_ok s"
  shows "\<exists>t. acquire l s = Ok () t \<and> holding l t \<and> \<not> intr_get t \<and>
    (\<forall>u. tp u = tp t \<and> sstatus u = sstatus t \<and> cpus u = cpus t \<and> locks u = locks t \<longrightarrow>
      (\<exists>v. release l u = Ok () v \<and> locks v = locks s \<and> sstatus v = sstatus s \<and>
        noff (mycpu v) = noff (mycpu s) \<and> mem v = mem u \<and> lock_free l v \<and> intr_ok v))"
proof (rule exI[of _ "entered l s"], intro conjI allI impI, goal_cases)
  case 1
  show ?case by (rule acquire_free[OF assms(1)])
next
  case 2
  show ?case by (simp add: holding_def entered_def cpuid_def)
next
  case 3
  show ?case by (simp add: intr_get_def entered_def)
next
  case (4 u)
  then have u: "tp u = tp s" "sstatus u = sstatus (entered l s)" "cpus u = cpus (entered l s)"
    "locks u = locks (entered l s)" by simp_all
  show ?case
    using assms u(1) release_entered[OF assms u]
    by (simp add: lock_free_def intr_ok_def intr_get_def mycpu_def cpuid_def cs_cpus_def)
qed

theorem critical_section_balanced_witness:
  "lock_free KmemLock zero_machine \<and> intr_ok zero_machine \<and>
   (\<exists>t. acquire KmemLock zero_machine = Ok () t \<and> holding KmemLock t)"
proof -
  have "lock_free KmemLock zero_machine" "intr_ok zero_machine"
    by (simp_all add: lock_free_def intr_ok_def zero_machine_def zero_cpu_def cpu_defs)
  with critical_section_balanced[of KmemLock zero_machine] show ?thesis by blast
qed

end
