(* ===== verification/Kalloc.thy ===== *)
theory Kalloc
  imports Pages Spinlock
begin

text \<open>
  kernel/kalloc.c: the physical page allocator. The free list is threaded through the free
  pages themselves: the first word of a free page is the address of the next one. The state
  extends the machine by the list head; \<open>kend\<close> is the address of the linker symbol \<open>end\<close>.

  The lemmas show that the in-page list refines a list of distinct pages, with \<open>kfree\<close> as
  push, \<open>kalloc\<close> as pop and \<open>kfmemory\<close> as its length in bytes, and that \<open>kinit\<close> frees
  exactly the pages between the end of the kernel and \<open>PHYSTOP\<close>.
\<close>

section \<open>kernel/kalloc.c\<close>

record kmem_st = machine +
  kend :: u64
  freelist :: u64

definition kfree :: "u64 \<Rightarrow> (unit, 'z kmem_st_scheme) kernel" where
  "kfree pa =
     bindk (getk kend) (\<lambda>e.
     if pa mod PGSIZE \<noteq> 0 \<or> pa < e \<or> pa \<ge> PHYSTOP then panick ''kfree'' else
     bindk (modifyk (\<lambda>s. s\<lparr>mem := memset (mem s) pa 1 4096\<rparr>)) (\<lambda>_.
     bindk (acquire KmemLock) (\<lambda>_.
     bindk (modifyk (\<lambda>s. s\<lparr>mem := store64 (mem s) pa (freelist s)\<rparr>)) (\<lambda>_.
     bindk (modifyk (\<lambda>s. s\<lparr>freelist := pa\<rparr>)) (\<lambda>_.
     release KmemLock)))))"

definition kalloc :: "(u64, 'z kmem_st_scheme) kernel" where
  "kalloc =
     bindk (acquire KmemLock) (\<lambda>_.
     bindk (getk freelist) (\<lambda>r.
     bindk (whenk (r \<noteq> 0) (modifyk (\<lambda>s. s\<lparr>freelist := load64 (mem s) r\<rparr>))) (\<lambda>_.
     bindk (release KmemLock) (\<lambda>_.
     bindk (whenk (r \<noteq> 0) (modifyk (\<lambda>s. s\<lparr>mem := memset (mem s) r 5 4096\<rparr>))) (\<lambda>_.
     returnk r)))))"

text \<open>Pointer arithmetic does not wrap: the loop test compares addresses as numbers.\<close>

function freerange_loop :: "u64 \<Rightarrow> u64 \<Rightarrow> (unit, 'z kmem_st_scheme) kernel" where
  "freerange_loop p pa_end =
     (if unat p + 4096 \<le> unat pa_end
      then bindk (kfree p) (\<lambda>_. freerange_loop (p + PGSIZE) pa_end)
      else returnk ())"
  by pat_completeness auto
termination
  by (relation "measure (\<lambda>(p, e). unat e - unat p)")
    (auto simp: unat_word_ariths le_less_trans[OF _ unat_lt_64])

definition freerange :: "u64 \<Rightarrow> u64 \<Rightarrow> (unit, 'z kmem_st_scheme) kernel" where
  "freerange pa_start pa_end = freerange_loop (PGROUNDUP pa_start) pa_end"

definition kinit :: "(unit, 'z kmem_st_scheme) kernel" where
  "kinit =
     bindk (modifyk (initlock KmemLock ''kmem'')) (\<lambda>_.
     bindk (getk kend) (\<lambda>e.
     freerange e PHYSTOP))"

text \<open>The sum over the free list does not end if the list is cyclic.\<close>

partial_function (option) kfmemory_loop :: "memory \<Rightarrow> u64 \<Rightarrow> u64 \<Rightarrow> u64 option" where
  "kfmemory_loop m r n =
     (if r = 0 then Some n else kfmemory_loop m (load64 m r) (n + PGSIZE))"

definition kfmemory :: "(u64, 'z kmem_st_scheme) kernel" where
  "kfmemory =
     bindk (acquire KmemLock) (\<lambda>_.
     bindk (getk (\<lambda>s. kfmemory_loop (mem s) (freelist s) 0)) (\<lambda>r.
     case r of None \<Rightarrow> (\<lambda>s. Spins) | Some n \<Rightarrow>
     bindk (release KmemLock) (\<lambda>_.
     returnk n)))"

section \<open>The free list\<close>

primrec free_chain :: "memory \<Rightarrow> u64 \<Rightarrow> u64 list \<Rightarrow> bool" where
  "free_chain m p [] \<longleftrightarrow> p = 0"
| "free_chain m p (x # xs) \<longleftrightarrow> p = x \<and> x \<noteq> 0 \<and> free_chain m (load64 m x) xs"

definition ram_page :: "u64 \<Rightarrow> u64 \<Rightarrow> bool" where
  "ram_page e x \<longleftrightarrow> pg_aligned x \<and> e \<le> x \<and> x < PHYSTOP"

text \<open>
  The allocator's invariant: the chain from the list head visits the distinct pages \<open>ps\<close>, all
  of them in the RAM the allocator manages, which starts after the kernel.
\<close>

definition kmem_inv :: "'z kmem_st_scheme \<Rightarrow> u64 list \<Rightarrow> bool" where
  "kmem_inv s ps \<longleftrightarrow> free_chain (mem s) (freelist s) ps \<and> distinct ps \<and>
     (\<forall>x \<in> set ps. ram_page (kend s) x) \<and> KERNBASE \<le> kend s"

definition kmem_ready :: "'z kmem_st_scheme \<Rightarrow> bool" where
  "kmem_ready s \<longleftrightarrow> lock_free KmemLock s \<and> intr_ok s"

lemma ram_page_aligned: "ram_page e x \<Longrightarrow> pg_aligned x"
  by (simp add: ram_page_def)

lemma ram_page_nonzero: "\<lbrakk>ram_page e x; KERNBASE \<le> e\<rbrakk> \<Longrightarrow> x \<noteq> 0"
  by (auto simp: ram_page_def word_le_nat_alt)

lemma free_chain_cong:
  assumes "\<And>x. x \<in> set ps \<Longrightarrow> load64 m x = load64 m' x"
  shows "free_chain m p ps \<longleftrightarrow> free_chain m' p ps"
  using assms by (induction ps arbitrary: p) auto

lemma free_chain_other_frames:
  assumes "\<And>x. x \<in> set ps \<Longrightarrow> pg_aligned x \<and> same_frame x m m'"
  shows "free_chain m p ps \<longleftrightarrow> free_chain m' p ps"
  by (rule free_chain_cong) (metis assms load64_same_frame[of _ m m' 0] slot_0 zero_less_numeral)

lemma free_chain_unique: "\<lbrakk>free_chain m p ps; free_chain m p qs\<rbrakk> \<Longrightarrow> ps = qs"
proof (induction ps arbitrary: p qs)
  case Nil
  then show ?case by (cases qs) auto
next
  case (Cons x xs)
  then show ?case by (cases qs) auto
qed

lemma kfmemory_loop_chain:
  "free_chain m p ps \<Longrightarrow> kfmemory_loop m p n = Some (n + of_nat (length ps) * PGSIZE)"
proof (induction ps arbitrary: p n)
  case Nil
  then show ?case by (simp add: kfmemory_loop.simps)
next
  case (Cons x xs)
  then show ?case by (subst kfmemory_loop.simps) (simp add: algebra_simps)
qed

text \<open>
  What the allocator, and code built from it, may change: memory, the list head, and the saved
  interrupt flag of the hart.
\<close>

definition kmem_frame :: "'z kmem_st_scheme \<Rightarrow> 'z kmem_st_scheme \<Rightarrow> bool" where
  "kmem_frame s s' \<longleftrightarrow> s' = s\<lparr>mem := mem s', freelist := freelist s', cpus := cpus s'\<rparr> \<and>
     (cpus s' = cpus s \<or> cpus s' = cs_cpus s)"

lemma kmem_frame_refl [simp]: "kmem_frame s s"
  by (simp add: kmem_frame_def)

lemma kmem_frameI:
  "kmem_frame s (s\<lparr>mem := m, freelist := f, cpus := cs_cpus s\<rparr>)"
  "kmem_frame s (s\<lparr>freelist := f, cpus := cs_cpus s, mem := m\<rparr>)"
  "kmem_frame s (s\<lparr>mem := m\<rparr>)"
  "kmem_frame s (s\<lparr>cpus := cs_cpus s\<rparr>)"
  by (simp_all add: kmem_frame_def kmem_st.equality)

lemma kmem_frameD:
  assumes "kmem_frame s s'"
  shows "tp s' = tp s" "sstatus s' = sstatus s" "locks s' = locks s" "kend s' = kend s"
    "kmem_st.more s' = kmem_st.more s" "cpus s' = cpus s \<or> cpus s' = cs_cpus s"
proof -
  have e: "s' = s\<lparr>mem := mem s', freelist := freelist s', cpus := cpus s'\<rparr>"
    using assms by (simp add: kmem_frame_def)
  show "tp s' = tp s" "sstatus s' = sstatus s" "locks s' = locks s" "kend s' = kend s"
    "kmem_st.more s' = kmem_st.more s"
    by (subst e, simp)+
  show "cpus s' = cpus s \<or> cpus s' = cs_cpus s" using assms by (simp add: kmem_frame_def)
qed

lemma cs_cpus_cong: "\<lbrakk>tp t = tp s; sstatus t = sstatus s; cpus t = cpus s\<rbrakk> \<Longrightarrow> cs_cpus t = cs_cpus s"
  by (simp add: cs_cpus_def cpu_defs)

lemma cs_cpus_again: "\<lbrakk>tp t = tp s; sstatus t = sstatus s; cpus t = cs_cpus s\<rbrakk> \<Longrightarrow> cs_cpus t = cs_cpus s"
  by (auto simp: cs_cpus_def cpu_defs)

lemma kmem_frame_trans:
  assumes "kmem_frame s s'" "kmem_frame s' s''"
  shows "kmem_frame s s''"
proof -
  note 1 = kmem_frameD[OF assms(1)] and 2 = kmem_frameD[OF assms(2)]
  have "cpus s'' = cpus s \<or> cpus s'' = cs_cpus s"
    using 1(1,2,6) 2(6) cs_cpus_cong[of s' s] cs_cpus_again[of s' s] by auto
  then show ?thesis
    using 1(1-5) 2(1-5) by (simp add: kmem_frame_def kmem_st.equality)
qed

lemma kmem_frame_ok:
  assumes "kmem_frame s s'"
  shows "lock_free l s' \<longleftrightarrow> lock_free l s" "intr_ok s' \<longleftrightarrow> intr_ok s" "kmem_ready s' \<longleftrightarrow> kmem_ready s"
proof -
  note f = kmem_frameD[OF assms]
  show l: "lock_free l s' \<longleftrightarrow> lock_free l s" for l using f by (simp add: lock_free_def)
  show i: "intr_ok s' \<longleftrightarrow> intr_ok s"
    using f(1,2,6) by (auto simp: intr_ok_def cpu_defs)
  show "kmem_ready s' \<longleftrightarrow> kmem_ready s" using l i by (simp add: kmem_ready_def)
qed

section \<open>Behaviour of the operations\<close>

lemma kalloc_empty:
  assumes "kmem_ready s" "freelist s = 0"
  shows "kalloc s = Ok 0 (touch s)"
  using assms release_entered[of KmemLock s "entered KmemLock s"]
  by (simp add: kalloc_def kmem_ready_def acquire_free kop_simps bindk_def whenk_def entered_def)

lemma kalloc_pop:
  assumes "kmem_ready s" "freelist s = x" "x \<noteq> 0"
  shows "kalloc s = Ok x (s\<lparr>freelist := load64 (mem s) x, cpus := cs_cpus s, mem := memset (mem s) x 5 4096\<rparr>)"
  using assms release_entered[of KmemLock s "(entered KmemLock s)\<lparr>freelist := load64 (mem s) x\<rparr>"]
  by (simp add: kalloc_def kmem_ready_def acquire_free kop_simps bindk_def whenk_def entered_def)

lemma kfree_bad:
  assumes "\<not> ram_page (kend s) pa"
  shows "kfree pa s = Panic ''kfree''"
  using assms by (simp add: kfree_def ram_page_def pg_aligned_def kop_simps bindk_def not_less not_le)

lemma kfree_push:
  assumes "kmem_ready s" "ram_page (kend s) pa"
  shows "kfree pa s = Ok () (s\<lparr>mem := store64 (memset (mem s) pa 1 4096) pa (freelist s),
     freelist := pa, cpus := cs_cpus s\<rparr>)"
proof -
  let ?t = "s\<lparr>mem := memset (mem s) pa 1 4096\<rparr>"
  have lf: "lock_free KmemLock ?t" "intr_ok ?t"
    using assms(1) by (simp_all add: kmem_ready_def lock_free_def intr_ok_def cpu_defs)
  have cs: "cs_cpus ?t = cs_cpus s"
    by (simp add: cs_cpus_def cpu_defs)
  have "\<not> (pa mod PGSIZE \<noteq> 0 \<or> pa < kend s \<or> pa \<ge> PHYSTOP)"
    using assms(2) by (simp add: ram_page_def pg_aligned_def not_less not_le)
  then show ?thesis
    using lf by (simp add: kfree_def acquire_free[OF lf(1)] release_entered[OF lf] cs kop_simps bindk_def)
      (simp add: entered_def)
qed

lemma free_chain_free:
  assumes "pg_aligned pa" "pa \<notin> set ps" "\<And>x. x \<in> set ps \<Longrightarrow> pg_aligned x"
  shows "free_chain (store64 (memset m pa c 4096) pa v) p ps \<longleftrightarrow> free_chain m p ps"
proof (rule free_chain_other_frames)
  fix x assume x: "x \<in> set ps"
  then have "x \<noteq> pa" using assms(2) by auto
  then show "pg_aligned x \<and> same_frame x (store64 (memset m pa c 4096) pa v) m"
    using assms(1,3) x store64_other_frame[of pa 0 x "memset m pa c 4096" v]
      memset_other_frame[of pa x m c] by (auto intro: same_frame_trans)
qed

lemma kfree_inv:
  assumes "kmem_ready s" "kmem_inv s ps" "ram_page (kend s) pa" "pa \<notin> set ps"
  shows "\<exists>s'. kfree pa s = Ok () s' \<and> kmem_inv s' (pa # ps) \<and> kmem_frame s s' \<and>
    (\<forall>b. b \<noteq> pa \<longrightarrow> same_frame b (mem s') (mem s))"
proof (intro exI conjI allI impI)
  let ?s' = "s\<lparr>mem := store64 (memset (mem s) pa 1 4096) pa (freelist s), freelist := pa, cpus := cs_cpus s\<rparr>"
  show "kfree pa s = Ok () ?s'" by (rule kfree_push[OF assms(1,3)])
  have al: "pg_aligned pa" "\<And>x. x \<in> set ps \<Longrightarrow> pg_aligned x"
    using assms(2,3) by (auto simp: kmem_inv_def ram_page_def)
  show "kmem_inv ?s' (pa # ps)"
    using assms(2-4) al free_chain_free[OF al(1) assms(4) al(2)] ram_page_nonzero[OF assms(3)]
    by (auto simp: kmem_inv_def)
  show "kmem_frame s ?s'" by (rule kmem_frameI)
  fix b assume "b \<noteq> pa"
  then show "same_frame b (mem ?s') (mem s)"
    using al(1) store64_other_frame[of pa 0 b "memset (mem s) pa 1 4096" "freelist s"]
      memset_other_frame[of pa b "mem s" 1] by (auto intro: same_frame_trans)
qed

lemma kalloc_inv:
  assumes "kmem_ready s" "kmem_inv s (x # xs)"
  shows "\<exists>s'. kalloc s = Ok x s' \<and> kmem_inv s' xs \<and> kmem_frame s s' \<and>
    (\<forall>b. b \<noteq> x \<longrightarrow> same_frame b (mem s') (mem s))"
proof (intro exI conjI allI impI)
  let ?s' = "s\<lparr>freelist := load64 (mem s) x, cpus := cs_cpus s, mem := memset (mem s) x 5 4096\<rparr>"
  have x: "freelist s = x" "x \<noteq> 0" "pg_aligned x" "x \<notin> set xs"
    using assms(2) by (auto simp: kmem_inv_def ram_page_def)
  show "kalloc s = Ok x ?s'" by (rule kalloc_pop[OF assms(1) x(1,2)])
  have "free_chain (memset (mem s) x 5 4096) (load64 (mem s) x) xs"
  proof (subst free_chain_other_frames[where m' = "mem s"])
    fix y assume "y \<in> set xs"
    then have "y \<noteq> x" "pg_aligned y" using assms(2) x(4) by (auto simp: kmem_inv_def ram_page_def)
    then show "pg_aligned y \<and> same_frame y (memset (mem s) x 5 4096) (mem s)"
      using memset_other_frame[OF x(3)] by blast
  qed (use assms(2) in \<open>simp add: kmem_inv_def\<close>)
  then show "kmem_inv ?s' xs" using assms(2) by (simp add: kmem_inv_def)
  show "kmem_frame s ?s'" by (rule kmem_frameI)
  fix b assume "b \<noteq> x"
  then show "same_frame b (mem ?s') (mem s)" using memset_other_frame[of x b "mem s" 5] x by simp
qed

lemma kalloc_none:
  assumes "kmem_ready s" "kmem_inv s []"
  shows "\<exists>s'. kalloc s = Ok 0 s' \<and> kmem_inv s' [] \<and> kmem_frame s s' \<and> mem s' = mem s"
proof (intro exI conjI)
  have "freelist s = 0" using assms(2) by (simp add: kmem_inv_def)
  then show "kalloc s = Ok 0 (touch s)" by (rule kalloc_empty[OF assms(1)])
  show "kmem_inv (touch s) []" using assms(2) by (simp add: kmem_inv_def)
  show "kmem_frame s (touch s)" by (rule kmem_frameI)
qed simp_all

declare freerange_loop.simps [simp del]

lemma freerange_loop_inv:
  assumes "kmem_ready s" "kmem_inv s ps" "pg_aligned p" "kend s \<le> p" "pe \<le> PHYSTOP"
    and "\<forall>x \<in> set ps. unat x < unat p"
  shows "\<exists>s' qs. freerange_loop p pe s = Ok () s' \<and> kmem_inv s' qs \<and> kmem_ready s' \<and> kend s' = kend s \<and>
    set qs = set ps \<union> {x. pg_aligned x \<and> p \<le> x \<and> unat x + 4096 \<le> unat pe}"
  using assms
proof (induction p pe arbitrary: s ps rule: freerange_loop.induct)
  case (1 p pe)
  show ?case
  proof (cases "unat p + 4096 \<le> unat pe")
    case False
    then have "{x. pg_aligned x \<and> p \<le> x \<and> unat x + 4096 \<le> unat pe} = {}"
      by (auto simp: word_le_nat_alt)
    with False "1.prems" show ?thesis
      by (intro exI[of _ s] exI[of _ ps]) (auto simp: freerange_loop.simps[of p] kop_simps)
  next
    case True
    have pe: "unat pe \<le> 2281701376" using "1.prems"(5) by (simp add: word_le_nat_alt)
    then have p4: "unat (p + 4096) = unat p + 4096"
      using True by (subst unat_add_nowrap) simp_all
    have "ram_page (kend s) p"
      using True pe "1.prems"(3,4) by (simp add: ram_page_def word_less_nat_alt)
    moreover have "p \<notin> set ps" using "1.prems"(6) by auto
    ultimately obtain t where t: "kfree p s = Ok () t" "kmem_inv t (p # ps)" and f: "kmem_frame s t"
      using kfree_inv[OF "1.prems"(1,2), of p] by blast
    note t = t kmem_frame_ok(3)[OF f, THEN iffD2, OF "1.prems"(1)] kmem_frameD(4)[OF f]
    have al: "pg_aligned (p + 4096)" using "1.prems"(3) p4 by (simp add: pg_aligned_nat)
    have "\<exists>s' qs. freerange_loop (p + 4096) pe t = Ok () s' \<and> kmem_inv s' qs \<and> kmem_ready s' \<and> kend s' = kend t \<and>
      set qs = set (p # ps) \<union> {x. pg_aligned x \<and> p + 4096 \<le> x \<and> unat x + 4096 \<le> unat pe}"
      using t "1.prems" al p4
      by (intro "1.IH"[OF True]) (auto simp: word_le_nat_alt)
    then obtain s' qs where s': "freerange_loop (p + 4096) pe t = Ok () s'" "kmem_inv s' qs" "kmem_ready s'"
      "kend s' = kend t" "set qs = set (p # ps) \<union> {x. pg_aligned x \<and> p + 4096 \<le> x \<and> unat x + 4096 \<le> unat pe}"
      by blast
    have "x = p \<or> p + 4096 \<le> x" if "pg_aligned x" "p \<le> x" for x
      using that "1.prems"(3) p4 in_frame_iff[of p x] PGROUNDDOWN_aligned[of x]
      by (simp add: word_le_nat_alt unat_sub) linarith
    moreover have "p \<le> x" if "p + 4096 \<le> x" for x
      using that p4 by (simp add: word_le_nat_alt)
    ultimately have "insert p {x. pg_aligned x \<and> p + 4096 \<le> x \<and> unat x + 4096 \<le> unat pe} =
        {x. pg_aligned x \<and> p \<le> x \<and> unat x + 4096 \<le> unat pe}"
      using "1.prems"(3) True by auto
    with s' t True show ?thesis
      by (intro exI[of _ s'] exI[of _ qs]) (auto simp: freerange_loop.simps[of p] bindk_def)
  qed
qed

lemma kmem_ready_initlock:
  "intr_ok s \<Longrightarrow> kmem_ready (initlock KmemLock name s)"
  by (simp add: kmem_ready_def lock_free_def initlock_def intr_ok_def cpu_defs)

lemma ram_page_iff:
  assumes "KERNBASE \<le> e" "e < PHYSTOP"
  shows "ram_page e x \<longleftrightarrow> pg_aligned x \<and> PGROUNDUP e \<le> x \<and> unat x + 4096 \<le> unat PHYSTOP"
proof -
  have up: "unat (PGROUNDUP e) = (unat e + 4095) div 4096 * 4096"
    using assms(2) by (intro pgroundup_nat) (simp add: word_less_nat_alt)
  have "(unat e + 4095) div 4096 * 4096 \<le> 4096 * k \<longleftrightarrow> unat e \<le> 4096 * k" for k
    using div_less_iff_less_mult[of 4096 "unat e + 4095" "Suc k"] by (auto simp: less_Suc_eq_le)
  then show ?thesis
    by (auto simp: ram_page_def pg_aligned_nat word_le_nat_alt word_less_nat_alt up elim!: dvdE)
qed

section \<open>The allocator interface\<close>

text \<open>
  What the rest of the kernel relies on: a pool of free pages from which \<open>alloc\<close> takes one and
  to which \<open>free\<close> returns one; both keep the contents of every other page.
\<close>

locale page_allocator =
  fixes alloc :: "('c, 'p::zero, 's) kop"
    and free :: "'p \<Rightarrow> ('c, unit, 's) kop"
    and pool :: "'s \<Rightarrow> 'p list \<Rightarrow> bool"
    and managed :: "'s \<Rightarrow> 'p \<Rightarrow> bool"
    and keeps :: "'p set \<Rightarrow> 's \<Rightarrow> 's \<Rightarrow> bool"
  assumes alloc_empty: "pool s [] \<Longrightarrow> \<exists>s'. alloc s = Ok 0 s' \<and> pool s' [] \<and> keeps {} s s'"
    and alloc_pop: "pool s (x # xs) \<Longrightarrow> \<exists>s'. alloc s = Ok x s' \<and> pool s' xs \<and> keeps {x} s s'"
    and free_push: "\<lbrakk>pool s xs; managed s x; x \<notin> set xs\<rbrakk>
          \<Longrightarrow> \<exists>s'. free x s = Ok () s' \<and> pool s' (x # xs) \<and> keeps {x} s s'"
    and pool_pages: "pool s xs \<Longrightarrow> distinct xs \<and> 0 \<notin> set xs \<and> (\<forall>x \<in> set xs. managed s x)"
    and keeps_managed: "keeps A s s' \<Longrightarrow> managed s' = managed s"
    and keeps_trans: "\<lbrakk>keeps A s s'; keeps B s' s''\<rbrakk> \<Longrightarrow> keeps (A \<union> B) s s''"
    and keeps_refl: "keeps {} s s"
begin

text \<open>Allocating \<open>n\<close> times and freeing a list of pages, in order.\<close>

primrec allocs :: "nat \<Rightarrow> ('c, 'p list, 's) kop" where
  "allocs 0 = returnk []"
| "allocs (Suc n) = bindk alloc (\<lambda>x. bindk (allocs n) (\<lambda>xs. returnk (x # xs)))"

primrec frees :: "'p list \<Rightarrow> ('c, unit, 's) kop" where
  "frees [] = returnk ()"
| "frees (x # xs) = bindk (free x) (\<lambda>_. frees xs)"

lemma allocs_take:
  "\<lbrakk>pool s xs; n \<le> length xs\<rbrakk> \<Longrightarrow> \<exists>s'. allocs n s = Ok (take n xs) s' \<and> pool s' (drop n xs) \<and>
     keeps (set (take n xs)) s s'"
proof (induction n arbitrary: s xs)
  case 0
  then show ?case by (auto simp: kop_simps keeps_refl)
next
  case (Suc n)
  then obtain x ys where xs: "xs = x # ys" by (cases xs) auto
  from alloc_pop[of s x ys] Suc.prems xs obtain t
    where t: "alloc s = Ok x t" "pool t ys" "keeps {x} s t" by auto
  from Suc.IH[OF t(2)] Suc.prems xs obtain s' where
    "allocs n t = Ok (take n ys) s'" "pool s' (drop n ys)" "keeps (set (take n ys)) t s'" by auto
  with t keeps_trans[OF t(3), of "set (take n ys)" s'] xs show ?case
    by (auto simp: bindk_def kop_simps)
qed

lemma frees_push:
  "\<lbrakk>pool s xs; distinct ys; set ys \<inter> set xs = {}; \<forall>y \<in> set ys. managed s y\<rbrakk>
   \<Longrightarrow> \<exists>s'. frees ys s = Ok () s' \<and> pool s' (rev ys @ xs) \<and> keeps (set ys) s s'"
proof (induction ys arbitrary: s xs)
  case Nil
  then show ?case by (auto simp: kop_simps keeps_refl)
next
  case (Cons y ys)
  then obtain t where t: "free y s = Ok () t" "pool t (y # xs)" "keeps {y} s t"
    using free_push[of s xs y] by auto
  have "\<exists>s'. frees ys t = Ok () s' \<and> pool s' (rev ys @ (y # xs)) \<and> keeps (set ys) t s'"
    using Cons t keeps_managed[OF t(3)] by (intro Cons.IH) auto
  with t keeps_trans[OF t(3)] show ?case by (fastforce simp: bindk_def)
qed

text \<open>
  Pages handed out by successive calls are distinct, and giving them back restores the pool,
  whatever the order in which they come back.
\<close>

lemma alloc_free_pool:
  assumes "pool s xs" "n \<le> length xs"
  shows "\<exists>s'. allocs n s = Ok (take n xs) s' \<and> pool s' (drop n xs) \<and> distinct (take n xs) \<and>
    set (take n xs) \<inter> set (drop n xs) = {} \<and>
    (\<forall>qs. distinct qs \<and> set qs = set (take n xs) \<longrightarrow>
      (\<exists>s''. frees qs s' = Ok () s'' \<and> pool s'' (rev qs @ drop n xs) \<and> set (rev qs @ drop n xs) = set xs))"
proof -
  obtain s' where s': "allocs n s = Ok (take n xs) s'" "pool s' (drop n xs)" "keeps (set (take n xs)) s s'"
    using allocs_take[OF assms] by blast
  have "distinct (take n xs @ drop n xs)" using pool_pages[OF assms(1)] by simp
  then have d: "distinct (take n xs)" "set (take n xs) \<inter> set (drop n xs) = {}"
    unfolding distinct_append by blast+
  have m: "\<forall>y \<in> set (take n xs). managed s' y"
    using pool_pages[OF assms(1)] keeps_managed[OF s'(3)] set_take_subset[of n xs] by auto
  have x: "set (take n xs) \<union> set (drop n xs) = set xs" by (metis append_take_drop_id set_append)
  have "\<exists>s''. frees qs s' = Ok () s'' \<and> pool s'' (rev qs @ drop n xs) \<and> set (rev qs @ drop n xs) = set xs"
    if q: "distinct qs" "set qs = set (take n xs)" for qs
    using frees_push[OF s'(2) q(1)] d(2) m x unfolding q(2) by (auto simp: q(2))
  with s' d show ?thesis by blast
qed

end

text \<open>kernel/kalloc.c implements the interface.\<close>

definition kmem_pool :: "'z kmem_st_scheme \<Rightarrow> u64 list \<Rightarrow> bool" where
  "kmem_pool s ps \<longleftrightarrow> kmem_ready s \<and> kmem_inv s ps"

definition kmem_keeps :: "u64 set \<Rightarrow> 'z kmem_st_scheme \<Rightarrow> 'z kmem_st_scheme \<Rightarrow> bool" where
  "kmem_keeps A s s' \<longleftrightarrow> kmem_frame s s' \<and> (\<forall>b. b \<notin> A \<longrightarrow> same_frame b (mem s') (mem s))"

interpretation pages: page_allocator kalloc kfree kmem_pool "\<lambda>s. ram_page (kend s)" kmem_keeps
proof (unfold_locales, goal_cases)
  case (1 s)
  then show ?case using kalloc_none[of s] by (auto simp: kmem_pool_def kmem_keeps_def kmem_frame_ok)
next
  case (2 s x xs)
  then show ?case using kalloc_inv[of s x xs] by (auto simp: kmem_pool_def kmem_keeps_def kmem_frame_ok)
next
  case (3 s xs x)
  then show ?case using kfree_inv[of s xs x] by (auto simp: kmem_pool_def kmem_keeps_def kmem_frame_ok)
next
  case (4 s xs)
  then show ?case using ram_page_nonzero by (auto simp: kmem_pool_def kmem_inv_def)
next
  case (6 A s s' B s'')
  then show ?case by (auto simp: kmem_keeps_def intro: same_frame_trans kmem_frame_trans)
qed (auto simp: kmem_keeps_def kmem_frameD)

section \<open>Properties\<close>

text \<open>A state before \<open>kinit\<close>: zeroed data segment and a kernel of 64 KiB.\<close>

definition boot_kmem :: kmem_st where
  "boot_kmem = machine.extend zero_machine \<lparr>kend = 0x80010000, freelist = 0\<rparr>"

lemma boot_kmem_ok: "intr_ok boot_kmem" "freelist boot_kmem = 0" "kend boot_kmem = 0x80010000"
  "kmem_ready boot_kmem" "kmem_inv boot_kmem []"
  by (simp_all add: boot_kmem_def zero_machine_def zero_cpu_def machine.defs intr_ok_def cpu_defs
      kmem_ready_def kmem_inv_def lock_free_def)

text \<open>Any pages above that kernel can be its free list.\<close>

lemma boot_pool:
  assumes "distinct xs" "\<forall>x \<in> set xs. ram_page 0x80010000 x"
  shows "\<exists>s. pages.frees (rev xs) boot_kmem = Ok () s \<and> kmem_pool s xs \<and> kend s = 0x80010000 \<and>
    (\<forall>b. b \<notin> set xs \<longrightarrow> same_frame b (mem s) (\<lambda>_. 0))"
proof -
  have "kmem_pool boot_kmem []" using boot_kmem_ok by (simp add: kmem_pool_def)
  moreover have "distinct (rev xs)" "\<forall>y \<in> set (rev xs). ram_page (kend boot_kmem) y"
    using assms boot_kmem_ok(3) by simp_all
  ultimately obtain s where "pages.frees (rev xs) boot_kmem = Ok () s" "kmem_pool s (rev (rev xs) @ [])"
    "kmem_keeps (set (rev xs)) boot_kmem s"
    using pages.frees_push[of boot_kmem "[]" "rev xs"] by auto
  moreover have "mem boot_kmem = (\<lambda>_. 0)" by (simp add: boot_kmem_def zero_machine_def machine.defs)
  ultimately show ?thesis using kmem_frameD(4)[of boot_kmem s] boot_kmem_ok(3) by (auto simp: kmem_keeps_def)
qed

text \<open>
  C21: after \<open>kinit\<close> the free list is a well-formed chain of distinct pages, and the pages on it
  are exactly the page-aligned frames that lie entirely between the end of the kernel image and
  \<open>PHYSTOP\<close>.
\<close>

theorem kinit_frees_all_ram:
  assumes "intr_ok s" "freelist s = 0" "KERNBASE \<le> kend s" "kend s < PHYSTOP"
  shows "\<exists>s' ps. kinit s = Ok () s' \<and> kmem_ready s' \<and> kmem_inv s' ps \<and> kend s' = kend s \<and>
    set ps = {x. ram_page (kend s) x}"
proof -
  let ?s = "initlock KmemLock ''kmem'' s"
  have k: "kend ?s = kend s" "freelist ?s = freelist s" by (simp_all add: initlock_def)
  have up: "unat (PGROUNDUP (kend s)) = (unat (kend s) + 4095) div 4096 * 4096"
    using assms(4) by (intro pgroundup_nat) (simp add: word_less_nat_alt)
  have "kend ?s \<le> PGROUNDUP (kend s)" unfolding k word_le_nat_alt up by linarith
  moreover have "kmem_inv ?s []" using assms(2,3) k by (simp add: kmem_inv_def)
  ultimately obtain s' qs where "freerange_loop (PGROUNDUP (kend s)) PHYSTOP ?s = Ok () s'" "kmem_inv s' qs"
      "kmem_ready s'" "kend s' = kend s"
      "set qs = {x. pg_aligned x \<and> PGROUNDUP (kend s) \<le> x \<and> unat x + 4096 \<le> unat PHYSTOP}"
    using freerange_loop_inv[OF kmem_ready_initlock[OF assms(1)], of "''kmem''" "[]" "PGROUNDUP (kend s)" PHYSTOP]
      pg_aligned_PGROUNDUP k by auto
  then show ?thesis
    using ram_page_iff[OF assms(3,4)] k
    by (intro exI[of _ s'] exI[of _ qs]) (simp add: kinit_def freerange_def kop_simps)
qed

theorem kinit_frees_all_ram_witness:
  "\<exists>s' ps. kinit boot_kmem = Ok () s' \<and> kmem_inv s' ps \<and> 0x80010000 \<in> set ps \<and> 0x87FFF000 \<in> set ps \<and>
     0x8000F000 \<notin> set ps"
proof -
  obtain s' ps where "kinit boot_kmem = Ok () s'" "kmem_inv s' ps"
    and ps: "set ps = {x. ram_page (kend boot_kmem) x}"
    using kinit_frees_all_ram[of boot_kmem] boot_kmem_ok by auto
  moreover have "0x80010000 \<in> set ps" "0x87FFF000 \<in> set ps" "0x8000F000 \<notin> set ps"
    unfolding ps by (simp_all add: boot_kmem_ok ram_page_def pg_aligned_def)
  ultimately show ?thesis by blast
qed

text \<open>
  C22: \<open>kalloc\<close> is a pop. On an empty free list it returns 0; otherwise it returns the first free
  page, removes it from the list, and overwrites no other page of memory. The lock is free and
  the interrupt state restored on both paths.
\<close>

theorem kalloc_correct:
  assumes "kmem_ready s" "kmem_inv s ps"
  shows "\<exists>s'. kalloc s = Ok (case ps of [] \<Rightarrow> 0 | x # _ \<Rightarrow> x) s' \<and> kmem_inv s' (tl ps) \<and> kmem_ready s' \<and>
    (\<forall>b. b \<notin> set (take 1 ps) \<longrightarrow> same_frame b (mem s') (mem s))"
proof (cases ps)
  case Nil
  then show ?thesis using kalloc_none[of s] assms by (auto simp: kmem_frame_ok)
next
  case (Cons x xs)
  then show ?thesis using kalloc_inv[of s x xs] assms by (auto simp: kmem_frame_ok)
qed

theorem kalloc_correct_witness:
  "(\<exists>s'. kalloc boot_kmem = Ok 0 s' \<and> kmem_ready s') \<and>
   (\<exists>s s'. pages.frees [0x80010000, 0x80011000] boot_kmem = Ok () s \<and> kalloc s = Ok 0x80011000 s' \<and>
     kmem_inv s' [0x80010000])"
proof -
  obtain s where s: "pages.frees [0x80010000, 0x80011000] boot_kmem = Ok () s"
    "kmem_ready s" "kmem_inv s [0x80011000, 0x80010000]"
    using boot_pool[of "[0x80011000, 0x80010000]"] by (auto simp: ram_page_def pg_aligned_def kmem_pool_def)
  obtain s' where s': "kalloc s = Ok 0x80011000 s'" "kmem_inv s' [0x80010000]"
    using kalloc_correct[OF s(2,3)] unfolding list.case list.sel by blast
  obtain t where "kalloc boot_kmem = Ok 0 t" "kmem_ready t"
    using kalloc_correct[OF boot_kmem_ok(4,5)] unfolding list.case by blast
  with s(1) s' show ?thesis by blast
qed

text \<open>
  C23: \<open>kfree\<close> is a push or a panic. For a page of the managed RAM that is not already free it
  puts the page in front of the free list and overwrites no other page; for an address that is
  unaligned, inside the kernel or beyond \<open>PHYSTOP\<close> it panics.
\<close>

theorem kfree_correct:
  assumes "kmem_ready s" "kmem_inv s ps" "pa \<notin> set ps"
  shows "if ram_page (kend s) pa
    then \<exists>s'. kfree pa s = Ok () s' \<and> kmem_inv s' (pa # ps) \<and> kmem_ready s' \<and>
      (\<forall>b. b \<noteq> pa \<longrightarrow> same_frame b (mem s') (mem s))
    else kfree pa s = Panic ''kfree''"
  using kfree_inv[OF assms(1,2) _ assms(3)] kfree_bad[of s pa] assms(1) by (auto simp: kmem_frame_ok)

theorem kfree_correct_witness:
  "(\<exists>s'. kfree 0x80010000 boot_kmem = Ok () s' \<and> kmem_inv s' [0x80010000]) \<and>
   kfree 0x8000F000 boot_kmem = Panic ''kfree''"
  using kfree_correct[of boot_kmem "[]" "0x80010000"] kfree_correct[of boot_kmem "[]" "0x8000F000"] boot_kmem_ok
  by (auto simp: ram_page_def pg_aligned_def)

text \<open>
  C24: allocating \<open>n\<close> pages one after another from a list with at least \<open>n\<close> free pages gives
  \<open>n\<close> distinct pages, none of them still on the free list. Freeing them all, in any order, puts
  them back in front of the list in the reverse of that order, which restores the set of free
  pages.
\<close>

theorem kalloc_kfree_roundtrip:
  assumes "kmem_ready s" "kmem_inv s xs" "n \<le> length xs"
  shows "\<exists>s'. pages.allocs n s = Ok (take n xs) s' \<and> kmem_inv s' (drop n xs) \<and> distinct (take n xs) \<and>
    set (take n xs) \<inter> set (drop n xs) = {} \<and>
    (\<forall>qs. distinct qs \<and> set qs = set (take n xs) \<longrightarrow>
      (\<exists>s''. pages.frees qs s' = Ok () s'' \<and> kmem_ready s'' \<and> kmem_inv s'' (rev qs @ drop n xs) \<and>
        set (rev qs @ drop n xs) = set xs))"
proof -
  have p: "kmem_pool s xs" using assms(1,2) by (simp add: kmem_pool_def)
  obtain s' where s': "pages.allocs n s = Ok (take n xs) s'" "kmem_pool s' (drop n xs)" "distinct (take n xs)"
    "set (take n xs) \<inter> set (drop n xs) = {}"
    and f: "\<forall>qs. distinct qs \<and> set qs = set (take n xs) \<longrightarrow> (\<exists>s''. pages.frees qs s' = Ok () s'' \<and>
      kmem_pool s'' (rev qs @ drop n xs) \<and> set (rev qs @ drop n xs) = set xs)"
    using pages.alloc_free_pool[OF p assms(3)] by (elim exE conjE)
  from s' f show ?thesis
    unfolding kmem_pool_def conj_assoc by (intro exI[of _ s']) simp
qed

theorem kalloc_kfree_roundtrip_witness:
  "\<exists>s s' s''. pages.frees [0x80010000, 0x80011000, 0x80012000] boot_kmem = Ok () s \<and>
     kmem_inv s [0x80012000, 0x80011000, 0x80010000] \<and>
     pages.allocs 2 s = Ok [0x80012000, 0x80011000] s' \<and> kmem_inv s' [0x80010000] \<and>
     pages.frees [0x80011000, 0x80012000] s' = Ok () s'' \<and> kmem_inv s'' [0x80012000, 0x80011000, 0x80010000]"
proof -
  let ?xs = "[0x80012000, 0x80011000, 0x80010000] :: u64 list" and ?q = "[0x80011000, 0x80012000] :: u64 list"
  obtain s where s: "pages.frees (rev ?xs) boot_kmem = Ok () s" "kmem_pool s ?xs"
    using boot_pool[of ?xs] by (auto simp: ram_page_def pg_aligned_def)
  then have k: "kmem_ready s" "kmem_inv s ?xs" by (simp_all add: kmem_pool_def)
  have "2 \<le> length ?xs" by simp
  from kalloc_kfree_roundtrip[OF k this] obtain s' where
    t: "pages.allocs 2 s = Ok (take 2 ?xs) s'" "kmem_inv s' (drop 2 ?xs)" and
    f: "\<forall>qs. distinct qs \<and> set qs = set (take 2 ?xs) \<longrightarrow> (\<exists>s''. pages.frees qs s' = Ok () s'' \<and>
      kmem_ready s'' \<and> kmem_inv s'' (rev qs @ drop 2 ?xs) \<and> set (rev qs @ drop 2 ?xs) = set ?xs)" by (elim exE conjE)
  have "distinct ?q \<and> set ?q = set (take 2 ?xs)" by auto
  with f obtain s'' where "pages.frees ?q s' = Ok () s''" "kmem_inv s'' (rev ?q @ drop 2 ?xs)" by meson
  with s(1) k(2) t show ?thesis
    by (intro exI[of _ s] exI[of _ s'] exI[of _ s'']) simp
qed

text \<open>
  \<open>kfmemory\<close> returns the number of free pages times the page size, ends on every well-formed
  free list, and leaves memory, free list and locks as they were.
\<close>

theorem kfmemory_counts:
  assumes "kmem_ready s" "kmem_inv s ps"
  shows "kfmemory s = Ok (of_nat (length ps) * PGSIZE) (touch s)"
proof -
  have r: "lock_free KmemLock s" "intr_ok s" using assms(1) by (simp_all add: kmem_ready_def)
  have "kfmemory_loop (mem s) (freelist s) 0 = Some (of_nat (length ps) * PGSIZE)"
    using assms(2) kfmemory_loop_chain[of "mem s" "freelist s" ps 0] by (simp add: kmem_inv_def)
  then have "kfmemory_loop (mem (entered KmemLock s)) (freelist (entered KmemLock s)) 0 =
      Some (of_nat (length ps) * PGSIZE)"
    by (simp add: entered_def)
  then show ?thesis
    by (simp add: kfmemory_def acquire_free[OF r(1)] release_entered[OF r] kop_simps bindk_def)
      (simp add: entered_def)
qed

theorem kfmemory_counts_witness:
  "\<exists>s. kfree 0x80010000 boot_kmem = Ok () s \<and> kfmemory s = Ok 4096 (touch s)"
proof -
  obtain s where "kfree 0x80010000 boot_kmem = Ok () s" "kmem_inv s [0x80010000]" "kmem_ready s"
    using kfree_inv[of boot_kmem "[]" "0x80010000"] boot_kmem_ok by (auto simp: ram_page_def pg_aligned_def kmem_frame_ok)
  with kfmemory_counts[of s "[0x80010000]"] show ?thesis by auto
qed

end
