(* ===== verification/Walk.thy ===== *)
theory Walk
  imports Kalloc
begin

text \<open>
  The page-table walk of kernel/vm.c over the byte memory. A page table is a tree of page
  frames; \<open>pt_node\<close> follows a path of indices from the root. A well-formed table reaches each
  of its frames by one path only, all of them are RAM pages, entries above the leaves carry
  no permission bits, and the upper half of the root is empty (addresses end at \<open>MAXVA\<close>). The lemmas describe the two
  kinds of stores \<open>vm.c\<close> makes to a table, a leaf entry and a fresh lower-level table, and
  show that \<open>walk\<close> finds or creates the slot of an address without changing any translation.
\<close>

section \<open>Memory accesses\<close>

definition loadk :: "u64 \<Rightarrow> (u64, 'z machine_scheme) kernel" where
  "loadk a = getk (\<lambda>s. load64 (mem s) a)"

definition storek :: "u64 \<Rightarrow> u64 \<Rightarrow> (unit, 'z machine_scheme) kernel" where
  "storek a v = modifyk (\<lambda>s. s\<lparr>mem := store64 (mem s) a v\<rparr>)"

definition memsetk :: "u64 \<Rightarrow> u8 \<Rightarrow> nat \<Rightarrow> (unit, 'z machine_scheme) kernel" where
  "memsetk a c n = modifyk (\<lambda>s. s\<lparr>mem := memset (mem s) a c n\<rparr>)"

definition memmovek :: "u64 \<Rightarrow> u64 \<Rightarrow> nat \<Rightarrow> (unit, 'z machine_scheme) kernel" where
  "memmovek d a n = modifyk (\<lambda>s. s\<lparr>mem := memmove (mem s) d a n\<rparr>)"

lemmas memk_defs = loadk_def storek_def memsetk_def memmovek_def

section \<open>walk and walkaddr\<close>

definition pte_slot :: "u64 \<Rightarrow> nat \<Rightarrow> u64 \<Rightarrow> u64" where
  "pte_slot pt level va = slot pt (unat (PX level va))"

primrec walk_loop :: "nat \<Rightarrow> u64 \<Rightarrow> u64 \<Rightarrow> bool \<Rightarrow> (u64, 'z kmem_st_scheme) kernel" where
  "walk_loop 0 pagetable va alloc = returnk (pte_slot pagetable 0 va)"
| "walk_loop (Suc level) pagetable va alloc =
     bindk (loadk (pte_slot pagetable (Suc level) va)) (\<lambda>pte.
     if pte AND PTE_V \<noteq> 0 then walk_loop level (PTE2PA pte) va alloc
     else if \<not> alloc then returnk 0
     else bindk kalloc (\<lambda>child.
       if child = 0 then returnk 0
       else bindk (memsetk child 0 4096) (\<lambda>_.
         bindk (storek (pte_slot pagetable (Suc level) va) (PA2PTE child OR PTE_V)) (\<lambda>_.
         walk_loop level child va alloc))))"

definition walk :: "u64 \<Rightarrow> u64 \<Rightarrow> bool \<Rightarrow> (u64, 'z kmem_st_scheme) kernel" where
  "walk pagetable va alloc =
     (if va \<ge> MAXVA then panick ''walk'' else walk_loop 2 pagetable va alloc)"

definition walkaddr :: "u64 \<Rightarrow> u64 \<Rightarrow> (u64, 'z kmem_st_scheme) kernel" where
  "walkaddr pagetable va =
     (if va \<ge> MAXVA then returnk 0 else
     bindk (walk pagetable va False) (\<lambda>pte.
     if pte = 0 then returnk 0 else
     bindk (loadk pte) (\<lambda>e.
     if e AND PTE_V = 0 then returnk 0 else
     if e AND PTE_U = 0 then returnk 0 else
     returnk (PTE2PA e))))"

section \<open>Paths in a page table\<close>

primrec pt_node :: "memory \<Rightarrow> u64 \<Rightarrow> nat list \<Rightarrow> u64 option" where
  "pt_node m pt [] = Some pt"
| "pt_node m pt (i # is) =
     (if load64 m (slot pt i) AND PTE_V \<noteq> 0 then pt_node m (PTE2PA (load64 m (slot pt i))) is else None)"

definition pt_path :: "nat list \<Rightarrow> bool" where
  "pt_path p \<longleftrightarrow> length p \<le> 2 \<and> (\<forall>i \<in> set p. i < 512)"

definition pt_pages :: "memory \<Rightarrow> u64 \<Rightarrow> u64 set" where
  "pt_pages m pt = {a. \<exists>p. pt_path p \<and> pt_node m pt p = Some a}"

definition pt_wf :: "u64 \<Rightarrow> memory \<Rightarrow> u64 \<Rightarrow> bool" where
  "pt_wf e m pt \<longleftrightarrow> KERNBASE \<le> e \<and> (\<forall>a \<in> pt_pages m pt. ram_page e a) \<and>
     (\<forall>p q a. pt_path p \<and> pt_path q \<and> pt_node m pt p = Some a \<and> pt_node m pt q = Some a \<longrightarrow> p = q) \<and>
     (\<forall>p i a. pt_path (p @ [i]) \<and> pt_node m pt p = Some a \<and> load64 m (slot a i) AND PTE_V \<noteq> 0 \<longrightarrow>
        load64 m (slot a i) AND (PTE_R OR PTE_W OR PTE_X) = 0) \<and>
     (\<forall>i. 256 \<le> i \<and> i < 512 \<longrightarrow> load64 m (slot pt i) AND PTE_V = 0)"

text \<open>The leaf entry of a virtual address, 0 if the walk does not get to it.\<close>

definition va_path :: "u64 \<Rightarrow> nat list" where
  "va_path va = [unat (PX 2 va), unat (PX 1 va)]"

definition pte_of :: "memory \<Rightarrow> u64 \<Rightarrow> u64 \<Rightarrow> u64" where
  "pte_of m pt va =
     (case pt_node m pt (va_path va) of None \<Rightarrow> 0 | Some t \<Rightarrow> load64 m (pte_slot t 0 va))"

lemma pt_path_va [simp]: "pt_path (va_path va)"
  by (simp add: pt_path_def va_path_def PX_lt)

lemma pt_path_prefix: "pt_path (p @ q) \<Longrightarrow> pt_path p"
  by (simp add: pt_path_def)

lemma pt_node_append:
  "pt_node m pt (p @ q) = (case pt_node m pt p of None \<Rightarrow> None | Some a \<Rightarrow> pt_node m a q)"
  by (induction p arbitrary: pt) auto

lemma pt_node_cong:
  assumes "\<And>q k r a. \<lbrakk>p = q @ k # r; pt_node m pt q = Some a\<rbrakk> \<Longrightarrow> load64 m' (slot a k) = load64 m (slot a k)"
  shows "pt_node m' pt p = pt_node m pt p"
  using assms
proof (induction p arbitrary: pt)
  case Nil
  then show ?case by simp
next
  case (Cons i p)
  have e: "load64 m' (slot pt i) = load64 m (slot pt i)"
    using Cons.prems[of "[]" i p pt] by simp
  show ?case
  proof (cases "load64 m (slot pt i) AND PTE_V \<noteq> 0")
    case True
    have "pt_node m' (PTE2PA (load64 m (slot pt i))) p = pt_node m (PTE2PA (load64 m (slot pt i))) p"
    proof (rule Cons.IH)
      fix q k r a assume "p = q @ k # r" "pt_node m (PTE2PA (load64 m (slot pt i))) q = Some a"
      then show "load64 m' (slot a k) = load64 m (slot a k)"
        using Cons.prems[of "i # q" k r a] True by simp
    qed
    with e True show ?thesis by simp
  next
    case False
    with e show ?thesis by simp
  qed
qed

lemma pt_wfD:
  assumes "pt_wf e m pt" "pt_path p" "pt_node m pt p = Some a"
  shows "ram_page e a" "pg_aligned a" "a \<noteq> 0" "a \<in> pt_pages m pt"
proof -
  show "a \<in> pt_pages m pt" using assms(2,3) by (auto simp: pt_pages_def)
  then show "ram_page e a" using assms(1) by (simp add: pt_wf_def)
  then show "pg_aligned a" "a \<noteq> 0"
    using assms(1) ram_page_nonzero by (auto simp: pt_wf_def ram_page_def)
qed

lemma pt_wf_inj:
  "\<lbrakk>pt_wf e m pt; pt_path p; pt_path q; pt_node m pt p = Some a; pt_node m pt q = Some a\<rbrakk> \<Longrightarrow> p = q"
  unfolding pt_wf_def by blast

text \<open>A change of memory outside the tables changes nothing.\<close>

lemma pt_node_outside:
  assumes "pt_wf e m pt" "pt_path p" "\<And>a. a \<in> pt_pages m pt \<Longrightarrow> same_frame a m' m"
  shows "pt_node m' pt p = pt_node m pt p"
proof (rule pt_node_cong)
  fix q k r a assume p: "p = q @ k # r" and a: "pt_node m pt q = Some a"
  then have "pt_path q" "k < 512" using assms(2) by (auto simp: pt_path_def)
  with pt_wfD[OF assms(1) _ a] assms(3)[of a] show "load64 m' (slot a k) = load64 m (slot a k)"
    by (auto intro: load64_same_frame)
qed

lemma pt_wfI:
  assumes "KERNBASE \<le> e" "\<And>a. a \<in> pt_pages m pt \<Longrightarrow> ram_page e a"
    and "\<And>p q a. \<lbrakk>pt_path p; pt_path q; pt_node m pt p = Some a; pt_node m pt q = Some a\<rbrakk> \<Longrightarrow> p = q"
    and "\<And>p i a. \<lbrakk>pt_path (p @ [i]); pt_node m pt p = Some a; load64 m (slot a i) AND PTE_V \<noteq> 0\<rbrakk>
      \<Longrightarrow> load64 m (slot a i) AND (PTE_R OR PTE_W OR PTE_X) = 0"
    and "\<And>i. \<lbrakk>256 \<le> i; i < 512\<rbrakk> \<Longrightarrow> load64 m (slot pt i) AND PTE_V = 0"
  shows "pt_wf e m pt"
  using assms unfolding pt_wf_def by blast

lemma pt_wf_pointer:
  "\<lbrakk>pt_wf e m pt; pt_path (p @ [i]); pt_node m pt p = Some a; load64 m (slot a i) AND PTE_V \<noteq> 0\<rbrakk>
   \<Longrightarrow> load64 m (slot a i) AND (PTE_R OR PTE_W OR PTE_X) = 0"
  unfolding pt_wf_def by blast

lemma pt_wf_upper: "\<lbrakk>pt_wf e m pt; 256 \<le> i; i < 512\<rbrakk> \<Longrightarrow> load64 m (slot pt i) AND PTE_V = 0"
  unfolding pt_wf_def by blast

lemma pt_wf_bounds: "pt_wf e m pt \<Longrightarrow> KERNBASE \<le> e" "\<lbrakk>pt_wf e m pt; a \<in> pt_pages m pt\<rbrakk> \<Longrightarrow> ram_page e a"
  unfolding pt_wf_def by blast+

text \<open>Well-formedness only depends on the nodes and on the entries above the leaves.\<close>

lemma pt_wf_cong:
  assumes "pt_wf e m pt" "\<And>p. pt_path p \<Longrightarrow> pt_node m' pt p = pt_node m pt p"
    and "\<And>p i a. \<lbrakk>pt_path (p @ [i]); pt_node m pt p = Some a\<rbrakk> \<Longrightarrow> load64 m' (slot a i) = load64 m (slot a i)"
  shows "pt_wf e m' pt"
proof (rule pt_wfI)
  have "pt_pages m' pt = pt_pages m pt" using assms(2) by (auto simp: pt_pages_def)
  then show "ram_page e a" if "a \<in> pt_pages m' pt" for a using pt_wf_bounds[OF assms(1)] that by simp
  show "KERNBASE \<le> e" by (rule pt_wf_bounds(1)[OF assms(1)])
  show "p = q" if "pt_path p" "pt_path q" "pt_node m' pt p = Some a" "pt_node m' pt q = Some a" for p q a
    using that assms(2) pt_wf_inj[OF assms(1)] by simp
  show "load64 m' (slot a i) AND (PTE_R OR PTE_W OR PTE_X) = 0"
    if "pt_path (p @ [i])" "pt_node m' pt p = Some a" "load64 m' (slot a i) AND PTE_V \<noteq> 0" for p i a
  proof -
    have n: "pt_node m pt p = Some a" using that(2) assms(2)[OF pt_path_prefix[OF that(1)]] by simp
    then show ?thesis
      using pt_wf_pointer[OF assms(1) that(1) n] assms(3)[OF that(1) n] that(3) by simp
  qed
  show "load64 m' (slot pt i) AND PTE_V = 0" if "256 \<le> i" "i < 512" for i
    using pt_wf_upper[OF assms(1) that] assms(3)[of "[]" i pt] that(2) by (simp add: pt_path_def)
qed

lemma pt_outside:
  assumes "pt_wf e m pt" "\<And>a. a \<in> pt_pages m pt \<Longrightarrow> same_frame a m' m"
  shows "pt_pages m' pt = pt_pages m pt" "pt_wf e m' pt" "pte_of m' pt va = pte_of m pt va"
proof -
  have n: "pt_node m' pt p = pt_node m pt p" if "pt_path p" for p
    by (rule pt_node_outside[OF assms(1) that assms(2)])
  show "pt_pages m' pt = pt_pages m pt" using n by (auto simp: pt_pages_def)
  show "pt_wf e m' pt"
  proof (rule pt_wf_cong[OF assms(1) n])
    fix p i a assume p: "pt_path (p @ [i])" "pt_node m pt p = Some a"
    have "i < 512" using p(1) by (simp add: pt_path_def)
    then show "load64 m' (slot a i) = load64 m (slot a i)"
      using pt_wfD[OF assms(1) pt_path_prefix[OF p(1)] p(2)] assms(2) by (intro load64_same_frame) auto
  qed
  show "pte_of m' pt va = pte_of m pt va"
  proof (cases "pt_node m pt (va_path va)")
    case None
    then show ?thesis using n[of "va_path va"] by (simp add: pte_of_def)
  next
    case (Some t)
    then have "load64 m' (pte_slot t 0 va) = load64 m (pte_slot t 0 va)"
      using pt_wfD[OF assms(1) pt_path_va Some] assms(2) PX_lt
      unfolding pte_slot_def by (intro load64_same_frame) auto
    with Some n[of "va_path va"] show ?thesis by (simp add: pte_of_def)
  qed
qed

text \<open>Writing a leaf entry keeps the tree and changes the entry of one virtual page only.\<close>

lemma load64_leaf:
  assumes "pt_wf e m pt" "pt_path q" "length q = 2" "pt_node m pt q = Some t" "k < 512"
    and "pt_path (r @ [i])" "pt_node m pt r = Some a"
  shows "load64 (store64 m (slot t k) v) (slot a i) = load64 m (slot a i)"
proof -
  have r: "pt_path r" "i < 512" "length r < 2" using assms(6) by (auto simp: pt_path_def)
  have "a \<noteq> t" using pt_wf_inj[OF assms(1) r(1) assms(2) assms(7)] assms(3,4) r(3) by auto
  then show ?thesis
    using pt_wfD[OF assms(1) r(1) assms(7)] pt_wfD[OF assms(1,2,4)] r assms(5)
    by (intro load64_same_frame[of a] store64_other_frame) auto
qed

lemma pt_node_leaf:
  assumes "pt_wf e m pt" "pt_path p" "pt_path q" "length q = 2" "pt_node m pt q = Some t" "k < 512"
  shows "pt_node (store64 m (slot t k) v) pt p = pt_node m pt p"
proof (rule pt_node_cong)
  fix r i r' a assume p: "p = r @ i # r'" and a: "pt_node m pt r = Some a"
  then have "pt_path (r @ [i])" using assms(2) by (auto simp: pt_path_def)
  then show "load64 (store64 m (slot t k) v) (slot a i) = load64 m (slot a i)"
    by (rule load64_leaf[OF assms(1,3-6) _ a])
qed

lemma pt_leaf:
  fixes v :: u64
  assumes "pt_wf e m pt" "pt_node m pt (va_path va) = Some t"
  defines "m' \<equiv> store64 m (pte_slot t 0 va) v"
  shows "pt_pages m' pt = pt_pages m pt" "pt_wf e m' pt"
    "pt_node m' pt (va_path va) = Some t"
    "pte_of m' pt vb = (if va_path vb = va_path va \<and> PX 0 vb = PX 0 va then v else pte_of m pt vb)"
proof -
  have n: "pt_node m' pt p = pt_node m pt p" if "pt_path p" for p
    unfolding m'_def pte_slot_def
    by (rule pt_node_leaf[OF assms(1) that pt_path_va _ assms(2) PX_lt]) (simp add: va_path_def)
  show "pt_pages m' pt = pt_pages m pt" using n by (auto simp: pt_pages_def)
  show "pt_wf e m' pt"
    using load64_leaf[OF assms(1) pt_path_va _ assms(2) PX_lt]
    by (intro pt_wf_cong[OF assms(1) n]) (simp_all add: m'_def pte_slot_def va_path_def)
  show "pt_node m' pt (va_path va) = Some t" using n[OF pt_path_va] assms(2) by simp
  show "pte_of m' pt vb = (if va_path vb = va_path va \<and> PX 0 vb = PX 0 va then v else pte_of m pt vb)"
  proof (cases "pt_node m pt (va_path vb)")
    case None
    then show ?thesis using n[OF pt_path_va, of vb] assms(2) by (auto simp: pte_of_def)
  next
    case (Some u)
    have "load64 m' (pte_slot u 0 vb) =
      (if va_path vb = va_path va \<and> PX 0 vb = PX 0 va then v else load64 m (pte_slot u 0 vb))"
    proof (cases "u = t")
      case True
      then have "va_path vb = va_path va"
        using pt_wf_inj[OF assms(1) pt_path_va pt_path_va Some] assms(2) by simp
      then show ?thesis
        using True by (simp add: m'_def pte_slot_def load64_slot_store64 PX_lt word_unat_eq_iff[of "PX 0 vb"])
    next
      case False
      then have "va_path vb \<noteq> va_path va" using Some assms(2) by auto
      moreover have "load64 m' (pte_slot u 0 vb) = load64 m (pte_slot u 0 vb)"
        unfolding m'_def pte_slot_def
        using pt_wfD[OF assms(1) pt_path_va Some] pt_wfD[OF assms(1) pt_path_va assms(2)] False
        by (intro load64_same_frame[of u] store64_other_frame) (simp_all add: PX_lt)
      ultimately show ?thesis by simp
    qed
    then show ?thesis using n[OF pt_path_va, of vb] Some by (simp add: pte_of_def)
  qed
qed

text \<open>Two addresses below \<open>MAXVA\<close> have the same entry exactly if they are in the same page.\<close>

lemma same_entry_iff:
  assumes "va < MAXVA" "vb < MAXVA"
  shows "va_path vb = va_path va \<and> PX 0 vb = PX 0 va \<longleftrightarrow> PGROUNDDOWN vb = PGROUNDDOWN va"
proof -
  have px: "PX l (PGROUNDDOWN v) = PX l v" for l v
  proof (rule bit_word_eqI)
    fix n assume "n < LENGTH(64)"
    have "bit (PGROUNDDOWN v) (12 + 9 * l + n) = bit v (12 + 9 * l + n)"
      by (simp add: PGROUNDDOWN_def and_not_mask[simplified] bit_simps) (auto simp: add.assoc dest: bit_imp_le_length)
    then show "bit (PX l (PGROUNDDOWN v)) n = bit (PX l v) n" by (simp add: bit_PX)
  qed
  have lt: "PGROUNDDOWN v < MAXVA" if "v < MAXVA" for v
  proof -
    have "unat (PGROUNDDOWN v) \<le> unat v" by (simp add: pgrounddown_nat)
    with that show ?thesis by (simp add: word_less_nat_alt)
  qed
  show ?thesis
  proof
    assume "va_path vb = va_path va \<and> PX 0 vb = PX 0 va"
    then show "PGROUNDDOWN vb = PGROUNDDOWN va"
      using PX_inj[OF lt[OF assms(2)] lt[OF assms(1)]]
      by (simp add: px pg_aligned_PGROUNDDOWN va_path_def word_unat_eq_iff)
  next
    assume "PGROUNDDOWN vb = PGROUNDDOWN va"
    then show "va_path vb = va_path va \<and> PX 0 vb = PX 0 va"
      unfolding va_path_def by (metis px)
  qed
qed

text \<open>Installing a fresh, zeroed table below an existing one adds one node and no translation.\<close>

lemma PTE2PA_table:
  assumes "ram_page e t"
  shows "PTE2PA (PA2PTE t OR PTE_V) = t" "(PA2PTE t OR PTE_V) AND PTE_V \<noteq> 0"
proof -
  show "PTE2PA (PA2PTE t OR PTE_V) = t"
    using assms by (intro PTE2PA_PA2PTE) (simp_all add: ram_page_def word_less_nat_alt)
  have "(PA2PTE t OR 1) AND 1 = (1 :: u64)"
    by (rule bit_word_eqI) (auto simp: bit_simps)
  then show "(PA2PTE t OR PTE_V) AND PTE_V \<noteq> 0" by simp
qed

lemma pte_flags_and:
  assumes "unat f < 2 ^ 10"
  shows "x AND f = PTE_FLAGS x AND f"
proof (rule bit_word_eqI)
  fix n assume "n < LENGTH(64)"
  have m: "(0x3FF :: u64) = mask 10" by (simp add: mask_eq_exp_minus_1)
  show "bit (x AND f) n = bit (PTE_FLAGS x AND f) n"
    unfolding PTE_FLAGS_def m using bit_lt_exp[OF assms, of n] \<open>n < LENGTH(64)\<close> by (auto simp: bit_simps)
qed

lemma load64_install:
  assumes "pt_wf e m pt" "pt_path p" "pt_node m pt p = Some a" "i < 512" "ram_page e t" "t \<notin> pt_pages m pt"
  defines "m' \<equiv> store64 (memset m t 0 4096) (slot a i) (PA2PTE t OR PTE_V)"
  shows "\<lbrakk>pt_path r; pt_node m pt r = Some b; k < 512; (r, k) \<noteq> (p, i)\<rbrakk>
      \<Longrightarrow> load64 m' (slot b k) = load64 m (slot b k)"
    and "load64 m' (slot a i) = PA2PTE t OR PTE_V"
    and "k < 512 \<Longrightarrow> load64 m' (slot t k) = 0"
proof -
  have a: "pg_aligned a" "a \<noteq> t" using pt_wfD[OF assms(1-3)] assms(6) by auto
  have t: "pg_aligned t" using assms(5) by (simp add: ram_page_def)
  show "load64 m' (slot a i) = PA2PTE t OR PTE_V"
    using assms(4) by (simp add: m'_def load64_slot_store64)
  show "load64 m' (slot t k) = 0" if "k < 512"
  proof -
    have "load64 m' (slot t k) = load64 (memset m t 0 4096) (slot t k)"
      unfolding m'_def using a that t assms(4) by (intro load64_same_frame[of t] store64_other_frame) auto
    then show ?thesis using load64_memset_0[OF t that] by simp
  qed
  assume r: "pt_path r" "pt_node m pt r = Some b" "k < 512" "(r, k) \<noteq> (p, i)"
  have b: "pg_aligned b" "b \<noteq> t" using pt_wfD[OF assms(1) r(1,2)] assms(6) by auto
  have "load64 m' (slot b k) = load64 (memset m t 0 4096) (slot b k)"
  proof (cases "b = a")
    case True
    then have "k \<noteq> i" using pt_wf_inj[OF assms(1) r(1) assms(2)] r(2,4) assms(3) by auto
    then show ?thesis using True r(3) assms(4) by (simp add: m'_def load64_slot_store64)
  next
    case False
    then show ?thesis
      unfolding m'_def using a b r(3) assms(4)
      by (intro load64_same_frame[of b] store64_other_frame) auto
  qed
  also have "\<dots> = load64 m (slot b k)"
    using b t r(3) by (intro load64_same_frame[of b] memset_other_frame) auto
  finally show "load64 m' (slot b k) = load64 m (slot b k)" .
qed

lemma pt_node_install:
  assumes "pt_wf e m pt" "pt_path p" "pt_node m pt p = Some a" "i < 512"
    and "ram_page e t" "t \<notin> pt_pages m pt" "load64 m (slot a i) AND PTE_V = 0" "pt_path q"
  defines "m' \<equiv> store64 (memset m t 0 4096) (slot a i) (PA2PTE t OR PTE_V)"
  shows "pt_node m' pt q = (if q = p @ [i] then Some t else pt_node m pt q)"
proof -
  note l = load64_install[OF assms(1-6), folded m'_def]
  have new: "pt_node m' pt r = pt_node m pt r" if "pt_path r" "\<And>r'. r \<noteq> p @ i # r'" for r
  proof (rule pt_node_cong)
    fix q' k r' b assume r: "r = q' @ k # r'" and b: "pt_node m pt q' = Some b"
    then have "pt_path q'" "k < 512" using that(1) by (auto simp: pt_path_def)
    moreover have "(q', k) \<noteq> (p, i)" using that(2)[of r'] r by auto
    ultimately show "load64 m' (slot b k) = load64 m (slot b k)" using l(1) b by blast
  qed
  show ?thesis
  proof (cases "\<exists>r. q = p @ i # r")
    case False
    then show ?thesis using new[OF assms(8)] by auto
  next
    case True
    then obtain r where q: "q = p @ i # r" by blast
    have "pt_node m' pt p = Some a" using new[OF assms(2)] assms(3) by simp
    then have q': "pt_node m' pt q = pt_node m' t r"
      using PTE2PA_table[OF assms(5)] l(2) by (simp add: q pt_node_append)
    have old_None: "pt_node m pt q = None"
      using assms(3,7) by (simp add: q pt_node_append)
    show ?thesis
    proof (cases r)
      case Nil
      then show ?thesis using q q' by simp
    next
      case (Cons k r')
      then have "k < 512" using assms(8) q by (auto simp: pt_path_def)
      then show ?thesis using Cons q q' old_None l(3) by simp
    qed
  qed
qed

lemma pt_install:
  assumes "pt_wf e m pt" "pt_path p" "pt_node m pt p = Some a" "i < 512" "length p < 2"
    and "load64 m (slot a i) AND PTE_V = 0" "ram_page e t" "t \<notin> pt_pages m pt" "p = [] \<Longrightarrow> i < 256"
  defines "m' \<equiv> store64 (memset m t 0 4096) (slot a i) (PA2PTE t OR PTE_V)"
  shows "pt_pages m' pt = insert t (pt_pages m pt)" "pt_wf e m' pt" "pt_node m' pt (p @ [i]) = Some t"
    "pte_of m' pt va = pte_of m pt va"
    "\<And>b. b \<notin> insert t (pt_pages m pt) \<Longrightarrow> same_frame b m' m"
proof -
  note n = pt_node_install[OF assms(1-4,7,8,6), folded m'_def]
  note l = load64_install[OF assms(1-4,7,8), folded m'_def]
  have pi: "pt_path (p @ [i])" using assms(2,4,5) by (simp add: pt_path_def)
  have none: "pt_node m pt (p @ [i]) = None" using assms(3,6) by (simp add: pt_node_append)
  have a: "pg_aligned a" "a \<in> pt_pages m pt" using pt_wfD[OF assms(1-3)] by auto
  have t: "pg_aligned t" using assms(7) by (simp add: ram_page_def)
  show pg: "pt_pages m' pt = insert t (pt_pages m pt)"
  proof (intro set_eqI iffI)
    fix b assume "b \<in> pt_pages m' pt"
    then show "b \<in> insert t (pt_pages m pt)" using n by (auto simp: pt_pages_def split: if_splits)
  next
    fix b assume "b \<in> insert t (pt_pages m pt)"
    then consider "b = t" | p' where "pt_path p'" "pt_node m pt p' = Some b" by (auto simp: pt_pages_def)
    then show "b \<in> pt_pages m' pt"
    proof cases
      case 1
      then show ?thesis using n[OF pi] pi by (auto simp: pt_pages_def)
    next
      case 2
      then have "p' \<noteq> p @ [i]" using none by auto
      then show ?thesis using n[OF 2(1)] 2 by (auto simp: pt_pages_def)
    qed
  qed
  have inj: "p' = q'" if "pt_path p'" "pt_path q'" "pt_node m' pt p' = Some b" "pt_node m' pt q' = Some b" for p' q' b
  proof -
    have "b \<noteq> t" if "pt_path r" "pt_node m pt r = Some b" for r
      using that assms(8) by (auto simp: pt_pages_def)
    then show ?thesis
      using that n[OF that(1)] n[OF that(2)] pt_wf_inj[OF assms(1) that(1,2)] by (auto split: if_splits)
  qed
  show "pt_wf e m' pt"
  proof (rule pt_wfI)
    show "KERNBASE \<le> e" by (rule pt_wf_bounds(1)[OF assms(1)])
    show "ram_page e b" if "b \<in> pt_pages m' pt" for b
      using that assms(7) pt_wf_bounds(2)[OF assms(1)] unfolding pg by auto
    fix r k b assume r: "pt_path (r @ [k])" "pt_node m' pt r = Some b" "load64 m' (slot b k) AND PTE_V \<noteq> 0"
    have k: "k < 512" "pt_path r" using r(1) by (auto simp: pt_path_def)
    consider "r = p @ [i]" "b = t" | "r = p" "k = i" "b = a" | "pt_node m pt r = Some b" "(r, k) \<noteq> (p, i)"
      using n[OF k(2)] r(2) assms(3) by (cases "r = p \<and> k = i") (auto split: if_splits)
    then show "load64 m' (slot b k) AND (PTE_R OR PTE_W OR PTE_X) = 0"
    proof cases
      case 1
      then show ?thesis using l(3)[OF k(1)] by simp
    next
      case 2
      have "(PA2PTE t OR PTE_V) AND (PTE_R OR PTE_W OR PTE_X) = 0"
        using PTE_FLAGS_PA2PTE[of 1 t] pte_flags_and[of 14 "PA2PTE t OR PTE_V"] by simp
      with 2 l(2) show ?thesis by simp
    next
      case 3
      then have "load64 m' (slot b k) = load64 m (slot b k)" using l(1) k by blast
      with pt_wf_pointer[OF assms(1) r(1) 3(1)] r(3) show ?thesis by simp
    qed
  next
    fix k :: nat assume k: "256 \<le> k" "k < 512"
    have "load64 m' (slot pt k) = load64 m (slot pt k)"
      using assms(9) k by (intro l(1)[of "[]"]) (auto simp: pt_path_def)
    then show "load64 m' (slot pt k) AND PTE_V = 0" using pt_wf_upper[OF assms(1) k] by simp
  qed (rule inj)
  show "pt_node m' pt (p @ [i]) = Some t" using n[OF pi] by simp
  show out: "same_frame b m' m" if "b \<notin> insert t (pt_pages m pt)" for b
    unfolding m'_def using that a t assms(4)
    by (intro same_frame_trans[OF store64_other_frame memset_other_frame]) auto
  show "pte_of m' pt va = pte_of m pt va"
  proof (cases "va_path va = p @ [i]")
    case True
    have "load64 m' (pte_slot t 0 va) = 0"
      unfolding pte_slot_def by (rule l(3)[OF PX_lt])
    then show ?thesis using True n[OF pi] none by (simp add: pte_of_def)
  next
    case False
    then have same: "pt_node m' pt (va_path va) = pt_node m pt (va_path va)" using n[OF pt_path_va] by simp
    show ?thesis
    proof (cases "pt_node m pt (va_path va)")
      case None
      then show ?thesis using same by (simp add: pte_of_def)
    next
      case (Some u)
      have u: "pg_aligned u" "u \<in> pt_pages m pt" using pt_wfD[OF assms(1) pt_path_va Some] by auto
      have "u \<noteq> a" using pt_wf_inj[OF assms(1) pt_path_va assms(2) Some] assms(3,5) by (auto simp: va_path_def)
      moreover have "u \<noteq> t" using u assms(8) by auto
      ultimately have "same_frame u m' m"
        unfolding m'_def using a t assms(4) by (intro same_frame_trans[OF store64_other_frame memset_other_frame]) auto
      then have "load64 m' (pte_slot u 0 va) = load64 m (pte_slot u 0 va)"
        unfolding pte_slot_def using u PX_lt by (intro load64_same_frame) auto
      then show ?thesis using same Some by (simp add: pte_of_def)
    qed
  qed
qed

section \<open>What walk does\<close>

text \<open>Without allocation, \<open>walk\<close> is a lookup that changes nothing.\<close>

lemma walk_lookup:
  assumes "va < MAXVA"
  shows "walk pt va False s =
    Ok (case pt_node (mem s) pt (va_path va) of None \<Rightarrow> 0 | Some t \<Rightarrow> pte_slot t 0 va) s"
  using assms
  by (simp add: walk_def numeral_2_eq_2 memk_defs kop_simps va_path_def pte_slot_def not_le[symmetric])

text \<open>Nor does it allocate when the leaf table is already there.\<close>

lemma walk_hit:
  assumes "va < MAXVA" "pt_node (mem s) pt (va_path va) = Some t"
  shows "walk pt va alloc s = Ok (pte_slot t 0 va) s"
  using assms
  by (auto simp: walk_def numeral_2_eq_2 memk_defs kop_simps va_path_def pte_slot_def not_le[symmetric]
      split: if_splits)

lemma pte_slot_nonzero:
  assumes "pt_wf e m pt" "pt_path p" "pt_node m pt p = Some t"
  shows "pte_slot t 0 va \<noteq> 0"
proof -
  have t: "pg_aligned t" "t \<noteq> 0" using pt_wfD[OF assms] by auto
  have "PGROUNDDOWN (pte_slot t 0 va) = t"
    using frame_slot[OF t(1) PX_lt, of 0 0 va] by (simp add: pte_slot_def)
  moreover have "PGROUNDDOWN 0 = 0" by (simp add: PGROUNDDOWN_def)
  ultimately show ?thesis using t(2) by auto
qed

text \<open>A page table that shares no frame with the free list.\<close>

definition pt_own :: "u64 \<Rightarrow> u64 list \<Rightarrow> 'z kmem_st_scheme \<Rightarrow> bool" where
  "pt_own pt fs s \<longleftrightarrow> kmem_pool s fs \<and> pt_wf (kend s) (mem s) pt \<and> pt_pages (mem s) pt \<inter> set fs = {}"

text \<open>
  Growth of a table: it took the first pages of the free list as further table frames, kept
  every translation, and wrote to its own frames only.
\<close>

definition pt_grows :: "u64 \<Rightarrow> u64 list \<Rightarrow> 'z kmem_st_scheme \<Rightarrow> 'z kmem_st_scheme \<Rightarrow> u64 list \<Rightarrow> bool" where
  "pt_grows pt fs s s' fs' \<longleftrightarrow> kmem_frame s s' \<and> pt_own pt fs' s' \<and>
     (\<exists>us. fs = us @ fs' \<and> pt_pages (mem s') pt = pt_pages (mem s) pt \<union> set us) \<and>
     (\<forall>va. pte_of (mem s') pt va = pte_of (mem s) pt va) \<and>
     (\<forall>b. b \<notin> pt_pages (mem s') pt \<longrightarrow> same_frame b (mem s') (mem s))"

lemma pt_grows_refl: "pt_own pt fs s \<Longrightarrow> pt_grows pt fs s s fs"
  by (simp add: pt_grows_def)

lemma pt_grows_trans:
  assumes "pt_grows pt fs s s' fs'" "pt_grows pt fs' s' s'' fs''"
  shows "pt_grows pt fs s s'' fs''"
proof -
  obtain us vs where u: "fs = us @ fs'" "pt_pages (mem s') pt = pt_pages (mem s) pt \<union> set us"
    and v: "fs' = vs @ fs''" "pt_pages (mem s'') pt = pt_pages (mem s') pt \<union> set vs"
    using assms unfolding pt_grows_def by blast
  have "same_frame b (mem s'') (mem s)" if "b \<notin> pt_pages (mem s'') pt" for b
    using that assms v(2) unfolding pt_grows_def by (auto intro: same_frame_trans)
  moreover have "fs = (us @ vs) @ fs''" "pt_pages (mem s'') pt = pt_pages (mem s) pt \<union> set (us @ vs)"
    using u v by auto
  ultimately show ?thesis
    using assms kmem_frame_trans[of s s' s''] unfolding pt_grows_def by metis
qed

lemma kmem_pool_mem:
  assumes "kmem_pool s fs" "kmem_frame s s'" "\<And>b. b \<in> set fs \<Longrightarrow> same_frame b (mem s') (mem s)"
    "freelist s' = freelist s"
  shows "kmem_pool s' fs"
proof -
  have "free_chain (mem s') (freelist s) fs"
    using assms(1,3) by (subst free_chain_other_frames[where m' = "mem s"])
      (auto simp: kmem_pool_def kmem_inv_def ram_page_def)
  then show ?thesis
    using assms kmem_frameD[OF assms(2)] kmem_frame_ok[OF assms(2)]
    by (simp add: kmem_pool_def kmem_inv_def)
qed

text \<open>One level of the loop where the entry is missing and a page is free.\<close>

lemma walk_level_install:
  assumes "pt_own pt (t # ts) s" "pt_path p" "length p < 2" "pt_node (mem s) pt p = Some a" "i < 512"
    and "load64 (mem s) (slot a i) AND PTE_V = 0" "p = [] \<Longrightarrow> i < 256"
  shows "\<exists>s'. bindk kalloc (\<lambda>c. if c = 0 then returnk 0 else bindk (memsetk c 0 4096) (\<lambda>_.
      bindk (storek (slot a i) (PA2PTE c OR PTE_V)) (\<lambda>_. g c))) s = g t s' \<and>
    pt_grows pt (t # ts) s s' ts \<and> pt_node (mem s') pt (p @ [i]) = Some t"
proof -
  have own: "kmem_pool s (t # ts)" "pt_wf (kend s) (mem s) pt" "pt_pages (mem s) pt \<inter> set (t # ts) = {}"
    using assms(1) by (simp_all add: pt_own_def)
  obtain s1 where s1: "kalloc s = Ok t s1" "kmem_pool s1 ts" "kmem_keeps {t} s s1"
    using pages.alloc_pop[OF own(1)] by blast
  have pool: "distinct (t # ts)" "t \<noteq> 0" "ram_page (kend s) t" "\<forall>x \<in> set ts. ram_page (kend s) x"
    using pages.pool_pages[OF own(1)] by auto
  have f1: "kmem_frame s s1" and k1: "\<And>b. b \<noteq> t \<Longrightarrow> same_frame b (mem s1) (mem s)"
    using s1(3) by (auto simp: kmem_keeps_def)
  have tn: "t \<notin> pt_pages (mem s) pt" using own(3) by auto
  have "\<And>b. b \<in> pt_pages (mem s) pt \<Longrightarrow> same_frame b (mem s1) (mem s)" using tn by (auto intro!: k1)
  note o1 = pt_outside[OF own(2) this] and n1 = pt_node_outside[OF own(2) assms(2) this]
  have a: "pg_aligned a" "a \<in> pt_pages (mem s) pt" "a \<noteq> t" using pt_wfD[OF own(2) assms(2,4)] tn by auto
  have "load64 (mem s1) (slot a i) = load64 (mem s) (slot a i)"
    using k1 a assms(5) by (intro load64_same_frame) auto
  then have e: "load64 (mem s1) (slot a i) AND PTE_V = 0" using assms(6) by simp
  define m' where "m' = store64 (memset (mem s1) t 0 4096) (slot a i) (PA2PTE t OR PTE_V)"
  define s' where "s' = s1\<lparr>mem := m'\<rparr>"
  have na: "pt_node (mem s1) pt p = Some a" using n1 assms(4) by simp
  have t1: "t \<notin> pt_pages (mem s1) pt" using tn o1(1) by simp
  note i = pt_install[OF o1(2) assms(2) na assms(5,3) e pool(3) t1 assms(7), folded m'_def]
  have "kmem_frame s1 s'" unfolding s'_def by (rule kmem_frameI)
  then have f: "kmem_frame s s'" using f1 kmem_frame_trans by blast
  have "b \<notin> insert t (pt_pages (mem s1) pt)" if "b \<in> set ts" for b
    using that own(3) pool(1) o1(1) by auto
  then have "kmem_pool s' ts"
    using kmem_pool_mem[OF s1(2) \<open>kmem_frame s1 s'\<close>] i(5) by (simp add: s'_def)
  moreover have "kend s' = kend s" using kmem_frameD[OF f] by simp
  ultimately have "pt_own pt ts s'"
    using i(1,2) own(3) pool(1) o1(1) by (auto simp: pt_own_def s'_def)
  moreover have "same_frame b (mem s') (mem s)" if "b \<notin> pt_pages (mem s') pt" for b
  proof -
    have "b \<notin> insert t (pt_pages (mem s1) pt)" using that i(1) by (simp add: s'_def)
    then show ?thesis using i(5)[of b] k1[of b] by (auto simp: s'_def intro: same_frame_trans)
  qed
  ultimately have "pt_grows pt (t # ts) s s' ts"
    using f i(1,4) o1(1,3) unfolding pt_grows_def by (auto simp: s'_def)
  then show ?thesis
    using s1(1) pool(2) i(3)
    by (intro exI[of _ s']) (simp add: bindk_def memk_defs kop_simps s'_def m'_def)
qed

text \<open>
  With allocation, \<open>walk\<close> either finds or builds the leaf table of the address, or runs out of
  pages; in both cases the table only grows. From level \<open>l\<close> down it takes at most \<open>l\<close> pages, so
  it fails only if fewer than \<open>l\<close> were free.
\<close>

definition walk_found :: "u64 \<Rightarrow> u64 \<Rightarrow> u64 \<Rightarrow> u64 list \<Rightarrow> 'z kmem_st_scheme \<Rightarrow> bool" where
  "walk_found pt va r fs' s' \<longleftrightarrow> r = 0 \<and> fs' = [] \<or>
     r \<noteq> 0 \<and> (\<exists>t. pt_node (mem s') pt (va_path va) = Some t \<and> r = pte_slot t 0 va)"

lemma take_va_path:
  "l < 2 \<Longrightarrow> take (2 - Suc l) (va_path va) @ [unat (PX (Suc l) va)] = take (2 - l) (va_path va)"
  by (auto simp: va_path_def less_Suc_eq numeral_2_eq_2)

lemma PX2_lt:
  assumes "va < MAXVA"
  shows "unat (PX 2 va) < 256"
proof -
  have "unat va < 2 ^ 38" using assms by (simp add: word_less_nat_alt)
  then have "bit va (30 + n) \<Longrightarrow> n < 8" for n using bit_lt_exp[of va 38 "30 + n"] by auto
  then have "PX 2 va = take_bit 8 (PX 2 va)"
    by (intro bit_word_eqI) (auto simp: bit_PX bit_simps)
  then have "unat (PX 2 va) = take_bit 8 (unat (PX 2 va))"
    by (metis unsigned_take_bit_eq)
  also have "\<dots> < 2 ^ 8" by (rule take_bit_nat_less_exp)
  finally show ?thesis by simp
qed

lemma walk_loop_alloc:
  assumes "va < MAXVA" "l \<le> 2" "pt_own pt fs s" "pt_node (mem s) pt (take (2 - l) (va_path va)) = Some a"
  shows "\<exists>r s' fs'. walk_loop l a va True s = Ok r s' \<and> pt_grows pt fs s s' fs' \<and> walk_found pt va r fs' s' \<and>
    (if r = 0 then length fs < l else length fs \<le> length fs' + l)"
  using assms(2-)
proof (induction l arbitrary: a s fs)
  case 0
  then have "pt_node (mem s) pt (va_path va) = Some a" by (simp add: va_path_def)
  moreover have "pte_slot a 0 va \<noteq> 0"
    using pte_slot_nonzero[of "kend s" "mem s" pt "va_path va" a] 0 calculation by (simp add: pt_own_def)
  ultimately show ?case
    using 0 pt_grows_refl by (auto simp: walk_found_def kop_simps)
next
  case (Suc l)
  let ?p = "take (2 - Suc l) (va_path va)" and ?i = "unat (PX (Suc l) va)"
  let ?e = "load64 (mem s) (slot a ?i)"
  have p: "pt_path ?p" "length ?p < 2" "?p @ [?i] = take (2 - l) (va_path va)"
    using Suc.prems(1) take_va_path[of l va] PX_lt by (auto simp: pt_path_def va_path_def dest!: in_set_takeD)
  have up: "?i < 256" if "?p = []"
  proof -
    have "Suc l = 2" using that Suc.prems(1) by (cases l) (auto simp: va_path_def)
    then show ?thesis using PX2_lt[OF assms(1)] by (simp add: numeral_2_eq_2)
  qed
  show ?case
  proof (cases "?e AND PTE_V \<noteq> 0")
    case True
    then have "pt_node (mem s) pt (take (2 - l) (va_path va)) = Some (PTE2PA ?e)"
      unfolding p(3)[symmetric] pt_node_append using Suc.prems(3) by simp
    from Suc.IH[OF _ Suc.prems(2) this] Suc.prems(1) obtain r s' fs' where
      w: "walk_loop l (PTE2PA ?e) va True s = Ok r s'" "pt_grows pt fs s s' fs'" "walk_found pt va r fs' s'"
      "if r = 0 then length fs < l else length fs \<le> length fs' + l" by auto
    then have "if r = 0 then length fs < Suc l else length fs \<le> length fs' + Suc l" by (auto split: if_splits)
    with w True show ?thesis
      by (intro exI[of _ r] exI[of _ s'] exI[of _ fs']) (simp add: memk_defs kop_simps pte_slot_def)
  next
    case False
    show ?thesis
    proof (cases fs)
      case Nil
      then have "kmem_pool s []" using Suc.prems(2) by (simp add: pt_own_def)
      then obtain s1 where s1: "kalloc s = Ok 0 s1" "kmem_pool s1 []" "kmem_keeps {} s s1"
        using pages.alloc_empty by blast
      then have k: "kmem_frame s s1" "\<And>b. same_frame b (mem s1) (mem s)" by (auto simp: kmem_keeps_def)
      have wf: "pt_wf (kend s) (mem s) pt" using Suc.prems(2) by (simp add: pt_own_def)
      have "pt_grows pt fs s s1 []"
        using Nil s1(2) k pt_outside[OF wf k(2)] kmem_frameD[OF k(1)]
        by (auto simp: pt_grows_def pt_own_def)
      then show ?thesis
        using False s1(1) Nil by (auto simp: memk_defs kop_simps bindk_def pte_slot_def walk_found_def)
    next
      case (Cons t ts)
      then obtain s1 where s1: "bindk kalloc (\<lambda>c. if c = 0 then returnk 0 else bindk (memsetk c 0 4096) (\<lambda>_.
          bindk (storek (slot a ?i) (PA2PTE c OR PTE_V)) (\<lambda>_. walk_loop l c va True))) s = walk_loop l t va True s1"
        and g: "pt_grows pt fs s s1 ts" and n: "pt_node (mem s1) pt (?p @ [?i]) = Some t"
        using walk_level_install[of pt t ts s ?p a ?i "\<lambda>c. walk_loop l c va True"] Suc.prems p False PX_lt up by auto
      from g have "pt_own pt ts s1" by (simp add: pt_grows_def)
      from Suc.IH[OF _ this n[unfolded p(3)]] Suc.prems(1) obtain r s' fs' where
        w: "walk_loop l t va True s1 = Ok r s'" "pt_grows pt ts s1 s' fs'" "walk_found pt va r fs' s'"
        "if r = 0 then length ts < l else length ts \<le> length fs' + l" by auto
      then have "if r = 0 then length fs < Suc l else length fs \<le> length fs' + Suc l"
        using Cons by (auto split: if_splits)
      with w pt_grows_trans[OF g w(2)] s1[folded pte_slot_def] False show ?thesis
        by (intro exI[of _ r] exI[of _ s'] exI[of _ fs']) (simp add: loadk_def kop_simps pte_slot_def[symmetric])
    qed
  qed
qed

lemma walk_alloc:
  assumes "va < MAXVA" "pt_own pt fs s"
  shows "\<exists>r s' fs'. walk pt va True s = Ok r s' \<and> pt_grows pt fs s s' fs' \<and> walk_found pt va r fs' s' \<and>
    (if r = 0 then length fs < 2 else length fs \<le> length fs' + 2)"
  using walk_loop_alloc[of va 2 pt fs s pt] assms by (simp add: walk_def not_le[symmetric])

lemma walkaddr_eq:
  assumes "pt_wf e (mem s) pt" "va < MAXVA"
  shows "walkaddr pt va s = Ok (if pte_of (mem s) pt va AND PTE_V \<noteq> 0 \<and> pte_of (mem s) pt va AND PTE_U \<noteq> 0
     then PTE2PA (pte_of (mem s) pt va) else 0) s"
proof (cases "pt_node (mem s) pt (va_path va)")
  case None
  then show ?thesis using assms(2)
    by (simp add: walkaddr_def walk_lookup pte_of_def kop_simps bindk_def)
next
  case (Some t)
  then show ?thesis using assms(2) pte_slot_nonzero[OF assms(1) pt_path_va Some]
    by (simp add: walkaddr_def walk_lookup pte_of_def memk_defs kop_simps bindk_def not_le[symmetric])
qed

text \<open>A zeroed page is a well-formed empty table.\<close>

lemma pt_empty:
  assumes "KERNBASE \<le> e" "ram_page e pt" "\<And>i. i < 512 \<Longrightarrow> load64 m (slot pt i) = 0"
  shows "pt_wf e m pt" "pt_pages m pt = {pt}" "pte_of m pt va = 0"
proof -
  have n: "pt_node m pt p = (if p = [] then Some pt else None)" if "pt_path p" for p
    using that assms(3) by (cases p) (auto simp: pt_path_def)
  show pg: "pt_pages m pt = {pt}"
  proof -
    have "pt_path []" by (simp add: pt_path_def)
    then show ?thesis using n by (auto simp: pt_pages_def split: if_splits)
  qed
  show "pt_wf e m pt"
  proof (rule pt_wfI)
    fix p i a assume p: "pt_path (p @ [i])" "pt_node m pt p = Some a" "load64 m (slot a i) AND PTE_V \<noteq> 0"
    have "i < 512" "a = pt"
      using p(1,2) n[OF pt_path_prefix[OF p(1)]] by (auto simp: pt_path_def split: if_splits)
    then show "load64 m (slot a i) AND (PTE_R OR PTE_W OR PTE_X) = 0" using assms(3) by simp
  qed (use assms pg n in \<open>auto split: if_splits\<close>)
  show "pte_of m pt va = 0" using n[OF pt_path_va, of va] by (simp add: pte_of_def va_path_def)
qed

section \<open>The hardware's view\<close>

text \<open>
  The address translation of the Sv39 page-table walker, as the privileged architecture defines
  it: an entry with a permission bit is a leaf at any level, an entry without one points to the
  next table, and a writable entry that is not readable is reserved.
\<close>

fun sv39_walk :: "memory \<Rightarrow> nat \<Rightarrow> u64 \<Rightarrow> u64 \<Rightarrow> (u64 \<times> nat) option" where
  "sv39_walk m l pt va =
     (let e = load64 m (pte_slot pt l va) in
      if e AND PTE_V = 0 \<or> e AND PTE_R = 0 \<and> e AND PTE_W \<noteq> 0 then None
      else if e AND (PTE_R OR PTE_W OR PTE_X) \<noteq> 0 then Some (e, l)
      else case l of 0 \<Rightarrow> None | Suc l' \<Rightarrow> sv39_walk m l' (PTE2PA e) va)"

definition sv39_user :: "memory \<Rightarrow> u64 \<Rightarrow> u64 \<Rightarrow> u64 option" where
  "sv39_user m pt va =
     (case sv39_walk m 2 pt va of None \<Rightarrow> None
      | Some (e, l) \<Rightarrow>
         if e AND PTE_U = 0 then None
         else Some (PTE2PA e + take_bit (12 + 9 * l) va))"

text \<open>
  Valid user entries without meaning for the hardware: no permission bit at all, which at the
  last level is not a leaf, or the reserved combination of a page that is writable but not
  readable.
\<close>

definition meaningless_leaf :: "u64 \<Rightarrow> bool" where
  "meaningless_leaf e \<longleftrightarrow> e AND PTE_V \<noteq> 0 \<and> e AND PTE_U \<noteq> 0 \<and>
     (e AND (PTE_R OR PTE_W OR PTE_X) = 0 \<or> e AND PTE_R = 0 \<and> e AND PTE_W \<noteq> 0)"

declare sv39_walk.simps [simp del]

lemma pte_rwx_zero:
  assumes "(e :: u64) AND (PTE_R OR PTE_W OR PTE_X) = 0"
  shows "e AND PTE_R = 0" "e AND PTE_W = 0" "e AND PTE_X = 0"
proof -
  have "e AND f = (e AND 14) AND f" if "f = 2 \<or> f = 4 \<or> f = 8" for f :: u64
    using that by (auto simp: and.assoc)
  then show "e AND PTE_R = 0" "e AND PTE_W = 0" "e AND PTE_X = 0" using assms by auto
qed

lemma sv39_walk_node:
  assumes "pt_wf e m pt" "pt_path (p @ [unat (PX (Suc l) va)])" "pt_node m pt p = Some a"
  shows "sv39_walk m (Suc l) a va =
    (case pt_node m pt (p @ [unat (PX (Suc l) va)]) of None \<Rightarrow> None | Some b \<Rightarrow> sv39_walk m l b va)"
proof -
  let ?e = "load64 m (slot a (unat (PX (Suc l) va)))"
  have "?e AND (PTE_R OR PTE_W OR PTE_X) = 0" if "?e AND PTE_V \<noteq> 0"
    using pt_wf_pointer[OF assms that] .
  then show ?thesis
    using assms(3) pte_rwx_zero[of ?e]
    by (auto simp: sv39_walk.simps[of m "Suc l"] pte_slot_def Let_def pt_node_append)
qed

lemma sv39_walk_pte_of:
  assumes "pt_wf e m pt"
  shows "sv39_walk m 2 pt va =
    (let f = pte_of m pt va in
     if f AND PTE_V = 0 \<or> f AND PTE_R = 0 \<and> f AND PTE_W \<noteq> 0 then None
     else if f AND (PTE_R OR PTE_W OR PTE_X) \<noteq> 0 then Some (f, 0) else None)"
proof -
  have p: "pt_path ([] @ [unat (PX (Suc 1) va)])" "pt_path ([unat (PX 2 va)] @ [unat (PX (Suc 0) va)])"
    by (simp_all add: pt_path_def PX_lt)
  show ?thesis
  proof (cases "pt_node m pt [unat (PX 2 va)]")
    case None
    then have "pt_node m pt (va_path va) = None"
      using pt_node_append[of m pt "[unat (PX 2 va)]" "[unat (PX 1 va)]"] by (simp add: va_path_def)
    then show ?thesis
      using sv39_walk_node[OF assms p(1), of pt] None by (simp add: numeral_2_eq_2 pte_of_def Let_def)
  next
    case (Some b)
    have "sv39_walk m 2 pt va = sv39_walk m 1 b va"
      using sv39_walk_node[OF assms p(1), of pt] Some by (simp add: numeral_2_eq_2)
    also have "\<dots> = (case pt_node m pt (va_path va) of None \<Rightarrow> None | Some c \<Rightarrow> sv39_walk m 0 c va)"
      using sv39_walk_node[OF assms p(2) Some] by (simp add: va_path_def)
    also have "\<dots> = (let f = pte_of m pt va in
     if f AND PTE_V = 0 \<or> f AND PTE_R = 0 \<and> f AND PTE_W \<noteq> 0 then None
     else if f AND (PTE_R OR PTE_W OR PTE_X) \<noteq> 0 then Some (f, 0) else None)"
      by (auto simp: pte_of_def sv39_walk.simps[of m 0] Let_def split: option.splits)
    finally show ?thesis .
  qed
qed

section \<open>Properties\<close>

text \<open>A state with three free pages and zeroed memory elsewhere.\<close>

definition demo_pages :: "u64 list" where
  "demo_pages = [0x80013000, 0x80012000, 0x80011000]"

lemma demo_pool:
  obtains s :: kmem_st where "kmem_pool s demo_pages" "kend s = 0x80010000"
    "\<And>b. b \<notin> set demo_pages \<Longrightarrow> same_frame b (mem s) (\<lambda>_. 0)"
  using boot_pool[of demo_pages] by (auto simp: demo_pages_def ram_page_def pg_aligned_def)

lemma demo_pt:
  "\<exists>s :: kmem_st. pt_own 0x80010000 demo_pages s \<and> kend s = 0x80010000 \<and>
    (\<forall>va. pte_of (mem s) 0x80010000 va = 0) \<and> pt_pages (mem s) 0x80010000 = {0x80010000}"
proof -
  obtain s :: kmem_st where s: "kmem_pool s demo_pages" "kend s = 0x80010000"
    "\<And>b. b \<notin> set demo_pages \<Longrightarrow> same_frame b (mem s) (\<lambda>_. 0)" using demo_pool by blast
  have al: "pg_aligned 0x80010000" by (simp add: pg_aligned_def)
  have "load64 (mem s) (slot 0x80010000 i) = 0" if "i < 512" for i
    using load64_same_frame[OF s(3) al that] by (simp add: demo_pages_def load64_zero)
  note e = pt_empty[where e = "0x80010000", OF _ _ this]
  have "pt_own 0x80010000 demo_pages s" "pte_of (mem s) 0x80010000 va = 0"
    "pt_pages (mem s) 0x80010000 = {0x80010000}" for va
    using s(1,2) e al by (simp_all add: pt_own_def demo_pages_def ram_page_def)
  with s(2) show ?thesis by blast
qed

subsection \<open>A user page\<close>

text \<open>Three table pages at \<open>0x80010000\<close> that map the page at virtual address \<open>0x1000\<close> to the frame \<open>0x80013000\<close>,
  which begins with the characters \<open>hi\<close>.\<close>

lemma load64_store64_slot:
  assumes "pg_aligned a" "pg_aligned b" "i < 512" "j < 512"
  shows "load64 (store64 m (slot b j) v) (slot a i) = (if a = b \<and> i = j then v else load64 m (slot a i))"
  using assms load64_slot_store64[of i j m a v]
    load64_same_frame[OF store64_other_frame[of b j a m v], of i] by (cases "a = b") auto

definition one_page :: memory where
  "one_page = store64 (store64 (store64 ((\<lambda>_. 0)(0x80013000 := 104, 0x80013001 := 105))
     (slot 0x80010000 0) (PA2PTE 0x80011000 OR PTE_V))
     (slot 0x80011000 0) (PA2PTE 0x80012000 OR PTE_V))
     (slot 0x80012000 1) (PA2PTE 0x80013000 OR PTE_V OR PTE_R OR PTE_W OR PTE_U)"

lemma one_page_load:
  assumes "i < 512" "a \<in> {0x80010000, 0x80011000, 0x80012000}"
  shows "load64 one_page (slot a i) =
    (if a = 0x80010000 \<and> i = 0 then 0x20004401 else if a = 0x80011000 \<and> i = 0 then 0x20004801
     else if a = 0x80012000 \<and> i = 1 then 0x20004C17 else 0)"
proof -
  have al: "pg_aligned 0x80010000" "pg_aligned 0x80011000" "pg_aligned 0x80012000" by (simp_all add: pg_aligned_def)
  have e: "PA2PTE 0x80011000 OR PTE_V = 0x20004401" "PA2PTE 0x80012000 OR PTE_V = 0x20004801"
    "PA2PTE 0x80013000 OR PTE_V OR PTE_R OR PTE_W OR PTE_U = 0x20004C17" by (simp_all add: PA2PTE_def)
  have a: "pg_aligned a" using assms(2) al by auto
  have "((\<lambda>_. 0)(0x80013000 := 104, 0x80013001 := 105) :: memory) (slot a i + of_nat j) = 0" if "j < 8" for j
    using frame_slot[OF a assms(1) that] assms(2) by (auto simp: PGROUNDDOWN_def)
  then have z: "load64 ((\<lambda>_. 0)(0x80013000 := 104, 0x80013001 := 105)) (slot a i) = 0" by (rule load64_zero)
  note l = load64_store64_slot[OF a al(1) assms(1), of 0] load64_store64_slot[OF a al(2) assms(1), of 0]
    load64_store64_slot[OF a al(3) assms(1), of 1]
  show ?thesis unfolding one_page_def e using l assms(2) z by auto
qed

lemma one_page_node:
  assumes "pt_path p"
  shows "pt_node one_page 0x80010000 p = (if p = [] then Some 0x80010000 else if p = [0] then Some 0x80011000
    else if p = [0, 0] then Some 0x80012000 else None)"
proof -
  have pa: "PTE2PA 0x20004401 = 0x80011000" "PTE2PA 0x20004801 = 0x80012000" by (simp_all add: PTE2PA_def)
  consider "p = []" | i where "p = [i]" "i < 512" | i j where "p = [i, j]" "i < 512" "j < 512"
    using assms by (auto simp: pt_path_def numeral_2_eq_2 le_Suc_eq length_Suc_conv)
  then show ?thesis by cases (simp_all add: one_page_load pa del: slot_0)
qed

lemma one_page_pages: "pt_pages one_page 0x80010000 = {0x80010000, 0x80011000, 0x80012000}"
proof -
  have "pt_path []" "pt_path [0]" "pt_path [0, 0]" by (simp_all add: pt_path_def)
  then have "0x80010000 \<in> pt_pages one_page 0x80010000" "0x80011000 \<in> pt_pages one_page 0x80010000"
    "0x80012000 \<in> pt_pages one_page 0x80010000"
    unfolding pt_pages_def using one_page_node[of "[]"] one_page_node[of "[0]"] one_page_node[of "[0, 0]"]
    by (auto simp del: pt_node.simps)
  moreover have "a = 0x80010000 \<or> a = 0x80011000 \<or> a = 0x80012000" if "a \<in> pt_pages one_page 0x80010000" for a
    using that by (auto simp: pt_pages_def one_page_node split: if_splits)
  ultimately show ?thesis by blast
qed

lemma one_page_wf: "pt_wf 0x80010000 one_page 0x80010000"
  unfolding pt_wf_def
proof (intro conjI allI impI ballI)
  fix a assume "a \<in> pt_pages one_page 0x80010000"
  then show "ram_page 0x80010000 a" by (auto simp: one_page_pages ram_page_def pg_aligned_def)
next
  fix p q a assume "pt_path p \<and> pt_path q \<and> pt_node one_page 0x80010000 p = Some a \<and> pt_node one_page 0x80010000 q = Some a"
  then show "p = q" by (auto simp: one_page_node split: if_splits)
next
  fix p i a assume a: "pt_path (p @ [i]) \<and> pt_node one_page 0x80010000 p = Some a \<and> load64 one_page (slot a i) AND PTE_V \<noteq> 0"
  then have "pt_path p" "i < 512" "length p \<le> 1" by (auto simp: pt_path_def)
  with a have "a = 0x80010000 \<or> a = 0x80011000" by (auto simp: one_page_node split: if_splits)
  with \<open>i < 512\<close> show "load64 one_page (slot a i) AND (PTE_R OR PTE_W OR PTE_X) = 0" by (auto simp: one_page_load)
next
  fix i :: nat assume "256 \<le> i \<and> i < 512"
  then show "load64 one_page (slot 0x80010000 i) AND PTE_V = 0" by (simp add: one_page_load)
qed simp

lemma one_page_entry:
  "pte_of one_page 0x80010000 0x1000 = 0x20004C17" "pte_of one_page 0x80010000 0x2000 = 0" "pte_of one_page 0x80010000 0x3000 = 0"
proof -
  have px: "PX 0 0x1000 = 1" "PX 1 0x1000 = 0" "PX 2 0x1000 = 0" "PX 0 0x2000 = 2" "PX 1 0x2000 = 0" "PX 2 0x2000 = 0"
    "PX 0 0x3000 = 3" "PX 1 0x3000 = 0" "PX 2 0x3000 = 0"
    by (simp_all add: PX_def PXSHIFT_def)
  show "pte_of one_page 0x80010000 0x1000 = 0x20004C17" "pte_of one_page 0x80010000 0x2000 = 0" "pte_of one_page 0x80010000 0x3000 = 0"
    by (simp_all add: pte_of_def va_path_def px[simplified] one_page_node one_page_load pte_slot_def pt_path_def del: pt_node.simps)
qed

lemma one_page_bytes: "one_page 0x80013000 = 104" "one_page 0x80013001 = 105" "one_page 0x80013002 = 0" "one_page 0x80020000 = 0"
proof -
  have al: "pg_aligned 0x80010000" "pg_aligned 0x80011000" "pg_aligned 0x80012000" by (simp_all add: pg_aligned_def)
  have "same_frame f one_page ((\<lambda>_. 0)(0x80013000 := 104, 0x80013001 := 105))"
    if "f \<notin> {0x80010000, 0x80011000, 0x80012000}" for f
    unfolding one_page_def
    by (intro same_frame_trans[OF store64_other_frame[OF al(3)] same_frame_trans[OF store64_other_frame[OF al(2)]
        store64_other_frame[OF al(1)]]]) (use that in simp_all)
  from this[of "0x80013000"] this[of "0x80020000"]
  show "one_page 0x80013000 = 104" "one_page 0x80013001 = 105" "one_page 0x80013002 = 0" "one_page 0x80020000 = 0"
    by (simp_all add: same_frame_def PGROUNDDOWN_def)
qed

text \<open>
  C25: \<open>walk\<close> with allocation. On a well-formed page table whose frames are not on the free list,
  for any address below \<open>MAXVA\<close>, it returns the address of the leaf entry, having taken at most
  two pages, or 0 if the free list had fewer than two pages and is exhausted. The table stays
  well-formed, every virtual address keeps its entry, the pages it took from the front of the
  free list are exactly its new table frames, and no other page of memory changes.
\<close>

theorem walk_alloc_correct:
  assumes "va < MAXVA" "pt_own pt fs s"
  shows "\<exists>r s' fs' us. walk pt va True s = Ok r s' \<and> fs = us @ fs' \<and>
    (if r = 0 then fs' = [] \<and> length us < 2
     else length us \<le> 2 \<and> (\<exists>t. pt_node (mem s') pt (va_path va) = Some t \<and> r = pte_slot t 0 va)) \<and>
    kmem_pool s' fs' \<and> pt_wf (kend s') (mem s') pt \<and> pt_pages (mem s') pt = pt_pages (mem s) pt \<union> set us \<and>
    (\<forall>vb. pte_of (mem s') pt vb = pte_of (mem s) pt vb) \<and>
    (\<forall>b. b \<notin> pt_pages (mem s') pt \<longrightarrow> same_frame b (mem s') (mem s))"
proof -
  obtain r s' fs' where w: "walk pt va True s = Ok r s'" "pt_grows pt fs s s' fs'" "walk_found pt va r fs' s'"
    and l: "if r = 0 then length fs < 2 else length fs \<le> length fs' + 2"
    using walk_alloc[OF assms] by blast
  then obtain us where u: "fs = us @ fs'" "pt_pages (mem s') pt = pt_pages (mem s) pt \<union> set us"
    by (auto simp: pt_grows_def)
  have "if r = 0 then fs' = [] \<and> length us < 2
    else length us \<le> 2 \<and> (\<exists>t. pt_node (mem s') pt (va_path va) = Some t \<and> r = pte_slot t 0 va)"
    using w(3) l u(1) by (auto simp: walk_found_def split: if_splits)
  with w u show ?thesis
    by (intro exI[of _ r] exI[of _ s'], intro exI[of "\<lambda>fs'. \<exists>us. _ fs' us" fs'], intro exI[of _ us])
      (simp add: pt_grows_def pt_own_def)
qed

theorem walk_alloc_correct_witness:
  "\<exists>s :: kmem_st. \<exists>s' r. pt_own 0x80010000 demo_pages s \<and> walk 0x80010000 0x1000 True s = Ok r s' \<and>
     pt_wf (kend s') (mem s') 0x80010000"
proof -
  obtain s :: kmem_st where s: "pt_own 0x80010000 demo_pages s" "kend s = 0x80010000"
    "\<forall>va. pte_of (mem s) 0x80010000 va = 0" "pt_pages (mem s) 0x80010000 = {0x80010000}"
    using demo_pt by blast
  from s(1) walk_alloc_correct[of "0x1000" "0x80010000" demo_pages s] show ?thesis by auto
qed

text \<open>
  C10: the kernel's lookup agrees with the MMU. On a well-formed page table \<open>walkaddr\<close> neither
  panics nor changes the state. For a user address that the Sv39 hardware translates in user
  mode it returns the frame of that translation. For an address the hardware rejects it returns
  0, with one exception, stated exactly: \<open>walkaddr\<close> tests \<open>PTE_V\<close> and \<open>PTE_U\<close> only, so it returns the
  frame of a valid user entry that the hardware rejects as meaningless. From \<open>MAXVA\<close> on it
  returns 0.
\<close>

theorem walkaddr_agrees_with_sv39:
  assumes "pt_wf e (mem s) pt"
  shows "walkaddr pt va s = Ok
    (if MAXVA \<le> va then 0 else
     case sv39_user (mem s) pt va of
       Some x \<Rightarrow> x - take_bit 12 va
     | None \<Rightarrow> if meaningless_leaf (pte_of (mem s) pt va) then PTE2PA (pte_of (mem s) pt va) else 0) s"
proof (cases "MAXVA \<le> va")
  case True
  then show ?thesis by (simp add: walkaddr_def kop_simps)
next
  case False
  then show ?thesis using walkaddr_eq[OF assms, of va]
    by (auto simp: sv39_user_def sv39_walk_pte_of[OF assms] meaningless_leaf_def Let_def not_le)
qed

theorem walkaddr_agrees_with_sv39_witness:
  "sv39_user one_page 0x80010000 0x1000 = Some 0x80013000 \<and>
   walkaddr 0x80010000 0x1000 (boot_kmem\<lparr>mem := one_page\<rparr>) = Ok 0x80013000 (boot_kmem\<lparr>mem := one_page\<rparr>) \<and>
   sv39_user one_page 0x80010000 0x2000 = None \<and>
   walkaddr 0x80010000 0x2000 (boot_kmem\<lparr>mem := one_page\<rparr>) = Ok 0 (boot_kmem\<lparr>mem := one_page\<rparr>)"
proof -
  let ?s = "boot_kmem\<lparr>mem := one_page\<rparr>"
  have w: "pt_wf 0x80010000 (mem ?s) 0x80010000" using one_page_wf by simp
  have u: "sv39_user one_page 0x80010000 0x1000 = Some 0x80013000" "sv39_user one_page 0x80010000 0x2000 = None"
    by (simp_all add: sv39_user_def sv39_walk_pte_of[OF one_page_wf] one_page_entry Let_def PTE2PA_def)
  then show ?thesis
    using walkaddr_agrees_with_sv39[OF w, of "0x1000"] walkaddr_agrees_with_sv39[OF w, of "0x2000"]
    by (simp add: one_page_entry meaningless_leaf_def)
qed

end
