(* ===== verification/Vm.thy ===== *)
theory Vm
  imports Walk
begin

text \<open>
  The rest of kernel/vm.c: building and tearing down mappings and address spaces, and copying
  between the kernel and user space. Loops are the C loops over the loop variables; integers
  that C returns as \<open>int\<close> are \<open>int\<close>, addresses and sizes \<open>u64\<close>.
\<close>

section \<open>Mappings\<close>

definition mappages_body :: "u64 \<Rightarrow> u64 \<Rightarrow> u64 \<Rightarrow> u64 \<times> u64 \<Rightarrow> (u64 \<times> u64 + int, 'z kmem_st_scheme) kernel" where
  "mappages_body pagetable lst perm = (\<lambda>(a, pa).
     bindk (walk pagetable a True) (\<lambda>pte.
     if pte = 0 then returnk (Inr (-1)) else
     bindk (loadk pte) (\<lambda>e.
     if e AND PTE_V \<noteq> 0 then panick ''mappages: remap'' else
     bindk (storek pte (PA2PTE pa OR perm OR PTE_V)) (\<lambda>_.
     if a = lst then returnk (Inr 0) else
     returnk (Inl (a + PGSIZE, pa + PGSIZE))))))"

definition mappages :: "u64 \<Rightarrow> u64 \<Rightarrow> u64 \<Rightarrow> u64 \<Rightarrow> u64 \<Rightarrow> (int, 'z kmem_st_scheme) kernel" where
  "mappages pagetable va sz pa perm =
     (if va mod PGSIZE \<noteq> 0 then panick ''mappages: va not aligned'' else
      if sz mod PGSIZE \<noteq> 0 then panick ''mappages: size not aligned'' else
      if sz = 0 then panick ''mappages: size'' else
      let last = va + sz - PGSIZE in
      loopk (mappages_body pagetable last perm) (va, pa))"

definition kvmmap :: "u64 \<Rightarrow> u64 \<Rightarrow> u64 \<Rightarrow> u64 \<Rightarrow> u64 \<Rightarrow> (unit, 'z kmem_st_scheme) kernel" where
  "kvmmap kpgtbl va pa sz perm =
     bindk (mappages kpgtbl va sz pa perm) (\<lambda>r.
     if r \<noteq> 0 then panick ''kvmmap'' else returnk ())"

definition uvmunmap_body :: "u64 \<Rightarrow> u64 \<Rightarrow> bool \<Rightarrow> u64 \<Rightarrow> (u64 + unit, 'z kmem_st_scheme) kernel" where
  "uvmunmap_body pagetable stop do_free a =
     (if \<not> a < stop then returnk (Inr ()) else
     bindk (walk pagetable a False) (\<lambda>pte.
     if pte = 0 then panick ''uvmunmap: walk'' else
     bindk (loadk pte) (\<lambda>e.
     if e AND PTE_V = 0 then panick ''uvmunmap: not mapped'' else
     if PTE_FLAGS e = PTE_V then panick ''uvmunmap: not a leaf'' else
     bindk (whenk do_free (kfree (PTE2PA e))) (\<lambda>_.
     bindk (storek pte 0) (\<lambda>_.
     returnk (Inl (a + PGSIZE)))))))"

definition uvmunmap :: "u64 \<Rightarrow> u64 \<Rightarrow> u64 \<Rightarrow> bool \<Rightarrow> (unit, 'z kmem_st_scheme) kernel" where
  "uvmunmap pagetable va npages do_free =
     (if va mod PGSIZE \<noteq> 0 then panick ''uvmunmap: not aligned'' else
      loopk (uvmunmap_body pagetable (va + npages * PGSIZE) do_free) va)"

section \<open>Address spaces\<close>

definition uvmcreate :: "(u64, 'z kmem_st_scheme) kernel" where
  "uvmcreate =
     bindk kalloc (\<lambda>pagetable.
     if pagetable = 0 then returnk 0 else
     bindk (memsetk pagetable 0 4096) (\<lambda>_.
     returnk pagetable))"

definition uvmfirst :: "u64 \<Rightarrow> u64 \<Rightarrow> u32 \<Rightarrow> (unit, 'z kmem_st_scheme) kernel" where
  "uvmfirst pagetable src sz =
     (if sz \<ge> 4096 then panick ''uvmfirst: more than a page'' else
     bindk kalloc (\<lambda>mm.
     bindk (memsetk mm 0 4096) (\<lambda>_.
     bindk (mappages pagetable 0 PGSIZE mm (PTE_W OR PTE_R OR PTE_X OR PTE_U)) (\<lambda>_.
     memmovek mm src (unat sz)))))"

text \<open>A 64-bit value stored in a C \<open>int\<close> and used as \<open>uint64\<close> again.\<close>

definition int_of_u64 :: "u64 \<Rightarrow> u64" where
  "int_of_u64 x = scast (ucast x :: u32)"

definition uvmdealloc :: "u64 \<Rightarrow> u64 \<Rightarrow> u64 \<Rightarrow> (u64, 'z kmem_st_scheme) kernel" where
  "uvmdealloc pagetable oldsz newsz =
     (if newsz \<ge> oldsz then returnk oldsz else
     bindk (whenk (PGROUNDUP newsz < PGROUNDUP oldsz)
       (let npages = int_of_u64 ((PGROUNDUP oldsz - PGROUNDUP newsz) div PGSIZE) in
        uvmunmap pagetable (PGROUNDUP newsz) npages True)) (\<lambda>_.
     returnk newsz))"

definition uvmalloc_body :: "u64 \<Rightarrow> u64 \<Rightarrow> u64 \<Rightarrow> u64 \<Rightarrow> u64 \<Rightarrow> (u64 + u64, 'z kmem_st_scheme) kernel" where
  "uvmalloc_body pagetable oldsz newsz xperm a =
     (if \<not> a < newsz then returnk (Inr newsz) else
     bindk kalloc (\<lambda>mm.
     if mm = 0 then
       bindk (uvmdealloc pagetable a oldsz) (\<lambda>_.
       returnk (Inr 0))
     else
     bindk (memsetk mm 0 4096) (\<lambda>_.
     bindk (mappages pagetable a PGSIZE mm (PTE_R OR PTE_U OR xperm)) (\<lambda>r.
     if r \<noteq> 0 then
       bindk (kfree mm) (\<lambda>_.
       bindk (uvmdealloc pagetable a oldsz) (\<lambda>_.
       returnk (Inr 0)))
     else returnk (Inl (a + PGSIZE))))))"

definition uvmalloc :: "u64 \<Rightarrow> u64 \<Rightarrow> u64 \<Rightarrow> u64 \<Rightarrow> (u64, 'z kmem_st_scheme) kernel" where
  "uvmalloc pagetable oldsz newsz xperm =
     (if newsz < oldsz then returnk oldsz else
      loopk (uvmalloc_body pagetable (PGROUNDUP oldsz) newsz xperm) (PGROUNDUP oldsz))"

text \<open>
  \<open>freewalk\<close> calls itself once per level of the tree. The first argument bounds the depth of
  this recursion; an Sv39 table has three levels, and a table that is deeper (or cyclic) counts
  as not returning.
\<close>

primrec freewalk_depth :: "nat \<Rightarrow> u64 \<Rightarrow> (unit, 'z kmem_st_scheme) kernel" where
  "freewalk_depth 0 pagetable = (\<lambda>s. Spins)"
| "freewalk_depth (Suc d) pagetable =
     bindk (foreachk [0..<512] (\<lambda>i.
       bindk (loadk (slot pagetable i)) (\<lambda>pte.
       if pte AND PTE_V \<noteq> 0 \<and> pte AND (PTE_R OR PTE_W OR PTE_X) = 0 then
         bindk (freewalk_depth d (PTE2PA pte)) (\<lambda>_.
         storek (slot pagetable i) 0)
       else if pte AND PTE_V \<noteq> 0 then panick ''freewalk: leaf''
       else returnk ()))) (\<lambda>_.
     kfree pagetable)"

definition freewalk :: "u64 \<Rightarrow> (unit, 'z kmem_st_scheme) kernel" where
  "freewalk pagetable = freewalk_depth 3 pagetable"

definition uvmfree :: "u64 \<Rightarrow> u64 \<Rightarrow> (unit, 'z kmem_st_scheme) kernel" where
  "uvmfree pagetable sz =
     bindk (whenk (sz > 0) (uvmunmap pagetable 0 (PGROUNDUP sz div PGSIZE) True)) (\<lambda>_.
     freewalk pagetable)"

definition uvmcopy_err :: "u64 \<Rightarrow> u64 \<Rightarrow> (u64 + int, 'z kmem_st_scheme) kernel" where
  "uvmcopy_err new i =
     bindk (uvmunmap new 0 (i div PGSIZE) True) (\<lambda>_.
     returnk (Inr (-1)))"

definition uvmcopy_body :: "u64 \<Rightarrow> u64 \<Rightarrow> u64 \<Rightarrow> u64 \<Rightarrow> (u64 + int, 'z kmem_st_scheme) kernel" where
  "uvmcopy_body old new sz i =
     (if \<not> i < sz then returnk (Inr 0) else
     bindk (walk old i False) (\<lambda>pte.
     if pte = 0 then panick ''uvmcopy: pte should exist'' else
     bindk (loadk pte) (\<lambda>e.
     if e AND PTE_V = 0 then panick ''uvmcopy: page not present'' else
     let pa = PTE2PA e; flags = PTE_FLAGS e in
     bindk kalloc (\<lambda>mm.
     if mm = 0 then uvmcopy_err new i else
     bindk (memmovek mm pa 4096) (\<lambda>_.
     bindk (mappages new i PGSIZE mm flags) (\<lambda>r.
     if r \<noteq> 0 then bindk (kfree mm) (\<lambda>_. uvmcopy_err new i)
     else returnk (Inl (i + PGSIZE))))))))"

definition uvmcopy :: "u64 \<Rightarrow> u64 \<Rightarrow> u64 \<Rightarrow> (int, 'z kmem_st_scheme) kernel" where
  "uvmcopy old new sz = loopk (uvmcopy_body old new sz) 0"

definition uvmclear :: "u64 \<Rightarrow> u64 \<Rightarrow> (unit, 'z kmem_st_scheme) kernel" where
  "uvmclear pagetable va =
     bindk (walk pagetable va False) (\<lambda>pte.
     if pte = 0 then panick ''uvmclear'' else
     bindk (loadk pte) (\<lambda>e.
     storek pte (e AND NOT PTE_U)))"

section \<open>Copying across the user boundary\<close>

definition chunk :: "u64 \<Rightarrow> u64 \<Rightarrow> u64" where
  "chunk va len = (let n = PGSIZE - (va - PGROUNDDOWN va) in if n > len then len else n)"

definition copyout_body :: "u64 \<Rightarrow> u64 \<times> u64 \<times> u64 \<Rightarrow> ((u64 \<times> u64 \<times> u64) + int, 'z kmem_st_scheme) kernel" where
  "copyout_body pagetable = (\<lambda>(dstva, src, len).
     if \<not> len > 0 then returnk (Inr 0) else
     let va0 = PGROUNDDOWN dstva in
     if va0 \<ge> MAXVA then returnk (Inr (-1)) else
     bindk (walk pagetable va0 False) (\<lambda>pte.
     if pte = 0 then returnk (Inr (-1)) else
     bindk (loadk pte) (\<lambda>e.
     if e AND PTE_V = 0 \<or> e AND PTE_U = 0 \<or> e AND PTE_W = 0 then returnk (Inr (-1)) else
     let pa0 = PTE2PA e; n = chunk dstva len in
     bindk (memmovek (pa0 + (dstva - va0)) src (unat n)) (\<lambda>_.
     returnk (Inl (va0 + PGSIZE, src + n, len - n))))))"

definition copyout :: "u64 \<Rightarrow> u64 \<Rightarrow> u64 \<Rightarrow> u64 \<Rightarrow> (int, 'z kmem_st_scheme) kernel" where
  "copyout pagetable dstva src len = loopk (copyout_body pagetable) (dstva, src, len)"

definition copyin_body :: "u64 \<Rightarrow> u64 \<times> u64 \<times> u64 \<Rightarrow> ((u64 \<times> u64 \<times> u64) + int, 'z kmem_st_scheme) kernel" where
  "copyin_body pagetable = (\<lambda>(dst, srcva, len).
     if \<not> len > 0 then returnk (Inr 0) else
     let va0 = PGROUNDDOWN srcva in
     bindk (walkaddr pagetable va0) (\<lambda>pa0.
     if pa0 = 0 then returnk (Inr (-1)) else
     let n = chunk srcva len in
     bindk (memmovek dst (pa0 + (srcva - va0)) (unat n)) (\<lambda>_.
     returnk (Inl (dst + n, va0 + PGSIZE, len - n)))))"

definition copyin :: "u64 \<Rightarrow> u64 \<Rightarrow> u64 \<Rightarrow> u64 \<Rightarrow> (int, 'z kmem_st_scheme) kernel" where
  "copyin pagetable dst srcva len = loopk (copyin_body pagetable) (dst, srcva, len)"

text \<open>The inner loop of \<open>copyinstr\<close>: copies up to \<open>n\<close> bytes within one page, stops at a NUL.\<close>

primrec copyinstr_page :: "nat \<Rightarrow> memory \<Rightarrow> u64 \<Rightarrow> u64 \<Rightarrow> u64 \<Rightarrow> bool \<times> memory \<times> u64 \<times> u64" where
  "copyinstr_page 0 m p dst mx = (False, m, dst, mx)"
| "copyinstr_page (Suc n) m p dst mx =
     (if m p = 0 then (True, m(dst := 0), dst, mx)
      else copyinstr_page n (m(dst := m p)) (p + 1) (dst + 1) (mx - 1))"

definition copyinstr_body :: "u64 \<Rightarrow> u64 \<times> u64 \<times> u64 \<Rightarrow> ((u64 \<times> u64 \<times> u64) + int, 'z kmem_st_scheme) kernel" where
  "copyinstr_body pagetable = (\<lambda>(dst, srcva, mx).
     if \<not> mx > 0 then returnk (Inr (-1)) else
     let va0 = PGROUNDDOWN srcva in
     bindk (walkaddr pagetable va0) (\<lambda>pa0.
     if pa0 = 0 then returnk (Inr (-1)) else
     let n = chunk srcva mx in
     bindk (getk (\<lambda>s. copyinstr_page (unat n) (mem s) (pa0 + (srcva - va0)) dst mx)) (\<lambda>(got_null, m, dst, mx).
     bindk (modifyk (\<lambda>s. s\<lparr>mem := m\<rparr>)) (\<lambda>_.
     if got_null then returnk (Inr 0) else
     returnk (Inl (dst, va0 + PGSIZE, mx))))))"

definition copyinstr :: "u64 \<Rightarrow> u64 \<Rightarrow> u64 \<Rightarrow> u64 \<Rightarrow> (int, 'z kmem_st_scheme) kernel" where
  "copyinstr pagetable dst srcva mx = loopk (copyinstr_body pagetable) (dst, srcva, mx)"

section \<open>The kernel's page table\<close>

record vm_st = kmem_st +
  kernel_pagetable :: u64
  satp :: u64

definition proc_mapstacks :: "u64 \<Rightarrow> (unit, 'z kmem_st_scheme) kernel" where
  "proc_mapstacks kpgtbl =
     foreachk [0..<NPROC] (\<lambda>p.
       bindk kalloc (\<lambda>pa.
       if pa = 0 then panick ''kalloc'' else
       kvmmap kpgtbl (KSTACK p) pa PGSIZE (PTE_R OR PTE_W)))"

text \<open>\<open>etext\<close> and \<open>trampoline\<close> are addresses the linker script sets.\<close>

definition kvmmake :: "u64 \<Rightarrow> u64 \<Rightarrow> (u64, 'z kmem_st_scheme) kernel" where
  "kvmmake etext trampoline =
     bindk kalloc (\<lambda>kpgtbl.
     bindk (memsetk kpgtbl 0 4096) (\<lambda>_.
     bindk (kvmmap kpgtbl UART0 UART0 PGSIZE (PTE_R OR PTE_W)) (\<lambda>_.
     bindk (kvmmap kpgtbl VIRTIO0 VIRTIO0 PGSIZE (PTE_R OR PTE_W)) (\<lambda>_.
     bindk (kvmmap kpgtbl PLIC PLIC 0x400000 (PTE_R OR PTE_W)) (\<lambda>_.
     bindk (kvmmap kpgtbl KERNBASE KERNBASE (etext - KERNBASE) (PTE_R OR PTE_X)) (\<lambda>_.
     bindk (kvmmap kpgtbl etext etext (PHYSTOP - etext) (PTE_R OR PTE_W)) (\<lambda>_.
     bindk (kvmmap kpgtbl TRAMPOLINE trampoline PGSIZE (PTE_R OR PTE_X)) (\<lambda>_.
     bindk (proc_mapstacks kpgtbl) (\<lambda>_.
     returnk kpgtbl)))))))))"

definition kvminit :: "u64 \<Rightarrow> u64 \<Rightarrow> (unit, 'z vm_st_scheme) kernel" where
  "kvminit etext trampoline =
     bindk (kvmmake etext trampoline) (\<lambda>kpgtbl.
     modifyk (\<lambda>s. s\<lparr>kernel_pagetable := kpgtbl\<rparr>))"

definition kvminithart :: "(unit, 'z vm_st_scheme) kernel" where
  "kvminithart = modifyk (\<lambda>s. s\<lparr>satp := MAKE_SATP (kernel_pagetable s)\<rparr>)"

end
