(* ===== verification/Uvm.thy ===== *)
theory Uvm
  imports Vm
begin

text \<open>
  Behaviour of the mapping operations of kernel/vm.c: \<open>mappages\<close> and \<open>uvmunmap\<close> change
  exactly the entries of their range, growing and shrinking an address space gives the pages
  back on every error path, and \<open>freewalk\<close> returns every table frame to the allocator.
\<close>

section \<open>Changing one entry\<close>

text \<open>
  Growth of a table up to its leaf entries: it took the first pages of the free list as table
  frames and wrote to its own frames only.
\<close>

definition pt_ext :: "u64 \<Rightarrow> u64 list \<Rightarrow> 'z kmem_st_scheme \<Rightarrow> 'z kmem_st_scheme \<Rightarrow> u64 list \<Rightarrow> bool" where
  "pt_ext pt fs s s' fs' \<longleftrightarrow> kmem_frame s s' \<and> pt_own pt fs' s' \<and>
     (\<exists>us. fs = us @ fs' \<and> pt_pages (mem s') pt = pt_pages (mem s) pt \<union> set us) \<and>
     (\<forall>b. b \<notin> pt_pages (mem s') pt \<longrightarrow> same_frame b (mem s') (mem s))"

lemma pt_grows_ext: "pt_grows pt fs s s' fs' \<Longrightarrow> pt_ext pt fs s s' fs'"
  by (simp add: pt_grows_def pt_ext_def)

lemma pt_ext_refl: "pt_own pt fs s \<Longrightarrow> pt_ext pt fs s s fs"
  by (simp add: pt_ext_def)

lemma pt_ext_trans:
  assumes "pt_ext pt fs s s' fs'" "pt_ext pt fs' s' s'' fs''"
  shows "pt_ext pt fs s s'' fs''"
proof -
  obtain us vs where u: "fs = us @ fs'" "pt_pages (mem s') pt = pt_pages (mem s) pt \<union> set us"
    and v: "fs' = vs @ fs''" "pt_pages (mem s'') pt = pt_pages (mem s') pt \<union> set vs"
    using assms unfolding pt_ext_def by blast
  have "same_frame b (mem s'') (mem s)" if "b \<notin> pt_pages (mem s'') pt" for b
    using that assms v(2) unfolding pt_ext_def by (auto intro: same_frame_trans)
  moreover have "fs = (us @ vs) @ fs''" "pt_pages (mem s'') pt = pt_pages (mem s) pt \<union> set (us @ vs)"
    using u v by auto
  ultimately show ?thesis
    using assms kmem_frame_trans[of s s' s''] unfolding pt_ext_def by metis
qed

lemma pt_extD:
  assumes "pt_ext pt fs s s' fs'"
  shows "kmem_frame s s'" "pt_own pt fs' s'" "set fs' \<subseteq> set fs"
    "pt_pages (mem s) pt \<subseteq> pt_pages (mem s') pt" "pt_pages (mem s') pt \<subseteq> pt_pages (mem s) pt \<union> set fs"
    "b \<notin> pt_pages (mem s') pt \<Longrightarrow> same_frame b (mem s') (mem s)"
  using assms by (auto simp: pt_ext_def)

text \<open>Storing a leaf entry.\<close>

lemma pt_own_leaf:
  fixes v :: u64
  assumes "pt_own pt fs s" "pt_node (mem s) pt (va_path va) = Some t" "va < MAXVA"
  defines "s' \<equiv> s\<lparr>mem := store64 (mem s) (pte_slot t 0 va) v\<rparr>"
  shows "pt_ext pt fs s s' fs" "pt_pages (mem s') pt = pt_pages (mem s) pt"
    "vb < MAXVA \<Longrightarrow> pte_of (mem s') pt vb = (if PGROUNDDOWN vb = PGROUNDDOWN va then v else pte_of (mem s) pt vb)"
proof -
  have wf: "pt_wf (kend s) (mem s) pt" and sep: "pt_pages (mem s) pt \<inter> set fs = {}"
    and pool: "kmem_pool s fs"
    using assms(1) by (simp_all add: pt_own_def)
  note l = pt_leaf[OF wf assms(2), of v]
  have t: "pg_aligned t" "t \<in> pt_pages (mem s) pt" using pt_wfD[OF wf pt_path_va assms(2)] by auto
  have f: "kmem_frame s s'" unfolding s'_def by (rule kmem_frameI)
  have out: "same_frame b (mem s') (mem s)" if "b \<noteq> t" for b
    unfolding s'_def pte_slot_def using t that by (simp add: store64_other_frame PX_lt)
  have "kmem_pool s' fs"
    using sep t by (intro kmem_pool_mem[OF pool f] out) (auto simp: s'_def)
  then have "pt_own pt fs s'"
    using l(1,2) sep by (simp add: pt_own_def s'_def)
  moreover have "same_frame b (mem s') (mem s)" if "b \<notin> pt_pages (mem s) pt" for b
    using that t by (intro out) auto
  ultimately show "pt_ext pt fs s s' fs"
    using f l(1) by (simp add: pt_ext_def s'_def)
  show "pt_pages (mem s') pt = pt_pages (mem s) pt" using l(1) by (simp add: s'_def)
  show "pte_of (mem s') pt vb = (if PGROUNDDOWN vb = PGROUNDDOWN va then v else pte_of (mem s) pt vb)"
    if "vb < MAXVA"
    using l(4)[of vb] same_entry_iff[OF assms(3) that] by (auto simp: s'_def)
qed

section \<open>mappages\<close>

text \<open>
  One iteration of the loop of \<open>mappages\<close> on an unmapped page: the entry is set, or a table page
  is missing and nothing is mapped.
\<close>

lemma map_step:
  assumes "a < MAXVA" "pt_own pt fs s" "pte_of (mem s) pt a AND PTE_V = 0"
  shows "\<exists>s' fs'. pt_ext pt fs s s' fs' \<and>
    (mappages_body pt lst perm (a, pa) s = Ok (Inr (-1)) s' \<and> fs' = [] \<and> length fs < 2 \<and>
       (\<forall>vb. pte_of (mem s') pt vb = pte_of (mem s) pt vb)
     \<or> mappages_body pt lst perm (a, pa) s =
         Ok (if a = lst then Inr 0 else Inl (a + PGSIZE, pa + PGSIZE)) s' \<and> length fs \<le> length fs' + 2 \<and>
       (\<forall>vb < MAXVA. pte_of (mem s') pt vb =
          (if PGROUNDDOWN vb = PGROUNDDOWN a then PA2PTE pa OR perm OR PTE_V else pte_of (mem s) pt vb)))"
proof -
  obtain r s1 fs1 where w: "walk pt a True s = Ok r s1" "pt_grows pt fs s s1 fs1" "walk_found pt a r fs1 s1"
    "if r = 0 then length fs < 2 else length fs \<le> length fs1 + 2"
    using walk_alloc[OF assms(1,2)] by blast
  have g: "pt_ext pt fs s s1 fs1" by (rule pt_grows_ext[OF w(2)])
  have pe: "pte_of (mem s1) pt vb = pte_of (mem s) pt vb" for vb using w(2) by (simp add: pt_grows_def)
  show ?thesis
  proof (cases "r = 0")
    case True
    then have "fs1 = []" using w(3) by (auto simp: walk_found_def)
    with True w g pe show ?thesis
      by (intro exI[of _ s1] exI[of _ fs1]) (simp add: mappages_body_def kop_simps bindk_def)
  next
    case False
    then obtain t where t: "pt_node (mem s1) pt (va_path a) = Some t" "r = pte_slot t 0 a"
      using w(3) by (auto simp: walk_found_def)
    have "load64 (mem s1) r = pte_of (mem s1) pt a" using t by (simp add: pte_of_def)
    then have e: "load64 (mem s1) r AND PTE_V = 0" using pe assms(3) by simp
    note l = pt_own_leaf[OF pt_extD(2)[OF g] t(1) assms(1), where v = "PA2PTE pa OR perm OR PTE_V", folded t(2)]
    show ?thesis
      using False w(1,4) e pe pt_ext_trans[OF g l(1)] l(3)
      by (intro exI[of _ "s1\<lparr>mem := store64 (mem s1) r (PA2PTE pa OR perm OR PTE_V)\<rparr>"] exI[of _ fs1])
        (auto simp: mappages_body_def memk_defs kop_simps bindk_def)
  qed
qed

text \<open>Virtual page numbers.\<close>

definition vpn :: "u64 \<Rightarrow> nat" where
  "vpn va = unat va div 4096"

lemma same_page_iff: "PGROUNDDOWN x = PGROUNDDOWN y \<longleftrightarrow> vpn x = vpn y"
  by (auto simp: word_unat_eq_iff pgrounddown_nat vpn_def)

lemma aligned_vpn: "pg_aligned a \<Longrightarrow> unat a = 4096 * vpn a"
  by (auto simp: pg_aligned_nat vpn_def)

lemma vpn_MAXVA: "va < MAXVA \<longleftrightarrow> vpn va < 67108864"
  by (simp add: vpn_def word_less_nat_alt) linarith

lemma aligned_next:
  assumes "pg_aligned a" "vpn a + n \<le> 67108864"
  shows "unat (a + 4096 * of_nat n) = unat a + 4096 * n"
    "pg_aligned (a + 4096 * of_nat n)" "vpn (a + 4096 * of_nat n) = vpn a + n"
proof -
  have "unat a + 4096 * n \<le> 274877906944" using assms aligned_vpn[OF assms(1)] by simp
  then have "unat (a + of_nat (4096 * n)) = unat a + 4096 * n" by (intro unat_add_of_nat) simp
  then show u: "unat (a + 4096 * of_nat n) = unat a + 4096 * n" by simp
  then show "pg_aligned (a + 4096 * of_nat n)" "vpn (a + 4096 * of_nat n) = vpn a + n"
    using assms(1) by (simp_all add: pg_aligned_nat vpn_def)
qed

text \<open>The entries of \<open>k\<close> pages from \<open>va\<close> on are set to consecutive frames from \<open>pa\<close> on.\<close>

definition mapped :: "u64 \<Rightarrow> u64 \<Rightarrow> u64 \<Rightarrow> u64 \<Rightarrow> nat \<Rightarrow> memory \<Rightarrow> memory \<Rightarrow> bool" where
  "mapped pt va pa perm k m m' \<longleftrightarrow> (\<forall>vb < MAXVA. pte_of m' pt vb =
     (if vpn va \<le> vpn vb \<and> vpn vb < vpn va + k
      then PA2PTE (pa + 4096 * of_nat (vpn vb - vpn va)) OR perm OR PTE_V
      else pte_of m pt vb))"

lemma mapped_0: "mapped pt va pa perm 0 m m' \<longleftrightarrow> (\<forall>vb < MAXVA. pte_of m' pt vb = pte_of m pt vb)"
  by (auto simp: mapped_def)

lemma mapped_Suc:
  assumes "\<forall>vb < MAXVA. pte_of m1 pt vb =
      (if PGROUNDDOWN vb = PGROUNDDOWN va then PA2PTE pa OR perm OR PTE_V else pte_of m pt vb)"
    and "mapped pt (va + 4096) (pa + 4096) perm k m1 m'" "vpn (va + 4096) = Suc (vpn va)"
  shows "mapped pt va pa perm (Suc k) m m'"
  unfolding mapped_def
proof (intro allI impI)
  fix vb assume vb: "vb < MAXVA"
  have 1: "pte_of m1 pt vb = (if vpn vb = vpn va then PA2PTE pa OR perm OR PTE_V else pte_of m pt vb)"
    using assms(1) vb by (simp add: same_page_iff)
  have 2: "pte_of m' pt vb = (if Suc (vpn va) \<le> vpn vb \<and> vpn vb < Suc (vpn va) + k
      then PA2PTE (pa + 4096 + 4096 * of_nat (vpn vb - Suc (vpn va))) OR perm OR PTE_V else pte_of m1 pt vb)"
    using assms(2,3) vb by (simp add: mapped_def)
  have 3: "pa + 4096 + 4096 * of_nat (vpn vb - Suc (vpn va)) = pa + 4096 * of_nat (vpn vb - vpn va)"
    if "Suc (vpn va) \<le> vpn vb"
  proof -
    have "vpn vb - vpn va = Suc (vpn vb - Suc (vpn va))" using that by simp
    then show ?thesis by (simp add: algebra_simps)
  qed
  show "pte_of m' pt vb = (if vpn va \<le> vpn vb \<and> vpn vb < vpn va + Suc k
      then PA2PTE (pa + 4096 * of_nat (vpn vb - vpn va)) OR perm OR PTE_V else pte_of m pt vb)"
    using 1 2 3 by (cases "vpn vb = vpn va") auto
qed

lemma mappages_loop:
  assumes "pg_aligned a" "vpn a + Suc n \<le> 67108864" "pt_own pt fs s"
    and "\<And>vb. \<lbrakk>vb < MAXVA; vpn a \<le> vpn vb; vpn vb \<le> vpn a + n\<rbrakk> \<Longrightarrow> pte_of (mem s) pt vb AND PTE_V = 0"
  shows "\<exists>r s' fs' k. loopk (mappages_body pt (a + 4096 * of_nat n) perm) (a, pa) s = Ok r s' \<and>
    pt_ext pt fs s s' fs' \<and> k \<le> Suc n \<and> mapped pt a pa perm k (mem s) (mem s') \<and>
    (r = 0 \<and> k = Suc n \<and> length fs \<le> length fs' + 2 * Suc n \<or>
     r = -1 \<and> k \<le> n \<and> fs' = [] \<and> length fs < 2 * Suc n)"
  using assms
proof (induction n arbitrary: a pa s fs)
  case 0
  have a: "a < MAXVA" using 0(2) by (simp add: vpn_MAXVA)
  have "pte_of (mem s) pt a AND PTE_V = 0" using 0(4)[of a] a by simp
  then obtain s' fs' where e: "pt_ext pt fs s s' fs'" and c:
    "mappages_body pt a perm (a, pa) s = Ok (Inr (-1)) s' \<and> fs' = [] \<and> length fs < 2 \<and>
       (\<forall>vb. pte_of (mem s') pt vb = pte_of (mem s) pt vb)
     \<or> mappages_body pt a perm (a, pa) s = Ok (Inr 0) s' \<and> length fs \<le> length fs' + 2 \<and>
       (\<forall>vb < MAXVA. pte_of (mem s') pt vb =
          (if PGROUNDDOWN vb = PGROUNDDOWN a then PA2PTE pa OR perm OR PTE_V else pte_of (mem s) pt vb))"
    using map_step[OF a 0(3), of a perm pa] by auto
  from c show ?case
  proof
    assume "mappages_body pt a perm (a, pa) s = Ok (Inr (-1)) s' \<and> fs' = [] \<and> length fs < 2 \<and>
       (\<forall>vb. pte_of (mem s') pt vb = pte_of (mem s) pt vb)"
    then show ?thesis using e
      by (intro exI[of _ "-1"] exI[of _ s'] exI[of _ fs'] exI[of _ 0]) (simp add: loopk_steps mapped_0)
  next
    assume "mappages_body pt a perm (a, pa) s = Ok (Inr 0) s' \<and> length fs \<le> length fs' + 2 \<and>
       (\<forall>vb < MAXVA. pte_of (mem s') pt vb =
          (if PGROUNDDOWN vb = PGROUNDDOWN a then PA2PTE pa OR perm OR PTE_V else pte_of (mem s) pt vb))"
    then show ?thesis using e
      by (intro exI[of _ 0] exI[of _ s'] exI[of _ fs'] exI[of _ 1])
        (auto simp: loopk_steps mapped_def same_page_iff)
  qed
next
  case (Suc n)
  have a: "a < MAXVA" using Suc.prems(2) by (simp add: vpn_MAXVA)
  have nx: "pg_aligned (a + 4096)" "vpn (a + 4096) = Suc (vpn a)" "unat (a + 4096) = unat a + 4096"
    using aligned_next[OF Suc.prems(1), of 1] Suc.prems(2) by simp_all
  define L where "L = a + 4096 + 4096 * of_nat n"
  have last: "a + 4096 * of_nat (Suc n) = L" by (simp add: algebra_simps L_def)
  have ne: "a \<noteq> L"
  proof
    assume "a = L"
    then have "unat a = unat (a + 4096 * of_nat (Suc n))" unfolding last by (rule arg_cong)
    then show False using aligned_next(1)[OF Suc.prems(1), of "Suc n"] Suc.prems(2) by simp
  qed
  have "pte_of (mem s) pt a AND PTE_V = 0" using Suc.prems(4)[of a] a by simp
  then obtain s1 fs1 where e: "pt_ext pt fs s s1 fs1" and c:
    "mappages_body pt L perm (a, pa) s = Ok (Inr (-1)) s1 \<and> fs1 = [] \<and> length fs < 2 \<and>
       (\<forall>vb. pte_of (mem s1) pt vb = pte_of (mem s) pt vb)
     \<or> mappages_body pt L perm (a, pa) s = Ok (Inl (a + 4096, pa + 4096)) s1 \<and> length fs \<le> length fs1 + 2 \<and>
       (\<forall>vb < MAXVA. pte_of (mem s1) pt vb =
          (if PGROUNDDOWN vb = PGROUNDDOWN a then PA2PTE pa OR perm OR PTE_V else pte_of (mem s) pt vb))"
    using map_step[OF a Suc.prems(3), of L perm pa] ne by auto
  from c have "\<exists>r s' fs' k. loopk (mappages_body pt L perm) (a, pa) s = Ok r s' \<and>
    pt_ext pt fs s s' fs' \<and> k \<le> Suc (Suc n) \<and> mapped pt a pa perm k (mem s) (mem s') \<and>
    (r = 0 \<and> k = Suc (Suc n) \<and> length fs \<le> length fs' + 2 * Suc (Suc n) \<or>
     r = -1 \<and> k \<le> Suc n \<and> fs' = [] \<and> length fs < 2 * Suc (Suc n))"
  proof
    assume "mappages_body pt L perm (a, pa) s = Ok (Inr (-1)) s1 \<and> fs1 = [] \<and> length fs < 2 \<and>
       (\<forall>vb. pte_of (mem s1) pt vb = pte_of (mem s) pt vb)"
    then show ?thesis using e
      by (intro exI[of _ "-1"] exI[of _ s1] exI[of _ fs1] exI[of _ 0]) (simp add: loopk_steps mapped_0)
  next
    assume st: "mappages_body pt L perm (a, pa) s = Ok (Inl (a + 4096, pa + 4096)) s1 \<and> length fs \<le> length fs1 + 2 \<and>
       (\<forall>vb < MAXVA. pte_of (mem s1) pt vb =
          (if PGROUNDDOWN vb = PGROUNDDOWN a then PA2PTE pa OR perm OR PTE_V else pte_of (mem s) pt vb))"
    have "\<exists>r s' fs' k. loopk (mappages_body pt L perm) (a + 4096, pa + 4096) s1 = Ok r s' \<and>
        pt_ext pt fs1 s1 s' fs' \<and> k \<le> Suc n \<and> mapped pt (a + 4096) (pa + 4096) perm k (mem s1) (mem s') \<and>
        (r = 0 \<and> k = Suc n \<and> length fs1 \<le> length fs' + 2 * Suc n \<or>
         r = -1 \<and> k \<le> n \<and> fs' = [] \<and> length fs1 < 2 * Suc n)"
      unfolding L_def using Suc.prems(2,4) nx st e pt_extD(2)[OF e]
      by (intro Suc.IH) (auto simp: same_page_iff)
    then obtain r s' fs' k where IH: "loopk (mappages_body pt L perm) (a + 4096, pa + 4096) s1 = Ok r s'"
        "pt_ext pt fs1 s1 s' fs'" "k \<le> Suc n" "mapped pt (a + 4096) (pa + 4096) perm k (mem s1) (mem s')"
        "r = 0 \<and> k = Suc n \<and> length fs1 \<le> length fs' + 2 * Suc n \<or>
         r = -1 \<and> k \<le> n \<and> fs' = [] \<and> length fs1 < 2 * Suc n" by blast
    have "mapped pt a pa perm (Suc k) (mem s) (mem s')"
      by (rule mapped_Suc[OF conjunct2[OF conjunct2[OF st]] IH(4) nx(2)])
    moreover have "r = 0 \<and> Suc k = Suc (Suc n) \<and> length fs \<le> length fs' + 2 * Suc (Suc n) \<or>
       r = -1 \<and> Suc k \<le> Suc n \<and> fs' = [] \<and> length fs < 2 * Suc (Suc n)"
      using IH(5) conjunct1[OF conjunct2[OF st]] by auto
    moreover have "loopk (mappages_body pt L perm) (a, pa) s = Ok r s'"
      using loopk_steps(1)[of "mappages_body pt L perm", OF conjunct1[OF st]] IH(1) by simp
    ultimately show ?thesis using IH(3) pt_ext_trans[OF e IH(2)] by (metis Suc_le_mono)
  qed
  then show ?case by (simp only: last)
qed

definition unmapped_range :: "u64 \<Rightarrow> u64 \<Rightarrow> nat \<Rightarrow> memory \<Rightarrow> bool" where
  "unmapped_range pt va n m \<longleftrightarrow>
     (\<forall>vb < MAXVA. vpn va \<le> vpn vb \<and> vpn vb < vpn va + n \<longrightarrow> pte_of m pt vb AND PTE_V = 0)"

lemma size_pages:
  assumes "0 < n" "n \<le> 67108864"
  shows "(4096 * of_nat n :: u64) mod 4096 = 0" "(4096 * of_nat n :: u64) \<noteq> 0"
    "4096 * of_nat n - 4096 = (4096 * of_nat (n - 1) :: u64)"
proof -
  have "unat (of_nat (4096 * n) :: u64) = 4096 * n"
    using assms by (intro unat_of_nat_small) simp
  then have u: "unat (4096 * of_nat n :: u64) = 4096 * n" by simp
  then show "(4096 * of_nat n :: u64) mod 4096 = 0" by (simp add: word_mod_4096_iff)
  show "(4096 * of_nat n :: u64) \<noteq> 0" using u assms(1) by (auto simp: word_unat_eq_iff)
  show "4096 * of_nat n - 4096 = (4096 * of_nat (n - 1) :: u64)"
    using assms(1) by (simp add: of_nat_diff algebra_simps)
qed

lemma mappages_spec:
  assumes "pg_aligned va" "0 < n" "vpn va + n \<le> 67108864" "pt_own pt fs s" "unmapped_range pt va n (mem s)"
  shows "\<exists>r s' fs' k. mappages pt va (4096 * of_nat n) pa perm s = Ok r s' \<and>
    pt_ext pt fs s s' fs' \<and> k \<le> n \<and> mapped pt va pa perm k (mem s) (mem s') \<and>
    (r = 0 \<and> k = n \<and> length fs \<le> length fs' + 2 * n \<or> r = -1 \<and> k < n \<and> fs' = [] \<and> length fs < 2 * n)"
proof -
  have lst: "va + 4096 * of_nat n - 4096 = va + 4096 * of_nat (n - 1)"
    using size_pages(3)[of n] assms(2,3) by (simp add: algebra_simps)
  have "va mod 4096 = 0" using assms(1) by (simp add: pg_aligned_def)
  then have "mappages pt va (4096 * of_nat n) pa perm s =
      loopk (mappages_body pt (va + 4096 * of_nat (n - 1)) perm) (va, pa) s"
    using size_pages[of n] assms(2,3) by (simp add: mappages_def lst Let_def)
  moreover obtain j where j: "n = Suc j" using assms(2) gr0_implies_Suc by blast
  ultimately show ?thesis
    using mappages_loop[OF assms(1) _ assms(4), of j perm pa] assms(3,5)
    by (simp add: unmapped_range_def less_Suc_eq_le)
qed

section \<open>uvmunmap\<close>

definition is_leaf :: "u64 \<Rightarrow> bool" where
  "is_leaf e \<longleftrightarrow> e AND PTE_V \<noteq> 0 \<and> PTE_FLAGS e \<noteq> PTE_V"

lemma pte_of_node:
  assumes "pte_of m pt va \<noteq> 0"
  obtains t where "pt_node m pt (va_path va) = Some t" "load64 m (pte_slot t 0 va) = pte_of m pt va"
  using assms by (auto simp: pte_of_def split: option.splits)

lemma unmap_step:
  assumes "a < MAXVA" "a < stop" "pt_own pt fs s" "is_leaf (pte_of (mem s) pt a)"
    and "do_free \<Longrightarrow> ram_page (kend s) (PTE2PA (pte_of (mem s) pt a)) \<and>
      PTE2PA (pte_of (mem s) pt a) \<notin> pt_pages (mem s) pt \<union> set fs"
  shows "\<exists>s'. uvmunmap_body pt stop do_free a s = Ok (Inl (a + PGSIZE)) s' \<and> kmem_frame s s' \<and>
    pt_own pt (if do_free then PTE2PA (pte_of (mem s) pt a) # fs else fs) s' \<and>
    pt_pages (mem s') pt = pt_pages (mem s) pt \<and>
    (\<forall>vb < MAXVA. pte_of (mem s') pt vb =
       (if PGROUNDDOWN vb = PGROUNDDOWN a then 0 else pte_of (mem s) pt vb)) \<and>
    (\<forall>b. b \<notin> pt_pages (mem s) pt \<and> (do_free \<longrightarrow> b \<noteq> PTE2PA (pte_of (mem s) pt a)) \<longrightarrow>
       same_frame b (mem s') (mem s))"
proof -
  let ?e = "pte_of (mem s) pt a"
  let ?fs = "if do_free then PTE2PA ?e # fs else fs"
  have wf: "pt_wf (kend s) (mem s) pt" and pool: "kmem_pool s fs" and sep: "pt_pages (mem s) pt \<inter> set fs = {}"
    using assms(3) by (simp_all add: pt_own_def)
  have v: "?e AND PTE_V \<noteq> 0" "PTE_FLAGS ?e \<noteq> PTE_V" using assms(4) by (simp_all add: is_leaf_def)
  then have "?e \<noteq> 0" by auto
  then obtain t where t: "pt_node (mem s) pt (va_path a) = Some t" "load64 (mem s) (pte_slot t 0 a) = ?e"
    by (rule pte_of_node)
  have nz: "pte_slot t 0 a \<noteq> 0" by (rule pte_slot_nonzero[OF wf pt_path_va t(1)])
  obtain s1 where s1: "whenk do_free (kfree (PTE2PA ?e)) s = Ok () s1" "kmem_pool s1 ?fs" "kmem_frame s s1"
    and k1: "\<And>b. (do_free \<longrightarrow> b \<noteq> PTE2PA ?e) \<Longrightarrow> same_frame b (mem s1) (mem s)"
  proof (cases do_free)
    case True
    obtain s1 where "kfree (PTE2PA ?e) s = Ok () s1" "kmem_pool s1 (PTE2PA ?e # fs)" "kmem_keeps {PTE2PA ?e} s s1"
      using pages.free_push[OF pool, of "PTE2PA ?e"] assms(5)[OF True] by auto
    with True that[of s1] show thesis by (auto simp: whenk_def kmem_keeps_def)
  next
    case False
    with pool that[of s] show thesis by (simp add: whenk_def kop_simps)
  qed
  have same: "same_frame b (mem s1) (mem s)" if "b \<in> pt_pages (mem s) pt" for b
    using that assms(5) by (intro k1) auto
  note o1 = pt_outside[OF wf same] and n1 = pt_node_outside[OF wf pt_path_va same]
  have k: "kend s1 = kend s" using kmem_frameD[OF s1(3)] by simp
  have own1: "pt_own pt ?fs s1"
    using s1(2) o1(1,2) sep assms(5) k by (auto simp: pt_own_def)
  have t1: "pt_node (mem s1) pt (va_path a) = Some t" using n1 t(1) by simp
  note l = pt_own_leaf[OF own1 t1 assms(1), where v = 0]
  let ?s' = "s1\<lparr>mem := store64 (mem s1) (pte_slot t 0 a) 0\<rparr>"
  have "uvmunmap_body pt stop do_free a s = Ok (Inl (a + PGSIZE)) ?s'"
    using assms(1,2) t nz v s1(1)
    by (simp add: uvmunmap_body_def walk_lookup memk_defs kop_simps bindk_def)
  moreover have "kmem_frame s ?s'" using kmem_frame_trans[OF s1(3) pt_extD(1)[OF l(1)]] .
  moreover have "same_frame b (mem ?s') (mem s)"
    if "b \<notin> pt_pages (mem s) pt \<and> (do_free \<longrightarrow> b \<noteq> PTE2PA ?e)" for b
    using pt_extD(6)[OF l(1), of b] k1[of b] that l(2) o1(1) by (auto intro: same_frame_trans)
  ultimately show ?thesis
    using pt_extD(2)[OF l(1)] l(2,3) o1(1,3) by (intro exI[of _ ?s']) simp
qed

definition range_frames :: "memory \<Rightarrow> u64 \<Rightarrow> u64 \<Rightarrow> nat \<Rightarrow> u64 list" where
  "range_frames m pt a n = map (\<lambda>i. PTE2PA (pte_of m pt (a + 4096 * of_nat i))) [0..<n]"

definition leaf_range :: "memory \<Rightarrow> u64 \<Rightarrow> u64 \<Rightarrow> nat \<Rightarrow> bool" where
  "leaf_range m pt a n \<longleftrightarrow> (\<forall>i < n. is_leaf (pte_of m pt (a + 4096 * of_nat i)))"

definition unmapped :: "u64 \<Rightarrow> u64 \<Rightarrow> nat \<Rightarrow> memory \<Rightarrow> memory \<Rightarrow> bool" where
  "unmapped pt va n m m' \<longleftrightarrow> (\<forall>vb < MAXVA. pte_of m' pt vb =
     (if vpn va \<le> vpn vb \<and> vpn vb < vpn va + n then 0 else pte_of m pt vb))"

lemma range_frames_Suc:
  "range_frames m pt a (Suc n) = PTE2PA (pte_of m pt a) # range_frames m pt (a + 4096) n"
proof -
  have "[0..<Suc n] = 0 # map Suc [0..<n]" by (simp add: map_Suc_upt upt_conv_Cons)
  then show ?thesis by (simp add: range_frames_def algebra_simps)
qed

lemma leaf_range_Suc:
  "leaf_range m pt a (Suc n) \<longleftrightarrow> is_leaf (pte_of m pt a) \<and> leaf_range m pt (a + 4096) n"
  by (auto simp: leaf_range_def less_Suc_eq_0_disj algebra_simps)

lemma range_frames_length [simp]: "length (range_frames m pt a n) = n"
  by (simp add: range_frames_def)

text \<open>Ranges only depend on their own entries.\<close>

lemma range_cong:
  assumes "pg_aligned a" "vpn a + n \<le> 67108864"
    and "\<And>vb. \<lbrakk>vb < MAXVA; vpn a \<le> vpn vb; vpn vb < vpn a + n\<rbrakk> \<Longrightarrow> pte_of m' pt vb = pte_of m pt vb"
  shows "range_frames m' pt a n = range_frames m pt a n" "leaf_range m' pt a n \<longleftrightarrow> leaf_range m pt a n"
proof -
  have "pte_of m' pt (a + 4096 * of_nat i) = pte_of m pt (a + 4096 * of_nat i)" if "i < n" for i
    using that aligned_next(3)[OF assms(1), of i] assms(2) by (intro assms(3)) (simp_all add: vpn_MAXVA)
  then show "range_frames m' pt a n = range_frames m pt a n" "leaf_range m' pt a n \<longleftrightarrow> leaf_range m pt a n"
    by (simp_all add: range_frames_def leaf_range_def)
qed

lemma uvmunmap_loop:
  assumes "pg_aligned a" "vpn a + n \<le> 67108864" "pt_own pt fs s" "leaf_range (mem s) pt a n"
    and "do_free \<Longrightarrow> distinct (range_frames (mem s) pt a n) \<and>
      (\<forall>b \<in> set (range_frames (mem s) pt a n). ram_page (kend s) b \<and> b \<notin> pt_pages (mem s) pt \<union> set fs)"
  shows "\<exists>s'. loopk (uvmunmap_body pt (a + 4096 * of_nat n) do_free) a s = Ok () s' \<and> kmem_frame s s' \<and>
    pt_own pt (if do_free then rev (range_frames (mem s) pt a n) @ fs else fs) s' \<and>
    pt_pages (mem s') pt = pt_pages (mem s) pt \<and> unmapped pt a n (mem s) (mem s') \<and>
    (\<forall>b. b \<notin> pt_pages (mem s) pt \<and> (do_free \<longrightarrow> b \<notin> set (range_frames (mem s) pt a n)) \<longrightarrow>
       same_frame b (mem s') (mem s))"
  using assms
proof (induction n arbitrary: a s fs)
  case 0
  have "uvmunmap_body pt a do_free a s = Ok (Inr ()) s" by (simp add: uvmunmap_body_def kop_simps)
  then have "loopk (uvmunmap_body pt a do_free) a s = Ok () s" by (rule loopk_steps)
  with 0 show ?case by (auto simp: range_frames_def unmapped_def)
next
  case (Suc n)
  define L where "L = a + 4096 + 4096 * of_nat n"
  have last: "a + 4096 * of_nat (Suc n) = L" by (simp add: algebra_simps L_def)
  have a: "a < MAXVA" using Suc.prems(2) by (simp add: vpn_MAXVA)
  have nx: "pg_aligned (a + 4096)" "vpn (a + 4096) = Suc (vpn a)"
    using aligned_next[OF Suc.prems(1), of 1] Suc.prems(2) by simp_all
  have aL: "a < L"
    using aligned_next(1)[OF Suc.prems(1), of "Suc n"] Suc.prems(2) unfolding last by (simp add: word_less_nat_alt)
  let ?pa = "PTE2PA (pte_of (mem s) pt a)" and ?R = "range_frames (mem s) pt (a + 4096) n"
  let ?fs1 = "if do_free then ?pa # fs else fs"
  have R: "do_free \<Longrightarrow> distinct (?pa # ?R) \<and> (\<forall>b \<in> set (?pa # ?R). ram_page (kend s) b \<and> b \<notin> pt_pages (mem s) pt \<union> set fs)"
    using Suc.prems(5) by (simp add: range_frames_Suc)
  obtain s1 where s1: "uvmunmap_body pt L do_free a s = Ok (Inl (a + 4096)) s1" "kmem_frame s s1"
    "pt_own pt ?fs1 s1" "pt_pages (mem s1) pt = pt_pages (mem s) pt"
    and p1: "\<And>vb. vb < MAXVA \<Longrightarrow> pte_of (mem s1) pt vb = (if PGROUNDDOWN vb = PGROUNDDOWN a then 0 else pte_of (mem s) pt vb)"
    and k1: "\<And>b. b \<notin> pt_pages (mem s) pt \<and> (do_free \<longrightarrow> b \<noteq> ?pa) \<Longrightarrow> same_frame b (mem s1) (mem s)"
    using unmap_step[OF a aL Suc.prems(3), of do_free] Suc.prems(4) R by (auto simp: leaf_range_Suc)
  have c: "range_frames (mem s1) pt (a + 4096) n = ?R" "leaf_range (mem s1) pt (a + 4096) n"
    using range_cong[OF nx(1), of n "mem s1" pt "mem s"] Suc.prems(2,4) nx(2) p1
    by (auto simp: leaf_range_Suc same_page_iff)
  have kend: "kend s1 = kend s" using kmem_frameD[OF s1(2)] by simp
  have "\<exists>s'. loopk (uvmunmap_body pt L do_free) (a + 4096) s1 = Ok () s' \<and> kmem_frame s1 s' \<and>
    pt_own pt (if do_free then rev (range_frames (mem s1) pt (a + 4096) n) @ ?fs1 else ?fs1) s' \<and>
    pt_pages (mem s') pt = pt_pages (mem s1) pt \<and> unmapped pt (a + 4096) n (mem s1) (mem s') \<and>
    (\<forall>b. b \<notin> pt_pages (mem s1) pt \<and> (do_free \<longrightarrow> b \<notin> set (range_frames (mem s1) pt (a + 4096) n)) \<longrightarrow>
       same_frame b (mem s') (mem s1))"
    unfolding L_def using R Suc.prems(2) nx s1 c kend by (intro Suc.IH) auto
  then obtain s' where s': "loopk (uvmunmap_body pt L do_free) (a + 4096) s1 = Ok () s'" "kmem_frame s1 s'"
    "pt_own pt (if do_free then rev ?R @ ?fs1 else ?fs1) s'"
    "pt_pages (mem s') pt = pt_pages (mem s) pt" "unmapped pt (a + 4096) n (mem s1) (mem s')"
    and k': "\<And>b. b \<notin> pt_pages (mem s) pt \<and> (do_free \<longrightarrow> b \<notin> set ?R) \<Longrightarrow> same_frame b (mem s') (mem s1)"
    unfolding c s1(4) by blast
  have "unmapped pt a (Suc n) (mem s) (mem s')"
    using s'(5) p1 nx(2) by (auto simp: unmapped_def same_page_iff)
  moreover have "same_frame b (mem s') (mem s)"
    if "b \<notin> pt_pages (mem s) pt \<and> (do_free \<longrightarrow> b \<notin> set (?pa # ?R))" for b
    using k'[of b] k1[of b] that by (auto intro: same_frame_trans)
  moreover have "loopk (uvmunmap_body pt L do_free) a s = Ok () s'"
    using s1(1) s'(1) by (simp add: loopk_steps)
  ultimately show ?case
    using s'(3,4) kmem_frame_trans[OF s1(2) s'(2)]
    unfolding last range_frames_Suc by (intro exI[of _ s']) (simp split: if_splits)
qed

text \<open>The frames of a range can be given to the allocator.\<close>

definition freeable :: "u64 \<Rightarrow> u64 list \<Rightarrow> 'z kmem_st_scheme \<Rightarrow> u64 \<Rightarrow> nat \<Rightarrow> bool" where
  "freeable pt fs s a n \<longleftrightarrow> leaf_range (mem s) pt a n \<and> distinct (range_frames (mem s) pt a n) \<and>
     (\<forall>b \<in> set (range_frames (mem s) pt a n). ram_page (kend s) b \<and> b \<notin> pt_pages (mem s) pt \<union> set fs)"

text \<open>The effect of unmapping and freeing a range.\<close>

definition released :: "u64 \<Rightarrow> u64 list \<Rightarrow> 'z kmem_st_scheme \<Rightarrow> u64 \<Rightarrow> nat \<Rightarrow> 'z kmem_st_scheme \<Rightarrow> bool" where
  "released pt fs s a n s' \<longleftrightarrow> kmem_frame s s' \<and> pt_own pt (rev (range_frames (mem s) pt a n) @ fs) s' \<and>
     pt_pages (mem s') pt = pt_pages (mem s) pt \<and> unmapped pt a n (mem s) (mem s') \<and>
     (\<forall>b. b \<notin> pt_pages (mem s) pt \<union> set (range_frames (mem s) pt a n) \<longrightarrow> same_frame b (mem s') (mem s))"

lemma uvmunmap_free_spec:
  assumes "pg_aligned a" "vpn a + n \<le> 67108864" "pt_own pt fs s" "freeable pt fs s a n"
  shows "\<exists>s'. uvmunmap pt a (of_nat n) True s = Ok () s' \<and> released pt fs s a n s'"
proof -
  have "uvmunmap pt a (of_nat n) True s = loopk (uvmunmap_body pt (a + 4096 * of_nat n) True) a s"
    using assms(1) by (simp add: uvmunmap_def pg_aligned_def mult.commute)
  then show ?thesis
    using uvmunmap_loop[OF assms(1-3), of True] assms(4) by (auto simp: freeable_def released_def)
qed

lemma released_0: "pt_own pt fs s \<Longrightarrow> released pt fs s a 0 s"
  by (auto simp: released_def range_frames_def unmapped_def)

lemma int_of_u64_small:
  assumes "n < 2147483648"
  shows "int_of_u64 (of_nat n) = of_nat n"
proof -
  have "(ucast (of_nat n :: u64) :: u32) = of_nat n"
    using assms by (simp add: unsigned_of_nat take_bit_nat_eq_self)
  moreover have "signed_take_bit 31 (int n) = int n"
    using assms by (simp add: signed_take_bit_int_eq_self)
  ultimately show ?thesis by (simp add: int_of_u64_def signed_of_nat)
qed

definition npg :: "u64 \<Rightarrow> nat" where
  "npg sz = (unat sz + 4095) div 4096"

lemma lt_npg_iff: "x < npg sz \<longleftrightarrow> 4096 * x < unat sz"
proof -
  have "Suc x \<le> (unat sz + 4095) div 4096 \<longleftrightarrow> Suc x * 4096 \<le> unat sz + 4095"
    by (rule less_eq_div_iff_mult_less_eq) simp
  then show ?thesis by (simp only: npg_def less_eq_Suc_le) linarith
qed

lemma PGROUNDUP_pages:
  assumes "unat sz \<le> 274877906944"
  shows "unat (PGROUNDUP sz) = 4096 * npg sz" "PGROUNDUP sz = 4096 * of_nat (npg sz)" "vpn (PGROUNDUP sz) = npg sz"
    "npg sz \<le> 67108864"
proof -
  show u: "unat (PGROUNDUP sz) = 4096 * npg sz"
    using assms by (subst pgroundup_nat) (simp_all add: npg_def)
  show l: "npg sz \<le> 67108864" using assms by (simp add: npg_def)
  have "unat (of_nat (4096 * npg sz) :: u64) = 4096 * npg sz"
    using l by (intro unat_of_nat_small) simp
  then show "PGROUNDUP sz = 4096 * of_nat (npg sz)" using u by (simp add: word_unat_eq_iff)
  show "vpn (PGROUNDUP sz) = npg sz" using u by (simp add: vpn_def)
qed

lemma uvmdealloc_spec:
  assumes "newsz \<le> oldsz" "unat oldsz \<le> 274877906944" "pt_own pt fs s"
    and "freeable pt fs s (PGROUNDUP newsz) (npg oldsz - npg newsz)"
  shows "\<exists>s'. uvmdealloc pt oldsz newsz s = Ok newsz s' \<and>
    released pt fs s (PGROUNDUP newsz) (npg oldsz - npg newsz) s'"
proof -
  let ?n = "npg oldsz - npg newsz"
  have le: "unat newsz \<le> unat oldsz" using assms(1) by (simp add: word_le_nat_alt)
  have n: "unat newsz \<le> 274877906944" using le assms(2) by simp
  note o = PGROUNDUP_pages[OF assms(2)] and w = PGROUNDUP_pages[OF n]
  have mono: "npg newsz \<le> npg oldsz" using le by (simp add: npg_def div_le_mono)
  show ?thesis
  proof (cases "PGROUNDUP newsz < PGROUNDUP oldsz")
    case True
    then have "newsz < oldsz" using assms(1) by (auto simp: order.order_iff_strict)
    moreover have "(PGROUNDUP oldsz - PGROUNDUP newsz) div 4096 = of_nat ?n"
    proof -
      have "unat (PGROUNDUP oldsz - PGROUNDUP newsz) = 4096 * ?n"
        using unat_sub[OF less_imp_le[OF True]] o(1) w(1) by (simp add: diff_mult_distrib2)
      then show ?thesis
        using o(4) by (simp add: word_unat_eq_iff unat_div unat_of_nat_small)
    qed
    ultimately have "uvmdealloc pt oldsz newsz s =
        bindk (uvmunmap pt (PGROUNDUP newsz) (of_nat ?n) True) (\<lambda>_. returnk newsz) s"
      using True o(4) by (simp add: uvmdealloc_def whenk_def int_of_u64_small not_le[symmetric])
    moreover have "\<exists>s'. uvmunmap pt (PGROUNDUP newsz) (of_nat ?n) True s = Ok () s' \<and>
        released pt fs s (PGROUNDUP newsz) ?n s'"
      using assms(3,4) w(3) o(4) mono by (intro uvmunmap_free_spec) (simp_all add: pg_aligned_PGROUNDUP)
    ultimately show ?thesis by (auto simp: bindk_def kop_simps)
  next
    case False
    then have "?n = 0" using o(1) w(1) mono by (simp add: word_less_nat_alt)
    moreover have "uvmdealloc pt oldsz newsz s = Ok newsz s"
      using False assms(1) by (auto simp: uvmdealloc_def whenk_def kop_simps)
    ultimately show ?thesis using released_0[OF assms(3)] by simp
  qed
qed

section \<open>uvmalloc\<close>

text \<open>Consecutive pages with given flag bits and given contents.\<close>

definition filled_range :: "(nat \<Rightarrow> u64 \<times> (u64 \<Rightarrow> u8)) \<Rightarrow> memory \<Rightarrow> u64 \<Rightarrow> u64 \<Rightarrow> nat \<Rightarrow> bool" where
  "filled_range pg m pt a n \<longleftrightarrow> (\<forall>i < n. PTE_FLAGS (pte_of m pt (a + 4096 * of_nat i)) = fst (pg i) \<and>
     (\<forall>x. unat x < 4096 \<longrightarrow> m (PTE2PA (pte_of m pt (a + 4096 * of_nat i)) + x) = snd (pg i) x))"

text \<open>
  The state after \<open>k\<close> pages were added to an address space from \<open>base\<close> on: no other entry
  changed, and each page of the initial free list is still free, is one of the new pages, or
  became a table frame.
\<close>

definition grown :: "(nat \<Rightarrow> u64 \<times> (u64 \<Rightarrow> u8)) \<Rightarrow> u64 \<Rightarrow> u64 \<Rightarrow> nat \<Rightarrow> u64 list \<Rightarrow> 'z kmem_st_scheme \<Rightarrow> u64 list \<Rightarrow> 'z kmem_st_scheme \<Rightarrow> bool" where
  "grown pg pt base k fs s fs1 s1 \<longleftrightarrow> kmem_frame s s1 \<and> pt_own pt fs1 s1 \<and> freeable pt fs1 s1 base k \<and>
     filled_range pg (mem s1) pt base k \<and>
     pt_pages (mem s) pt \<subseteq> pt_pages (mem s1) pt \<and>
     set fs = set fs1 \<union> set (range_frames (mem s1) pt base k) \<union> (pt_pages (mem s1) pt - pt_pages (mem s) pt) \<and>
     (\<forall>vb < MAXVA. \<not> (vpn base \<le> vpn vb \<and> vpn vb < vpn base + k) \<longrightarrow> pte_of (mem s1) pt vb = pte_of (mem s) pt vb) \<and>
     (\<forall>b. b \<notin> pt_pages (mem s) pt \<union> set fs \<longrightarrow> same_frame b (mem s1) (mem s))"

lemma grown_0: "pt_own pt fs s \<Longrightarrow> grown pg pt base 0 fs s fs s"
  by (simp add: grown_def freeable_def filled_range_def leaf_range_def range_frames_def)

text \<open>Frame contents and entries decide about filled ranges.\<close>

lemma filled_range_cong:
  assumes "filled_range pg m pt a n"
    and "\<And>i. i < n \<Longrightarrow> pte_of m' pt (a + 4096 * of_nat i) = pte_of m pt (a + 4096 * of_nat i)"
    and "\<And>b. b \<in> set (range_frames m pt a n) \<Longrightarrow> pg_aligned b \<and> same_frame b m' m"
  shows "filled_range pg m' pt a n"
  unfolding filled_range_def
proof (intro allI impI)
  fix i assume i: "i < n"
  let ?b = "PTE2PA (pte_of m pt (a + 4096 * of_nat i))"
  have "?b \<in> set (range_frames m pt a n)" using i by (auto simp: range_frames_def)
  then have b: "pg_aligned ?b" "same_frame ?b m' m" using assms(3) by auto
  then have "m' (?b + x) = m (?b + x)" if "unat x < 4096" for x
    using frame_offset[OF b(1) that] by (simp add: same_frame_def)
  then show "PTE_FLAGS (pte_of m' pt (a + 4096 * of_nat i)) = fst (pg i) \<and>
     (\<forall>x. unat x < 4096 \<longrightarrow> m' (PTE2PA (pte_of m' pt (a + 4096 * of_nat i)) + x) = snd (pg i) x)"
    using assms(1) i assms(2)[OF i] by (simp add: filled_range_def)
qed

text \<open>
  A change that keeps the entries and the new frames keeps the growth, as long as the pages the
  free list lost became table frames.
\<close>

lemma grown_other:
  assumes g: "grown pg pt base k fs s fs1 s1" "pg_aligned base" "vpn base + k \<le> 67108864"
    and f: "kmem_frame s1 s2" "pt_own pt fs2 s2"
    and p: "pt_pages (mem s1) pt \<subseteq> pt_pages (mem s2) pt"
      "set fs1 \<union> pt_pages (mem s1) pt = set fs2 \<union> pt_pages (mem s2) pt"
    and e: "\<And>vb. vb < MAXVA \<Longrightarrow> pte_of (mem s2) pt vb = pte_of (mem s1) pt vb"
    and m: "\<And>b. b \<notin> pt_pages (mem s1) pt \<union> set fs1 \<Longrightarrow> same_frame b (mem s2) (mem s1)"
  shows "grown pg pt base k fs s fs2 s2"
proof -
  let ?F = "range_frames (mem s1) pt base k"
  have g1: "freeable pt fs1 s1 base k" "filled_range pg (mem s1) pt base k" "pt_pages (mem s) pt \<subseteq> pt_pages (mem s1) pt"
    "set fs = set fs1 \<union> set ?F \<union> (pt_pages (mem s1) pt - pt_pages (mem s) pt)"
    "\<And>b. b \<notin> pt_pages (mem s) pt \<union> set fs \<Longrightarrow> same_frame b (mem s1) (mem s)"
    using g(1) unfolding grown_def by blast+
  have c: "range_frames (mem s2) pt base k = ?F" "leaf_range (mem s2) pt base k = leaf_range (mem s1) pt base k"
    using range_cong[OF g(2,3)] e by blast+
  have F: "\<And>b. b \<in> set ?F \<Longrightarrow> b \<notin> pt_pages (mem s1) pt \<union> set fs1"
    "\<And>b. b \<in> set ?F \<Longrightarrow> pg_aligned b"
    using g1(1) by (simp_all add: freeable_def ram_page_def)
  have ei: "pte_of (mem s2) pt (base + 4096 * of_nat i) = pte_of (mem s1) pt (base + 4096 * of_nat i)" if "i < k" for i
    using that aligned_next(3)[OF g(2), of i] g(3) by (intro e) (simp add: vpn_MAXVA)
  have "freeable pt fs2 s2 base k"
    using g1(1) F p(2) c kmem_frameD(4)[OF f(1)] by (auto simp: freeable_def)
  moreover have "filled_range pg (mem s2) pt base k"
    by (rule filled_range_cong[OF g1(2) ei]) (use m F in auto)
  moreover have "pt_pages (mem s1) pt - pt_pages (mem s) pt \<subseteq> set fs" using g1(4) by auto
  moreover have "set fs = set fs2 \<union> set ?F \<union> (pt_pages (mem s2) pt - pt_pages (mem s) pt)"
    using g1(3,4) p f(2) g(1) by (auto simp: grown_def pt_own_def)
  moreover have "same_frame b (mem s2) (mem s)" if "b \<notin> pt_pages (mem s) pt \<union> set fs" for b
  proof -
    have "b \<notin> pt_pages (mem s1) pt \<union> set fs1" using that g1(4) by auto
    from same_frame_trans[OF m[OF this] g1(5)[OF that]] show ?thesis .
  qed
  ultimately show ?thesis
    using g(1) f p(1) e c kmem_frame_trans[of s s1 s2] unfolding grown_def by auto
qed

lemma range_snoc:
  "range_frames m pt a (Suc n) = range_frames m pt a n @ [PTE2PA (pte_of m pt (a + 4096 * of_nat n))]"
  "leaf_range m pt a (Suc n) \<longleftrightarrow> leaf_range m pt a n \<and> is_leaf (pte_of m pt (a + 4096 * of_nat n))"
  "filled_range pg m pt a (Suc n) \<longleftrightarrow> filled_range pg m pt a n \<and>
     PTE_FLAGS (pte_of m pt (a + 4096 * of_nat n)) = fst (pg n) \<and>
     (\<forall>x. unat x < 4096 \<longrightarrow> m (PTE2PA (pte_of m pt (a + 4096 * of_nat n)) + x) = snd (pg n) x)"
  by (auto simp: range_frames_def leaf_range_def filled_range_def less_Suc_eq)

lemma is_leaf_flags:
  assumes "PTE_FLAGS e = fl" "fl AND PTE_V \<noteq> 0" "fl \<noteq> PTE_V"
  shows "is_leaf e"
  using assms pte_flags_and[of 1 e] by (simp add: is_leaf_def)

text \<open>One more page: \<open>t\<close> left the free list and was entered at the next page.\<close>

lemma grown_add:
  assumes g: "grown pg pt base k fs s fs1 s1" "pg_aligned base" "vpn base + Suc k \<le> 67108864"
    and f: "kmem_frame s1 s2" "pt_own pt fs2 s2"
    and t: "ram_page (kend s1) t" "t \<in> set fs1" "t \<notin> pt_pages (mem s2) pt \<union> set fs2"
    and p: "pt_pages (mem s1) pt \<subseteq> pt_pages (mem s2) pt"
      "set fs1 \<union> pt_pages (mem s1) pt = insert t (set fs2 \<union> pt_pages (mem s2) pt)"
    and e: "\<And>vb. vb < MAXVA \<Longrightarrow> pte_of (mem s2) pt vb = (if vpn vb = vpn base + k then E else pte_of (mem s1) pt vb)"
      "PTE2PA E = t" "PTE_FLAGS E = fst (pg k)" "fst (pg k) AND PTE_V \<noteq> 0" "fst (pg k) \<noteq> PTE_V"
    and z: "\<And>x. unat x < 4096 \<Longrightarrow> mem s2 (t + x) = snd (pg k) x"
    and m: "\<And>b. b \<notin> pt_pages (mem s1) pt \<union> set fs1 \<Longrightarrow> same_frame b (mem s2) (mem s1)"
  shows "grown pg pt base (Suc k) fs s fs2 s2"
proof -
  let ?F = "range_frames (mem s1) pt base k" and ?a = "base + 4096 * of_nat k"
  have g1: "freeable pt fs1 s1 base k" "filled_range pg (mem s1) pt base k" "pt_pages (mem s) pt \<subseteq> pt_pages (mem s1) pt"
    "set fs = set fs1 \<union> set ?F \<union> (pt_pages (mem s1) pt - pt_pages (mem s) pt)"
    "\<And>b. b \<notin> pt_pages (mem s) pt \<union> set fs \<Longrightarrow> same_frame b (mem s1) (mem s)"
    using g(1) unfolding grown_def by blast+
  have a: "vpn ?a = vpn base + k" using aligned_next(3)[OF g(2), of k] g(3) by simp
  then have Ea: "pte_of (mem s2) pt ?a = E" using e(1)[of ?a] g(3) by (simp add: vpn_MAXVA)
  have ei: "pte_of (mem s2) pt (base + 4096 * of_nat i) = pte_of (mem s1) pt (base + 4096 * of_nat i)" if "i < k" for i
    using that aligned_next(3)[OF g(2), of i] g(3) e(1)[of "base + 4096 * of_nat i"] by (simp add: vpn_MAXVA)
  have c: "range_frames (mem s2) pt base k = ?F" "leaf_range (mem s2) pt base k = leaf_range (mem s1) pt base k"
    using ei by (simp_all add: range_frames_def leaf_range_def)
  have F: "\<And>b. b \<in> set ?F \<Longrightarrow> b \<notin> pt_pages (mem s1) pt \<union> set fs1"
    "\<And>b. b \<in> set ?F \<Longrightarrow> pg_aligned b"
    using g1(1) by (simp_all add: freeable_def ram_page_def)
  have "filled_range pg (mem s2) pt base k"
    by (rule filled_range_cong[OF g1(2) ei]) (use m F in auto)
  then have fr: "filled_range pg (mem s2) pt base (Suc k)"
    using Ea e(2,3) z by (simp add: range_snoc)
  have "t \<notin> set ?F" using F t(2) by auto
  then have fb: "freeable pt fs2 s2 base (Suc k)"
    using g1(1) F p(2) c t Ea e(2) kmem_frameD(4)[OF f(1)] is_leaf_flags[OF e(3-5)]
    by (auto simp: freeable_def range_snoc)
  have "set fs = set fs2 \<union> set (?F @ [t]) \<union> (pt_pages (mem s2) pt - pt_pages (mem s) pt)"
    using g1(3,4) p f(2) g(1) t(2) by (auto simp: grown_def pt_own_def)
  then have sf: "set fs = set fs2 \<union> set (range_frames (mem s2) pt base (Suc k)) \<union> (pt_pages (mem s2) pt - pt_pages (mem s) pt)"
    using c Ea e(2) by (simp add: range_snoc)
  have en: "pte_of (mem s2) pt vb = pte_of (mem s) pt vb"
    if "vb < MAXVA" "\<not> (vpn base \<le> vpn vb \<and> vpn vb < vpn base + Suc k)" for vb
    using that e(1)[of vb] g(1) by (auto simp: grown_def)
  have "same_frame b (mem s2) (mem s)" if "b \<notin> pt_pages (mem s) pt \<union> set fs" for b
  proof -
    have "b \<notin> pt_pages (mem s1) pt \<union> set fs1" using that g1(4) by auto
    from same_frame_trans[OF m[OF this] g1(5)[OF that]] show ?thesis .
  qed
  then show ?thesis
    using g(1) f p(1) fr fb sf en kmem_frame_trans[of s s1 s2] g1(3) unfolding grown_def by blast
qed

text \<open>Taking a page, filling it, and giving it back, seen from a page table.\<close>

definition pt_same :: "u64 \<Rightarrow> 'z kmem_st_scheme \<Rightarrow> 'z kmem_st_scheme \<Rightarrow> bool" where
  "pt_same pt s s' \<longleftrightarrow> kmem_frame s s' \<and> pt_pages (mem s') pt = pt_pages (mem s) pt \<and>
     (\<forall>vb. pte_of (mem s') pt vb = pte_of (mem s) pt vb)"

lemma pt_own_outside:
  assumes "pt_own pt fs s" "kmem_frame s s'" "kmem_pool s' fs'" "pt_pages (mem s) pt \<inter> set fs' = {}"
    and "\<And>b. b \<in> pt_pages (mem s) pt \<Longrightarrow> same_frame b (mem s') (mem s)"
  shows "pt_own pt fs' s'" "pt_same pt s s'"
  using assms pt_outside[of "kend s" "mem s" pt "mem s'"] kmem_frameD(4)[OF assms(2)]
  by (auto simp: pt_own_def pt_same_def)

lemma pt_own_alloc:
  assumes "pt_own pt (t # ts) s"
  shows "\<exists>s'. kalloc s = Ok t s' \<and> pt_own pt ts s' \<and> pt_same pt s s' \<and>
    t \<noteq> 0 \<and> ram_page (kend s) t \<and> t \<notin> pt_pages (mem s) pt \<union> set ts \<and>
    (\<forall>b. b \<noteq> t \<longrightarrow> same_frame b (mem s') (mem s))"
proof -
  have pool: "kmem_pool s (t # ts)" and sep: "pt_pages (mem s) pt \<inter> set (t # ts) = {}"
    using assms by (simp_all add: pt_own_def)
  obtain s' where s': "kalloc s = Ok t s'" "kmem_pool s' ts" "kmem_keeps {t} s s'"
    using pages.alloc_pop[OF pool] by blast
  then have f: "kmem_frame s s'" "\<And>b. b \<noteq> t \<Longrightarrow> same_frame b (mem s') (mem s)"
    by (auto simp: kmem_keeps_def)
  have "same_frame b (mem s') (mem s)" if "b \<in> pt_pages (mem s) pt" for b
    using that sep by (intro f(2)) auto
  note o = pt_own_outside[OF assms f(1) s'(2) _ this]
  show ?thesis
    using o s'(1) f(2) sep pages.pool_pages[OF pool] by (intro exI[of _ s']) auto
qed

lemma pt_own_alloc_none:
  assumes "pt_own pt [] s"
  shows "\<exists>s'. kalloc s = Ok 0 s' \<and> pt_own pt [] s' \<and> pt_same pt s s' \<and> (\<forall>b. same_frame b (mem s') (mem s))"
proof -
  have pool: "kmem_pool s []" using assms by (simp add: pt_own_def)
  obtain s' where s': "kalloc s = Ok 0 s'" "kmem_pool s' []" "kmem_keeps {} s s'"
    using pages.alloc_empty[OF pool] by blast
  then have f: "kmem_frame s s'" "\<And>b. same_frame b (mem s') (mem s)"
    by (auto simp: kmem_keeps_def)
  show ?thesis
    using pt_own_outside[OF assms f(1) s'(2) _ f(2)] s'(1) f(2) by (intro exI[of _ s']) auto
qed

lemma pt_own_fill:
  assumes "pt_own pt fs s" "t \<notin> pt_pages (mem s) pt \<union> set fs" "\<And>b. b \<noteq> t \<Longrightarrow> same_frame b m (mem s)"
  shows "pt_own pt fs (s\<lparr>mem := m\<rparr>)" "pt_same pt s (s\<lparr>mem := m\<rparr>)"
proof -
  have pool: "kmem_pool s fs" and sep: "pt_pages (mem s) pt \<inter> set fs = {}"
    using assms(1) by (simp_all add: pt_own_def)
  have f: "kmem_frame s (s\<lparr>mem := m\<rparr>)" by (rule kmem_frameI)
  have "kmem_pool (s\<lparr>mem := m\<rparr>) fs"
    using assms(2) by (intro kmem_pool_mem[OF pool f]) (auto intro!: assms(3))
  moreover have "same_frame b (mem (s\<lparr>mem := m\<rparr>)) (mem s)" if "b \<in> pt_pages (mem s) pt" for b
    using that assms(2) by (auto intro!: assms(3))
  ultimately show "pt_own pt fs (s\<lparr>mem := m\<rparr>)" "pt_same pt s (s\<lparr>mem := m\<rparr>)"
    using pt_own_outside[OF assms(1) f _ sep] by blast+
qed

lemma pt_own_free:
  assumes "pt_own pt fs s" "ram_page (kend s) t" "t \<notin> pt_pages (mem s) pt \<union> set fs"
  shows "\<exists>s'. kfree t s = Ok () s' \<and> pt_own pt (t # fs) s' \<and> pt_same pt s s' \<and>
    (\<forall>b. b \<noteq> t \<longrightarrow> same_frame b (mem s') (mem s))"
proof -
  have pool: "kmem_pool s fs" and sep: "pt_pages (mem s) pt \<inter> set fs = {}"
    using assms(1) by (simp_all add: pt_own_def)
  obtain s' where s': "kfree t s = Ok () s'" "kmem_pool s' (t # fs)" "kmem_keeps {t} s s'"
    using pages.free_push[OF pool assms(2)] assms(3) by blast
  then have f: "kmem_frame s s'" "\<And>b. b \<noteq> t \<Longrightarrow> same_frame b (mem s') (mem s)"
    by (auto simp: kmem_keeps_def)
  have "same_frame b (mem s') (mem s)" if "b \<in> pt_pages (mem s) pt" for b
    using that assms(3) by (intro f(2)) auto
  note o = pt_own_outside[OF assms(1) f(1) s'(2) _ this]
  show ?thesis
    using o s'(1) f(2) sep assms(3) by (intro exI[of _ s']) auto
qed

lemma pt_sameD:
  assumes "pt_same pt s s'"
  shows "kmem_frame s s'" "pt_pages (mem s') pt = pt_pages (mem s) pt" "pte_of (mem s') pt vb = pte_of (mem s) pt vb"
    "kend s' = kend s"
  using assms kmem_frameD(4)[of s s'] by (simp_all add: pt_same_def)

lemma pt_same_trans: "\<lbrakk>pt_same pt s s'; pt_same pt s' s''\<rbrakk> \<Longrightarrow> pt_same pt s s''"
  by (auto simp: pt_same_def intro: kmem_frame_trans)

text \<open>Mapping one page.\<close>

lemma mappages_one:
  assumes "pg_aligned a" "a < MAXVA" "pt_own pt fs s" "pte_of (mem s) pt a AND PTE_V = 0"
  shows "\<exists>r s' fs'. mappages pt a PGSIZE t perm s = Ok r s' \<and> pt_ext pt fs s s' fs' \<and>
    (\<forall>vb < MAXVA. pte_of (mem s') pt vb =
       (if r = 0 \<and> vpn vb = vpn a then PA2PTE t OR perm OR PTE_V else pte_of (mem s) pt vb)) \<and>
    (r = 0 \<and> length fs \<le> length fs' + 2 \<or> r = -1 \<and> fs' = [] \<and> length fs < 2)"
proof -
  have a: "vpn a + 1 \<le> 67108864" using assms(2) by (simp add: vpn_MAXVA)
  have "unmapped_range pt a 1 (mem s)"
    unfolding unmapped_range_def
  proof (intro allI impI)
    fix vb assume "vb < MAXVA" "vpn a \<le> vpn vb \<and> vpn vb < vpn a + 1"
    then have "PGROUNDDOWN vb = PGROUNDDOWN a" by (simp add: same_page_iff)
    then have "va_path vb = va_path a" "PX 0 vb = PX 0 a"
      using same_entry_iff[OF assms(2) \<open>vb < MAXVA\<close>] by auto
    then have "pte_of (mem s) pt vb = pte_of (mem s) pt a" by (simp add: pte_of_def pte_slot_def split: option.splits)
    then show "pte_of (mem s) pt vb AND PTE_V = 0" using assms(4) by simp
  qed
  from mappages_spec[OF assms(1) _ a assms(3) this, of t perm] obtain r s' fs' k where
    "mappages pt a PGSIZE t perm s = Ok r s'" "pt_ext pt fs s s' fs'" "mapped pt a t perm k (mem s) (mem s')"
    "r = 0 \<and> k = 1 \<and> length fs \<le> length fs' + 2 \<or> r = -1 \<and> k < 1 \<and> fs' = [] \<and> length fs < 2" by auto
  then show ?thesis by (intro exI[of _ r] exI[of _ s'] exI[of _ fs']) (auto simp: mapped_def)
qed

text \<open>Where the leaf table is there already, mapping a page takes no memory and cannot fail.\<close>

lemma mappages_hit:
  assumes "pt_wf e (mem s) pt" "a < MAXVA" "pt_node (mem s) pt (va_path a) = Some n"
    "mappages pt a PGSIZE t perm s = Ok r s'"
  shows "r = 0"
proof -
  have w: "walk pt a True s = Ok (pte_slot n 0 a) s" "pte_slot n 0 a \<noteq> 0"
    using walk_hit[OF assms(2,3)] pte_slot_nonzero[OF assms(1) pt_path_va assms(3)] by auto
  have "mappages_body pt a perm (a, t) s = Panic ''mappages: remap'' \<or>
    (\<exists>s1. mappages_body pt a perm (a, t) s = Ok (Inr 0) s1)"
    using w by (simp add: mappages_body_def memk_defs kop_simps bindk_def)
  then have "loopk (mappages_body pt a perm) (a, t) s = Panic ''mappages: remap'' \<or>
    (\<exists>s1. loopk (mappages_body pt a perm) (a, t) s = Ok 0 s1)"
    by (auto simp: loopk_steps)
  then show ?thesis using assms(4) by (auto simp: mappages_def Let_def kop_simps split: if_splits)
qed

text \<open>
  The step both \<open>uvmalloc\<close> and \<open>uvmcopy\<close> make: take a page, fill it, map it at the next address.
  If the mapping fails, freeing the page leaves the growth as it was.
\<close>

lemma grown_map:
  assumes g: "grown pg pt base k fs s (t # ts) s1" "pg_aligned base" "vpn base + Suc k \<le> 67108864"
    and a: "a = base + 4096 * of_nat k" "pte_of (mem s) pt a = 0"
    and s2: "kalloc s1 = Ok t s2"
    and f: "\<And>b. b \<noteq> t \<Longrightarrow> same_frame b m (mem s2)" "\<And>x. unat x < 4096 \<Longrightarrow> m (t + x) = snd (pg k) x"
    and e: "PTE2PA (PA2PTE t OR perm OR PTE_V) = t" "PTE_FLAGS (PA2PTE t OR perm OR PTE_V) = fst (pg k)"
      "fst (pg k) AND PTE_V \<noteq> 0" "fst (pg k) \<noteq> PTE_V"
  shows "\<exists>r s4 fs4. mappages pt a PGSIZE t perm (s2\<lparr>mem := m\<rparr>) = Ok r s4 \<and>
    (r = 0 \<and> grown pg pt base (Suc k) fs s fs4 s4 \<and> length ts \<le> length fs4 + 2 \<or>
     r \<noteq> 0 \<and> length ts < 2 \<and> (\<exists>s5. kfree t s4 = Ok () s5 \<and> grown pg pt base k fs s [t] s5))"
proof -
  have own: "pt_own pt (t # ts) s1" using g(1) by (simp add: grown_def)
  have k: "vpn base + k \<le> 67108864" using g(3) by simp
  note n = aligned_next[OF g(2) k, folded a(1)]
  have am: "a < MAXVA" using n(3) g(3) by (simp add: vpn_MAXVA)
  have o2: "pt_own pt ts s2" "pt_same pt s1 s2"
    and t: "t \<noteq> 0" "ram_page (kend s1) t" "t \<notin> pt_pages (mem s1) pt \<union> set ts"
    and k2: "\<And>b. b \<noteq> t \<Longrightarrow> same_frame b (mem s2) (mem s1)"
    using pt_own_alloc[OF own] s2 by auto
  note d2 = pt_sameD[OF o2(2)]
  let ?s3 = "s2\<lparr>mem := m\<rparr>"
  have t2: "t \<notin> pt_pages (mem s2) pt \<union> set ts" using t(3) d2(2) by simp
  note own3 = pt_own_fill[OF o2(1) t2, of m, OF f(1)]
  note d3 = pt_sameD[OF own3(2)]
  have "pte_of (mem s1) pt a = pte_of (mem s) pt a" using g(1) am n(3) by (simp add: grown_def)
  then have "pte_of (mem ?s3) pt a AND PTE_V = 0" using a(2) d2(3) d3(3) by simp
  then obtain r s4 fs4 where s4: "mappages pt a PGSIZE t perm ?s3 = Ok r s4" "pt_ext pt ts ?s3 s4 fs4"
    "\<And>vb. vb < MAXVA \<Longrightarrow> pte_of (mem s4) pt vb = (if r = 0 \<and> vpn vb = vpn a then PA2PTE t OR perm OR PTE_V else pte_of (mem ?s3) pt vb)"
    "r = 0 \<and> length ts \<le> length fs4 + 2 \<or> r = -1 \<and> fs4 = [] \<and> length ts < 2"
    using mappages_one[OF n(2) am own3(1), of t perm] by auto
  obtain us where us: "ts = us @ fs4" "pt_pages (mem s4) pt = pt_pages (mem s1) pt \<union> set us"
    using s4(2) d2(2) d3(2) by (auto simp: pt_ext_def)
  note d4 = pt_extD[OF s4(2)]
  have f4: "kmem_frame s1 s4" using d2(1) d3(1) d4(1) kmem_frame_trans by blast
  have t4: "t \<notin> pt_pages (mem s4) pt \<union> set fs4" using t(3) us by auto
  have e4: "pte_of (mem s4) pt vb = (if r = 0 \<and> vpn vb = vpn base + k then PA2PTE t OR perm OR PTE_V else pte_of (mem s1) pt vb)"
    if "vb < MAXVA" for vb using s4(3)[OF that] d2(3) d3(3) n(3) by simp
  have k4: "same_frame b (mem s4) (mem s1)" if "b \<notin> pt_pages (mem s1) pt \<union> set (t # ts)" for b
  proof -
    have "b \<noteq> t" "b \<notin> pt_pages (mem s4) pt" using that us by auto
    then show ?thesis using d4(6)[of b] f(1)[of b] k2[of b] by (auto intro: same_frame_trans)
  qed
  have "mem s4 (t + x) = snd (pg k) x" if "unat x < 4096" for x
    using d4(6)[of t] t4 frame_offset[OF ram_page_aligned[OF t(2)] that] f(2)[OF that] by (auto simp: same_frame_def)
  then have "grown pg pt base (Suc k) fs s fs4 s4" if "r = 0"
    using f4 d4(2) t t4 us e4 e k4 that
    by (intro grown_add[OF g, where t = t and E = "PA2PTE t OR perm OR PTE_V"]) auto
  moreover have "\<exists>s5. kfree t s4 = Ok () s5 \<and> grown pg pt base k fs s [t] s5" if "r \<noteq> 0"
  proof -
    have r: "fs4 = []" using s4(4) that by auto
    have "ram_page (kend s4) t" using t(2) kmem_frameD(4)[OF f4] by simp
    then obtain s5 where s5: "kfree t s4 = Ok () s5" "pt_own pt [t] s5" "pt_same pt s4 s5"
      "\<And>b. b \<noteq> t \<Longrightarrow> same_frame b (mem s5) (mem s4)"
      using pt_own_free[OF d4(2) _ t4] r by auto
    note d5 = pt_sameD[OF s5(3)]
    have "same_frame b (mem s5) (mem s1)" if "b \<notin> pt_pages (mem s1) pt \<union> set (t # ts)" for b
      using that k4[OF that] s5(4)[of b] by (auto intro: same_frame_trans)
    then have "grown pg pt base k fs s [t] s5"
      using d5 s5(2) us r e4 that kmem_frame_trans[OF f4 d5(1)]
      by (intro grown_other[OF g(1,2) k]) auto
    with s5(1) show ?thesis by blast
  qed
  ultimately show ?thesis
    using s4(1,4) by (intro exI[of _ r] exI[of _ s4] exI[of _ fs4]) auto
qed

text \<open>
  The error path of \<open>uvmalloc\<close>: unmapping what was added restores all entries, and no page is
  lost except those that became table frames.
\<close>

definition shrunk :: "u64 \<Rightarrow> u64 list \<Rightarrow> 'z kmem_st_scheme \<Rightarrow> u64 list \<Rightarrow> 'z kmem_st_scheme \<Rightarrow> bool" where
  "shrunk pt fs s fs' s' \<longleftrightarrow> kmem_frame s s' \<and> pt_own pt fs' s' \<and>
     pt_pages (mem s) pt \<subseteq> pt_pages (mem s') pt \<and>
     set fs = set fs' \<union> (pt_pages (mem s') pt - pt_pages (mem s) pt) \<and>
     (\<forall>vb < MAXVA. pte_of (mem s') pt vb = pte_of (mem s) pt vb) \<and>
     (\<forall>b. b \<notin> pt_pages (mem s) pt \<union> set fs \<longrightarrow> same_frame b (mem s') (mem s))"

lemma npg_aligned: "pg_aligned a \<Longrightarrow> npg a = vpn a"
  using aligned_vpn[of a] by (simp add: npg_def)

lemma grown_released:
  assumes "grown pg pt base k fs s fs1 s1" "released pt fs1 s1 base k s'"
    and "\<And>vb. \<lbrakk>vb < MAXVA; vpn base \<le> vpn vb; vpn vb < vpn base + k\<rbrakk> \<Longrightarrow> pte_of (mem s) pt vb = 0"
  shows "shrunk pt fs s (rev (range_frames (mem s1) pt base k) @ fs1) s'"
proof -
  let ?F = "range_frames (mem s1) pt base k"
  have "pte_of (mem s') pt vb = pte_of (mem s) pt vb" if "vb < MAXVA" for vb
    using assms(1,2) that assms(3)[of vb] by (auto simp: released_def unmapped_def grown_def)
  moreover have "same_frame x (mem s') (mem s)" if "x \<notin> pt_pages (mem s) pt \<union> set fs" for x
  proof -
    have "x \<notin> pt_pages (mem s1) pt \<union> set ?F" using that assms(1) by (auto simp: grown_def)
    then show ?thesis
      using assms(1,2) that unfolding released_def grown_def by (meson same_frame_trans)
  qed
  moreover have "set fs = set (rev ?F @ fs1) \<union> (pt_pages (mem s') pt - pt_pages (mem s) pt)"
    using assms(1,2) by (auto simp: released_def grown_def)
  ultimately show ?thesis
    using assms(1,2) kmem_frame_trans[of s s1 s'] unfolding shrunk_def released_def grown_def by auto
qed

lemma grown_dealloc:
  assumes "grown pg pt base k fs s fs1 s1" "pg_aligned base" "vpn base + k \<le> 67108864"
    and "\<And>vb. \<lbrakk>vb < MAXVA; vpn base \<le> vpn vb; vpn vb < vpn base + k\<rbrakk> \<Longrightarrow> pte_of (mem s) pt vb = 0"
  shows "\<exists>s' fs'. uvmdealloc pt (base + 4096 * of_nat k) base s1 = Ok base s' \<and> shrunk pt fs s fs' s'"
proof -
  let ?a = "base + 4096 * of_nat k" and ?F = "range_frames (mem s1) pt base k"
  note n = aligned_next[OF assms(2,3)]
  have b: "PGROUNDUP base = base"
    using aligned_vpn[OF assms(2)] assms(3) PGROUNDUP_pages(1)[of base] npg_aligned[OF assms(2)]
    by (simp add: word_unat_eq_iff)
  have k: "npg ?a - npg base = k" using npg_aligned assms(2) n by simp
  have own: "pt_own pt fs1 s1" "freeable pt fs1 s1 base k" using assms(1) by (simp_all add: grown_def)
  have "\<exists>s'. uvmdealloc pt ?a base s1 = Ok base s' \<and> released pt fs1 s1 (PGROUNDUP base) (npg ?a - npg base) s'"
    using own n(1) assms(3) aligned_vpn[OF assms(2)] b k
    by (intro uvmdealloc_spec) (simp_all add: word_le_nat_alt)
  then obtain s' where d: "uvmdealloc pt ?a base s1 = Ok base s'" and r: "released pt fs1 s1 base k s'"
    unfolding b k by blast
  with grown_released[OF assms(1) r] assms(4) d show ?thesis by blast
qed

lemma uvmalloc_step:
  assumes g: "grown pg pt base k fs s fs1 s1" "pg_aligned base" "vpn base + Suc k \<le> 67108864"
    and fl: "pg = (\<lambda>_. (PTE_R OR PTE_U OR xperm OR PTE_V, \<lambda>_. 0))" "xperm \<in> {0, PTE_W, PTE_X, PTE_W OR PTE_X}"
    and u: "\<And>vb. \<lbrakk>vb < MAXVA; vpn base \<le> vpn vb; vpn vb < vpn base + Suc k\<rbrakk> \<Longrightarrow> pte_of (mem s) pt vb = 0"
    and a: "a = base + 4096 * of_nat k" "a < newsz"
  shows "\<exists>s' fs'.
    uvmalloc_body pt base newsz xperm a s1 = Ok (Inl (a + PGSIZE)) s' \<and> grown pg pt base (Suc k) fs s fs' s' \<and>
      length fs1 \<le> length fs' + 3
  \<or> uvmalloc_body pt base newsz xperm a s1 = Ok (Inr 0) s' \<and> shrunk pt fs s fs' s' \<and> length fs1 < 3"
proof -
  let ?fl = "PTE_R OR PTE_U OR xperm OR PTE_V"
  have own: "pt_own pt fs1 s1" using g(1) by (simp add: grown_def)
  have k: "vpn base + k \<le> 67108864" using g(3) by simp
  note n = aligned_next[OF g(2) k, folded a(1)]
  have am: "a < MAXVA" using n(3) g(3) by (simp add: vpn_MAXVA)
  have fail: "\<exists>s' fs'. uvmdealloc pt a base s2 = Ok base s' \<and> shrunk pt fs s fs' s'"
    if "grown pg pt base k fs s fs2 s2" for s2 fs2
    unfolding a(1) using that g(2) k u by (intro grown_dealloc) auto
  show ?thesis
  proof (cases fs1)
    case Nil
    then obtain s2 where s2: "kalloc s1 = Ok 0 s2" "pt_own pt [] s2" "pt_same pt s1 s2" "\<And>b. same_frame b (mem s2) (mem s1)"
      using pt_own_alloc_none[of pt s1] own by auto
    have "grown pg pt base k fs s [] s2"
      using pt_sameD[OF s2(3)] s2(2,4) Nil by (intro grown_other[OF g(1,2) k]) auto
    from fail[OF this] obtain s' fs' where "uvmdealloc pt a base s2 = Ok base s'" "shrunk pt fs s fs' s'" by blast
    then show ?thesis
      using s2(1) a(2) Nil by (intro exI[of _ s'] exI[of _ fs']) (simp add: uvmalloc_body_def bindk_def kop_simps)
  next
    case (Cons t ts)
    then obtain s2 where s2: "kalloc s1 = Ok t s2" and t: "t \<noteq> 0" "ram_page (kend s1) t"
      using pt_own_alloc[of pt t ts s1] own by auto
    have tal: "pg_aligned t" using t(2) by (simp add: ram_page_def)
    have fls: "PTE2PA (PA2PTE t OR ?fl) = t" "PTE_FLAGS (PA2PTE t OR ?fl) = ?fl" "?fl AND PTE_V \<noteq> 0" "?fl \<noteq> PTE_V"
      using fl(2) t(2) by (auto intro!: PTE2PA_PA2PTE PTE_FLAGS_PA2PTE simp: ram_page_def word_less_nat_alt)
    obtain r s4 fs4 where s4: "mappages pt a PGSIZE t (PTE_R OR PTE_U OR xperm) (s2\<lparr>mem := memset (mem s2) t 0 4096\<rparr>) = Ok r s4"
      and c: "r = 0 \<and> grown pg pt base (Suc k) fs s fs4 s4 \<and> length ts \<le> length fs4 + 2 \<or>
        r \<noteq> 0 \<and> length ts < 2 \<and> (\<exists>s5. kfree t s4 = Ok () s5 \<and> grown pg pt base k fs s [t] s5)"
      using grown_map[OF g[unfolded Cons] a(1) u[OF am] s2, of "memset (mem s2) t 0 4096" "PTE_R OR PTE_U OR xperm"]
        n(3) fls fl(1) memset_other_frame[OF tal] memset_frame[OF tal] frame_offset[OF tal]
      by (auto simp: or.assoc)
    note run = uvmalloc_body_def bindk_def kop_simps memsetk_def
    from c show ?thesis
    proof (elim disjE conjE exE)
      assume "r = 0" "grown pg pt base (Suc k) fs s fs4 s4" "length ts \<le> length fs4 + 2"
      then show ?thesis using Cons s2 s4 t(1) a(2) by (intro exI[of _ s4] exI[of _ fs4]) (simp add: run)
    next
      fix s5 assume r: "r \<noteq> 0" "length ts < 2" "kfree t s4 = Ok () s5" and g5: "grown pg pt base k fs s [t] s5"
      from fail[OF g5] obtain s' fs' where "uvmdealloc pt a base s5 = Ok base s'" "shrunk pt fs s fs' s'" by blast
      then show ?thesis using Cons r s2 s4 t(1) a(2) by (intro exI[of _ s'] exI[of _ fs']) (simp add: run)
    qed
  qed
qed

lemma uvmalloc_loop:
  assumes "grown pg pt base k fs s fs1 s1" "pg_aligned base" "k \<le> n" "vpn base + n \<le> 67108864"
    and "pg = (\<lambda>_. (PTE_R OR PTE_U OR xperm OR PTE_V, \<lambda>_. 0))" "xperm \<in> {0, PTE_W, PTE_X, PTE_W OR PTE_X}"
    and "\<And>vb. \<lbrakk>vb < MAXVA; vpn base \<le> vpn vb; vpn vb < vpn base + n\<rbrakk> \<Longrightarrow> pte_of (mem s) pt vb = 0"
    and "\<And>j. j \<le> n \<Longrightarrow> base + 4096 * of_nat j < newsz \<longleftrightarrow> j < n"
    and "length fs \<le> length fs1 + 3 * k"
  shows "\<exists>r s' fs'. loopk (uvmalloc_body pt base newsz xperm) (base + 4096 * of_nat k) s1 = Ok r s' \<and>
    (r = newsz \<and> grown pg pt base n fs s fs' s' \<and> length fs \<le> length fs' + 3 * n \<or> r = 0 \<and> shrunk pt fs s fs' s' \<and> length fs < 3 * n)"
  using assms(1,3,9)
proof (induction "n - k" arbitrary: k fs1 s1)
  case 0
  then have "k = n" by simp
  then have "uvmalloc_body pt base newsz xperm (base + 4096 * of_nat k) s1 = Ok (Inr newsz) s1"
    using assms(8)[of n] by (simp add: uvmalloc_body_def kop_simps)
  with 0 \<open>k = n\<close> show ?case by (auto simp: loopk_steps)
next
  case (Suc d)
  let ?a = "base + 4096 * of_nat k"
  have k: "k < n" using Suc by simp
  obtain s' fs' where c: "uvmalloc_body pt base newsz xperm ?a s1 = Ok (Inl (?a + PGSIZE)) s' \<and> grown pg pt base (Suc k) fs s fs' s' \<and>
        length fs1 \<le> length fs' + 3
      \<or> uvmalloc_body pt base newsz xperm ?a s1 = Ok (Inr 0) s' \<and> shrunk pt fs s fs' s' \<and> length fs1 < 3"
    using uvmalloc_step[OF Suc.prems(1) assms(2) _ assms(5,6), of ?a newsz] k assms(4,7) assms(8)[of k] by fastforce
  then show ?case
  proof
    assume l: "uvmalloc_body pt base newsz xperm ?a s1 = Ok (Inl (?a + PGSIZE)) s' \<and> grown pg pt base (Suc k) fs s fs' s' \<and>
        length fs1 \<le> length fs' + 3"
    then have le: "length fs \<le> length fs' + 3 * Suc k" using Suc.prems(3) by simp
    have "?a + PGSIZE = base + 4096 * of_nat (Suc k)" by (simp add: algebra_simps)
    then have "loopk (uvmalloc_body pt base newsz xperm) ?a s1 =
      loopk (uvmalloc_body pt base newsz xperm) (base + 4096 * of_nat (Suc k)) s'"
      using loopk_steps(1)[of "uvmalloc_body pt base newsz xperm", OF conjunct1[OF l]] by (simp only:)
    then show ?thesis using Suc.hyps(1)[OF _ _ _ le, of s'] Suc.hyps(2) k l by simp
  next
    assume l: "uvmalloc_body pt base newsz xperm ?a s1 = Ok (Inr 0) s' \<and> shrunk pt fs s fs' s' \<and> length fs1 < 3"
    then have "length fs < 3 * n" using Suc.prems(3) k by linarith
    with l show ?thesis by (auto simp: loopk_steps)
  qed
qed

lemma uvmalloc_spec:
  assumes "pt_own pt fs s" "oldsz \<le> newsz" "unat newsz \<le> 274877906944"
    and "xperm \<in> {0, PTE_W, PTE_X, PTE_W OR PTE_X}"
    and "\<And>vb. \<lbrakk>vb < MAXVA; npg oldsz \<le> vpn vb; vpn vb < npg newsz\<rbrakk> \<Longrightarrow> pte_of (mem s) pt vb = 0"
  shows "\<exists>r s' fs'. uvmalloc pt oldsz newsz xperm s = Ok r s' \<and>
    (r = newsz \<and> grown (\<lambda>_. (PTE_R OR PTE_U OR xperm OR PTE_V, \<lambda>_. 0)) pt (PGROUNDUP oldsz) (npg newsz - npg oldsz) fs s fs' s' \<and>
       length fs \<le> length fs' + 3 * (npg newsz - npg oldsz)
     \<or> r = 0 \<and> shrunk pt fs s fs' s' \<and> length fs < 3 * (npg newsz - npg oldsz))"
proof -
  have le: "unat oldsz \<le> unat newsz" using assms(2) by (simp add: word_le_nat_alt)
  then have o: "unat oldsz \<le> 274877906944" using assms(3) by simp
  note p = PGROUNDUP_pages[OF o] and q = PGROUNDUP_pages[OF assms(3)]
  have mono: "npg oldsz \<le> npg newsz" using le by (simp add: npg_def div_le_mono)
  let ?n = "npg newsz - npg oldsz"
  have j: "PGROUNDUP oldsz + 4096 * of_nat j < newsz \<longleftrightarrow> j < ?n" if "j \<le> ?n" for j
  proof -
    have "unat (PGROUNDUP oldsz + 4096 * of_nat j) = 4096 * (npg oldsz + j)"
      using aligned_next(1)[OF pg_aligned_PGROUNDUP, of oldsz j] that p q(4) by simp
    then have "PGROUNDUP oldsz + 4096 * of_nat j < newsz \<longleftrightarrow> npg oldsz + j < npg newsz"
      by (simp add: word_less_nat_alt lt_npg_iff)
    then show ?thesis by auto
  qed
  have "\<exists>r s' fs'. loopk (uvmalloc_body pt (PGROUNDUP oldsz) newsz xperm) (PGROUNDUP oldsz + 4096 * of_nat 0) s = Ok r s' \<and>
    (r = newsz \<and> grown (\<lambda>_. (PTE_R OR PTE_U OR xperm OR PTE_V, \<lambda>_. 0)) pt (PGROUNDUP oldsz) ?n fs s fs' s' \<and>
       length fs \<le> length fs' + 3 * ?n \<or> r = 0 \<and> shrunk pt fs s fs' s' \<and> length fs < 3 * ?n)"
    using assms(4,5) p(3) q(4) mono j
    by (intro uvmalloc_loop[where k = 0 and n = ?n, OF grown_0[OF assms(1)] pg_aligned_PGROUNDUP]) auto
  then show ?thesis using assms(2) by (simp add: uvmalloc_def not_less[symmetric])
qed

end
