(* ===== verification/Freewalk.thy ===== *)
theory Freewalk
  imports Uvm
begin

text \<open>
  Tearing down an address space: \<open>freewalk\<close> and \<open>uvmfree\<close> of kernel/vm.c return every frame of
  the table, and every frame mapped below the size of the process, to the allocator.
\<close>

section \<open>Subtrees\<close>

text \<open>The frames of the table below \<open>a\<close>, for a table of \<open>d\<close> levels.\<close>

primrec tpages :: "nat \<Rightarrow> memory \<Rightarrow> u64 \<Rightarrow> u64 set" where
  "tpages 0 m a = {}"
| "tpages (Suc d) m a = insert a
     (\<Union>i \<in> {i. i < 512 \<and> load64 m (slot a i) AND PTE_V \<noteq> 0}. tpages d m (PTE2PA (load64 m (slot a i))))"

text \<open>A tree of RAM frames without sharing, without leaf entries.\<close>

primrec twf :: "nat \<Rightarrow> u64 \<Rightarrow> memory \<Rightarrow> u64 \<Rightarrow> bool" where
  "twf 0 e m a \<longleftrightarrow> False"
| "twf (Suc d) e m a \<longleftrightarrow> ram_page e a \<and>
     (\<forall>i < 512. load64 m (slot a i) AND PTE_V \<noteq> 0 \<longrightarrow>
        load64 m (slot a i) AND (PTE_R OR PTE_W OR PTE_X) = 0 \<and>
        twf d e m (PTE2PA (load64 m (slot a i))) \<and>
        a \<notin> tpages d m (PTE2PA (load64 m (slot a i))) \<and>
        (\<forall>j < 512. j \<noteq> i \<and> load64 m (slot a j) AND PTE_V \<noteq> 0 \<longrightarrow>
           tpages d m (PTE2PA (load64 m (slot a i))) \<inter> tpages d m (PTE2PA (load64 m (slot a j))) = {}))"

lemma tpages_cong:
  assumes "\<And>b. b \<in> tpages d m a \<Longrightarrow> same_frame b m' m" "twf d e m a"
  shows "tpages d m' a = tpages d m a \<and> twf d e m' a"
  using assms
proof (induction d arbitrary: a)
  case 0
  then show ?case by simp
next
  case (Suc d)
  let ?c = "\<lambda>i. PTE2PA (load64 m (slot a i))"
  have l: "load64 m' (slot a i) = load64 m (slot a i)" if "i < 512" for i
    using that Suc.prems by (intro load64_same_frame) (auto simp: ram_page_def)
  have "tpages d m' (?c i) = tpages d m (?c i) \<and> twf d e m' (?c i)"
    if "i < 512" "load64 m (slot a i) AND PTE_V \<noteq> 0" for i
    using that Suc.prems by (intro Suc.IH) auto
  then show ?case using Suc.prems(2) l by (auto simp del: not_gr_zero)
qed

lemma tpages_root: "twf d e m a \<Longrightarrow> a \<in> tpages d m a"
  by (cases d) auto

lemma tpages_ram: "twf d e m a \<Longrightarrow> b \<in> tpages d m a \<Longrightarrow> ram_page e b"
proof (induction d arbitrary: a)
  case 0
  then show ?case by simp
next
  case (Suc d)
  then show ?case by auto
qed

section \<open>freewalk\<close>

text \<open>What freeing the subtree below \<open>a\<close> does.\<close>

definition tree_freed :: "u64 set \<Rightarrow> u64 list \<Rightarrow> 'z kmem_st_scheme \<Rightarrow> u64 list \<Rightarrow> 'z kmem_st_scheme \<Rightarrow> bool" where
  "tree_freed T fs s fs' s' \<longleftrightarrow> kmem_frame s s' \<and> kmem_pool s' fs' \<and> set fs' = set fs \<union> T \<and>
     (\<forall>b. b \<notin> T \<longrightarrow> same_frame b (mem s') (mem s))"

lemma tree_freed_trans:
  "\<lbrakk>tree_freed T fs s fs1 s1; tree_freed U fs1 s1 fs2 s2\<rbrakk> \<Longrightarrow> tree_freed (T \<union> U) fs s fs2 s2"
  unfolding tree_freed_def by (auto intro: kmem_frame_trans same_frame_trans)

definition freewalk_entry :: "nat \<Rightarrow> u64 \<Rightarrow> nat \<Rightarrow> (unit, 'z kmem_st_scheme) kernel" where
  "freewalk_entry d pagetable i =
     bindk (loadk (slot pagetable i)) (\<lambda>pte.
     if pte AND PTE_V \<noteq> 0 \<and> pte AND (PTE_R OR PTE_W OR PTE_X) = 0 then
       bindk (freewalk_depth d (PTE2PA pte)) (\<lambda>_.
       storek (slot pagetable i) 0)
     else if pte AND PTE_V \<noteq> 0 then panick ''freewalk: leaf''
     else returnk ())"

lemma freewalk_depth_Suc:
  "freewalk_depth (Suc d) pt = bindk (foreachk [0..<512] (freewalk_entry d pt)) (\<lambda>_. kfree pt)"
  by (simp add: freewalk_entry_def[abs_def])

declare freewalk_depth.simps(2) [simp del]

text \<open>The frames below the first \<open>i\<close> entries of \<open>a\<close>.\<close>

definition below :: "nat \<Rightarrow> memory \<Rightarrow> u64 \<Rightarrow> nat \<Rightarrow> u64 set" where
  "below d m a i = (\<Union>j \<in> {j. j < i \<and> j < 512 \<and> load64 m (slot a j) AND PTE_V \<noteq> 0}. tpages d m (PTE2PA (load64 m (slot a j))))"

lemma below_Suc:
  assumes "i < 512"
  shows "below d m a (Suc i) = below d m a i \<union>
    (if load64 m (slot a i) AND PTE_V \<noteq> 0 then tpages d m (PTE2PA (load64 m (slot a i))) else {})"
  using assms by (auto simp: below_def less_Suc_eq)

lemma tpages_below: "tpages (Suc d) m a = insert a (below d m a 512)"
  by (auto simp: below_def)

text \<open>The loop invariant after \<open>i\<close> entries.\<close>

definition fw_inv :: "nat \<Rightarrow> u64 \<Rightarrow> u64 list \<Rightarrow> 'z kmem_st_scheme \<Rightarrow> nat \<Rightarrow> u64 list \<Rightarrow> 'z kmem_st_scheme \<Rightarrow> bool" where
  "fw_inv d a fs0 s0 i fs s \<longleftrightarrow> kmem_frame s0 s \<and> kmem_pool s fs \<and> set fs = set fs0 \<union> below d (mem s0) a i \<and>
     (\<forall>b. b \<notin> insert a (below d (mem s0) a i) \<longrightarrow> same_frame b (mem s) (mem s0)) \<and>
     (\<forall>j. i \<le> j \<and> j < 512 \<longrightarrow> load64 (mem s) (slot a j) = load64 (mem s0) (slot a j))"

lemma fw_step:
  assumes IH: "\<And>c (s :: 'z kmem_st_scheme) fs. \<lbrakk>twf d (kend s) (mem s) c; kmem_pool s fs; tpages d (mem s) c \<inter> set fs = {}\<rbrakk>
      \<Longrightarrow> \<exists>s' fs'. freewalk_depth d c s = Ok () s' \<and> tree_freed (tpages d (mem s) c) fs s fs' s'"
    and t: "twf (Suc d) (kend s0) (mem s0) a" "tpages (Suc d) (mem s0) a \<inter> set fs0 = {}"
    and i: "fw_inv d a fs0 (s0 :: 'z kmem_st_scheme) i fs s" "i < 512"
  shows "\<exists>s' fs'. freewalk_entry d a i s = Ok () s' \<and> fw_inv d a fs0 s0 (Suc i) fs' s'"
proof -
  let ?e = "load64 (mem s0) (slot a i)"
  let ?c = "PTE2PA ?e"
  have e: "load64 (mem s) (slot a i) = ?e" using i by (simp add: fw_inv_def)
  have a: "pg_aligned a" using t(1) by (simp add: ram_page_def)
  show ?thesis
  proof (cases "?e AND PTE_V = 0")
    case True
    then have "fw_inv d a fs0 s0 (Suc i) fs s" using i by (simp add: fw_inv_def below_Suc)
    with True e show ?thesis by (auto simp: freewalk_entry_def loadk_def kop_simps)
  next
    case False
    have c: "?e AND (PTE_R OR PTE_W OR PTE_X) = 0" "twf d (kend s0) (mem s0) ?c" "a \<notin> tpages d (mem s0) ?c"
      using t(1) i(2) False by auto
    have dis: "tpages d (mem s0) ?c \<inter> below d (mem s0) a i = {}"
      using t(1) i(2) False by (fastforce simp: below_def)
    have sub: "tpages d (mem s0) ?c \<subseteq> tpages (Suc d) (mem s0) a" using i(2) False by auto
    have kend: "kend s = kend s0" using i(1) kmem_frameD(4) unfolding fw_inv_def by blast
    have same: "same_frame b (mem s) (mem s0)" if "b \<in> tpages d (mem s0) ?c" for b
      using that c(3) dis i(1) by (auto simp: fw_inv_def)
    have tc: "tpages d (mem s) ?c = tpages d (mem s0) ?c" "twf d (kend s) (mem s) ?c"
      using tpages_cong[OF same c(2)] kend by auto
    have "tpages d (mem s0) ?c \<inter> set fs0 = {}" using sub t(2) by blast
    then have "tpages d (mem s) ?c \<inter> set fs = {}"
      using tc(1) dis i(1) by (auto simp: fw_inv_def)
    from IH[OF tc(2) _ this] i(1) obtain s1 fs1 where
      s1: "freewalk_depth d ?c s = Ok () s1" "tree_freed (tpages d (mem s0) ?c) fs s fs1 s1"
      unfolding tc(1) fw_inv_def by blast
    let ?s' = "s1\<lparr>mem := store64 (mem s1) (slot a i) 0\<rparr>"
    have f: "kmem_frame s1 ?s'" by (rule kmem_frameI)
    have out: "same_frame b (mem ?s') (mem s1)" if "b \<noteq> a" for b
      using store64_other_frame[OF a i(2) that] by simp
    have "a \<notin> below d (mem s0) a i" using t(1) by (auto simp: below_def)
    moreover have "a \<notin> set fs0" using t(2) by auto
    ultimately have "a \<notin> set fs1" using s1(2) i(1) c(3) by (simp add: tree_freed_def fw_inv_def)
    then have "\<And>b. b \<in> set fs1 \<Longrightarrow> b \<noteq> a" by auto
    then have pool: "kmem_pool ?s' fs1"
      using s1(2) by (intro kmem_pool_mem[OF _ f] out) (simp_all add: tree_freed_def)
    have "load64 (mem ?s') (slot a j) = load64 (mem s0) (slot a j)" if "Suc i \<le> j" "j < 512" for j
    proof -
      have "load64 (mem ?s') (slot a j) = load64 (mem s1) (slot a j)"
        using that i(2) by (simp add: load64_slot_store64)
      also have "\<dots> = load64 (mem s) (slot a j)"
        using s1(2) c(3) a that by (intro load64_same_frame) (auto simp: tree_freed_def)
      also have "\<dots> = load64 (mem s0) (slot a j)" using i(1) that by (simp add: fw_inv_def)
      finally show ?thesis .
    qed
    moreover have "same_frame b (mem ?s') (mem s0)" if "b \<notin> insert a (below d (mem s0) a (Suc i))" for b
    proof -
      have "b \<noteq> a" "b \<notin> tpages d (mem s0) ?c" "b \<notin> insert a (below d (mem s0) a i)"
        using that i(2) False by (auto simp: below_Suc)
      then show ?thesis
        using out[of b] s1(2) i(1) unfolding tree_freed_def fw_inv_def by (meson same_frame_trans)
    qed
    ultimately have "fw_inv d a fs0 s0 (Suc i) fs1 ?s'"
      using pool i False s1(2) kmem_frame_trans[OF _ f] kmem_frame_trans[of s0 s s1]
      by (auto simp: fw_inv_def tree_freed_def below_Suc)
    moreover have "freewalk_entry d a i s = Ok () ?s'"
      using False e c(1) s1(1) by (simp add: freewalk_entry_def memk_defs kop_simps bindk_def)
    ultimately show ?thesis by blast
  qed
qed

lemma fw_loop:
  assumes IH: "\<And>c (s :: 'z kmem_st_scheme) fs. \<lbrakk>twf d (kend s) (mem s) c; kmem_pool s fs; tpages d (mem s) c \<inter> set fs = {}\<rbrakk>
      \<Longrightarrow> \<exists>s' fs'. freewalk_depth d c s = Ok () s' \<and> tree_freed (tpages d (mem s) c) fs s fs' s'"
    and t: "twf (Suc d) (kend s0) (mem s0) a" "tpages (Suc d) (mem s0) a \<inter> set fs0 = {}"
    and i: "fw_inv d a fs0 (s0 :: 'z kmem_st_scheme) i fs s" "i \<le> 512"
  shows "\<exists>s' fs'. foreachk [i..<512] (freewalk_entry d a) s = Ok () s' \<and> fw_inv d a fs0 s0 512 fs' s'"
  using i
proof (induction "512 - i" arbitrary: i fs s)
  case 0
  then have "i = 512" by simp
  with 0 show ?case by (auto simp: kop_simps)
next
  case (Suc n)
  then have i: "i < 512" by simp
  obtain s1 fs1 where s1: "freewalk_entry d a i s = Ok () s1" "fw_inv d a fs0 s0 (Suc i) fs1 s1"
    using fw_step[OF IH t Suc.prems(1) i] by blast
  have "\<exists>s' fs'. foreachk [Suc i..<512] (freewalk_entry d a) s1 = Ok () s' \<and> fw_inv d a fs0 s0 512 fs' s'"
    using Suc.hyps s1(2) i by (intro Suc.hyps(1)) auto
  with s1(1) i show ?case by (simp add: upt_conv_Cons bindk_def)
qed

lemma freewalk_depth_spec:
  fixes s :: "'z kmem_st_scheme"
  assumes "twf d (kend s) (mem s) a" "kmem_pool s fs" "tpages d (mem s) a \<inter> set fs = {}"
  shows "\<exists>s' fs'. freewalk_depth d a s = Ok () s' \<and> tree_freed (tpages d (mem s) a) fs s fs' s'"
  using assms
proof (induction d arbitrary: a s fs)
  case 0
  then show ?case by simp
next
  case (Suc d)
  have "fw_inv d a fs s 0 fs s" using Suc.prems(2) by (simp add: fw_inv_def below_def)
  then obtain s1 fs1 where s1: "foreachk [0..<512] (freewalk_entry d a) s = Ok () s1" "fw_inv d a fs s 512 fs1 s1"
    using fw_loop[OF Suc.IH Suc.prems(1,3)] by blast
  have a: "ram_page (kend s1) a" "a \<notin> below d (mem s) a 512" "a \<notin> set fs"
    using Suc.prems(1,3) s1(2) kmem_frameD(4)[of s s1] by (auto simp: fw_inv_def below_def)
  then have "a \<notin> set fs1" using s1(2) by (simp add: fw_inv_def)
  then obtain s2 where s2: "kfree a s1 = Ok () s2" "kmem_pool s2 (a # fs1)" "kmem_keeps {a} s1 s2"
    using pages.free_push[of s1 fs1 a] s1(2) a(1) by (auto simp: fw_inv_def)
  have "same_frame b (mem s2) (mem s)" if "b \<notin> tpages (Suc d) (mem s) a" for b
    using that s2(3) s1(2) unfolding tpages_below kmem_keeps_def fw_inv_def
    by (auto intro: same_frame_trans)
  then have "tree_freed (tpages (Suc d) (mem s) a) fs s (a # fs1) s2"
    using s1(2) s2(2,3) kmem_frame_trans[of s s1 s2]
    unfolding tree_freed_def tpages_below by (auto simp: fw_inv_def kmem_keeps_def)
  then show ?case
    using s1(1) s2(1) unfolding freewalk_depth_Suc by (auto simp: bindk_def)
qed

section \<open>Well-formed tables\<close>

lemma tpages_paths:
  "tpages d m a = {b. \<exists>p. length p < d \<and> (\<forall>i \<in> set p. i < 512) \<and> pt_node m a p = Some b}"
proof (induction d arbitrary: a)
  case 0
  then show ?case by simp
next
  case (Suc d)
  show ?case
  proof (intro set_eqI iffI)
    fix b assume "b \<in> tpages (Suc d) m a"
    then consider "b = a" | i where "i < 512" "load64 m (slot a i) AND PTE_V \<noteq> 0"
        "b \<in> tpages d m (PTE2PA (load64 m (slot a i)))" by auto
    then show "b \<in> {b. \<exists>p. length p < Suc d \<and> (\<forall>i \<in> set p. i < 512) \<and> pt_node m a p = Some b}"
    proof cases
      case 1
      then show ?thesis by (auto intro: exI[of _ "[]"])
    next
      case 2
      then obtain p where "length p < d" "\<forall>i \<in> set p. i < 512" "pt_node m (PTE2PA (load64 m (slot a i))) p = Some b"
        using Suc.IH by auto
      with 2 show ?thesis by (auto intro!: exI[of _ "i # p"])
    qed
  next
    fix b assume "b \<in> {b. \<exists>p. length p < Suc d \<and> (\<forall>i \<in> set p. i < 512) \<and> pt_node m a p = Some b}"
    then obtain p where p: "length p < Suc d" "\<forall>i \<in> set p. i < 512" "pt_node m a p = Some b" by blast
    then show "b \<in> tpages (Suc d) m a"
    proof (cases p)
      case (Cons i q)
      with p Suc.IH[of "PTE2PA (load64 m (slot a i))"] show ?thesis by (auto split: if_splits)
    qed simp
  qed
qed

lemma pt_pages_tpages: "pt_pages m pt = tpages 3 m pt"
proof -
  have "length p \<le> 2 \<longleftrightarrow> length p < 3" for p :: "nat list" by auto
  then show ?thesis by (simp add: pt_pages_def tpages_paths pt_path_def conj_assoc)
qed

definition no_leaves :: "memory \<Rightarrow> u64 \<Rightarrow> bool" where
  "no_leaves m pt \<longleftrightarrow> (\<forall>p t i. pt_path p \<and> length p = 2 \<and> pt_node m pt p = Some t \<and> i < 512 \<longrightarrow>
     load64 m (slot t i) AND PTE_V = 0)"

lemma twf_subtree:
  assumes wf: "pt_wf e m pt" "no_leaves m pt"
    and p: "pt_path p" "pt_node m pt p = Some a" "length p + d = 2"
  shows "twf (Suc d) e m a"
  using p
proof (induction d arbitrary: p a)
  case 0
  then show ?case using wf pt_wfD[OF wf(1)] by (auto simp: no_leaves_def)
next
  case (Suc d)
  let ?c = "\<lambda>i. PTE2PA (load64 m (slot a i))"
  have pi: "pt_path (p @ [i])" "pt_node m pt (p @ [i]) = Some (?c i)"
    if "i < 512" "load64 m (slot a i) AND PTE_V \<noteq> 0" for i
    using that Suc.prems by (auto simp: pt_path_def pt_node_append)
  have sub: "\<exists>q. pt_path (p @ i # q) \<and> pt_node m pt (p @ i # q) = Some b"
    if i: "i < 512" "load64 m (slot a i) AND PTE_V \<noteq> 0" and b: "b \<in> tpages (Suc d) m (?c i)" for i b
  proof -
    obtain q where q: "length q < Suc d" "\<forall>i \<in> set q. i < 512" "pt_node m (?c i) q = Some b"
      using b unfolding tpages_paths by blast
    then have "pt_path (p @ i # q)" "pt_node m pt (p @ i # q) = Some b"
      using Suc.prems i by (auto simp: pt_path_def pt_node_append)
    then show ?thesis by blast
  qed
  have "a \<notin> tpages (Suc d) m (?c i)" if "i < 512" "load64 m (slot a i) AND PTE_V \<noteq> 0" for i
    using sub[OF that, of a] pt_wf_inj[OF wf(1) Suc.prems(1) _ Suc.prems(2)] by fastforce
  moreover have "tpages (Suc d) m (?c i) \<inter> tpages (Suc d) m (?c j) = {}"
    if "i < 512" "load64 m (slot a i) AND PTE_V \<noteq> 0" "j < 512" "load64 m (slot a j) AND PTE_V \<noteq> 0" "j \<noteq> i" for i j
  proof (rule ccontr)
    assume "\<not> ?thesis"
    then obtain b where b: "b \<in> tpages (Suc d) m (?c i)" "b \<in> tpages (Suc d) m (?c j)" by blast
    from sub[OF that(1,2) b(1)] sub[OF that(3,4) b(2)] obtain q r where
      "pt_path (p @ i # q)" "pt_node m pt (p @ i # q) = Some b" "pt_path (p @ j # r)" "pt_node m pt (p @ j # r) = Some b"
      by blast
    then have "p @ i # q = p @ j # r" using pt_wf_inj[OF wf(1)] by blast
    then show False using that(5) by simp
  qed
  moreover have "twf (Suc d) e m (?c i)" if "i < 512" "load64 m (slot a i) AND PTE_V \<noteq> 0" for i
    using pi[OF that] Suc.prems(3) by (intro Suc.IH) auto
  moreover have "load64 m (slot a i) AND (PTE_R OR PTE_W OR PTE_X) = 0"
    if "i < 512" "load64 m (slot a i) AND PTE_V \<noteq> 0" for i
    using pt_wf_pointer[OF wf(1) pi(1)[OF that] Suc.prems(2)] that by simp
  moreover have "ram_page e a" using pt_wfD[OF wf(1) Suc.prems(1,2)] by simp
  ultimately show ?case by (simp (no_asm_simp) only: twf.simps(2)[of "Suc d"]) blast
qed

lemma freewalk_spec:
  assumes "pt_own pt fs s" "no_leaves (mem s) pt"
  shows "\<exists>s' fs'. freewalk pt s = Ok () s' \<and> tree_freed (pt_pages (mem s) pt) fs s fs' s'"
proof -
  have wf: "pt_wf (kend s) (mem s) pt" "kmem_pool s fs" "pt_pages (mem s) pt \<inter> set fs = {}"
    using assms(1) by (simp_all add: pt_own_def)
  have "twf (Suc 2) (kend s) (mem s) pt"
    using twf_subtree[OF wf(1) assms(2), of "[]" pt 2] by (simp add: pt_path_def)
  moreover have "Suc 2 = (3 :: nat)" by simp
  ultimately show ?thesis
    unfolding freewalk_def using wf(2,3) freewalk_depth_spec[of 3 s pt fs] by (simp only: pt_pages_tpages) 
qed

text \<open>Every leaf slot of a well-formed table is the entry of an address below \<open>MAXVA\<close>.\<close>

lemma va_of_path:
  assumes "i < 256" "j < 512" "k < 512"
  obtains va where "va < MAXVA" "va_path va = [i, j]" "unat (PX 0 va) = k"
proof -
  define va :: u64 where "va = push_bit 30 (of_nat i) OR push_bit 21 (of_nat j) OR push_bit 12 (of_nat k)"
  have u: "unat (of_nat i :: u64) < 2 ^ 8" "unat (of_nat j :: u64) < 2 ^ 9" "unat (of_nat k :: u64) < 2 ^ 9"
    using assms by (simp_all add: unat_of_nat_small)
  note b = bit_lt_exp[OF u(1)] bit_lt_exp[OF u(2)] bit_lt_exp[OF u(3)]
  have bits: "bit va n \<longleftrightarrow> n < 64 \<and> (30 \<le> n \<and> bit (of_nat i :: u64) (n - 30) \<or>
      21 \<le> n \<and> bit (of_nat j :: u64) (n - 21) \<or> 12 \<le> n \<and> bit (of_nat k :: u64) (n - 12))" for n
    by (auto simp: va_def bit_simps)
  have px: "PX 2 va = of_nat i" "PX 1 va = of_nat j" "PX 0 va = of_nat k"
    by (intro bit_word_eqI; use b in \<open>fastforce simp: bit_PX bits\<close>)+
  have "va = take_bit 38 va"
    by (intro bit_word_eqI) (use b in \<open>fastforce simp: bits bit_simps\<close>)
  then have "unat va = take_bit 38 (unat va)" by (metis unsigned_take_bit_eq)
  also have "\<dots> < 2 ^ 38" by (rule take_bit_nat_less_exp)
  finally have "va < MAXVA" by (simp add: word_less_nat_alt)
  moreover have "va_path va = [i, j]" "unat (PX 0 va) = k"
    using px assms by (simp_all add: va_path_def unat_of_nat_small)
  ultimately show thesis by (rule that)
qed

lemma no_leavesI:
  assumes "pt_wf e m pt" "\<And>va. va < MAXVA \<Longrightarrow> pte_of m pt va AND PTE_V = 0"
  shows "no_leaves m pt"
  unfolding no_leaves_def
proof (intro allI impI)
  fix p t and k :: nat assume h: "pt_path p \<and> length p = 2 \<and> pt_node m pt p = Some t \<and> k < 512"
  then obtain i j where p: "p = [i, j]" by (auto simp: length_Suc_conv numeral_2_eq_2)
  have "load64 m (slot pt i) AND PTE_V \<noteq> 0" using h p by (auto split: if_splits)
  then have "i < 256" using pt_wf_upper[OF assms(1), of i] h p by (force simp: pt_path_def)
  with h p obtain va where va: "va < MAXVA" "va_path va = [i, j]" "unat (PX 0 va) = k"
    using va_of_path[of i j k] by (auto simp: pt_path_def)
  then have "pte_of m pt va = load64 m (slot t k)" using h p by (simp add: pte_of_def pte_slot_def)
  then show "load64 m (slot t k) AND PTE_V = 0" using assms(2)[OF va(1)] by simp
qed

section \<open>uvmfree\<close>

lemma uvmfree_spec:
  assumes "pt_own pt fs s" "unat sz \<le> 274877906944" "freeable pt fs s 0 (npg sz)"
    and "\<And>vb. \<lbrakk>vb < MAXVA; npg sz \<le> vpn vb\<rbrakk> \<Longrightarrow> pte_of (mem s) pt vb AND PTE_V = 0"
  shows "\<exists>s' fs'. uvmfree pt sz s = Ok () s' \<and>
    tree_freed (pt_pages (mem s) pt \<union> set (range_frames (mem s) pt 0 (npg sz))) fs s fs' s'"
proof -
  let ?F = "range_frames (mem s) pt 0 (npg sz)"
  note n = PGROUNDUP_pages[OF assms(2)]
  have z: "vpn 0 = 0" "pg_aligned 0" by (simp_all add: vpn_def pg_aligned_def)
  obtain s1 where s1: "whenk (sz > 0) (uvmunmap pt 0 (PGROUNDUP sz div PGSIZE) True) s = Ok () s1"
    and r: "released pt fs s 0 (npg sz) s1"
  proof (cases "sz > 0")
    case True
    have "PGROUNDUP sz div PGSIZE = of_nat (npg sz)"
      using n(1,4) by (simp add: word_unat_eq_iff unat_div unat_of_nat_small)
    then show thesis
      using that uvmunmap_free_spec[OF z(2) _ assms(1,3)] n(4) True z(1) by (auto simp: whenk_def)
  next
    case False
    then have "sz = 0" by (simp add: word_gt_0)
    then have "npg sz = 0" by (simp add: npg_def)
    then show thesis using that[of s] released_0[OF assms(1)] False by (simp add: whenk_def kop_simps)
  qed
  have o1: "pt_own pt (rev ?F @ fs) s1" "pt_pages (mem s1) pt = pt_pages (mem s) pt" "kmem_frame s s1"
    using r by (simp_all add: released_def)
  have "pte_of (mem s1) pt va AND PTE_V = 0" if "va < MAXVA" for va
    using r assms(4)[of va] that z(1) by (auto simp: released_def unmapped_def not_less)
  then have "no_leaves (mem s1) pt" using o1(1) by (intro no_leavesI) (auto simp: pt_own_def)
  from freewalk_spec[OF o1(1) this] obtain s2 fs2 where s2: "freewalk pt s1 = Ok () s2"
    "tree_freed (pt_pages (mem s) pt) (rev ?F @ fs) s1 fs2 s2" unfolding o1(2) by blast
  have "same_frame b (mem s2) (mem s)" if "b \<notin> pt_pages (mem s) pt \<union> set ?F" for b
    using that s2(2) r unfolding tree_freed_def released_def by (auto intro: same_frame_trans)
  then have "tree_freed (pt_pages (mem s) pt \<union> set ?F) fs s fs2 s2"
    using s2(2) kmem_frame_trans[OF o1(3)] unfolding tree_freed_def by auto
  then show ?thesis
    using s1 s2(1) by (auto simp: uvmfree_def bindk_def)
qed

end
