(* ===== verification/Uvmcopy.thy ===== *)
theory Uvmcopy
  imports Freewalk
begin

text \<open>
  \<open>uvmcopy\<close> of kernel/vm.c, the memory half of \<open>fork\<close>: the child's pages have the parent's
  flags and contents in fresh frames, the parent is untouched, and when memory runs out the
  child's table is emptied again.
\<close>

section \<open>The parent's side\<close>

definition copy_source :: "u64 \<Rightarrow> u64 \<Rightarrow> nat \<Rightarrow> u64 list \<Rightarrow> 'z kmem_st_scheme \<Rightarrow> bool" where
  "copy_source old new n fs s \<longleftrightarrow> pt_wf (kend s) (mem s) old \<and>
     pt_pages (mem s) old \<inter> (pt_pages (mem s) new \<union> set fs) = {} \<and> leaf_range (mem s) old 0 n \<and>
     (\<forall>b \<in> set (range_frames (mem s) old 0 n). ram_page (kend s) b \<and> b \<notin> pt_pages (mem s) new \<union> set fs)"

definition parent_page :: "memory \<Rightarrow> u64 \<Rightarrow> nat \<Rightarrow> u64 \<times> (u64 \<Rightarrow> u8)" where
  "parent_page m old i =
     (let e = pte_of m old (4096 * of_nat i) in (PTE_FLAGS e, \<lambda>x. m (PTE2PA e + x)))"

lemma ram_frame_nowrap: "ram_page e b \<Longrightarrow> unat b + 4096 < 2 ^ 64"
  by (simp add: ram_page_def word_less_nat_alt)

lemma memmove_frame:
  assumes "ram_page e t" "ram_page e b" "t \<noteq> b"
  shows "unat x < 4096 \<Longrightarrow> memmove m t b 4096 (t + x) = m (b + x)"
    and "c \<noteq> t \<Longrightarrow> same_frame c (memmove m t b 4096) m"
proof -
  have m: "memmove m t b 4096 = copied m t b 4096"
    using ram_frame_nowrap[OF assms(1)] ram_frame_nowrap[OF assms(2)] by (intro memmove_copied) simp_all
  show "memmove m t b 4096 (t + x) = m (b + x)" if "unat x < 4096"
    using that by (simp add: m copied_def)
  show "same_frame c (memmove m t b 4096) m" if "c \<noteq> t"
    using that in_frame_iff[of t] ram_page_aligned[OF assms(1)]
    by (auto simp: m copied_def same_frame_def)
qed

text \<open>The parent's entries and frames stay as they were while the child grows.\<close>

lemma grown_keeps_source:
  assumes "grown pg new base k fs s fs1 s1" "copy_source old new n fs s" "i < n" "n \<le> 67108864"
  defines "a \<equiv> 4096 * of_nat i"
  shows "pte_of (mem s1) old a = pte_of (mem s) old a" "is_leaf (pte_of (mem s) old a)"
    "ram_page (kend s) (PTE2PA (pte_of (mem s) old a))"
    "PTE2PA (pte_of (mem s) old a) \<notin> pt_pages (mem s) new \<union> set fs"
    "unat x < 4096 \<Longrightarrow> mem s1 (PTE2PA (pte_of (mem s) old a) + x) = mem s (PTE2PA (pte_of (mem s) old a) + x)"
    "pt_wf (kend s) (mem s1) old"
proof -
  let ?b = "PTE2PA (pte_of (mem s) old a)"
  have k: "\<And>b. b \<notin> pt_pages (mem s) new \<union> set fs \<Longrightarrow> same_frame b (mem s1) (mem s)"
    using assms(1) unfolding grown_def by blast
  have wf: "pt_wf (kend s) (mem s) old" using assms(2) by (simp add: copy_source_def)
  have "same_frame b (mem s1) (mem s)" if "b \<in> pt_pages (mem s) old" for b
    using that assms(2) by (intro k) (auto simp: copy_source_def)
  note o = pt_outside[OF wf this]
  show "pte_of (mem s1) old a = pte_of (mem s) old a" by (rule o(3))
  show "pt_wf (kend s) (mem s1) old" by (rule o(2))
  show "is_leaf (pte_of (mem s) old a)" using assms(2,3) by (simp add: copy_source_def leaf_range_def a_def)
  have "?b \<in> set (range_frames (mem s) old 0 n)" using assms(3) by (auto simp: range_frames_def a_def)
  then show r: "ram_page (kend s) ?b" and n: "?b \<notin> pt_pages (mem s) new \<union> set fs"
    using assms(2) unfolding copy_source_def by blast+
  show "mem s1 (?b + x) = mem s (?b + x)" if "unat x < 4096"
    using k[OF n] frame_offset[OF ram_page_aligned[OF r] that] by (simp add: same_frame_def)
qed

section \<open>The loop\<close>

lemma page_bytes:
  assumes "i \<le> 67108864"
  shows "unat (4096 * of_nat i :: u64) = 4096 * i" "vpn (4096 * of_nat i) = i" "pg_aligned (4096 * of_nat i)"
    "(4096 * of_nat i :: u64) div 4096 = of_nat i"
proof -
  have z: "pg_aligned 0" "vpn 0 = 0" by (simp_all add: pg_aligned_def vpn_def)
  show u: "unat (4096 * of_nat i :: u64) = 4096 * i" and "vpn (4096 * of_nat i) = i" "pg_aligned (4096 * of_nat i)"
    using aligned_next[OF z(1), of i] z(2) assms by simp_all
  show "(4096 * of_nat i :: u64) div 4096 = of_nat i"
    using u assms by (simp add: word_unat_eq_iff unat_div unat_of_nat_small)
qed

lemma grown_unmap:
  assumes "grown pg pt 0 k fs s fs1 s1" "k \<le> 67108864"
    and "\<And>vb. \<lbrakk>vb < MAXVA; vpn vb < k\<rbrakk> \<Longrightarrow> pte_of (mem s) pt vb = 0"
  shows "\<exists>s' fs'. uvmunmap pt 0 (of_nat k) True s1 = Ok () s' \<and> shrunk pt fs s fs' s'"
proof -
  have z: "pg_aligned 0" "vpn 0 = 0" by (simp_all add: pg_aligned_def vpn_def)
  have own: "pt_own pt fs1 s1" "freeable pt fs1 s1 0 k" using assms(1) by (simp_all add: grown_def)
  obtain s' where d: "uvmunmap pt 0 (of_nat k) True s1 = Ok () s'" and r: "released pt fs1 s1 0 k s'"
    using uvmunmap_free_spec[OF z(1) _ own] z(2) assms(2) by auto
  show ?thesis using grown_released[OF assms(1) r] assms(3) d z(2) by auto
qed

lemma PTE_FLAGS_lt: "unat (PTE_FLAGS e) < 2 ^ 10"
proof -
  have m: "(0x3FF :: u64) = mask 10" by (simp add: mask_eq_exp_minus_1)
  have "PTE_FLAGS e = take_bit 10 e"
    unfolding PTE_FLAGS_def m by (simp add: take_bit_eq_mask)
  then have "unat (PTE_FLAGS e) = take_bit 10 (unat e)" by (simp add: unsigned_take_bit_eq)
  also have "\<dots> < 2 ^ 10" by (rule take_bit_nat_less_exp)
  finally show ?thesis .
qed

lemma or_V_idem:
  assumes "(fl :: u64) AND PTE_V \<noteq> 0"
  shows "fl OR PTE_V = fl"
proof (rule bit_word_eqI)
  fix n assume "n < LENGTH(64)"
  have "bit fl 0" using assms by (metis and_exp_eq_0_iff_not_bit power_0)
  then show "bit (fl OR PTE_V) n = bit fl n" by (auto simp: bit_simps)
qed

lemma copied_entry:
  assumes "is_leaf e" "ram_page k t"
  defines "E \<equiv> PA2PTE t OR PTE_FLAGS e OR PTE_V"
  shows "PTE2PA E = t" "PTE_FLAGS E = PTE_FLAGS e" "PTE_FLAGS e AND PTE_V \<noteq> 0" "PTE_FLAGS e \<noteq> PTE_V"
proof -
  show v: "PTE_FLAGS e AND PTE_V \<noteq> 0" "PTE_FLAGS e \<noteq> PTE_V"
    using assms(1) pte_flags_and[of 1 e] by (simp_all add: is_leaf_def)
  have E: "E = PA2PTE t OR PTE_FLAGS e" unfolding E_def or.assoc or_V_idem[OF v(1)] ..
  show "PTE2PA E = t"
    unfolding E using assms(2) PTE_FLAGS_lt by (intro PTE2PA_PA2PTE) (simp_all add: ram_page_def word_less_nat_alt)
  show "PTE_FLAGS E = PTE_FLAGS e" unfolding E by (rule PTE_FLAGS_PA2PTE[OF PTE_FLAGS_lt])
qed

lemma uvmcopy_step:
  assumes g: "grown (parent_page (mem s) old) new 0 k fs s fs1 s1" "copy_source old new n fs s" "k < n" "n \<le> 67108864"
    and u: "\<And>vb. \<lbrakk>vb < MAXVA; vpn vb < n\<rbrakk> \<Longrightarrow> pte_of (mem s) new vb = 0"
    and a: "a = 4096 * of_nat k" "a < sz"
  shows "\<exists>s' fs'.
    uvmcopy_body old new sz a s1 = Ok (Inl (a + PGSIZE)) s' \<and> grown (parent_page (mem s) old) new 0 (Suc k) fs s fs' s' \<and>
      length fs1 \<le> length fs' + 3
  \<or> uvmcopy_body old new sz a s1 = Ok (Inr (-1)) s' \<and> shrunk new fs s fs' s' \<and> length fs1 < 3"
proof -
  let ?pg = "parent_page (mem s) old" and ?e = "pte_of (mem s) old a"
  let ?pa = "PTE2PA ?e" and ?fl = "PTE_FLAGS ?e"
  have z: "pg_aligned 0" "vpn 0 = 0" by (simp_all add: pg_aligned_def vpn_def)
  have k: "vpn 0 + k \<le> 67108864" "vpn 0 + Suc k \<le> 67108864" "k \<le> 67108864" using g(3,4) z(2) by simp_all
  note pb = page_bytes[OF k(3), folded a(1)]
  have am: "a < MAXVA" using pb(2) g(3,4) by (simp add: vpn_MAXVA)
  note src = grown_keeps_source[OF g(1-4), folded a(1)]
  have own: "pt_own new fs1 s1" and gf: "kmem_frame s s1" using g(1) by (simp_all add: grown_def)
  have pg: "?pg k = (?fl, \<lambda>x. mem s (?pa + x))" by (simp add: parent_page_def Let_def a(1))
  have ne: "?e \<noteq> 0" "?e AND PTE_V \<noteq> 0" using src(2) by (auto simp: is_leaf_def)
  obtain t0 where t0: "pt_node (mem s1) old (va_path a) = Some t0" "load64 (mem s1) (pte_slot t0 0 a) = ?e"
    using pte_of_node[of "mem s1" old a] src(1) ne(1) by metis
  have nz: "pte_slot t0 0 a \<noteq> 0" by (rule pte_slot_nonzero[OF src(6) pt_path_va t0(1)])
  have err: "\<exists>s' fs'. uvmcopy_err new a s2 = Ok (Inr (-1)) s' \<and> shrunk new fs s fs' s'"
    if "grown ?pg new 0 k fs s fs2 s2" for s2 fs2
  proof -
    have "\<exists>s' fs'. uvmunmap new 0 (of_nat k) True s2 = Ok () s' \<and> shrunk new fs s fs' s'"
      using u g(3) k(3) by (intro grown_unmap[OF that]) auto
    then show ?thesis by (auto simp: uvmcopy_err_def pb(4) bindk_def kop_simps)
  qed
  have body: "uvmcopy_body old new sz a s1 = bindk kalloc (\<lambda>mm.
     if mm = 0 then uvmcopy_err new a else
     bindk (memmovek mm ?pa 4096) (\<lambda>_.
     bindk (mappages new a PGSIZE mm ?fl) (\<lambda>r.
     if r \<noteq> 0 then bindk (kfree mm) (\<lambda>_. uvmcopy_err new a)
     else returnk (Inl (a + PGSIZE))))) s1"
    using a(2) am t0 nz ne(2) by (simp add: uvmcopy_body_def walk_lookup loadk_def kop_simps Let_def)
  show ?thesis
  proof (cases fs1)
    case Nil
    then obtain s2 where s2: "kalloc s1 = Ok 0 s2" "pt_own new [] s2" "pt_same new s1 s2" "\<And>b. same_frame b (mem s2) (mem s1)"
      using pt_own_alloc_none[of new s1] own by auto
    have "grown ?pg new 0 k fs s [] s2"
      using pt_sameD[OF s2(3)] s2(2,4) Nil by (intro grown_other[OF g(1) z(1) k(1)]) auto
    from err[OF this] obtain s' fs' where "uvmcopy_err new a s2 = Ok (Inr (-1)) s'" "shrunk new fs s fs' s'" by blast
    then show ?thesis
      using s2(1) Nil by (intro exI[of _ s'] exI[of _ fs']) (simp add: body bindk_def)
  next
    case (Cons t ts)
    then obtain s2 where s2: "kalloc s1 = Ok t s2" and t: "t \<noteq> 0" "ram_page (kend s1) t"
      and k2: "\<And>b. b \<noteq> t \<Longrightarrow> same_frame b (mem s2) (mem s1)"
      using pt_own_alloc[of new t ts s1] own by auto
    have ks: "kend s1 = kend s" using kmem_frameD(4)[OF gf] .
    have tpa: "t \<noteq> ?pa" using src(4) g(1) Cons by (auto simp: grown_def)
    let ?m = "memmove (mem s2) t ?pa 4096"
    note mv = memmove_frame[OF t(2)[unfolded ks] src(3) tpa]
    have ct: "?m (t + x) = mem s (?pa + x)" if "unat x < 4096" for x
      using mv(1)[OF that, of "mem s2"] k2[of ?pa] tpa frame_offset[OF ram_page_aligned[OF src(3)] that] src(5)[OF that]
      by (auto simp: same_frame_def)
    obtain r s4 fs4 where s4: "mappages new a PGSIZE t ?fl (s2\<lparr>mem := ?m\<rparr>) = Ok r s4"
      and c: "r = 0 \<and> grown ?pg new 0 (Suc k) fs s fs4 s4 \<and> length ts \<le> length fs4 + 2 \<or>
        r \<noteq> 0 \<and> length ts < 2 \<and> (\<exists>s5. kfree t s4 = Ok () s5 \<and> grown ?pg new 0 k fs s [t] s5)"
      using grown_map[OF g(1)[unfolded Cons] z(1) k(2), of a s2 ?m ?fl] a(1) u[OF am] pb(2) g(3) s2 mv(2) ct pg
        copied_entry[OF src(2) t(2)] by auto
    note run = body bindk_def kop_simps memmovek_def
    from c show ?thesis
    proof (elim disjE conjE exE)
      assume "r = 0" "grown ?pg new 0 (Suc k) fs s fs4 s4" "length ts \<le> length fs4 + 2"
      then show ?thesis using Cons s2 s4 t(1) by (intro exI[of _ s4] exI[of _ fs4]) (simp add: run)
    next
      fix s5 assume r: "r \<noteq> 0" "length ts < 2" "kfree t s4 = Ok () s5" and g5: "grown ?pg new 0 k fs s [t] s5"
      from err[OF g5] obtain s' fs' where "uvmcopy_err new a s5 = Ok (Inr (-1)) s'" "shrunk new fs s fs' s'" by blast
      then show ?thesis using Cons r s2 s4 t(1) by (intro exI[of _ s'] exI[of _ fs']) (simp add: run)
    qed
  qed
qed

lemma uvmcopy_loop:
  assumes "grown (parent_page (mem s) old) new 0 k fs s fs1 s1" "copy_source old new n fs s" "k \<le> n" "n \<le> 67108864"
    and "\<And>vb. \<lbrakk>vb < MAXVA; vpn vb < n\<rbrakk> \<Longrightarrow> pte_of (mem s) new vb = 0"
    and "\<And>j. j \<le> n \<Longrightarrow> 4096 * of_nat j < sz \<longleftrightarrow> j < n"
    and "length fs \<le> length fs1 + 3 * k"
  shows "\<exists>r s' fs'. loopk (uvmcopy_body old new sz) (4096 * of_nat k) s1 = Ok r s' \<and>
    (r = 0 \<and> grown (parent_page (mem s) old) new 0 n fs s fs' s' \<and> length fs \<le> length fs' + 3 * n \<or>
     r = -1 \<and> shrunk new fs s fs' s' \<and> length fs < 3 * n)"
  using assms(1,3,7)
proof (induction "n - k" arbitrary: k fs1 s1)
  case 0
  then have "k = n" by simp
  then have "uvmcopy_body old new sz (4096 * of_nat k) s1 = Ok (Inr 0) s1"
    using assms(6)[of n] by (simp add: uvmcopy_body_def kop_simps)
  with 0 \<open>k = n\<close> show ?case by (auto simp: loopk_steps)
next
  case (Suc d)
  let ?a = "4096 * of_nat k :: u64" and ?pg = "parent_page (mem s) old"
  have k: "k < n" using Suc by simp
  obtain s' fs' where c: "uvmcopy_body old new sz ?a s1 = Ok (Inl (?a + PGSIZE)) s' \<and> grown ?pg new 0 (Suc k) fs s fs' s' \<and>
        length fs1 \<le> length fs' + 3
      \<or> uvmcopy_body old new sz ?a s1 = Ok (Inr (-1)) s' \<and> shrunk new fs s fs' s' \<and> length fs1 < 3"
    using uvmcopy_step[OF Suc.prems(1) assms(2) k assms(4,5), of ?a sz] k assms(6)[of k] by auto
  then show ?case
  proof
    assume l: "uvmcopy_body old new sz ?a s1 = Ok (Inl (?a + PGSIZE)) s' \<and> grown ?pg new 0 (Suc k) fs s fs' s' \<and>
        length fs1 \<le> length fs' + 3"
    then have le: "length fs \<le> length fs' + 3 * Suc k" using Suc.prems(3) by simp
    have "?a + PGSIZE = 4096 * of_nat (Suc k)" by (simp add: algebra_simps)
    then have "loopk (uvmcopy_body old new sz) ?a s1 = loopk (uvmcopy_body old new sz) (4096 * of_nat (Suc k)) s'"
      using loopk_steps(1)[of "uvmcopy_body old new sz", OF conjunct1[OF l]] by (simp only:)
    then show ?thesis using Suc.hyps(1)[OF _ _ _ le, of s'] Suc.hyps(2) k l by simp
  next
    assume l: "uvmcopy_body old new sz ?a s1 = Ok (Inr (-1)) s' \<and> shrunk new fs s fs' s' \<and> length fs1 < 3"
    then have "length fs < 3 * n" using Suc.prems(3) k by linarith
    with l show ?thesis by (auto simp: loopk_steps)
  qed
qed

lemma uvmcopy_spec:
  assumes "pt_own new fs s" "copy_source old new (npg sz) fs s" "unat sz \<le> 274877906944"
    and "\<And>vb. \<lbrakk>vb < MAXVA; vpn vb < npg sz\<rbrakk> \<Longrightarrow> pte_of (mem s) new vb = 0"
  shows "\<exists>r s' fs'. uvmcopy old new sz s = Ok r s' \<and>
    (r = 0 \<and> grown (parent_page (mem s) old) new 0 (npg sz) fs s fs' s' \<and> length fs \<le> length fs' + 3 * npg sz \<or>
     r = -1 \<and> shrunk new fs s fs' s' \<and> length fs < 3 * npg sz)"
proof -
  note n = PGROUNDUP_pages[OF assms(3)]
  have j: "4096 * of_nat j < sz \<longleftrightarrow> j < npg sz" if "j \<le> npg sz" for j
    using page_bytes(1)[of j] that n(4) by (simp add: word_less_nat_alt lt_npg_iff)
  have "\<exists>r s' fs'. loopk (uvmcopy_body old new sz) (4096 * of_nat 0) s = Ok r s' \<and>
    (r = 0 \<and> grown (parent_page (mem s) old) new 0 (npg sz) fs s fs' s' \<and> length fs \<le> length fs' + 3 * npg sz \<or>
     r = -1 \<and> shrunk new fs s fs' s' \<and> length fs < 3 * npg sz)"
    using assms(4) n(4) j by (intro uvmcopy_loop[OF grown_0[OF assms(1)] assms(2)]) auto
  then show ?thesis by (simp add: uvmcopy_def)
qed

end
