(* ===== verification/Ucopy.thy ===== *)
theory Ucopy
  imports Uvm
begin

text \<open>
  \<open>copyin\<close>, \<open>copyout\<close> and \<open>copyinstr\<close> of kernel/vm.c go page by page. The lemmas show that they
  are the byte-wise copies between kernel memory and the user address space that their callers
  rely on, and that they fail exactly if a byte of the range is not accessible.
\<close>

section \<open>The user address space byte by byte\<close>

definition user_pa :: "memory \<Rightarrow> u64 \<Rightarrow> u64 \<Rightarrow> u64" where
  "user_pa m pt va = PTE2PA (pte_of m pt va) + (va - PGROUNDDOWN va)"

definition user_readable :: "memory \<Rightarrow> u64 \<Rightarrow> u64 \<Rightarrow> bool" where
  "user_readable m pt va \<longleftrightarrow> va < MAXVA \<and> pte_of m pt va AND PTE_V \<noteq> 0 \<and> pte_of m pt va AND PTE_U \<noteq> 0 \<and>
     PTE2PA (pte_of m pt va) \<noteq> 0"

definition user_writable :: "memory \<Rightarrow> u64 \<Rightarrow> u64 \<Rightarrow> bool" where
  "user_writable m pt va \<longleftrightarrow> va < MAXVA \<and> pte_of m pt va AND PTE_V \<noteq> 0 \<and> pte_of m pt va AND PTE_U \<noteq> 0 \<and>
     pte_of m pt va AND PTE_W \<noteq> 0"

lemma PTE2PA_aligned: "pg_aligned (PTE2PA e)"
  by (auto simp: pg_aligned_bits PTE2PA_def bit_simps)

lemma MAXVA_page: "PGROUNDDOWN va < MAXVA \<longleftrightarrow> va < MAXVA"
  by (simp add: vpn_MAXVA vpn_def pgrounddown_nat)

lemma pte_of_page:
  assumes "va < MAXVA"
  shows "pte_of m pt (PGROUNDDOWN va) = pte_of m pt va"
proof -
  have "va_path (PGROUNDDOWN va) = va_path va \<and> PX 0 (PGROUNDDOWN va) = PX 0 va"
    using same_entry_iff[of va "PGROUNDDOWN va"] assms MAXVA_page
    by (simp add: frame_self pg_aligned_PGROUNDDOWN)
  then show ?thesis by (simp add: pte_of_def pte_slot_def split: option.splits)
qed

text \<open>The piece of a range in the page of its first byte.\<close>

lemma chunk_props:
  fixes va :: u64
  assumes "0 < unat len"
  defines "n \<equiv> chunk va len" and "off \<equiv> va - PGROUNDDOWN va"
  shows "0 < unat n" "unat n \<le> unat len" "unat off + unat n \<le> 4096"
    "unat n = unat len \<or> va + n = PGROUNDDOWN va + PGSIZE"
    "\<And>i. i < unat n \<Longrightarrow> PGROUNDDOWN (va + of_nat i) = PGROUNDDOWN va"
proof -
  have off: "unat off < 4096" unfolding off_def by (rule frame_split(2))
  have v: "va = PGROUNDDOWN va + off" by (simp add: off_def)
  have r: "unat (PGSIZE - off) = 4096 - unat off" using off by (subst unat_sub) (simp_all add: word_le_nat_alt)
  have n: "n = (if PGSIZE - off > len then len else PGSIZE - off)"
    by (simp add: n_def chunk_def off_def Let_def)
  show a: "0 < unat n" "unat n \<le> unat len" "unat off + unat n \<le> 4096"
    using n r off assms(1) by (auto simp: word_less_nat_alt split: if_splits)
  show "unat n = unat len \<or> va + n = PGROUNDDOWN va + PGSIZE"
    using n by (auto simp: off_def)
  show "PGROUNDDOWN (va + of_nat i) = PGROUNDDOWN va" if "i < unat n" for i
  proof -
    have "unat (off + of_nat i) = unat off + i"
      using a(3) that by (intro unat_add_of_nat) simp
    then have "PGROUNDDOWN (PGROUNDDOWN va + (off + of_nat i)) = PGROUNDDOWN va"
      using a(3) that by (intro frame_offset pg_aligned_PGROUNDDOWN) simp
    then show ?thesis using v by (simp add: add.assoc[symmetric])
  qed
qed

lemma chunk_user:
  assumes "0 < unat len" "i < unat (chunk va len)" "va < MAXVA"
  shows "va + of_nat i < MAXVA" "pte_of m pt (va + of_nat i) = pte_of m pt va"
    "user_pa m pt (va + of_nat i) = user_pa m pt va + of_nat i"
proof -
  have p: "PGROUNDDOWN (va + of_nat i) = PGROUNDDOWN va" by (rule chunk_props(5)[OF assms(1,2)])
  then show lt: "va + of_nat i < MAXVA" using MAXVA_page[of "va + of_nat i"] MAXVA_page[of va] assms(3) by simp
  show e: "pte_of m pt (va + of_nat i) = pte_of m pt va"
    using pte_of_page[OF lt, of m pt] pte_of_page[OF assms(3), of m pt] p by simp
  show "user_pa m pt (va + of_nat i) = user_pa m pt va + of_nat i"
    using e p by (simp add: user_pa_def)
qed

lemma chunk_nowrap:
  assumes "0 < unat len" "pg_aligned b"
  shows "unat (b + (va - PGROUNDDOWN va)) + unat (chunk va len) \<le> 2 ^ 64"
proof -
  obtain k where k: "unat b = 4096 * k" using assms(2) by (auto simp: pg_aligned_nat)
  then have "k < 4503599627370496" using unat_lt_64[of b] by simp
  then have "unat b + 4096 \<le> 18446744073709551616" using k by simp
  moreover have c: "unat (va - PGROUNDDOWN va) + unat (chunk va len) \<le> 4096" "0 < unat (chunk va len)"
    using chunk_props[OF assms(1)] by auto
  moreover have "unat (b + (va - PGROUNDDOWN va)) = unat b + unat (va - PGROUNDDOWN va)"
    using calculation by (intro unat_add_nowrap) simp
  ultimately show ?thesis by simp
qed

lemma user_pa_frame: "PGROUNDDOWN (user_pa m pt va) = PTE2PA (pte_of m pt va)"
  unfolding user_pa_def by (rule frame_offset[OF PTE2PA_aligned frame_split(2)])

section \<open>copyin\<close>

text \<open>
  The kernel buffer of \<open>len\<close> bytes at \<open>dst\<close> is in no frame of the page table and in no frame
  the user range maps.
\<close>

definition copyin_sep :: "memory \<Rightarrow> u64 \<Rightarrow> u64 \<Rightarrow> u64 \<Rightarrow> nat \<Rightarrow> bool" where
  "copyin_sep m pt dst srcva len \<longleftrightarrow> (\<forall>i < len. PGROUNDDOWN (dst + of_nat i) \<notin> pt_pages m pt \<and>
     (\<forall>j < len. user_readable m pt (srcva + of_nat j) \<longrightarrow>
        PGROUNDDOWN (dst + of_nat i) \<noteq> PTE2PA (pte_of m pt (srcva + of_nat j))))"

text \<open>Memory after the first \<open>k\<close> bytes were copied.\<close>

definition copied_in :: "memory \<Rightarrow> u64 \<Rightarrow> u64 \<Rightarrow> u64 \<Rightarrow> nat \<Rightarrow> memory" where
  "copied_in m pt dst srcva k =
     (\<lambda>x. if unat (x - dst) < k then m (user_pa m pt (srcva + (x - dst))) else m x)"

lemma offset_index: "unat (x - dst) < k \<Longrightarrow> \<exists>i < k. x = dst + of_nat i" for x dst :: u64
  by (intro exI[of _ "unat (x - dst)"]) simp

lemma copied_in_outside:
  assumes "\<And>i. i < k \<Longrightarrow> PGROUNDDOWN (dst + of_nat i) \<noteq> b"
  shows "same_frame b (copied_in m pt dst srcva k) m"
  unfolding same_frame_def copied_in_def using assms offset_index by fastforce

lemma unat_shift:
  fixes x dst :: u64
  assumes "k + n \<le> 2 ^ 64"
  shows "unat (x - (dst + of_nat k)) < n \<longleftrightarrow> k \<le> unat (x - dst) \<and> unat (x - dst) < k + n"
proof (cases "k \<le> unat (x - dst)")
  case True
  have "unat (of_nat k :: u64) = k"
    by (rule unat_of_nat_small[OF le_less_trans[OF True unat_lt_64]])
  then have "of_nat k \<le> x - dst" using True by (simp add: word_le_nat_alt)
  then have "unat (x - dst - of_nat k) = unat (x - dst) - k" using \<open>unat (of_nat k :: u64) = k\<close> by (simp add: unat_sub)
  then show ?thesis using True by (auto simp: algebra_simps)
next
  case False
  have "\<not> unat (x - (dst + of_nat k)) < n"
  proof
    assume l: "unat (x - (dst + of_nat k)) < n"
    define j where "j = unat (x - (dst + of_nat k))"
    have "x - dst = of_nat (k + j)" by (simp add: j_def)
    moreover have "unat (of_nat (k + j) :: u64) = k + j"
      using assms l unfolding j_def[symmetric] by (intro unat_of_nat_small) simp
    ultimately show False using False by simp
  qed
  with False show ?thesis by simp
qed

lemma copied_in_step:
  assumes "k + n \<le> len" "unat dst + len \<le> 2 ^ 64" "copyin_sep m pt dst srcva len"
    and "\<And>i. i < n \<Longrightarrow> user_readable m pt (srcva + of_nat (k + i)) \<and>
      user_pa m pt (srcva + of_nat (k + i)) = src + of_nat i"
  shows "copied (copied_in m pt dst srcva k) (dst + of_nat k) src n = copied_in m pt dst srcva (k + n)"
proof (rule ext)
  fix x
  let ?m = "copied_in m pt dst srcva k"
  have kn: "k + n \<le> 2 ^ 64" using assms(1,2) by simp
  have src: "?m (src + of_nat i) = m (src + of_nat i)" if "i < n" for i
  proof -
    note r = assms(4)[OF that]
    have "PGROUNDDOWN (src + of_nat i) = PTE2PA (pte_of m pt (srcva + of_nat (k + i)))"
      using r user_pa_frame[of m pt "srcva + of_nat (k + i)"] by simp
    moreover have "PGROUNDDOWN (dst + of_nat j) \<noteq> PTE2PA (pte_of m pt (srcva + of_nat (k + i)))" if "j < k" for j
    proof -
      have "j < len" "k + i < len" using that \<open>i < n\<close> assms(1) by simp_all
      then show ?thesis using assms(3) r unfolding copyin_sep_def by blast
    qed
    ultimately show ?thesis
      using copied_in_outside[of k dst "PTE2PA (pte_of m pt (srcva + of_nat (k + i)))" m pt srcva]
      by (simp add: same_frame_def)
  qed
  show "copied ?m (dst + of_nat k) src n x = copied_in m pt dst srcva (k + n) x"
  proof (cases "unat (x - (dst + of_nat k)) < n")
    case True
    define i where "i = unat (x - (dst + of_nat k))"
    have i: "i < n" "x = dst + of_nat (k + i)" using True by (simp_all add: i_def)
    have "copied ?m (dst + of_nat k) src n x = ?m (src + of_nat i)"
      using True by (simp add: copied_def i_def)
    also have "\<dots> = m (user_pa m pt (srcva + of_nat (k + i)))" using src assms(4) i by simp
    also have "\<dots> = copied_in m pt dst srcva (k + n) x"
      using True unat_shift[OF kn, of x dst] i(2) by (simp add: copied_in_def)
    finally show ?thesis .
  next
    case False
    then show ?thesis
      using unat_shift[OF kn, of x dst] by (auto simp: copied_def copied_in_def)
  qed
qed

text \<open>The state of the loop after \<open>k\<close> bytes.\<close>

definition copyin_at :: "u64 \<Rightarrow> u64 \<Rightarrow> u64 \<Rightarrow> u64 \<Rightarrow> 'z kmem_st_scheme \<Rightarrow> nat \<Rightarrow> u64 \<times> u64 \<times> u64 \<Rightarrow> 'z kmem_st_scheme \<Rightarrow> bool" where
  "copyin_at pt dst srcva len s k = (\<lambda>(d, sv, l) t. k + unat l = unat len \<and> d = dst + of_nat k \<and>
     (l = 0 \<or> sv = srcva + of_nat k) \<and> t = s\<lparr>mem := copied_in (mem s) pt dst srcva k\<rparr> \<and>
     (\<forall>i < k. user_readable (mem s) pt (srcva + of_nat i)))"

definition copyin_post :: "u64 \<Rightarrow> u64 \<Rightarrow> u64 \<Rightarrow> u64 \<Rightarrow> 'z kmem_st_scheme \<Rightarrow> int \<Rightarrow> 'z kmem_st_scheme \<Rightarrow> bool" where
  "copyin_post pt dst srcva len s r t \<longleftrightarrow> (\<exists>k. t = s\<lparr>mem := copied_in (mem s) pt dst srcva k\<rparr> \<and>
     (\<forall>i < k. user_readable (mem s) pt (srcva + of_nat i)) \<and>
     (r = 0 \<and> k = unat len \<or> r = -1 \<and> k < unat len \<and> \<not> user_readable (mem s) pt (srcva + of_nat k)))"

lemma copyin_walkaddr:
  assumes "pt_wf e (mem s) pt" "copyin_sep (mem s) pt dst srcva len" "k \<le> len"
    and "t = s\<lparr>mem := copied_in (mem s) pt dst srcva k\<rparr>"
  shows "walkaddr pt (PGROUNDDOWN sv) t =
    Ok (if user_readable (mem s) pt sv then PTE2PA (pte_of (mem s) pt sv) else 0) t"
proof (cases "sv < MAXVA")
  case True
  have same: "same_frame b (mem t) (mem s)" if "b \<in> pt_pages (mem s) pt" for b
    unfolding assms(4) using that assms(2,3) by (auto simp: copyin_sep_def intro!: copied_in_outside)
  note o = pt_outside[OF assms(1) same]
  show ?thesis
    using walkaddr_eq[OF o(2), of "PGROUNDDOWN sv"] True MAXVA_page pte_of_page[OF True] o(3)
    by (auto simp: user_readable_def)
next
  case False
  then have "PGROUNDDOWN sv \<ge> MAXVA" "\<not> user_readable (mem s) pt sv"
    using MAXVA_page[of sv] by (simp_all add: user_readable_def not_less[symmetric])
  then show ?thesis by (simp add: walkaddr_def kop_simps)
qed

lemma copyin_step:
  assumes wf: "pt_wf e (mem s) pt" "copyin_sep (mem s) pt dst srcva (unat len)" "unat dst + unat len \<le> 2 ^ 64"
    and at: "copyin_at pt dst srcva len s k (d, sv, l) t" "0 < unat l"
  shows "\<exists>x t'. copyin_body pt (d, sv, l) t = Ok x t' \<and>
    (case x of Inl v' \<Rightarrow> (\<exists>k'. copyin_at pt dst srcva len s k' v' t' \<and> unat (snd (snd v')) < unat l)
      | Inr r \<Rightarrow> copyin_post pt dst srcva len s r t')"
proof -
  have a: "k + unat l = unat len" "d = dst + of_nat k" "sv = srcva + of_nat k"
    "t = s\<lparr>mem := copied_in (mem s) pt dst srcva k\<rparr>" "\<forall>i < k. user_readable (mem s) pt (srcva + of_nat i)"
    using at by (auto simp: copyin_at_def)
  have l: "l > 0" using at(2) by (simp add: word_less_nat_alt)
  note w = copyin_walkaddr[OF wf(1,2) _ a(4), where sv = sv]
  show ?thesis
  proof (cases "user_readable (mem s) pt sv")
    case False
    have "copyin_body pt (d, sv, l) t = Ok (Inr (-1)) t"
      using w a(1) False l by (simp add: copyin_body_def Let_def bindk_def kop_simps)
    moreover have "copyin_post pt dst srcva len s (-1) t"
      unfolding copyin_post_def using a at(2) False by (intro exI[of _ k]) simp
    ultimately show ?thesis by auto
  next
    case True
    let ?n = "chunk sv l" and ?src = "user_pa (mem s) pt sv"
    have svm: "sv < MAXVA" and nz: "PTE2PA (pte_of (mem s) pt sv) \<noteq> 0" using True by (auto simp: user_readable_def)
    note c = chunk_props[OF at(2), where va = sv] and u = chunk_user[OF at(2) _ svm]
    have kn: "k + unat ?n \<le> unat len" using c(2) a(1) by simp
    have rd: "user_readable (mem s) pt (srcva + of_nat (k + i)) \<and> user_pa (mem s) pt (srcva + of_nat (k + i)) = ?src + of_nat i"
      if "i < unat ?n" for i
      using u(1)[OF that] u(2,3)[OF that, of "mem s" pt] True a(3) by (simp add: user_readable_def add.assoc)
    have ud: "unat d = unat dst + k" using a(1,2) at(2) wf(3) by (simp add: unat_add_of_nat)
    have nw: "unat ?src + unat ?n \<le> 2 ^ 64" unfolding user_pa_def by (rule chunk_nowrap[OF at(2) PTE2PA_aligned])
    have "memmove (mem t) d ?src (unat ?n) = copied (mem t) d ?src (unat ?n)"
      using nw ud wf(3) kn by (intro memmove_copied) (auto simp: word_le_nat_alt)
    also have "\<dots> = copied_in (mem s) pt dst srcva (k + unat ?n)"
      using copied_in_step[OF kn wf(3,2) rd] a(2,4) by simp
    finally have mv: "memmove (mem t) d ?src (unat ?n) = copied_in (mem s) pt dst srcva (k + unat ?n)" .
    let ?t' = "s\<lparr>mem := copied_in (mem s) pt dst srcva (k + unat ?n)\<rparr>"
    let ?v' = "(d + ?n, PGROUNDDOWN sv + PGSIZE, l - ?n)"
    have body: "copyin_body pt (d, sv, l) t = Ok (Inl ?v') ?t'"
      using w a(1) True nz l mv a(4) by (simp add: copyin_body_def Let_def bindk_def kop_simps memmovek_def user_pa_def)
    have ul: "unat (l - ?n) = unat l - unat ?n" using c(2) by (simp add: unat_sub word_le_nat_alt)
    have "user_readable (mem s) pt (srcva + of_nat i)" if "i < k + unat ?n" for i
      using that a(5) rd[of "i - k"] by (cases "i < k") auto
    moreover have "l - ?n = 0 \<or> PGROUNDDOWN sv + PGSIZE = srcva + of_nat (k + unat ?n)"
      using c(4)
    proof
      assume "unat ?n = unat l"
      then have "?n = l" by (simp add: word_unat_eq_iff)
      then show ?thesis by simp
    next
      assume "sv + ?n = PGROUNDDOWN sv + PGSIZE"
      then show ?thesis using a(3) by (simp add: add.assoc)
    qed
    ultimately have "copyin_at pt dst srcva len s (k + unat ?n) ?v' ?t'"
      using a(1,2) ul kn by (simp add: copyin_at_def)
    then show ?thesis using body c(1) at(2) ul by (auto intro!: exI[of _ "k + unat ?n"])
  qed
qed

lemma copyin_spec:
  assumes "pt_wf e (mem s) pt" "copyin_sep (mem s) pt dst srcva (unat len)" "unat dst + unat len \<le> 2 ^ 64"
  shows "\<exists>r t. copyin pt dst srcva len s = Ok r t \<and> copyin_post pt dst srcva len s r t"
  unfolding copyin_def
proof (rule loopk_rule[where J = "\<lambda>v t. \<exists>k. copyin_at pt dst srcva len s k v t" and variant = "\<lambda>v. unat (snd (snd v))"])
  show "\<exists>k. copyin_at pt dst srcva len s k (dst, srcva, len) s"
    by (intro exI[of _ 0]) (simp add: copyin_at_def copied_in_def)
next
  fix v t assume "\<exists>k. copyin_at pt dst srcva len s k v t"
  moreover obtain d sv l where v: "v = (d, sv, l)" by (cases v)
  ultimately obtain k where at: "copyin_at pt dst srcva len s k (d, sv, l) t" by blast
  show "\<exists>x t'. copyin_body pt v t = Ok x t' \<and>
    (case x of Inl v' \<Rightarrow> (\<exists>k. copyin_at pt dst srcva len s k v' t') \<and> unat (snd (snd v')) < unat (snd (snd v))
      | Inr r \<Rightarrow> copyin_post pt dst srcva len s r t')"
  proof (cases "0 < unat l")
    case True
    from copyin_step[OF assms at True] show ?thesis unfolding v by (auto split: sum.splits)
  next
    case False
    then have "l = 0" by (simp add: word_unat_eq_iff)
    then have "copyin_body pt v t = Ok (Inr 0) t" by (simp add: v copyin_body_def kop_simps)
    moreover have "copyin_post pt dst srcva len s 0 t"
      using at \<open>l = 0\<close> by (auto simp: copyin_at_def copyin_post_def)
    ultimately show ?thesis by auto
  qed
qed

section \<open>copyout\<close>

text \<open>
  The frames the user range maps contain neither the page table nor the kernel buffer of
  \<open>len\<close> bytes at \<open>src\<close>.
\<close>

definition copyout_sep :: "memory \<Rightarrow> u64 \<Rightarrow> u64 \<Rightarrow> u64 \<Rightarrow> nat \<Rightarrow> bool" where
  "copyout_sep m pt dstva src len \<longleftrightarrow> (\<forall>i < len. user_writable m pt (dstva + of_nat i) \<longrightarrow>
     PTE2PA (pte_of m pt (dstva + of_nat i)) \<notin> pt_pages m pt \<and>
     (\<forall>j < len. PGROUNDDOWN (src + of_nat j) \<noteq> PTE2PA (pte_of m pt (dstva + of_nat i))))"

text \<open>The reference: \<open>k\<close> single bytes, each through the address translation.\<close>

definition copied_out :: "memory \<Rightarrow> u64 \<Rightarrow> u64 \<Rightarrow> u64 \<Rightarrow> nat \<Rightarrow> memory" where
  "copied_out m pt dstva src k =
     fold (\<lambda>i mm. mm(user_pa m pt (dstva + of_nat i) := m (src + of_nat i))) [0..<k] m"

lemma copied_fold:
  assumes "n \<le> 2 ^ 64"
  shows "copied m d a n = fold (\<lambda>i mm. mm(d + of_nat i := m (a + of_nat i))) [0..<n] m"
  using assms
proof (induction n)
  case 0
  then show ?case by (simp add: copied_def)
next
  case (Suc n)
  have "copied m d a (Suc n) = (copied m d a n)(d + of_nat n := m (a + of_nat n))"
  proof (rule ext)
    fix x
    show "copied m d a (Suc n) x = ((copied m d a n)(d + of_nat n := m (a + of_nat n))) x"
      using offset_eq_iff[of n x d] Suc.prems by (auto simp: copied_def less_Suc_eq)
  qed
  with Suc show ?case by simp
qed

lemma copied_out_outside:
  assumes "\<And>i. i < k \<Longrightarrow> PTE2PA (pte_of m pt (dstva + of_nat i)) \<noteq> b"
  shows "same_frame b (copied_out m pt dstva src k) m"
  using assms
proof (induction k)
  case 0
  then show ?case by (simp add: copied_out_def)
next
  case (Suc k)
  have e: "copied_out m pt dstva src (Suc k) =
      (copied_out m pt dstva src k)(user_pa m pt (dstva + of_nat k) := m (src + of_nat k))"
    by (simp add: copied_out_def)
  have "same_frame b (copied_out m pt dstva src k) m" using Suc.prems by (intro Suc.IH) simp
  then show ?case
    unfolding e using Suc.prems[of k] user_pa_frame[of m pt "dstva + of_nat k"] by (auto simp: same_frame_def)
qed

lemma copied_out_step:
  assumes "k + n \<le> 2 ^ 64"
    and "\<And>i. i < n \<Longrightarrow> user_pa m pt (dstva + of_nat (k + i)) = d + of_nat i"
    and "\<And>i. i < n \<Longrightarrow> copied_out m pt dstva src k (src + of_nat (k + i)) = m (src + of_nat (k + i))"
  shows "copied (copied_out m pt dstva src k) d (src + of_nat k) n = copied_out m pt dstva src (k + n)"
proof -
  let ?m = "copied_out m pt dstva src k"
  have "copied ?m d (src + of_nat k) n = fold (\<lambda>i mm. mm(d + of_nat i := ?m (src + of_nat k + of_nat i))) [0..<n] ?m"
    using assms(1) by (intro copied_fold) simp
  also have "\<dots> = fold (\<lambda>i mm. mm(user_pa m pt (dstva + of_nat (k + i)) := m (src + of_nat (k + i)))) [0..<n] ?m"
    using assms(2,3) by (intro fold_cong) (auto simp: add.assoc)
  also have "\<dots> = fold (\<lambda>i mm. mm(user_pa m pt (dstva + of_nat i) := m (src + of_nat i))) [k..<k + n] ?m"
  proof -
    have up: "[k..<k + n] = map ((+) k) [0..<n]"
      by (rule nth_equalityI) simp_all
    show ?thesis unfolding up fold_map comp_def ..
  qed
  also have "\<dots> = copied_out m pt dstva src (k + n)"
    by (simp add: copied_out_def upt_add_eq_append[of 0 k n])
  finally show ?thesis .
qed

definition copyout_at :: "u64 \<Rightarrow> u64 \<Rightarrow> u64 \<Rightarrow> u64 \<Rightarrow> 'z kmem_st_scheme \<Rightarrow> nat \<Rightarrow> u64 \<times> u64 \<times> u64 \<Rightarrow> 'z kmem_st_scheme \<Rightarrow> bool" where
  "copyout_at pt dstva src len s k = (\<lambda>(dv, sr, l) t. k + unat l = unat len \<and> sr = src + of_nat k \<and>
     (l = 0 \<or> dv = dstva + of_nat k) \<and> t = s\<lparr>mem := copied_out (mem s) pt dstva src k\<rparr> \<and>
     (\<forall>i < k. user_writable (mem s) pt (dstva + of_nat i)))"

definition copyout_post :: "u64 \<Rightarrow> u64 \<Rightarrow> u64 \<Rightarrow> u64 \<Rightarrow> 'z kmem_st_scheme \<Rightarrow> int \<Rightarrow> 'z kmem_st_scheme \<Rightarrow> bool" where
  "copyout_post pt dstva src len s r t \<longleftrightarrow> (\<exists>k. t = s\<lparr>mem := copied_out (mem s) pt dstva src k\<rparr> \<and>
     (\<forall>i < k. user_writable (mem s) pt (dstva + of_nat i)) \<and>
     (r = 0 \<and> k = unat len \<or> r = -1 \<and> k < unat len \<and> \<not> user_writable (mem s) pt (dstva + of_nat k)))"

lemma copyout_step:
  assumes wf: "pt_wf e (mem s) pt" "copyout_sep (mem s) pt dstva src (unat len)" "unat src + unat len < 2 ^ 64"
    and at: "copyout_at pt dstva src len s k (dv, sr, l) t" "0 < unat l"
  shows "\<exists>x t'. copyout_body pt (dv, sr, l) t = Ok x t' \<and>
    (case x of Inl v' \<Rightarrow> (\<exists>k'. copyout_at pt dstva src len s k' v' t' \<and> unat (snd (snd v')) < unat l)
      | Inr r \<Rightarrow> copyout_post pt dstva src len s r t')"
proof -
  have a: "k + unat l = unat len" "sr = src + of_nat k" "dv = dstva + of_nat k"
    "t = s\<lparr>mem := copied_out (mem s) pt dstva src k\<rparr>" "\<forall>i < k. user_writable (mem s) pt (dstva + of_nat i)"
    using at by (auto simp: copyout_at_def)
  have l: "l > 0" using at(2) by (simp add: word_less_nat_alt)
  have same: "same_frame b (mem t) (mem s)" if "b \<in> pt_pages (mem s) pt" for b
    unfolding a(4) using that wf(2) a(1,5) by (auto simp: copyout_sep_def intro!: copied_out_outside)
  note o = pt_outside[OF wf(1) same]
  have fail: ?thesis if "copyout_body pt (dv, sr, l) t = Ok (Inr (-1)) t" "\<not> user_writable (mem s) pt dv"
  proof -
    have "copyout_post pt dstva src len s (-1) t"
      unfolding copyout_post_def using a at(2) that(2) by (intro exI[of _ k]) simp
    with that(1) show ?thesis by auto
  qed
  show ?thesis
  proof (cases "user_writable (mem s) pt dv")
    case False
    show ?thesis
    proof (rule fail[OF _ False])
      show "copyout_body pt (dv, sr, l) t = Ok (Inr (-1)) t"
      proof (cases "dv < MAXVA")
        case True
        then have m: "PGROUNDDOWN dv < MAXVA" using MAXVA_page by simp
        then have "\<not> PGROUNDDOWN dv \<ge> MAXVA" by simp
        moreover have "pte_of (mem t) pt (PGROUNDDOWN dv) = pte_of (mem s) pt dv" using o(3) pte_of_page[OF True] by simp
        ultimately show ?thesis
          using False True l walk_lookup[OF m, of pt t]
          by (auto simp: copyout_body_def Let_def bindk_def kop_simps loadk_def user_writable_def pte_of_def split: option.splits)
      next
        case False
        then have "PGROUNDDOWN dv \<ge> MAXVA" using MAXVA_page[of dv] by (simp add: not_less[symmetric])
        then show ?thesis using l by (simp add: copyout_body_def kop_simps)
      qed
    qed
  next
    case True
    let ?n = "chunk dv l" and ?d = "user_pa (mem s) pt dv" and ?e = "pte_of (mem s) pt dv"
    have dvm: "dv < MAXVA" and ok: "?e AND PTE_V \<noteq> 0" "?e AND PTE_U \<noteq> 0" "?e AND PTE_W \<noteq> 0"
      using True by (auto simp: user_writable_def)
    have m: "PGROUNDDOWN dv < MAXVA" using MAXVA_page dvm by simp
    have pe: "pte_of (mem t) pt (PGROUNDDOWN dv) = ?e" using o(3) pte_of_page[OF dvm] by simp
    then have "pte_of (mem t) pt (PGROUNDDOWN dv) \<noteq> 0" using ok by auto
    then obtain tb where tb: "pt_node (mem t) pt (va_path (PGROUNDDOWN dv)) = Some tb"
      "load64 (mem t) (pte_slot tb 0 (PGROUNDDOWN dv)) = ?e" using pte_of_node pe by metis
    have nz: "pte_slot tb 0 (PGROUNDDOWN dv) \<noteq> 0" by (rule pte_slot_nonzero[OF o(2) pt_path_va tb(1)])
    note c = chunk_props[OF at(2), where va = dv] and u = chunk_user[OF at(2) _ dvm]
    have kn: "k + unat ?n \<le> unat len" using c(2) a(1) by simp
    have wr: "user_writable (mem s) pt (dstva + of_nat (k + i)) \<and> user_pa (mem s) pt (dstva + of_nat (k + i)) = ?d + of_nat i"
      if "i < unat ?n" for i
      using u(1)[OF that] u(2,3)[OF that, of "mem s" pt] True a(3) by (simp add: user_writable_def add.assoc)
    have us: "unat sr = unat src + k" using a(1,2) at(2) wf(3) by (simp add: unat_add_of_nat)
    have nw: "unat ?d + unat ?n \<le> 2 ^ 64" unfolding user_pa_def by (rule chunk_nowrap[OF at(2) PTE2PA_aligned])
    have srcs: "mem t (src + of_nat (k + i)) = mem s (src + of_nat (k + i))" if "i < unat ?n" for i
    proof -
      have "PTE2PA (pte_of (mem s) pt (dstva + of_nat j)) \<noteq> PGROUNDDOWN (src + of_nat (k + i))" if "j < k" for j
      proof -
        have "j < unat len" "k + i < unat len" using that \<open>i < unat ?n\<close> kn by simp_all
        then show ?thesis using wf(2) a(5) that unfolding copyout_sep_def by metis
      qed
      from copied_out_outside[OF this] show ?thesis unfolding a(4) by (simp add: same_frame_def)
    qed
    have "memmove (mem t) ?d sr (unat ?n) = copied (mem t) ?d sr (unat ?n)"
      using nw us wf(3) kn by (intro memmove_copied) auto
    also have "\<dots> = copied_out (mem s) pt dstva src (k + unat ?n)"
      using copied_out_step[of k "unat ?n" "mem s" pt dstva ?d src] kn wr srcs a(2,4) wf(3) by simp
    finally have mv: "memmove (mem t) ?d sr (unat ?n) = copied_out (mem s) pt dstva src (k + unat ?n)" .
    let ?t' = "s\<lparr>mem := copied_out (mem s) pt dstva src (k + unat ?n)\<rparr>"
    let ?v' = "(PGROUNDDOWN dv + PGSIZE, sr + ?n, l - ?n)"
    have body: "copyout_body pt (dv, sr, l) t = Ok (Inl ?v') ?t'"
      using walk_lookup[OF m, of pt t] m tb nz ok l mv a(4)
      by (simp add: copyout_body_def Let_def bindk_def kop_simps memk_defs user_pa_def not_le[symmetric])
    have ul: "unat (l - ?n) = unat l - unat ?n" using c(2) by (simp add: unat_sub word_le_nat_alt)
    have "user_writable (mem s) pt (dstva + of_nat i)" if "i < k + unat ?n" for i
      using that a(5) wr[of "i - k"] by (cases "i < k") auto
    moreover have "l - ?n = 0 \<or> PGROUNDDOWN dv + PGSIZE = dstva + of_nat (k + unat ?n)"
      using c(4)
    proof
      assume "unat ?n = unat l"
      then have "?n = l" by (simp add: word_unat_eq_iff)
      then show ?thesis by simp
    next
      assume "dv + ?n = PGROUNDDOWN dv + PGSIZE"
      then show ?thesis using a(3) by (simp add: add.assoc)
    qed
    ultimately have "copyout_at pt dstva src len s (k + unat ?n) ?v' ?t'"
      using a(1,2) ul kn by (simp add: copyout_at_def)
    then show ?thesis using body c(1) at(2) ul by (auto intro!: exI[of _ "k + unat ?n"])
  qed
qed

lemma copyout_spec:
  assumes "pt_wf e (mem s) pt" "copyout_sep (mem s) pt dstva src (unat len)" "unat src + unat len < 2 ^ 64"
  shows "\<exists>r t. copyout pt dstva src len s = Ok r t \<and> copyout_post pt dstva src len s r t"
  unfolding copyout_def
proof (rule loopk_rule[where J = "\<lambda>v t. \<exists>k. copyout_at pt dstva src len s k v t" and variant = "\<lambda>v. unat (snd (snd v))"])
  show "\<exists>k. copyout_at pt dstva src len s k (dstva, src, len) s"
    by (intro exI[of _ 0]) (simp add: copyout_at_def copied_out_def)
next
  fix v t assume "\<exists>k. copyout_at pt dstva src len s k v t"
  moreover obtain dv sr l where v: "v = (dv, sr, l)" by (cases v)
  ultimately obtain k where at: "copyout_at pt dstva src len s k (dv, sr, l) t" by blast
  show "\<exists>x t'. copyout_body pt v t = Ok x t' \<and>
    (case x of Inl v' \<Rightarrow> (\<exists>k. copyout_at pt dstva src len s k v' t') \<and> unat (snd (snd v')) < unat (snd (snd v))
      | Inr r \<Rightarrow> copyout_post pt dstva src len s r t')"
  proof (cases "0 < unat l")
    case True
    from copyout_step[OF assms at True] show ?thesis unfolding v by (auto split: sum.splits)
  next
    case False
    then have "l = 0" by (simp add: word_unat_eq_iff)
    then have "copyout_body pt v t = Ok (Inr 0) t" by (simp add: v copyout_body_def kop_simps)
    moreover have "copyout_post pt dstva src len s 0 t"
      using at \<open>l = 0\<close> by (auto simp: copyout_at_def copyout_post_def)
    ultimately show ?thesis by auto
  qed
qed

section \<open>copyinstr\<close>

lemma copied_Suc_front:
  assumes "Suc n \<le> 2 ^ 64" "\<And>i. i \<le> n \<Longrightarrow> p + of_nat i \<noteq> dst"
  shows "copied (m(dst := m p)) (dst + 1) (p + 1) n = copied m dst p (Suc n)"
proof -
  have "copied (m(dst := m p)) (dst + 1) (p + 1) n =
      fold (\<lambda>i mm. mm(dst + 1 + of_nat i := (m(dst := m p)) (p + 1 + of_nat i))) [0..<n] (m(dst := m p))"
    using assms(1) by (intro copied_fold) simp
  also have "\<dots> = fold (\<lambda>i mm. mm(dst + of_nat (Suc i) := m (p + of_nat (Suc i)))) [0..<n] (m(dst := m p))"
  proof (intro fold_cong refl)
    fix i assume "i \<in> set [0..<n]"
    then show "(\<lambda>mm. mm(dst + 1 + of_nat i := (m(dst := m p)) (p + 1 + of_nat i))) =
        (\<lambda>mm. mm(dst + of_nat (Suc i) := m (p + of_nat (Suc i))))"
      using assms(2)[of "Suc i"] by (simp add: add.assoc)
  qed
  also have "\<dots> = fold (\<lambda>i mm. mm(dst + of_nat i := m (p + of_nat i))) (0 # map Suc [0..<n]) m"
    by (simp add: fold_map comp_def)
  also have "0 # map Suc [0..<n] = [0..<Suc n]" by (simp add: map_Suc_upt upt_conv_Cons)
  finally show ?thesis using copied_fold[OF assms(1), of m dst p] by (simp add: fun_upd_def)
qed

lemma copyinstr_page_full:
  assumes "n \<le> 2 ^ 64" "\<And>i j. \<lbrakk>i < n; j < n\<rbrakk> \<Longrightarrow> p + of_nat i \<noteq> dst + of_nat j"
    and "\<And>i. i < n \<Longrightarrow> m (p + of_nat i) \<noteq> 0"
  shows "copyinstr_page n m p dst mx = (False, copied m dst p n, dst + of_nat n, mx - of_nat n)"
  using assms
proof (induction n arbitrary: m p dst mx)
  case 0
  then show ?case by (simp add: copied_def)
next
  case (Suc n)
  let ?m = "m(dst := m p)"
  have ne: "p + of_nat i \<noteq> dst" if "i \<le> n" for i using Suc.prems(2)[of i 0] that by simp
  have step: "p + 1 + of_nat i = p + of_nat (Suc i)" "dst + 1 + of_nat i = dst + of_nat (Suc i)" for i
    by (simp_all add: algebra_simps)
  have "copyinstr_page n ?m (p + 1) (dst + 1) (mx - 1) =
      (False, copied ?m (dst + 1) (p + 1) n, dst + 1 + of_nat n, mx - 1 - of_nat n)"
  proof (rule Suc.IH)
    show "n \<le> 2 ^ 64" using Suc.prems(1) by simp
    show "p + 1 + of_nat i \<noteq> dst + 1 + of_nat j" if "i < n" "j < n" for i j
      unfolding step using Suc.prems(2)[of "Suc i" "Suc j"] that by simp
    show "?m (p + 1 + of_nat i) \<noteq> 0" if "i < n" for i
      unfolding step using Suc.prems(3)[of "Suc i"] ne[of "Suc i"] that by simp
  qed
  moreover have "m p \<noteq> 0" using Suc.prems(3)[of 0] by simp
  ultimately show ?case
    using copied_Suc_front[OF Suc.prems(1) ne, of m] by (simp add: algebra_simps)
qed

lemma copyinstr_page_nul:
  assumes "n \<le> 2 ^ 64" "\<And>i j. \<lbrakk>i < n; j < n\<rbrakk> \<Longrightarrow> p + of_nat i \<noteq> dst + of_nat j"
    and "k < n" "\<And>i. i < k \<Longrightarrow> m (p + of_nat i) \<noteq> 0" "m (p + of_nat k) = 0"
  shows "\<exists>d x. copyinstr_page n m p dst mx = (True, copied m dst p (Suc k), d, x)"
  using assms
proof (induction n arbitrary: m p dst mx k)
  case 0
  then show ?case by simp
next
  case (Suc n)
  let ?m = "m(dst := m p)"
  have ne: "p + of_nat i \<noteq> dst" if "i \<le> n" for i using Suc.prems(2)[of i 0] that by simp
  have step: "p + 1 + of_nat i = p + of_nat (Suc i)" "dst + 1 + of_nat i = dst + of_nat (Suc i)" for i
    by (simp_all add: algebra_simps)
  show ?case
  proof (cases k)
    case 0
    have "copied m dst p (Suc 0) = m(dst := m p)" using copied_fold[of "Suc 0" m dst p] by simp
    then show ?thesis using 0 Suc.prems(5) by (auto simp: fun_eq_iff)
  next
    case (Suc k')
    have "\<exists>d x. copyinstr_page n ?m (p + 1) (dst + 1) (mx - 1) = (True, copied ?m (dst + 1) (p + 1) (Suc k'), d, x)"
    proof (rule Suc.IH)
      show "n \<le> 2 ^ 64" "k' < n" using Suc.prems(1,3) Suc by simp_all
      show "p + 1 + of_nat i \<noteq> dst + 1 + of_nat j" if "i < n" "j < n" for i j
        unfolding step using Suc.prems(2)[of "Suc i" "Suc j"] that by simp
      show "?m (p + 1 + of_nat i) \<noteq> 0" if "i < k'" for i
        unfolding step using Suc.prems(4)[of "Suc i"] ne[of "Suc i"] that Suc \<open>k < Suc n\<close> by simp
      show "?m (p + 1 + of_nat k') = 0"
        unfolding step using Suc.prems(5) ne[of "Suc k'"] Suc \<open>k < Suc n\<close> by simp
    qed
    moreover have "m p \<noteq> 0" using Suc.prems(4)[of 0] Suc by simp
    moreover have "copied ?m (dst + 1) (p + 1) (Suc k') = copied m dst p (Suc (Suc k'))"
      using Suc.prems(1,3) Suc ne by (intro copied_Suc_front) simp_all
    ultimately show ?thesis using Suc by simp
  qed
qed

text \<open>The string bytes at a user address.\<close>

definition user_byte :: "memory \<Rightarrow> u64 \<Rightarrow> u64 \<Rightarrow> u8" where
  "user_byte m pt va = m (user_pa m pt va)"

definition copyinstr_at :: "u64 \<Rightarrow> u64 \<Rightarrow> u64 \<Rightarrow> u64 \<Rightarrow> 'z kmem_st_scheme \<Rightarrow> nat \<Rightarrow> u64 \<times> u64 \<times> u64 \<Rightarrow> 'z kmem_st_scheme \<Rightarrow> bool" where
  "copyinstr_at pt dst srcva mx s k v t \<longleftrightarrow> copyin_at pt dst srcva mx s k v t \<and>
     (\<forall>i < k. user_byte (mem s) pt (srcva + of_nat i) \<noteq> 0)"

definition copyinstr_post :: "u64 \<Rightarrow> u64 \<Rightarrow> u64 \<Rightarrow> u64 \<Rightarrow> 'z kmem_st_scheme \<Rightarrow> int \<Rightarrow> 'z kmem_st_scheme \<Rightarrow> bool" where
  "copyinstr_post pt dst srcva mx s r t \<longleftrightarrow> (\<exists>k.
     (\<forall>i < k. user_readable (mem s) pt (srcva + of_nat i) \<and> user_byte (mem s) pt (srcva + of_nat i) \<noteq> 0) \<and>
     (r = 0 \<and> k < unat mx \<and> user_readable (mem s) pt (srcva + of_nat k) \<and>
        user_byte (mem s) pt (srcva + of_nat k) = 0 \<and> t = s\<lparr>mem := copied_in (mem s) pt dst srcva (Suc k)\<rparr>
      \<or> r = -1 \<and> k \<le> unat mx \<and> (k = unat mx \<or> \<not> user_readable (mem s) pt (srcva + of_nat k)) \<and>
        t = s\<lparr>mem := copied_in (mem s) pt dst srcva k\<rparr>))"

lemma first_zero:
  fixes f :: "nat \<Rightarrow> u8"
  obtains "\<forall>i < n. f i \<noteq> 0" | k where "k < n" "f k = 0" "\<forall>i < k. f i \<noteq> 0"
proof (cases "\<forall>i < n. f i \<noteq> 0")
  case False
  then obtain i where i: "i < n" "f i = 0" by auto
  then have "\<exists>i. f i = 0" by blast
  then obtain k where k: "f k = 0" "\<forall>j < k. f j \<noteq> 0" using exists_least_iff[of "\<lambda>i. f i = 0"] by auto
  then have "k \<le> i" using i(2) not_less by blast
  then show thesis using k i(1) that(2)[of k] by simp
qed (use that in blast)

lemma all_lt_add: "(\<forall>i < k + n. P i) \<longleftrightarrow> (\<forall>i < k. P i) \<and> (\<forall>j < n. P (k + j))" for n k :: nat
proof (intro iffI allI impI; (elim conjE)?)
  fix i assume h: "\<forall>i < k. P i" "\<forall>j < n. P (k + j)" "i < k + n"
  show "P i"
  proof (cases "i < k")
    case False
    then have "i = k + (i - k)" "i - k < n" using h(3) by simp_all
    then show ?thesis using h(2) by metis
  qed (use h in blast)
qed auto

text \<open>Each loop iteration sees the source bytes as they were at the start.\<close>

lemma copyin_source:
  assumes "copyin_sep m pt dst srcva len" "k \<le> len" "j < len" "user_readable m pt (srcva + of_nat j)"
  shows "copied_in m pt dst srcva k (user_pa m pt (srcva + of_nat j)) = user_byte m pt (srcva + of_nat j)"
proof -
  have "PGROUNDDOWN (dst + of_nat i) \<noteq> PTE2PA (pte_of m pt (srcva + of_nat j))" if "i < k" for i
  proof -
    have "i < len" using that assms(2) by simp
    then show ?thesis using assms(1,3,4) unfolding copyin_sep_def by blast
  qed
  from copied_in_outside[OF this, of k m pt srcva] show ?thesis
    using user_pa_frame[of m pt "srcva + of_nat j"] by (simp add: same_frame_def user_byte_def)
qed

lemma copyinstr_step:
  assumes wf: "pt_wf e (mem s) pt" "copyin_sep (mem s) pt dst srcva (unat mx)" "unat dst + unat mx \<le> 2 ^ 64"
    and at: "copyinstr_at pt dst srcva mx s k (d, sv, l) t" "0 < unat l"
  shows "\<exists>x t'. copyinstr_body pt (d, sv, l) t = Ok x t' \<and>
    (case x of Inl v' \<Rightarrow> (\<exists>k'. copyinstr_at pt dst srcva mx s k' v' t' \<and> unat (snd (snd v')) < unat l)
      | Inr r \<Rightarrow> copyinstr_post pt dst srcva mx s r t')"
proof -
  have at1: "copyin_at pt dst srcva mx s k (d, sv, l) t"
    and nz: "\<forall>i < k. user_byte (mem s) pt (srcva + of_nat i) \<noteq> 0"
    using at(1) by (simp_all add: copyinstr_at_def)
  have a: "k + unat l = unat mx" "d = dst + of_nat k" "sv = srcva + of_nat k"
    "t = s\<lparr>mem := copied_in (mem s) pt dst srcva k\<rparr>" "\<forall>i < k. user_readable (mem s) pt (srcva + of_nat i)"
    using at1 at(2) by (auto simp: copyin_at_def)
  have l: "l > 0" using at(2) by (simp add: word_less_nat_alt)
  note w = copyin_walkaddr[OF wf(1,2) _ a(4), where sv = sv]
  show ?thesis
  proof (cases "user_readable (mem s) pt sv")
    case False
    have "copyinstr_body pt (d, sv, l) t = Ok (Inr (-1)) t"
      using w a(1) False l by (simp add: copyinstr_body_def Let_def bindk_def kop_simps)
    moreover have "copyinstr_post pt dst srcva mx s (-1) t"
      unfolding copyinstr_post_def using a nz False by (intro exI[of _ k]) simp
    ultimately show ?thesis by auto
  next
    case True
    let ?n = "chunk sv l" and ?p = "user_pa (mem s) pt sv"
    have svm: "sv < MAXVA" and pnz: "PTE2PA (pte_of (mem s) pt sv) \<noteq> 0" using True by (auto simp: user_readable_def)
    note c = chunk_props[OF at(2), where va = sv] and u = chunk_user[OF at(2) _ svm]
    have kn: "k + unat ?n \<le> unat mx" using c(2) a(1) by simp
    have rd: "user_readable (mem s) pt (srcva + of_nat (k + i)) \<and> user_pa (mem s) pt (srcva + of_nat (k + i)) = ?p + of_nat i"
      if "i < unat ?n" for i
      using u(1)[OF that] u(2,3)[OF that, of "mem s" pt] True a(3) by (simp add: user_readable_def add.assoc)
    have bt: "mem t (?p + of_nat i) = user_byte (mem s) pt (srcva + of_nat (k + i))" if "i < unat ?n" for i
      using copyin_source[OF wf(2), of k "k + i"] rd[OF that] that kn a(4) by simp
    have sep: "?p + of_nat i \<noteq> d + of_nat j" if "i < unat ?n" "j < unat ?n" for i j
    proof -
      have "k + j < unat mx" "k + i < unat mx" using that kn by simp_all
      then have "PGROUNDDOWN (dst + of_nat (k + j)) \<noteq> PTE2PA (pte_of (mem s) pt (srcva + of_nat (k + i)))"
        using wf(2) rd[OF that(1)] unfolding copyin_sep_def by blast
      then show ?thesis
        using user_pa_frame[of "mem s" pt "srcva + of_nat (k + i)"] rd[OF that(1)] a(2) by (auto simp: add.assoc)
    qed
    have ci: "copied (mem t) d ?p j = copied_in (mem s) pt dst srcva (k + j)" if "j \<le> unat ?n" for j
      using copied_in_step[of k j "unat mx" dst "mem s" pt srcva ?p] that kn wf(2,3) rd a(2,4) by simp
    have run: "copyinstr_body pt (d, sv, l) t =
        (let (g, m, d', x) = copyinstr_page (unat ?n) (mem t) ?p d l in
         if g then Ok (Inr 0) (s\<lparr>mem := m\<rparr>) else Ok (Inl (d', PGROUNDDOWN sv + PGSIZE, x)) (s\<lparr>mem := m\<rparr>))"
      using w a(1) True pnz l a(4)
      by (simp add: copyinstr_body_def Let_def bindk_def kop_simps user_pa_def split: prod.splits)
    have n64: "unat ?n \<le> 2 ^ 64" using kn wf(3) by simp
    show ?thesis
    proof (rule first_zero[of "unat ?n" "\<lambda>i. mem t (?p + of_nat i)"])
      assume all: "\<forall>i < unat ?n. mem t (?p + of_nat i) \<noteq> 0"
      let ?t' = "s\<lparr>mem := copied_in (mem s) pt dst srcva (k + unat ?n)\<rparr>"
      let ?v' = "(d + ?n, PGROUNDDOWN sv + PGSIZE, l - ?n)"
      have body: "copyinstr_body pt (d, sv, l) t = Ok (Inl ?v') ?t'"
        using run copyinstr_page_full[OF n64 sep, of "mem t" l] all ci[of "unat ?n"] by simp
      have ul: "unat (l - ?n) = unat l - unat ?n" using c(2) by (simp add: unat_sub word_le_nat_alt)
      have "\<forall>i < k + unat ?n. user_readable (mem s) pt (srcva + of_nat i)"
        unfolding all_lt_add using a(5) rd by blast
      moreover have "\<forall>i < k + unat ?n. user_byte (mem s) pt (srcva + of_nat i) \<noteq> 0"
        unfolding all_lt_add using nz bt all by metis
      moreover have "l - ?n = 0 \<or> PGROUNDDOWN sv + PGSIZE = srcva + of_nat (k + unat ?n)"
        using c(4)
      proof
        assume "unat ?n = unat l"
        then have "?n = l" by (simp add: word_unat_eq_iff)
        then show ?thesis by simp
      next
        assume "sv + ?n = PGROUNDDOWN sv + PGSIZE"
        then show ?thesis using a(3) by (simp add: add.assoc)
      qed
      ultimately have "copyinstr_at pt dst srcva mx s (k + unat ?n) ?v' ?t'"
        using a(1,2) ul kn by (simp add: copyinstr_at_def copyin_at_def)
      then show ?thesis using body c(1) at(2) ul by (auto intro!: exI[of _ "k + unat ?n"])
    next
      fix j assume j: "j < unat ?n" "mem t (?p + of_nat j) = 0" "\<forall>i < j. mem t (?p + of_nat i) \<noteq> 0"
      let ?t' = "s\<lparr>mem := copied_in (mem s) pt dst srcva (Suc (k + j))\<rparr>"
      have "copyinstr_body pt (d, sv, l) t = Ok (Inr 0) ?t'"
        using run copyinstr_page_nul[OF n64 sep j(1), of "mem t" l] j ci[of "Suc j"] by auto
      moreover have "\<forall>i < k + j. user_readable (mem s) pt (srcva + of_nat i) \<and> user_byte (mem s) pt (srcva + of_nat i) \<noteq> 0"
        unfolding all_lt_add
      proof (intro conjI allI impI)
        fix i assume "i < j"
        then have i: "i < unat ?n" "mem t (?p + of_nat i) \<noteq> 0" using j(1,3) by simp_all
        then show "user_readable (mem s) pt (srcva + of_nat (k + i))" "user_byte (mem s) pt (srcva + of_nat (k + i)) \<noteq> 0"
          using rd[OF i(1)] bt[OF i(1)] by metis+
      qed (use a(5) nz in blast)+
      then have "copyinstr_post pt dst srcva mx s 0 ?t'"
        unfolding copyinstr_post_def using rd[OF j(1)] bt[OF j(1)] j kn by (intro exI[of _ "k + j"]) simp
      ultimately show ?thesis by auto
    qed
  qed
qed

lemma copyinstr_spec:
  assumes "pt_wf e (mem s) pt" "copyin_sep (mem s) pt dst srcva (unat mx)" "unat dst + unat mx \<le> 2 ^ 64"
  shows "\<exists>r t. copyinstr pt dst srcva mx s = Ok r t \<and> copyinstr_post pt dst srcva mx s r t"
  unfolding copyinstr_def
proof (rule loopk_rule[where J = "\<lambda>v t. \<exists>k. copyinstr_at pt dst srcva mx s k v t" and variant = "\<lambda>v. unat (snd (snd v))"])
  show "\<exists>k. copyinstr_at pt dst srcva mx s k (dst, srcva, mx) s"
    by (intro exI[of _ 0]) (simp add: copyinstr_at_def copyin_at_def copied_in_def)
next
  fix v t assume "\<exists>k. copyinstr_at pt dst srcva mx s k v t"
  moreover obtain d sv l where v: "v = (d, sv, l)" by (cases v)
  ultimately obtain k where at: "copyinstr_at pt dst srcva mx s k (d, sv, l) t" by blast
  show "\<exists>x t'. copyinstr_body pt v t = Ok x t' \<and>
    (case x of Inl v' \<Rightarrow> (\<exists>k. copyinstr_at pt dst srcva mx s k v' t') \<and> unat (snd (snd v')) < unat (snd (snd v))
      | Inr r \<Rightarrow> copyinstr_post pt dst srcva mx s r t')"
  proof (cases "0 < unat l")
    case True
    from copyinstr_step[OF assms at True] show ?thesis unfolding v by (auto split: sum.splits)
  next
    case False
    then have "l = 0" by (simp add: word_unat_eq_iff)
    then have "copyinstr_body pt v t = Ok (Inr (-1)) t" by (simp add: v copyinstr_body_def kop_simps)
    moreover have "copyinstr_post pt dst srcva mx s (-1) t"
      using at \<open>l = 0\<close> by (auto simp: copyinstr_at_def copyin_at_def copyinstr_post_def)
    ultimately show ?thesis by auto
  qed
qed

section \<open>Properties\<close>

text \<open>
  C14: \<open>copyin\<close> is a byte-wise copy from user space. For a kernel buffer that shares no frame with
  the page table or the user range, it returns 0 exactly if every byte of the range is mapped
  and accessible to the user; then byte \<open>i\<close> of the buffer is the byte the page table gives for
  \<open>srcva + i\<close>. Otherwise it returns -1. Outside the buffer nothing changes.
\<close>

theorem copyin_correct:
  assumes "pt_wf e (mem s) pt" "copyin_sep (mem s) pt dst srcva (unat len)" "unat dst + unat len \<le> 2 ^ 64"
  shows "\<exists>r m'. copyin pt dst srcva len s = Ok r (s\<lparr>mem := m'\<rparr>) \<and>
    r = (if \<forall>i < unat len. user_readable (mem s) pt (srcva + of_nat i) then 0 else -1) \<and>
    (r = 0 \<longrightarrow> (\<forall>i < unat len. m' (dst + of_nat i) = user_byte (mem s) pt (srcva + of_nat i))) \<and>
    (\<forall>x. \<not> unat (x - dst) < unat len \<longrightarrow> m' x = mem s x)"
proof -
  obtain r t k where t: "copyin pt dst srcva len s = Ok r t" "t = s\<lparr>mem := copied_in (mem s) pt dst srcva k\<rparr>"
    "\<forall>i < k. user_readable (mem s) pt (srcva + of_nat i)"
    "r = 0 \<and> k = unat len \<or> r = -1 \<and> k < unat len \<and> \<not> user_readable (mem s) pt (srcva + of_nat k)"
    using copyin_spec[OF assms] unfolding copyin_post_def by blast
  have small: "unat (of_nat i :: u64) = i" if "i < unat len" for i
    by (rule unat_of_nat_small[OF less_trans[OF that unat_lt_64]])
  show ?thesis
  proof (intro exI[of _ r] exI[of _ "copied_in (mem s) pt dst srcva k"] conjI)
    show "copyin pt dst srcva len s = Ok r (s\<lparr>mem := copied_in (mem s) pt dst srcva k\<rparr>)" using t(1,2) by simp
    show "r = (if \<forall>i < unat len. user_readable (mem s) pt (srcva + of_nat i) then 0 else -1)"
      using t(3,4) by auto
    show "r = 0 \<longrightarrow> (\<forall>i < unat len. copied_in (mem s) pt dst srcva k (dst + of_nat i) = user_byte (mem s) pt (srcva + of_nat i))"
      using t(4) small by (auto simp: copied_in_def user_byte_def)
    show "\<forall>x. \<not> unat (x - dst) < unat len \<longrightarrow> copied_in (mem s) pt dst srcva k x = mem s x"
      using t(4) by (auto simp: copied_in_def)
  qed
qed

text \<open>The page that \<open>one_page\<close> (theory Walk) maps: every byte of it is accessible, and a kernel buffer is separate from it.\<close>

lemma one_page_pte:
  assumes "unat (va - 0x1000) < 4096"
  shows "pte_of one_page 0x80010000 va = 0x20004C17" "va < MAXVA" "PTE2PA 0x20004C17 = 0x80013000"
proof -
  show "PTE2PA 0x20004C17 = 0x80013000" by (simp add: PTE2PA_def)
  have va: "va = 0x1000 + of_nat (unat (va - 0x1000))" by simp
  have pg: "PGROUNDDOWN va = 0x1000"
    by (subst va, rule frame_offset) (use assms in \<open>simp_all add: pg_aligned_def\<close>)
  then show "va < MAXVA" using MAXVA_page[of va] by simp
  show "pte_of one_page 0x80010000 va = 0x20004C17" using one_page_entry(1) pte_of_page[of va one_page "0x80010000"] pg MAXVA_page[of va] by simp
qed

lemma one_page_user:
  assumes "unat (va - 0x1000) < 4096"
  shows "user_readable one_page 0x80010000 va" "user_writable one_page 0x80010000 va"
    "user_pa one_page 0x80010000 va = 0x80013000 + (va - 0x1000)"
proof -
  note p = one_page_pte[OF assms]
  show "user_readable one_page 0x80010000 va" "user_writable one_page 0x80010000 va"
    using p by (simp_all add: user_readable_def user_writable_def)
  have "PGROUNDDOWN (0x1000 + (va - 0x1000)) = 0x1000" using assms by (intro frame_offset) (simp_all add: pg_aligned_def)
  then show "user_pa one_page 0x80010000 va = 0x80013000 + (va - 0x1000)" using p by (simp add: user_pa_def)
qed

abbreviation page_state :: kmem_st where
  "page_state \<equiv> boot_kmem\<lparr>mem := one_page\<rparr>"

lemma page_offset: "i < 8 \<Longrightarrow> unat (0x1000 + of_nat i - 0x1000 :: u64) < 4096"
  by (simp add: unat_of_nat_small)

lemma one_page_sep:
  assumes "n \<le> 8"
  shows "copyin_sep one_page 0x80010000 0x80020000 0x1000 n" "copyout_sep one_page 0x80010000 0x1000 0x80020000 n"
proof -
  have f: "PGROUNDDOWN (0x80020000 + of_nat i) = 0x80020000" if "i < n" for i
    using that assms by (intro frame_offset) (simp_all add: pg_aligned_def unat_of_nat_small)
  have p: "pte_of one_page 0x80010000 (0x1000 + of_nat i) = 0x20004C17" if "i < n" for i
    using one_page_pte(1)[OF page_offset[of i]] that assms by simp
  have e: "PTE2PA 0x20004C17 = 0x80013000" by (simp add: PTE2PA_def)
  show "copyin_sep one_page 0x80010000 0x80020000 0x1000 n" "copyout_sep one_page 0x80010000 0x1000 0x80020000 n"
    using f p e by (auto simp: copyin_sep_def copyout_sep_def one_page_pages)
qed

theorem copyin_correct_witness:
  "\<exists>m'. copyin 0x80010000 0x80020000 0x1000 8 page_state = Ok 0 (page_state\<lparr>mem := m'\<rparr>) \<and>
     m' 0x80020000 = 104 \<and> m' 0x80020001 = 105"
proof -
  have w: "pt_wf 0x80010000 (mem page_state) 0x80010000" using one_page_wf by simp
  have u: "user_readable one_page 0x80010000 (0x1000 + of_nat i)" if "i < 8" for i
    using one_page_user(1)[OF page_offset[OF that]] .
  obtain m' where m: "copyin 0x80010000 0x80020000 0x1000 8 page_state = Ok 0 (page_state\<lparr>mem := m'\<rparr>)"
    "\<forall>i < 8. m' (0x80020000 + of_nat i) = user_byte one_page 0x80010000 (0x1000 + of_nat i)"
    using copyin_correct[OF w, of "0x80020000" "0x1000" 8] one_page_sep(1)[of 8] u by auto
  have "user_byte one_page 0x80010000 (0x1000 + of_nat 0) = 104" "user_byte one_page 0x80010000 (0x1000 + of_nat 1) = 105"
    using one_page_user(3)[of "0x1000"] one_page_user(3)[of "0x1001"] one_page_bytes by (simp_all add: user_byte_def)
  then show ?thesis using m(1) m(2)[rule_format, of 0] m(2)[rule_format, of 1] by auto
qed

text \<open>
  C13: \<open>copyout\<close> is a byte-wise copy to user space. If the frames of the user range contain neither
  the page table nor the source buffer, it returns 0 exactly if every byte of the range is
  mapped, accessible to the user and writable; memory is then as after storing the bytes one by
  one through the address translation. Otherwise it returns -1, after storing exactly the bytes
  before the first inaccessible one.
\<close>

theorem copyout_correct:
  assumes "pt_wf e (mem s) pt" "copyout_sep (mem s) pt dstva src (unat len)" "unat src + unat len < 2 ^ 64"
  shows "\<exists>r k. copyout pt dstva src len s = Ok r (s\<lparr>mem := copied_out (mem s) pt dstva src k\<rparr>) \<and>
    (\<forall>i < k. user_writable (mem s) pt (dstva + of_nat i)) \<and>
    (if \<forall>i < unat len. user_writable (mem s) pt (dstva + of_nat i) then r = 0 \<and> k = unat len
     else r = -1 \<and> k < unat len \<and> \<not> user_writable (mem s) pt (dstva + of_nat k))"
  using copyout_spec[OF assms] unfolding copyout_post_def by auto

theorem copyout_correct_witness:
  "(\<exists>s'. copyout 0x80010000 0x1000 0x80020000 1 page_state = Ok 0 s' \<and> mem page_state 0x80013000 = 104 \<and> mem s' 0x80013000 = 0) \<and>
   (\<exists>s'. copyout 0x80010000 0x3000 0x80020000 1 page_state = Ok (-1) s')"
proof -
  have w: "pt_wf 0x80010000 (mem page_state) 0x80010000" using one_page_wf by simp
  have p: "user_writable one_page 0x80010000 0x1000" "user_pa one_page 0x80010000 0x1000 = 0x80013000"
    using one_page_user(2,3)[of "0x1000"] by simp_all
  obtain k where "copyout 0x80010000 0x1000 0x80020000 1 page_state =
      Ok 0 (page_state\<lparr>mem := copied_out one_page 0x80010000 0x1000 0x80020000 1\<rparr>)"
    using copyout_correct[OF w, of "0x1000" "0x80020000" 1] one_page_sep(2)[of 1] p(1) by auto
  moreover have "copied_out one_page 0x80010000 0x1000 0x80020000 1 0x80013000 = 0"
    using p(2) one_page_bytes by (simp add: copied_out_def)
  moreover have n: "\<not> user_writable one_page 0x80010000 0x3000" using one_page_entry(3) by (simp add: user_writable_def)
  then have "copyout_sep one_page 0x80010000 0x3000 0x80020000 1" by (simp add: copyout_sep_def)
  with copyout_correct[OF w, of "0x3000" "0x80020000" 1] n
  have "\<exists>s'. copyout 0x80010000 0x3000 0x80020000 1 page_state = Ok (-1) s'" by auto
  ultimately show ?thesis using one_page_bytes by simp
qed

text \<open>
  C28: \<open>copyinstr\<close> reads a NUL-terminated user string. It returns 0 exactly if a NUL is found
  within the first \<open>max\<close> bytes and all bytes up to it are accessible; the buffer then holds the
  string and its NUL. Otherwise it returns -1. It never writes outside the \<open>max\<close> bytes of the
  buffer.
\<close>

theorem copyinstr_correct:
  assumes "pt_wf e (mem s) pt" "copyin_sep (mem s) pt dst srcva (unat mx)" "unat dst + unat mx \<le> 2 ^ 64"
  shows "\<exists>r k m'. copyinstr pt dst srcva mx s = Ok r (s\<lparr>mem := m'\<rparr>) \<and>
    (\<forall>i < k. user_readable (mem s) pt (srcva + of_nat i) \<and> user_byte (mem s) pt (srcva + of_nat i) \<noteq> 0) \<and>
    (if k < unat mx \<and> user_readable (mem s) pt (srcva + of_nat k) \<and> user_byte (mem s) pt (srcva + of_nat k) = 0
     then r = 0 \<and> (\<forall>i \<le> k. m' (dst + of_nat i) = user_byte (mem s) pt (srcva + of_nat i))
     else r = -1 \<and> (k = unat mx \<or> \<not> user_readable (mem s) pt (srcva + of_nat k))) \<and>
    (\<forall>x. \<not> unat (x - dst) < unat mx \<longrightarrow> m' x = mem s x)"
proof -
  obtain r t k where t: "copyinstr pt dst srcva mx s = Ok r t"
    "\<forall>i < k. user_readable (mem s) pt (srcva + of_nat i) \<and> user_byte (mem s) pt (srcva + of_nat i) \<noteq> 0"
    "r = 0 \<and> k < unat mx \<and> user_readable (mem s) pt (srcva + of_nat k) \<and>
        user_byte (mem s) pt (srcva + of_nat k) = 0 \<and> t = s\<lparr>mem := copied_in (mem s) pt dst srcva (Suc k)\<rparr>
      \<or> r = -1 \<and> k \<le> unat mx \<and> (k = unat mx \<or> \<not> user_readable (mem s) pt (srcva + of_nat k)) \<and>
        t = s\<lparr>mem := copied_in (mem s) pt dst srcva k\<rparr>"
    using copyinstr_spec[OF assms] unfolding copyinstr_post_def by blast
  have small: "unat (of_nat i :: u64) = i" if "i < unat mx" for i
    by (rule unat_of_nat_small[OF less_trans[OF that unat_lt_64]])
  show ?thesis using t(3)
  proof
    assume "r = 0 \<and> k < unat mx \<and> user_readable (mem s) pt (srcva + of_nat k) \<and>
        user_byte (mem s) pt (srcva + of_nat k) = 0 \<and> t = s\<lparr>mem := copied_in (mem s) pt dst srcva (Suc k)\<rparr>"
    then have h: "r = 0" "k < unat mx" "user_readable (mem s) pt (srcva + of_nat k)"
      "user_byte (mem s) pt (srcva + of_nat k) = 0" "t = s\<lparr>mem := copied_in (mem s) pt dst srcva (Suc k)\<rparr>"
      by auto
    then show ?thesis
      using t(1,2) small
      by (intro exI[of _ r] exI[of _ k] exI[of _ "copied_in (mem s) pt dst srcva (Suc k)"])
        (auto simp: copied_in_def user_byte_def)
  next
    assume "r = -1 \<and> k \<le> unat mx \<and> (k = unat mx \<or> \<not> user_readable (mem s) pt (srcva + of_nat k)) \<and>
      t = s\<lparr>mem := copied_in (mem s) pt dst srcva k\<rparr>"
    then show ?thesis
      using t(1,2) by (intro exI[of _ r] exI[of _ k] exI[of _ "copied_in (mem s) pt dst srcva k"])
        (auto simp: copied_in_def)
  qed
qed

theorem copyinstr_correct_witness:
  "\<exists>m'. copyinstr 0x80010000 0x80020000 0x1000 8 page_state = Ok 0 (page_state\<lparr>mem := m'\<rparr>) \<and>
     m' 0x80020000 = 104 \<and> m' 0x80020001 = 105 \<and> m' 0x80020002 = 0"
proof -
  have w: "pt_wf 0x80010000 (mem page_state) 0x80010000" using one_page_wf by simp
  have u: "user_readable one_page 0x80010000 (0x1000 + of_nat i)" if "i < 8" for i
    using one_page_user(1)[OF page_offset[OF that]] .
  have b: "user_byte one_page 0x80010000 (0x1000 + of_nat 0) = 104" "user_byte one_page 0x80010000 (0x1000 + of_nat 1) = 105"
    "user_byte one_page 0x80010000 (0x1000 + of_nat 2) = 0"
    using one_page_user(3)[of "0x1000"] one_page_user(3)[of "0x1001"] one_page_user(3)[of "0x1002"] one_page_bytes
    by (simp_all add: user_byte_def)
  have e: "mem page_state = one_page" "unat (8 :: u64) = 8" by simp_all
  obtain r k m' where c: "copyinstr 0x80010000 0x80020000 0x1000 8 page_state = Ok r (page_state\<lparr>mem := m'\<rparr>)"
    "\<forall>i < k. user_byte one_page 0x80010000 (0x1000 + of_nat i) \<noteq> 0"
    "if k < 8 \<and> user_readable one_page 0x80010000 (0x1000 + of_nat k) \<and> user_byte one_page 0x80010000 (0x1000 + of_nat k) = 0
     then r = 0 \<and> (\<forall>i \<le> k. m' (0x80020000 + of_nat i) = user_byte one_page 0x80010000 (0x1000 + of_nat i))
     else r = -1 \<and> (k = 8 \<or> \<not> user_readable one_page 0x80010000 (0x1000 + of_nat k))"
    using copyinstr_correct[OF w, of "0x80020000" "0x1000" 8, unfolded e] one_page_sep(1)[of 8] by auto
  have "k \<le> 2" using c(2) b(3) not_le by blast
  then have "k = 2" using c(3) u[of k] b by (cases "k = 0"; cases "k = 1") (auto split: if_splits)
  with c(1,3) u[of 2] b have "r = 0" "\<forall>i \<le> 2. m' (0x80020000 + of_nat i) = user_byte one_page 0x80010000 (0x1000 + of_nat i)"
    by (auto split: if_splits)
  from this(2)[rule_format, of 0] this(2)[rule_format, of 1] this(2)[rule_format, of 2] b c(1) \<open>r = 0\<close>
  show ?thesis by auto
qed

end
