(* ===== verification/AddrSpace.thy ===== *)
theory AddrSpace
  imports Uvmcopy Ucopy
begin

text \<open>
  The life of a user address space: creation (\<open>uvmcreate\<close>), growth (\<open>uvmalloc\<close>), duplication
  (\<open>uvmcopy\<close>) and destruction (\<open>uvmfree\<close>), as properties of the operations of theory Vm over the
  allocator. They rest on the specifications of theories Uvm, Freewalk and Uvmcopy.
\<close>

section \<open>Creation\<close>

lemma uvmcreate_spec:
  assumes "kmem_pool s fs"
  shows "case fs of
      [] \<Rightarrow> \<exists>s'. uvmcreate s = Ok 0 s' \<and> kmem_pool s' [] \<and> kmem_frame s s' \<and> (\<forall>b. same_frame b (mem s') (mem s))
    | pt # ts \<Rightarrow> \<exists>s'. uvmcreate s = Ok pt s' \<and> pt_own pt ts s' \<and> pt_pages (mem s') pt = {pt} \<and>
        kmem_frame s s' \<and> (\<forall>va. pte_of (mem s') pt va = 0) \<and> (\<forall>b. b \<noteq> pt \<longrightarrow> same_frame b (mem s') (mem s))"
proof (cases fs)
  case Nil
  with assms pages.alloc_empty[of s] show ?thesis
    by (auto simp: uvmcreate_def bindk_def kop_simps kmem_keeps_def)
next
  case (Cons pt ts)
  obtain s1 where s1: "kalloc s = Ok pt s1" "kmem_pool s1 ts" "kmem_keeps {pt} s s1"
    using pages.alloc_pop[of s pt ts] assms Cons by blast
  have pt: "ram_page (kend s) pt" "pt \<notin> set ts" "pt \<noteq> 0"
    using assms Cons by (auto simp: kmem_pool_def kmem_inv_def ram_page_def)
  define s' where "s' = s1\<lparr>mem := memset (mem s1) pt 0 4096\<rparr>"
  have k: "kmem_frame s s1" using s1(3) by (simp add: kmem_keeps_def)
  have f: "kmem_frame s1 s'" unfolding s'_def by (rule kmem_frameI)
  have o: "same_frame b (mem s') (mem s1)" if "b \<noteq> pt" for b
    using memset_other_frame[OF ram_page_aligned[OF pt(1)] that] by (simp add: s'_def)
  have pool: "kmem_pool s' ts" using pt(2) by (intro kmem_pool_mem[OF s1(2) f] o) (auto simp: s'_def)
  have e: "kend s' = kend s" "KERNBASE \<le> kend s'"
    using kmem_frameD(4)[OF k] s1(2) by (simp_all add: s'_def kmem_pool_def kmem_inv_def)
  have "load64 (mem s') (slot pt i) = 0" if "i < 512" for i
    using load64_memset_0[OF ram_page_aligned[OF pt(1)] that] by (simp add: s'_def)
  note p = pt_empty[OF e(2) _ this, unfolded e(1), OF pt(1)]
  have "uvmcreate s = Ok pt s'"
    using s1(1) pt(3) by (simp add: uvmcreate_def bindk_def memk_defs kop_simps s'_def)
  moreover have "same_frame b (mem s') (mem s)" if "b \<noteq> pt" for b
    using same_frame_trans[OF o[OF that]] s1(3) that by (simp add: kmem_keeps_def)
  ultimately show ?thesis
    using Cons p pool pt(2) e(1) kmem_frame_trans[OF k f] by (auto simp: pt_own_def)
qed

lemma no_mapping: "leaf_range m pt a 0" "range_frames m pt a 0 = []"
  by (simp_all add: leaf_range_def range_frames_def)

section \<open>Properties\<close>

text \<open>
  C26: \<open>mappages\<close> installs exactly the requested translations. For an aligned address and a size
  of \<open>n > 0\<close> pages below \<open>MAXVA\<close> that are not mapped yet, it returns 0 and maps page \<open>i\<close> of the
  range to \<open>pa + i * PGSIZE\<close> with the given permissions, leaving every other translation alone; or
  it returns -1, which happens only when the free list is exhausted and had fewer than two pages
  per page of the range, having mapped a prefix of the range. The pages it took from the free list are its new table frames.
\<close>

theorem mappages_correct:
  assumes "pg_aligned va" "0 < n" "vpn va + n \<le> 67108864" "pt_own pt fs s" "unmapped_range pt va n (mem s)"
  shows "\<exists>r s' fs' k. mappages pt va (4096 * of_nat n) pa perm s = Ok r s' \<and>
    (r = 0 \<and> k = n \<or> r = -1 \<and> k < n \<and> fs' = [] \<and> length fs < 2 * n) \<and>
    (\<forall>vb < MAXVA. pte_of (mem s') pt vb =
       (if vpn va \<le> vpn vb \<and> vpn vb < vpn va + k
        then PA2PTE (pa + 4096 * of_nat (vpn vb - vpn va)) OR perm OR PTE_V else pte_of (mem s) pt vb)) \<and>
    pt_own pt fs' s' \<and> set fs \<union> pt_pages (mem s) pt = set fs' \<union> pt_pages (mem s') pt \<and>
    (\<forall>b. b \<notin> pt_pages (mem s') pt \<longrightarrow> same_frame b (mem s') (mem s))"
proof -
  obtain r s' fs' k where m: "mappages pt va (4096 * of_nat n) pa perm s = Ok r s'" "pt_ext pt fs s s' fs'"
    "mapped pt va pa perm k (mem s) (mem s')" "r = 0 \<and> k = n \<or> r = -1 \<and> k < n \<and> fs' = [] \<and> length fs < 2 * n"
    using mappages_spec[OF assms] by blast
  moreover from m(2) have "set fs \<union> pt_pages (mem s) pt = set fs' \<union> pt_pages (mem s') pt"
    by (auto simp: pt_ext_def)
  ultimately show ?thesis unfolding mapped_def pt_ext_def by blast
qed

theorem mappages_correct_witness:
  "\<exists>s :: kmem_st. \<exists>s'. pt_own 0x80010000 demo_pages s \<and>
     mappages 0x80010000 0x1000 0x1000 0x80020000 (PTE_R OR PTE_U) s = Ok 0 s' \<and>
     pte_of (mem s') 0x80010000 0x1000 = 0x20008013 \<and> pte_of (mem s') 0x80010000 0x2000 = 0"
proof -
  obtain s :: kmem_st where s: "pt_own 0x80010000 demo_pages s" "kend s = 0x80010000"
    "\<forall>va. pte_of (mem s) 0x80010000 va = 0" "pt_pages (mem s) 0x80010000 = {0x80010000}"
    using demo_pt by blast
  have "unmapped_range 0x80010000 0x1000 1 (mem s)" using s(3) by (simp add: unmapped_range_def)
  from mappages_correct[OF _ _ _ s(1) this, of "0x80020000" "PTE_R OR PTE_U"] obtain r s' k where
    m: "mappages 0x80010000 0x1000 0x1000 0x80020000 (PTE_R OR PTE_U) s = Ok r s'" "r = 0 \<and> k = 1"
    and e: "\<forall>vb < MAXVA. pte_of (mem s') 0x80010000 vb = (if 1 \<le> vpn vb \<and> vpn vb < 1 + k
      then PA2PTE (0x80020000 + 4096 * of_nat (vpn vb - 1)) OR (PTE_R OR PTE_U) OR PTE_V else pte_of (mem s) 0x80010000 vb)"
    by (auto simp: pg_aligned_def vpn_def demo_pages_def)
  have "vpn 0x1000 = 1" "vpn 0x2000 = 2" by (simp_all add: vpn_def)
  then have "pte_of (mem s') 0x80010000 0x1000 = 0x20008013" "pte_of (mem s') 0x80010000 0x2000 = 0"
    using e m(2) s(3) by (simp_all add: PA2PTE_def)
  with m s(1) show ?thesis by blast
qed

text \<open>
  C27: \<open>uvmalloc\<close> grows an address space or leaves it alone. For sizes up to 2^38 it returns the
  new size with every new page mapped to a fresh zero-filled frame with the requested
  permissions, all other translations unchanged; or it returns 0 with every translation as
  before and every frame it had allocated back on the free list, except table frames, which
  stay with the table. It fails only if fewer than three pages per new page were free.
\<close>

theorem uvmalloc_correct:
  assumes "pt_own pt fs s" "oldsz \<le> newsz" "unat newsz \<le> 274877906944"
    and "xperm \<in> {0, PTE_W, PTE_X, PTE_W OR PTE_X}"
    and "\<And>vb. \<lbrakk>vb < MAXVA; npg oldsz \<le> vpn vb; vpn vb < npg newsz\<rbrakk> \<Longrightarrow> pte_of (mem s) pt vb = 0"
  shows "\<exists>r s' fs'. uvmalloc pt oldsz newsz xperm s = Ok r s' \<and>
    (r = newsz \<and> grown (\<lambda>_. (PTE_R OR PTE_U OR xperm OR PTE_V, \<lambda>_. 0)) pt (PGROUNDUP oldsz) (npg newsz - npg oldsz) fs s fs' s'
     \<or> r = 0 \<and> shrunk pt fs s fs' s' \<and> length fs < 3 * (npg newsz - npg oldsz))"
  using uvmalloc_spec[OF assms] by blast

text \<open>A free list of eight pages, from which both a parent and a child can be built.\<close>

definition eight_pages :: "u64 list" where
  "eight_pages = [0x80010000, 0x80011000, 0x80012000, 0x80013000, 0x80014000, 0x80015000, 0x80016000, 0x80017000]"

lemma demo_root:
  "\<exists>s :: kmem_st. pt_own 0x80010000 (tl eight_pages) s \<and> (\<forall>va. pte_of (mem s) 0x80010000 va = 0)"
proof -
  obtain s :: kmem_st where "kmem_pool s eight_pages"
    using boot_pool[of eight_pages] by (auto simp: eight_pages_def ram_page_def pg_aligned_def)
  from uvmcreate_spec[OF this] show ?thesis by (auto simp: eight_pages_def)
qed

theorem uvmalloc_correct_witness:
  "\<exists>s :: kmem_st. \<exists>s'. pt_own 0x80010000 (tl eight_pages) s \<and> uvmalloc 0x80010000 0 0x1800 PTE_W s = Ok 0x1800 s' \<and>
     is_leaf (pte_of (mem s') 0x80010000 0x1000)"
proof -
  obtain s :: kmem_st where s: "pt_own 0x80010000 (tl eight_pages) s" "\<forall>va. pte_of (mem s) 0x80010000 va = 0"
    using demo_root by blast
  have n: "npg 0 = 0" "npg 0x1800 = 2" "PGROUNDUP 0 = 0" "length (tl eight_pages) = 7"
    by (simp_all add: npg_def PGROUNDUP_def eight_pages_def)
  obtain s' fs' where u: "uvmalloc 0x80010000 0 0x1800 PTE_W s = Ok 0x1800 s'"
    "grown (\<lambda>_. (PTE_R OR PTE_U OR PTE_W OR PTE_V, \<lambda>_. 0)) 0x80010000 0 2 (tl eight_pages) s fs' s'"
    using uvmalloc_correct[OF s(1), of 0 "0x1800" PTE_W] s(2) n by auto
  then have "leaf_range (mem s') 0x80010000 0 2" by (simp add: grown_def freeable_def)
  then have "is_leaf (pte_of (mem s') 0x80010000 (0 + 4096 * of_nat 1))"
    unfolding leaf_range_def by (elim allE[of _ 1] impE) simp_all
  with u(1) s(1) show ?thesis by auto
qed

text \<open>
  C11: \<open>uvmcopy\<close> gives the child its own copy of the parent's memory. It returns 0 with every page
  of the parent mapped in the child with the same flags, in a fresh frame with the same
  contents; or -1 with the child's translations as before and the frames back on the free list,
  which happens only if fewer than three pages per page of the parent were free.
  Neither the parent's page table nor its frames change.
\<close>

theorem uvmcopy_correct:
  assumes "pt_own new fs s" "copy_source old new (npg sz) fs s" "unat sz \<le> 274877906944"
    and "\<And>vb. \<lbrakk>vb < MAXVA; vpn vb < npg sz\<rbrakk> \<Longrightarrow> pte_of (mem s) new vb = 0"
  shows "\<exists>r s' fs'. uvmcopy old new sz s = Ok r s' \<and>
    (r = 0 \<and> grown (parent_page (mem s) old) new 0 (npg sz) fs s fs' s' \<or>
     r = -1 \<and> shrunk new fs s fs' s' \<and> length fs < 3 * npg sz) \<and>
    (\<forall>b \<in> pt_pages (mem s) old \<union> set (range_frames (mem s) old 0 (npg sz)). same_frame b (mem s') (mem s))"
proof -
  obtain r s' fs' where u: "uvmcopy old new sz s = Ok r s'"
    "r = 0 \<and> grown (parent_page (mem s) old) new 0 (npg sz) fs s fs' s' \<or>
     r = -1 \<and> shrunk new fs s fs' s' \<and> length fs < 3 * npg sz"
    using uvmcopy_spec[OF assms] by blast
  then have "\<forall>b. b \<notin> pt_pages (mem s) new \<union> set fs \<longrightarrow> same_frame b (mem s') (mem s)"
    by (auto simp: grown_def shrunk_def)
  then have "\<forall>b \<in> pt_pages (mem s) old \<union> set (range_frames (mem s) old 0 (npg sz)). same_frame b (mem s') (mem s)"
    using assms(2) by (auto simp: copy_source_def)
  with u show ?thesis by blast
qed

text \<open>A parent with one page of memory, and an empty table for the child.\<close>

lemma demo_parent:
  "\<exists>s :: kmem_st. \<exists>fs. pt_own 0x80010000 fs s \<and> 4 \<le> length fs \<and> freeable 0x80010000 fs s 0 1"
proof -
  obtain s :: kmem_st where s: "pt_own 0x80010000 (tl eight_pages) s" "\<forall>va. pte_of (mem s) 0x80010000 va = 0"
    using demo_root by blast
  have n: "npg 0 = 0" "npg 0x1000 = 1" "PGROUNDUP 0 = 0" "length (tl eight_pages) = 7"
    by (simp_all add: npg_def PGROUNDUP_def eight_pages_def)
  obtain s' fs' where
    "grown (\<lambda>_. (PTE_R OR PTE_U OR PTE_W OR PTE_V, \<lambda>_. 0)) 0x80010000 0 1 (tl eight_pages) s fs' s'" "4 \<le> length fs'"
    using uvmalloc_spec[OF s(1), of 0 "0x1000" PTE_W] s(2) n by auto
  then show ?thesis unfolding grown_def by blast
qed

lemma demo_two_tables:
  "\<exists>s :: kmem_st. \<exists>new fs. pt_own new fs s \<and> 3 \<le> length fs \<and> (\<forall>va. pte_of (mem s) new va = 0) \<and>
     copy_source 0x80010000 new 1 fs s"
proof -
  let ?old = "0x80010000 :: u64"
  obtain s :: kmem_st and fs1 where s: "pt_own ?old fs1 s" "4 \<le> length fs1" "freeable ?old fs1 s 0 1"
    using demo_parent by blast
  then obtain new fs where fs: "fs1 = new # fs" by (cases fs1) auto
  have pool: "kmem_pool s fs1" and w: "pt_wf (kend s) (mem s) ?old" and d: "pt_pages (mem s) ?old \<inter> set fs1 = {}"
    using s(1) by (simp_all add: pt_own_def)
  obtain s' where s': "pt_own new fs s'" "pt_pages (mem s') new = {new}" "kmem_frame s s'"
    "\<forall>va. pte_of (mem s') new va = 0" "\<And>b. b \<noteq> new \<Longrightarrow> same_frame b (mem s') (mem s)"
    using uvmcreate_spec[OF pool] fs by auto
  have "same_frame b (mem s') (mem s)" if "b \<in> pt_pages (mem s) ?old" for b
    by (rule s'(5)) (use that d fs in auto)
  note o = pt_outside[OF w this]
  have e: "kend s' = kend s" using kmem_frameD(4)[OF s'(3)] .
  have c: "range_frames (mem s') ?old 0 1 = range_frames (mem s) ?old 0 1"
    "leaf_range (mem s') ?old 0 1 = leaf_range (mem s) ?old 0 1"
    using o(3) by (simp_all add: range_frames_def leaf_range_def)
  have "copy_source ?old new 1 fs s'"
    using o(1,2) d fs s(3) s'(2) e unfolding copy_source_def freeable_def c by auto
  with s'(1,4) s(2) fs show ?thesis by (intro exI[of _ s'] exI[of _ new] exI[of _ fs]) simp
qed

theorem uvmcopy_correct_witness:
  "\<exists>s :: kmem_st. \<exists>new fs s'. copy_source 0x80010000 new (npg 0x1000) fs s \<and>
     is_leaf (pte_of (mem s) 0x80010000 0) \<and> pte_of (mem s) new 0 = 0 \<and>
     uvmcopy 0x80010000 new 0x1000 s = Ok 0 s' \<and>
     PTE_FLAGS (pte_of (mem s') new 0) = PTE_FLAGS (pte_of (mem s) 0x80010000 0) \<and>
     mem s' (PTE2PA (pte_of (mem s') new 0) + 5) = mem s (PTE2PA (pte_of (mem s) 0x80010000 0) + 5)"
proof -
  obtain s :: kmem_st and new fs where s: "pt_own new fs s" "3 \<le> length fs" "\<forall>va. pte_of (mem s) new va = 0"
    "copy_source 0x80010000 new 1 fs s" using demo_two_tables by blast
  have n: "npg 0x1000 = 1" by (simp add: npg_def)
  obtain s' fs' where u: "uvmcopy 0x80010000 new 0x1000 s = Ok 0 s'"
    and g: "grown (parent_page (mem s) 0x80010000) new 0 1 fs s fs' s'"
    using uvmcopy_correct[of new fs s "0x80010000" "0x1000"] s n by auto
  have "filled_range (parent_page (mem s) 0x80010000) (mem s') new 0 1" using g by (simp add: grown_def)
  then have "PTE_FLAGS (pte_of (mem s') new 0) = PTE_FLAGS (pte_of (mem s) 0x80010000 0)"
    "mem s' (PTE2PA (pte_of (mem s') new 0) + 5) = mem s (PTE2PA (pte_of (mem s) 0x80010000 0) + 5)"
    by (simp_all add: filled_range_def parent_page_def Let_def)
  moreover have "is_leaf (pte_of (mem s) 0x80010000 0)" using s(4) by (simp add: copy_source_def leaf_range_def)
  ultimately show ?thesis using s(3,4) u n by metis
qed

text \<open>
  C12: no frame is lost over the life of an address space. Creating a page table, growing the
  address space to any size up to 2^38 (successfully or not) and freeing it with the size
  \<open>uvmalloc\<close> returned neither panics nor leaks: the free list holds the same pages again.
\<close>

theorem address_space_roundtrip:
  assumes "kmem_pool s fs" "fs \<noteq> []" "unat sz \<le> 274877906944" "xperm \<in> {0, PTE_W, PTE_X, PTE_W OR PTE_X}"
  shows "\<exists>pt s1 r s2 s3 fs'. uvmcreate s = Ok pt s1 \<and> uvmalloc pt 0 sz xperm s1 = Ok r s2 \<and>
    uvmfree pt r s2 = Ok () s3 \<and> kmem_pool s3 fs' \<and> set fs' = set fs"
proof -
  obtain pt ts where fs: "fs = pt # ts" using assms(2) by (cases fs) auto
  obtain s1 where s1: "uvmcreate s = Ok pt s1" "pt_own pt ts s1" "pt_pages (mem s1) pt = {pt}"
    "\<forall>va. pte_of (mem s1) pt va = 0" using uvmcreate_spec[OF assms(1)] fs by auto
  have z: "npg 0 = 0" "PGROUNDUP 0 = 0" "vpn 0 = 0" by (simp_all add: npg_def PGROUNDUP_def vpn_def)
  obtain r s2 fs2 where s2: "uvmalloc pt 0 sz xperm s1 = Ok r s2"
    "r = sz \<and> grown (\<lambda>_. (PTE_R OR PTE_U OR xperm OR PTE_V, \<lambda>_. 0)) pt 0 (npg sz) ts s1 fs2 s2 \<or> r = 0 \<and> shrunk pt ts s1 fs2 s2"
    using uvmalloc_spec[OF s1(2) _ assms(3,4), of 0] s1(4) z by auto
  have own: "pt_own pt fs2 s2" "unat r \<le> 274877906944" using s2(2) assms(3) by (auto simp: grown_def shrunk_def)
  have free: "freeable pt fs2 s2 0 (npg r)"
    using s2(2) by (auto simp: grown_def z freeable_def no_mapping)
  have rest: "pte_of (mem s2) pt vb = 0" if "vb < MAXVA" "npg r \<le> vpn vb" for vb
    using s2(2) s1(4) that by (auto simp: grown_def shrunk_def z)
  obtain s3 fs3 where s3: "uvmfree pt r s2 = Ok () s3"
    "tree_freed (pt_pages (mem s2) pt \<union> set (range_frames (mem s2) pt 0 (npg r))) fs2 s2 fs3 s3"
    using uvmfree_spec[OF own free] rest by auto
  have "pt \<in> pt_pages (mem s2) pt" using s2(2) s1(3) by (auto simp: grown_def shrunk_def)
  then have "set fs3 = set fs"
    using s2(2) s3(2) s1(3) fs by (auto simp: grown_def shrunk_def tree_freed_def no_mapping z)
  with s1(1) s2(1) s3 show ?thesis by (auto simp: tree_freed_def)
qed

theorem address_space_roundtrip_witness:
  "\<exists>s :: kmem_st. \<exists>pt s1 r s2 s3 fs'. kmem_pool s demo_pages \<and> uvmcreate s = Ok pt s1 \<and>
     uvmalloc pt 0 0x1800 PTE_W s1 = Ok r s2 \<and> uvmfree pt r s2 = Ok () s3 \<and> kmem_pool s3 fs' \<and>
     set fs' = {0x80013000, 0x80012000, 0x80011000}"
proof -
  obtain s :: kmem_st where "pt_own 0x80010000 demo_pages s" using demo_pt by blast
  then have p: "kmem_pool s demo_pages" by (simp add: pt_own_def)
  have d: "demo_pages \<noteq> []" "set demo_pages = {0x80013000, 0x80012000, 0x80011000}" by (simp_all add: demo_pages_def)
  have "unat (0x1800 :: u64) \<le> 274877906944" "PTE_W \<in> {0, PTE_W, PTE_X, PTE_W OR PTE_X}" by simp_all
  from address_space_roundtrip[OF p d(1) this] p show ?thesis unfolding d(2) by blast
qed

end
