(* ===== verification/Proc.thy ===== *)
theory Proc
  imports AddrSpace
begin

text \<open>
  kernel/proc.c and struct proc of kernel/proc.h: the process table, allocation and release of
  process slots, sleep and wakeup, the scheduler, kill and wait. The operations of the same file
  that use the file system (\<open>userinit\<close>, \<open>fork\<close>, \<open>exit\<close>, \<open>forkret\<close>) are in theory Procfile.

  A pointer to a process is its index in the table, a null pointer is \<open>None\<close>. Following a null
  pointer is a page fault in the kernel, which ends in \<open>panic("kerneltrap")\<close>. \<open>swtch\<close> ends the
  run of a kernel thread with the outcome \<open>Sleeps\<close>; the code behind a \<open>swtch\<close> is a definition
  of its own (\<open>sched_resume\<close>, \<open>sleep_resume\<close>, \<open>yield_resume\<close>).
\<close>

section \<open>State\<close>

datatype procstate = UNUSED | USED | SLEEPING | RUNNABLE | RUNNING | ZOMBIE

record proc =
  p_state :: procstate
  p_chan :: "wchan option"
  p_killed :: int
  p_xstate :: int
  p_pid :: int
  p_parent :: "nat option"
  p_kstack :: u64
  p_sz :: u64
  p_pagetable :: u64
  p_trapframe :: u64
  p_context :: kcontext
  p_ofile :: "nat option list"
  p_cwd :: "nat option"
  p_name :: "u8 list"
  p_tracemask :: u64

text \<open>
  The global variables of proc.c, and the linker symbols it uses: the physical address of the
  trampoline page, the address of \<open>forkret\<close>, the address \<open>kobj\<close> at which an object of the
  kernel's data segment lies while it is copied to or from user space (these objects are record
  fields of the model, not bytes of its memory), and the address \<open>kloc\<close> of the local variable
  that a kernel thread passes by address. \<open>kout\<close> is what the kernel has printed.
\<close>

record proc_st = vm_st +
  procs :: "proc list"
  initproc :: "nat option"
  nextpid :: int
  ticks :: u32
  trampoline_pa :: u64
  forkret_pa :: u64
  kobj :: u64
  kloc :: u64
  kout :: "string list"

definition printk :: "string \<Rightarrow> (unit, 'z proc_st_scheme) kernel" where
  "printk msg = modifyk (\<lambda>s. s\<lparr>kout := kout s @ [msg]\<rparr>)"

definition zero_context :: kcontext where
  "zero_context = \<lparr>ctx_ra = 0, ctx_sp = 0, ctx_s = replicate 12 0\<rparr>"

definition zero_proc :: proc where
  "zero_proc = \<lparr>p_state = UNUSED, p_chan = None, p_killed = 0, p_xstate = 0, p_pid = 0, p_parent = None,
     p_kstack = 0, p_sz = 0, p_pagetable = 0, p_trapframe = 0, p_context = zero_context,
     p_ofile = replicate NOFILE None, p_cwd = None, p_name = [], p_tracemask = 0\<rparr>"

definition upd_proc :: "nat \<Rightarrow> (proc \<Rightarrow> proc) \<Rightarrow> 'z proc_st_scheme \<Rightarrow> 'z proc_st_scheme" where
  "upd_proc i f s = s\<lparr>procs := (procs s)[i := f (procs s ! i)]\<rparr>"

definition setp :: "nat \<Rightarrow> (proc \<Rightarrow> proc) \<Rightarrow> (unit, 'z proc_st_scheme) kernel" where
  "setp i f = modifyk (upd_proc i f)"

definition getp :: "nat \<Rightarrow> (proc \<Rightarrow> 'a) \<Rightarrow> ('a, 'z proc_st_scheme) kernel" where
  "getp i f = getk (\<lambda>s. f (procs s ! i))"

text \<open>Dereferencing a pointer that may be null.\<close>

definition derefk :: "'p option \<Rightarrow> ('p \<Rightarrow> ('a, 's) kernel) \<Rightarrow> ('a, 's) kernel" where
  "derefk p f = (case p of None \<Rightarrow> panick ''kerneltrap'' | Some i \<Rightarrow> f i)"

section \<open>The process table\<close>

definition procinit :: "(unit, 'z proc_st_scheme) kernel" where
  "procinit =
     bindk (modifyk (initlock PidLock ''nextpid'')) (\<lambda>_.
     bindk (modifyk (initlock WaitLock ''wait_lock'')) (\<lambda>_.
     foreachk [0..<NPROC] (\<lambda>p.
       bindk (modifyk (initlock (ProcLock p) ''proc'')) (\<lambda>_.
       bindk (setp p (p_state_update (\<lambda>_. UNUSED))) (\<lambda>_.
       setp p (p_kstack_update (\<lambda>_. KSTACK p)))))))"

definition myproc :: "(nat option, 'z machine_scheme) kernel" where
  "myproc =
     bindk push_off (\<lambda>_.
     bindk (getk (\<lambda>s. cpu_proc (mycpu s))) (\<lambda>p.
     bindk pop_off (\<lambda>_.
     returnk p)))"

definition allocpid :: "(int, 'z proc_st_scheme) kernel" where
  "allocpid =
     bindk (acquire PidLock) (\<lambda>_.
     bindk (getk nextpid) (\<lambda>pid.
     bindk (modifyk (\<lambda>s. s\<lparr>nextpid := nextpid s + 1\<rparr>)) (\<lambda>_.
     bindk (release PidLock) (\<lambda>_.
     returnk pid))))"

definition proc_pagetable :: "nat \<Rightarrow> (u64, 'z proc_st_scheme) kernel" where
  "proc_pagetable p =
     bindk uvmcreate (\<lambda>pagetable.
     if pagetable = 0 then returnk 0 else
     bindk (getk trampoline_pa) (\<lambda>trampoline.
     bindk (mappages pagetable TRAMPOLINE PGSIZE trampoline (PTE_R OR PTE_X)) (\<lambda>r.
     if r < 0 then
       bindk (uvmfree pagetable 0) (\<lambda>_.
       returnk 0)
     else
     bindk (getp p p_trapframe) (\<lambda>tf.
     bindk (mappages pagetable TRAPFRAME PGSIZE tf (PTE_R OR PTE_W)) (\<lambda>r.
     if r < 0 then
       bindk (uvmunmap pagetable TRAMPOLINE 1 False) (\<lambda>_.
       bindk (uvmfree pagetable 0) (\<lambda>_.
       returnk 0))
     else returnk pagetable)))))"

definition proc_freepagetable :: "u64 \<Rightarrow> u64 \<Rightarrow> (unit, 'z kmem_st_scheme) kernel" where
  "proc_freepagetable pagetable sz =
     bindk (uvmunmap pagetable TRAMPOLINE 1 False) (\<lambda>_.
     bindk (uvmunmap pagetable TRAPFRAME 1 False) (\<lambda>_.
     uvmfree pagetable sz))"

definition freeproc :: "nat \<Rightarrow> (unit, 'z proc_st_scheme) kernel" where
  "freeproc p =
     bindk (getp p p_trapframe) (\<lambda>tf.
     bindk (whenk (tf \<noteq> 0) (kfree tf)) (\<lambda>_.
     bindk (setp p (p_trapframe_update (\<lambda>_. 0))) (\<lambda>_.
     bindk (getp p p_pagetable) (\<lambda>pt.
     bindk (getp p p_sz) (\<lambda>sz.
     bindk (whenk (pt \<noteq> 0) (proc_freepagetable pt sz)) (\<lambda>_.
     setp p (\<lambda>q. q\<lparr>p_pagetable := 0, p_sz := 0, p_pid := 0, p_parent := None, p_name := [],
       p_chan := None, p_killed := 0, p_xstate := 0, p_state := UNUSED\<rparr>)))))))"

definition allocproc_scan :: "nat \<Rightarrow> (nat + nat option, 'z proc_st_scheme) kernel" where
  "allocproc_scan p =
     (if \<not> p < NPROC then returnk (Inr None) else
     bindk (acquire (ProcLock p)) (\<lambda>_.
     bindk (getp p p_state) (\<lambda>st.
     if st = UNUSED then returnk (Inr (Some p)) else
     bindk (release (ProcLock p)) (\<lambda>_.
     returnk (Inl (p + 1))))))"

definition allocproc_fail :: "nat \<Rightarrow> (nat option, 'z proc_st_scheme) kernel" where
  "allocproc_fail p =
     bindk (freeproc p) (\<lambda>_.
     bindk (release (ProcLock p)) (\<lambda>_.
     returnk None))"

definition allocproc_mem :: "nat \<Rightarrow> (nat option, 'z proc_st_scheme) kernel" where
  "allocproc_mem p =
     bindk kalloc (\<lambda>tf.
     bindk (setp p (p_trapframe_update (\<lambda>_. tf))) (\<lambda>_.
     if tf = 0 then allocproc_fail p else
     bindk (proc_pagetable p) (\<lambda>pt.
     bindk (setp p (p_pagetable_update (\<lambda>_. pt))) (\<lambda>_.
     if pt = 0 then allocproc_fail p else
     bindk (getk forkret_pa) (\<lambda>forkret.
     bindk (setp p (\<lambda>q. q\<lparr>p_context := zero_context\<lparr>ctx_ra := forkret, ctx_sp := p_kstack q + PGSIZE\<rparr>\<rparr>)) (\<lambda>_.
     returnk (Some p)))))))"

definition allocproc :: "(nat option, 'z proc_st_scheme) kernel" where
  "allocproc =
     bindk (loopk allocproc_scan 0) (\<lambda>found. case found of None \<Rightarrow> returnk None | Some p \<Rightarrow>
     bindk allocpid (\<lambda>pid.
     bindk (setp p (p_pid_update (\<lambda>_. pid))) (\<lambda>_.
     bindk (setp p (p_state_update (\<lambda>_. USED))) (\<lambda>_.
     allocproc_mem p))))"

definition cprocnum :: "'z proc_st_scheme \<Rightarrow> nat" where
  "cprocnum s = foldl (\<lambda>n p. if p_state p \<noteq> UNUSED then n + 1 else n) 0 (procs s)"

definition growproc :: "int \<Rightarrow> (int, 'z proc_st_scheme) kernel" where
  "growproc n =
     bindk myproc (\<lambda>me. derefk me (\<lambda>p.
     bindk (getp p p_sz) (\<lambda>sz.
     bindk (getp p p_pagetable) (\<lambda>pt.
     if n > 0 then
       bindk (uvmalloc pt sz (sz + of_int n) PTE_W) (\<lambda>sz.
       if sz = 0 then returnk (-1) else
       bindk (setp p (p_sz_update (\<lambda>_. sz))) (\<lambda>_.
       returnk 0))
     else if n < 0 then
       bindk (uvmdealloc pt sz (sz + of_int n)) (\<lambda>sz.
       bindk (setp p (p_sz_update (\<lambda>_. sz))) (\<lambda>_.
       returnk 0))
     else
       bindk (setp p (p_sz_update (\<lambda>_. sz))) (\<lambda>_.
       returnk 0)))))"

section \<open>Giving up the CPU\<close>

text \<open>
  \<open>sched\<close> up to \<open>swtch\<close>. The value of \<open>intena\<close> it keeps on its stack is in the process's saved
  context; it is the argument of \<open>sched_resume\<close>.
\<close>

definition sched :: "('a, 'z proc_st_scheme) kernel" where
  "sched =
     bindk myproc (\<lambda>me. derefk me (\<lambda>p.
     bindk (getk (holding (ProcLock p))) (\<lambda>h. if \<not> h then panick ''sched p->lock'' else
     bindk (getk (\<lambda>s. noff (mycpu s))) (\<lambda>n. if n \<noteq> 1 then panick ''sched locks'' else
     bindk (getp p p_state) (\<lambda>st. if st = RUNNING then panick ''sched running'' else
     bindk (getk intr_get) (\<lambda>on. if on then panick ''sched interruptible'' else
     bindk (getp p p_chan) (\<lambda>chan.
     (\<lambda>s. Sleeps chan s))))))))"

definition sched_resume :: "bool \<Rightarrow> (unit, 'z machine_scheme) kernel" where
  "sched_resume old = modifyk (upd_mycpu (intena_update (\<lambda>_. old)))"

definition yield :: "('a, 'z proc_st_scheme) kernel" where
  "yield =
     bindk myproc (\<lambda>me. derefk me (\<lambda>p.
     bindk (acquire (ProcLock p)) (\<lambda>_.
     bindk (setp p (p_state_update (\<lambda>_. RUNNABLE))) (\<lambda>_.
     sched))))"

definition yield_resume :: "nat \<Rightarrow> bool \<Rightarrow> (unit, 'z proc_st_scheme) kernel" where
  "yield_resume p old =
     bindk (sched_resume old) (\<lambda>_.
     release (ProcLock p))"

definition sleep :: "wchan \<Rightarrow> lockid \<Rightarrow> ('a, 'z proc_st_scheme) kernel" where
  "sleep chan lk =
     bindk myproc (\<lambda>me. derefk me (\<lambda>p.
     bindk (acquire (ProcLock p)) (\<lambda>_.
     bindk (release lk) (\<lambda>_.
     bindk (setp p (p_chan_update (\<lambda>_. Some chan))) (\<lambda>_.
     bindk (setp p (p_state_update (\<lambda>_. SLEEPING))) (\<lambda>_.
     sched))))))"

definition sleep_resume :: "nat \<Rightarrow> lockid \<Rightarrow> bool \<Rightarrow> (unit, 'z proc_st_scheme) kernel" where
  "sleep_resume p lk old =
     bindk (sched_resume old) (\<lambda>_.
     bindk (setp p (p_chan_update (\<lambda>_. None))) (\<lambda>_.
     bindk (release (ProcLock p)) (\<lambda>_.
     acquire lk)))"

definition wakeup_one :: "wchan option \<Rightarrow> nat \<Rightarrow> (unit, 'z proc_st_scheme) kernel" where
  "wakeup_one chan p =
     bindk myproc (\<lambda>me.
     whenk (me \<noteq> Some p) (
       bindk (acquire (ProcLock p)) (\<lambda>_.
       bindk (getp p (\<lambda>q. p_state q = SLEEPING \<and> p_chan q = chan)) (\<lambda>w.
       bindk (whenk w (setp p (p_state_update (\<lambda>_. RUNNABLE)))) (\<lambda>_.
       release (ProcLock p))))))"

definition wakeup :: "wchan option \<Rightarrow> (unit, 'z proc_st_scheme) kernel" where
  "wakeup chan = foreachk [0..<NPROC] (wakeup_one chan)"

definition kill_scan :: "int \<Rightarrow> nat \<Rightarrow> (nat + int, 'z proc_st_scheme) kernel" where
  "kill_scan pid p =
     (if \<not> p < NPROC then returnk (Inr (-1)) else
     bindk (acquire (ProcLock p)) (\<lambda>_.
     bindk (getp p p_pid) (\<lambda>q.
     if q = pid then
       bindk (setp p (p_killed_update (\<lambda>_. 1))) (\<lambda>_.
       bindk (getp p p_state) (\<lambda>st.
       bindk (whenk (st = SLEEPING) (setp p (p_state_update (\<lambda>_. RUNNABLE)))) (\<lambda>_.
       bindk (release (ProcLock p)) (\<lambda>_.
       returnk (Inr 0)))))
     else
       bindk (release (ProcLock p)) (\<lambda>_.
       returnk (Inl (p + 1))))))"

definition kill :: "int \<Rightarrow> (int, 'z proc_st_scheme) kernel" where
  "kill pid = loopk (kill_scan pid) 0"

definition setkilled :: "nat \<Rightarrow> (unit, 'z proc_st_scheme) kernel" where
  "setkilled p =
     bindk (acquire (ProcLock p)) (\<lambda>_.
     bindk (setp p (p_killed_update (\<lambda>_. 1))) (\<lambda>_.
     release (ProcLock p)))"

definition killed :: "nat \<Rightarrow> (int, 'z proc_st_scheme) kernel" where
  "killed p =
     bindk (acquire (ProcLock p)) (\<lambda>_.
     bindk (getp p p_killed) (\<lambda>k.
     bindk (release (ProcLock p)) (\<lambda>_.
     returnk k)))"

section \<open>Copying to and from the current process\<close>

definition either_copyout :: "bool \<Rightarrow> u64 \<Rightarrow> u64 \<Rightarrow> u64 \<Rightarrow> (int, 'z proc_st_scheme) kernel" where
  "either_copyout user_dst dst src len =
     bindk myproc (\<lambda>me.
     if user_dst then derefk me (\<lambda>p. bindk (getp p p_pagetable) (\<lambda>pt. copyout pt dst src len))
     else bindk (memmovek dst src (unat len)) (\<lambda>_. returnk 0))"

definition either_copyin :: "u64 \<Rightarrow> bool \<Rightarrow> u64 \<Rightarrow> u64 \<Rightarrow> (int, 'z proc_st_scheme) kernel" where
  "either_copyin dst user_src src len =
     bindk myproc (\<lambda>me.
     if user_src then derefk me (\<lambda>p. bindk (getp p p_pagetable) (\<lambda>pt. copyin pt dst src len))
     else bindk (memmovek dst src (unat len)) (\<lambda>_. returnk 0))"

text \<open>
  A kernel object with the byte representation \<open>bs\<close> is copied to user space: its bytes are at
  \<open>kobj\<close>.
\<close>

definition copyout_obj :: "u64 \<Rightarrow> u64 \<Rightarrow> u8 list \<Rightarrow> (int, 'z proc_st_scheme) kernel" where
  "copyout_obj pt dstva bs =
     bindk (getk kobj) (\<lambda>a.
     bindk (modifyk (\<lambda>s. s\<lparr>mem := store_bytes (mem s) a bs\<rparr>)) (\<lambda>_.
     copyout pt dstva a (of_nat (length bs))))"

definition int_bytes :: "int \<Rightarrow> u8 list" where
  "int_bytes x = le_bytes 4 (of_int x :: u32)"

section \<open>Children\<close>

definition reparent :: "nat \<Rightarrow> (unit, 'z proc_st_scheme) kernel" where
  "reparent p =
     foreachk [0..<NPROC] (\<lambda>pp.
       bindk (getp pp p_parent) (\<lambda>par.
       whenk (par = Some p) (
         bindk (getk initproc) (\<lambda>ip.
         bindk (setp pp (p_parent_update (\<lambda>_. ip))) (\<lambda>_.
         wakeup (map_option ChProc ip))))))"

definition wait_scan :: "nat \<Rightarrow> u64 \<Rightarrow> nat \<times> bool \<Rightarrow> (nat \<times> bool + bool + int, 'z proc_st_scheme) kernel" where
  "wait_scan p addr = (\<lambda>(pp, havekids).
     if \<not> pp < NPROC then returnk (Inr (Inl havekids)) else
     bindk (getp pp p_parent) (\<lambda>par.
     if par \<noteq> Some p then returnk (Inl (pp + 1, havekids)) else
     bindk (acquire (ProcLock pp)) (\<lambda>_.
     bindk (getp pp p_state) (\<lambda>st.
     if st = ZOMBIE then
       bindk (getp pp p_pid) (\<lambda>pid.
       bindk (getp pp p_xstate) (\<lambda>xstate.
       bindk (getp p p_pagetable) (\<lambda>pt.
       bindk (if addr \<noteq> 0 then copyout_obj pt addr (int_bytes xstate) else returnk 0) (\<lambda>r.
       if addr \<noteq> 0 \<and> r < 0 then
         bindk (release (ProcLock pp)) (\<lambda>_.
         bindk (release WaitLock) (\<lambda>_.
         returnk (Inr (Inr (-1)))))
       else
         bindk (freeproc pp) (\<lambda>_.
         bindk (release (ProcLock pp)) (\<lambda>_.
         bindk (release WaitLock) (\<lambda>_.
         returnk (Inr (Inr pid)))))))))
     else
       bindk (release (ProcLock pp)) (\<lambda>_.
       returnk (Inl (pp + 1, True)))))))"

text \<open>One pass of the loop of \<open>wait\<close>; a thread that went to sleep starts the next pass when it resumes.\<close>

definition wait_pass :: "nat \<Rightarrow> u64 \<Rightarrow> (int, 'z proc_st_scheme) kernel" where
  "wait_pass p addr =
     bindk (loopk (wait_scan p addr) (0, False)) (\<lambda>r. case r of
       Inr pid \<Rightarrow> returnk pid
     | Inl havekids \<Rightarrow>
       bindk (if \<not> havekids then returnk 1 else killed p) (\<lambda>k.
       if \<not> havekids \<or> k \<noteq> 0 then
         bindk (release WaitLock) (\<lambda>_.
         returnk (-1))
       else sleep (ChProc p) WaitLock))"

definition wait :: "u64 \<Rightarrow> (int, 'z proc_st_scheme) kernel" where
  "wait addr =
     bindk myproc (\<lambda>me. derefk me (\<lambda>p.
     bindk (acquire WaitLock) (\<lambda>_.
     wait_pass p addr)))"

section \<open>The scheduler\<close>

text \<open>
  \<open>run p\<close> stands for what process \<open>p\<close> does between the two \<open>swtch\<close>es: from the return of its own
  \<open>swtch\<close> to its next call of it.
\<close>

definition scheduler_try :: "(nat \<Rightarrow> (unit, 'z proc_st_scheme) kernel) \<Rightarrow> nat \<Rightarrow> (unit, 'z proc_st_scheme) kernel" where
  "scheduler_try run p =
     bindk (acquire (ProcLock p)) (\<lambda>_.
     bindk (getp p p_state) (\<lambda>st.
     bindk (whenk (st = RUNNABLE) (
       bindk (setp p (p_state_update (\<lambda>_. RUNNING))) (\<lambda>_.
       bindk (modifyk (upd_mycpu (cpu_proc_update (\<lambda>_. Some p)))) (\<lambda>_.
       bindk (run p) (\<lambda>_.
       modifyk (upd_mycpu (cpu_proc_update (\<lambda>_. None)))))))) (\<lambda>_.
     release (ProcLock p))))"

definition scheduler_round :: "(nat \<Rightarrow> (unit, 'z proc_st_scheme) kernel) \<Rightarrow> (unit, 'z proc_st_scheme) kernel" where
  "scheduler_round run =
     bindk (modifyk intr_on) (\<lambda>_.
     foreachk [0..<NPROC] (scheduler_try run))"

definition scheduler :: "(nat \<Rightarrow> (unit, 'z proc_st_scheme) kernel) \<Rightarrow> (unit, 'z proc_st_scheme) kernel" where
  "scheduler run =
     bindk (modifyk (upd_mycpu (cpu_proc_update (\<lambda>_. None)))) (\<lambda>_.
     loopk (\<lambda>_. bindk (scheduler_round run) (\<lambda>_. returnk (Inl ()))) ())"

end
