(* ===== verification/Blocks.thy ===== *)
theory Blocks
  imports Proc
begin

text \<open>
  Disk blocks as lists of bytes: the little-endian integer fields of the on-disk structures of
  kernel/fs.h and of the log header, read and written at a byte offset.
\<close>

abbreviation (input) BSIZE :: nat where "BSIZE \<equiv> 1024"

type_synonym block = "u8 list"

definition rd32 :: "u8 list \<Rightarrow> nat \<Rightarrow> u32" where
  "rd32 bs i = le_word (take 4 (drop i bs))"

definition rd16 :: "u8 list \<Rightarrow> nat \<Rightarrow> u16" where
  "rd16 bs i = le_word (take 2 (drop i bs))"

definition splice :: "u8 list \<Rightarrow> nat \<Rightarrow> u8 list \<Rightarrow> u8 list" where
  "splice bs i xs = take i bs @ xs @ drop (i + length xs) bs"

definition wr32 :: "u8 list \<Rightarrow> nat \<Rightarrow> u32 \<Rightarrow> u8 list" where
  "wr32 bs i v = splice bs i (le_bytes 4 v)"

definition wr16 :: "u8 list \<Rightarrow> nat \<Rightarrow> u16 \<Rightarrow> u8 list" where
  "wr16 bs i v = splice bs i (le_bytes 2 v)"

lemma length_splice [simp]: "i + length xs \<le> length bs \<Longrightarrow> length (splice bs i xs) = length bs"
  by (simp add: splice_def)

lemma length_wr32 [simp]: "i + 4 \<le> length bs \<Longrightarrow> length (wr32 bs i v) = length bs"
  by (simp add: wr32_def)

lemma length_wr16 [simp]: "i + 2 \<le> length bs \<Longrightarrow> length (wr16 bs i v) = length bs"
  by (simp add: wr16_def)

lemma splice_same: "i + length xs \<le> length bs \<Longrightarrow> take (length xs) (drop i (splice bs i xs)) = xs"
  by (simp add: splice_def)

lemma nth_splice:
  assumes "i + length xs \<le> length bs" "k < length bs"
  shows "splice bs i xs ! k = (if i \<le> k \<and> k < i + length xs then xs ! (k - i) else bs ! k)"
  using assms by (auto simp: splice_def nth_append min_def)

lemma splice_other:
  assumes "i + length xs \<le> length bs" "j + n \<le> i \<or> i + length xs \<le> j" "j + n \<le> length bs"
  shows "take n (drop j (splice bs i xs)) = take n (drop j bs)"
  by (rule nth_equalityI) (use assms in \<open>auto simp: nth_splice\<close>)

lemma rd32_wr32_same [simp]: "i + 4 \<le> length bs \<Longrightarrow> rd32 (wr32 bs i v) i = v"
  using splice_same[of i "le_bytes 4 v" bs] by (simp add: rd32_def wr32_def le_word_le_bytes)

lemma rd16_wr16_same [simp]: "i + 2 \<le> length bs \<Longrightarrow> rd16 (wr16 bs i v) i = v"
  using splice_same[of i "le_bytes 2 v" bs] by (simp add: rd16_def wr16_def le_word_le_bytes)

lemma rd32_wr32_other [simp]:
  "\<lbrakk>i + 4 \<le> length bs; j + 4 \<le> length bs; j + 4 \<le> i \<or> i + 4 \<le> j\<rbrakk> \<Longrightarrow> rd32 (wr32 bs i v) j = rd32 bs j"
  by (simp add: rd32_def wr32_def splice_other)

lemma rd16_wr32_other [simp]:
  "\<lbrakk>i + 4 \<le> length bs; j + 2 \<le> length bs; j + 2 \<le> i \<or> i + 4 \<le> j\<rbrakk> \<Longrightarrow> rd16 (wr32 bs i v) j = rd16 bs j"
  by (simp add: rd16_def wr32_def splice_other)

lemma rd32_wr16_other [simp]:
  "\<lbrakk>i + 2 \<le> length bs; j + 4 \<le> length bs; j + 4 \<le> i \<or> i + 2 \<le> j\<rbrakk> \<Longrightarrow> rd32 (wr16 bs i v) j = rd32 bs j"
  by (simp add: rd32_def wr16_def splice_other)

lemma rd16_wr16_other [simp]:
  "\<lbrakk>i + 2 \<le> length bs; j + 2 \<le> length bs; j + 2 \<le> i \<or> i + 2 \<le> j\<rbrakk> \<Longrightarrow> rd16 (wr16 bs i v) j = rd16 bs j"
  by (simp add: rd16_def wr16_def splice_other)

text \<open>An array of 32-bit words that starts at a byte offset.\<close>

fun wr32s :: "u8 list \<Rightarrow> nat \<Rightarrow> u32 list \<Rightarrow> u8 list" where
  "wr32s bs i [] = bs"
| "wr32s bs i (v # vs) = wr32s (wr32 bs i v) (i + 4) vs"

definition rd32s :: "u8 list \<Rightarrow> nat \<Rightarrow> nat \<Rightarrow> u32 list" where
  "rd32s bs i n = map (\<lambda>k. rd32 bs (i + 4 * k)) [0..<n]"

lemma length_wr32s [simp]: "i + 4 * length vs \<le> length bs \<Longrightarrow> length (wr32s bs i vs) = length bs"
  by (induction vs arbitrary: bs i) auto

lemma rd32_wr32s_other:
  "\<lbrakk>i + 4 * length vs \<le> length bs; j + 4 \<le> length bs; j + 4 \<le> i \<or> i + 4 * length vs \<le> j\<rbrakk>
    \<Longrightarrow> rd32 (wr32s bs i vs) j = rd32 bs j"
proof (induction vs arbitrary: bs i)
  case (Cons v vs)
  then have "rd32 (wr32s (wr32 bs i v) (i + 4) vs) j = rd32 (wr32 bs i v) j" by auto
  also have "\<dots> = rd32 bs j" using Cons.prems by auto
  finally show ?case by simp
qed simp

lemma rd32_wr32s_at:
  "\<lbrakk>i + 4 * length vs \<le> length bs; k < length vs\<rbrakk> \<Longrightarrow> rd32 (wr32s bs i vs) (i + 4 * k) = vs ! k"
proof (induction vs arbitrary: bs i k)
  case (Cons v vs)
  show ?case
  proof (cases k)
    case 0
    then show ?thesis using Cons.prems by (simp add: rd32_wr32s_other)
  next
    case (Suc j)
    then have "rd32 (wr32s (wr32 bs i v) (i + 4) vs) (i + 4 + 4 * j) = vs ! j"
      using Cons.prems by (intro Cons.IH) auto
    then show ?thesis by (simp add: Suc algebra_simps)
  qed
qed simp

lemma rd32s_wr32s: "i + 4 * length vs \<le> length bs \<Longrightarrow> rd32s (wr32s bs i vs) i (length vs) = vs"
  by (rule nth_equalityI) (auto simp: rd32s_def rd32_wr32s_at)

end
