(* ===== verification/Sleeplock.thy ===== *)
theory Sleeplock
  imports Blocks
begin

text \<open>
  kernel/sleeplock.c. A sleep lock is named by the spin lock inside it. \<open>acquiresleep\<close> on a held
  lock ends in the outcome \<open>Sleeps\<close>; the thread runs \<open>acquiresleep_loop\<close> again when it resumes.
\<close>

record sleeplock =
  sl_locked :: u32
  sl_name :: string
  sl_pid :: int

record sl_st = proc_st +
  slocks :: "lockid \<Rightarrow> sleeplock"

definition set_slock :: "lockid \<Rightarrow> (sleeplock \<Rightarrow> sleeplock) \<Rightarrow> 'z sl_st_scheme \<Rightarrow> 'z sl_st_scheme" where
  "set_slock lk f s = s\<lparr>slocks := (slocks s)(lk := f (slocks s lk))\<rparr>"

definition initsleeplock :: "lockid \<Rightarrow> string \<Rightarrow> (unit, 'z sl_st_scheme) kernel" where
  "initsleeplock lk name =
     bindk (modifyk (initlock lk ''sleep lock'')) (\<lambda>_.
     modifyk (set_slock lk (\<lambda>_. \<lparr>sl_locked = 0, sl_name = name, sl_pid = 0\<rparr>)))"

definition mypid :: "(int, 'z proc_st_scheme) kernel" where
  "mypid = bindk myproc (\<lambda>me. derefk me (\<lambda>p. getp p p_pid))"

definition acquiresleep_loop :: "lockid \<Rightarrow> (unit, 'z sl_st_scheme) kernel" where
  "acquiresleep_loop lk =
     bindk (getk (\<lambda>s. sl_locked (slocks s lk))) (\<lambda>l.
     if l \<noteq> 0 then sleep (ChSleeplock lk) lk else
     bindk (modifyk (set_slock lk (sl_locked_update (\<lambda>_. 1)))) (\<lambda>_.
     bindk mypid (\<lambda>pid.
     bindk (modifyk (set_slock lk (sl_pid_update (\<lambda>_. pid)))) (\<lambda>_.
     release lk))))"

definition acquiresleep :: "lockid \<Rightarrow> (unit, 'z sl_st_scheme) kernel" where
  "acquiresleep lk = bindk (acquire lk) (\<lambda>_. acquiresleep_loop lk)"

definition releasesleep :: "lockid \<Rightarrow> (unit, 'z sl_st_scheme) kernel" where
  "releasesleep lk =
     bindk (acquire lk) (\<lambda>_.
     bindk (modifyk (set_slock lk (sl_locked_update (\<lambda>_. 0)))) (\<lambda>_.
     bindk (modifyk (set_slock lk (sl_pid_update (\<lambda>_. 0)))) (\<lambda>_.
     bindk (wakeup (Some (ChSleeplock lk))) (\<lambda>_.
     release lk))))"

definition holdingsleep :: "lockid \<Rightarrow> (bool, 'z sl_st_scheme) kernel" where
  "holdingsleep lk =
     bindk (acquire lk) (\<lambda>_.
     bindk (getk (\<lambda>s. slocks s lk)) (\<lambda>l.
     bindk (if sl_locked l = 0 then returnk False
            else bindk mypid (\<lambda>pid. returnk (sl_pid l = pid))) (\<lambda>r.
     bindk (release lk) (\<lambda>_.
     returnk r))))"

end
