(* ===== verification/Bio.thy ===== *)
theory Bio
  imports Sleeplock
begin

text \<open>
  kernel/bio.c. The cache is the array of \<open>NBUF\<close> buffers followed by the list head, linked through
  \<open>b_prev\<close> and \<open>b_next\<close> as in the code; a buffer is named by its index and the head is index
  \<open>NBUF\<close>. The disk is the image it started with and the sequence of the block writes it has
  completed, so that a prefix of the sequence is the state of the disk at an earlier moment.
  \<open>disk_rw\<close> is the contract of \<open>virtio_disk_rw\<close>, a transfer of the whole block that is complete when the
  call returns. Theory Virtio translates the driver; that it meets the contract is assumed here,
  since it depends on the device.
\<close>

record buf =
  b_valid :: bool
  b_disk :: bool
  b_dev :: u32
  b_blockno :: u32
  b_refcnt :: u32
  b_prev :: nat
  b_next :: nat
  b_data :: block

record bio_st = sl_st +
  bcache :: "buf list"
  disk0 :: "u32 \<Rightarrow> block"
  dwrites :: "(u32 \<times> block) list"

abbreviation (input) bhead :: nat where "bhead \<equiv> NBUF"

fun replay :: "(u32 \<Rightarrow> block) \<Rightarrow> (u32 \<times> block) list \<Rightarrow> u32 \<Rightarrow> block" where
  "replay d [] = d"
| "replay d ((b, x) # ws) = replay (d(b := x)) ws"

definition disk :: "'z bio_st_scheme \<Rightarrow> u32 \<Rightarrow> block" where
  "disk s = replay (disk0 s) (dwrites s)"

definition getb :: "nat \<Rightarrow> (buf \<Rightarrow> 'a) \<Rightarrow> ('a, 'z bio_st_scheme) kernel" where
  "getb b f = getk (\<lambda>s. f (bcache s ! b))"

definition setb :: "nat \<Rightarrow> (buf \<Rightarrow> buf) \<Rightarrow> (unit, 'z bio_st_scheme) kernel" where
  "setb b f = modifyk (\<lambda>s. s\<lparr>bcache := (bcache s)[b := f (bcache s ! b)]\<rparr>)"

definition disk_rw :: "nat \<Rightarrow> bool \<Rightarrow> (unit, 'z bio_st_scheme) kernel" where
  "disk_rw b wr =
     (if wr then modifyk (\<lambda>s. s\<lparr>dwrites := dwrites s @ [(b_blockno (bcache s ! b), b_data (bcache s ! b))]\<rparr>)
      else bindk (getk disk) (\<lambda>d. setb b (\<lambda>x. x\<lparr>b_data := d (b_blockno x)\<rparr>)))"

text \<open>Inserting at the front of the list, the code at the end of \<open>binit\<close>'s loop and of \<open>brelse\<close>.\<close>

definition push_front :: "nat \<Rightarrow> (unit, 'z bio_st_scheme) kernel" where
  "push_front b =
     bindk (getb bhead b_next) (\<lambda>first.
     bindk (setb b (b_next_update (\<lambda>_. first))) (\<lambda>_.
     bindk (setb b (b_prev_update (\<lambda>_. bhead))) (\<lambda>_.
     bindk (getb bhead b_next) (\<lambda>first.
     bindk (setb first (b_prev_update (\<lambda>_. b))) (\<lambda>_.
     setb bhead (b_next_update (\<lambda>_. b)))))))"

definition binit :: "(unit, 'z bio_st_scheme) kernel" where
  "binit =
     bindk (modifyk (initlock BcacheLock ''bcache'')) (\<lambda>_.
     bindk (setb bhead (b_prev_update (\<lambda>_. bhead))) (\<lambda>_.
     bindk (setb bhead (b_next_update (\<lambda>_. bhead))) (\<lambda>_.
     foreachk [0..<NBUF] (\<lambda>b.
       bindk (initsleeplock (BufLk b) ''buffer'') (\<lambda>_.
       push_front b)))))"

text \<open>The two scans of \<open>bget\<close>: forward for the block, backward for an unused buffer.\<close>

definition bget_find :: "u32 \<Rightarrow> u32 \<Rightarrow> nat \<Rightarrow> (nat + nat option, 'z bio_st_scheme) kernel" where
  "bget_find dev blockno b =
     (if b = bhead then returnk (Inr None) else
     bindk (getb b (\<lambda>x. x)) (\<lambda>x.
     if b_dev x = dev \<and> b_blockno x = blockno then returnk (Inr (Some b))
     else returnk (Inl (b_next x))))"

definition bget_victim :: "nat \<Rightarrow> (nat + nat option, 'z bio_st_scheme) kernel" where
  "bget_victim b =
     (if b = bhead then returnk (Inr None) else
     bindk (getb b (\<lambda>x. x)) (\<lambda>x.
     if b_refcnt x = 0 then returnk (Inr (Some b))
     else returnk (Inl (b_prev x))))"

definition bget :: "u32 \<Rightarrow> u32 \<Rightarrow> (nat, 'z bio_st_scheme) kernel" where
  "bget dev blockno =
     bindk (acquire BcacheLock) (\<lambda>_.
     bindk (getb bhead b_next) (\<lambda>first.
     bindk (loopk (bget_find dev blockno) first) (\<lambda>hit. case hit of
       Some b \<Rightarrow>
         bindk (setb b (\<lambda>x. x\<lparr>b_refcnt := b_refcnt x + 1\<rparr>)) (\<lambda>_.
         bindk (release BcacheLock) (\<lambda>_.
         bindk (acquiresleep (BufLk b)) (\<lambda>_.
         returnk b)))
     | None \<Rightarrow>
       bindk (getb bhead b_prev) (\<lambda>lst.
       bindk (loopk bget_victim lst) (\<lambda>lru. case lru of
         Some b \<Rightarrow>
           bindk (setb b (\<lambda>x. x\<lparr>b_dev := dev, b_blockno := blockno, b_valid := False, b_refcnt := 1\<rparr>)) (\<lambda>_.
           bindk (release BcacheLock) (\<lambda>_.
           bindk (acquiresleep (BufLk b)) (\<lambda>_.
           returnk b)))
       | None \<Rightarrow> panick ''bget: no buffers'')))))"

definition bread :: "u32 \<Rightarrow> u32 \<Rightarrow> (nat, 'z bio_st_scheme) kernel" where
  "bread dev blockno =
     bindk (bget dev blockno) (\<lambda>b.
     bindk (getb b b_valid) (\<lambda>v.
     bindk (whenk (\<not> v) (
       bindk (disk_rw b False) (\<lambda>_.
       setb b (b_valid_update (\<lambda>_. True))))) (\<lambda>_.
     returnk b)))"

definition bwrite :: "nat \<Rightarrow> (unit, 'z bio_st_scheme) kernel" where
  "bwrite b =
     bindk (holdingsleep (BufLk b)) (\<lambda>h. if \<not> h then panick ''bwrite'' else
     disk_rw b True)"

definition unlink_buf :: "nat \<Rightarrow> (unit, 'z bio_st_scheme) kernel" where
  "unlink_buf b =
     bindk (getb b b_next) (\<lambda>n.
     bindk (getb b b_prev) (\<lambda>p.
     bindk (setb n (b_prev_update (\<lambda>_. p))) (\<lambda>_.
     bindk (getb b b_next) (\<lambda>n.
     bindk (getb b b_prev) (\<lambda>p.
     setb p (b_next_update (\<lambda>_. n)))))))"

definition brelse :: "nat \<Rightarrow> (unit, 'z bio_st_scheme) kernel" where
  "brelse b =
     bindk (holdingsleep (BufLk b)) (\<lambda>h. if \<not> h then panick ''brelse'' else
     bindk (releasesleep (BufLk b)) (\<lambda>_.
     bindk (acquire BcacheLock) (\<lambda>_.
     bindk (setb b (\<lambda>x. x\<lparr>b_refcnt := b_refcnt x - 1\<rparr>)) (\<lambda>_.
     bindk (getb b b_refcnt) (\<lambda>r.
     bindk (whenk (r = 0) (
       bindk (unlink_buf b) (\<lambda>_.
       push_front b))) (\<lambda>_.
     release BcacheLock))))))"

definition bpin :: "nat \<Rightarrow> (unit, 'z bio_st_scheme) kernel" where
  "bpin b =
     bindk (acquire BcacheLock) (\<lambda>_.
     bindk (setb b (\<lambda>x. x\<lparr>b_refcnt := b_refcnt x + 1\<rparr>)) (\<lambda>_.
     release BcacheLock))"

definition bunpin :: "nat \<Rightarrow> (unit, 'z bio_st_scheme) kernel" where
  "bunpin b =
     bindk (acquire BcacheLock) (\<lambda>_.
     bindk (setb b (\<lambda>x. x\<lparr>b_refcnt := b_refcnt x - 1\<rparr>)) (\<lambda>_.
     release BcacheLock))"

end
