(* ===== verification/Log.thy ===== *)
theory Log
  imports Bio
begin

text \<open>
  kernel/log.c: the redo log. \<open>begin_op\<close> waits with the outcome \<open>Sleeps\<close>; the thread runs
  \<open>begin_op_loop\<close> again when it resumes.
\<close>

record logheader =
  lh_n :: int
  lh_block :: "u32 list"

record log =
  log_start :: u32
  log_size :: int
  outstanding :: int
  committing :: int
  log_dev :: u32
  lh :: logheader

record superblock =
  sb_magic :: u32
  sb_size :: u32
  sb_nblocks :: u32
  sb_ninodes :: u32
  sb_nlog :: u32
  sb_logstart :: u32
  sb_inodestart :: u32
  sb_bmapstart :: u32

record log_st = bio_st +
  log :: log

definition upd_log :: "(log \<Rightarrow> log) \<Rightarrow> (unit, 'z log_st_scheme) kernel" where
  "upd_log f = modifyk (\<lambda>s. s\<lparr>log := f (log s)\<rparr>)"

definition set_n :: "int \<Rightarrow> (unit, 'z log_st_scheme) kernel" where
  "set_n n = upd_log (\<lambda>l. l\<lparr>lh := (lh l)\<lparr>lh_n := n\<rparr>\<rparr>)"

text \<open>The header as it lies in a block: \<open>n\<close>, then the block numbers.\<close>

definition hd_n :: "block \<Rightarrow> int" where
  "hd_n bs = sint (rd32 bs 0)"

definition hd_block :: "block \<Rightarrow> nat \<Rightarrow> u32" where
  "hd_block bs i = rd32 bs (4 + 4 * i)"

definition move_data :: "nat \<Rightarrow> nat \<Rightarrow> (unit, 'z bio_st_scheme) kernel" where
  "move_data dst src =
     bindk (getb src b_data) (\<lambda>d.
     setb dst (b_data_update (\<lambda>_. d)))"

definition install_one :: "bool \<Rightarrow> nat \<Rightarrow> (unit, 'z log_st_scheme) kernel" where
  "install_one recovering tail =
     bindk (getk log) (\<lambda>l.
     bindk (bread (log_dev l) (log_start l + of_nat tail + 1)) (\<lambda>lbuf.
     bindk (getk log) (\<lambda>l.
     bindk (bread (log_dev l) (lh_block (lh l) ! tail)) (\<lambda>dbuf.
     bindk (move_data dbuf lbuf) (\<lambda>_.
     bindk (bwrite dbuf) (\<lambda>_.
     bindk (whenk (\<not> recovering) (bunpin dbuf)) (\<lambda>_.
     bindk (brelse lbuf) (\<lambda>_.
     brelse dbuf))))))))"

definition install_trans :: "bool \<Rightarrow> (unit, 'z log_st_scheme) kernel" where
  "install_trans recovering =
     bindk (getk (\<lambda>s. lh_n (lh (log s)))) (\<lambda>n.
     foreachk [0..<nat n] (install_one recovering))"

definition read_head :: "(unit, 'z log_st_scheme) kernel" where
  "read_head =
     bindk (getk log) (\<lambda>l.
     bindk (bread (log_dev l) (log_start l)) (\<lambda>buf.
     bindk (getb buf b_data) (\<lambda>d.
     bindk (set_n (hd_n d)) (\<lambda>_.
     bindk (foreachk [0..<nat (hd_n d)] (\<lambda>i.
       upd_log (\<lambda>l. l\<lparr>lh := (lh l)\<lparr>lh_block := (lh_block (lh l))[i := hd_block d i]\<rparr>\<rparr>))) (\<lambda>_.
     brelse buf)))))"

definition write_head :: "(unit, 'z log_st_scheme) kernel" where
  "write_head =
     bindk (getk log) (\<lambda>l.
     bindk (bread (log_dev l) (log_start l)) (\<lambda>buf.
     bindk (getk (\<lambda>s. lh (log s))) (\<lambda>h.
     bindk (setb buf (\<lambda>x. x\<lparr>b_data := wr32 (b_data x) 0 (of_int (lh_n h))\<rparr>)) (\<lambda>_.
     bindk (foreachk [0..<nat (lh_n h)] (\<lambda>i.
       setb buf (\<lambda>x. x\<lparr>b_data := wr32 (b_data x) (4 + 4 * i) (lh_block h ! i)\<rparr>))) (\<lambda>_.
     bindk (bwrite buf) (\<lambda>_.
     brelse buf))))))"

definition recover_from_log :: "(unit, 'z log_st_scheme) kernel" where
  "recover_from_log =
     bindk read_head (\<lambda>_.
     bindk (install_trans True) (\<lambda>_.
     bindk (set_n 0) (\<lambda>_.
     write_head)))"

text \<open>\<open>sizeof(struct logheader)\<close> is \<open>4 + 4 * LOGSIZE\<close> bytes.\<close>

definition initlog :: "u32 \<Rightarrow> superblock \<Rightarrow> (unit, 'z log_st_scheme) kernel" where
  "initlog dev sb =
     (if 4 + 4 * LOGSIZE \<ge> BSIZE then panick ''initlog: too big logheader'' else
     bindk (modifyk (initlock LogLock ''log'')) (\<lambda>_.
     bindk (upd_log (\<lambda>l. l\<lparr>log_start := sb_logstart sb, log_size := sint (sb_nlog sb), log_dev := dev\<rparr>)) (\<lambda>_.
     recover_from_log)))"

definition begin_op_loop :: "(unit, 'z log_st_scheme) kernel" where
  "begin_op_loop =
     bindk (getk log) (\<lambda>l.
     if committing l \<noteq> 0 then sleep ChLog LogLock
     else if lh_n (lh l) + (outstanding l + 1) * int MAXOPBLOCKS > int LOGSIZE then sleep ChLog LogLock
     else
       bindk (upd_log (\<lambda>l. l\<lparr>outstanding := outstanding l + 1\<rparr>)) (\<lambda>_.
       release LogLock))"

definition begin_op :: "(unit, 'z log_st_scheme) kernel" where
  "begin_op = bindk (acquire LogLock) (\<lambda>_. begin_op_loop)"

definition write_log_one :: "nat \<Rightarrow> (unit, 'z log_st_scheme) kernel" where
  "write_log_one tail =
     bindk (getk log) (\<lambda>l.
     bindk (bread (log_dev l) (log_start l + of_nat tail + 1)) (\<lambda>to.
     bindk (getk log) (\<lambda>l.
     bindk (bread (log_dev l) (lh_block (lh l) ! tail)) (\<lambda>from.
     bindk (move_data to from) (\<lambda>_.
     bindk (bwrite to) (\<lambda>_.
     bindk (brelse from) (\<lambda>_.
     brelse to)))))))"

definition write_log :: "(unit, 'z log_st_scheme) kernel" where
  "write_log =
     bindk (getk (\<lambda>s. lh_n (lh (log s)))) (\<lambda>n.
     foreachk [0..<nat n] write_log_one)"

definition commit :: "(unit, 'z log_st_scheme) kernel" where
  "commit =
     bindk (getk (\<lambda>s. lh_n (lh (log s)))) (\<lambda>n.
     whenk (n > 0) (
       bindk write_log (\<lambda>_.
       bindk write_head (\<lambda>_.
       bindk (install_trans False) (\<lambda>_.
       bindk (set_n 0) (\<lambda>_.
       write_head))))))"

definition end_op :: "(unit, 'z log_st_scheme) kernel" where
  "end_op =
     bindk (acquire LogLock) (\<lambda>_.
     bindk (upd_log (\<lambda>l. l\<lparr>outstanding := outstanding l - 1\<rparr>)) (\<lambda>_.
     bindk (getk log) (\<lambda>l.
     if committing l \<noteq> 0 then panick ''log.committing'' else
     let do_commit = (outstanding l = 0) in
     bindk (if do_commit then upd_log (committing_update (\<lambda>_. 1))
            else wakeup (Some ChLog)) (\<lambda>_.
     bindk (release LogLock) (\<lambda>_.
     whenk do_commit (
       bindk commit (\<lambda>_.
       bindk (acquire LogLock) (\<lambda>_.
       bindk (upd_log (committing_update (\<lambda>_. 0))) (\<lambda>_.
       bindk (wakeup (Some ChLog)) (\<lambda>_.
       release LogLock))))))))))"

text \<open>The index of the absorption loop: the slot that holds the block already, else \<open>n\<close>.\<close>

definition log_slot :: "u32 list \<Rightarrow> nat \<Rightarrow> u32 \<Rightarrow> nat" where
  "log_slot bs n blockno = (case find_index (\<lambda>x. x = blockno) (take n bs) of None \<Rightarrow> n | Some i \<Rightarrow> i)"

definition log_write :: "nat \<Rightarrow> (unit, 'z log_st_scheme) kernel" where
  "log_write b =
     bindk (acquire LogLock) (\<lambda>_.
     bindk (getk log) (\<lambda>l.
     if lh_n (lh l) \<ge> int LOGSIZE \<or> lh_n (lh l) \<ge> log_size l - 1 then panick ''too big a transaction'' else
     if outstanding l < 1 then panick ''log_write outside of trans'' else
     bindk (getb b b_blockno) (\<lambda>blockno.
     let i = log_slot (lh_block (lh l)) (nat (lh_n (lh l))) blockno in
     bindk (upd_log (\<lambda>l. l\<lparr>lh := (lh l)\<lparr>lh_block := (lh_block (lh l))[i := blockno]\<rparr>\<rparr>)) (\<lambda>_.
     bindk (whenk (int i = lh_n (lh l)) (
       bindk (bpin b) (\<lambda>_.
       set_n (lh_n (lh l) + 1)))) (\<lambda>_.
     release LogLock)))))"

end
