(* ===== verification/Fs.thy ===== *)
theory Fs
  imports Log
begin

text \<open>
  kernel/fs.c: block allocation, inodes, inode contents, directories and path names. A pointer to
  an in-memory inode is its index in \<open>itable\<close>. Names and paths are byte lists: a path is a C
  string without its NUL, a name is the \<open>DIRSIZ\<close>-byte array that may or may not hold a NUL, and
  reading behind the end of a list reads the NUL of the string.
\<close>

section \<open>State\<close>

abbreviation (input) ROOTINO :: u32 where "ROOTINO \<equiv> 1"
abbreviation (input) FSMAGIC :: u32 where "FSMAGIC \<equiv> 0x10203040"
abbreviation (input) NDIRECT :: nat where "NDIRECT \<equiv> 12"
abbreviation (input) NINDIRECT :: nat where "NINDIRECT \<equiv> BSIZE div 4"
abbreviation (input) MAXFILE :: nat where "MAXFILE \<equiv> NDIRECT + NINDIRECT"
abbreviation (input) IPB :: u32 where "IPB \<equiv> 16"
abbreviation (input) BPB :: nat where "BPB \<equiv> BSIZE * 8"
abbreviation (input) DIRSIZ :: nat where "DIRSIZ \<equiv> 14"
abbreviation (input) T_DIR :: u16 where "T_DIR \<equiv> 1"
abbreviation (input) T_FILE :: u16 where "T_FILE \<equiv> 2"
abbreviation (input) T_DEVICE :: u16 where "T_DEVICE \<equiv> 3"

record inode =
  i_dev :: u32
  i_inum :: u32
  i_ref :: int
  i_valid :: bool
  i_type :: u16
  i_major :: u16
  i_minor :: u16
  i_nlink :: u16
  i_size :: u32
  i_addrs :: "u32 list"

record fs_st = log_st +
  sb :: superblock
  itable :: "inode list"

definition IBLOCK :: "u32 \<Rightarrow> superblock \<Rightarrow> u32" where
  "IBLOCK i b = i div IPB + sb_inodestart b"

definition BBLOCK :: "u32 \<Rightarrow> superblock \<Rightarrow> u32" where
  "BBLOCK b x = b div of_nat BPB + sb_bmapstart x"

definition geti :: "nat \<Rightarrow> (inode \<Rightarrow> 'a) \<Rightarrow> ('a, 'z fs_st_scheme) kernel" where
  "geti ip f = getk (\<lambda>s. f (itable s ! ip))"

definition seti :: "nat \<Rightarrow> (inode \<Rightarrow> inode) \<Rightarrow> (unit, 'z fs_st_scheme) kernel" where
  "seti ip f = modifyk (\<lambda>s. s\<lparr>itable := (itable s)[ip := f (itable s ! ip)]\<rparr>)"

section \<open>Super block and data blocks\<close>

definition superblock_of :: "block \<Rightarrow> superblock" where
  "superblock_of d = \<lparr>sb_magic = rd32 d 0, sb_size = rd32 d 4, sb_nblocks = rd32 d 8, sb_ninodes = rd32 d 12,
     sb_nlog = rd32 d 16, sb_logstart = rd32 d 20, sb_inodestart = rd32 d 24, sb_bmapstart = rd32 d 28\<rparr>"

definition readsb :: "u32 \<Rightarrow> (unit, 'z fs_st_scheme) kernel" where
  "readsb dev =
     bindk (bread dev 1) (\<lambda>bp.
     bindk (getb bp b_data) (\<lambda>d.
     bindk (modifyk (\<lambda>s. s\<lparr>sb := superblock_of d\<rparr>)) (\<lambda>_.
     brelse bp)))"

definition fsinit :: "u32 \<Rightarrow> (unit, 'z fs_st_scheme) kernel" where
  "fsinit dev =
     bindk (readsb dev) (\<lambda>_.
     bindk (getk sb) (\<lambda>b.
     if sb_magic b \<noteq> FSMAGIC then panick ''invalid file system'' else
     initlog dev b))"

definition bzero :: "u32 \<Rightarrow> u32 \<Rightarrow> (unit, 'z log_st_scheme) kernel" where
  "bzero dev bno =
     bindk (bread dev bno) (\<lambda>bp.
     bindk (setb bp (b_data_update (\<lambda>_. replicate BSIZE 0))) (\<lambda>_.
     bindk (log_write bp) (\<lambda>_.
     brelse bp)))"

definition bit_clear :: "block \<Rightarrow> nat \<Rightarrow> bool" where
  "bit_clear d bi \<longleftrightarrow> d ! (bi div 8) AND push_bit (bi mod 8) 1 = 0"

definition set_used :: "nat \<Rightarrow> block \<Rightarrow> block" where
  "set_used bi d = d[bi div 8 := d ! (bi div 8) OR push_bit (bi mod 8) 1]"

definition set_free :: "nat \<Rightarrow> block \<Rightarrow> block" where
  "set_free bi d = d[bi div 8 := d ! (bi div 8) AND NOT (push_bit (bi mod 8) 1)]"

definition balloc_body :: "u32 \<Rightarrow> u32 \<Rightarrow> (u32 + u32, 'z fs_st_scheme) kernel" where
  "balloc_body dev b =
     bindk (getk sb) (\<lambda>x.
     if \<not> b < sb_size x then
       bindk (printk ''balloc: out of blocks'') (\<lambda>_.
       returnk (Inr 0))
     else
     bindk (bread dev (BBLOCK b x)) (\<lambda>bp.
     bindk (getb bp b_data) (\<lambda>d.
     case List.find (bit_clear d) [0..<min BPB (unat (sb_size x) - unat b)] of
       Some bi \<Rightarrow>
         bindk (setb bp (b_data_update (set_used bi))) (\<lambda>_.
         bindk (log_write bp) (\<lambda>_.
         bindk (brelse bp) (\<lambda>_.
         bindk (bzero dev (b + of_nat bi)) (\<lambda>_.
         returnk (Inr (b + of_nat bi))))))
     | None \<Rightarrow>
         bindk (brelse bp) (\<lambda>_.
         returnk (Inl (b + of_nat BPB))))))"

definition balloc :: "u32 \<Rightarrow> (u32, 'z fs_st_scheme) kernel" where
  "balloc dev = loopk (balloc_body dev) 0"

definition bfree :: "u32 \<Rightarrow> u32 \<Rightarrow> (unit, 'z fs_st_scheme) kernel" where
  "bfree dev b =
     bindk (getk sb) (\<lambda>x.
     bindk (bread dev (BBLOCK b x)) (\<lambda>bp.
     let bi = unat b mod BPB in
     bindk (getb bp b_data) (\<lambda>d.
     if bit_clear d bi then panick ''freeing free block'' else
     bindk (setb bp (b_data_update (set_free bi))) (\<lambda>_.
     bindk (log_write bp) (\<lambda>_.
     brelse bp)))))"

section \<open>Inodes\<close>

definition iinit :: "(unit, 'z fs_st_scheme) kernel" where
  "iinit =
     bindk (modifyk (initlock ItableLock ''itable'')) (\<lambda>_.
     foreachk [0..<NINODE] (\<lambda>i. initsleeplock (InodeLk i) ''inode''))"

text \<open>The fields of a \<open>struct dinode\<close> at byte offset \<open>o\<close> of a block.\<close>

definition di_off :: "u32 \<Rightarrow> nat" where
  "di_off inum = 64 * unat (inum mod IPB)"

definition di_type :: "block \<Rightarrow> u32 \<Rightarrow> u16" where
  "di_type d inum = rd16 d (di_off inum)"

definition write_dinode :: "inode \<Rightarrow> block \<Rightarrow> block" where
  "write_dinode ip d =
     (let i = di_off (i_inum ip);
          d = wr16 d i (i_type ip);
          d = wr16 d (i + 2) (i_major ip);
          d = wr16 d (i + 4) (i_minor ip);
          d = wr16 d (i + 6) (i_nlink ip);
          d = wr32 d (i + 8) (i_size ip)
      in wr32s d (i + 12) (i_addrs ip))"

definition read_dinode :: "block \<Rightarrow> inode \<Rightarrow> inode" where
  "read_dinode d ip =
     (let i = di_off (i_inum ip)
      in ip\<lparr>i_type := rd16 d i, i_major := rd16 d (i + 2), i_minor := rd16 d (i + 4), i_nlink := rd16 d (i + 6),
         i_size := rd32 d (i + 8), i_addrs := rd32s d (i + 12) (NDIRECT + 1)\<rparr>)"

definition iget :: "u32 \<Rightarrow> u32 \<Rightarrow> (nat, 'z fs_st_scheme) kernel" where
  "iget dev inum =
     bindk (acquire ItableLock) (\<lambda>_.
     bindk (getk itable) (\<lambda>t.
     case find_index (\<lambda>ip. i_ref ip > 0 \<and> i_dev ip = dev \<and> i_inum ip = inum) t of
       Some ip \<Rightarrow>
         bindk (seti ip (\<lambda>x. x\<lparr>i_ref := i_ref x + 1\<rparr>)) (\<lambda>_.
         bindk (release ItableLock) (\<lambda>_.
         returnk ip))
     | None \<Rightarrow>
       (case find_index (\<lambda>ip. i_ref ip = 0) t of
          None \<Rightarrow> panick ''iget: no inodes''
        | Some ip \<Rightarrow>
          bindk (seti ip (\<lambda>x. x\<lparr>i_dev := dev, i_inum := inum, i_ref := 1, i_valid := False\<rparr>)) (\<lambda>_.
          bindk (release ItableLock) (\<lambda>_.
          returnk ip)))))"

definition ialloc_body :: "u32 \<Rightarrow> u16 \<Rightarrow> u32 \<Rightarrow> (u32 + nat option, 'z fs_st_scheme) kernel" where
  "ialloc_body dev type inum =
     bindk (getk sb) (\<lambda>x.
     if \<not> inum < sb_ninodes x then
       bindk (printk ''ialloc: no inodes'') (\<lambda>_.
       returnk (Inr None))
     else
     bindk (bread dev (IBLOCK inum x)) (\<lambda>bp.
     bindk (getb bp b_data) (\<lambda>d.
     if di_type d inum = 0 then
       bindk (setb bp (b_data_update (\<lambda>d. wr16 (splice d (di_off inum) (replicate 64 0)) (di_off inum) type))) (\<lambda>_.
       bindk (log_write bp) (\<lambda>_.
       bindk (brelse bp) (\<lambda>_.
       bindk (iget dev inum) (\<lambda>ip.
       returnk (Inr (Some ip))))))
     else
       bindk (brelse bp) (\<lambda>_.
       returnk (Inl (inum + 1))))))"

definition ialloc :: "u32 \<Rightarrow> u16 \<Rightarrow> (nat option, 'z fs_st_scheme) kernel" where
  "ialloc dev type = loopk (ialloc_body dev type) 1"

definition iupdate :: "nat \<Rightarrow> (unit, 'z fs_st_scheme) kernel" where
  "iupdate ip =
     bindk (getk sb) (\<lambda>x.
     bindk (geti ip (\<lambda>i. i)) (\<lambda>i.
     bindk (bread (i_dev i) (IBLOCK (i_inum i) x)) (\<lambda>bp.
     bindk (geti ip (\<lambda>i. i)) (\<lambda>i.
     bindk (setb bp (b_data_update (write_dinode i))) (\<lambda>_.
     bindk (log_write bp) (\<lambda>_.
     brelse bp))))))"

definition idup :: "nat \<Rightarrow> (nat, 'z fs_st_scheme) kernel" where
  "idup ip =
     bindk (acquire ItableLock) (\<lambda>_.
     bindk (seti ip (\<lambda>x. x\<lparr>i_ref := i_ref x + 1\<rparr>)) (\<lambda>_.
     bindk (release ItableLock) (\<lambda>_.
     returnk ip)))"

definition ilock :: "nat option \<Rightarrow> (unit, 'z fs_st_scheme) kernel" where
  "ilock ptr =
     (case ptr of None \<Rightarrow> panick ''ilock'' | Some ip \<Rightarrow>
     bindk (geti ip i_ref) (\<lambda>r. if r < 1 then panick ''ilock'' else
     bindk (acquiresleep (InodeLk ip)) (\<lambda>_.
     bindk (geti ip (\<lambda>i. i)) (\<lambda>i.
     whenk (\<not> i_valid i) (
       bindk (getk sb) (\<lambda>x.
       bindk (bread (i_dev i) (IBLOCK (i_inum i) x)) (\<lambda>bp.
       bindk (getb bp b_data) (\<lambda>d.
       bindk (seti ip (read_dinode d)) (\<lambda>_.
       bindk (brelse bp) (\<lambda>_.
       bindk (seti ip (i_valid_update (\<lambda>_. True))) (\<lambda>_.
       bindk (geti ip i_type) (\<lambda>t.
       if t = 0 then panick ''ilock: no type'' else returnk ()))))))))))))"

definition iunlock :: "nat option \<Rightarrow> (unit, 'z fs_st_scheme) kernel" where
  "iunlock ptr =
     (case ptr of None \<Rightarrow> panick ''iunlock'' | Some ip \<Rightarrow>
     bindk (holdingsleep (InodeLk ip)) (\<lambda>h. if \<not> h then panick ''iunlock'' else
     bindk (geti ip i_ref) (\<lambda>r. if r < 1 then panick ''iunlock'' else
     releasesleep (InodeLk ip))))"

section \<open>Inode contents\<close>

text \<open>\<open>addrs[i]\<close>, allocated if it is 0; the result is 0 if the disk is full.\<close>

definition bmap_slot :: "nat \<Rightarrow> nat \<Rightarrow> (u32, 'z fs_st_scheme) kernel" where
  "bmap_slot ip i =
     bindk (geti ip (\<lambda>x. i_addrs x ! i)) (\<lambda>addr.
     if addr \<noteq> 0 then returnk addr else
     bindk (geti ip i_dev) (\<lambda>dev.
     bindk (balloc dev) (\<lambda>addr.
     if addr = 0 then returnk 0 else
     bindk (seti ip (\<lambda>x. x\<lparr>i_addrs := (i_addrs x)[i := addr]\<rparr>)) (\<lambda>_.
     returnk addr))))"

definition bmap :: "nat \<Rightarrow> u32 \<Rightarrow> (u32, 'z fs_st_scheme) kernel" where
  "bmap ip bn =
     (if unat bn < NDIRECT then bmap_slot ip (unat bn) else
      let bn = unat bn - NDIRECT in
      if bn < NINDIRECT then
        bindk (bmap_slot ip NDIRECT) (\<lambda>addr.
        if addr = 0 then returnk 0 else
        bindk (geti ip i_dev) (\<lambda>dev.
        bindk (bread dev addr) (\<lambda>bp.
        bindk (getb bp b_data) (\<lambda>d.
        let addr = rd32 d (4 * bn) in
        bindk (if addr \<noteq> 0 then returnk addr else
               bindk (balloc dev) (\<lambda>addr.
               bindk (whenk (addr \<noteq> 0) (
                 bindk (setb bp (b_data_update (\<lambda>d. wr32 d (4 * bn) addr))) (\<lambda>_.
                 log_write bp))) (\<lambda>_.
               returnk addr))) (\<lambda>addr.
        bindk (brelse bp) (\<lambda>_.
        returnk addr))))))
      else panick ''bmap: out of range'')"

definition itrunc :: "nat \<Rightarrow> (unit, 'z fs_st_scheme) kernel" where
  "itrunc ip =
     bindk (geti ip i_dev) (\<lambda>dev.
     bindk (foreachk [0..<NDIRECT] (\<lambda>i.
       bindk (geti ip (\<lambda>x. i_addrs x ! i)) (\<lambda>addr.
       whenk (addr \<noteq> 0) (
         bindk (bfree dev addr) (\<lambda>_.
         seti ip (\<lambda>x. x\<lparr>i_addrs := (i_addrs x)[i := 0]\<rparr>)))))) (\<lambda>_.
     bindk (geti ip (\<lambda>x. i_addrs x ! NDIRECT)) (\<lambda>addr.
     bindk (whenk (addr \<noteq> 0) (
       bindk (bread dev addr) (\<lambda>bp.
       bindk (foreachk [0..<NINDIRECT] (\<lambda>j.
         bindk (getb bp (\<lambda>b. rd32 (b_data b) (4 * j))) (\<lambda>a.
         whenk (a \<noteq> 0) (bfree dev a)))) (\<lambda>_.
       bindk (brelse bp) (\<lambda>_.
       bindk (bfree dev addr) (\<lambda>_.
       seti ip (\<lambda>x. x\<lparr>i_addrs := (i_addrs x)[NDIRECT := 0]\<rparr>))))))) (\<lambda>_.
     bindk (seti ip (i_size_update (\<lambda>_. 0))) (\<lambda>_.
     iupdate ip)))))"

definition iput :: "nat \<Rightarrow> (unit, 'z fs_st_scheme) kernel" where
  "iput ip =
     bindk (acquire ItableLock) (\<lambda>_.
     bindk (geti ip (\<lambda>i. i)) (\<lambda>i.
     bindk (whenk (i_ref i = 1 \<and> i_valid i \<and> i_nlink i = 0) (
       bindk (acquiresleep (InodeLk ip)) (\<lambda>_.
       bindk (release ItableLock) (\<lambda>_.
       bindk (itrunc ip) (\<lambda>_.
       bindk (seti ip (i_type_update (\<lambda>_. 0))) (\<lambda>_.
       bindk (iupdate ip) (\<lambda>_.
       bindk (seti ip (i_valid_update (\<lambda>_. False))) (\<lambda>_.
       bindk (releasesleep (InodeLk ip)) (\<lambda>_.
       acquire ItableLock))))))))) (\<lambda>_.
     bindk (seti ip (\<lambda>x. x\<lparr>i_ref := i_ref x - 1\<rparr>)) (\<lambda>_.
     release ItableLock))))"

definition iunlockput :: "nat \<Rightarrow> (unit, 'z fs_st_scheme) kernel" where
  "iunlockput ip =
     bindk (iunlock (Some ip)) (\<lambda>_.
     iput ip)"

record stat =
  st_dev :: u32
  st_ino :: u32
  st_type :: u16
  st_nlink :: u16
  st_size :: u64

definition stati :: "nat \<Rightarrow> (stat, 'z fs_st_scheme) kernel" where
  "stati ip = geti ip (\<lambda>i. \<lparr>st_dev = i_dev i, st_ino = i_inum i, st_type = i_type i, st_nlink = i_nlink i,
     st_size = ucast (i_size i)\<rparr>)"

text \<open>
  Copies between a buffer's data and user or kernel memory: the bytes concerned lie at \<open>kobj\<close>
  during the copy. A copy into the buffer that fails half-way leaves the bytes it got.
\<close>

definition either_copyout_obj :: "bool \<Rightarrow> u64 \<Rightarrow> u8 list \<Rightarrow> (int, 'z proc_st_scheme) kernel" where
  "either_copyout_obj user_dst dst bs =
     bindk (getk kobj) (\<lambda>a.
     bindk (modifyk (\<lambda>s. s\<lparr>mem := store_bytes (mem s) a bs\<rparr>)) (\<lambda>_.
     either_copyout user_dst dst a (of_nat (length bs))))"

definition either_copyin_obj :: "u8 list \<Rightarrow> bool \<Rightarrow> u64 \<Rightarrow> (int \<times> u8 list, 'z proc_st_scheme) kernel" where
  "either_copyin_obj bs user_src src =
     bindk (getk kobj) (\<lambda>a.
     bindk (modifyk (\<lambda>s. s\<lparr>mem := store_bytes (mem s) a bs\<rparr>)) (\<lambda>_.
     bindk (either_copyin a user_src src (of_nat (length bs))) (\<lambda>r.
     bindk (getk (\<lambda>s. load_bytes (mem s) a (length bs))) (\<lambda>bs'.
     returnk (r, bs')))))"

definition block_part :: "u32 \<Rightarrow> u32 \<Rightarrow> nat" where
  "block_part left off = min (unat left) (BSIZE - unat off mod BSIZE)"

definition readi_body :: "nat \<Rightarrow> bool \<Rightarrow> u32 \<Rightarrow> u32 \<times> u32 \<times> u64 \<Rightarrow> ((u32 \<times> u32 \<times> u64) + int, 'z fs_st_scheme) kernel" where
  "readi_body ip user_dst n = (\<lambda>(tot, off, dst).
     if \<not> tot < n then returnk (Inr (sint tot)) else
     bindk (bmap ip (off div of_nat BSIZE)) (\<lambda>addr.
     if addr = 0 then returnk (Inr (sint tot)) else
     bindk (geti ip i_dev) (\<lambda>dev.
     bindk (bread dev addr) (\<lambda>bp.
     bindk (getb bp b_data) (\<lambda>d.
     let m = block_part (n - tot) off in
     bindk (either_copyout_obj user_dst dst (take m (drop (unat off mod BSIZE) d))) (\<lambda>r.
     bindk (brelse bp) (\<lambda>_.
     if r = -1 then returnk (Inr (-1))
     else returnk (Inl (tot + of_nat m, off + of_nat m, dst + of_nat m)))))))))"

definition readi :: "nat \<Rightarrow> bool \<Rightarrow> u64 \<Rightarrow> u32 \<Rightarrow> u32 \<Rightarrow> (int, 'z fs_st_scheme) kernel" where
  "readi ip user_dst dst off n =
     bindk (geti ip i_size) (\<lambda>sz.
     if off > sz \<or> off + n < off then returnk 0 else
     let n = (if off + n > sz then sz - off else n) in
     loopk (readi_body ip user_dst n) (0, off, dst))"

definition writei_body :: "nat \<Rightarrow> bool \<Rightarrow> u32 \<Rightarrow> u32 \<times> u32 \<times> u64 \<Rightarrow> ((u32 \<times> u32 \<times> u64) + (u32 \<times> u32), 'z fs_st_scheme) kernel" where
  "writei_body ip user_src n = (\<lambda>(tot, off, src).
     if \<not> tot < n then returnk (Inr (tot, off)) else
     bindk (bmap ip (off div of_nat BSIZE)) (\<lambda>addr.
     if addr = 0 then returnk (Inr (tot, off)) else
     bindk (geti ip i_dev) (\<lambda>dev.
     bindk (bread dev addr) (\<lambda>bp.
     bindk (getb bp b_data) (\<lambda>d.
     let m = block_part (n - tot) off; i = unat off mod BSIZE in
     bindk (either_copyin_obj (take m (drop i d)) user_src src) (\<lambda>(r, bs).
     bindk (setb bp (b_data_update (\<lambda>d. splice d i bs))) (\<lambda>_.
     if r = -1 then
       bindk (brelse bp) (\<lambda>_.
       returnk (Inr (tot, off)))
     else
       bindk (log_write bp) (\<lambda>_.
       bindk (brelse bp) (\<lambda>_.
       returnk (Inl (tot + of_nat m, off + of_nat m, src + of_nat m)))))))))))"

definition writei :: "nat \<Rightarrow> bool \<Rightarrow> u64 \<Rightarrow> u32 \<Rightarrow> u32 \<Rightarrow> (int, 'z fs_st_scheme) kernel" where
  "writei ip user_src src off n =
     bindk (geti ip i_size) (\<lambda>sz.
     if off > sz \<or> off + n < off then returnk (-1) else
     if unat (off + n) > MAXFILE * BSIZE then returnk (-1) else
     bindk (loopk (writei_body ip user_src n) (0, off, src)) (\<lambda>(tot, off).
     bindk (geti ip i_size) (\<lambda>sz.
     bindk (whenk (off > sz) (seti ip (i_size_update (\<lambda>_. off)))) (\<lambda>_.
     bindk (iupdate ip) (\<lambda>_.
     returnk (sint tot))))))"

section \<open>Directories\<close>

definition char_at :: "u8 list \<Rightarrow> nat \<Rightarrow> u8" where
  "char_at s i = (if i < length s then s ! i else 0)"

fun strncmp_from :: "nat \<Rightarrow> nat \<Rightarrow> u8 list \<Rightarrow> u8 list \<Rightarrow> int" where
  "strncmp_from 0 i p q = 0"
| "strncmp_from (Suc n) i p q =
     (if char_at p i \<noteq> 0 \<and> char_at p i = char_at q i then strncmp_from n (i + 1) p q
      else uint (char_at p i) - uint (char_at q i))"

definition namecmp :: "u8 list \<Rightarrow> u8 list \<Rightarrow> int" where
  "namecmp s t = strncmp_from DIRSIZ 0 s t"

definition name_field :: "u8 list \<Rightarrow> u8 list" where
  "name_field name = (let t = takeWhile (\<lambda>c. c \<noteq> 0) (take DIRSIZ name) in t @ replicate (DIRSIZ - length t) 0)"

record dirent =
  d_inum :: u16
  d_name :: "u8 list"

definition read_dirent :: "nat \<Rightarrow> u32 \<Rightarrow> string \<Rightarrow> (dirent, 'z fs_st_scheme) kernel" where
  "read_dirent dp off msg =
     bindk (getk kloc) (\<lambda>a.
     bindk (readi dp False a off 16) (\<lambda>r.
     if r \<noteq> 16 then panick msg else
     getk (\<lambda>s. let bs = load_bytes (mem s) a 16 in \<lparr>d_inum = rd16 bs 0, d_name = drop 2 bs\<rparr>)))"

definition dirlookup_body :: "nat \<Rightarrow> u8 list \<Rightarrow> u32 \<Rightarrow> (u32 + (nat \<times> u32) option, 'z fs_st_scheme) kernel" where
  "dirlookup_body dp name off =
     bindk (geti dp i_size) (\<lambda>sz.
     if \<not> off < sz then returnk (Inr None) else
     bindk (read_dirent dp off ''dirlookup read'') (\<lambda>de.
     if d_inum de = 0 then returnk (Inl (off + 16)) else
     if namecmp name (d_name de) = 0 then
       bindk (geti dp i_dev) (\<lambda>dev.
       bindk (iget dev (ucast (d_inum de))) (\<lambda>ip.
       returnk (Inr (Some (ip, off)))))
     else returnk (Inl (off + 16))))"

definition dirlookup :: "nat \<Rightarrow> u8 list \<Rightarrow> ((nat \<times> u32) option, 'z fs_st_scheme) kernel" where
  "dirlookup dp name =
     bindk (geti dp i_type) (\<lambda>t. if t \<noteq> T_DIR then panick ''dirlookup not DIR'' else
     loopk (dirlookup_body dp name) 0)"

definition dirlink_scan :: "nat \<Rightarrow> u32 \<Rightarrow> (u32 + u32, 'z fs_st_scheme) kernel" where
  "dirlink_scan dp off =
     bindk (geti dp i_size) (\<lambda>sz.
     if \<not> off < sz then returnk (Inr off) else
     bindk (read_dirent dp off ''dirlink read'') (\<lambda>de.
     if d_inum de = 0 then returnk (Inr off)
     else returnk (Inl (off + 16))))"

definition dirlink :: "nat \<Rightarrow> u8 list \<Rightarrow> u32 \<Rightarrow> (int, 'z fs_st_scheme) kernel" where
  "dirlink dp name inum =
     bindk (dirlookup dp name) (\<lambda>found. case found of
       Some (ip, off) \<Rightarrow>
         bindk (iput ip) (\<lambda>_.
         returnk (-1))
     | None \<Rightarrow>
       bindk (loopk (dirlink_scan dp) 0) (\<lambda>off.
       bindk (getk kloc) (\<lambda>a.
       bindk (modifyk (\<lambda>s. s\<lparr>mem := store_bytes (mem s) a (le_bytes 2 (ucast inum :: u16) @ name_field name)\<rparr>)) (\<lambda>_.
       bindk (writei dp False a off 16) (\<lambda>r.
       if r \<noteq> 16 then returnk (-1) else returnk 0)))))"

section \<open>Path names\<close>

abbreviation (input) slash :: u8 where "slash \<equiv> 47"

definition skipelem :: "u8 list \<Rightarrow> u8 list \<Rightarrow> (u8 list \<times> u8 list) option" where
  "skipelem path name =
     (let path = dropWhile (\<lambda>c. c = slash) path in
      if path = [] then None else
      let s = takeWhile (\<lambda>c. c \<noteq> slash) path;
          path = dropWhile (\<lambda>c. c \<noteq> slash) path;
          name = (if length s \<ge> DIRSIZ then take DIRSIZ s else s @ [0] @ drop (length s + 1) name)
      in Some (dropWhile (\<lambda>c. c = slash) path, name))"

definition namex_body :: "bool \<Rightarrow> u8 list \<times> nat \<times> u8 list \<Rightarrow> ((u8 list \<times> nat \<times> u8 list) + nat option \<times> u8 list, 'z fs_st_scheme) kernel" where
  "namex_body parent = (\<lambda>(path, ip, name).
     case skipelem path name of
       None \<Rightarrow>
         if parent then bindk (iput ip) (\<lambda>_. returnk (Inr (None, name)))
         else returnk (Inr (Some ip, name))
     | Some (path, name) \<Rightarrow>
       bindk (ilock (Some ip)) (\<lambda>_.
       bindk (geti ip i_type) (\<lambda>t.
       if t \<noteq> T_DIR then
         bindk (iunlockput ip) (\<lambda>_.
         returnk (Inr (None, name)))
       else if parent \<and> path = [] then
         bindk (iunlock (Some ip)) (\<lambda>_.
         returnk (Inr (Some ip, name)))
       else
       bindk (dirlookup ip name) (\<lambda>nxt. case nxt of
         None \<Rightarrow>
           bindk (iunlockput ip) (\<lambda>_.
           returnk (Inr (None, name)))
       | Some (nip, off) \<Rightarrow>
           bindk (iunlockput ip) (\<lambda>_.
           returnk (Inl (path, nip, name)))))))"

definition namex :: "u8 list \<Rightarrow> bool \<Rightarrow> u8 list \<Rightarrow> (nat option \<times> u8 list, 'z fs_st_scheme) kernel" where
  "namex path parent name =
     bindk (if char_at path 0 = slash then iget ROOTDEV ROOTINO
            else bindk myproc (\<lambda>me. derefk me (\<lambda>p. bindk (getp p p_cwd) (\<lambda>cwd. derefk cwd idup)))) (\<lambda>ip.
     loopk (namex_body parent) (path, ip, name))"

definition namei :: "u8 list \<Rightarrow> (nat option, 'z fs_st_scheme) kernel" where
  "namei path =
     bindk (namex path False (replicate DIRSIZ 0)) (\<lambda>(ip, name).
     returnk ip)"

definition nameiparent :: "u8 list \<Rightarrow> u8 list \<Rightarrow> (nat option \<times> u8 list, 'z fs_st_scheme) kernel" where
  "nameiparent path name = namex path True name"

end
