(* ===== verification/Printf.thy ===== *)
theory Printf
  imports Riscv
begin

text \<open>
  Formatted output: kernel/printf.c and user/printf.c. The text a call prints is a list of bytes;
  \<open>None\<close> is a format that asks for an argument that is not there or has another type, which is
  undefined in C. The two files differ in the digits, in the sign of \<open>%x\<close> and in the conversions
  they know. The lemmas show that the integer conversions can be read back.
\<close>

type_synonym ctext = "u8 list"

datatype arg =
    ArgInt u32
  | ArgLong u64
  | ArgPtr u64
  | ArgStr "ctext option"

definition digits_lower :: ctext where
  "digits_lower = [48, 49, 50, 51, 52, 53, 54, 55, 56, 57, 97, 98, 99, 100, 101, 102]"

definition digits_upper :: ctext where
  "digits_upper = [48, 49, 50, 51, 52, 53, 54, 55, 56, 57, 65, 66, 67, 68, 69, 70]"

text \<open>The digits of the \<open>do\<close> loop of \<open>printint\<close>, in the order they go into its buffer.\<close>

function int_digits :: "nat \<Rightarrow> nat \<Rightarrow> nat list" where
  "int_digits base x = x mod base # (if x div base = 0 \<or> base < 2 then [] else int_digits base (x div base))"
  by pat_completeness auto
termination by (relation "measure snd") (auto intro!: div_less_dividend simp: div_greater_zero_iff)

declare int_digits.simps [simp del]

text \<open>
  The negation \<open>x = -xx\<close> is of an \<open>int\<close>: for the smallest one it overflows, which C leaves
  undefined. The definition wraps there, as the compiled code does; nothing is claimed of that
  case.
\<close>

definition printint_buf :: "ctext \<Rightarrow> u32 \<Rightarrow> nat \<Rightarrow> bool \<Rightarrow> ctext" where
  "printint_buf digits xx base sign =
     (let neg = (sign \<and> sint xx < 0);
          x = (if neg then - xx else xx);
          buf = map (\<lambda>d. digits ! d) (int_digits base (unat x))
      in if neg then buf @ [45] else buf)"

definition printint :: "ctext \<Rightarrow> u32 \<Rightarrow> nat \<Rightarrow> bool \<Rightarrow> ctext" where
  "printint digits xx base sign = rev (printint_buf digits xx base sign)"

definition printptr :: "ctext \<Rightarrow> u64 \<Rightarrow> ctext" where
  "printptr digits x = [48, 120] @ map (\<lambda>i. digits ! unat (drop_bit 60 (push_bit (4 * i) x))) [0..<16]"

definition null_text :: ctext where
  "null_text = [40, 110, 117, 108, 108, 41]"

definition str_arg :: "ctext option \<Rightarrow> ctext" where
  "str_arg s = (case s of None \<Rightarrow> null_text | Some t \<Rightarrow> t)"

text \<open>The loop of the kernel's \<open>printf\<close> over the format (a string without its NUL).\<close>

fun printf_text :: "ctext \<Rightarrow> arg list \<Rightarrow> ctext option" where
  "printf_text [] ap = Some []"
| "printf_text [c] ap = (if c \<noteq> 37 then Some [c] else Some [])"
| "printf_text (c # d # fmt) ap =
     (if c \<noteq> 37 then map_option ((#) c) (printf_text (d # fmt) ap)
      else if d = 100 then
        (case ap of ArgInt x # ap \<Rightarrow> map_option ((@) (printint digits_lower x 10 True)) (printf_text fmt ap) | _ \<Rightarrow> None)
      else if d = 120 then
        (case ap of ArgInt x # ap \<Rightarrow> map_option ((@) (printint digits_lower x 16 True)) (printf_text fmt ap) | _ \<Rightarrow> None)
      else if d = 112 then
        (case ap of ArgPtr x # ap \<Rightarrow> map_option ((@) (printptr digits_lower x)) (printf_text fmt ap) | _ \<Rightarrow> None)
      else if d = 115 then
        (case ap of ArgStr s # ap \<Rightarrow> map_option ((@) (str_arg s)) (printf_text fmt ap) | _ \<Rightarrow> None)
      else if d = 37 then map_option ((#) 37) (printf_text fmt ap)
      else map_option (\<lambda>t. 37 # d # t) (printf_text fmt ap))"

text \<open>One conversion of the user library's \<open>vprintf\<close>, and its loop with the state variable.\<close>

definition vprintf_conv :: "u8 \<Rightarrow> arg list \<Rightarrow> (ctext \<times> arg list) option" where
  "vprintf_conv c ap =
     (if c = 100 then (case ap of ArgInt x # ap \<Rightarrow> Some (printint digits_upper x 10 True, ap) | _ \<Rightarrow> None)
      else if c = 108 then (case ap of ArgLong x # ap \<Rightarrow> Some (printint digits_upper (ucast x) 10 False, ap) | _ \<Rightarrow> None)
      else if c = 120 then (case ap of ArgInt x # ap \<Rightarrow> Some (printint digits_upper x 16 False, ap) | _ \<Rightarrow> None)
      else if c = 112 then (case ap of ArgPtr x # ap \<Rightarrow> Some (printptr digits_upper x, ap) | _ \<Rightarrow> None)
      else if c = 115 then (case ap of ArgStr s # ap \<Rightarrow> Some (str_arg s, ap) | _ \<Rightarrow> None)
      else if c = 99 then (case ap of ArgInt x # ap \<Rightarrow> Some ([ucast x], ap) | _ \<Rightarrow> None)
      else if c = 37 then Some ([c], ap)
      else Some ([37, c], ap))"

fun vprintf_text :: "bool \<Rightarrow> ctext \<Rightarrow> arg list \<Rightarrow> ctext option" where
  "vprintf_text st [] ap = Some []"
| "vprintf_text False (c # fmt) ap =
     (if c = 37 then vprintf_text True fmt ap else map_option ((#) c) (vprintf_text False fmt ap))"
| "vprintf_text True (c # fmt) ap =
     (case vprintf_conv c ap of None \<Rightarrow> None
      | Some (t, ap) \<Rightarrow> map_option ((@) t) (vprintf_text False fmt ap))"

section \<open>Reading numbers back\<close>

fun digit_value :: "ctext \<Rightarrow> u8 \<Rightarrow> nat option" where
  "digit_value digits c = find_index (\<lambda>d. d = c) digits"

definition read_nat :: "ctext \<Rightarrow> nat \<Rightarrow> ctext \<Rightarrow> nat" where
  "read_nat digits base t = foldl (\<lambda>n c. base * n + (case digit_value digits c of None \<Rightarrow> 0 | Some d \<Rightarrow> d)) 0 t"

definition read_int :: "ctext \<Rightarrow> nat \<Rightarrow> ctext \<Rightarrow> int" where
  "read_int digits base t =
     (case t of c # ds \<Rightarrow> if c = 45 then - int (read_nat digits base ds) else int (read_nat digits base t) | [] \<Rightarrow> 0)"

lemma read_nat_snoc:
  "read_nat ds base (t @ [c]) = base * read_nat ds base t + (case digit_value ds c of None \<Rightarrow> 0 | Some d \<Rightarrow> d)"
  by (simp add: read_nat_def)

lemma digit_value_nth:
  "distinct ds \<Longrightarrow> d < length ds \<Longrightarrow> digit_value ds (ds ! d) = Some d"
  by (auto simp: find_index_Some nth_eq_iff_index_eq)

lemma int_digits_bound: "0 < base \<Longrightarrow> d \<in> set (int_digits base x) \<Longrightarrow> d < base"
proof (induction base x rule: int_digits.induct)
  case (1 base x)
  then show ?case by (subst (asm) (2) int_digits.simps) (auto split: if_splits)
qed

lemma int_digits_nonempty: "int_digits base x \<noteq> []"
  by (subst int_digits.simps) simp

lemma read_nat_digits:
  assumes "2 \<le> base" "base \<le> length ds" "distinct ds"
  shows "read_nat ds base (rev (map ((!) ds) (int_digits base x))) = x"
proof (induction x rule: less_induct)
  case (less x)
  have d: "digit_value ds (ds ! (x mod base)) = Some (x mod base)"
    using assms by (intro digit_value_nth) (auto intro: less_le_trans[of _ base])
  show ?case
  proof (cases "x div base = 0")
    case True
    then have "x mod base = x" using div_mult_mod_eq[of x base] by simp
    then show ?thesis using d True by (subst int_digits.simps) (simp add: read_nat_def del: digit_value.simps)
  next
    case False
    then have "x div base < x" using assms(1) by (intro div_less_dividend) (auto simp: div_greater_zero_iff)
    from less.IH[OF this] False assms(1) d show ?thesis
      by (subst int_digits.simps) (simp add: read_nat_snoc del: digit_value.simps)
  qed
qed

lemma length_int_digits: "2 \<le> base \<Longrightarrow> x < base ^ Suc k \<Longrightarrow> length (int_digits base x) \<le> Suc k"
proof (induction k arbitrary: x)
  case 0
  then show ?case by (subst int_digits.simps) simp
next
  case (Suc k)
  have "x div base < base ^ Suc k"
    using Suc.prems by (simp add: less_mult_imp_div_less mult.commute)
  from Suc.IH[OF Suc.prems(1) this] show ?case by (subst int_digits.simps) simp
qed

lemma digits_ok:
  "distinct digits_lower" "length digits_lower = 16" "distinct digits_upper" "length digits_upper = 16"
  "45 \<notin> set digits_lower" "45 \<notin> set digits_upper"
  by (simp_all add: digits_lower_def digits_upper_def)

lemma sint_by_sign: "sint (x :: u32) = (if sint x < 0 then uint x - 2 ^ 32 else uint x)"
proof -
  have "take_bit 32 (uint x) = uint x" using uint_lt2p[of x] by (simp add: take_bit_eq_mod)
  then have "sint x = uint x - 2 ^ 32 * of_bool (bit x 31)"
    by (simp add: sint_uint signed_take_bit_eq_take_bit_minus bit_uint_iff)
  then show ?thesis using uint_lt2p[of x] by (auto simp: of_bool_def split: if_splits)
qed

lemma unat_neg_sint:
  assumes "sint (x :: u32) < 0"
  shows "int (unat (- x)) = - sint x"
proof -
  have "x \<noteq> 0" using assms by auto
  then have "uint x mod 2 ^ 32 = uint x" "uint x \<noteq> 0" using uint_lt2p[of x] by (simp_all add: uint_0_iff)
  then have u: "int (unat (- x)) = 2 ^ 32 - uint x"
    using uint_word_ariths(4)[of x] by (simp add: zmod_zminus1_eq_if)
  with assms sint_by_sign[of x] show ?thesis by simp
qed

lemma nonneg_sint: "\<not> sint (x :: u32) < 0 \<Longrightarrow> int (unat x) = sint x"
  using sint_by_sign[of x] by simp

lemma read_int_plain: "45 \<notin> set t \<Longrightarrow> read_int ds base t = int (read_nat ds base t)"
  by (auto simp: read_int_def read_nat_def split: list.splits)

lemma set_digit_text:
  assumes "0 < base" "base \<le> length ds"
  shows "set (map ((!) ds) (int_digits base x)) \<subseteq> set ds"
  using int_digits_bound[OF assms(1)] assms(2) by (force intro!: nth_mem)

text \<open>
  C37: \<open>printint\<close> prints the number it is given. For the bases 10 and 16, the only ones it is called
  with, and either digit alphabet, the signed text of a 32-bit integer reads back as that
  integer and the unsigned text as its unsigned value, and the digits and the sign fit the
  16-byte buffer. The smallest integer is left out of the signed case, since negating it is
  undefined in C.
\<close>

theorem printint_roundtrip:
  assumes "base \<in> {10, 16}" "digits \<in> {digits_lower, digits_upper}" "sign \<Longrightarrow> xx \<noteq> 0x80000000"
  shows "(if sign then read_int digits base (printint digits xx base sign) = sint xx
      else read_nat digits base (printint digits xx base sign) = unat xx) \<and>
    length (printint_buf digits xx base sign) \<le> 16"
proof (intro conjI)
  have b: "2 \<le> base" "base \<le> length digits" "distinct digits" "45 \<notin> set digits"
    using assms digits_ok by auto
  note r = read_nat_digits[OF b(1-3)]
  have "45 \<notin> set (rev (map ((!) digits) (int_digits base x)))" for x
    using set_digit_text[of base digits x] b by auto
  then have p: "read_int digits base (rev (map ((!) digits) (int_digits base x))) =
      int (read_nat digits base (rev (map ((!) digits) (int_digits base x))))" for x
    by (rule read_int_plain)
  have "read_int digits base (printint digits xx base True) = sint xx"
  proof (cases "sint xx < 0")
    case True
    then have "read_int digits base (printint digits xx base True) =
        - int (read_nat digits base (rev (map ((!) digits) (int_digits base (unat (- xx))))))"
      by (simp add: printint_def printint_buf_def read_int_def Let_def)
    then show ?thesis using unat_neg_sint[OF True] r by simp
  next
    case False
    then show ?thesis using p[of "unat xx"] r nonneg_sint by (simp add: printint_def printint_buf_def)
  qed
  moreover have "read_nat digits base (printint digits xx base False) = unat xx"
    using r by (simp add: printint_def printint_buf_def)
  ultimately show "if sign then read_int digits base (printint digits xx base sign) = sint xx
      else read_nat digits base (printint digits xx base sign) = unat xx" by simp
  have "10000000000 \<le> base ^ 10" using power_mono[of 10 base 10] assms(1) by auto
  then have "unat x < base ^ Suc 9" for x :: u32 using less_le_trans[OF unat_lt_32[of x], of "base ^ 10"] by simp
  from length_int_digits[OF b(1) this] have l: "length (int_digits base (unat x)) \<le> 10" for x :: u32 by simp
  show "length (printint_buf digits xx base sign) \<le> 16"
    using l[of xx] l[of "- xx"] by (simp add: printint_buf_def Let_def)
qed

theorem printint_roundtrip_witness:
  "read_int digits_lower 10 (printint digits_lower 0xFFFFFF9C 10 True) = -100 \<and>
   read_nat digits_upper 16 (printint digits_upper 0xFFFFFF9C 16 False) = 4294967196"
  using printint_roundtrip[of 10 digits_lower True "0xFFFFFF9C"] printint_roundtrip[of 16 digits_upper False "0xFFFFFF9C"]
  by simp

end
