(* ===== verification/Uart.thy ===== *)
theory Uart
  imports Fs Printf
begin

text \<open>
  kernel/uart.c, kernel/printf.c and kernel/console.c. The UART is hardware: what a read of one of
  its registers returns is not up to the kernel. The state has an arbitrary table of the values
  future reads return (\<open>uart_obs\<close>, by the number of the read and the register) and the trace of
  all register writes, so the theorems hold for every device.
\<close>

section \<open>State\<close>

record dev_st = fs_st +
  panicked :: bool
  pr_locking :: bool
  uart_obs :: "nat \<Rightarrow> nat \<Rightarrow> u8"
  uart_t :: nat
  uart_wr :: "(nat \<times> u8) list"
  uart_tx_buf :: "u8 list"
  uart_tx_w :: u64
  uart_tx_r :: u64
  cons_buf :: "u8 list"
  cons_r :: u32
  cons_w :: u32
  cons_e :: u32

abbreviation (input) RHR :: nat where "RHR \<equiv> 0"
abbreviation (input) THR :: nat where "THR \<equiv> 0"
abbreviation (input) IER :: nat where "IER \<equiv> 1"
abbreviation (input) IER_RX_ENABLE :: u8 where "IER_RX_ENABLE \<equiv> 1"
abbreviation (input) IER_TX_ENABLE :: u8 where "IER_TX_ENABLE \<equiv> 2"
abbreviation (input) FCR :: nat where "FCR \<equiv> 2"
abbreviation (input) FCR_FIFO_ENABLE :: u8 where "FCR_FIFO_ENABLE \<equiv> 1"
abbreviation (input) FCR_FIFO_CLEAR :: u8 where "FCR_FIFO_CLEAR \<equiv> 6"
abbreviation (input) LCR :: nat where "LCR \<equiv> 3"
abbreviation (input) LCR_EIGHT_BITS :: u8 where "LCR_EIGHT_BITS \<equiv> 3"
abbreviation (input) LCR_BAUD_LATCH :: u8 where "LCR_BAUD_LATCH \<equiv> 128"
abbreviation (input) LSR :: nat where "LSR \<equiv> 5"
abbreviation (input) LSR_RX_READY :: u8 where "LSR_RX_READY \<equiv> 1"
abbreviation (input) LSR_TX_IDLE :: u8 where "LSR_TX_IDLE \<equiv> 32"
abbreviation (input) UART_TX_BUF_SIZE :: nat where "UART_TX_BUF_SIZE \<equiv> 32"
abbreviation (input) INPUT_BUF_SIZE :: nat where "INPUT_BUF_SIZE \<equiv> 128"
abbreviation (input) BACKSPACE :: int where "BACKSPACE \<equiv> 256"

definition ReadReg :: "nat \<Rightarrow> (u8, 'z dev_st_scheme) kernel" where
  "ReadReg reg =
     bindk (getk (\<lambda>s. uart_obs s (uart_t s) reg)) (\<lambda>v.
     bindk (modifyk (\<lambda>s. s\<lparr>uart_t := uart_t s + 1\<rparr>)) (\<lambda>_.
     returnk v))"

definition WriteReg :: "nat \<Rightarrow> u8 \<Rightarrow> (unit, 'z dev_st_scheme) kernel" where
  "WriteReg reg v = modifyk (\<lambda>s. s\<lparr>uart_wr := uart_wr s @ [(reg, v)]\<rparr>)"

section \<open>kernel/uart.c\<close>

definition uartinit :: "(unit, 'z dev_st_scheme) kernel" where
  "uartinit =
     bindk (WriteReg IER 0) (\<lambda>_.
     bindk (WriteReg LCR LCR_BAUD_LATCH) (\<lambda>_.
     bindk (WriteReg 0 3) (\<lambda>_.
     bindk (WriteReg 1 0) (\<lambda>_.
     bindk (WriteReg LCR LCR_EIGHT_BITS) (\<lambda>_.
     bindk (WriteReg FCR (FCR_FIFO_ENABLE OR FCR_FIFO_CLEAR)) (\<lambda>_.
     bindk (WriteReg IER (IER_TX_ENABLE OR IER_RX_ENABLE)) (\<lambda>_.
     modifyk (initlock UartTxLock ''uart''))))))))"

definition uartstart_body :: "unit \<Rightarrow> (unit + unit, 'z dev_st_scheme) kernel" where
  "uartstart_body _ =
     bindk (getk (\<lambda>s. uart_tx_w s = uart_tx_r s)) (\<lambda>empty.
     if empty then returnk (Inr ()) else
     bindk (ReadReg LSR) (\<lambda>lsr.
     if lsr AND LSR_TX_IDLE = 0 then returnk (Inr ()) else
     bindk (getk (\<lambda>s. uart_tx_buf s ! (unat (uart_tx_r s) mod UART_TX_BUF_SIZE))) (\<lambda>c.
     bindk (modifyk (\<lambda>s. s\<lparr>uart_tx_r := uart_tx_r s + 1\<rparr>)) (\<lambda>_.
     bindk (wakeup (Some ChUart)) (\<lambda>_.
     bindk (WriteReg THR c) (\<lambda>_.
     returnk (Inl ())))))))"

definition uartstart :: "(unit, 'z dev_st_scheme) kernel" where
  "uartstart = loopk uartstart_body ()"

definition uartputc_loop :: "int \<Rightarrow> (unit, 'z dev_st_scheme) kernel" where
  "uartputc_loop c =
     bindk (getk (\<lambda>s. uart_tx_w s = uart_tx_r s + of_nat UART_TX_BUF_SIZE)) (\<lambda>full.
     if full then sleep ChUart UartTxLock else
     bindk (modifyk (\<lambda>s. s\<lparr>uart_tx_buf := (uart_tx_buf s)[unat (uart_tx_w s) mod UART_TX_BUF_SIZE := of_int c]\<rparr>)) (\<lambda>_.
     bindk (modifyk (\<lambda>s. s\<lparr>uart_tx_w := uart_tx_w s + 1\<rparr>)) (\<lambda>_.
     bindk uartstart (\<lambda>_.
     release UartTxLock))))"

definition uartputc :: "int \<Rightarrow> (unit, 'z dev_st_scheme) kernel" where
  "uartputc c =
     bindk (acquire UartTxLock) (\<lambda>_.
     bindk (getk panicked) (\<lambda>p. if p then (\<lambda>s. Spins) else
     uartputc_loop c))"

definition uart_wait_idle :: "unit \<Rightarrow> (unit + unit, 'z dev_st_scheme) kernel" where
  "uart_wait_idle _ =
     bindk (ReadReg LSR) (\<lambda>lsr.
     returnk (if lsr AND LSR_TX_IDLE = 0 then Inl () else Inr ()))"

definition uartputc_sync :: "int \<Rightarrow> (unit, 'z dev_st_scheme) kernel" where
  "uartputc_sync c =
     bindk push_off (\<lambda>_.
     bindk (getk panicked) (\<lambda>p. if p then (\<lambda>s. Spins) else
     bindk (loopk uart_wait_idle ()) (\<lambda>_.
     bindk (WriteReg THR (of_int c)) (\<lambda>_.
     pop_off))))"

definition uartgetc :: "(int, 'z dev_st_scheme) kernel" where
  "uartgetc =
     bindk (ReadReg LSR) (\<lambda>lsr.
     if lsr AND 1 \<noteq> 0 then bindk (ReadReg RHR) (\<lambda>c. returnk (uint c))
     else returnk (-1))"

section \<open>kernel/printf.c\<close>

definition consputc :: "int \<Rightarrow> (unit, 'z dev_st_scheme) kernel" where
  "consputc c =
     (if c = BACKSPACE then
        bindk (uartputc_sync 8) (\<lambda>_.
        bindk (uartputc_sync 32) (\<lambda>_.
        uartputc_sync 8))
      else uartputc_sync c)"

definition bytes :: "string \<Rightarrow> u8 list" where
  "bytes t = map (\<lambda>c. of_nat (of_char c)) t"

definition printf :: "ctext option \<Rightarrow> arg list \<Rightarrow> (unit, 'z dev_st_scheme) kernel" where
  "printf fmt ap =
     bindk (getk pr_locking) (\<lambda>locking.
     bindk (whenk locking (acquire PrLock)) (\<lambda>_.
     case fmt of None \<Rightarrow> panick ''null fmt'' | Some fmt \<Rightarrow>
     (case printf_text fmt ap of None \<Rightarrow> (\<lambda>s. Spins) | Some t \<Rightarrow>
     bindk (foreachk t (\<lambda>c. consputc (uint c))) (\<lambda>_.
     whenk locking (release PrLock)))))"

definition panic :: "string \<Rightarrow> (unit, 'z dev_st_scheme) kernel" where
  "panic msg =
     bindk (modifyk (\<lambda>s. s\<lparr>pr_locking := False\<rparr>)) (\<lambda>_.
     bindk (printf (Some (bytes ''panic: '')) []) (\<lambda>_.
     bindk (printf (Some (bytes msg)) []) (\<lambda>_.
     bindk (printf (Some [10]) []) (\<lambda>_.
     bindk (modifyk (\<lambda>s. s\<lparr>panicked := True\<rparr>)) (\<lambda>_.
     (\<lambda>s. Spins))))))"

definition printfinit :: "(unit, 'z dev_st_scheme) kernel" where
  "printfinit =
     bindk (modifyk (initlock PrLock ''pr'')) (\<lambda>_.
     modifyk (\<lambda>s. s\<lparr>pr_locking := True\<rparr>))"

fun state_text :: "procstate \<Rightarrow> string" where
  "state_text UNUSED = ''unused''"
| "state_text USED = ''used''"
| "state_text SLEEPING = ''sleep ''"
| "state_text RUNNABLE = ''runble''"
| "state_text RUNNING = ''run   ''"
| "state_text ZOMBIE = ''zombie''"

definition procdump :: "(unit, 'z dev_st_scheme) kernel" where
  "procdump =
     bindk (printf (Some [10]) []) (\<lambda>_.
     foreachk [0..<NPROC] (\<lambda>p.
       bindk (getp p (\<lambda>q. q)) (\<lambda>q.
       whenk (p_state q \<noteq> UNUSED) (
         bindk (printf (Some (bytes ''%d %s %s''))
           [ArgInt (of_int (p_pid q)), ArgStr (Some (bytes (state_text (p_state q)))), ArgStr (Some (p_name q))]) (\<lambda>_.
         printf (Some [10]) [])))))"

section \<open>kernel/console.c\<close>

definition consolewrite_body :: "bool \<Rightarrow> u64 \<Rightarrow> int \<Rightarrow> int \<Rightarrow> (int + int, 'z dev_st_scheme) kernel" where
  "consolewrite_body user_src src n i =
     (if \<not> i < n then returnk (Inr i) else
     bindk (getk kloc) (\<lambda>a.
     bindk (either_copyin a user_src (src + of_int i) 1) (\<lambda>r.
     if r = -1 then returnk (Inr i) else
     bindk (getk (\<lambda>s. mem s a)) (\<lambda>c.
     bindk (uartputc (uint c)) (\<lambda>_.
     returnk (Inl (i + 1)))))))"

definition consolewrite :: "bool \<Rightarrow> u64 \<Rightarrow> int \<Rightarrow> (int, 'z dev_st_scheme) kernel" where
  "consolewrite user_src src n = loopk (consolewrite_body user_src src n) 0"

text \<open>One pass of the loop of \<open>consoleread\<close>; \<open>target\<close> is the count the caller asked for.\<close>

definition consoleread_body :: "bool \<Rightarrow> int \<Rightarrow> u64 \<times> int \<Rightarrow> (u64 \<times> int + int, 'z dev_st_scheme) kernel" where
  "consoleread_body user_dst target = (\<lambda>(dst, n).
     if \<not> n > 0 then bindk (release ConsLock) (\<lambda>_. returnk (Inr (target - n))) else
     bindk (getk (\<lambda>s. cons_r s = cons_w s)) (\<lambda>empty.
     if empty then
       bindk myproc (\<lambda>me. derefk me (\<lambda>p.
       bindk (killed p) (\<lambda>k.
       if k \<noteq> 0 then bindk (release ConsLock) (\<lambda>_. returnk (Inr (-1)))
       else sleep ChCons ConsLock)))
     else
     bindk (getk (\<lambda>s. cons_buf s ! (unat (cons_r s) mod INPUT_BUF_SIZE))) (\<lambda>c.
     bindk (modifyk (\<lambda>s. s\<lparr>cons_r := cons_r s + 1\<rparr>)) (\<lambda>_.
     if c = 4 then
       bindk (whenk (n < target) (modifyk (\<lambda>s. s\<lparr>cons_r := cons_r s - 1\<rparr>))) (\<lambda>_.
       bindk (release ConsLock) (\<lambda>_.
       returnk (Inr (target - n))))
     else
     bindk (either_copyout_obj user_dst dst [c]) (\<lambda>r.
     if r = -1 then bindk (release ConsLock) (\<lambda>_. returnk (Inr (target - n)))
     else if c = 10 then bindk (release ConsLock) (\<lambda>_. returnk (Inr (target - (n - 1))))
     else returnk (Inl (dst + 1, n - 1)))))))"

definition consoleread :: "bool \<Rightarrow> u64 \<Rightarrow> int \<Rightarrow> (int, 'z dev_st_scheme) kernel" where
  "consoleread user_dst dst n =
     bindk (acquire ConsLock) (\<lambda>_.
     loopk (consoleread_body user_dst n) (dst, n))"

definition kill_line_body :: "unit \<Rightarrow> (unit + unit, 'z dev_st_scheme) kernel" where
  "kill_line_body _ =
     bindk (getk (\<lambda>s. cons_e s \<noteq> cons_w s \<and> cons_buf s ! (unat (cons_e s - 1) mod INPUT_BUF_SIZE) \<noteq> 10)) (\<lambda>go.
     if \<not> go then returnk (Inr ()) else
     bindk (modifyk (\<lambda>s. s\<lparr>cons_e := cons_e s - 1\<rparr>)) (\<lambda>_.
     bindk (consputc BACKSPACE) (\<lambda>_.
     returnk (Inl ()))))"

definition console_insert :: "int \<Rightarrow> (unit, 'z dev_st_scheme) kernel" where
  "console_insert c =
     bindk (getk (\<lambda>s. cons_e s - cons_r s)) (\<lambda>used.
     whenk (c \<noteq> 0 \<and> unat used < INPUT_BUF_SIZE) (
       let c = (if c = 13 then 10 else c) in
       bindk (consputc c) (\<lambda>_.
       bindk (modifyk (\<lambda>s. s\<lparr>cons_buf := (cons_buf s)[unat (cons_e s) mod INPUT_BUF_SIZE := of_int c]\<rparr>)) (\<lambda>_.
       bindk (modifyk (\<lambda>s. s\<lparr>cons_e := cons_e s + 1\<rparr>)) (\<lambda>_.
       bindk (getk (\<lambda>s. cons_e s - cons_r s)) (\<lambda>used.
       whenk (c = 10 \<or> c = 4 \<or> unat used = INPUT_BUF_SIZE) (
         bindk (modifyk (\<lambda>s. s\<lparr>cons_w := cons_e s\<rparr>)) (\<lambda>_.
         wakeup (Some ChCons))))))))) "

definition consoleintr :: "int \<Rightarrow> (unit, 'z dev_st_scheme) kernel" where
  "consoleintr c =
     bindk (acquire ConsLock) (\<lambda>_.
     bindk (if c = 16 then procdump
            else if c = 21 then loopk kill_line_body ()
            else if c = 8 \<or> c = 127 then
              bindk (getk (\<lambda>s. cons_e s \<noteq> cons_w s)) (\<lambda>some.
              whenk some (
                bindk (modifyk (\<lambda>s. s\<lparr>cons_e := cons_e s - 1\<rparr>)) (\<lambda>_.
                consputc BACKSPACE)))
            else console_insert c) (\<lambda>_.
     release ConsLock))"

definition uartintr_body :: "unit \<Rightarrow> (unit + unit, 'z dev_st_scheme) kernel" where
  "uartintr_body _ =
     bindk uartgetc (\<lambda>c.
     if c = -1 then returnk (Inr ()) else
     bindk (consoleintr c) (\<lambda>_.
     returnk (Inl ())))"

definition uartintr :: "(unit, 'z dev_st_scheme) kernel" where
  "uartintr =
     bindk (loopk uartintr_body ()) (\<lambda>_.
     bindk (acquire UartTxLock) (\<lambda>_.
     bindk uartstart (\<lambda>_.
     release UartTxLock)))"

end
