(* ===== verification/File.thy ===== *)
theory File
  imports Uart
begin

text \<open>
  kernel/pipe.c and kernel/file.c, with the file structures of kernel/file.h. Pipes are allocated
  from the page allocator; the structure a pipe page holds is an entry of \<open>pipes\<close> at the page's
  address. A pointer to an open file is its index in \<open>ftable\<close>.
\<close>

section \<open>State\<close>

abbreviation (input) PIPESIZE :: nat where "PIPESIZE \<equiv> 512"
abbreviation (input) CONSOLE :: nat where "CONSOLE \<equiv> 1"

record pipe =
  pi_data :: "u8 list"
  pi_nread :: u32
  pi_nwrite :: u32
  pi_readopen :: bool
  pi_writeopen :: bool

datatype fdtype = FD_NONE | FD_PIPE | FD_INODE | FD_DEVICE

record kfile =
  f_type :: fdtype
  f_ref :: int
  f_readable :: bool
  f_writable :: bool
  f_pipe :: u64
  f_ip :: nat
  f_off :: u32
  f_major :: u16

text \<open>The functions a device table entry can point to.\<close>

datatype dev_read = ConsoleRead
datatype dev_write = ConsoleWrite

record devsw =
  dev_rd :: "dev_read option"
  dev_wr :: "dev_write option"

record file_st = dev_st +
  ftable :: "kfile list"
  pipes :: "u64 \<Rightarrow> pipe"
  devsw_tab :: "nat \<Rightarrow> devsw"

definition getf :: "nat \<Rightarrow> (kfile \<Rightarrow> 'a) \<Rightarrow> ('a, 'z file_st_scheme) kernel" where
  "getf f g = getk (\<lambda>s. g (ftable s ! f))"

definition setf :: "nat \<Rightarrow> (kfile \<Rightarrow> kfile) \<Rightarrow> (unit, 'z file_st_scheme) kernel" where
  "setf f g = modifyk (\<lambda>s. s\<lparr>ftable := (ftable s)[f := g (ftable s ! f)]\<rparr>)"

definition getpi :: "u64 \<Rightarrow> (pipe \<Rightarrow> 'a) \<Rightarrow> ('a, 'z file_st_scheme) kernel" where
  "getpi a g = getk (\<lambda>s. g (pipes s a))"

definition setpi :: "u64 \<Rightarrow> (pipe \<Rightarrow> pipe) \<Rightarrow> (unit, 'z file_st_scheme) kernel" where
  "setpi a g = modifyk (\<lambda>s. s\<lparr>pipes := (pipes s)(a := g (pipes s a))\<rparr>)"

definition consoleinit :: "(unit, 'z file_st_scheme) kernel" where
  "consoleinit =
     bindk (modifyk (initlock ConsLock ''cons'')) (\<lambda>_.
     bindk uartinit (\<lambda>_.
     modifyk (\<lambda>s. s\<lparr>devsw_tab := (devsw_tab s)(CONSOLE := \<lparr>dev_rd = Some ConsoleRead, dev_wr = Some ConsoleWrite\<rparr>)\<rparr>)))"

section \<open>kernel/pipe.c\<close>

definition pipe_put :: "u8 \<Rightarrow> pipe \<Rightarrow> pipe" where
  "pipe_put ch p = p\<lparr>pi_data := (pi_data p)[unat (pi_nwrite p) mod PIPESIZE := ch], pi_nwrite := pi_nwrite p + 1\<rparr>"

definition pipe_get :: "pipe \<Rightarrow> u8 \<times> pipe" where
  "pipe_get p = (pi_data p ! (unat (pi_nread p) mod PIPESIZE), p\<lparr>pi_nread := pi_nread p + 1\<rparr>)"

definition pipeclose :: "u64 \<Rightarrow> bool \<Rightarrow> (unit, 'z file_st_scheme) kernel" where
  "pipeclose p writable =
     bindk (acquire (PipeLock p)) (\<lambda>_.
     bindk (if writable then
              bindk (setpi p (pi_writeopen_update (\<lambda>_. False))) (\<lambda>_.
              wakeup (Some (ChPipeRead p)))
            else
              bindk (setpi p (pi_readopen_update (\<lambda>_. False))) (\<lambda>_.
              wakeup (Some (ChPipeWrite p)))) (\<lambda>_.
     bindk (getpi p (\<lambda>x. x)) (\<lambda>x.
     if \<not> pi_readopen x \<and> \<not> pi_writeopen x then
       bindk (release (PipeLock p)) (\<lambda>_.
       kfree p)
     else release (PipeLock p))))"

text \<open>
  The loops of \<open>pipewrite\<close> and \<open>piperead\<close>. A thread that sleeps enters its loop again with the
  same loop variable when it resumes.
\<close>

definition pipewrite_body :: "u64 \<Rightarrow> nat \<Rightarrow> u64 \<Rightarrow> int \<Rightarrow> int \<Rightarrow> (int + int, 'z file_st_scheme) kernel" where
  "pipewrite_body p pr addr n i =
     (if \<not> i < n then
        bindk (wakeup (Some (ChPipeRead p))) (\<lambda>_.
        bindk (release (PipeLock p)) (\<lambda>_.
        returnk (Inr i)))
      else
      bindk (getpi p (\<lambda>x. x)) (\<lambda>x.
      bindk (if \<not> pi_readopen x then returnk 1 else killed pr) (\<lambda>k.
      if \<not> pi_readopen x \<or> k \<noteq> 0 then
        bindk (release (PipeLock p)) (\<lambda>_.
        returnk (Inr (-1)))
      else if pi_nwrite x = pi_nread x + of_nat PIPESIZE then
        bindk (wakeup (Some (ChPipeRead p))) (\<lambda>_.
        sleep (ChPipeWrite p) (PipeLock p))
      else
        bindk (getk kloc) (\<lambda>a.
        bindk (getp pr p_pagetable) (\<lambda>pt.
        bindk (copyin pt a (addr + of_int i) 1) (\<lambda>r.
        if r = -1 then
          bindk (wakeup (Some (ChPipeRead p))) (\<lambda>_.
          bindk (release (PipeLock p)) (\<lambda>_.
          returnk (Inr i)))
        else
        bindk (getk (\<lambda>s. mem s a)) (\<lambda>ch.
        bindk (setpi p (pipe_put ch)) (\<lambda>_.
        returnk (Inl (i + 1))))))))))"

definition pipewrite :: "u64 \<Rightarrow> u64 \<Rightarrow> int \<Rightarrow> (int, 'z file_st_scheme) kernel" where
  "pipewrite p addr n =
     bindk myproc (\<lambda>me. derefk me (\<lambda>pr.
     bindk (acquire (PipeLock p)) (\<lambda>_.
     loopk (pipewrite_body p pr addr n) 0)))"

definition piperead_copy :: "u64 \<Rightarrow> nat \<Rightarrow> u64 \<Rightarrow> int \<Rightarrow> int \<Rightarrow> (int + int, 'z file_st_scheme) kernel" where
  "piperead_copy p pr addr n i =
     (if \<not> i < n then returnk (Inr i) else
     bindk (getpi p (\<lambda>x. x)) (\<lambda>x.
     if pi_nread x = pi_nwrite x then returnk (Inr i) else
     bindk (setpi p (\<lambda>x. snd (pipe_get x))) (\<lambda>_.
     bindk (getp pr p_pagetable) (\<lambda>pt.
     bindk (copyout_obj pt (addr + of_int i) [fst (pipe_get x)]) (\<lambda>r.
     if r = -1 then returnk (Inr i) else returnk (Inl (i + 1)))))))"

definition piperead_loop :: "u64 \<Rightarrow> nat \<Rightarrow> u64 \<Rightarrow> int \<Rightarrow> (int, 'z file_st_scheme) kernel" where
  "piperead_loop p pr addr n =
     bindk (getpi p (\<lambda>x. x)) (\<lambda>x.
     if pi_nread x = pi_nwrite x \<and> pi_writeopen x then
       bindk (killed pr) (\<lambda>k.
       if k \<noteq> 0 then
         bindk (release (PipeLock p)) (\<lambda>_.
         returnk (-1))
       else sleep (ChPipeRead p) (PipeLock p))
     else
       bindk (loopk (piperead_copy p pr addr n) 0) (\<lambda>i.
       bindk (wakeup (Some (ChPipeWrite p))) (\<lambda>_.
       bindk (release (PipeLock p)) (\<lambda>_.
       returnk i))))"

definition piperead :: "u64 \<Rightarrow> u64 \<Rightarrow> int \<Rightarrow> (int, 'z file_st_scheme) kernel" where
  "piperead p addr n =
     bindk myproc (\<lambda>me. derefk me (\<lambda>pr.
     bindk (acquire (PipeLock p)) (\<lambda>_.
     piperead_loop p pr addr n)))"

section \<open>kernel/file.c\<close>

definition fileinit :: "(unit, 'z file_st_scheme) kernel" where
  "fileinit = modifyk (initlock FtableLock ''ftable'')"

definition filealloc :: "(nat option, 'z file_st_scheme) kernel" where
  "filealloc =
     bindk (acquire FtableLock) (\<lambda>_.
     bindk (getk ftable) (\<lambda>t.
     case find_index (\<lambda>f. f_ref f = 0) t of
       Some f \<Rightarrow>
         bindk (setf f (f_ref_update (\<lambda>_. 1))) (\<lambda>_.
         bindk (release FtableLock) (\<lambda>_.
         returnk (Some f)))
     | None \<Rightarrow>
         bindk (release FtableLock) (\<lambda>_.
         returnk None)))"

definition filedup :: "nat \<Rightarrow> (nat, 'z file_st_scheme) kernel" where
  "filedup f =
     bindk (acquire FtableLock) (\<lambda>_.
     bindk (getf f f_ref) (\<lambda>r. if r < 1 then panick ''filedup'' else
     bindk (setf f (\<lambda>x. x\<lparr>f_ref := f_ref x + 1\<rparr>)) (\<lambda>_.
     bindk (release FtableLock) (\<lambda>_.
     returnk f))))"

definition fileclose :: "nat \<Rightarrow> (unit, 'z file_st_scheme) kernel" where
  "fileclose f =
     bindk (acquire FtableLock) (\<lambda>_.
     bindk (getf f f_ref) (\<lambda>r. if r < 1 then panick ''fileclose'' else
     bindk (setf f (\<lambda>x. x\<lparr>f_ref := f_ref x - 1\<rparr>)) (\<lambda>_.
     bindk (getf f (\<lambda>x. x)) (\<lambda>ff.
     if f_ref ff > 0 then release FtableLock else
     bindk (setf f (\<lambda>x. x\<lparr>f_ref := 0, f_type := FD_NONE\<rparr>)) (\<lambda>_.
     bindk (release FtableLock) (\<lambda>_.
     if f_type ff = FD_PIPE then pipeclose (f_pipe ff) (f_writable ff)
     else if f_type ff = FD_INODE \<or> f_type ff = FD_DEVICE then
       bindk begin_op (\<lambda>_.
       bindk (iput (f_ip ff)) (\<lambda>_.
       end_op))
     else returnk ()))))))"

text \<open>\<open>sizeof(struct stat)\<close> is 24: four bytes of padding lie before the 64-bit size.\<close>

definition stat_bytes :: "stat \<Rightarrow> u8 list" where
  "stat_bytes st = le_bytes 4 (st_dev st) @ le_bytes 4 (st_ino st) @ le_bytes 2 (st_type st) @
     le_bytes 2 (st_nlink st) @ replicate 4 0 @ le_bytes 8 (st_size st)"

definition filestat :: "nat \<Rightarrow> u64 \<Rightarrow> (int, 'z file_st_scheme) kernel" where
  "filestat f addr =
     bindk myproc (\<lambda>me. derefk me (\<lambda>p.
     bindk (getf f (\<lambda>x. x)) (\<lambda>x.
     if f_type x = FD_INODE \<or> f_type x = FD_DEVICE then
       bindk (ilock (Some (f_ip x))) (\<lambda>_.
       bindk (stati (f_ip x)) (\<lambda>st.
       bindk (iunlock (Some (f_ip x))) (\<lambda>_.
       bindk (getp p p_pagetable) (\<lambda>pt.
       bindk (copyout_obj pt addr (stat_bytes st)) (\<lambda>r.
       if r < 0 then returnk (-1) else returnk 0)))))
     else returnk (-1))))"

definition fileread :: "nat \<Rightarrow> u64 \<Rightarrow> int \<Rightarrow> (int, 'z file_st_scheme) kernel" where
  "fileread f addr n =
     bindk (getf f (\<lambda>x. x)) (\<lambda>x.
     if \<not> f_readable x then returnk (-1) else
     case f_type x of
       FD_PIPE \<Rightarrow> piperead (f_pipe x) addr n
     | FD_DEVICE \<Rightarrow>
         bindk (getk devsw_tab) (\<lambda>t.
         if sint (f_major x) < 0 \<or> sint (f_major x) \<ge> int NDEV then returnk (-1) else
         case dev_rd (t (unat (f_major x))) of
           None \<Rightarrow> returnk (-1)
         | Some ConsoleRead \<Rightarrow> consoleread True addr n)
     | FD_INODE \<Rightarrow>
         bindk (ilock (Some (f_ip x))) (\<lambda>_.
         bindk (getf f f_off) (\<lambda>off.
         bindk (readi (f_ip x) True addr off (of_int n)) (\<lambda>r.
         bindk (whenk (r > 0) (setf f (\<lambda>x. x\<lparr>f_off := f_off x + of_int r\<rparr>))) (\<lambda>_.
         bindk (iunlock (Some (f_ip x))) (\<lambda>_.
         returnk r)))))
     | FD_NONE \<Rightarrow> panick ''fileread'')"

abbreviation (input) write_max :: int where "write_max \<equiv> ((int MAXOPBLOCKS - 1 - 1 - 2) div 2) * int BSIZE"

definition filewrite_body :: "nat \<Rightarrow> u64 \<Rightarrow> int \<Rightarrow> int \<Rightarrow> (int + int, 'z file_st_scheme) kernel" where
  "filewrite_body f addr n i =
     (if \<not> i < n then returnk (Inr i) else
      let n1 = (if n - i > write_max then write_max else n - i) in
      bindk begin_op (\<lambda>_.
      bindk (getf f f_ip) (\<lambda>ip.
      bindk (ilock (Some ip)) (\<lambda>_.
      bindk (getf f f_off) (\<lambda>off.
      bindk (writei ip True (addr + of_int i) off (of_int n1)) (\<lambda>r.
      bindk (whenk (r > 0) (setf f (\<lambda>x. x\<lparr>f_off := f_off x + of_int r\<rparr>))) (\<lambda>_.
      bindk (iunlock (Some ip)) (\<lambda>_.
      bindk end_op (\<lambda>_.
      if r \<noteq> n1 then returnk (Inr i) else returnk (Inl (i + r)))))))))))"

definition filewrite :: "nat \<Rightarrow> u64 \<Rightarrow> int \<Rightarrow> (int, 'z file_st_scheme) kernel" where
  "filewrite f addr n =
     bindk (getf f (\<lambda>x. x)) (\<lambda>x.
     if \<not> f_writable x then returnk (-1) else
     case f_type x of
       FD_PIPE \<Rightarrow> pipewrite (f_pipe x) addr n
     | FD_DEVICE \<Rightarrow>
         bindk (getk devsw_tab) (\<lambda>t.
         if sint (f_major x) < 0 \<or> sint (f_major x) \<ge> int NDEV then returnk (-1) else
         case dev_wr (t (unat (f_major x))) of
           None \<Rightarrow> returnk (-1)
         | Some ConsoleWrite \<Rightarrow> consolewrite True addr n)
     | FD_INODE \<Rightarrow>
         bindk (loopk (filewrite_body f addr n) 0) (\<lambda>i.
         returnk (if i = n then n else -1))
     | FD_NONE \<Rightarrow> panick ''filewrite'')"

section \<open>pipealloc\<close>

definition pipealloc_bad :: "u64 \<Rightarrow> nat option \<Rightarrow> nat option \<Rightarrow> ((nat \<times> nat) option, 'z file_st_scheme) kernel" where
  "pipealloc_bad p f0 f1 =
     bindk (whenk (p \<noteq> 0) (kfree p)) (\<lambda>_.
     bindk (case f0 of None \<Rightarrow> returnk () | Some f \<Rightarrow> fileclose f) (\<lambda>_.
     bindk (case f1 of None \<Rightarrow> returnk () | Some f \<Rightarrow> fileclose f) (\<lambda>_.
     returnk None)))"

definition pipealloc :: "((nat \<times> nat) option, 'z file_st_scheme) kernel" where
  "pipealloc =
     bindk filealloc (\<lambda>f0. case f0 of None \<Rightarrow> pipealloc_bad 0 None None | Some r \<Rightarrow>
     bindk filealloc (\<lambda>f1. case f1 of None \<Rightarrow> pipealloc_bad 0 f0 None | Some w \<Rightarrow>
     bindk kalloc (\<lambda>p.
     if p = 0 then pipealloc_bad 0 f0 f1 else
     bindk (setpi p (\<lambda>x. x\<lparr>pi_readopen := True, pi_writeopen := True, pi_nwrite := 0, pi_nread := 0\<rparr>)) (\<lambda>_.
     bindk (modifyk (initlock (PipeLock p) ''pipe'')) (\<lambda>_.
     bindk (setf r (\<lambda>x. x\<lparr>f_type := FD_PIPE, f_readable := True, f_writable := False, f_pipe := p\<rparr>)) (\<lambda>_.
     bindk (setf w (\<lambda>x. x\<lparr>f_type := FD_PIPE, f_readable := False, f_writable := True, f_pipe := p\<rparr>)) (\<lambda>_.
     returnk (Some (r, w)))))))))"

end
