(* ===== verification/Virtio.thy ===== *)
theory Virtio
  imports File
begin

text \<open>
  kernel/virtio_disk.c with the structures of kernel/virtio.h, and kernel/plic.c. A descriptor's
  address is the kernel object it points to. Device registers are memory-mapped: the values the
  reads return are an arbitrary table (\<open>mmio_obs\<close>), the writes a trace. The device writes the
  used ring, the status bytes and, for a read, the buffer.

  \<open>virtio_disk_rw\<close> sleeps for a free descriptor and for the completion of its request. Its three
  parts between the waits are \<open>virtio_rw_start\<close>, \<open>virtio_rw_wait\<close> and \<open>virtio_rw_finish\<close>.
\<close>

section \<open>State\<close>

abbreviation (input) NUM :: nat where "NUM \<equiv> 8"
abbreviation (input) VRING_DESC_F_NEXT :: u16 where "VRING_DESC_F_NEXT \<equiv> 1"
abbreviation (input) VRING_DESC_F_WRITE :: u16 where "VRING_DESC_F_WRITE \<equiv> 2"
abbreviation (input) VIRTIO_BLK_T_IN :: u32 where "VIRTIO_BLK_T_IN \<equiv> 0"
abbreviation (input) VIRTIO_BLK_T_OUT :: u32 where "VIRTIO_BLK_T_OUT \<equiv> 1"

datatype dma = NoAddr | OpAddr nat | DataAddr nat | StatusAddr nat

record virtq_desc =
  vd_addr :: dma
  vd_len :: u32
  vd_flags :: u16
  vd_next :: u16

record virtq_avail =
  av_idx :: u16
  av_ring :: "u16 list"

record virtq_used =
  us_idx :: u16
  us_ring :: "u32 list"

record virtio_blk_req =
  vr_type :: u32
  vr_reserved :: u32
  vr_sector :: u64

record vinfo =
  vi_b :: "nat option"
  vi_status :: u8

record virtio_st = file_st +
  vdesc_pa :: u64
  vavail_pa :: u64
  vused_pa :: u64
  vdesc :: "virtq_desc list"
  vavail :: virtq_avail
  vused :: virtq_used
  vfree :: "bool list"
  used_idx :: u16
  vinfo :: "vinfo list"
  vops :: "virtio_blk_req list"
  mmio_obs :: "nat \<Rightarrow> u64 \<Rightarrow> u32"
  mmio_t :: nat
  mmio_wr :: "(u64 \<times> u32) list"

definition mmio_read :: "u64 \<Rightarrow> (u32, 'z virtio_st_scheme) kernel" where
  "mmio_read a =
     bindk (getk (\<lambda>s. mmio_obs s (mmio_t s) a)) (\<lambda>v.
     bindk (modifyk (\<lambda>s. s\<lparr>mmio_t := mmio_t s + 1\<rparr>)) (\<lambda>_.
     returnk v))"

definition mmio_write :: "u64 \<Rightarrow> u32 \<Rightarrow> (unit, 'z virtio_st_scheme) kernel" where
  "mmio_write a v = modifyk (\<lambda>s. s\<lparr>mmio_wr := mmio_wr s @ [(a, v)]\<rparr>)"

definition R :: "u64 \<Rightarrow> u64" where
  "R r = VIRTIO0 + r"

definition zero_desc :: virtq_desc where
  "zero_desc = \<lparr>vd_addr = NoAddr, vd_len = 0, vd_flags = 0, vd_next = 0\<rparr>"

section \<open>Descriptors\<close>

definition alloc_desc :: "(nat option, 'z virtio_st_scheme) kernel" where
  "alloc_desc =
     bindk (getk vfree) (\<lambda>fr.
     case find_index (\<lambda>x. x) fr of
       None \<Rightarrow> returnk None
     | Some i \<Rightarrow>
         bindk (modifyk (\<lambda>s. s\<lparr>vfree := (vfree s)[i := False]\<rparr>)) (\<lambda>_.
         returnk (Some i)))"

definition free_desc :: "nat \<Rightarrow> (unit, 'z virtio_st_scheme) kernel" where
  "free_desc i =
     (if i \<ge> NUM then panick ''free_desc 1'' else
     bindk (getk (\<lambda>s. vfree s ! i)) (\<lambda>fr. if fr then panick ''free_desc 2'' else
     bindk (modifyk (\<lambda>s. s\<lparr>vdesc := (vdesc s)[i := zero_desc]\<rparr>)) (\<lambda>_.
     bindk (modifyk (\<lambda>s. s\<lparr>vfree := (vfree s)[i := True]\<rparr>)) (\<lambda>_.
     wakeup (Some ChDiskFree)))))"

definition free_chain_body :: "nat \<Rightarrow> (nat + unit, 'z virtio_st_scheme) kernel" where
  "free_chain_body i =
     bindk (getk (\<lambda>s. vdesc s ! i)) (\<lambda>d.
     bindk (free_desc i) (\<lambda>_.
     if vd_flags d AND VRING_DESC_F_NEXT \<noteq> 0 then returnk (Inl (unat (vd_next d)))
     else returnk (Inr ())))"

definition vfree_chain :: "nat \<Rightarrow> (unit, 'z virtio_st_scheme) kernel" where
  "vfree_chain i = loopk free_chain_body i"

definition alloc3_desc :: "((nat \<times> nat \<times> nat) option, 'z virtio_st_scheme) kernel" where
  "alloc3_desc =
     bindk alloc_desc (\<lambda>a. case a of None \<Rightarrow> returnk None | Some i0 \<Rightarrow>
     bindk alloc_desc (\<lambda>b. case b of
       None \<Rightarrow> bindk (free_desc i0) (\<lambda>_. returnk None)
     | Some i1 \<Rightarrow>
       bindk alloc_desc (\<lambda>c. case c of
         None \<Rightarrow>
           bindk (free_desc i0) (\<lambda>_.
           bindk (free_desc i1) (\<lambda>_.
           returnk None))
       | Some i2 \<Rightarrow> returnk (Some (i0, i1, i2)))))"

section \<open>Requests\<close>

definition set_desc :: "nat \<Rightarrow> virtq_desc \<Rightarrow> (unit, 'z virtio_st_scheme) kernel" where
  "set_desc i d = modifyk (\<lambda>s. s\<lparr>vdesc := (vdesc s)[i := d]\<rparr>)"

definition virtio_rw_finish :: "nat \<Rightarrow> (unit, 'z virtio_st_scheme) kernel" where
  "virtio_rw_finish i0 =
     bindk (modifyk (\<lambda>s. s\<lparr>vinfo := (vinfo s)[i0 := (vinfo s ! i0)\<lparr>vi_b := None\<rparr>]\<rparr>)) (\<lambda>_.
     bindk (vfree_chain i0) (\<lambda>_.
     release VdiskLock))"

definition virtio_rw_wait :: "nat \<Rightarrow> nat \<Rightarrow> (unit, 'z virtio_st_scheme) kernel" where
  "virtio_rw_wait b i0 =
     bindk (getb b b_disk) (\<lambda>d.
     if d then sleep (ChBuf b) VdiskLock else virtio_rw_finish i0)"

definition virtio_rw_submit :: "nat \<Rightarrow> bool \<Rightarrow> nat \<times> nat \<times> nat \<Rightarrow> (unit, 'z virtio_st_scheme) kernel" where
  "virtio_rw_submit b write = (\<lambda>(i0, i1, i2).
     bindk (getb b (\<lambda>x. ucast (b_blockno x * of_nat (BSIZE div 512)) :: u64)) (\<lambda>sector.
     bindk (modifyk (\<lambda>s. s\<lparr>vops := (vops s)[i0 := \<lparr>vr_type = (if write then VIRTIO_BLK_T_OUT else VIRTIO_BLK_T_IN),
       vr_reserved = 0, vr_sector = sector\<rparr>]\<rparr>)) (\<lambda>_.
     bindk (set_desc i0 \<lparr>vd_addr = OpAddr i0, vd_len = 16, vd_flags = VRING_DESC_F_NEXT, vd_next = of_nat i1\<rparr>) (\<lambda>_.
     bindk (set_desc i1 \<lparr>vd_addr = DataAddr b, vd_len = of_nat BSIZE,
       vd_flags = (if write then 0 else VRING_DESC_F_WRITE) OR VRING_DESC_F_NEXT, vd_next = of_nat i2\<rparr>) (\<lambda>_.
     bindk (modifyk (\<lambda>s. s\<lparr>vinfo := (vinfo s)[i0 := (vinfo s ! i0)\<lparr>vi_status := 0xff\<rparr>]\<rparr>)) (\<lambda>_.
     bindk (set_desc i2 \<lparr>vd_addr = StatusAddr i0, vd_len = 1, vd_flags = VRING_DESC_F_WRITE, vd_next = 0\<rparr>) (\<lambda>_.
     bindk (setb b (b_disk_update (\<lambda>_. True))) (\<lambda>_.
     bindk (modifyk (\<lambda>s. s\<lparr>vinfo := (vinfo s)[i0 := (vinfo s ! i0)\<lparr>vi_b := Some b\<rparr>]\<rparr>)) (\<lambda>_.
     bindk (modifyk (\<lambda>s. s\<lparr>vavail := (vavail s)\<lparr>av_ring :=
       (av_ring (vavail s))[unat (av_idx (vavail s)) mod NUM := of_nat i0]\<rparr>\<rparr>)) (\<lambda>_.
     bindk (modifyk (\<lambda>s. s\<lparr>vavail := (vavail s)\<lparr>av_idx := av_idx (vavail s) + 1\<rparr>\<rparr>)) (\<lambda>_.
     mmio_write (R 0x050) 0)))))))))))"

definition virtio_rw_start :: "nat \<Rightarrow> bool \<Rightarrow> (unit, 'z virtio_st_scheme) kernel" where
  "virtio_rw_start b write =
     bindk alloc3_desc (\<lambda>r. case r of
       None \<Rightarrow> sleep ChDiskFree VdiskLock
     | Some (i0, i1, i2) \<Rightarrow>
       bindk (virtio_rw_submit b write (i0, i1, i2)) (\<lambda>_.
       virtio_rw_wait b i0))"

definition virtio_disk_rw :: "nat \<Rightarrow> bool \<Rightarrow> (unit, 'z virtio_st_scheme) kernel" where
  "virtio_disk_rw b write =
     bindk (acquire VdiskLock) (\<lambda>_.
     virtio_rw_start b write)"

definition virtio_intr_body :: "unit \<Rightarrow> (unit + unit, 'z virtio_st_scheme) kernel" where
  "virtio_intr_body _ =
     bindk (getk (\<lambda>s. used_idx s = us_idx (vused s))) (\<lambda>done.
     if done then returnk (Inr ()) else
     bindk (getk (\<lambda>s. unat (us_ring (vused s) ! (unat (used_idx s) mod NUM)))) (\<lambda>id.
     bindk (getk (\<lambda>s. vinfo s ! id)) (\<lambda>info.
     if vi_status info \<noteq> 0 then panick ''virtio_disk_intr status'' else
     derefk (vi_b info) (\<lambda>b.
     bindk (setb b (b_disk_update (\<lambda>_. False))) (\<lambda>_.
     bindk (wakeup (Some (ChBuf b))) (\<lambda>_.
     bindk (modifyk (\<lambda>s. s\<lparr>used_idx := used_idx s + 1\<rparr>)) (\<lambda>_.
     returnk (Inl ()))))))))"

definition virtio_disk_intr :: "(unit, 'z virtio_st_scheme) kernel" where
  "virtio_disk_intr =
     bindk (acquire VdiskLock) (\<lambda>_.
     bindk (mmio_read (R 0x060)) (\<lambda>st.
     bindk (mmio_write (R 0x064) (st AND 3)) (\<lambda>_.
     bindk (loopk virtio_intr_body ()) (\<lambda>_.
     release VdiskLock))))"

section \<open>Initialisation\<close>

definition clear_bits :: "nat list \<Rightarrow> u32 \<Rightarrow> u32" where
  "clear_bits bs x = fold (\<lambda>b x. x AND NOT (push_bit b 1)) bs x"

definition write_addr :: "u64 \<Rightarrow> u64 \<Rightarrow> (unit, 'z virtio_st_scheme) kernel" where
  "write_addr r a =
     bindk (mmio_write (R r) (ucast a)) (\<lambda>_.
     mmio_write (R (r + 4)) (ucast (drop_bit 32 a)))"

definition virtio_queue_init :: "u32 \<Rightarrow> (unit, 'z virtio_st_scheme) kernel" where
  "virtio_queue_init status =
     bindk kalloc (\<lambda>d.
     bindk kalloc (\<lambda>a.
     bindk kalloc (\<lambda>u.
     bindk (modifyk (\<lambda>s. s\<lparr>vdesc_pa := d, vavail_pa := a, vused_pa := u\<rparr>)) (\<lambda>_.
     if d = 0 \<or> a = 0 \<or> u = 0 then panick ''virtio disk kalloc'' else
     bindk (memsetk d 0 4096) (\<lambda>_.
     bindk (memsetk a 0 4096) (\<lambda>_.
     bindk (memsetk u 0 4096) (\<lambda>_.
     bindk (modifyk (\<lambda>s. s\<lparr>vdesc := replicate NUM zero_desc, vavail := \<lparr>av_idx = 0, av_ring = replicate NUM 0\<rparr>,
       vused := \<lparr>us_idx = 0, us_ring = replicate NUM 0\<rparr>\<rparr>)) (\<lambda>_.
     bindk (mmio_write (R 0x038) (of_nat NUM)) (\<lambda>_.
     bindk (write_addr 0x080 d) (\<lambda>_.
     bindk (write_addr 0x090 a) (\<lambda>_.
     bindk (write_addr 0x0a0 u) (\<lambda>_.
     bindk (mmio_write (R 0x044) 1) (\<lambda>_.
     bindk (modifyk (\<lambda>s. s\<lparr>vfree := replicate NUM True\<rparr>)) (\<lambda>_.
     mmio_write (R 0x070) (status OR 4)))))))))))))))"

definition virtio_disk_init :: "(unit, 'z virtio_st_scheme) kernel" where
  "virtio_disk_init =
     bindk (modifyk (initlock VdiskLock ''virtio_disk'')) (\<lambda>_.
     bindk (mmio_read (R 0)) (\<lambda>magic. if magic \<noteq> 0x74726976 then panick ''could not find virtio disk'' else
     bindk (mmio_read (R 0x004)) (\<lambda>version. if version \<noteq> 2 then panick ''could not find virtio disk'' else
     bindk (mmio_read (R 0x008)) (\<lambda>device. if device \<noteq> 2 then panick ''could not find virtio disk'' else
     bindk (mmio_read (R 0x00c)) (\<lambda>vendor. if vendor \<noteq> 0x554d4551 then panick ''could not find virtio disk'' else
     bindk (mmio_write (R 0x070) 0) (\<lambda>_.
     bindk (mmio_write (R 0x070) 1) (\<lambda>_.
     bindk (mmio_write (R 0x070) (1 OR 2)) (\<lambda>_.
     bindk (mmio_read (R 0x010)) (\<lambda>features.
     bindk (mmio_write (R 0x020) (clear_bits [5, 7, 11, 12, 27, 29, 28] features)) (\<lambda>_.
     bindk (mmio_write (R 0x070) (1 OR 2 OR 8)) (\<lambda>_.
     bindk (mmio_read (R 0x070)) (\<lambda>status.
     if status AND 8 = 0 then panick ''virtio disk FEATURES_OK unset'' else
     bindk (mmio_write (R 0x030) 0) (\<lambda>_.
     bindk (mmio_read (R 0x044)) (\<lambda>ready. if ready \<noteq> 0 then panick ''virtio disk should not be ready'' else
     bindk (mmio_read (R 0x034)) (\<lambda>mx.
     if mx = 0 then panick ''virtio disk has no queue 0'' else
     if mx < of_nat NUM then panick ''virtio disk max queue too short'' else
     virtio_queue_init status)))))))))))))))"

section \<open>The interrupt controller\<close>

abbreviation (input) UART0_IRQ :: nat where "UART0_IRQ \<equiv> 10"
abbreviation (input) VIRTIO0_IRQ :: nat where "VIRTIO0_IRQ \<equiv> 1"

definition PLIC_SENABLE :: "nat \<Rightarrow> u64" where
  "PLIC_SENABLE hart = PLIC + 0x2080 + of_nat hart * 0x100"

definition PLIC_SPRIORITY :: "nat \<Rightarrow> u64" where
  "PLIC_SPRIORITY hart = PLIC + 0x201000 + of_nat hart * 0x2000"

definition PLIC_SCLAIM :: "nat \<Rightarrow> u64" where
  "PLIC_SCLAIM hart = PLIC + 0x201004 + of_nat hart * 0x2000"

definition plicinit :: "(unit, 'z virtio_st_scheme) kernel" where
  "plicinit =
     bindk (mmio_write (PLIC + of_nat UART0_IRQ * 4) 1) (\<lambda>_.
     mmio_write (PLIC + of_nat VIRTIO0_IRQ * 4) 1)"

definition plicinithart :: "(unit, 'z virtio_st_scheme) kernel" where
  "plicinithart =
     bindk (getk cpuid) (\<lambda>hart.
     bindk (mmio_write (PLIC_SENABLE hart) (push_bit UART0_IRQ 1 OR push_bit VIRTIO0_IRQ 1)) (\<lambda>_.
     mmio_write (PLIC_SPRIORITY hart) 0))"

definition plic_claim :: "(int, 'z virtio_st_scheme) kernel" where
  "plic_claim =
     bindk (getk cpuid) (\<lambda>hart.
     bindk (mmio_read (PLIC_SCLAIM hart)) (\<lambda>irq.
     returnk (sint irq)))"

definition plic_complete :: "int \<Rightarrow> (unit, 'z virtio_st_scheme) kernel" where
  "plic_complete irq =
     bindk (getk cpuid) (\<lambda>hart.
     mmio_write (PLIC_SCLAIM hart) (of_int irq))"

end
