(* ===== verification/Csr.thy ===== *)
theory Csr
  imports Virtio
begin

text \<open>
  The control and status registers of a hart (kernel/riscv.h) that are not part of the machine
  state yet, their accessors, and the machine-mode boot code kernel/start.c.
\<close>

section \<open>Registers\<close>

record csr_st = virtio_st +
  csr_mhartid :: u64
  csr_mstatus :: u64
  csr_mepc :: u64
  csr_sie :: u64
  csr_mie :: u64
  csr_sip :: u64
  csr_sepc :: u64
  csr_medeleg :: u64
  csr_mideleg :: u64
  csr_stvec :: u64
  csr_mtvec :: u64
  csr_pmpcfg0 :: u64
  csr_pmpaddr0 :: u64
  csr_mscratch :: u64
  csr_scause :: u64
  csr_stval :: u64
  csr_mcounteren :: u64
  csr_mtime :: u64
  reg_sp :: u64
  reg_ra :: u64
  timer_scratch :: "nat \<Rightarrow> u64 list"
  timer_scratch_pa :: "nat \<Rightarrow> u64"
  main_pa :: u64
  timervec_pa :: u64
  clint_obs :: "u64 \<Rightarrow> u64"
  clint_wr :: "(u64 \<times> u64) list"

abbreviation (input) MSTATUS_MPP_MASK :: u64 where "MSTATUS_MPP_MASK \<equiv> 0x1800"
abbreviation (input) MSTATUS_MPP_S :: u64 where "MSTATUS_MPP_S \<equiv> 0x800"
abbreviation (input) MSTATUS_MIE :: u64 where "MSTATUS_MIE \<equiv> 8"
abbreviation (input) SIE_SEIE :: u64 where "SIE_SEIE \<equiv> 0x200"
abbreviation (input) SIE_STIE :: u64 where "SIE_STIE \<equiv> 0x20"
abbreviation (input) SIE_SSIE :: u64 where "SIE_SSIE \<equiv> 2"
abbreviation (input) MIE_MTIE :: u64 where "MIE_MTIE \<equiv> 0x80"

definition r_mhartid :: "(u64, 'z csr_st_scheme) kernel" where
  "r_mhartid = getk csr_mhartid"

definition r_mstatus :: "(u64, 'z csr_st_scheme) kernel" where
  "r_mstatus = getk csr_mstatus"

definition r_sip :: "(u64, 'z csr_st_scheme) kernel" where
  "r_sip = getk csr_sip"

definition r_sie :: "(u64, 'z csr_st_scheme) kernel" where
  "r_sie = getk csr_sie"

definition r_mie :: "(u64, 'z csr_st_scheme) kernel" where
  "r_mie = getk csr_mie"

definition r_sepc :: "(u64, 'z csr_st_scheme) kernel" where
  "r_sepc = getk csr_sepc"

definition r_medeleg :: "(u64, 'z csr_st_scheme) kernel" where
  "r_medeleg = getk csr_medeleg"

definition r_mideleg :: "(u64, 'z csr_st_scheme) kernel" where
  "r_mideleg = getk csr_mideleg"

definition r_stvec :: "(u64, 'z csr_st_scheme) kernel" where
  "r_stvec = getk csr_stvec"

definition r_scause :: "(u64, 'z csr_st_scheme) kernel" where
  "r_scause = getk csr_scause"

definition r_stval :: "(u64, 'z csr_st_scheme) kernel" where
  "r_stval = getk csr_stval"

definition r_mcounteren :: "(u64, 'z csr_st_scheme) kernel" where
  "r_mcounteren = getk csr_mcounteren"

definition r_sstatus :: "(u64, 'z csr_st_scheme) kernel" where
  "r_sstatus = getk sstatus"

definition r_satp :: "(u64, 'z csr_st_scheme) kernel" where
  "r_satp = getk satp"

definition r_time :: "(u64, 'z csr_st_scheme) kernel" where
  "r_time = getk csr_mtime"

definition r_sp :: "(u64, 'z csr_st_scheme) kernel" where
  "r_sp = getk reg_sp"

definition r_ra :: "(u64, 'z csr_st_scheme) kernel" where
  "r_ra = getk reg_ra"

definition r_tp :: "(u64, 'z csr_st_scheme) kernel" where
  "r_tp = getk (\<lambda>s. of_nat (tp s))"

definition w_mstatus :: "u64 \<Rightarrow> (unit, 'z csr_st_scheme) kernel" where
  "w_mstatus x = modifyk (\<lambda>s. s\<lparr>csr_mstatus := x\<rparr>)"

definition w_mepc :: "u64 \<Rightarrow> (unit, 'z csr_st_scheme) kernel" where
  "w_mepc x = modifyk (\<lambda>s. s\<lparr>csr_mepc := x\<rparr>)"

definition w_sip :: "u64 \<Rightarrow> (unit, 'z csr_st_scheme) kernel" where
  "w_sip x = modifyk (\<lambda>s. s\<lparr>csr_sip := x\<rparr>)"

definition w_sie :: "u64 \<Rightarrow> (unit, 'z csr_st_scheme) kernel" where
  "w_sie x = modifyk (\<lambda>s. s\<lparr>csr_sie := x\<rparr>)"

definition w_mie :: "u64 \<Rightarrow> (unit, 'z csr_st_scheme) kernel" where
  "w_mie x = modifyk (\<lambda>s. s\<lparr>csr_mie := x\<rparr>)"

definition w_sepc :: "u64 \<Rightarrow> (unit, 'z csr_st_scheme) kernel" where
  "w_sepc x = modifyk (\<lambda>s. s\<lparr>csr_sepc := x\<rparr>)"

definition w_medeleg :: "u64 \<Rightarrow> (unit, 'z csr_st_scheme) kernel" where
  "w_medeleg x = modifyk (\<lambda>s. s\<lparr>csr_medeleg := x\<rparr>)"

definition w_mideleg :: "u64 \<Rightarrow> (unit, 'z csr_st_scheme) kernel" where
  "w_mideleg x = modifyk (\<lambda>s. s\<lparr>csr_mideleg := x\<rparr>)"

definition w_stvec :: "u64 \<Rightarrow> (unit, 'z csr_st_scheme) kernel" where
  "w_stvec x = modifyk (\<lambda>s. s\<lparr>csr_stvec := x\<rparr>)"

definition w_mtvec :: "u64 \<Rightarrow> (unit, 'z csr_st_scheme) kernel" where
  "w_mtvec x = modifyk (\<lambda>s. s\<lparr>csr_mtvec := x\<rparr>)"

definition w_pmpcfg0 :: "u64 \<Rightarrow> (unit, 'z csr_st_scheme) kernel" where
  "w_pmpcfg0 x = modifyk (\<lambda>s. s\<lparr>csr_pmpcfg0 := x\<rparr>)"

definition w_pmpaddr0 :: "u64 \<Rightarrow> (unit, 'z csr_st_scheme) kernel" where
  "w_pmpaddr0 x = modifyk (\<lambda>s. s\<lparr>csr_pmpaddr0 := x\<rparr>)"

definition w_mscratch :: "u64 \<Rightarrow> (unit, 'z csr_st_scheme) kernel" where
  "w_mscratch x = modifyk (\<lambda>s. s\<lparr>csr_mscratch := x\<rparr>)"

definition w_mcounteren :: "u64 \<Rightarrow> (unit, 'z csr_st_scheme) kernel" where
  "w_mcounteren x = modifyk (\<lambda>s. s\<lparr>csr_mcounteren := x\<rparr>)"

definition w_sstatus :: "u64 \<Rightarrow> (unit, 'z csr_st_scheme) kernel" where
  "w_sstatus x = modifyk (\<lambda>s. s\<lparr>sstatus := x\<rparr>)"

definition w_satp :: "u64 \<Rightarrow> (unit, 'z csr_st_scheme) kernel" where
  "w_satp x = modifyk (\<lambda>s. s\<lparr>satp := x\<rparr>)"

definition w_tp :: "u64 \<Rightarrow> (unit, 'z csr_st_scheme) kernel" where
  "w_tp x = modifyk (\<lambda>s. s\<lparr>tp := unat x\<rparr>)"

section \<open>kernel/start.c\<close>

definition CLINT_MTIMECMP :: "nat \<Rightarrow> u64" where
  "CLINT_MTIMECMP hartid = 0x2000000 + 0x4000 + 8 * of_nat hartid"

abbreviation (input) CLINT_MTIME :: u64 where "CLINT_MTIME \<equiv> 0x2000000 + 0xBFF8"

definition timerinit :: "(unit, 'z csr_st_scheme) kernel" where
  "timerinit =
     bindk r_mhartid (\<lambda>h.
     let id = unat h; interval = 1000000 in
     bindk (getk (\<lambda>s. clint_obs s CLINT_MTIME)) (\<lambda>now.
     bindk (modifyk (\<lambda>s. s\<lparr>clint_wr := clint_wr s @ [(CLINT_MTIMECMP id, now + interval)]\<rparr>)) (\<lambda>_.
     bindk (modifyk (\<lambda>s. s\<lparr>timer_scratch := (timer_scratch s)(id :=
       (timer_scratch s id)[3 := CLINT_MTIMECMP id, 4 := interval])\<rparr>)) (\<lambda>_.
     bindk (getk (\<lambda>s. timer_scratch_pa s id)) (\<lambda>scratch.
     bindk (w_mscratch scratch) (\<lambda>_.
     bindk (getk timervec_pa) (\<lambda>tv.
     bindk (w_mtvec tv) (\<lambda>_.
     bindk r_mstatus (\<lambda>m.
     bindk (w_mstatus (m OR MSTATUS_MIE)) (\<lambda>_.
     bindk r_mie (\<lambda>e.
     w_mie (e OR MIE_MTIE))))))))))))"

text \<open>\<open>start\<close> up to \<open>mret\<close>.\<close>

definition start :: "(unit, 'z csr_st_scheme) kernel" where
  "start =
     bindk r_mstatus (\<lambda>x.
     bindk (w_mstatus ((x AND NOT MSTATUS_MPP_MASK) OR MSTATUS_MPP_S)) (\<lambda>_.
     bindk (getk main_pa) (\<lambda>m.
     bindk (w_mepc m) (\<lambda>_.
     bindk (w_satp 0) (\<lambda>_.
     bindk (w_medeleg 0xffff) (\<lambda>_.
     bindk (w_mideleg 0xffff) (\<lambda>_.
     bindk r_sie (\<lambda>e.
     bindk (w_sie (e OR SIE_SEIE OR SIE_STIE OR SIE_SSIE)) (\<lambda>_.
     bindk (w_pmpaddr0 0x3fffffffffffff) (\<lambda>_.
     bindk (w_pmpcfg0 0xf) (\<lambda>_.
     bindk timerinit (\<lambda>_.
     bindk r_mhartid (\<lambda>id.
     w_tp id)))))))))))))"

end
