(* ===== verification/Procfile.thy ===== *)
theory Procfile
  imports File
begin

text \<open>
  The operations of kernel/proc.c that use the file system: \<open>userinit\<close>, \<open>fork\<close> and \<open>exit\<close>; and
  kernel/exec.c with the ELF structures of kernel/elf.h. The saved user registers of a process
  are 64-bit words of its trapframe page, at the offsets of \<open>struct trapframe\<close>.
\<close>

section \<open>The trapframe\<close>

abbreviation (input) tf_kernel_satp :: u64 where "tf_kernel_satp \<equiv> 0"
abbreviation (input) tf_kernel_sp :: u64 where "tf_kernel_sp \<equiv> 8"
abbreviation (input) tf_kernel_trap :: u64 where "tf_kernel_trap \<equiv> 16"
abbreviation (input) tf_epc :: u64 where "tf_epc \<equiv> 24"
abbreviation (input) tf_kernel_hartid :: u64 where "tf_kernel_hartid \<equiv> 32"
abbreviation (input) tf_sp :: u64 where "tf_sp \<equiv> 48"
abbreviation (input) tf_a0 :: u64 where "tf_a0 \<equiv> 112"
abbreviation (input) tf_a1 :: u64 where "tf_a1 \<equiv> 120"
abbreviation (input) tf_a7 :: u64 where "tf_a7 \<equiv> 168"
abbreviation (input) tf_size :: nat where "tf_size \<equiv> 288"

definition tf_read :: "nat \<Rightarrow> u64 \<Rightarrow> (u64, 'z proc_st_scheme) kernel" where
  "tf_read p off = bindk (getp p p_trapframe) (\<lambda>tf. loadk (tf + off))"

definition tf_write :: "nat \<Rightarrow> u64 \<Rightarrow> u64 \<Rightarrow> (unit, 'z proc_st_scheme) kernel" where
  "tf_write p off v = bindk (getp p p_trapframe) (\<lambda>tf. storek (tf + off) v)"

section \<open>userinit, fork and exit\<close>

definition initcode :: "u8 list" where
  "initcode =
     [0x17, 0x05, 0x00, 0x00, 0x13, 0x05, 0x45, 0x02,
      0x97, 0x05, 0x00, 0x00, 0x93, 0x85, 0x35, 0x02,
      0x93, 0x08, 0x70, 0x00, 0x73, 0x00, 0x00, 0x00,
      0x93, 0x08, 0x20, 0x00, 0x73, 0x00, 0x00, 0x00,
      0xef, 0xf0, 0x9f, 0xff, 0x2f, 0x69, 0x6e, 0x69,
      0x74, 0x00, 0x00, 0x24, 0x00, 0x00, 0x00, 0x00,
      0x00, 0x00, 0x00, 0x00]"

text \<open>The string \<open>safestrcpy(dst, src, n)\<close> leaves in \<open>dst\<close>.\<close>

definition cstr_copy :: "u8 list \<Rightarrow> nat \<Rightarrow> u8 list" where
  "cstr_copy src n = take (n - 1) src"

definition userinit :: "(unit, 'z fs_st_scheme) kernel" where
  "userinit =
     bindk allocproc (\<lambda>np.
     bindk (modifyk (\<lambda>s. s\<lparr>initproc := np\<rparr>)) (\<lambda>_. derefk np (\<lambda>p.
     bindk (getk kobj) (\<lambda>a.
     bindk (modifyk (\<lambda>s. s\<lparr>mem := store_bytes (mem s) a initcode\<rparr>)) (\<lambda>_.
     bindk (getp p p_pagetable) (\<lambda>pt.
     bindk (uvmfirst pt a (of_nat (length initcode))) (\<lambda>_.
     bindk (setp p (p_sz_update (\<lambda>_. PGSIZE))) (\<lambda>_.
     bindk (tf_write p tf_epc 0) (\<lambda>_.
     bindk (tf_write p tf_sp PGSIZE) (\<lambda>_.
     bindk (setp p (p_name_update (\<lambda>_. cstr_copy (map (\<lambda>c. of_nat (of_char c)) ''initcode'') 16))) (\<lambda>_.
     bindk (namei [slash]) (\<lambda>ip.
     bindk (setp p (p_cwd_update (\<lambda>_. ip))) (\<lambda>_.
     bindk (setp p (p_state_update (\<lambda>_. RUNNABLE))) (\<lambda>_.
     release (ProcLock p)))))))))))))))"

definition fork_fail :: "nat \<Rightarrow> (int, 'z proc_st_scheme) kernel" where
  "fork_fail np =
     bindk (freeproc np) (\<lambda>_.
     bindk (release (ProcLock np)) (\<lambda>_.
     returnk (-1)))"

definition fork_files :: "nat \<Rightarrow> nat \<Rightarrow> (unit, 'z file_st_scheme) kernel" where
  "fork_files p np =
     foreachk [0..<NOFILE] (\<lambda>i.
       bindk (getp p (\<lambda>q. p_ofile q ! i)) (\<lambda>fo. case fo of
         None \<Rightarrow> returnk ()
       | Some f \<Rightarrow>
         bindk (filedup f) (\<lambda>f'.
         setp np (\<lambda>q. q\<lparr>p_ofile := (p_ofile q)[i := Some f']\<rparr>))))"

definition fork :: "(int, 'z file_st_scheme) kernel" where
  "fork =
     bindk myproc (\<lambda>me. derefk me (\<lambda>p.
     bindk allocproc (\<lambda>r. case r of None \<Rightarrow> returnk (-1) | Some np \<Rightarrow>
     bindk (getp p (\<lambda>q. q)) (\<lambda>q.
     bindk (getp np p_pagetable) (\<lambda>npt.
     bindk (uvmcopy (p_pagetable q) npt (p_sz q)) (\<lambda>r.
     if r < 0 then fork_fail np else
     bindk (setp np (p_sz_update (\<lambda>_. p_sz q))) (\<lambda>_.
     bindk (getp np p_trapframe) (\<lambda>ntf.
     bindk (memmovek ntf (p_trapframe q) tf_size) (\<lambda>_.
     bindk (tf_write np tf_a0 0) (\<lambda>_.
     bindk (fork_files p np) (\<lambda>_.
     derefk (p_cwd q) (\<lambda>cwd.
     bindk (idup cwd) (\<lambda>cwd'.
     bindk (setp np (p_cwd_update (\<lambda>_. Some cwd'))) (\<lambda>_.
     bindk (setp np (p_name_update (\<lambda>_. cstr_copy (p_name q) 16))) (\<lambda>_.
     bindk (getp np p_pid) (\<lambda>pid.
     bindk (release (ProcLock np)) (\<lambda>_.
     bindk (acquire WaitLock) (\<lambda>_.
     bindk (setp np (p_parent_update (\<lambda>_. Some p))) (\<lambda>_.
     bindk (release WaitLock) (\<lambda>_.
     bindk (acquire (ProcLock np)) (\<lambda>_.
     bindk (setp np (p_state_update (\<lambda>_. RUNNABLE))) (\<lambda>_.
     bindk (release (ProcLock np)) (\<lambda>_.
     returnk pid)))))))))))))))))))))))"

definition exit_files :: "nat \<Rightarrow> (unit, 'z file_st_scheme) kernel" where
  "exit_files p =
     foreachk [0..<NOFILE] (\<lambda>fd.
       bindk (getp p (\<lambda>q. p_ofile q ! fd)) (\<lambda>fo. case fo of
         None \<Rightarrow> returnk ()
       | Some f \<Rightarrow>
         bindk (fileclose f) (\<lambda>_.
         setp p (\<lambda>q. q\<lparr>p_ofile := (p_ofile q)[fd := None]\<rparr>))))"

definition exit_last :: "nat \<Rightarrow> int \<Rightarrow> ('a, 'z proc_st_scheme) kernel" where
  "exit_last p status =
     bindk (acquire WaitLock) (\<lambda>_.
     bindk (reparent p) (\<lambda>_.
     bindk (getp p p_parent) (\<lambda>par.
     bindk (wakeup (map_option ChProc par)) (\<lambda>_.
     bindk (acquire (ProcLock p)) (\<lambda>_.
     bindk (setp p (p_xstate_update (\<lambda>_. status))) (\<lambda>_.
     bindk (setp p (p_state_update (\<lambda>_. ZOMBIE))) (\<lambda>_.
     bindk (release WaitLock) (\<lambda>_.
     bindk sched (\<lambda>_ :: unit.
     panick ''zombie exit'')))))))))"

definition exit :: "int \<Rightarrow> ('a, 'z file_st_scheme) kernel" where
  "exit status =
     bindk myproc (\<lambda>me. derefk me (\<lambda>p.
     bindk (getk initproc) (\<lambda>ip. if ip = Some p then panick ''init exiting'' else
     bindk (exit_files p) (\<lambda>_.
     bindk begin_op (\<lambda>_.
     bindk (getp p p_cwd) (\<lambda>cwd. derefk cwd (\<lambda>c.
     bindk (iput c) (\<lambda>_.
     bindk end_op (\<lambda>_.
     bindk (setp p (p_cwd_update (\<lambda>_. None))) (\<lambda>_.
     exit_last p status))))))))))"

section \<open>kernel/exec.c\<close>

abbreviation (input) ELF_MAGIC :: u32 where "ELF_MAGIC \<equiv> 0x464C457F"
abbreviation (input) ELF_PROG_LOAD :: u32 where "ELF_PROG_LOAD \<equiv> 1"

definition rd64 :: "u8 list \<Rightarrow> nat \<Rightarrow> u64" where
  "rd64 bs i = le_word (take 8 (drop i bs))"

record elfhdr =
  e_magic :: u32
  e_entry :: u64
  e_phoff :: u64
  e_phnum :: u16

record proghdr =
  ph_type :: u32
  ph_flags :: u32
  ph_off :: u64
  ph_vaddr :: u64
  ph_filesz :: u64
  ph_memsz :: u64

definition elfhdr_of :: "u8 list \<Rightarrow> elfhdr" where
  "elfhdr_of bs = \<lparr>e_magic = rd32 bs 0, e_entry = rd64 bs 24, e_phoff = rd64 bs 32, e_phnum = rd16 bs 56\<rparr>"

definition proghdr_of :: "u8 list \<Rightarrow> proghdr" where
  "proghdr_of bs = \<lparr>ph_type = rd32 bs 0, ph_flags = rd32 bs 4, ph_off = rd64 bs 8, ph_vaddr = rd64 bs 16,
     ph_filesz = rd64 bs 32, ph_memsz = rd64 bs 40\<rparr>"

definition flags2perm :: "u32 \<Rightarrow> u64" where
  "flags2perm flags =
     (if flags AND 1 \<noteq> 0 then PTE_X else 0) OR (if flags AND 2 \<noteq> 0 then PTE_W else 0)"

definition loadseg_body :: "u64 \<Rightarrow> u64 \<Rightarrow> nat \<Rightarrow> u32 \<Rightarrow> u32 \<Rightarrow> u32 \<Rightarrow> (u32 + int, 'z fs_st_scheme) kernel" where
  "loadseg_body pagetable va ip offset sz i =
     (if \<not> i < sz then returnk (Inr 0) else
     bindk (walkaddr pagetable (va + ucast i)) (\<lambda>pa.
     if pa = 0 then panick ''loadseg: address should exist'' else
     let n = (if sz - i < 4096 then sz - i else 4096) in
     bindk (readi ip False pa (offset + i) n) (\<lambda>r.
     if r \<noteq> sint n then returnk (Inr (-1)) else returnk (Inl (i + 4096)))))"

definition loadseg :: "u64 \<Rightarrow> u64 \<Rightarrow> nat \<Rightarrow> u32 \<Rightarrow> u32 \<Rightarrow> (int, 'z fs_st_scheme) kernel" where
  "loadseg pagetable va ip offset sz = loopk (loadseg_body pagetable va ip offset sz) 0"

text \<open>Reading a structure of \<open>n\<close> bytes from the file into a local variable.\<close>

definition read_struct :: "nat \<Rightarrow> u32 \<Rightarrow> nat \<Rightarrow> (u8 list option, 'z fs_st_scheme) kernel" where
  "read_struct ip off n =
     bindk (getk kloc) (\<lambda>a.
     bindk (readi ip False a off (of_nat n)) (\<lambda>r.
     if r \<noteq> int n then returnk None else
     getk (\<lambda>s. Some (load_bytes (mem s) a n))))"

definition exec_bad :: "u64 \<Rightarrow> u64 \<Rightarrow> nat option \<Rightarrow> (int, 'z fs_st_scheme) kernel" where
  "exec_bad pagetable sz ipo =
     bindk (whenk (pagetable \<noteq> 0) (proc_freepagetable pagetable sz)) (\<lambda>_.
     bindk (case ipo of None \<Rightarrow> returnk () | Some ip \<Rightarrow>
       bindk (iunlockput ip) (\<lambda>_.
       end_op)) (\<lambda>_.
     returnk (-1)))"

text \<open>One program header; the loop ends with the size so far and whether it succeeded.\<close>

definition exec_load_body :: "nat \<Rightarrow> u64 \<Rightarrow> elfhdr \<Rightarrow> u32 \<times> u32 \<times> u64 \<Rightarrow> ((u32 \<times> u32 \<times> u64) + bool \<times> u64, 'z fs_st_scheme) kernel" where
  "exec_load_body ip pagetable elf = (\<lambda>(i, off, sz).
     if \<not> i < ucast (e_phnum elf) then returnk (Inr (True, sz)) else
     bindk (read_struct ip off 56) (\<lambda>bs. case bs of None \<Rightarrow> returnk (Inr (False, sz)) | Some bs \<Rightarrow>
     let ph = proghdr_of bs in
     if ph_type ph \<noteq> ELF_PROG_LOAD then returnk (Inl (i + 1, off + 56, sz)) else
     if ph_memsz ph < ph_filesz ph then returnk (Inr (False, sz)) else
     if ph_vaddr ph + ph_memsz ph < ph_vaddr ph then returnk (Inr (False, sz)) else
     if ph_vaddr ph mod PGSIZE \<noteq> 0 then returnk (Inr (False, sz)) else
     bindk (uvmalloc pagetable sz (ph_vaddr ph + ph_memsz ph) (flags2perm (ph_flags ph))) (\<lambda>sz1.
     if sz1 = 0 then returnk (Inr (False, sz)) else
     bindk (loadseg pagetable (ph_vaddr ph) ip (ucast (ph_off ph)) (ucast (ph_filesz ph))) (\<lambda>r.
     if r < 0 then returnk (Inr (False, sz1)) else
     returnk (Inl (i + 1, off + 56, sz1))))))"

definition strlenk :: "u64 \<Rightarrow> (nat, 'z machine_scheme) kernel" where
  "strlenk a s = (case strlen (mem s) a of None \<Rightarrow> Spins | Some n \<Rightarrow> Ok n s)"

definition exec_args_body :: "u64 \<Rightarrow> u64 \<Rightarrow> u64 list \<Rightarrow> nat \<times> u64 \<times> u64 list \<Rightarrow>
    ((nat \<times> u64 \<times> u64 list) + (nat \<times> u64 \<times> u64 list) option, 'z kmem_st_scheme) kernel" where
  "exec_args_body pagetable stackbase argv = (\<lambda>(argc, sp, ustack).
     if \<not> argc < length argv then returnk (Inr (Some (argc, sp, ustack))) else
     if argc \<ge> MAXARG then returnk (Inr None) else
     bindk (strlenk (argv ! argc)) (\<lambda>n.
     let sp = sp - of_nat (n + 1); sp = sp - sp mod 16 in
     if sp < stackbase then returnk (Inr None) else
     bindk (copyout pagetable sp (argv ! argc) (of_nat (n + 1))) (\<lambda>r.
     if r < 0 then returnk (Inr None) else
     returnk (Inl (argc + 1, sp, ustack @ [sp])))))"

definition last_elem :: "u8 list \<Rightarrow> u8 list" where
  "last_elem path = rev (takeWhile (\<lambda>c. c \<noteq> slash) (rev path))"

definition exec_commit :: "nat \<Rightarrow> u8 list \<Rightarrow> elfhdr \<Rightarrow> u64 \<Rightarrow> u64 \<Rightarrow> u64 \<Rightarrow> u64 \<Rightarrow> nat \<Rightarrow> (int, 'z fs_st_scheme) kernel" where
  "exec_commit p path elf pagetable sz oldsz sp argc =
     bindk (tf_write p tf_a1 sp) (\<lambda>_.
     bindk (setp p (p_name_update (\<lambda>_. cstr_copy (last_elem path) 16))) (\<lambda>_.
     bindk (getp p p_pagetable) (\<lambda>oldpagetable.
     bindk (setp p (p_pagetable_update (\<lambda>_. pagetable))) (\<lambda>_.
     bindk (setp p (p_sz_update (\<lambda>_. sz))) (\<lambda>_.
     bindk (tf_write p tf_epc (e_entry elf)) (\<lambda>_.
     bindk (tf_write p tf_sp sp) (\<lambda>_.
     bindk (proc_freepagetable oldpagetable oldsz) (\<lambda>_.
     returnk (int argc)))))))))"

definition exec_stack :: "nat \<Rightarrow> u8 list \<Rightarrow> u64 list \<Rightarrow> elfhdr \<Rightarrow> u64 \<Rightarrow> u64 \<Rightarrow> (int, 'z fs_st_scheme) kernel" where
  "exec_stack p path argv elf pagetable sz0 =
     bindk (getp p p_sz) (\<lambda>oldsz.
     let sz = PGROUNDUP sz0 in
     bindk (uvmalloc pagetable sz (sz + 2 * PGSIZE) PTE_W) (\<lambda>sz1.
     if sz1 = 0 then exec_bad pagetable sz None else
     bindk (uvmclear pagetable (sz1 - 2 * PGSIZE)) (\<lambda>_.
     let stackbase = sz1 - PGSIZE in
     bindk (loopk (exec_args_body pagetable stackbase argv) (0, sz1, [])) (\<lambda>r. case r of
       None \<Rightarrow> exec_bad pagetable sz1 None
     | Some (argc, sp, ustack) \<Rightarrow>
       let sp = sp - of_nat ((argc + 1) * 8); sp = sp - sp mod 16 in
       if sp < stackbase then exec_bad pagetable sz1 None else
       bindk (copyout_obj pagetable sp (concat (map (le_bytes 8) (ustack @ [0])))) (\<lambda>r.
       if r < 0 then exec_bad pagetable sz1 None else
       exec_commit p path elf pagetable sz1 oldsz sp argc)))))"

definition exec :: "u8 list \<Rightarrow> u64 list \<Rightarrow> (int, 'z fs_st_scheme) kernel" where
  "exec path argv =
     bindk myproc (\<lambda>me. derefk me (\<lambda>p.
     bindk begin_op (\<lambda>_.
     bindk (namei path) (\<lambda>ipo. case ipo of
       None \<Rightarrow> bindk end_op (\<lambda>_. returnk (-1))
     | Some ip \<Rightarrow>
       bindk (ilock (Some ip)) (\<lambda>_.
       bindk (read_struct ip 0 64) (\<lambda>bs. case bs of None \<Rightarrow> exec_bad 0 0 (Some ip) | Some bs \<Rightarrow>
       let elf = elfhdr_of bs in
       if e_magic elf \<noteq> ELF_MAGIC then exec_bad 0 0 (Some ip) else
       bindk (proc_pagetable p) (\<lambda>pagetable.
       if pagetable = 0 then exec_bad 0 0 (Some ip) else
       bindk (loopk (exec_load_body ip pagetable elf) (0, ucast (e_phoff elf), 0)) (\<lambda>(ok, sz).
       if \<not> ok then exec_bad pagetable sz (Some ip) else
       bindk (iunlockput ip) (\<lambda>_.
       bindk end_op (\<lambda>_.
       exec_stack p path argv elf pagetable sz)))))))))) "

end
