(* ===== verification/Sysfile.thy ===== *)
theory Sysfile
  imports Procfile
begin

text \<open>
  The argument access of kernel/syscall.c and the system calls of kernel/sysfile.c. A system call
  returns the 64-bit value that becomes the user's \<open>a0\<close>; an error is -1.
\<close>

section \<open>Arguments\<close>

definition fetchaddr :: "u64 \<Rightarrow> (int \<times> u64, 'z proc_st_scheme) kernel" where
  "fetchaddr addr =
     bindk myproc (\<lambda>me. derefk me (\<lambda>p.
     bindk (getp p p_sz) (\<lambda>sz.
     if addr \<ge> sz \<or> addr + 8 > sz then returnk (-1, 0) else
     bindk (getk kloc) (\<lambda>a.
     bindk (getp p p_pagetable) (\<lambda>pt.
     bindk (copyin pt a addr 8) (\<lambda>r.
     if r \<noteq> 0 then returnk (-1, 0) else
     bindk (loadk a) (\<lambda>v.
     returnk (0, v))))))))"

definition fetchstr :: "u64 \<Rightarrow> u64 \<Rightarrow> nat \<Rightarrow> (int, 'z proc_st_scheme) kernel" where
  "fetchstr addr buf mx =
     bindk myproc (\<lambda>me. derefk me (\<lambda>p.
     bindk (getp p p_pagetable) (\<lambda>pt.
     bindk (copyinstr pt buf addr (of_nat mx)) (\<lambda>r.
     if r < 0 then returnk (-1) else
     bindk (strlenk buf) (\<lambda>n.
     returnk (int n))))))"

definition argraw :: "nat \<Rightarrow> (u64, 'z proc_st_scheme) kernel" where
  "argraw n =
     bindk myproc (\<lambda>me. derefk me (\<lambda>p.
     if n \<le> 5 then tf_read p (tf_a0 + of_nat (8 * n)) else panick ''argraw''))"

definition argint :: "nat \<Rightarrow> (int, 'z proc_st_scheme) kernel" where
  "argint n = bindk (argraw n) (\<lambda>v. returnk (sint (ucast v :: u32)))"

definition argaddr :: "nat \<Rightarrow> (u64, 'z proc_st_scheme) kernel" where
  "argaddr n = argraw n"

text \<open>\<open>argstr\<close> into a local array; the string that is then in the array is part of the result.\<close>

definition argstr :: "nat \<Rightarrow> nat \<Rightarrow> (int \<times> u8 list, 'z proc_st_scheme) kernel" where
  "argstr n mx =
     bindk (argaddr n) (\<lambda>addr.
     bindk (getk kloc) (\<lambda>a.
     bindk (fetchstr addr a mx) (\<lambda>r.
     if r < 0 then returnk (r, []) else
     getk (\<lambda>s. (r, load_bytes (mem s) a (nat r))))))"

definition argfd :: "nat \<Rightarrow> ((nat \<times> nat) option, 'z proc_st_scheme) kernel" where
  "argfd n =
     bindk (argint n) (\<lambda>fd.
     if fd < 0 \<or> fd \<ge> int NOFILE then returnk None else
     bindk myproc (\<lambda>me. derefk me (\<lambda>p.
     bindk (getp p (\<lambda>q. p_ofile q ! nat fd)) (\<lambda>fo. case fo of
       None \<Rightarrow> returnk None
     | Some f \<Rightarrow> returnk (Some (nat fd, f))))))"

definition set_ofile :: "nat \<Rightarrow> nat \<Rightarrow> nat option \<Rightarrow> (unit, 'z proc_st_scheme) kernel" where
  "set_ofile p fd f = setp p (\<lambda>q. q\<lparr>p_ofile := (p_ofile q)[fd := f]\<rparr>)"

definition fdalloc :: "nat \<Rightarrow> (int, 'z proc_st_scheme) kernel" where
  "fdalloc f =
     bindk myproc (\<lambda>me. derefk me (\<lambda>p.
     bindk (getp p p_ofile) (\<lambda>t.
     case find_index (\<lambda>x. x = None) t of
       None \<Rightarrow> returnk (-1)
     | Some fd \<Rightarrow>
         bindk (set_ofile p fd (Some f)) (\<lambda>_.
         returnk (int fd)))))"

section \<open>Open files\<close>

definition sys_dup :: "(u64, 'z file_st_scheme) kernel" where
  "sys_dup =
     bindk (argfd 0) (\<lambda>a. case a of None \<Rightarrow> returnk (-1) | Some (_, f) \<Rightarrow>
     bindk (fdalloc f) (\<lambda>fd.
     if fd < 0 then returnk (-1) else
     bindk (filedup f) (\<lambda>_.
     returnk (of_int fd))))"

definition sys_read :: "(u64, 'z file_st_scheme) kernel" where
  "sys_read =
     bindk (argaddr 1) (\<lambda>p.
     bindk (argint 2) (\<lambda>n.
     bindk (argfd 0) (\<lambda>a. case a of None \<Rightarrow> returnk (-1) | Some (_, f) \<Rightarrow>
     bindk (fileread f p n) (\<lambda>r.
     returnk (of_int r)))))"

definition sys_write :: "(u64, 'z file_st_scheme) kernel" where
  "sys_write =
     bindk (argaddr 1) (\<lambda>p.
     bindk (argint 2) (\<lambda>n.
     bindk (argfd 0) (\<lambda>a. case a of None \<Rightarrow> returnk (-1) | Some (_, f) \<Rightarrow>
     bindk (filewrite f p n) (\<lambda>r.
     returnk (of_int r)))))"

definition sys_close :: "(u64, 'z file_st_scheme) kernel" where
  "sys_close =
     bindk (argfd 0) (\<lambda>a. case a of None \<Rightarrow> returnk (-1) | Some (fd, f) \<Rightarrow>
     bindk myproc (\<lambda>me. derefk me (\<lambda>p.
     bindk (set_ofile p fd None) (\<lambda>_.
     bindk (fileclose f) (\<lambda>_.
     returnk 0)))))"

definition sys_fstat :: "(u64, 'z file_st_scheme) kernel" where
  "sys_fstat =
     bindk (argaddr 1) (\<lambda>st.
     bindk (argfd 0) (\<lambda>a. case a of None \<Rightarrow> returnk (-1) | Some (_, f) \<Rightarrow>
     bindk (filestat f st) (\<lambda>r.
     returnk (of_int r))))"

section \<open>Links and directories\<close>

definition upd_nlink :: "nat \<Rightarrow> (u16 \<Rightarrow> u16) \<Rightarrow> (unit, 'z fs_st_scheme) kernel" where
  "upd_nlink ip f =
     bindk (seti ip (i_nlink_update f)) (\<lambda>_.
     iupdate ip)"

definition fail_op :: "(u64, 'z log_st_scheme) kernel" where
  "fail_op = bindk end_op (\<lambda>_. returnk (-1))"

definition sys_link_bad :: "nat \<Rightarrow> (u64, 'z fs_st_scheme) kernel" where
  "sys_link_bad ip =
     bindk (ilock (Some ip)) (\<lambda>_.
     bindk (upd_nlink ip (\<lambda>n. n - 1)) (\<lambda>_.
     bindk (iunlockput ip) (\<lambda>_.
     fail_op)))"

definition sys_link :: "(u64, 'z fs_st_scheme) kernel" where
  "sys_link =
     bindk (argstr 0 MAXPATH) (\<lambda>(r0, old). if r0 < 0 then returnk (-1) else
     bindk (argstr 1 MAXPATH) (\<lambda>(r1, new). if r1 < 0 then returnk (-1) else
     bindk begin_op (\<lambda>_.
     bindk (namei old) (\<lambda>ipo. case ipo of None \<Rightarrow> fail_op | Some ip \<Rightarrow>
     bindk (ilock (Some ip)) (\<lambda>_.
     bindk (geti ip i_type) (\<lambda>t.
     if t = T_DIR then
       bindk (iunlockput ip) (\<lambda>_.
       fail_op)
     else
     bindk (upd_nlink ip (\<lambda>n. n + 1)) (\<lambda>_.
     bindk (iunlock (Some ip)) (\<lambda>_.
     bindk (nameiparent new (replicate DIRSIZ 0)) (\<lambda>(dpo, name). case dpo of None \<Rightarrow> sys_link_bad ip | Some dp \<Rightarrow>
     bindk (ilock (Some dp)) (\<lambda>_.
     bindk (geti dp i_dev) (\<lambda>ddev.
     bindk (geti ip (\<lambda>i. i)) (\<lambda>i.
     bindk (if ddev \<noteq> i_dev i then returnk (-1) else dirlink dp name (i_inum i)) (\<lambda>r.
     bindk (iunlockput dp) (\<lambda>_.
     if r < 0 then sys_link_bad ip else
     bindk (iput ip) (\<lambda>_.
     bindk end_op (\<lambda>_.
     returnk 0))))))))))))))))"

definition isdirempty_body :: "nat \<Rightarrow> u32 \<Rightarrow> (u32 + bool, 'z fs_st_scheme) kernel" where
  "isdirempty_body dp off =
     bindk (geti dp i_size) (\<lambda>sz.
     if \<not> off < sz then returnk (Inr True) else
     bindk (read_dirent dp off ''isdirempty: readi'') (\<lambda>de.
     if d_inum de \<noteq> 0 then returnk (Inr False) else returnk (Inl (off + 16))))"

definition isdirempty :: "nat \<Rightarrow> (bool, 'z fs_st_scheme) kernel" where
  "isdirempty dp = loopk (isdirempty_body dp) (2 * 16)"

definition sys_unlink_bad :: "nat \<Rightarrow> (u64, 'z fs_st_scheme) kernel" where
  "sys_unlink_bad dp =
     bindk (iunlockput dp) (\<lambda>_.
     fail_op)"

definition sys_unlink_entry :: "nat \<Rightarrow> nat \<Rightarrow> u32 \<Rightarrow> (u64, 'z fs_st_scheme) kernel" where
  "sys_unlink_entry dp ip off =
     bindk (getk kloc) (\<lambda>a.
     bindk (modifyk (\<lambda>s. s\<lparr>mem := store_bytes (mem s) a (replicate 16 0)\<rparr>)) (\<lambda>_.
     bindk (writei dp False a off 16) (\<lambda>r.
     if r \<noteq> 16 then panick ''unlink: writei'' else
     bindk (geti ip i_type) (\<lambda>t.
     bindk (whenk (t = T_DIR) (upd_nlink dp (\<lambda>n. n - 1))) (\<lambda>_.
     bindk (iunlockput dp) (\<lambda>_.
     bindk (upd_nlink ip (\<lambda>n. n - 1)) (\<lambda>_.
     bindk (iunlockput ip) (\<lambda>_.
     bindk end_op (\<lambda>_.
     returnk 0)))))))))"

definition sys_unlink :: "(u64, 'z fs_st_scheme) kernel" where
  "sys_unlink =
     bindk (argstr 0 MAXPATH) (\<lambda>(r, path). if r < 0 then returnk (-1) else
     bindk begin_op (\<lambda>_.
     bindk (nameiparent path (replicate DIRSIZ 0)) (\<lambda>(dpo, name). case dpo of None \<Rightarrow> fail_op | Some dp \<Rightarrow>
     bindk (ilock (Some dp)) (\<lambda>_.
     if namecmp name [46] = 0 \<or> namecmp name [46, 46] = 0 then sys_unlink_bad dp else
     bindk (dirlookup dp name) (\<lambda>found. case found of None \<Rightarrow> sys_unlink_bad dp | Some (ip, off) \<Rightarrow>
     bindk (ilock (Some ip)) (\<lambda>_.
     bindk (geti ip (\<lambda>i. i)) (\<lambda>i.
     if sint (i_nlink i) < 1 then panick ''unlink: nlink < 1'' else
     bindk (if i_type i = T_DIR then isdirempty ip else returnk True) (\<lambda>empty.
     if i_type i = T_DIR \<and> \<not> empty then
       bindk (iunlockput ip) (\<lambda>_.
       sys_unlink_bad dp)
     else sys_unlink_entry dp ip off))))))))"

definition create_fail :: "nat \<Rightarrow> nat \<Rightarrow> (nat option, 'z fs_st_scheme) kernel" where
  "create_fail dp ip =
     bindk (upd_nlink ip (\<lambda>_. 0)) (\<lambda>_.
     bindk (iunlockput ip) (\<lambda>_.
     bindk (iunlockput dp) (\<lambda>_.
     returnk None)))"

text \<open>The entries of a new directory; the result is -1 if one of them could not be made.\<close>

definition create_dots :: "nat \<Rightarrow> nat \<Rightarrow> (int, 'z fs_st_scheme) kernel" where
  "create_dots dp ip =
     bindk (geti ip i_inum) (\<lambda>inum.
     bindk (dirlink ip [46] inum) (\<lambda>r.
     if r < 0 then returnk (-1) else
     bindk (geti dp i_inum) (\<lambda>dinum.
     bindk (dirlink ip [46, 46] dinum) (\<lambda>r.
     if r < 0 then returnk (-1) else returnk 0))))"

definition create_new :: "nat \<Rightarrow> nat \<Rightarrow> u8 list \<Rightarrow> u16 \<Rightarrow> u16 \<Rightarrow> u16 \<Rightarrow> (nat option, 'z fs_st_scheme) kernel" where
  "create_new dp ip name type major minor =
     bindk (ilock (Some ip)) (\<lambda>_.
     bindk (seti ip (\<lambda>x. x\<lparr>i_major := major, i_minor := minor, i_nlink := 1\<rparr>)) (\<lambda>_.
     bindk (iupdate ip) (\<lambda>_.
     bindk (if type = T_DIR then create_dots dp ip else returnk 0) (\<lambda>r.
     if r < 0 then create_fail dp ip else
     bindk (geti ip i_inum) (\<lambda>inum.
     bindk (dirlink dp name inum) (\<lambda>r.
     if r < 0 then create_fail dp ip else
     bindk (whenk (type = T_DIR) (upd_nlink dp (\<lambda>n. n + 1))) (\<lambda>_.
     bindk (iunlockput dp) (\<lambda>_.
     returnk (Some ip)))))))))"

definition create :: "u8 list \<Rightarrow> u16 \<Rightarrow> u16 \<Rightarrow> u16 \<Rightarrow> (nat option, 'z fs_st_scheme) kernel" where
  "create path type major minor =
     bindk (nameiparent path (replicate DIRSIZ 0)) (\<lambda>(dpo, name). case dpo of None \<Rightarrow> returnk None | Some dp \<Rightarrow>
     bindk (ilock (Some dp)) (\<lambda>_.
     bindk (dirlookup dp name) (\<lambda>found. case found of
       Some (ip, off) \<Rightarrow>
         bindk (iunlockput dp) (\<lambda>_.
         bindk (ilock (Some ip)) (\<lambda>_.
         bindk (geti ip i_type) (\<lambda>t.
         if type = T_FILE \<and> (t = T_FILE \<or> t = T_DEVICE) then returnk (Some ip) else
         bindk (iunlockput ip) (\<lambda>_.
         returnk None))))
     | None \<Rightarrow>
       bindk (geti dp i_dev) (\<lambda>dev.
       bindk (ialloc dev type) (\<lambda>ipo. case ipo of
         None \<Rightarrow>
           bindk (iunlockput dp) (\<lambda>_.
           returnk None)
       | Some ip \<Rightarrow> create_new dp ip name type major minor)))))"

abbreviation (input) O_RDONLY :: int where "O_RDONLY \<equiv> 0"
abbreviation (input) O_WRONLY :: int where "O_WRONLY \<equiv> 1"
abbreviation (input) O_RDWR :: int where "O_RDWR \<equiv> 2"
abbreviation (input) O_CREATE :: int where "O_CREATE \<equiv> 0x200"
abbreviation (input) O_TRUNC :: int where "O_TRUNC \<equiv> 0x400"

definition open_inode :: "u8 list \<Rightarrow> int \<Rightarrow> (nat option, 'z fs_st_scheme) kernel" where
  "open_inode path omode =
     (if omode AND O_CREATE \<noteq> 0 then create path T_FILE 0 0
      else
        bindk (namei path) (\<lambda>ipo. case ipo of None \<Rightarrow> returnk None | Some ip \<Rightarrow>
        bindk (ilock (Some ip)) (\<lambda>_.
        bindk (geti ip i_type) (\<lambda>t.
        if t = T_DIR \<and> omode \<noteq> O_RDONLY then
          bindk (iunlockput ip) (\<lambda>_.
          returnk None)
        else returnk (Some ip)))))"

definition open_fail :: "nat \<Rightarrow> (u64, 'z fs_st_scheme) kernel" where
  "open_fail ip =
     bindk (iunlockput ip) (\<lambda>_.
     fail_op)"

definition open_file :: "nat \<Rightarrow> nat \<Rightarrow> int \<Rightarrow> int \<Rightarrow> (u64, 'z file_st_scheme) kernel" where
  "open_file ip f fd omode =
     bindk (geti ip (\<lambda>i. i)) (\<lambda>i.
     bindk (setf f (\<lambda>x. if i_type i = T_DEVICE then x\<lparr>f_type := FD_DEVICE, f_major := i_major i\<rparr>
                        else x\<lparr>f_type := FD_INODE, f_off := 0\<rparr>)) (\<lambda>_.
     bindk (setf f (\<lambda>x. x\<lparr>f_ip := ip, f_readable := (omode AND O_WRONLY = 0),
       f_writable := (omode AND O_WRONLY \<noteq> 0 \<or> omode AND O_RDWR \<noteq> 0)\<rparr>)) (\<lambda>_.
     bindk (whenk (omode AND O_TRUNC \<noteq> 0 \<and> i_type i = T_FILE) (itrunc ip)) (\<lambda>_.
     bindk (iunlock (Some ip)) (\<lambda>_.
     bindk end_op (\<lambda>_.
     returnk (of_int fd)))))))"

definition sys_open :: "(u64, 'z file_st_scheme) kernel" where
  "sys_open =
     bindk (argint 1) (\<lambda>omode.
     bindk (argstr 0 MAXPATH) (\<lambda>(n, path). if n < 0 then returnk (-1) else
     bindk begin_op (\<lambda>_.
     bindk (open_inode path omode) (\<lambda>ipo. case ipo of None \<Rightarrow> fail_op | Some ip \<Rightarrow>
     bindk (geti ip (\<lambda>i. i)) (\<lambda>i.
     if i_type i = T_DEVICE \<and> (sint (i_major i) < 0 \<or> sint (i_major i) \<ge> int NDEV) then open_fail ip else
     bindk filealloc (\<lambda>fo. case fo of None \<Rightarrow> open_fail ip | Some f \<Rightarrow>
     bindk (fdalloc f) (\<lambda>fd.
     if fd < 0 then
       bindk (fileclose f) (\<lambda>_.
       open_fail ip)
     else open_file ip f fd omode)))))))"

definition sys_mkdir :: "(u64, 'z fs_st_scheme) kernel" where
  "sys_mkdir =
     bindk begin_op (\<lambda>_.
     bindk (argstr 0 MAXPATH) (\<lambda>(r, path). if r < 0 then fail_op else
     bindk (create path T_DIR 0 0) (\<lambda>ipo. case ipo of None \<Rightarrow> fail_op | Some ip \<Rightarrow>
     bindk (iunlockput ip) (\<lambda>_.
     bindk end_op (\<lambda>_.
     returnk 0)))))"

definition sys_mknod :: "(u64, 'z fs_st_scheme) kernel" where
  "sys_mknod =
     bindk begin_op (\<lambda>_.
     bindk (argint 1) (\<lambda>major.
     bindk (argint 2) (\<lambda>minor.
     bindk (argstr 0 MAXPATH) (\<lambda>(r, path). if r < 0 then fail_op else
     bindk (create path T_DEVICE (of_int major) (of_int minor)) (\<lambda>ipo. case ipo of None \<Rightarrow> fail_op | Some ip \<Rightarrow>
     bindk (iunlockput ip) (\<lambda>_.
     bindk end_op (\<lambda>_.
     returnk 0)))))))"

definition sys_chdir :: "(u64, 'z fs_st_scheme) kernel" where
  "sys_chdir =
     bindk myproc (\<lambda>me. derefk me (\<lambda>p.
     bindk begin_op (\<lambda>_.
     bindk (argstr 0 MAXPATH) (\<lambda>(r, path). if r < 0 then fail_op else
     bindk (namei path) (\<lambda>ipo. case ipo of None \<Rightarrow> fail_op | Some ip \<Rightarrow>
     bindk (ilock (Some ip)) (\<lambda>_.
     bindk (geti ip i_type) (\<lambda>t.
     if t \<noteq> T_DIR then
       bindk (iunlockput ip) (\<lambda>_.
       fail_op)
     else
     bindk (iunlock (Some ip)) (\<lambda>_.
     bindk (getp p p_cwd) (\<lambda>cwd. derefk cwd (\<lambda>c.
     bindk (iput c) (\<lambda>_.
     bindk end_op (\<lambda>_.
     bindk (setp p (p_cwd_update (\<lambda>_. Some ip))) (\<lambda>_.
     returnk 0)))))))))))))"

section \<open>exec and pipe\<close>

definition sys_exec_free :: "u64 list \<Rightarrow> (unit, 'z kmem_st_scheme) kernel" where
  "sys_exec_free argv = foreachk argv kfree"

text \<open>The loop over the user's \<open>argv\<close>: the pages allocated so far, and whether the loop succeeded.\<close>

definition sys_exec_body :: "u64 \<Rightarrow> nat \<times> u64 list \<Rightarrow> (nat \<times> u64 list + bool \<times> u64 list, 'z proc_st_scheme) kernel" where
  "sys_exec_body uargv = (\<lambda>(i, argv).
     if i \<ge> MAXARG then returnk (Inr (False, argv)) else
     bindk (fetchaddr (uargv + 8 * of_nat i)) (\<lambda>(r, uarg).
     if r < 0 then returnk (Inr (False, argv)) else
     if uarg = 0 then returnk (Inr (True, argv)) else
     bindk kalloc (\<lambda>a.
     if a = 0 then returnk (Inr (False, argv)) else
     bindk (fetchstr uarg a 4096) (\<lambda>r.
     if r < 0 then returnk (Inr (False, argv @ [a])) else
     returnk (Inl (i + 1, argv @ [a]))))))"

definition sys_exec :: "(u64, 'z fs_st_scheme) kernel" where
  "sys_exec =
     bindk (argaddr 1) (\<lambda>uargv.
     bindk (argstr 0 MAXPATH) (\<lambda>(r, path). if r < 0 then returnk (-1) else
     bindk (loopk (sys_exec_body uargv) (0, [])) (\<lambda>(ok, argv).
     if \<not> ok then
       bindk (sys_exec_free argv) (\<lambda>_.
       returnk (-1))
     else
     bindk (exec path argv) (\<lambda>ret.
     bindk (sys_exec_free argv) (\<lambda>_.
     returnk (of_int ret))))))"

definition sys_pipe_undo :: "nat \<Rightarrow> nat list \<Rightarrow> nat \<Rightarrow> nat \<Rightarrow> (u64, 'z file_st_scheme) kernel" where
  "sys_pipe_undo p fds rfile wfile =
     bindk (foreachk fds (\<lambda>fd. set_ofile p fd None)) (\<lambda>_.
     bindk (fileclose rfile) (\<lambda>_.
     bindk (fileclose wfile) (\<lambda>_.
     returnk (-1))))"

definition sys_pipe :: "(u64, 'z file_st_scheme) kernel" where
  "sys_pipe =
     bindk myproc (\<lambda>me. derefk me (\<lambda>p.
     bindk (argaddr 0) (\<lambda>fdarray.
     bindk pipealloc (\<lambda>r. case r of None \<Rightarrow> returnk (-1) | Some (rfile, wfile) \<Rightarrow>
     bindk (fdalloc rfile) (\<lambda>fd0.
     if fd0 < 0 then sys_pipe_undo p [] rfile wfile else
     bindk (fdalloc wfile) (\<lambda>fd1.
     if fd1 < 0 then sys_pipe_undo p [nat fd0] rfile wfile else
     bindk (getp p p_pagetable) (\<lambda>pt.
     bindk (copyout_obj pt fdarray (int_bytes fd0)) (\<lambda>r0.
     bindk (if r0 < 0 then returnk r0 else copyout_obj pt (fdarray + 4) (int_bytes fd1)) (\<lambda>r1.
     if r1 < 0 then sys_pipe_undo p [nat fd0, nat fd1] rfile wfile else returnk 0)))))))))"

end
