(* ===== verification/Trap.thy ===== *)
theory Trap
  imports Csr Sysfile
begin

text \<open>
  kernel/sysproc.c, the dispatch of kernel/syscall.c, kernel/trap.c and kernel/main.c. A return to
  user space is the value of \<open>satp\<close> handed to \<open>userret\<close>.
\<close>

section \<open>State\<close>

record trap_st = csr_st +
  kernelvec_pa :: u64
  usertrap_pa :: u64
  uservec_off :: u64
  userret_off :: u64
  fs_first :: bool
  started :: bool

section \<open>kernel/sysproc.c\<close>

definition sys_exit :: "(u64, 'z file_st_scheme) kernel" where
  "sys_exit = bindk (argint 0) (\<lambda>n. exit n)"

definition sys_getpid :: "(u64, 'z proc_st_scheme) kernel" where
  "sys_getpid = bindk mypid (\<lambda>pid. returnk (of_int pid))"

definition sys_fork :: "(u64, 'z file_st_scheme) kernel" where
  "sys_fork = bindk fork (\<lambda>r. returnk (of_int r))"

definition sys_wait :: "(u64, 'z proc_st_scheme) kernel" where
  "sys_wait =
     bindk (argaddr 0) (\<lambda>p.
     bindk (wait p) (\<lambda>r.
     returnk (of_int r)))"

definition sys_sbrk :: "(u64, 'z proc_st_scheme) kernel" where
  "sys_sbrk =
     bindk (argint 0) (\<lambda>n.
     bindk myproc (\<lambda>me. derefk me (\<lambda>p.
     bindk (getp p p_sz) (\<lambda>addr.
     bindk (growproc n) (\<lambda>r.
     if r < 0 then returnk (-1) else returnk addr)))))"

definition sys_sleep_loop :: "u32 \<Rightarrow> u32 \<Rightarrow> (u64, 'z proc_st_scheme) kernel" where
  "sys_sleep_loop n ticks0 =
     bindk (getk ticks) (\<lambda>t.
     if t - ticks0 < n then
       bindk myproc (\<lambda>me. derefk me (\<lambda>p.
       bindk (killed p) (\<lambda>k.
       if k \<noteq> 0 then
         bindk (release TicksLock) (\<lambda>_.
         returnk (-1))
       else sleep ChTicks TicksLock)))
     else
       bindk (release TicksLock) (\<lambda>_.
       returnk 0))"

definition sys_sleep :: "(u64, 'z proc_st_scheme) kernel" where
  "sys_sleep =
     bindk (argint 0) (\<lambda>n.
     let n = (if n < 0 then 0 else n) in
     bindk (acquire TicksLock) (\<lambda>_.
     bindk (getk ticks) (\<lambda>ticks0.
     sys_sleep_loop (of_int n) ticks0)))"

definition sys_kill :: "(u64, 'z proc_st_scheme) kernel" where
  "sys_kill =
     bindk (argint 0) (\<lambda>pid.
     bindk (kill pid) (\<lambda>r.
     returnk (of_int r)))"

definition sys_uptime :: "(u64, 'z proc_st_scheme) kernel" where
  "sys_uptime =
     bindk (acquire TicksLock) (\<lambda>_.
     bindk (getk ticks) (\<lambda>xticks.
     bindk (release TicksLock) (\<lambda>_.
     returnk (ucast xticks))))"

definition sys_trace :: "(u64, 'z proc_st_scheme) kernel" where
  "sys_trace =
     bindk (argint 0) (\<lambda>mask.
     bindk myproc (\<lambda>me. derefk me (\<lambda>p.
     bindk (setp p (p_tracemask_update (\<lambda>_. of_int mask))) (\<lambda>_.
     returnk 0))))"

text \<open>\<open>sizeof(struct sysinfo)\<close> is 16: four bytes of padding follow \<open>nproc\<close>.\<close>

definition sysinfo_bytes :: "u64 \<Rightarrow> nat \<Rightarrow> u8 list" where
  "sysinfo_bytes freemem nproc = le_bytes 8 freemem @ int_bytes (int nproc) @ replicate 4 0"

definition sys_info :: "(u64, 'z proc_st_scheme) kernel" where
  "sys_info =
     bindk (argaddr 0) (\<lambda>uaddr.
     bindk kfmemory (\<lambda>fmemory.
     bindk (getk cprocnum) (\<lambda>n.
     bindk myproc (\<lambda>me. derefk me (\<lambda>p.
     bindk (getp p p_pagetable) (\<lambda>pt.
     bindk (copyout_obj pt uaddr (sysinfo_bytes fmemory n)) (\<lambda>r.
     if r < 0 then returnk (-1) else returnk 0)))))))"

section \<open>System call dispatch\<close>

definition syscall_table :: "nat \<Rightarrow> (u64, 'z file_st_scheme) kernel option" where
  "syscall_table num =
     (if num = 1 then Some sys_fork else if num = 2 then Some sys_exit else if num = 3 then Some sys_wait
      else if num = 4 then Some sys_pipe else if num = 5 then Some sys_read else if num = 6 then Some sys_kill
      else if num = 7 then Some sys_exec else if num = 8 then Some sys_fstat else if num = 9 then Some sys_chdir
      else if num = 10 then Some sys_dup else if num = 11 then Some sys_getpid else if num = 12 then Some sys_sbrk
      else if num = 13 then Some sys_sleep else if num = 14 then Some sys_uptime else if num = 15 then Some sys_open
      else if num = 16 then Some sys_write else if num = 17 then Some sys_mknod else if num = 18 then Some sys_unlink
      else if num = 19 then Some sys_link else if num = 20 then Some sys_mkdir else if num = 21 then Some sys_close
      else if num = 22 then Some sys_trace else if num = 23 then Some sys_info else None)"

definition syscall_names :: "string list" where
  "syscall_names = ['''', ''sys_fork'', ''sys_exit'', ''sys_wait'', ''sys_pipe'', ''sys_read'', ''sys_kill'',
     ''sys_exec'', ''sys_fstat'', ''sys_chdir'', ''sys_dup'', ''sys_getpid'', ''sys_sbrk'', ''sys_sleep'',
     ''sys_uptime'', ''sys_open'', ''sys_write'', ''sys_mknod'', ''sys_unlink'', ''sys_link'', ''sys_mkdir'',
     ''sys_close'', ''sys_trace'', ''sys_info'']"

definition syscall :: "(unit, 'z file_st_scheme) kernel" where
  "syscall =
     bindk myproc (\<lambda>me. derefk me (\<lambda>p.
     bindk (tf_read p tf_a7) (\<lambda>a7.
     let num = sint (ucast a7 :: u32) in
     case (if num > 0 \<and> num < 24 then syscall_table (nat num) else None) of
       Some f \<Rightarrow>
         bindk f (\<lambda>v.
         bindk (tf_write p tf_a0 v) (\<lambda>_.
         bindk (getp p (\<lambda>q. q)) (\<lambda>q.
         whenk (p_tracemask q AND push_bit (nat num) 1 \<noteq> 0) (
           bindk (tf_read p tf_a0) (\<lambda>a0.
           printf (Some (bytes ''%d: syscall %s -> %d'' @ [10]))
             [ArgInt (of_int (p_pid q)), ArgStr (Some (bytes (syscall_names ! nat num))), ArgInt (ucast a0)]))))
         )
     | None \<Rightarrow>
         bindk (getp p (\<lambda>q. q)) (\<lambda>q.
         bindk (printf (Some (bytes ''%d %s: unknown sys call %d'' @ [10]))
           [ArgInt (of_int (p_pid q)), ArgStr (Some (p_name q)), ArgInt (of_int num)]) (\<lambda>_.
         tf_write p tf_a0 (-1))))))"

section \<open>kernel/trap.c\<close>

definition trapinit :: "(unit, 'z trap_st_scheme) kernel" where
  "trapinit = modifyk (initlock TicksLock ''time'')"

definition trapinithart :: "(unit, 'z trap_st_scheme) kernel" where
  "trapinithart = bindk (getk kernelvec_pa) w_stvec"

definition clockintr :: "(unit, 'z proc_st_scheme) kernel" where
  "clockintr =
     bindk (acquire TicksLock) (\<lambda>_.
     bindk (modifyk (\<lambda>s. s\<lparr>ticks := ticks s + 1\<rparr>)) (\<lambda>_.
     bindk (wakeup (Some ChTicks)) (\<lambda>_.
     release TicksLock)))"

definition devintr :: "(int, 'z csr_st_scheme) kernel" where
  "devintr =
     bindk r_scause (\<lambda>scause.
     if scause AND 0x8000000000000000 \<noteq> 0 \<and> scause AND 0xff = 9 then
       bindk plic_claim (\<lambda>irq.
       bindk (if irq = int UART0_IRQ then uartintr
              else if irq = int VIRTIO0_IRQ then virtio_disk_intr
              else whenk (irq \<noteq> 0) (printf (Some (bytes ''unexpected interrupt irq=%d'' @ [10])) [ArgInt (of_int irq)])) (\<lambda>_.
       bindk (whenk (irq \<noteq> 0) (plic_complete irq)) (\<lambda>_.
       returnk 1)))
     else if scause = 0x8000000000000001 then
       bindk (getk cpuid) (\<lambda>id.
       bindk (whenk (id = 0) clockintr) (\<lambda>_.
       bindk r_sip (\<lambda>x.
       bindk (w_sip (x AND NOT 2)) (\<lambda>_.
       returnk 2))))
     else returnk 0)"

definition usertrapret :: "(u64, 'z trap_st_scheme) kernel" where
  "usertrapret =
     bindk myproc (\<lambda>me. derefk me (\<lambda>p.
     bindk (modifyk intr_off) (\<lambda>_.
     bindk (getk uservec_off) (\<lambda>uv.
     bindk (w_stvec (TRAMPOLINE + uv)) (\<lambda>_.
     bindk r_satp (\<lambda>ksatp.
     bindk (tf_write p tf_kernel_satp ksatp) (\<lambda>_.
     bindk (getp p p_kstack) (\<lambda>ks.
     bindk (tf_write p tf_kernel_sp (ks + PGSIZE)) (\<lambda>_.
     bindk (getk usertrap_pa) (\<lambda>ut.
     bindk (tf_write p tf_kernel_trap ut) (\<lambda>_.
     bindk r_tp (\<lambda>hart.
     bindk (tf_write p tf_kernel_hartid hart) (\<lambda>_.
     bindk r_sstatus (\<lambda>x.
     bindk (w_sstatus ((x AND NOT SSTATUS_SPP) OR SSTATUS_SPIE)) (\<lambda>_.
     bindk (tf_read p tf_epc) (\<lambda>epc.
     bindk (w_sepc epc) (\<lambda>_.
     bindk (getp p p_pagetable) (\<lambda>pt.
     returnk (MAKE_SATP pt)))))))))))))))))))"

text \<open>The end of \<open>usertrap\<close>; a process that yielded runs \<open>usertrapret\<close> when it resumes.\<close>

definition usertrap_end :: "nat \<Rightarrow> int \<Rightarrow> (u64, 'z trap_st_scheme) kernel" where
  "usertrap_end p which_dev =
     bindk (killed p) (\<lambda>k. if k \<noteq> 0 then exit (-1) else
     if which_dev = 2 then yield else usertrapret)"

definition usertrap :: "(u64, 'z trap_st_scheme) kernel" where
  "usertrap =
     bindk r_sstatus (\<lambda>st.
     if st AND SSTATUS_SPP \<noteq> 0 then panick ''usertrap: not from user mode'' else
     bindk (getk kernelvec_pa) (\<lambda>kv.
     bindk (w_stvec kv) (\<lambda>_.
     bindk myproc (\<lambda>me. derefk me (\<lambda>p.
     bindk r_sepc (\<lambda>sepc.
     bindk (tf_write p tf_epc sepc) (\<lambda>_.
     bindk r_scause (\<lambda>scause.
     if scause = 8 then
       bindk (killed p) (\<lambda>k. if k \<noteq> 0 then exit (-1) else
       bindk (tf_read p tf_epc) (\<lambda>epc.
       bindk (tf_write p tf_epc (epc + 4)) (\<lambda>_.
       bindk (modifyk intr_on) (\<lambda>_.
       bindk syscall (\<lambda>_.
       usertrap_end p 0)))))
     else
       bindk devintr (\<lambda>which_dev.
       if which_dev \<noteq> 0 then usertrap_end p which_dev else
       bindk (getp p p_pid) (\<lambda>pid.
       bindk (printf (Some (bytes ''usertrap(): unexpected scause %p pid=%d'' @ [10])) [ArgPtr scause, ArgInt (of_int pid)]) (\<lambda>_.
       bindk r_sepc (\<lambda>sepc.
       bindk r_stval (\<lambda>stval.
       bindk (printf (Some (bytes ''            sepc=%p stval=%p'' @ [10])) [ArgPtr sepc, ArgPtr stval]) (\<lambda>_.
       bindk (setkilled p) (\<lambda>_.
       usertrap_end p 0)))))))))))))))"

text \<open>\<open>kerneltrap\<close> up to a possible \<open>yield\<close>, and what it does behind it.\<close>

definition kerneltrap_end :: "u64 \<Rightarrow> u64 \<Rightarrow> (unit, 'z trap_st_scheme) kernel" where
  "kerneltrap_end sepc st =
     bindk (w_sepc sepc) (\<lambda>_.
     w_sstatus st)"

definition kerneltrap :: "(unit, 'z trap_st_scheme) kernel" where
  "kerneltrap =
     bindk r_sepc (\<lambda>sepc.
     bindk r_sstatus (\<lambda>st.
     bindk r_scause (\<lambda>scause.
     if st AND SSTATUS_SPP = 0 then panick ''kerneltrap: not from supervisor mode'' else
     bindk (getk intr_get) (\<lambda>on. if on then panick ''kerneltrap: interrupts enabled'' else
     bindk devintr (\<lambda>which_dev.
     if which_dev = 0 then
       bindk (printf (Some (bytes ''scause %p'' @ [10])) [ArgPtr scause]) (\<lambda>_.
       bindk r_sepc (\<lambda>pc.
       bindk r_stval (\<lambda>stval.
       bindk (printf (Some (bytes ''sepc=%p stval=%p'' @ [10])) [ArgPtr pc, ArgPtr stval]) (\<lambda>_.
       panick ''kerneltrap''))))
     else
     bindk (if which_dev = 2 then myproc else returnk None) (\<lambda>me.
     bindk (case me of None \<Rightarrow> returnk False | Some p \<Rightarrow> getp p (\<lambda>q. p_state q = RUNNING)) (\<lambda>running.
     if running then yield else kerneltrap_end sepc st)))))))"

definition forkret :: "(u64, 'z trap_st_scheme) kernel" where
  "forkret =
     bindk myproc (\<lambda>me. derefk me (\<lambda>p.
     bindk (release (ProcLock p)) (\<lambda>_.
     bindk (getk fs_first) (\<lambda>first.
     bindk (whenk first (
       bindk (fsinit ROOTDEV) (\<lambda>_.
       modifyk (\<lambda>s. s\<lparr>fs_first := False\<rparr>)))) (\<lambda>_.
     usertrapret)))))"

section \<open>kernel/main.c\<close>

definition wait_started :: "unit \<Rightarrow> (unit + unit, 'z trap_st_scheme) kernel" where
  "wait_started _ = bindk (getk started) (\<lambda>st. returnk (if st then Inr () else Inl ()))"

definition main :: "u64 \<Rightarrow> (nat \<Rightarrow> (unit, 'z trap_st_scheme) kernel) \<Rightarrow> (unit, 'z trap_st_scheme) kernel" where
  "main etext run =
     bindk (getk cpuid) (\<lambda>id.
     bindk (if id = 0 then
         bindk consoleinit (\<lambda>_.
         bindk printfinit (\<lambda>_.
         bindk (printf (Some [10]) []) (\<lambda>_.
         bindk (printf (Some (bytes ''xv6 kernel is booting'' @ [10])) []) (\<lambda>_.
         bindk (printf (Some [10]) []) (\<lambda>_.
         bindk kinit (\<lambda>_.
         bindk (getk trampoline_pa) (\<lambda>tr.
         bindk (kvminit etext tr) (\<lambda>_.
         bindk kvminithart (\<lambda>_.
         bindk procinit (\<lambda>_.
         bindk trapinit (\<lambda>_.
         bindk trapinithart (\<lambda>_.
         bindk plicinit (\<lambda>_.
         bindk plicinithart (\<lambda>_.
         bindk binit (\<lambda>_.
         bindk iinit (\<lambda>_.
         bindk fileinit (\<lambda>_.
         bindk virtio_disk_init (\<lambda>_.
         bindk userinit (\<lambda>_.
         modifyk (\<lambda>s. s\<lparr>started := True\<rparr>))))))))))))))))))))
       else
         bindk (loopk wait_started ()) (\<lambda>_.
         bindk (printf (Some (bytes ''hart %d starting'' @ [10])) [ArgInt (of_nat id)]) (\<lambda>_.
         bindk kvminithart (\<lambda>_.
         bindk trapinithart (\<lambda>_.
         plicinithart))))) (\<lambda>_.
     scheduler run))"

end
