(* ===== verification/Procsync.thy ===== *)
theory Procsync
  imports Proc
begin

text \<open>
  Facts on the process-table operations of kernel/proc.c that need no memory allocation: the
  current process, wakeup, kill, the pid counter and the scheduler's round over the table; and
  the interleaving of a sleeping and a waking thread.
\<close>

section \<open>Critical sections on the process table\<close>

lemma machine_updates_idem:
  "s\<lparr>sstatus := sstatus s, cpus := c, locks := locks s\<rparr> = s\<lparr>cpus := c\<rparr>"
  by (simp add: machine.equality)

lemma entered_leave:
  "(entered l s)\<lparr>sstatus := sstatus s, cpus := c, locks := locks s\<rparr> = s\<lparr>cpus := c\<rparr>"
  by (simp add: entered_def machine.equality)

lemma leave_entered:
  assumes "lock_free l s" "intr_ok s"
  shows "release l (entered l s) = Ok () (touch s)"
  using release_entered[OF assms, of "entered l s"] by (simp add: entered_leave)

lemma procs_entered [simp]: "procs (entered l s) = procs s"
  by (simp add: entered_def)

lemma leave_procs:
  assumes "lock_free l s" "intr_ok s"
  shows "release l ((entered l s)\<lparr>procs := ps\<rparr>) = Ok () ((touch s)\<lparr>procs := ps\<rparr>)"
proof -
  have "release l ((entered l s)\<lparr>procs := ps\<rparr>) =
    Ok () ((entered l s)\<lparr>procs := ps, sstatus := sstatus s, cpus := cs_cpus s, locks := locks s\<rparr>)"
    using release_entered[OF assms, of "(entered l s)\<lparr>procs := ps\<rparr>"] by simp
  then show ?thesis by (simp add: entered_def)
qed

lemma myproc_eq:
  assumes "intr_ok s"
  shows "myproc s = Ok (cpu_proc (mycpu s)) (touch s)"
proof (cases "noff (cpus s (tp s)) = 0")
  case True
  have cpu0: "c\<lparr>intena := e, noff := 0\<rparr> = c\<lparr>intena := e\<rparr>" if "noff c = 0" for c :: cpu and e
    using that by (simp add: cpu.equality)
  show ?thesis
    using True sie_restore[of "sstatus s"]
    by (cases "sstatus s AND 2 = 0")
      (simp_all add: myproc_def push_off_def pop_off_def cs_cpus_def cpu_defs kop_simps whenk_def
        bindk_def cpu0 machine.equality)
next
  case False
  then have "0 < noff (cpus s (tp s))" "sstatus s AND 2 = 0"
    using assms by (auto simp: intr_ok_def cpu_defs)
  then show ?thesis
    using sie_restore[of "sstatus s"]
    by (simp add: myproc_def push_off_def pop_off_def cs_cpus_def cpu_defs kop_simps whenk_def
        bindk_def machine.equality)
qed

lemma killed_eq:
  assumes "lock_free (ProcLock p) s" "intr_ok s"
  shows "killed p s = Ok (p_killed (procs s ! p)) (touch s)"
  by (simp add: killed_def getp_def kop_simps acquire_free[OF assms(1)] leave_entered[OF assms])

lemma lock_free_touch [simp]: "lock_free l (touch s) \<longleftrightarrow> lock_free l s"
  by (simp add: lock_free_def)

lemma lock_free_procs [simp]: "lock_free l (s\<lparr>procs := ps\<rparr>) \<longleftrightarrow> lock_free l s"
  by (simp add: lock_free_def)

lemma intr_ok_procs [simp]: "intr_ok (s\<lparr>procs := ps\<rparr>) \<longleftrightarrow> intr_ok s"
  by (simp add: intr_ok_def cpu_defs)

lemma cs_cpus_procs [simp]: "cs_cpus (s\<lparr>procs := ps\<rparr>) = cs_cpus s"
  by (simp add: cs_cpus_def cpu_defs)

lemma mycpu_procs [simp]: "mycpu (s\<lparr>procs := ps\<rparr>) = mycpu s"
  by (simp add: mycpu_def cpuid_def)

lemma cpu_proc_touch [simp]: "cpu_proc (mycpu (touch s)) = cpu_proc (mycpu s)"
  by (simp add: mycpu_def cpuid_def)

lemma touch_touch: "intr_ok s \<Longrightarrow> touch (touch s) = touch s"
  by (simp add: cs_cpus_idem)

section \<open>Wakeup\<close>

text \<open>What \<open>wakeup(chan)\<close> promises: it changes the state of the processes that sleep on the channel.\<close>

definition wake :: "wchan option \<Rightarrow> proc \<Rightarrow> proc" where
  "wake chan q = (if p_state q = SLEEPING \<and> p_chan q = chan then q\<lparr>p_state := RUNNABLE\<rparr> else q)"

definition woken :: "wchan option \<Rightarrow> nat option \<Rightarrow> nat \<Rightarrow> proc list \<Rightarrow> proc list" where
  "woken chan me n ps = map (\<lambda>p. if p < n \<and> me \<noteq> Some p then wake chan (ps ! p) else ps ! p) [0..<length ps]"

lemma length_woken [simp]: "length (woken chan me n ps) = length ps"
  by (simp add: woken_def)

lemma woken_0 [simp]: "woken chan me 0 ps = ps"
  by (simp add: woken_def map_nth)

lemma nth_woken:
  "p < length ps \<Longrightarrow> woken chan me n ps ! p = (if p < n \<and> me \<noteq> Some p then wake chan (ps ! p) else ps ! p)"
  by (simp add: woken_def)

lemma woken_Suc:
  assumes "n < length ps"
  shows "woken chan me (Suc n) ps =
    (if me = Some n then woken chan me n ps else (woken chan me n ps)[n := wake chan (ps ! n)])"
  using assms by (auto simp: list_eq_iff_nth_eq nth_woken nth_list_update less_Suc_eq)

definition others_free :: "'z machine_scheme \<Rightarrow> bool" where
  "others_free s \<longleftrightarrow> (\<forall>p. cpu_proc (mycpu s) \<noteq> Some p \<longrightarrow> lock_free (ProcLock p) s)"

lemma others_free_frame [simp]:
  "others_free (touch s) \<longleftrightarrow> others_free s"
  "others_free (s\<lparr>procs := ps\<rparr>) \<longleftrightarrow> others_free s" for s :: "'z proc_st_scheme"
  by (simp_all add: others_free_def)

lemma wakeup_one_eq:
  assumes "intr_ok s" "others_free s"
  shows "wakeup_one chan p s = Ok () ((touch s)\<lparr>procs :=
    (if cpu_proc (mycpu s) = Some p then procs s else (procs s)[p := wake chan (procs s ! p)])\<rparr>)"
proof (cases "cpu_proc (mycpu s) = Some p")
  case True
  then show ?thesis by (simp add: wakeup_one_def kop_simps myproc_eq[OF assms(1)])
next
  case False
  then have l: "lock_free (ProcLock p) (touch s)" and i: "intr_ok (touch s)"
    using assms by (simp_all add: others_free_def intr_ok_touch)
  let ?e = "entered (ProcLock p) (touch s)"
  note step = acquire_free[OF l]
  show ?thesis
  proof (cases "p_state (procs s ! p) = SLEEPING \<and> p_chan (procs s ! p) = chan")
    case True
    have "release (ProcLock p) (upd_proc p (p_state_update (\<lambda>_. RUNNABLE)) ?e) =
      Ok () ((touch (touch s))\<lparr>procs := (procs s)[p := (procs s ! p)\<lparr>p_state := RUNNABLE\<rparr>]\<rparr>)"
      using leave_procs[OF l i] by (simp add: upd_proc_def)
    with True False show ?thesis
      by (simp add: wakeup_one_def kop_simps myproc_eq[OF assms(1)] step getp_def
          setp_def wake_def touch_touch[OF assms(1)])
  next
    case nope: False
    have "release (ProcLock p) ?e = Ok () (touch (touch s))"
      by (rule leave_entered[OF l i])
    with nope False show ?thesis
      by (auto simp add: wakeup_one_def kop_simps myproc_eq[OF assms(1)] step getp_def
          setp_def wake_def touch_touch[OF assms(1)])
  qed
qed

lemma wakeup_prefix:
  assumes "intr_ok s" "others_free s" "n \<le> length (procs s)"
  shows "foreachk [0..<n] (wakeup_one chan) s =
    Ok () (if n = 0 then s else (touch s)\<lparr>procs := woken chan (cpu_proc (mycpu s)) n (procs s)\<rparr>)"
  using assms(3)
proof (induction n)
  case 0
  then show ?case by (simp add: kop_simps)
next
  case (Suc n)
  let ?t = "if n = 0 then s else (touch s)\<lparr>procs := woken chan (cpu_proc (mycpu s)) n (procs s)\<rparr>"
  have t: "intr_ok ?t" "others_free ?t" "cpu_proc (mycpu ?t) = cpu_proc (mycpu s)" "cs_cpus ?t = cs_cpus s"
    "procs ?t = woken chan (cpu_proc (mycpu s)) n (procs s)"
    using assms(1,2) by (auto simp: intr_ok_touch cs_cpus_idem)
  have same: "?t\<lparr>cpus := c, procs := ps\<rparr> = s\<lparr>cpus := c, procs := ps\<rparr>" for c ps by simp
  have nth: "woken chan (cpu_proc (mycpu s)) n (procs s) ! n = procs s ! n"
    using Suc.prems by (simp add: nth_woken)
  have "foreachk [0..<n] (wakeup_one chan) s = Ok () ?t" using Suc by simp
  then show ?case
    using Suc.prems wakeup_one_eq[OF t(1,2), of chan n]
    unfolding t(3-5) same nth
    by (simp add: foreachk_append kop_simps woken_Suc split del: if_split)
qed

lemma wakeup_eq:
  assumes "intr_ok s" "others_free s" "length (procs s) = NPROC"
  shows "wakeup chan s = Ok () ((touch s)\<lparr>procs := woken chan (cpu_proc (mycpu s)) NPROC (procs s)\<rparr>)"
  using wakeup_prefix[OF assms(1,2), of NPROC chan] assms(3) by (simp add: wakeup_def)

section \<open>Kill\<close>

definition all_free :: "'z machine_scheme \<Rightarrow> bool" where
  "all_free s \<longleftrightarrow> (\<forall>p. lock_free (ProcLock p) s)"

lemma all_free_frame [simp]:
  "all_free (touch s) \<longleftrightarrow> all_free s"
  "all_free (s\<lparr>procs := ps\<rparr>) \<longleftrightarrow> all_free s" for s :: "'z proc_st_scheme"
  by (simp_all add: all_free_def)

lemma all_free_others: "all_free s \<Longrightarrow> others_free s"
  by (simp add: all_free_def others_free_def)

text \<open>The mark \<open>kill\<close> leaves on its victim.\<close>

definition victim :: "proc \<Rightarrow> proc" where
  "victim q = q\<lparr>p_killed := 1, p_state := (if p_state q = SLEEPING then RUNNABLE else p_state q)\<rparr>"

lemma kill_scan_match:
  assumes "intr_ok s" "all_free s" "p < NPROC" "p < length (procs s)" "p_pid (procs s ! p) = pid"
  shows "kill_scan pid p s = Ok (Inr 0) ((touch s)\<lparr>procs := (procs s)[p := victim (procs s ! p)]\<rparr>)"
proof -
  have l: "lock_free (ProcLock p) s" using assms(2) by (simp add: all_free_def)
  note leave = leave_procs[OF l assms(1)]
  have "(procs s ! p)\<lparr>p_killed := 1\<rparr> = (procs s ! p)\<lparr>p_killed := 1, p_state := p_state (procs s ! p)\<rparr>"
    by simp
  then show ?thesis
    using assms(3-5) leave
    by (auto simp: kill_scan_def kop_simps acquire_free[OF l] getp_def setp_def upd_proc_def victim_def)
qed

lemma kill_scan_next:
  assumes "intr_ok s" "all_free s" "p < NPROC" "p_pid (procs s ! p) \<noteq> pid"
  shows "kill_scan pid p s = Ok (Inl (p + 1)) (touch s)"
proof -
  have l: "lock_free (ProcLock p) s" using assms(2) by (simp add: all_free_def)
  show ?thesis
    using assms(3,4) leave_entered[OF l assms(1)]
    by (simp add: kill_scan_def kop_simps acquire_free[OF l] getp_def)
qed

lemma kill_scan_end: "kill_scan pid NPROC s = Ok (Inr (-1)) s"
  by (simp add: kill_scan_def kop_simps)

lemma kill_loop_hit:
  assumes "intr_ok s" "all_free s" "length (procs s) = NPROC"
    and "i < NPROC" "p_pid (procs s ! i) = pid" "\<And>j. j < i \<Longrightarrow> p_pid (procs s ! j) \<noteq> pid" "p \<le> i"
  shows "loopk (kill_scan pid) p s = Ok 0 ((touch s)\<lparr>procs := (procs s)[i := victim (procs s ! i)]\<rparr>)"
  using assms
proof (induction "i - p" arbitrary: p s)
  case 0
  then have "p = i" by simp
  with 0 kill_scan_match[of s i pid] show ?case by (simp add: loopk_steps(2))
next
  case (Suc k)
  then have "kill_scan pid p s = Ok (Inl (p + 1)) (touch s)"
    by (intro kill_scan_next) auto
  then have "loopk (kill_scan pid) p s = loopk (kill_scan pid) (p + 1) (touch s)" by (rule loopk_steps(1))
  also have "\<dots> = Ok 0 ((touch (touch s))\<lparr>procs := (procs s)[i := victim (procs s ! i)]\<rparr>)"
    using Suc.hyps(1)[of "p + 1" "touch s"] Suc.hyps(2) Suc.prems by (simp add: intr_ok_touch)
  finally show ?case by (simp add: cs_cpus_idem[OF Suc.prems(1)])
qed

lemma kill_loop_miss:
  assumes "intr_ok s" "all_free s" "\<And>j. j < NPROC \<Longrightarrow> p_pid (procs s ! j) \<noteq> pid" "p < NPROC"
  shows "loopk (kill_scan pid) p s = Ok (-1) (touch s)"
  using assms
proof (induction "NPROC - p" arbitrary: p s)
  case 0
  then show ?case by simp
next
  case (Suc k)
  then have n: "kill_scan pid p s = Ok (Inl (p + 1)) (touch s)" by (intro kill_scan_next) auto
  show ?case
  proof (cases "p + 1 = NPROC")
    case True
    with loopk_steps(1)[where body = "kill_scan pid", OF n]
      loopk_steps(2)[where body = "kill_scan pid", OF kill_scan_end] show ?thesis by simp
  next
    case False
    with Suc loopk_steps(1)[where body = "kill_scan pid", OF n] Suc.hyps(1)[of "p + 1" "touch s"] show ?thesis
      by (simp add: intr_ok_touch cs_cpus_idem)
  qed
qed

lemma kill_eq:
  assumes "intr_ok s" "all_free s" "length (procs s) = NPROC"
  shows "kill pid s = (case find_index (\<lambda>q. p_pid q = pid) (procs s) of
      None \<Rightarrow> Ok (-1) (touch s)
    | Some i \<Rightarrow> Ok 0 ((touch s)\<lparr>procs := (procs s)[i := victim (procs s ! i)]\<rparr>))"
proof (cases "find_index (\<lambda>q. p_pid q = pid) (procs s)")
  case None
  then have "p_pid (procs s ! j) \<noteq> pid" if "j < NPROC" for j
    using that assms(3) by (simp add: find_index_None)
  with None kill_loop_miss[OF assms(1,2), of pid 0] show ?thesis by (simp add: kill_def)
next
  case (Some i)
  then have "i < NPROC" "p_pid (procs s ! i) = pid" "\<And>j. j < i \<Longrightarrow> p_pid (procs s ! j) \<noteq> pid"
    using assms(3) by (simp_all add: find_index_Some)
  with Some kill_loop_hit[OF assms, of i pid 0] show ?thesis by (simp add: kill_def)
qed

lemma entered_touch: "entered l (touch s) = entered l s"
  by (simp add: entered_def cs_cpus_def cpu_defs)

section \<open>Inside a critical section\<close>

text \<open>A thread that took lock \<open>l\<close> in state \<open>s\<close>, has not released it and holds nothing more.\<close>

definition in_section :: "lockid \<Rightarrow> 'z machine_scheme \<Rightarrow> 'z machine_scheme \<Rightarrow> bool" where
  "in_section l s t \<longleftrightarrow> tp t = tp s \<and> sstatus t = sstatus (entered l s) \<and> cpus t = cpus (entered l s) \<and>
     locks t = locks (entered l s)"

lemma in_section_entered [simp]: "in_section l s (entered l s)"
  by (simp add: in_section_def)

lemma in_section_facts:
  assumes "in_section l s t" "intr_ok s"
  shows "intr_ok t" "cs_cpus t = cpus t" "k \<noteq> l \<Longrightarrow> lock_free k t \<longleftrightarrow> lock_free k s"
    "cpu_proc (mycpu t) = cpu_proc (mycpu s)" "noff (mycpu t) = noff (mycpu s) + 1" "\<not> intr_get t" "holding l t"
proof -
  have e: "intr_ok t \<longleftrightarrow> intr_ok (entered l s)" "cs_cpus t = cs_cpus (entered l s)"
    "lock_free k t \<longleftrightarrow> lock_free k (entered l s)" "mycpu t = mycpu (entered l s)" "intr_get t \<longleftrightarrow> intr_get (entered l s)"
    "holding l t \<longleftrightarrow> holding l (entered l s)" for k
    using assms(1) by (auto simp: in_section_def intr_ok_def cs_cpus_def lock_free_def holding_def cpu_defs)
  show "intr_ok t" using e(1) intr_ok_entered[OF assms(2)] by simp
  show "cs_cpus t = cpus t" using e(2) cs_cpus_entered[OF assms(2)] assms(1) by (simp add: in_section_def)
  show "lock_free k t \<longleftrightarrow> lock_free k s" if "k \<noteq> l" using e(3) lock_free_entered[OF that] by simp
  show "cpu_proc (mycpu t) = cpu_proc (mycpu s)" "noff (mycpu t) = noff (mycpu s) + 1" "\<not> intr_get t" "holding l t"
    unfolding e by (simp_all add: entered_def holding_def cpu_defs)
qed

lemma in_section_release:
  assumes "in_section l s t" "lock_free l s" "intr_ok s"
  shows "release l t = Ok () (t\<lparr>sstatus := sstatus s, cpus := cs_cpus s, locks := locks s\<rparr>)"
  using assms(1) by (intro release_entered[OF assms(2,3)]) (simp_all add: in_section_def)

lemma touch_held: "cs_cpus t = cpus t \<Longrightarrow> touch t = t"
  by simp

lemma in_section_myproc:
  assumes "in_section l s t" "intr_ok s"
  shows "myproc t = Ok (cpu_proc (mycpu s)) t"
  using myproc_eq[OF in_section_facts(1)[OF assms]] in_section_facts(2,4)[OF assms] by simp

lemma in_section_killed:
  assumes "in_section l s t" "intr_ok s" "lock_free (ProcLock p) s" "l \<noteq> ProcLock p"
  shows "killed p t = Ok (p_killed (procs t ! p)) t"
  using killed_eq[of p t] in_section_facts[OF assms(1,2)] assms(3,4) by simp

lemma in_section_wakeup:
  assumes "in_section l s t" "intr_ok s" "others_free s" "\<And>p. l \<noteq> ProcLock p" "length (procs t) = NPROC"
  shows "wakeup chan t = Ok () (t\<lparr>procs := woken chan (cpu_proc (mycpu s)) NPROC (procs t)\<rparr>)"
proof -
  note f = in_section_facts[OF assms(1,2)]
  have "others_free t" using assms(3) assms(4)[symmetric] f(3,4) by (simp add: others_free_def)
  with wakeup_eq[OF f(1) _ assms(5)] f(2,4) show ?thesis by simp
qed

text \<open>\<open>sleep(chan, lk)\<close> up to the context switch.\<close>

definition asleep :: "wchan \<Rightarrow> proc \<Rightarrow> proc" where
  "asleep chan q = q\<lparr>p_chan := Some chan, p_state := SLEEPING\<rparr>"

lemma in_section_sleep:
  fixes s t :: "'z proc_st_scheme"
  assumes "in_section l s t" "noff (mycpu s) = 0" "lock_free l s" "cpu_proc (mycpu s) = Some p"
    "lock_free (ProcLock p) s" "l \<noteq> ProcLock p" "p < length (procs t)"
  shows "\<exists>u. sleep chan l t = Sleeps (Some chan) u \<and>
    u = t\<lparr>procs := (procs t)[p := asleep chan (procs t ! p)], cpus := cpus u, locks := locks u, sstatus := sstatus u\<rparr> \<and>
    lock_free l u \<and> holding (ProcLock p) u \<and> noff (mycpu u) = 1 \<and> \<not> intr_get u \<and>
    (\<forall>k. k \<noteq> l \<and> k \<noteq> ProcLock p \<longrightarrow> locks u k = locks s k)"
proof -
  have i: "intr_ok s" using assms(2) by (simp add: intr_ok_def)
  note f = in_section_facts[OF assms(1) i]
  have lf: "lock_free (ProcLock p) t" using f(3)[of "ProcLock p"] assms(5,6) by simp
  let ?e = "entered (ProcLock p) t"
  have h: "holding l ?e" using f(7) assms(6) by (simp add: holding_def entered_def cpuid_def)
  have n: "noff (cpus t (tp t)) = 1" "sstatus t AND 2 = 0" using f(5,6) assms(2) by (simp_all add: cpu_defs)
  let ?v = "?e\<lparr>locks := (locks ?e)(l := (locks ?e l)\<lparr>lk_cpu := None, locked := 0\<rparr>),
    cpus := (cpus ?e)(tp t := (cpus ?e (tp t))\<lparr>noff := 1\<rparr>)\<rparr>"
  have rel: "release l ?e = Ok () ?v"
    using h n by (simp add: release_def pop_off_def kop_simps holding_def cpu_defs entered_def whenk_def)
  let ?u = "?v\<lparr>procs := (procs t)[p := asleep chan (procs t ! p)]\<rparr>"
  have "myproc ?u = Ok (Some p) (touch ?u)"
    using assms(4) f(4) by (subst myproc_eq) (simp_all add: intr_ok_def cpu_defs entered_def)
  moreover have "cs_cpus ?u = cpus ?u" by (simp add: cs_cpus_def cpu_defs)
  ultimately have my: "myproc ?u = Ok (Some p) ?u" by simp
  have "holding (ProcLock p) ?u" "noff (mycpu ?u) = 1" "\<not> intr_get ?u"
    using assms(6) by (auto simp: holding_def cpu_defs entered_def)
  moreover have "p_state (procs ?u ! p) \<noteq> RUNNING" "p_chan (procs ?u ! p) = Some chan"
    using assms(7) by (simp_all add: asleep_def)
  ultimately have "sched ?u = Sleeps (Some chan) ?u"
    by (simp add: sched_def kop_simps my derefk_def getp_def)
  then have "sleep chan l t = Sleeps (Some chan) ?u"
    using assms(7) by (simp add: sleep_def kop_simps in_section_myproc[OF assms(1) i] assms(4) derefk_def
        acquire_free[OF lf] rel setp_def upd_proc_def asleep_def)
  moreover have "lock_free l ?u" by (simp add: lock_free_def)
  moreover have "locks ?u k = locks s k" if "k \<noteq> l \<and> k \<noteq> ProcLock p" for k
    using that assms(1) by (simp add: in_section_def entered_def)
  ultimately show ?thesis
    using \<open>holding (ProcLock p) ?u\<close> \<open>noff (mycpu ?u) = 1\<close> \<open>\<not> intr_get ?u\<close>
    by (intro exI[of _ ?u]) (simp add: entered_def)
qed

section \<open>The scheduler\<close>

text \<open>
  The state in which a thread may call \<open>swtch\<close>: it holds its own \<open>p->lock\<close> and no other process
  lock, interrupts are off and the nesting depth is 1 (the checks of \<open>sched\<close>).
\<close>

definition at_switch :: "nat \<Rightarrow> 'z proc_st_scheme \<Rightarrow> bool" where
  "at_switch p s \<longleftrightarrow> holding (ProcLock p) s \<and> noff (mycpu s) = 1 \<and> \<not> intr_get s \<and>
     (\<forall>q. q \<noteq> p \<longrightarrow> lock_free (ProcLock q) s) \<and> length (procs s) = NPROC"

text \<open>The state in which the scheduler looks at the next slot.\<close>

definition sched_ready :: "'z proc_st_scheme \<Rightarrow> bool" where
  "sched_ready s \<longleftrightarrow> noff (mycpu s) = 0 \<and> all_free s \<and> length (procs s) = NPROC"

definition runnable :: "'z proc_st_scheme \<Rightarrow> nat \<Rightarrow> bool" where
  "runnable s p \<longleftrightarrow> p_state (procs s ! p) = RUNNABLE"

text \<open>
  To observe the switches, the code that \<open>swtch\<close> resumes is wrapped: before anything else it notes,
  in a list beside the kernel's state, which process was resumed and what it finds: its own
  state and the process its hart runs. Only a call of the resumed code adds to the list.
\<close>

record sched_log = proc_st +
  switches :: "(nat \<times> procstate \<times> nat option) list"

definition noting :: "(nat \<Rightarrow> (unit, 'z sched_log_scheme) kernel) \<Rightarrow> nat \<Rightarrow> (unit, 'z sched_log_scheme) kernel" where
  "noting run p =
     bindk (modifyk (\<lambda>s. s\<lparr>switches := switches s @ [(p, p_state (procs s ! p), cpu_proc (mycpu s))]\<rparr>)) (\<lambda>_. run p)"

text \<open>
  What the scheduler relies on when it switches to a process: the process comes back in a state
  fit for \<open>swtch\<close>, is no longer marked as running, and has left the runnable processes runnable.
\<close>

locale resumed_thread =
  fixes run :: "nat \<Rightarrow> (unit, 'z sched_log_scheme) kernel"
  assumes comes_back:
    "\<lbrakk>p < NPROC; at_switch p s; cpu_proc (mycpu s) = Some p; p_state (procs s ! p) = RUNNING\<rbrakk> \<Longrightarrow>
      \<exists>s'. run p s = Ok () s' \<and> at_switch p s' \<and> p_state (procs s' ! p) \<noteq> RUNNING \<and>
        (\<forall>q. q \<noteq> p \<longrightarrow> runnable s q \<longrightarrow> runnable s' q) \<and> switches s' = switches s"

lemma release_last:
  fixes s :: "'z sched_log_scheme"
  assumes "holding l s" "noff (mycpu s) = 1" "\<not> intr_get s"
  shows "\<exists>s'. release l s = Ok () s' \<and> noff (mycpu s') = 0 \<and> tp s' = tp s \<and> lock_free l s' \<and>
    (\<forall>k. k \<noteq> l \<longrightarrow> locks s' k = locks s k) \<and> procs s' = procs s \<and>
    cpu_proc (mycpu s') = cpu_proc (mycpu s) \<and> switches s' = switches s"
  using assms
  by (simp add: release_def pop_off_def holding_def lock_free_def cpu_defs kop_simps whenk_def bindk_def)

context resumed_thread
begin

lemma try_runs:
  assumes "sched_ready s" "p < NPROC" "runnable s p"
  shows "\<exists>s'. scheduler_try (noting run) p s = Ok () s' \<and> sched_ready s' \<and>
    switches s' = switches s @ [(p, RUNNING, Some p)] \<and> (\<forall>q. q \<noteq> p \<longrightarrow> runnable s q \<longrightarrow> runnable s' q)"
proof -
  have l: "lock_free (ProcLock p) s" using assms(1) by (simp add: sched_ready_def all_free_def)
  let ?t = "upd_mycpu (cpu_proc_update (\<lambda>_. Some p))
    (upd_proc p (p_state_update (\<lambda>_. RUNNING)) (entered (ProcLock p) s))"
  let ?u = "?t\<lparr>switches := switches s @ [(p, RUNNING, Some p)]\<rparr>"
  have t: "switches ?t = switches s" "p_state (procs ?t ! p) = RUNNING" "cpu_proc (mycpu ?t) = Some p"
    using assms(1,2) by (simp_all add: sched_ready_def entered_def upd_proc_def cpu_defs)
  have u: "at_switch p ?u" "cpu_proc (mycpu ?u) = Some p" "p_state (procs ?u ! p) = RUNNING"
    using assms(1,2)
    by (auto simp: at_switch_def sched_ready_def all_free_def holding_def entered_def upd_proc_def
        cpu_defs lock_free_def)
  from comes_back[OF assms(2) u] obtain v where v: "run p ?u = Ok () v" "at_switch p v"
    "\<And>q. q \<noteq> p \<Longrightarrow> runnable ?u q \<Longrightarrow> runnable v q" "switches v = switches ?u" by blast
  have n: "noting run p ?t = Ok () v" using v(1) t by (simp add: noting_def kop_simps)
  let ?w = "upd_mycpu (cpu_proc_update (\<lambda>_. None)) v"
  have w: "holding (ProcLock p) ?w" "noff (mycpu ?w) = 1" "\<not> intr_get ?w" "procs ?w = procs v"
    "locks ?w = locks v" "switches ?w = switches v"
    using v(2) by (auto simp: at_switch_def holding_def cpu_defs)
  from release_last[OF w(1-3)] obtain s' where s': "release (ProcLock p) ?w = Ok () s'"
    "noff (mycpu s') = 0" "lock_free (ProcLock p) s'"
    "\<And>k. k \<noteq> ProcLock p \<Longrightarrow> locks s' k = locks v k" "procs s' = procs v" "switches s' = switches v"
    using w(4-6) by auto
  have "scheduler_try (noting run) p s = Ok () s'"
    using assms(3) s'(1) n
    by (simp add: scheduler_try_def kop_simps acquire_free[OF l] getp_def setp_def runnable_def)
  moreover have "lock_free (ProcLock q) s'" for q
    using v(2) s'(3,4) by (cases "q = p") (auto simp: at_switch_def lock_free_def)
  then have "sched_ready s'"
    using v(2) s'(2,5) by (simp add: sched_ready_def at_switch_def all_free_def)
  moreover have "runnable s' q" if "q \<noteq> p" "runnable s q" for q
    using v(3)[OF that(1)] that s'(5) by (auto simp: runnable_def upd_proc_def entered_def upd_mycpu_def)
  moreover have "switches s' = switches s @ [(p, RUNNING, Some p)]" using s'(6) v(4) by simp
  ultimately show ?thesis by blast
qed

lemma try_skips:
  assumes "sched_ready s" "\<not> runnable s p"
  shows "scheduler_try (noting run) p s = Ok () (touch s)"
proof -
  have "lock_free (ProcLock p) s" "intr_ok s"
    using assms(1) by (auto simp: sched_ready_def all_free_def intr_ok_def)
  then show ?thesis
    using assms(2) by (simp add: scheduler_try_def kop_simps acquire_free getp_def runnable_def leave_entered)
qed

lemma try_ready:
  assumes "sched_ready s" "p < NPROC"
  shows "\<exists>s'. scheduler_try (noting run) p s = Ok () s' \<and> sched_ready s' \<and>
    switches s' = switches s @ (if runnable s p then [(p, RUNNING, Some p)] else []) \<and>
    (\<forall>q. q \<noteq> p \<longrightarrow> runnable s q \<longrightarrow> runnable s' q)"
proof (cases "runnable s p")
  case True
  with try_runs[OF assms] show ?thesis by auto
next
  case False
  have "sched_ready (touch s)" using assms(1) by (simp add: sched_ready_def mycpu_def cpuid_def)
  with try_skips[OF assms(1) False] False show ?thesis by (simp add: runnable_def)
qed

lemma round_runs_all:
  assumes "sched_ready s" "set ps \<subseteq> {..<NPROC}" "distinct ps"
  shows "\<exists>t rs. foreachk ps (scheduler_try (noting run)) s = Ok () t \<and> sched_ready t \<and>
    switches t = switches s @ map (\<lambda>p. (p, RUNNING, Some p)) rs \<and> distinct rs \<and> set rs \<subseteq> set ps \<and>
    (\<forall>q \<in> set ps. runnable s q \<longrightarrow> q \<in> set rs)"
  using assms
proof (induction ps arbitrary: s)
  case Nil
  then show ?case by (simp add: kop_simps)
next
  case (Cons p ps)
  from try_ready[of s p] Cons.prems obtain s' where s': "scheduler_try (noting run) p s = Ok () s'" "sched_ready s'"
    "switches s' = switches s @ (if runnable s p then [(p, RUNNING, Some p)] else [])"
    "\<And>q. q \<noteq> p \<Longrightarrow> runnable s q \<Longrightarrow> runnable s' q" by auto
  from Cons.IH[OF s'(2)] Cons.prems obtain t rs where t: "foreachk ps (scheduler_try (noting run)) s' = Ok () t"
    "sched_ready t" "switches t = switches s' @ map (\<lambda>p. (p, RUNNING, Some p)) rs" "distinct rs" "set rs \<subseteq> set ps"
    "\<forall>q \<in> set ps. runnable s' q \<longrightarrow> q \<in> set rs" by auto
  have p: "p \<notin> set rs" using Cons.prems(3) t(5) by auto
  let ?rs = "(if runnable s p then [p] else []) @ rs"
  have "switches t = switches s @ map (\<lambda>p. (p, RUNNING, Some p)) ?rs" "distinct ?rs" "set ?rs \<subseteq> set (p # ps)"
    using s'(3) t(3-5) p by auto
  moreover have "\<forall>q \<in> set (p # ps). runnable s q \<longrightarrow> q \<in> set ?rs"
    using s'(4) t(6) Cons.prems(3) by (metis Un_iff distinct.simps(2) list.set_intros(1) set_ConsD set_append)
  moreover have "foreachk (p # ps) (scheduler_try (noting run)) s = Ok () t" using s'(1) t(1) by (simp add: kop_simps)
  ultimately show ?case using t(2) by blast
qed

end

text \<open>
  A process that is interrupted by the timer whenever it runs: it returns from the \<open>swtch\<close> of its
  last \<open>yield\<close> and, as soon as it has interrupts on again, yields again. \<open>until_swtch\<close> gives the
  state at the next \<open>swtch\<close>.
\<close>

definition until_swtch :: "('a, 's) kernel \<Rightarrow> (unit, 's) kernel" where
  "until_swtch m s = (case m s of Sleeps _ s' \<Rightarrow> Ok () s' | Ok _ _ \<Rightarrow> Spins | Panic e \<Rightarrow> Panic e | Spins \<Rightarrow> Spins)"

definition run_yielding :: "nat \<Rightarrow> (unit, 'z proc_st_scheme) kernel" where
  "run_yielding p = until_swtch (bindk (yield_resume p True) (\<lambda>_. yield :: (unit, 'z proc_st_scheme) kernel))"

lemma sched_switches:
  assumes "at_switch p s" "cpu_proc (mycpu s) = Some p" "p_state (procs s ! p) \<noteq> RUNNING"
  shows "sched s = Sleeps (p_chan (procs s ! p)) s"
proof -
  have "intr_ok s" using assms(1) by (simp add: at_switch_def intr_ok_def)
  moreover have "cs_cpus s = cpus s"
    using assms(1) by (simp add: at_switch_def cs_cpus_def mycpu_def cpuid_def)
  ultimately have "myproc s = Ok (Some p) s" using myproc_eq[of s] assms(2) by simp
  then show ?thesis
    using assms(1,3) by (simp add: sched_def kop_simps derefk_def getp_def at_switch_def)
qed

lemma yield_switches:
  fixes s :: "'z sched_log_scheme"
  assumes "sched_ready s" "cpu_proc (mycpu s) = Some p" "p < NPROC"
  shows "\<exists>c s'. (yield :: (unit, 'z sched_log_scheme) kernel) s = Sleeps c s' \<and> at_switch p s' \<and>
    procs s' = (procs s)[p := (procs s ! p)\<lparr>p_state := RUNNABLE\<rparr>] \<and> switches s' = switches s"
proof -
  have i: "intr_ok s" using assms(1) by (simp add: sched_ready_def intr_ok_def)
  have l: "lock_free (ProcLock p) (touch s)" using assms(1) by (simp add: sched_ready_def all_free_def)
  let ?t = "upd_proc p (p_state_update (\<lambda>_. RUNNABLE)) (entered (ProcLock p) (touch s))"
  have t: "at_switch p ?t" "cpu_proc (mycpu ?t) = Some p" "p_state (procs ?t ! p) \<noteq> RUNNING"
    "procs ?t = (procs s)[p := (procs s ! p)\<lparr>p_state := RUNNABLE\<rparr>]" "switches ?t = switches s"
    using assms
    by (auto simp: at_switch_def sched_ready_def all_free_def holding_def entered_def upd_proc_def
        cpu_defs lock_free_def)
  have "(yield :: (unit, 'z sched_log_scheme) kernel) s = sched ?t"
    using assms(2) by (simp add: yield_def kop_simps myproc_eq[OF i] derefk_def acquire_free[OF l] setp_def)
  then have "(yield :: (unit, 'z sched_log_scheme) kernel) s = Sleeps (p_chan (procs ?t ! p)) ?t"
    using sched_switches[OF t(1-3)] by simp
  with t(1,4,5) show ?thesis by blast
qed

interpretation yielding: resumed_thread run_yielding
proof (unfold_locales, goal_cases)
  case (1 p s)
  let ?t = "upd_mycpu (intena_update (\<lambda>_. True)) s"
  have t: "holding (ProcLock p) ?t" "noff (mycpu ?t) = 1" "\<not> intr_get ?t"
    using 1(2) by (auto simp: at_switch_def holding_def cpu_defs)
  from release_last[OF t] obtain u where u: "release (ProcLock p) ?t = Ok () u" "noff (mycpu u) = 0"
    "lock_free (ProcLock p) u" "\<And>k. k \<noteq> ProcLock p \<Longrightarrow> locks u k = locks s k" "procs u = procs s"
    "cpu_proc (mycpu u) = Some p" "switches u = switches s"
    using 1(3) by (auto simp: cpu_defs)
  have "lock_free (ProcLock q) u" for q
    using 1(2) u(3,4) by (cases "q = p") (auto simp: at_switch_def lock_free_def)
  then have "sched_ready u" using 1(2) u(2,5) by (simp add: sched_ready_def all_free_def at_switch_def)
  from yield_switches[OF this u(6) 1(1)] obtain c s' where
    s': "yield u = (Sleeps c s' :: (wchan option, unit, _) res)" "at_switch p s'"
    "procs s' = (procs s)[p := (procs s ! p)\<lparr>p_state := RUNNABLE\<rparr>]" "switches s' = switches s" using u(5,7) by auto
  have "run_yielding p s = Ok () s'"
    using u(1) s'(1) by (simp add: run_yielding_def until_swtch_def yield_resume_def sched_resume_def kop_simps bindk_assoc)
  with s'(2-4) 1(1,2) show ?case by (auto simp: runnable_def at_switch_def)
qed

section \<open>A sleeping and a waking thread\<close>

text \<open>
  The protocol of \<open>sleep\<close> and \<open>wakeup\<close> on one condition, as its two threads run it in any
  interleaving on two harts. The consumer holds the condition lock \<open>lk\<close>, tests the condition,
  and, if it does not hold, calls \<open>sleep(chan, lk)\<close>; the producer takes \<open>lk\<close>, makes the condition
  true, calls \<open>wakeup(chan)\<close> and releases \<open>lk\<close>. A step is one statement of \<open>sleep\<close> or \<open>wakeup\<close>
  between two accesses to shared data; a thread waits at \<open>acquire\<close> while the lock is taken. The
  consumer starts with \<open>lk\<close> held, as \<open>sleep\<close> requires of its caller.
\<close>

datatype sleep_pc =
    Testing | WantsPLock | HasBoth | HasPLock | Marked | Switched
  | Awake | WantsLk | Finished

datatype wakeup_pc = WantsCondLock | HasCondLock | MustWake | Scanning | Woke | Done

record sw_conf =
  cond :: bool
  lk_owner :: "bool option"
  pl_owner :: "bool option"
  sl_state :: procstate
  sl_chan :: bool
  sleeper :: sleep_pc
  waker :: wakeup_pc

text \<open>The owner of a lock is \<open>Some True\<close> for the sleeper, or the scheduler of its hart on its behalf, and
  \<open>Some False\<close> for the waker.\<close>

inductive sleeper_step :: "sw_conf \<Rightarrow> sw_conf \<Rightarrow> bool" where
  test_true: "\<lbrakk>sleeper c = Testing; cond c\<rbrakk> \<Longrightarrow> sleeper_step c (c\<lparr>sleeper := Finished, lk_owner := None\<rparr>)"
| test_false: "\<lbrakk>sleeper c = Testing; \<not> cond c\<rbrakk> \<Longrightarrow> sleeper_step c (c\<lparr>sleeper := WantsPLock\<rparr>)"
| acquire_plock: "\<lbrakk>sleeper c = WantsPLock; pl_owner c = None\<rbrakk>
    \<Longrightarrow> sleeper_step c (c\<lparr>sleeper := HasBoth, pl_owner := Some True\<rparr>)"
| release_lk: "sleeper c = HasBoth \<Longrightarrow> sleeper_step c (c\<lparr>sleeper := HasPLock, lk_owner := None\<rparr>)"
| set_chan: "sleeper c = HasPLock \<Longrightarrow> sleeper_step c (c\<lparr>sleeper := Marked, sl_chan := True\<rparr>)"
| set_sleeping: "sleeper c = Marked
    \<Longrightarrow> sleeper_step c (c\<lparr>sleeper := Switched, sl_state := SLEEPING\<rparr>)"
| sched_releases: "\<lbrakk>sleeper c = Switched; pl_owner c = Some True; sl_state c \<noteq> RUNNING\<rbrakk>
    \<Longrightarrow> sleeper_step c (c\<lparr>pl_owner := None\<rparr>)"
| sched_resumes: "\<lbrakk>sleeper c = Switched; pl_owner c = None; sl_state c = RUNNABLE\<rbrakk>
    \<Longrightarrow> sleeper_step c (c\<lparr>sleeper := Awake, pl_owner := Some True, sl_state := RUNNING\<rparr>)"
| clear_chan: "sleeper c = Awake
    \<Longrightarrow> sleeper_step c (c\<lparr>sleeper := WantsLk, sl_chan := False, pl_owner := None\<rparr>)"
| acquire_lk: "\<lbrakk>sleeper c = WantsLk; lk_owner c = None\<rbrakk>
    \<Longrightarrow> sleeper_step c (c\<lparr>sleeper := Testing, lk_owner := Some True\<rparr>)"

inductive waker_step :: "sw_conf \<Rightarrow> sw_conf \<Rightarrow> bool" where
  waker_acquire: "\<lbrakk>waker c = WantsCondLock; lk_owner c = None\<rbrakk>
    \<Longrightarrow> waker_step c (c\<lparr>waker := HasCondLock, lk_owner := Some False\<rparr>)"
| set_cond: "waker c = HasCondLock \<Longrightarrow> waker_step c (c\<lparr>waker := MustWake, cond := True\<rparr>)"
| wakeup_acquire: "\<lbrakk>waker c = MustWake; pl_owner c = None\<rbrakk>
    \<Longrightarrow> waker_step c (c\<lparr>waker := Scanning, pl_owner := Some False\<rparr>)"
| wakeup_hit: "\<lbrakk>waker c = Scanning; sl_state c = SLEEPING; sl_chan c\<rbrakk>
    \<Longrightarrow> waker_step c (c\<lparr>waker := Woke, sl_state := RUNNABLE, pl_owner := None\<rparr>)"
| wakeup_miss: "\<lbrakk>waker c = Scanning; \<not> (sl_state c = SLEEPING \<and> sl_chan c)\<rbrakk>
    \<Longrightarrow> waker_step c (c\<lparr>waker := Woke, pl_owner := None\<rparr>)"
| waker_release: "waker c = Woke \<Longrightarrow> waker_step c (c\<lparr>waker := Done, lk_owner := None\<rparr>)"

inductive_cases sleeper_stepE: "sleeper_step c c'"
inductive_cases waker_stepE: "waker_step c c'"

definition sw_step :: "sw_conf \<Rightarrow> sw_conf \<Rightarrow> bool" where
  "sw_step c c' \<longleftrightarrow> sleeper_step c c' \<or> waker_step c c'"

definition sw_init :: sw_conf where
  "sw_init = \<lparr>cond = False, lk_owner = Some True, pl_owner = None, sl_state = RUNNING, sl_chan = False,
     sleeper = Testing, waker = WantsCondLock\<rparr>"

inductive sw_reach :: "sw_conf \<Rightarrow> bool" where
  sw_start: "sw_reach sw_init"
| sw_moves: "\<lbrakk>sw_reach c; sw_step c c'\<rbrakk> \<Longrightarrow> sw_reach c'"

text \<open>
  The invariant. The first two lines say who owns the locks, the next three what the sleeper's
  slot contains at each point. The last says that nobody sleeps through the event: once the waker
  is past its scan, the sleeper is not asleep and will not go to sleep without testing again.
\<close>

definition sw_inv :: "sw_conf \<Rightarrow> bool" where
  "sw_inv c \<longleftrightarrow>
     (lk_owner c = Some True \<longleftrightarrow> sleeper c \<in> {Testing, WantsPLock, HasBoth}) \<and>
     (lk_owner c = Some False \<longleftrightarrow> waker c \<in> {HasCondLock, MustWake, Scanning, Woke}) \<and>
     (sleeper c \<in> {HasBoth, HasPLock, Marked, Awake} \<longrightarrow> pl_owner c = Some True) \<and>
     (pl_owner c = Some True \<longrightarrow> sleeper c \<in> {HasBoth, HasPLock, Marked, Switched, Awake}) \<and>
     (pl_owner c = Some False \<longleftrightarrow> waker c = Scanning) \<and>
     (sleeper c \<noteq> Switched \<longrightarrow> sl_state c = RUNNING) \<and>
     (sleeper c = Switched \<longrightarrow> sl_state c \<in> {SLEEPING, RUNNABLE}) \<and>
     (sleeper c \<in> {Marked, Switched} \<longrightarrow> sl_chan c) \<and>
     (cond c \<longleftrightarrow> waker c \<in> {MustWake, Scanning, Woke, Done}) \<and>
     (sleeper c \<in> {WantsPLock, HasBoth} \<longrightarrow> \<not> cond c) \<and>
     (sleeper c \<in> {Awake, WantsLk} \<longrightarrow> waker c \<in> {Woke, Done}) \<and>
     (sleeper c = Switched \<and> sl_state c = RUNNABLE \<longrightarrow> waker c \<in> {Woke, Done}) \<and>
     (waker c \<in> {Woke, Done} \<longrightarrow>
        (sleeper c = Switched \<longrightarrow> sl_state c = RUNNABLE \<and> pl_owner c = None) \<and>
        sleeper c \<notin> {HasPLock, Marked})"

lemma sw_inv_init: "sw_inv sw_init"
  by (simp add: sw_inv_def sw_init_def)

lemma sw_inv_sleeper: "sleeper_step c c' \<Longrightarrow> sw_inv c \<Longrightarrow> sw_inv c'"
  by (elim sleeper_stepE; cases "waker c"; simp add: sw_inv_def; elim conjE; simp)

lemma sw_inv_waker: "waker_step c c' \<Longrightarrow> sw_inv c \<Longrightarrow> sw_inv c'"
  by (elim waker_stepE; cases "sleeper c"; simp add: sw_inv_def; elim conjE; simp)

lemma sw_inv_step: "sw_step c c' \<Longrightarrow> sw_inv c \<Longrightarrow> sw_inv c'"
  using sw_inv_sleeper sw_inv_waker by (auto simp: sw_step_def)

lemma sw_inv_reach: "sw_reach c \<Longrightarrow> sw_inv c"
  by (induction rule: sw_reach.induct) (use sw_inv_init sw_inv_step in blast)+

text \<open>A bound on the steps still to come.\<close>

fun sleeper_rank :: "sw_conf \<Rightarrow> nat" where
  "sleeper_rank c = (case sleeper c of
     Testing \<Rightarrow> (if cond c then 1 else 10) | WantsPLock \<Rightarrow> 9 | HasBoth \<Rightarrow> 8 | HasPLock \<Rightarrow> 7 | Marked \<Rightarrow> 6
   | Switched \<Rightarrow> (if pl_owner c = Some True then 5 else 4) | Awake \<Rightarrow> 3 | WantsLk \<Rightarrow> 2 | Finished \<Rightarrow> 0)"

fun waker_rank :: "wakeup_pc \<Rightarrow> nat" where
  "waker_rank WantsCondLock = 5" | "waker_rank HasCondLock = 4" | "waker_rank MustWake = 3"
| "waker_rank Scanning = 2" | "waker_rank Woke = 1" | "waker_rank Done = 0"

definition sw_rank :: "sw_conf \<Rightarrow> nat" where
  "sw_rank c = sleeper_rank c + waker_rank (waker c)"

lemma sw_rank_step:
  assumes "sw_step c c'" "sw_inv c"
  shows "sw_rank c' < sw_rank c"
  using assms(1) unfolding sw_step_def
proof
  assume "sleeper_step c c'"
  then show ?thesis using assms(2) by (elim sleeper_stepE; simp add: sw_rank_def sw_inv_def)
next
  assume "waker_step c c'"
  then show ?thesis using assms(2) by (elim waker_stepE; cases "sleeper c"; simp add: sw_rank_def sw_inv_def)
qed

lemma sw_steps_bounded:
  assumes "(sw_step ^^ n) c c'" "sw_inv c"
  shows "n + sw_rank c' \<le> sw_rank c \<and> sw_inv c'"
  using assms
proof (induction n arbitrary: c')
  case (Suc n)
  from Suc.prems(1) obtain d where d: "(sw_step ^^ n) c d" "sw_step d c'" by auto
  with Suc.IH Suc.prems(2) have "n + sw_rank d \<le> sw_rank c" "sw_inv d" by auto
  with d(2) sw_rank_step[of d c'] sw_inv_step[of d c'] show ?case by auto
qed simp

lemma sw_progress_waker:
  assumes "sw_inv c" "waker c \<in> {HasCondLock, Scanning, Woke}"
  shows "\<exists>c'. waker_step c c'"
  using assms(2) set_cond[of c] wakeup_hit[of c] wakeup_miss[of c] waker_release[of c] by blast

lemma sw_progress_blocked:
  assumes "sw_inv c" "pl_owner c = Some True"
  shows "\<exists>c'. sleeper_step c c'"
proof -
  have "sleeper c \<in> {HasBoth, HasPLock, Marked, Switched, Awake}"
    using assms by (cases "sleeper c"; simp add: sw_inv_def)
  moreover have "sl_state c \<noteq> RUNNING" if "sleeper c = Switched"
    using assms that by (cases "sl_state c"; simp add: sw_inv_def)
  ultimately show ?thesis
    using assms(2) release_lk[of c] set_chan[of c] set_sleeping[of c] sched_releases[of c] clear_chan[of c] by blast
qed

lemma sw_progress_locked:
  assumes "sw_inv c" "lk_owner c = Some True"
  shows "\<exists>c'. sleeper_step c c'"
proof (cases "sleeper c = WantsPLock")
  case True
  with assms have "pl_owner c \<noteq> Some False" "pl_owner c \<noteq> Some True" by (auto simp: sw_inv_def)
  then have "pl_owner c = None" by (cases "pl_owner c") auto
  with True acquire_plock[of c] show ?thesis by blast
next
  case False
  with assms have "sleeper c = Testing \<or> sleeper c = HasBoth" by (auto simp: sw_inv_def)
  then show ?thesis using test_true[of c] test_false[of c] release_lk[of c] by blast
qed

lemma sw_progress_done:
  assumes "sw_inv c" "waker c = Done" "sleeper c \<noteq> Finished"
  shows "\<exists>c'. sleeper_step c c'"
proof (cases "pl_owner c = Some True \<or> lk_owner c = Some True")
  case True
  with sw_progress_blocked[OF assms(1)] sw_progress_locked[OF assms(1)] show ?thesis by blast
next
  case False
  with assms have "pl_owner c \<noteq> Some False" "lk_owner c \<noteq> Some False" by (auto simp: sw_inv_def)
  with False have n: "pl_owner c = None" "lk_owner c = None"
    by (cases "pl_owner c", auto) (cases "lk_owner c", auto)
  have "sleeper c = Switched \<and> sl_state c = RUNNABLE \<or> sleeper c = WantsLk"
    using assms n by (cases "sleeper c") (auto simp: sw_inv_def)
  with n sched_resumes[of c] acquire_lk[of c] show ?thesis by blast
qed

lemma sw_progress:
  assumes "sw_inv c" "\<not> (sleeper c = Finished \<and> waker c = Done)"
  shows "\<exists>c'. sw_step c c'"
proof (cases "pl_owner c = Some True \<or> lk_owner c = Some True")
  case True
  with sw_progress_blocked[OF assms(1)] sw_progress_locked[OF assms(1)] show ?thesis
    unfolding sw_step_def by blast
next
  case False
  show ?thesis
  proof (cases "waker c")
    case WantsCondLock
    with assms(1) have "lk_owner c \<noteq> Some False" by (auto simp: sw_inv_def)
    with False have "lk_owner c = None" by (cases "lk_owner c") auto
    with WantsCondLock waker_acquire[of c] show ?thesis unfolding sw_step_def by blast
  next
    case MustWake
    with assms(1) have "pl_owner c \<noteq> Some False" by (auto simp: sw_inv_def)
    with False have "pl_owner c = None" by (cases "pl_owner c") auto
    with MustWake wakeup_acquire[of c] show ?thesis unfolding sw_step_def by blast
  next
    case Done
    with assms sw_progress_done show ?thesis unfolding sw_step_def by blast
  qed (use assms(1) sw_progress_waker[of c] in \<open>auto simp: sw_step_def\<close>)
qed

section \<open>Properties\<close>

text \<open>A state with a given process table, all locks free.\<close>

definition demo_procs :: "proc list \<Rightarrow> proc_st" where
  "demo_procs ps = kmem_st.extend boot_kmem \<lparr>kernel_pagetable = 0, satp = 0, procs = ps, initproc = None, nextpid = 1,
     ticks = 0, trampoline_pa = 0x80007000, forkret_pa = 0x80001000, kobj = 0x80008000, kloc = 0x80008800, kout = []\<rparr>"

lemma demo_procs_facts:
  "procs (demo_procs ps) = ps" "intr_ok (demo_procs ps)" "all_free (demo_procs ps)" "others_free (demo_procs ps)"
  "noff (mycpu (demo_procs ps)) = 0" "cpu_proc (mycpu (demo_procs ps)) = None" "lock_free l (demo_procs ps)"
  by (simp_all add: demo_procs_def boot_kmem_def zero_machine_def zero_cpu_def kmem_st.defs machine.defs
      intr_ok_def cpu_defs all_free_def others_free_def lock_free_def)

definition sleeping_proc :: proc where
  "sleeping_proc = zero_proc\<lparr>p_state := SLEEPING, p_chan := Some ChTicks, p_pid := 7\<rparr>"

abbreviation demo_table :: "proc list" where
  "demo_table \<equiv> (replicate NPROC zero_proc)[3 := sleeping_proc]"

text \<open>
  \<open>wakeup(chan)\<close> makes runnable exactly the processes, other than the caller, that sleep on
  \<open>chan\<close>, and changes nothing else in the process table, in memory or in the locks. It returns
  whenever the process locks other than the caller's own are free.
\<close>

theorem wakeup_correct:
  assumes "intr_ok s" "others_free s" "length (procs s) = NPROC"
  shows "\<exists>t. wakeup chan s = Ok () t \<and> locks t = locks s \<and> mem t = mem s \<and> length (procs t) = NPROC \<and>
    (\<forall>p < NPROC. procs t ! p =
       (if p_state (procs s ! p) = SLEEPING \<and> p_chan (procs s ! p) = chan \<and> cpu_proc (mycpu s) \<noteq> Some p
        then (procs s ! p)\<lparr>p_state := RUNNABLE\<rparr> else procs s ! p))"
  using wakeup_eq[OF assms] assms(3) by (auto simp: nth_woken wake_def)

theorem wakeup_correct_witness:
  "\<exists>t. wakeup (Some ChTicks) (demo_procs demo_table) = Ok () t \<and>
    procs t ! 3 = sleeping_proc\<lparr>p_state := RUNNABLE\<rparr> \<and> procs t ! 4 = zero_proc"
proof -
  let ?s = "demo_procs demo_table"
  from wakeup_correct[of ?s "Some ChTicks"] obtain t where t: "wakeup (Some ChTicks) ?s = Ok () t"
    "\<forall>p < NPROC. procs t ! p = (if p_state (procs ?s ! p) = SLEEPING \<and> p_chan (procs ?s ! p) = Some ChTicks \<and>
       cpu_proc (mycpu ?s) \<noteq> Some p then (procs ?s ! p)\<lparr>p_state := RUNNABLE\<rparr> else procs ?s ! p)"
    by (auto simp: demo_procs_facts)
  with t(2)[rule_format, of 3] t(2)[rule_format, of 4] show ?thesis
    by (auto simp: demo_procs_facts sleeping_proc_def zero_proc_def)
qed

text \<open>
  \<open>kill(pid)\<close> marks the first slot of the table whose pid is the argument, wakes it if it
  sleeps, and returns 0; if no slot has that pid it returns -1 and changes no slot. All locks are
  released on both paths.
\<close>

theorem kill_correct:
  assumes "intr_ok s" "all_free s" "length (procs s) = NPROC"
  shows "case find_index (\<lambda>q. p_pid q = pid) (procs s) of
      None \<Rightarrow> \<exists>t. kill pid s = Ok (-1) t \<and> procs t = procs s \<and> locks t = locks s
    | Some i \<Rightarrow> \<exists>t. kill pid s = Ok 0 t \<and> locks t = locks s \<and>
        procs t = (procs s)[i := (procs s ! i)\<lparr>p_killed := 1,
          p_state := (if p_state (procs s ! i) = SLEEPING then RUNNABLE else p_state (procs s ! i))\<rparr>]"
  using kill_eq[OF assms, of pid] by (auto simp: victim_def split: option.split)

theorem kill_correct_witness:
  "\<exists>t. kill 7 (demo_procs demo_table) = Ok 0 t \<and> p_killed (procs t ! 3) = 1 \<and> p_state (procs t ! 3) = RUNNABLE"
proof -
  have "find_index (\<lambda>q. p_pid q = 7) demo_table = Some 3"
    by (auto simp: find_index_Some sleeping_proc_def zero_proc_def less_Suc_eq numeral_3_eq_3)
  with kill_correct[of "demo_procs demo_table" 7] show ?thesis
    by (auto simp: demo_procs_facts sleeping_proc_def)
qed

text \<open>
  C29: one round of the scheduler is fair. Whatever the processes do while they run, provided each
  comes back to \<open>swtch\<close> with its own lock held, not marked as running, and without making another
  runnable process not runnable, the round returns with all process locks free. The resumed code
  notes each switch: every process that was runnable at the start of the round was resumed, no
  process was resumed twice, and each found itself marked \<open>RUNNING\<close> and as the process of its hart.
\<close>

theorem scheduler_round_fair:
  assumes "resumed_thread run" "sched_ready s"
  shows "\<exists>t rs. scheduler_round (noting run) s = Ok () t \<and> sched_ready t \<and>
    switches t = switches s @ map (\<lambda>p. (p, RUNNING, Some p)) rs \<and> distinct rs \<and>
    (\<forall>p < NPROC. p_state (procs s ! p) = RUNNABLE \<longrightarrow> p \<in> set rs)"
proof -
  have i: "sched_ready (intr_on s)" "switches (intr_on s) = switches s" "procs (intr_on s) = procs s"
    using assms(2) by (simp_all add: sched_ready_def all_free_def lock_free_def cpu_defs intr_on_def)
  obtain t rs where t: "foreachk [0..<NPROC] (scheduler_try (noting run)) (intr_on s) = Ok () t" "sched_ready t"
    "switches t = switches (intr_on s) @ map (\<lambda>p. (p, RUNNING, Some p)) rs" "distinct rs"
    "\<forall>q \<in> set [0..<NPROC]. runnable (intr_on s) q \<longrightarrow> q \<in> set rs"
    using resumed_thread.round_runs_all[OF assms(1) i(1), of "[0..<NPROC]"] by (auto simp: atLeast0LessThan)
  then have "scheduler_round (noting run) s = Ok () t" by (simp add: scheduler_round_def kop_simps)
  moreover have "\<forall>p < NPROC. p_state (procs s ! p) = RUNNABLE \<longrightarrow> p \<in> set rs"
    using t(5) i(3) by (simp add: runnable_def)
  ultimately show ?thesis using t(2-4) i(2) by metis
qed

definition demo_sched :: sched_log where
  "demo_sched = proc_st.extend (demo_procs (demo_table[5 := zero_proc\<lparr>p_state := RUNNABLE\<rparr>])) \<lparr>switches = []\<rparr>"

theorem scheduler_round_fair_witness:
  "\<exists>t. scheduler_round (noting run_yielding) demo_sched = Ok () t \<and> (5, RUNNING, Some 5) \<in> set (switches t)"
proof -
  have r: "sched_ready demo_sched" "switches demo_sched = []" "p_state (procs demo_sched ! 5) = RUNNABLE"
    by (simp_all add: demo_sched_def sched_ready_def all_free_def demo_procs_def proc_st.defs kmem_st.defs
        boot_kmem_def machine.defs zero_machine_def zero_cpu_def lock_free_def cpu_defs)
  obtain t rs where t: "scheduler_round (noting run_yielding) demo_sched = Ok () t"
    "switches t = map (\<lambda>p. (p, RUNNING, Some p)) rs" "5 \<in> set rs"
    using scheduler_round_fair[OF yielding.resumed_thread_axioms r(1)] r(2,3) by auto
  then show ?thesis by auto
qed

text \<open>
  C7: no wakeup is lost. In every interleaving of a thread that sleeps until a condition holds
  with a thread that makes the condition true and calls \<open>wakeup\<close>, there are at most 15 steps, and
  when no step is possible any more both threads have finished: the sleeper has seen the
  condition. In particular the sleeper is never left asleep after the waker is done.
\<close>

theorem sleep_wakeup_finishes:
  assumes "(sw_step ^^ n) sw_init c"
  shows "n \<le> 15 \<and> ((\<forall>c'. \<not> sw_step c c') \<longrightarrow> sleeper c = Finished \<and> waker c = Done \<and> cond c)"
proof -
  have b: "n + sw_rank c \<le> sw_rank sw_init" "sw_inv c"
    using sw_steps_bounded[OF assms sw_inv_init] by auto
  have "sw_rank sw_init = 15" by (simp add: sw_rank_def sw_init_def)
  moreover have "cond c" if "waker c = Done" using b(2) that by (simp add: sw_inv_def)
  ultimately show ?thesis using b(1) sw_progress[OF b(2)] by auto
qed

text \<open>The longest run: the sleeper goes to sleep, is woken, and sees the condition.\<close>

lemma sw_run:
  "\<lbrakk>sleeper_step c c'; (sw_step ^^ n) c' d\<rbrakk> \<Longrightarrow> (sw_step ^^ Suc n) c d"
  "\<lbrakk>waker_step c c'; (sw_step ^^ n) c' d\<rbrakk> \<Longrightarrow> (sw_step ^^ Suc n) c d"
  using relpowp_Suc_I2[of sw_step c c' n d] by (simp_all add: sw_step_def)

definition sw_end :: sw_conf where
  "sw_end = \<lparr>cond = True, lk_owner = None, pl_owner = None, sl_state = RUNNING, sl_chan = False,
     sleeper = Finished, waker = Done\<rparr>"

lemma sw_longest: "(sw_step ^^ 15) sw_init sw_end"
  unfolding eval_nat_numeral BitM.simps One_nat_def sw_init_def sw_end_def
  by (rule sw_run, rule test_false, simp, simp, rule sw_run, rule acquire_plock, simp, simp,
    rule sw_run, rule release_lk, simp, rule sw_run, rule set_chan, simp, rule sw_run, rule set_sleeping, simp,
    rule sw_run, rule sched_releases, simp, simp, simp, rule sw_run(2), rule waker_acquire, simp, simp,
    rule sw_run(2), rule set_cond, simp, rule sw_run(2), rule wakeup_acquire, simp, simp,
    rule sw_run(2), rule wakeup_hit, simp, simp, simp, rule sw_run(2), rule waker_release, simp,
    rule sw_run, rule sched_resumes, simp, simp, simp, rule sw_run, rule clear_chan, simp,
    rule sw_run, rule acquire_lk, simp, simp, rule sw_run, rule test_true, simp, simp, simp)

theorem sleep_wakeup_finishes_witness:
  "(sw_step ^^ 15) sw_init sw_end \<and> (\<forall>c'. \<not> sw_step sw_end c') \<and> sleeper sw_end = Finished \<and> waker sw_end = Done"
proof -
  have "\<not> sw_step sw_end c'" for c'
    by (auto simp: sw_step_def sw_end_def elim: sleeper_stepE waker_stepE)
  with sleep_wakeup_finishes[OF sw_longest] sw_longest show ?thesis by blast
qed

end
