(* ===== verification/Zero.thy ===== *)
theory Zero
  imports File Procsync
begin

text \<open>
  A concrete kernel state for concrete runs: the data segment is zero, as the loader leaves it,
  every lock is free, interrupts are on and this hart runs process 0.
\<close>

section \<open>The zeroed data segment\<close>

definition zero_buf :: buf where
  "zero_buf = \<lparr>b_valid = False, b_disk = False, b_dev = 0, b_blockno = 0, b_refcnt = 0, b_prev = 0, b_next = 0,
     b_data = replicate BSIZE 0\<rparr>"

definition zero_log :: log where
  "zero_log = \<lparr>log_start = 0, log_size = 0, outstanding = 0, committing = 0, log_dev = 0,
     lh = \<lparr>lh_n = 0, lh_block = replicate LOGSIZE 0\<rparr>\<rparr>"

definition zero_sb :: superblock where
  "zero_sb = \<lparr>sb_magic = 0, sb_size = 0, sb_nblocks = 0, sb_ninodes = 0, sb_nlog = 0, sb_logstart = 0,
     sb_inodestart = 0, sb_bmapstart = 0\<rparr>"

definition zero_inode :: inode where
  "zero_inode = \<lparr>i_dev = 0, i_inum = 0, i_ref = 0, i_valid = False, i_type = 0, i_major = 0, i_minor = 0, i_nlink = 0,
     i_size = 0, i_addrs = replicate (NDIRECT + 1) 0\<rparr>"

definition zero_file :: kfile where
  "zero_file = \<lparr>f_type = FD_NONE, f_ref = 0, f_readable = False, f_writable = False, f_pipe = 0, f_ip = 0, f_off = 0, f_major = 0\<rparr>"

definition zero_pipe :: pipe where
  "zero_pipe = \<lparr>pi_data = replicate PIPESIZE 0, pi_nread = 0, pi_nwrite = 0, pi_readopen = False, pi_writeopen = False\<rparr>"

definition zero_kernel :: file_st where
  "zero_kernel = proc_st.extend ((demo_procs (replicate NPROC zero_proc))\<lparr>cpus := (\<lambda>_. zero_cpu)(0 := zero_cpu\<lparr>cpu_proc := Some 0\<rparr>)\<rparr>)
     \<lparr>slocks = (\<lambda>_. \<lparr>sl_locked = 0, sl_name = [], sl_pid = 0\<rparr>),
      bcache = replicate (NBUF + 1) zero_buf, disk0 = (\<lambda>_. replicate BSIZE 0), dwrites = [],
      log = zero_log, sb = zero_sb, itable = replicate NINODE zero_inode,
      panicked = False, pr_locking = False, uart_obs = (\<lambda>_ _. 0), uart_t = 0, uart_wr = [],
      uart_tx_buf = replicate UART_TX_BUF_SIZE 0, uart_tx_w = 0, uart_tx_r = 0,
      cons_buf = replicate INPUT_BUF_SIZE 0, cons_r = 0, cons_w = 0, cons_e = 0,
      ftable = replicate NFILE zero_file, pipes = (\<lambda>_. zero_pipe), devsw_tab = (\<lambda>_. \<lparr>dev_rd = None, dev_wr = None\<rparr>)\<rparr>"

lemmas zero_defs = zero_kernel_def demo_procs_def boot_kmem_def zero_machine_def zero_cpu_def
  proc_st.defs kmem_st.defs machine.defs

lemma zero_kernel_sync:
  "intr_ok zero_kernel" "all_free zero_kernel" "others_free zero_kernel" "lock_free l zero_kernel"
  "noff (mycpu zero_kernel) = 0" "cpu_proc (mycpu zero_kernel) = Some 0"
  by (simp_all add: zero_defs intr_ok_def cpu_defs all_free_def others_free_def lock_free_def)

lemma zero_kernel_data:
  "procs zero_kernel = replicate NPROC zero_proc" "mem zero_kernel = (\<lambda>_. 0)" "pipes zero_kernel = (\<lambda>_. zero_pipe)"
  "kobj zero_kernel = 0x80008000" "kloc zero_kernel = 0x80008800" "locks zero_kernel = locks zero_machine"
  "ftable zero_kernel = replicate NFILE zero_file" "itable zero_kernel = replicate NINODE zero_inode"
  "bcache zero_kernel = replicate (NBUF + 1) zero_buf" "log zero_kernel = zero_log" "dwrites zero_kernel = []"
  by (simp_all add: zero_defs)

end
