(* ===== verification/Ring.thy ===== *)
theory Ring
  imports Prelude
begin

text \<open>
  Ring buffers as the kernel writes them: an array of \<open>N\<close> cells and two counters that only count
  up, of which \<open>counter % N\<close> is the index. The counters are machine words and wrap around; this is
  harmless because \<open>N\<close> divides the range of the word. The pipe, the UART transmit buffer and the
  console input buffer are of this form.

  \<open>ring_items\<close> is the abstract queue of a ring. The locale \<open>fifo\<close> is the interface of a bounded
  queue, with the lemmas its users need; theory Pipe interprets it on the operations of the pipe.
\<close>

section \<open>The queue of a ring\<close>

definition ring_items :: "nat \<Rightarrow> 'b list \<Rightarrow> 'a::len word \<Rightarrow> 'a word \<Rightarrow> 'b list" where
  "ring_items N buf r w = map (\<lambda>i. buf ! (unat (r + of_nat i) mod N)) [0..<unat (w - r)]"

definition ring_ok :: "nat \<Rightarrow> 'b list \<Rightarrow> 'a::len word \<Rightarrow> 'a word \<Rightarrow> bool" where
  "ring_ok N buf r w \<longleftrightarrow> length buf = N \<and> unat (w - r) \<le> N"

lemma length_ring_items [simp]: "length (ring_items N buf r w) = unat (w - r)"
  by (simp add: ring_items_def)

lemma ring_items_empty: "ring_items N buf r w = [] \<longleftrightarrow> r = w"
  by (simp add: ring_items_def unat_eq_zero) (metis eq_iff_diff_eq_0)

lemma unat_diff_Suc:
  fixes r w :: "'a::len word"
  assumes "unat (w - r) < 2 ^ LENGTH('a) - 1"
  shows "unat (w + 1 - r) = Suc (unat (w - r))"
proof -
  have "unat ((w - r) + 1) = unat (w - r) + 1"
    using assms unat_add_of_nat[of "w - r" 1] by simp
  then show ?thesis by (simp add: algebra_simps)
qed

lemma unat_diff_pred:
  fixes r w :: "'a::len word"
  assumes "r \<noteq> w"
  shows "unat (w - (r + 1)) = unat (w - r) - 1" "unat (w - 1 - r) = unat (w - r) - 1"
proof -
  have "w - r \<noteq> 0" using assms by simp
  then have "unat (w - r - 1) = unat (w - r) - 1" by (metis unat_minus_one)
  then show "unat (w - (r + 1)) = unat (w - r) - 1" "unat (w - 1 - r) = unat (w - r) - 1"
    by (simp_all add: algebra_simps)
qed

text \<open>Distinct positions less than \<open>N\<close> apart have distinct indices.\<close>

lemma ring_index:
  fixes r :: "'a::len word"
  assumes "N dvd 2 ^ LENGTH('a)"
  shows "unat (r + of_nat i) mod N = (unat r + i) mod N"
proof -
  obtain k where "2 ^ LENGTH('a) = N * k" using assms by blast
  then have m: "x mod 2 ^ LENGTH('a) mod N = x mod N" for x :: nat
    by (simp add: mod_mod_cancel)
  show ?thesis
    by (simp add: unat_word_ariths unsigned_of_nat take_bit_eq_mod m mod_simps)
qed

lemma mod_add_inj:
  fixes a i j N :: nat
  assumes "(a + i) mod N = (a + j) mod N" "i < N" "j < N"
  shows "i = j"
proof -
  have "i mod N = j mod N" using assms(1) by (simp add: nat_mod_eq_iff)
  with assms(2,3) show ?thesis by simp
qed

section \<open>Putting and getting\<close>

lemma ring_put:
  fixes r w :: "'a::len word"
  assumes "N dvd 2 ^ LENGTH('a)" "N < 2 ^ LENGTH('a)" "ring_ok N buf r w" "unat (w - r) < N"
  shows "ring_items N (buf[unat w mod N := c]) r (w + 1) = ring_items N buf r w @ [c]"
    "ring_ok N (buf[unat w mod N := c]) r (w + 1)"
proof -
  let ?n = "unat (w - r)"
  have N: "0 < N" "length buf = N" using assms(3,4) by (simp_all add: ring_ok_def)
  have n: "unat (w + 1 - r) = Suc ?n" using assms(2,4) by (intro unat_diff_Suc) linarith
  have w: "unat w mod N = (unat r + ?n) mod N" using ring_index[OF assms(1), of r ?n] by simp
  have "(buf[unat w mod N := c]) ! (unat (r + of_nat i) mod N) = buf ! (unat (r + of_nat i) mod N)" if "i < ?n" for i
    using mod_add_inj[of "unat r" i N ?n] that assms(4)
    by (subst nth_list_update_neq) (auto simp: w ring_index[OF assms(1)])
  moreover have "(buf[unat w mod N := c]) ! (unat (r + of_nat ?n) mod N) = c"
    using N by (simp add: w ring_index[OF assms(1)])
  ultimately show "ring_items N (buf[unat w mod N := c]) r (w + 1) = ring_items N buf r w @ [c]"
    by (simp add: ring_items_def n)
  show "ring_ok N (buf[unat w mod N := c]) r (w + 1)" using assms(4) n N(2) by (simp add: ring_ok_def)
qed

lemma ring_get:
  fixes r w :: "'a::len word"
  assumes "ring_ok N buf r w" "r \<noteq> w"
  shows "ring_items N buf r w = buf ! (unat r mod N) # ring_items N buf (r + 1) w" "ring_ok N buf (r + 1) w"
proof -
  have "w - r \<noteq> 0" using assms(2) by simp
  then have n: "unat (w - r) = Suc (unat (w - (r + 1)))"
    using unat_diff_pred(1)[OF assms(2)] unat_eq_zero[of "w - r"] by simp
  have "[0..<Suc k] = 0 # map Suc [0..<k]" for k by (simp add: map_Suc_upt upt_conv_Cons)
  then show "ring_items N buf r w = buf ! (unat r mod N) # ring_items N buf (r + 1) w"
    unfolding ring_items_def n by (simp add: algebra_simps)
  show "ring_ok N buf (r + 1) w" using assms(1) n by (simp add: ring_ok_def)
qed

text \<open>Taking back the last item.\<close>

lemma ring_unput:
  fixes r w :: "'a::len word"
  assumes "ring_ok N buf r w" "r \<noteq> w"
  shows "ring_items N buf r (w - 1) = butlast (ring_items N buf r w)" "ring_ok N buf r (w - 1)"
    "ring_items N buf r w = ring_items N buf r (w - 1) @ [buf ! (unat (w - 1) mod N)]"
proof -
  have "w - r \<noteq> 0" using assms(2) by simp
  then have n: "unat (w - r) = Suc (unat (w - 1 - r))"
    using unat_diff_pred(2)[OF assms(2)] unat_eq_zero[of "w - r"] by simp
  show e: "ring_items N buf r w = ring_items N buf r (w - 1) @ [buf ! (unat (w - 1) mod N)]"
    by (simp add: ring_items_def n)
  show "ring_items N buf r (w - 1) = butlast (ring_items N buf r w)" by (simp add: e)
  show "ring_ok N buf r (w - 1)" using assms(1) n by (simp add: ring_ok_def)
qed

lemma ring_full:
  fixes r w :: "'a::len word"
  assumes "ring_ok N buf r w" "N < 2 ^ LENGTH('a)"
  shows "w = r + of_nat N \<longleftrightarrow> length (ring_items N buf r w) = N"
proof -
  have "w = r + of_nat N \<longleftrightarrow> w - r = of_nat N" by (metis add_diff_cancel_left' diff_add_cancel add.commute)
  also have "\<dots> \<longleftrightarrow> unat (w - r) = N"
  proof -
    have "unat (of_nat N :: 'a word) = N" using assms(2) by (simp add: unsigned_of_nat take_bit_nat_eq_self)
    then show ?thesis by (metis word_unat_eq_iff)
  qed
  finally show ?thesis by simp
qed

section \<open>The interface\<close>

locale fifo =
  fixes put :: "'b \<Rightarrow> 'q \<Rightarrow> 'q" and get :: "'q \<Rightarrow> 'b \<times> 'q"
    and contents :: "'q \<Rightarrow> 'b list" and good :: "'q \<Rightarrow> bool" and capacity :: nat
  assumes put_last: "\<lbrakk>good q; length (contents q) < capacity\<rbrakk> \<Longrightarrow> contents (put x q) = contents q @ [x] \<and> good (put x q)"
    and get_first: "\<lbrakk>good q; contents q = x # xs\<rbrakk> \<Longrightarrow> fst (get q) = x \<and> contents (snd (get q)) = xs \<and> good (snd (get q))"
    and bounded: "good q \<Longrightarrow> length (contents q) \<le> capacity"
begin

definition puts :: "'b list \<Rightarrow> 'q \<Rightarrow> 'q" where
  "puts xs q = fold put xs q"

primrec gets :: "nat \<Rightarrow> 'q \<Rightarrow> 'b list \<times> 'q" where
  "gets 0 q = ([], q)"
| "gets (Suc n) q = (case get q of (x, q') \<Rightarrow> case gets n q' of (xs, q'') \<Rightarrow> (x # xs, q''))"

lemma puts_append:
  assumes "good q" "length (contents q) + length xs \<le> capacity"
  shows "contents (puts xs q) = contents q @ xs \<and> good (puts xs q)"
  using assms
proof (induction xs arbitrary: q)
  case (Cons x xs)
  with put_last[of q x] have "contents (put x q) = contents q @ [x]" "good (put x q)" by auto
  with Cons.IH[of "put x q"] Cons.prems show ?case by (simp add: puts_def)
qed (simp add: puts_def)

lemma gets_take:
  assumes "good q" "n \<le> length (contents q)"
  shows "fst (gets n q) = take n (contents q) \<and> contents (snd (gets n q)) = drop n (contents q) \<and> good (snd (gets n q))"
  using assms
proof (induction n arbitrary: q)
  case (Suc n)
  then obtain x xs where c: "contents q = x # xs" by (cases "contents q") auto
  obtain y q' where g: "get q = (y, q')" by (cases "get q")
  with get_first[OF Suc.prems(1) c] have "y = x" "contents q' = xs" "good q'" by auto
  with Suc.IH[of q'] Suc.prems(2) c g show ?case by (auto split: prod.split)
qed simp

text \<open>What goes in comes out, in order.\<close>

lemma transfer:
  assumes "good q" "contents q = []" "length xs \<le> capacity"
  shows "fst (gets (length xs) (puts xs q)) = xs \<and> contents (snd (gets (length xs) (puts xs q))) = []"
  using gets_take[of "puts xs q" "length xs"] puts_append[of q xs] assms by simp

end

end
