(* ===== verification/Pipe.thy ===== *)
theory Pipe
  imports Zero Ring
begin

text \<open>
  Behaviour of kernel/pipe.c. A pipe is a first-in first-out queue of bytes: the ring buffer of
  struct pipe implements the interface \<open>fifo\<close>, \<open>pipewrite\<close> appends the bytes of the user's buffer
  and blocks when the pipe is full, \<open>piperead\<close> takes bytes from the front.
\<close>

section \<open>The ring of a pipe\<close>

definition pipe_contents :: "pipe \<Rightarrow> u8 list" where
  "pipe_contents p = ring_items PIPESIZE (pi_data p) (pi_nread p) (pi_nwrite p)"

definition pipe_good :: "pipe \<Rightarrow> bool" where
  "pipe_good p \<longleftrightarrow> ring_ok PIPESIZE (pi_data p) (pi_nread p) (pi_nwrite p)"

lemma pipe_size: "PIPESIZE dvd 2 ^ LENGTH(32)" "PIPESIZE < 2 ^ LENGTH(32)"
proof -
  have "(2 :: nat) ^ 9 dvd 2 ^ 32" by (rule le_imp_power_dvd) simp
  then show "PIPESIZE dvd 2 ^ LENGTH(32)" by simp
qed simp

interpretation pipeq: fifo pipe_put pipe_get pipe_contents pipe_good PIPESIZE
proof (unfold_locales, goal_cases)
  case (1 q x)
  then show ?case
    using ring_put[OF pipe_size, of "pi_data q" "pi_nread q" "pi_nwrite q" x]
    by (simp add: pipe_contents_def pipe_good_def pipe_put_def)
next
  case (2 q x xs)
  then have "pi_nread q \<noteq> pi_nwrite q" by (metis pipe_contents_def ring_items_empty list.distinct(1))
  with 2 ring_get[of PIPESIZE "pi_data q" "pi_nread q" "pi_nwrite q"] show ?case
    by (simp add: pipe_contents_def pipe_good_def pipe_get_def)
next
  case (3 q)
  then show ?case by (simp add: pipe_contents_def pipe_good_def ring_ok_def)
qed

lemma pipe_full: "pipe_good p \<Longrightarrow> pi_nwrite p = pi_nread p + of_nat PIPESIZE \<longleftrightarrow> length (pipe_contents p) = PIPESIZE"
  unfolding pipe_good_def pipe_contents_def by (rule ring_full) simp_all

lemma pipe_empty: "pi_nread p = pi_nwrite p \<longleftrightarrow> pipe_contents p = []"
  by (simp add: pipe_contents_def ring_items_empty)

section \<open>User bytes through a kernel variable\<close>

text \<open>The \<open>n\<close> bytes at \<open>addr\<close> are readable, and the byte at \<open>a\<close> is neither one of them nor part of the table.\<close>

definition user_src :: "memory \<Rightarrow> u64 \<Rightarrow> u64 \<Rightarrow> nat \<Rightarrow> u64 \<Rightarrow> bool" where
  "user_src m pt addr n a \<longleftrightarrow> (\<exists>e. pt_wf e m pt) \<and> PGROUNDDOWN a \<notin> pt_pages m pt \<and>
     (\<forall>i < n. user_readable m pt (addr + of_nat i) \<and> PTE2PA (pte_of m pt (addr + of_nat i)) \<noteq> PGROUNDDOWN a)"

definition user_bytes :: "memory \<Rightarrow> u64 \<Rightarrow> u64 \<Rightarrow> nat \<Rightarrow> u8 list" where
  "user_bytes m pt addr n = map (\<lambda>i. user_byte m pt (addr + of_nat i)) [0..<n]"

lemma user_src_upd:
  assumes "user_src m pt addr n a"
  shows "user_src (m(a := c)) pt addr n a" "user_bytes (m(a := c)) pt addr n = user_bytes m pt addr n"
proof -
  obtain e where wf: "pt_wf e m pt" using assms by (auto simp: user_src_def)
  have same: "same_frame b (m(a := c)) m" if "b \<noteq> PGROUNDDOWN a" for b
    using that by (auto simp: same_frame_def)
  have "same_frame b (m(a := c)) m" if "b \<in> pt_pages m pt" for b
    using that assms by (intro same) (auto simp: user_src_def)
  note o = pt_outside[OF wf this]
  have "user_byte (m(a := c)) pt (addr + of_nat i) = user_byte m pt (addr + of_nat i)" if "i < n" for i
  proof -
    have "PTE2PA (pte_of m pt (addr + of_nat i)) \<noteq> PGROUNDDOWN a" using assms that by (simp add: user_src_def)
    then have "user_pa m pt (addr + of_nat i) \<noteq> a" using user_pa_frame by metis
    moreover have "user_pa (m(a := c)) pt (addr + of_nat i) = user_pa m pt (addr + of_nat i)"
      using o(3) by (simp add: user_pa_def)
    ultimately show ?thesis by (simp add: user_byte_def)
  qed
  then show "user_bytes (m(a := c)) pt addr n = user_bytes m pt addr n" by (simp add: user_bytes_def)
  show "user_src (m(a := c)) pt addr n a"
    using assms o by (auto simp: user_src_def user_readable_def)
qed

lemma copyin_one:
  assumes "user_src (mem s) pt addr n a" "i < n"
  shows "copyin pt a (addr + of_nat i) 1 s = Ok 0 (s\<lparr>mem := (mem s)(a := user_bytes (mem s) pt addr n ! i)\<rparr>)"
proof -
  obtain e where wf: "pt_wf e (mem s) pt" using assms by (auto simp: user_src_def)
  have r: "user_readable (mem s) pt (addr + of_nat i)" using assms by (simp add: user_src_def)
  have sep: "copyin_sep (mem s) pt a (addr + of_nat i) (unat (1 :: u64))"
    using assms by (auto simp: copyin_sep_def user_src_def)
  have fit: "unat a + unat (1 :: u64) \<le> 2 ^ 64" using unat_lt_64[of a] by (simp, linarith)
  from copyin_spec[OF wf sep fit] obtain k t where
    "copyin pt a (addr + of_nat i) 1 s = Ok 0 t" "t = s\<lparr>mem := copied_in (mem s) pt a (addr + of_nat i) 1\<rparr>"
    using r by (auto simp: copyin_post_def)
  moreover have "copied_in (mem s) pt a (addr + of_nat i) 1 = (mem s)(a := user_byte (mem s) pt (addr + of_nat i))"
    by (auto simp: copied_in_def user_byte_def unat_eq_zero fun_eq_iff)
  ultimately show ?thesis using assms(2) by (simp add: user_bytes_def)
qed

section \<open>pipewrite\<close>

text \<open>What holds of the writer \<open>pr\<close> at each test of the loop of \<open>pipewrite\<close>.\<close>

definition writer_at :: "u64 \<Rightarrow> nat \<Rightarrow> u64 \<Rightarrow> u64 \<Rightarrow> nat \<Rightarrow> 'z file_st_scheme \<Rightarrow> 'z file_st_scheme \<Rightarrow> bool" where
  "writer_at p pr pt addr n s t \<longleftrightarrow> in_section (PipeLock p) s t \<and> procs t = procs s \<and>
     p_killed (procs s ! pr) = 0 \<and> p_pagetable (procs s ! pr) = pt \<and> pi_readopen (pipes t p) \<and>
     pipe_good (pipes t p) \<and> user_src (mem t) pt addr n (kloc t)"

text \<open>The threads that may interfere are parked: the locks of \<open>proc\<close> are free, one process per slot.\<close>

definition pipe_ready :: "u64 \<Rightarrow> nat \<Rightarrow> 'z proc_st_scheme \<Rightarrow> bool" where
  "pipe_ready p pr s \<longleftrightarrow> noff (mycpu s) = 0 \<and> all_free s \<and> lock_free (PipeLock p) s \<and>
     cpu_proc (mycpu s) = Some pr \<and> pr < NPROC \<and> length (procs s) = NPROC"

lemma pipe_readyD:
  assumes "pipe_ready p pr s"
  shows "intr_ok s" "others_free s" "lock_free (ProcLock q) s" "lock_free (PipeLock p) s" "noff (mycpu s) = 0"
    "cpu_proc (mycpu s) = Some pr" "pr < NPROC" "length (procs s) = NPROC"
  using assms by (auto simp: pipe_ready_def intr_ok_def all_free_others all_free_def others_free_def)

text \<open>The state after the writer put byte \<open>c\<close> into the pipe.\<close>

definition wrote :: "u64 \<Rightarrow> u8 \<Rightarrow> 'z file_st_scheme \<Rightarrow> 'z file_st_scheme" where
  "wrote p c t = t\<lparr>mem := (mem t)(kloc t := c), pipes := (pipes t)(p := pipe_put c (pipes t p))\<rparr>"

lemma pipewrite_puts_one:
  assumes "pipe_ready p pr s" "writer_at p pr pt addr n s t" "i < n" "length (pipe_contents (pipes t p)) < PIPESIZE"
  shows "pipewrite_body p pr addr (int n) (int i) t =
      Ok (Inl (int (Suc i))) (wrote p (user_bytes (mem t) pt addr n ! i) t)"
    "writer_at p pr pt addr n s (wrote p (user_bytes (mem t) pt addr n ! i) t)"
proof -
  note r = pipe_readyD[OF assms(1)]
  have w: "in_section (PipeLock p) s t" "procs t = procs s" "p_killed (procs s ! pr) = 0" "p_pagetable (procs s ! pr) = pt"
    "pi_readopen (pipes t p)" "pipe_good (pipes t p)" "user_src (mem t) pt addr n (kloc t)"
    using assms(2) by (auto simp: writer_at_def)
  have nf: "pi_nwrite (pipes t p) \<noteq> pi_nread (pipes t p) + of_nat PIPESIZE"
    using pipe_full[OF w(6)] assms(4) by auto
  have k: "killed pr t = Ok 0 t" using in_section_killed[OF w(1) r(1,3)] w(2,3) by simp
  show "pipewrite_body p pr addr (int n) (int i) t = Ok (Inl (int (Suc i))) (wrote p (user_bytes (mem t) pt addr n ! i) t)"
    using assms(3) w nf k copyin_one[OF w(7) assms(3)]
    by (simp add: pipewrite_body_def kop_simps getpi_def setpi_def getp_def wrote_def)
  show "writer_at p pr pt addr n s (wrote p (user_bytes (mem t) pt addr n ! i) t)"
    using w pipeq.put_last[OF w(6) assms(4)] user_src_upd(1)[OF w(7)]
    by (simp add: writer_at_def wrote_def in_section_def pipe_put_def)
qed

text \<open>As long as there is room, the loop copies byte after byte.\<close>

lemma pipewrite_puts:
  assumes "pipe_ready p pr s" "writer_at p pr pt addr n s t" "i + k \<le> n"
    "length (pipe_contents (pipes t p)) + k \<le> PIPESIZE"
  shows "\<exists>t'. loopk (pipewrite_body p pr addr (int n)) (int i) t = loopk (pipewrite_body p pr addr (int n)) (int (i + k)) t' \<and>
    writer_at p pr pt addr n s t' \<and>
    pipe_contents (pipes t' p) = pipe_contents (pipes t p) @ take k (drop i (user_bytes (mem t) pt addr n)) \<and>
    (\<forall>q. q \<noteq> p \<longrightarrow> pipes t' q = pipes t q) \<and>
    user_bytes (mem t') pt addr n = user_bytes (mem t) pt addr n \<and> kloc t' = kloc t \<and>
    (\<forall>x. x \<noteq> kloc t \<longrightarrow> mem t' x = mem t x)"
  using assms
proof (induction k arbitrary: i t)
  case 0
  then show ?case by auto
next
  case (Suc k)
  let ?bs = "user_bytes (mem t) pt addr n" let ?t1 = "wrote p (?bs ! i) t"
  have lt: "i < n" "length (pipe_contents (pipes t p)) < PIPESIZE" using Suc.prems(3,4) by simp_all
  note one = pipewrite_puts_one[OF Suc.prems(1,2) lt]
  have g: "pipe_good (pipes t p)" "user_src (mem t) pt addr n (kloc t)" using Suc.prems(2) by (auto simp: writer_at_def)
  have c1: "pipe_contents (pipes ?t1 p) = pipe_contents (pipes t p) @ [?bs ! i]"
    using pipeq.put_last[OF g(1) lt(2)] by (simp add: wrote_def)
  have b1: "user_bytes (mem ?t1) pt addr n = ?bs" using user_src_upd(2)[OF g(2)] by (simp add: wrote_def)
  obtain t' where t': "loopk (pipewrite_body p pr addr (int n)) (int (Suc i)) ?t1 =
      loopk (pipewrite_body p pr addr (int n)) (int (Suc i + k)) t'"
    "writer_at p pr pt addr n s t'" "pipe_contents (pipes t' p) = pipe_contents (pipes ?t1 p) @ take k (drop (Suc i) ?bs)"
    "\<forall>q. q \<noteq> p \<longrightarrow> pipes t' q = pipes ?t1 q" "user_bytes (mem t') pt addr n = ?bs" "kloc t' = kloc ?t1"
    "\<forall>x. x \<noteq> kloc ?t1 \<longrightarrow> mem t' x = mem ?t1 x"
    using Suc.IH[OF Suc.prems(1) one(2), of "Suc i"] Suc.prems(3,4) c1 b1 by auto
  have "take (Suc k) (drop i ?bs) = ?bs ! i # take k (drop (Suc i) ?bs)"
    using lt(1) by (simp add: user_bytes_def Cons_nth_drop_Suc[symmetric])
  then have "pipe_contents (pipes t' p) = pipe_contents (pipes t p) @ take (Suc k) (drop i ?bs)"
    using t'(3) c1 by simp
  moreover have "loopk (pipewrite_body p pr addr (int n)) (int i) t = loopk (pipewrite_body p pr addr (int n)) (int (i + Suc k)) t'"
    using loopk_steps(1)[of "pipewrite_body p pr addr (int n)", OF one(1)] t'(1) by simp
  moreover have "\<forall>q. q \<noteq> p \<longrightarrow> pipes t' q = pipes t q" "kloc t' = kloc t" "\<forall>x. x \<noteq> kloc t \<longrightarrow> mem t' x = mem t x"
    using t'(4,6,7) by (simp_all add: wrote_def)
  ultimately show ?case using t'(2,5) by blast
qed

text \<open>The loop ends when all bytes are in the pipe: readers are woken, the lock is released.\<close>

lemma pipewrite_ends:
  assumes "pipe_ready p pr s" "writer_at p pr pt addr n s t"
  shows "loopk (pipewrite_body p pr addr (int n)) (int n) t = Ok (int n)
    (t\<lparr>procs := woken (Some (ChPipeRead p)) (Some pr) NPROC (procs s), sstatus := sstatus s, cpus := cs_cpus s, locks := locks s\<rparr>)"
proof -
  note r = pipe_readyD[OF assms(1)]
  have w: "in_section (PipeLock p) s t" "procs t = procs s" using assms(2) by (auto simp: writer_at_def)
  let ?u = "t\<lparr>procs := woken (Some (ChPipeRead p)) (Some pr) NPROC (procs s)\<rparr>"
  have "wakeup (Some (ChPipeRead p)) t = Ok () ?u"
    using in_section_wakeup[OF w(1) r(1,2), of "Some (ChPipeRead p)"] w(2) r(6,8) by simp
  moreover have "release (PipeLock p) ?u = Ok () (?u\<lparr>sstatus := sstatus s, cpus := cs_cpus s, locks := locks s\<rparr>)"
    using w(1) by (intro in_section_release[OF _ r(4,1)]) (simp add: in_section_def)
  ultimately have "pipewrite_body p pr addr (int n) (int n) t =
      Ok (Inr (int n)) (?u\<lparr>sstatus := sstatus s, cpus := cs_cpus s, locks := locks s\<rparr>)"
    by (simp add: pipewrite_body_def kop_simps)
  then show ?thesis by (rule loopk_steps(2))
qed

text \<open>When the pipe is full, readers are woken and the writer sleeps, with the pipe's lock free.\<close>

lemma pipewrite_blocks:
  assumes "pipe_ready p pr s" "writer_at p pr pt addr n s t" "i < n" "length (pipe_contents (pipes t p)) = PIPESIZE"
  shows "\<exists>u. loopk (pipewrite_body p pr addr (int n)) (int i) t = Sleeps (Some (ChPipeWrite p)) u \<and>
    pipes u = pipes t \<and> lock_free (PipeLock p) u \<and>
    procs u = (woken (Some (ChPipeRead p)) (Some pr) NPROC (procs s))[pr := asleep (ChPipeWrite p) (procs s ! pr)]"
proof -
  note r = pipe_readyD[OF assms(1)]
  have w: "in_section (PipeLock p) s t" "procs t = procs s" "p_killed (procs s ! pr) = 0"
    "pi_readopen (pipes t p)" "pipe_good (pipes t p)" using assms(2) by (auto simp: writer_at_def)
  let ?v = "t\<lparr>procs := woken (Some (ChPipeRead p)) (Some pr) NPROC (procs s)\<rparr>"
  have v: "in_section (PipeLock p) s ?v" using w(1) by (simp add: in_section_def)
  have wk: "wakeup (Some (ChPipeRead p)) t = Ok () ?v"
    using in_section_wakeup[OF w(1) r(1,2), of "Some (ChPipeRead p)"] w(2) r(6,8) by simp
  have k: "killed pr t = Ok 0 t" using in_section_killed[OF w(1) r(1,3)] w(2,3) by simp
  have pr: "procs ?v ! pr = procs s ! pr" "pr < length (procs ?v)" using r(7,8) by (simp_all add: nth_woken)
  from in_section_sleep[OF v r(5,4,6,3) _ pr(2), of "ChPipeWrite p"] obtain u where
    u: "sleep (ChPipeWrite p) (PipeLock p) ?v = (Sleeps (Some (ChPipeWrite p)) u :: (_, int + int, _) res)" "lock_free (PipeLock p) u"
    "u = ?v\<lparr>procs := (procs ?v)[pr := asleep (ChPipeWrite p) (procs ?v ! pr)], cpus := cpus u, locks := locks u, sstatus := sstatus u\<rparr>"
    by blast
  have "procs u = (procs ?v)[pr := asleep (ChPipeWrite p) (procs ?v ! pr)]" "pipes u = pipes t"
    by (subst u(3), simp)+
  moreover have "pipewrite_body p pr addr (int n) (int i) t = Sleeps (Some (ChPipeWrite p)) u"
    using assms(3,4) w k wk u(1) pipe_full[OF w(5)] by (simp add: pipewrite_body_def kop_simps getpi_def)
  then have "loopk (pipewrite_body p pr addr (int n)) (int i) t = Sleeps (Some (ChPipeWrite p)) u"
    by (rule loopk_steps(5))
  ultimately show ?thesis using u(2) pr(1) by (intro exI[of _ u]) simp
qed

lemma pipewrite_spec:
  assumes "pipe_ready p pr s" "p_killed (procs s ! pr) = 0" "pi_readopen (pipes s p)" "pipe_good (pipes s p)"
    "user_src (mem s) (p_pagetable (procs s ! pr)) addr n (kloc s)"
  defines "bs \<equiv> user_bytes (mem s) (p_pagetable (procs s ! pr)) addr n"
    and "room \<equiv> PIPESIZE - length (pipe_contents (pipes s p))"
  shows "if n \<le> room
    then \<exists>t. pipewrite p addr (int n) s = Ok (int n) t \<and> locks t = locks s \<and>
      pipe_contents (pipes t p) = pipe_contents (pipes s p) @ bs \<and>
      procs t = woken (Some (ChPipeRead p)) (Some pr) NPROC (procs s)
    else \<exists>t. pipewrite p addr (int n) s = Sleeps (Some (ChPipeWrite p)) t \<and> lock_free (PipeLock p) t \<and>
      pipe_contents (pipes t p) = pipe_contents (pipes s p) @ take room bs \<and>
      procs t = (woken (Some (ChPipeRead p)) (Some pr) NPROC (procs s))[pr := asleep (ChPipeWrite p) (procs s ! pr)]"
proof -
  note r = pipe_readyD[OF assms(1)]
  let ?pt = "p_pagetable (procs s ! pr)" let ?e = "entered (PipeLock p) (touch s)"
  have e: "writer_at p pr ?pt addr n s ?e"
    using assms(2-5) unfolding entered_touch
    by (simp add: writer_at_def) (simp add: entered_def)
  have same: "mem ?e = mem s" "pipes ?e = pipes s" by (simp_all add: entered_def)
  have len: "length bs = n" by (simp add: bs_def user_bytes_def)
  have "pipewrite p addr (int n) s = loopk (pipewrite_body p pr addr (int n)) 0 ?e"
    using r(4,6) by (simp add: pipewrite_def kop_simps myproc_eq[OF r(1)] derefk_def acquire_free)
  then have go: "pipewrite p addr (int n) s = loopk (pipewrite_body p pr addr (int n)) (int 0) ?e" by simp
  have cap: "length (pipe_contents (pipes s p)) \<le> PIPESIZE" by (rule pipeq.bounded[OF assms(4)])
  have fit: "0 + min n room \<le> n" "length (pipe_contents (pipes ?e p)) + min n room \<le> PIPESIZE"
    using cap same(2) by (auto simp: room_def min_def)
  obtain t where t: "loopk (pipewrite_body p pr addr (int n)) (int 0) ?e = loopk (pipewrite_body p pr addr (int n)) (int (min n room)) t"
    "writer_at p pr ?pt addr n s t" "pipe_contents (pipes t p) = pipe_contents (pipes s p) @ take (min n room) bs"
    using pipewrite_puts[OF assms(1) e fit] same by (auto simp: bs_def)
  show ?thesis
  proof (cases "n \<le> room")
    case True
    with t pipewrite_ends[OF assms(1) t(2)] go len show ?thesis by (simp add: min_def)
  next
    case False
    then have "length (pipe_contents (pipes t p)) = PIPESIZE" "min n room = room" using t(3) cap len by (auto simp: room_def)
    with False pipewrite_blocks[OF assms(1) t(2), of room] t(1,3) go show ?thesis by auto
  qed
qed

section \<open>piperead\<close>

text \<open>
  The \<open>n\<close> bytes at \<open>addr\<close> are writable, in frames that hold neither the page table nor the kernel
  object at \<open>a\<close> the bytes are copied from.
\<close>

definition user_dst :: "memory \<Rightarrow> u64 \<Rightarrow> u64 \<Rightarrow> nat \<Rightarrow> u64 \<Rightarrow> bool" where
  "user_dst m pt addr n a \<longleftrightarrow> (\<exists>e. pt_wf e m pt) \<and> PGROUNDDOWN a \<notin> pt_pages m pt \<and> a \<noteq> -1 \<and>
     (\<forall>i < n. user_writable m pt (addr + of_nat i) \<and> PTE2PA (pte_of m pt (addr + of_nat i)) \<notin> pt_pages m pt \<and>
        PTE2PA (pte_of m pt (addr + of_nat i)) \<noteq> PGROUNDDOWN a)"

text \<open>Memory after byte \<open>c\<close> went to the \<open>i\<close>-th byte of the user's buffer.\<close>

definition put_user :: "u64 \<Rightarrow> u64 \<Rightarrow> u64 \<Rightarrow> memory \<Rightarrow> nat \<Rightarrow> u8 \<Rightarrow> memory" where
  "put_user pt addr a m i c = m(a := c, user_pa m pt (addr + of_nat i) := c)"

lemma user_dst_upd:
  assumes "user_dst m pt addr n a" "\<And>b. b \<in> pt_pages m pt \<Longrightarrow> same_frame b m' m"
  shows "user_dst m' pt addr n a" "pte_of m' pt va = pte_of m pt va"
proof -
  obtain e where wf: "pt_wf e m pt" using assms(1) by (auto simp: user_dst_def)
  note o = pt_outside[OF wf assms(2)]
  show "user_dst m' pt addr n a" "pte_of m' pt va = pte_of m pt va"
    using assms(1) o by (auto simp: user_dst_def user_writable_def)
qed

lemma same_frame_upd: "PGROUNDDOWN a \<noteq> b \<Longrightarrow> same_frame b (m(a := c)) m"
  by (auto simp: same_frame_def)

lemma store_byte: "store_bytes m a [c] = m(a := c)"
  by (auto simp: store_bytes_def fun_eq_iff unat_eq_zero)

lemma copyout_one:
  fixes s :: "'z proc_st_scheme"
  assumes "user_dst (mem s) pt addr n (kobj s)" "i < n"
  shows "copyout_obj pt (addr + of_nat i) [c] s = Ok 0 (s\<lparr>mem := put_user pt addr (kobj s) (mem s) i c\<rparr>)"
    "user_dst (put_user pt addr (kobj s) (mem s) i c) pt addr n (kobj s)"
    "pte_of (put_user pt addr (kobj s) (mem s) i c) pt va = pte_of (mem s) pt va"
proof -
  let ?a = "kobj s" and ?va = "addr + of_nat i" let ?m1 = "(mem s)(?a := c)" let ?s1 = "s\<lparr>mem := ?m1\<rparr>"
  have d: "user_writable (mem s) pt ?va" "PTE2PA (pte_of (mem s) pt ?va) \<notin> pt_pages (mem s) pt"
    "PTE2PA (pte_of (mem s) pt ?va) \<noteq> PGROUNDDOWN ?a" "PGROUNDDOWN ?a \<notin> pt_pages (mem s) pt" "?a \<noteq> -1"
    using assms by (auto simp: user_dst_def)
  have "same_frame b ?m1 (mem s)" if "b \<in> pt_pages (mem s) pt" for b
    using that d(4) by (intro same_frame_upd) auto
  note u = user_dst_upd[OF assms(1) this]
  obtain e where wf: "pt_wf e ?m1 pt" using u(1) by (auto simp: user_dst_def)
  have w: "user_writable ?m1 pt ?va" using u(1) assms(2) by (auto simp: user_dst_def)
  have sep: "copyout_sep (mem ?s1) pt ?va ?a (unat (1 :: u64))"
    using u(1) assms(2) by (auto simp: copyout_sep_def user_dst_def)
  have fit: "unat ?a + unat (1 :: u64) < 2 ^ 64"
  proof -
    have "unat (-1 :: u64) = 18446744073709551615" by (simp add: unsigned_minus_1_eq_mask mask_eq_exp_minus_1)
    with d(5) have "unat ?a \<noteq> 18446744073709551615" by (metis word_unat_eq_iff)
    with unat_lt_64[of ?a] show ?thesis by (simp del: unat_lt_64)
  qed
  have "copied_out ?m1 pt ?va ?a 1 = put_user pt addr ?a (mem s) i c"
    using u(2) by (simp add: copied_out_def put_user_def user_pa_def)
  moreover obtain t where "copyout pt ?va ?a 1 ?s1 = Ok 0 t" "t = ?s1\<lparr>mem := copied_out ?m1 pt ?va ?a 1\<rparr>"
    using copyout_spec[of e ?s1, OF _ sep fit] wf w by (auto simp: copyout_post_def)
  ultimately show "copyout_obj pt ?va [c] s = Ok 0 (s\<lparr>mem := put_user pt addr ?a (mem s) i c\<rparr>)"
    by (simp add: copyout_obj_def kop_simps store_byte)
  have "same_frame b (put_user pt addr ?a (mem s) i c) (mem s)" if "b \<in> pt_pages (mem s) pt" for b
    unfolding put_user_def using that d(2,4) user_pa_frame[of "mem s" pt ?va]
    by (intro same_frame_trans[OF same_frame_upd same_frame_upd]) auto
  from user_dst_upd[OF assms(1) this] show "user_dst (put_user pt addr ?a (mem s) i c) pt addr n ?a"
    "pte_of (put_user pt addr ?a (mem s) i c) pt va = pte_of (mem s) pt va" by blast+
qed

primrec put_users :: "u64 \<Rightarrow> u64 \<Rightarrow> u64 \<Rightarrow> memory \<Rightarrow> nat \<Rightarrow> u8 list \<Rightarrow> memory" where
  "put_users pt addr a m i [] = m"
| "put_users pt addr a m i (c # cs) = put_users pt addr a (put_user pt addr a m i c) (Suc i) cs"

lemma user_dst_put:
  assumes "user_dst m pt addr n a" "i < n"
  shows "user_dst (put_user pt addr a m i c) pt addr n a" "pte_of (put_user pt addr a m i c) pt va = pte_of m pt va"
proof -
  let ?va = "addr + of_nat i"
  have d: "PTE2PA (pte_of m pt ?va) \<notin> pt_pages m pt" "PGROUNDDOWN a \<notin> pt_pages m pt"
    using assms by (auto simp: user_dst_def)
  have "same_frame b (put_user pt addr a m i c) m" if "b \<in> pt_pages m pt" for b
    unfolding put_user_def using that d user_pa_frame[of m pt ?va]
    by (intro same_frame_trans[OF same_frame_upd same_frame_upd]) auto
  from user_dst_upd[OF assms(1) this] show "user_dst (put_user pt addr a m i c) pt addr n a"
    "pte_of (put_user pt addr a m i c) pt va = pte_of m pt va" by blast+
qed

text \<open>Every byte of the buffer holds what was put there, if the buffer's bytes have distinct addresses.\<close>

lemma put_users_bytes:
  assumes "user_dst m pt addr n a" "i + length cs \<le> n" "inj_on (\<lambda>i. user_pa m pt (addr + of_nat i)) {..<n}"
  shows "pte_of (put_users pt addr a m i cs) pt va = pte_of m pt va"
    "j < length cs \<Longrightarrow> put_users pt addr a m i cs (user_pa m pt (addr + of_nat (i + j))) = cs ! j"
    "j < i \<Longrightarrow> put_users pt addr a m i cs (user_pa m pt (addr + of_nat j)) = m (user_pa m pt (addr + of_nat j))"
  using assms
proof (induction cs arbitrary: m i j)
  case (Cons c cs)
  {
    case 1
    let ?m1 = "put_user pt addr a m i c"
    have i: "i < n" using 1(2) by simp
    note d = user_dst_put[OF 1(1) i, of c]
    have p: "user_pa ?m1 pt x = user_pa m pt x" for x by (simp add: user_pa_def d(2))
    have inj: "inj_on (\<lambda>i. user_pa ?m1 pt (addr + of_nat i)) {..<n}" using 1(3) by (simp add: p)
    show ?case using Cons.IH(1)[OF d(1) _ inj] 1(2) d(2) by simp
  next
    case 2
    let ?m1 = "put_user pt addr a m i c"
    have i: "i < n" using 2(3) by simp
    note d = user_dst_put[OF 2(2) i, of c]
    have p: "user_pa ?m1 pt x = user_pa m pt x" for x by (simp add: user_pa_def d(2))
    have inj: "inj_on (\<lambda>i. user_pa ?m1 pt (addr + of_nat i)) {..<n}" using 2(4) by (simp add: p)
    show ?case
    proof (cases j)
      case 0
      have "put_users pt addr a ?m1 (Suc i) cs (user_pa ?m1 pt (addr + of_nat i)) = ?m1 (user_pa ?m1 pt (addr + of_nat i))"
        using Cons.IH(3)[OF _ d(1) _ inj, of i "Suc i"] 2(3) i by simp
      moreover have "?m1 (user_pa m pt (addr + of_nat i)) = c" by (simp add: put_user_def)
      ultimately show ?thesis using 0 by (simp add: p)
    next
      case (Suc k)
      with Cons.IH(2)[OF _ d(1) _ inj, of k "Suc i"] 2(1,3) i show ?thesis by (simp add: p)
    qed
  next
    case 3
    let ?m1 = "put_user pt addr a m i c"
    have i: "i < n" using 3(3) by simp
    note d = user_dst_put[OF 3(2) i, of c]
    have p: "user_pa ?m1 pt x = user_pa m pt x" for x by (simp add: user_pa_def d(2))
    have inj: "inj_on (\<lambda>i. user_pa ?m1 pt (addr + of_nat i)) {..<n}" using 3(4) by (simp add: p)
    have ne: "user_pa m pt (addr + of_nat j) \<noteq> user_pa m pt (addr + of_nat i)"
      using 3(1,4) i by (auto simp: inj_on_def)
    have "PTE2PA (pte_of m pt (addr + of_nat j)) \<noteq> PGROUNDDOWN a" using 3(1,2) i by (auto simp: user_dst_def)
    then have "user_pa m pt (addr + of_nat j) \<noteq> a" using user_pa_frame by metis
    with ne Cons.IH(3)[OF _ d(1) _ inj, of j "Suc i"] 3(1,3) i show ?case
      by (simp add: p) (simp add: put_user_def)
  }
qed simp_all

text \<open>What holds of the reader \<open>pr\<close> at each test of the copying loop of \<open>piperead\<close>.\<close>

definition reader_at :: "u64 \<Rightarrow> nat \<Rightarrow> u64 \<Rightarrow> u64 \<Rightarrow> nat \<Rightarrow> 'z file_st_scheme \<Rightarrow> 'z file_st_scheme \<Rightarrow> bool" where
  "reader_at p pr pt addr n s t \<longleftrightarrow> in_section (PipeLock p) s t \<and> procs t = procs s \<and>
     p_pagetable (procs s ! pr) = pt \<and> pipe_good (pipes t p) \<and> user_dst (mem t) pt addr n (kobj t)"

text \<open>The state after the reader took byte \<open>c\<close> out of the pipe into the \<open>i\<close>-th byte of its buffer.\<close>

definition took :: "u64 \<Rightarrow> u64 \<Rightarrow> u64 \<Rightarrow> nat \<Rightarrow> 'z file_st_scheme \<Rightarrow> 'z file_st_scheme" where
  "took p pt addr i t = t\<lparr>mem := put_user pt addr (kobj t) (mem t) i (fst (pipe_get (pipes t p))),
     pipes := (pipes t)(p := snd (pipe_get (pipes t p)))\<rparr>"

lemma piperead_takes_one:
  assumes "reader_at p pr pt addr n s t" "i < n" "pipe_contents (pipes t p) \<noteq> []"
  shows "piperead_copy p pr addr (int n) (int i) t = Ok (Inl (int (Suc i))) (took p pt addr i t)"
    "reader_at p pr pt addr n s (took p pt addr i t)"
    "pipe_contents (pipes (took p pt addr i t) p) = tl (pipe_contents (pipes t p))"
    "fst (pipe_get (pipes t p)) = hd (pipe_contents (pipes t p))"
proof -
  have w: "in_section (PipeLock p) s t" "procs t = procs s" "p_pagetable (procs s ! pr) = pt"
    "pipe_good (pipes t p)" "user_dst (mem t) pt addr n (kobj t)" using assms(1) by (auto simp: reader_at_def)
  have ne: "pi_nread (pipes t p) \<noteq> pi_nwrite (pipes t p)" using pipe_empty[of "pipes t p"] assms(3) by auto
  let ?t1 = "t\<lparr>pipes := (pipes t)(p := snd (pipe_get (pipes t p)))\<rparr>"
  have "copyout_obj pt (addr + of_nat i) [fst (pipe_get (pipes t p))] ?t1 =
      Ok 0 (?t1\<lparr>mem := put_user pt addr (kobj t) (mem t) i (fst (pipe_get (pipes t p)))\<rparr>)"
    using copyout_one(1)[of ?t1 pt addr n i] w(5) assms(2) by simp
  then show "piperead_copy p pr addr (int n) (int i) t = Ok (Inl (int (Suc i))) (took p pt addr i t)"
    using assms(2) w(2,3) ne by (simp add: piperead_copy_def kop_simps getpi_def setpi_def getp_def took_def)
  obtain c cs where cs: "pipe_contents (pipes t p) = c # cs" using assms(3) by (cases "pipe_contents (pipes t p)") auto
  note g = pipeq.get_first[OF w(4) cs]
  show "fst (pipe_get (pipes t p)) = hd (pipe_contents (pipes t p))"
    "pipe_contents (pipes (took p pt addr i t) p) = tl (pipe_contents (pipes t p))"
    using g cs by (simp_all add: took_def)
  show "reader_at p pr pt addr n s (took p pt addr i t)"
    using w g user_dst_put(1)[OF w(5) assms(2)] by (simp add: reader_at_def took_def in_section_def)
qed

text \<open>As long as there are bytes, the loop copies byte after byte.\<close>

lemma piperead_takes:
  assumes "reader_at p pr pt addr n s t" "i + k \<le> n" "k \<le> length (pipe_contents (pipes t p))"
  shows "\<exists>t'. loopk (piperead_copy p pr addr (int n)) (int i) t = loopk (piperead_copy p pr addr (int n)) (int (i + k)) t' \<and>
    reader_at p pr pt addr n s t' \<and>
    pipe_contents (pipes t' p) = drop k (pipe_contents (pipes t p)) \<and>
    mem t' = put_users pt addr (kobj t) (mem t) i (take k (pipe_contents (pipes t p))) \<and>
    kobj t' = kobj t \<and> (\<forall>q. q \<noteq> p \<longrightarrow> pipes t' q = pipes t q)"
  using assms
proof (induction k arbitrary: i t)
  case 0
  then show ?case by auto
next
  case (Suc k)
  have ne: "i < n" "pipe_contents (pipes t p) \<noteq> []" using Suc.prems(2,3) by auto
  note one = piperead_takes_one[OF Suc.prems(1) ne]
  have lk: "k \<le> length (tl (pipe_contents (pipes t p)))" using Suc.prems(3) by simp
  let ?t1 = "took p pt addr i t" let ?c = "hd (pipe_contents (pipes t p))"
  obtain t' where t': "loopk (piperead_copy p pr addr (int n)) (int (Suc i)) ?t1 =
      loopk (piperead_copy p pr addr (int n)) (int (Suc i + k)) t'"
    "reader_at p pr pt addr n s t'" "pipe_contents (pipes t' p) = drop k (tl (pipe_contents (pipes t p)))"
    "mem t' = put_users pt addr (kobj t) (mem ?t1) (Suc i) (take k (tl (pipe_contents (pipes t p))))"
    "kobj t' = kobj t" "\<forall>q. q \<noteq> p \<longrightarrow> pipes t' q = pipes t q"
    using Suc.IH[OF one(2), of "Suc i"] lk Suc.prems(2) one(3) by (auto simp: took_def)
  have m1: "mem ?t1 = put_user pt addr (kobj t) (mem t) i ?c" using one(4) by (simp add: took_def)
  obtain c cs where cs: "pipe_contents (pipes t p) = c # cs" using ne(2) by (cases "pipe_contents (pipes t p)") auto
  have "loopk (piperead_copy p pr addr (int n)) (int i) t = loopk (piperead_copy p pr addr (int n)) (int (i + Suc k)) t'"
    using loopk_steps(1)[of "piperead_copy p pr addr (int n)", OF one(1)] t'(1) by simp
  then show ?case using t'(2-) m1 cs by (intro exI[of _ t']) simp
qed

text \<open>The loop stops behind the last byte asked for, or when the pipe is empty.\<close>

lemma piperead_stops:
  assumes "i = n \<or> pipe_contents (pipes t p) = []"
  shows "loopk (piperead_copy p pr addr (int n)) (int i) t = Ok (int i) t"
proof -
  have "piperead_copy p pr addr (int n) (int i) t = Ok (Inr (int i)) t"
    using assms pipe_empty[of "pipes t p"] by (auto simp: piperead_copy_def kop_simps getpi_def)
  then show ?thesis by (rule loopk_steps(2))
qed

text \<open>The user's buffer is the only user memory that changes.\<close>

lemma piperead_spec:
  assumes "pipe_ready p pr s" "pipe_good (pipes s p)"
    "user_dst (mem s) (p_pagetable (procs s ! pr)) addr n (kobj s)"
    "inj_on (\<lambda>i. user_pa (mem s) (p_pagetable (procs s ! pr)) (addr + of_nat i)) {..<n}"
    "pipe_contents (pipes s p) \<noteq> [] \<or> \<not> pi_writeopen (pipes s p)"
  defines "bs \<equiv> take n (pipe_contents (pipes s p))"
  shows "\<exists>t. piperead p addr (int n) s = Ok (int (length bs)) t \<and> locks t = locks s \<and>
      pipe_contents (pipes t p) = drop n (pipe_contents (pipes s p)) \<and>
      (\<forall>j < length bs. mem t (user_pa (mem s) (p_pagetable (procs s ! pr)) (addr + of_nat j)) = bs ! j) \<and>
      procs t = woken (Some (ChPipeWrite p)) (Some pr) NPROC (procs s)"
proof -
  note r = pipe_readyD[OF assms(1)]
  let ?pt = "p_pagetable (procs s ! pr)" let ?e = "entered (PipeLock p) (touch s)"
  let ?cs = "pipe_contents (pipes s p)"
  have e: "reader_at p pr ?pt addr n s ?e"
    using assms(2,3) unfolding entered_touch
    by (simp add: reader_at_def) (simp add: entered_def)
  have same: "mem ?e = mem s" "pipes ?e = pipes s" "kobj ?e = kobj s" by (simp_all add: entered_def)
  have k: "0 + length bs \<le> n" "length bs \<le> length (pipe_contents (pipes ?e p))" by (simp_all add: bs_def same)
  obtain t where t: "loopk (piperead_copy p pr addr (int n)) (int 0) ?e = loopk (piperead_copy p pr addr (int n)) (int (length bs)) t"
    "reader_at p pr ?pt addr n s t" "pipe_contents (pipes t p) = drop (length bs) ?cs"
    "mem t = put_users ?pt addr (kobj s) (mem s) 0 (take (length bs) ?cs)"
    using piperead_takes[OF e k] same by auto
  have tb: "take (length bs) ?cs = bs" "drop (length bs) ?cs = drop n ?cs" by (auto simp: bs_def min_def)
  have "length bs = n \<or> pipe_contents (pipes t p) = []" using t(3) by (auto simp: bs_def)
  note l = t(1) piperead_stops[OF this, of pr addr]
  have w: "in_section (PipeLock p) s t" "procs t = procs s" using t(2) by (auto simp: reader_at_def)
  let ?u = "t\<lparr>procs := woken (Some (ChPipeWrite p)) (Some pr) NPROC (procs s)\<rparr>"
  have wk: "wakeup (Some (ChPipeWrite p)) t = Ok () ?u"
    using in_section_wakeup[OF w(1) r(1,2), of "Some (ChPipeWrite p)"] w(2) r(6,8) by simp
  have rl: "release (PipeLock p) ?u = Ok () (?u\<lparr>sstatus := sstatus s, cpus := cs_cpus s, locks := locks s\<rparr>)"
    using w(1) by (intro in_section_release[OF _ r(4,1)]) (simp add: in_section_def)
  have "piperead p addr (int n) s = piperead_loop p pr addr (int n) ?e"
    using r(4,6) by (simp add: piperead_def kop_simps myproc_eq[OF r(1)] derefk_def acquire_free)
  also have "\<dots> = Ok (int (length bs)) (?u\<lparr>sstatus := sstatus s, cpus := cs_cpus s, locks := locks s\<rparr>)"
    using l wk rl assms(5) same pipe_empty[of "pipes s p"]
    by (auto simp: piperead_loop_def kop_simps getpi_def)
  finally show ?thesis
    using t(3,4) tb put_users_bytes(2)[OF assms(3) _ assms(4), of 0 bs] by (auto simp: bs_def)
qed

text \<open>Reading from an empty pipe that still has a writer: the reader sleeps, the pipe's lock free.\<close>

lemma piperead_blocks:
  assumes "pipe_ready p pr s" "p_killed (procs s ! pr) = 0" "pipe_contents (pipes s p) = []" "pi_writeopen (pipes s p)"
  shows "\<exists>u. piperead p addr n s = Sleeps (Some (ChPipeRead p)) u \<and> pipes u = pipes s \<and> lock_free (PipeLock p) u \<and>
    procs u = (procs s)[pr := asleep (ChPipeRead p) (procs s ! pr)]"
proof -
  note r = pipe_readyD[OF assms(1)]
  let ?e = "entered (PipeLock p) (touch s)"
  have w: "in_section (PipeLock p) s ?e" unfolding entered_touch by simp
  have same: "pipes ?e = pipes s" "procs ?e = procs s" by (simp_all add: entered_def)
  have k: "killed pr ?e = Ok 0 ?e" using in_section_killed[OF w r(1,3)] same(2) assms(2) by simp
  have pr: "pr < length (procs ?e)" using r(7,8) same by simp
  from in_section_sleep[OF w r(5,4,6,3) _ pr, of "ChPipeRead p"] obtain u where
    u: "sleep (ChPipeRead p) (PipeLock p) ?e = (Sleeps (Some (ChPipeRead p)) u :: (_, int, _) res)" "lock_free (PipeLock p) u"
    "u = ?e\<lparr>procs := (procs ?e)[pr := asleep (ChPipeRead p) (procs ?e ! pr)], cpus := cpus u, locks := locks u, sstatus := sstatus u\<rparr>"
    by blast
  have "procs u = (procs ?e)[pr := asleep (ChPipeRead p) (procs ?e ! pr)]" "pipes u = pipes s"
    by (subst u(3), simp add: same)+
  moreover have "piperead p addr n s = Sleeps (Some (ChPipeRead p)) u"
    using r(4,6) assms(3,4) same k u(1) pipe_empty[of "pipes s p"]
    by (simp add: piperead_def piperead_loop_def kop_simps myproc_eq[OF r(1)] derefk_def acquire_free getpi_def)
  ultimately show ?thesis using u(2) same by (intro exI[of _ u]) simp
qed

section \<open>Properties\<close>

text \<open>
  C9: The ring buffer of struct pipe refines a queue. Whatever the counters \<open>nread\<close> and \<open>nwrite\<close>
  are, also when they wrap around at 2^32 in between: on a pipe that holds \<open>ys\<close>, storing the bytes
  \<open>xs\<close> as far as \<open>PIPESIZE\<close> allows and then taking as many bytes as the pipe holds yields \<open>ys @ xs\<close>, in this order, and an empty pipe.
\<close>

theorem pipe_refines_queue:
  assumes "pipe_good q" "length (pipe_contents q) + length xs \<le> PIPESIZE"
  shows "case pipeq.gets (length (pipe_contents q) + length xs) (fold pipe_put xs q) of
    (bs, q') \<Rightarrow> bs = pipe_contents q @ xs \<and> pi_nread q' = pi_nwrite q' \<and> pipe_good q'"
proof -
  have p: "pipe_contents (fold pipe_put xs q) = pipe_contents q @ xs" "pipe_good (fold pipe_put xs q)"
    using pipeq.puts_append[OF assms] by (simp_all add: pipeq.puts_def)
  then show ?thesis
    using pipeq.gets_take[OF p(2), of "length (pipe_contents q) + length xs"]
    by (auto simp: pipe_empty split: prod.split)
qed

definition wrapping_pipe :: pipe where
  "wrapping_pipe = \<lparr>pi_data = replicate PIPESIZE 7, pi_nread = 0xFFFFFFFE, pi_nwrite = 0xFFFFFFFF, pi_readopen = True, pi_writeopen = True\<rparr>"

lemma wrapping_pipe_facts: "pipe_good wrapping_pipe" "pipe_contents wrapping_pipe = [7]"
  by (simp_all add: wrapping_pipe_def pipe_good_def pipe_contents_def ring_ok_def ring_items_def)

theorem pipe_refines_queue_witness:
  "pipe_good wrapping_pipe \<and> fst (pipeq.gets 4 (fold pipe_put [1, 2, 3] wrapping_pipe)) = [7, 1, 2, 3]"
  using pipe_refines_queue[OF wrapping_pipe_facts(1), of "[1, 2, 3]"] wrapping_pipe_facts
  by (auto simp: numeral_eq_Suc split: prod.splits)

text \<open>
  C38: \<open>pipewrite\<close> of \<open>n\<close> readable user bytes to a pipe with an open reader appends them to the
  pipe and returns \<open>n\<close> if there is room. Otherwise it fills the pipe with the first bytes, in
  order, and sleeps on \<open>&pi->nwrite\<close> with the pipe's lock free. Both ways the processes sleeping on
  \<open>&pi->nread\<close> have been made runnable.
\<close>

theorem pipewrite_correct:
  assumes "pipe_ready p pr s" "p_killed (procs s ! pr) = 0" "pi_readopen (pipes s p)" "pipe_good (pipes s p)"
    "user_src (mem s) (p_pagetable (procs s ! pr)) addr n (kloc s)"
  defines "bs \<equiv> user_bytes (mem s) (p_pagetable (procs s ! pr)) addr n"
    and "room \<equiv> PIPESIZE - length (pipe_contents (pipes s p))"
  shows "if n \<le> room
    then \<exists>t. pipewrite p addr (int n) s = Ok (int n) t \<and> locks t = locks s \<and>
      pipe_contents (pipes t p) = pipe_contents (pipes s p) @ bs \<and>
      procs t = woken (Some (ChPipeRead p)) (Some pr) NPROC (procs s)
    else \<exists>t. pipewrite p addr (int n) s = Sleeps (Some (ChPipeWrite p)) t \<and> lock_free (PipeLock p) t \<and>
      pipe_contents (pipes t p) = pipe_contents (pipes s p) @ take room bs \<and>
      procs t = (woken (Some (ChPipeRead p)) (Some pr) NPROC (procs s))[pr := asleep (ChPipeWrite p) (procs s ! pr)]"
  using pipewrite_spec[OF assms(1-5)] unfolding bs_def room_def .

text \<open>Process 0 with one user page, and a pipe at 0x80020000 that holds one byte.\<close>

definition pipe_demo :: file_st where
  "pipe_demo = zero_kernel\<lparr>mem := one_page, procs := (replicate NPROC zero_proc)[0 := zero_proc\<lparr>p_pagetable := 0x80010000\<rparr>],
     pipes := (\<lambda>_. wrapping_pipe)\<rparr>"

lemma pipe_demo_facts:
  "pipe_ready p 0 pipe_demo" "p_pagetable (procs pipe_demo ! 0) = 0x80010000" "p_killed (procs pipe_demo ! 0) = 0"
  "pipes pipe_demo p = wrapping_pipe" "mem pipe_demo = one_page" "kloc pipe_demo = 0x80008800" "kobj pipe_demo = 0x80008000"
  using zero_kernel_sync zero_kernel_data
  by (simp_all add: pipe_demo_def pipe_ready_def all_free_def lock_free_def cpu_defs zero_proc_def)

lemma small_offset: "i < n \<Longrightarrow> n \<le> 4096 \<Longrightarrow> unat ((0x1000 :: u64) + of_nat i - 0x1000) < 4096"
  by (simp add: unat_of_nat_small)

lemma pipe_demo_user: "user_src one_page 0x80010000 0x1000 2 0x80008800" "user_dst one_page 0x80010000 0x1000 2 0x80008000"
  "user_bytes one_page 0x80010000 0x1000 2 = [104, 105]"
proof -
  have f: "PGROUNDDOWN 0x80008800 = 0x80008000" "PGROUNDDOWN 0x80008000 = 0x80008000" by (simp_all add: PGROUNDDOWN_def)
  have u: "unat ((0x1000 :: u64) + of_nat i - 0x1000) < 4096" if "i < 2" for i using small_offset[OF that] by simp
  note o = one_page_pte(1)[OF u] one_page_user[OF u] one_page_pte(3)[of "0x1000"]
  show "user_src one_page 0x80010000 0x1000 2 0x80008800" "user_dst one_page 0x80010000 0x1000 2 0x80008000"
    using one_page_wf o f by (auto simp: user_src_def user_dst_def one_page_pages)
  show "user_bytes one_page 0x80010000 0x1000 2 = [104, 105]"
    using one_page_user(3)[of "0x1000"] one_page_user(3)[of "0x1001"] one_page_bytes
    by (simp add: user_bytes_def user_byte_def numeral_2_eq_2)
qed

theorem pipewrite_correct_witness:
  "\<exists>t. pipewrite 0x80020000 0x1000 2 pipe_demo = Ok 2 t \<and> pipe_contents (pipes t 0x80020000) = [7, 104, 105]"
  using pipewrite_correct[OF pipe_demo_facts(1) pipe_demo_facts(3), of "0x80020000" "0x1000" 2] pipe_demo_user
    pipe_demo_facts(2-) wrapping_pipe_facts by (auto simp: wrapping_pipe_def)

text \<open>
  C39: \<open>piperead\<close> into a writable user buffer of \<open>n\<close> distinct bytes. If the pipe is empty and has
  a writer the reader sleeps on \<open>&pi->nread\<close>, the pipe's lock free and the pipe unchanged. Otherwise it returns the
  number of bytes it took, the smaller of \<open>n\<close> and what is in the pipe (0 at the end of file); they are
  the first bytes of the pipe in order, they are in the user's buffer and no longer in the pipe,
  and the processes sleeping on \<open>&pi->nwrite\<close> have been made runnable.
\<close>

theorem piperead_correct:
  assumes "pipe_ready p pr s" "p_killed (procs s ! pr) = 0" "pipe_good (pipes s p)"
    "user_dst (mem s) (p_pagetable (procs s ! pr)) addr n (kobj s)"
    "inj_on (\<lambda>i. user_pa (mem s) (p_pagetable (procs s ! pr)) (addr + of_nat i)) {..<n}"
  defines "bs \<equiv> take n (pipe_contents (pipes s p))"
  shows "if pipe_contents (pipes s p) = [] \<and> pi_writeopen (pipes s p)
    then \<exists>t. piperead p addr (int n) s = Sleeps (Some (ChPipeRead p)) t \<and> pipes t = pipes s \<and> lock_free (PipeLock p) t \<and>
      procs t = (procs s)[pr := asleep (ChPipeRead p) (procs s ! pr)]
    else \<exists>t. piperead p addr (int n) s = Ok (int (length bs)) t \<and> locks t = locks s \<and>
      pipe_contents (pipes t p) = drop n (pipe_contents (pipes s p)) \<and>
      (\<forall>j < length bs. mem t (user_pa (mem s) (p_pagetable (procs s ! pr)) (addr + of_nat j)) = bs ! j) \<and>
      procs t = woken (Some (ChPipeWrite p)) (Some pr) NPROC (procs s)"
  using piperead_spec[OF assms(1,3-5)] piperead_blocks[OF assms(1,2)] unfolding bs_def by auto

theorem piperead_correct_witness:
  "\<exists>t. piperead 0x80020000 0x1000 2 pipe_demo = Ok 1 t \<and> pipe_contents (pipes t 0x80020000) = [] \<and> mem t 0x80013000 = 7"
proof -
  have "inj_on (\<lambda>i. user_pa one_page 0x80010000 (0x1000 + of_nat i)) {..<2}"
  proof (rule inj_onI)
    fix i j assume ij: "i \<in> {..<2}" "j \<in> {..<2 :: nat}" and
      e: "user_pa one_page 0x80010000 (0x1000 + of_nat i) = user_pa one_page 0x80010000 (0x1000 + of_nat j)"
    have "user_pa one_page 0x80010000 (0x1000 + of_nat k) = 0x80013000 + of_nat k" if "k < 2" for k
      using one_page_user(3)[OF small_offset[OF that]] by simp
    with e ij show "i = j" by (auto simp: numeral_2_eq_2 less_Suc_eq)
  qed
  with piperead_correct[OF pipe_demo_facts(1) pipe_demo_facts(3), of "0x80020000" "0x1000" 2] show ?thesis
    using pipe_demo_facts(2-) wrapping_pipe_facts pipe_demo_user(2) one_page_user(3)[of "0x1000"] by auto
qed

end
