(* ===== verification/Procmem.thy ===== *)
theory Procmem
  imports Procsync
begin

text \<open>
  The memory of a process: its page table with the trampoline and trapframe pages
  (\<open>proc_pagetable\<close>, \<open>proc_freepagetable\<close>), and the slot of the process table around it
  (\<open>allocproc\<close>, \<open>freeproc\<close>). Every page taken on behalf of a process comes back, on the error
  paths too.
\<close>

section \<open>The two pages at the top of an address space\<close>

lemma uvmunmap_keep:
  assumes "pg_aligned a" "a < MAXVA" "pt_own pt fs s" "is_leaf (pte_of (mem s) pt a)"
  shows "\<exists>s'. uvmunmap pt a 1 False s = Ok () s' \<and> kmem_frame s s' \<and> pt_own pt fs s' \<and>
    pt_pages (mem s') pt = pt_pages (mem s) pt \<and> unmapped pt a 1 (mem s) (mem s') \<and>
    (\<forall>b. b \<notin> pt_pages (mem s) pt \<longrightarrow> same_frame b (mem s') (mem s))"
proof -
  have v: "vpn a + 1 \<le> 67108864" using assms(2) by (simp add: vpn_MAXVA)
  have l: "leaf_range (mem s) pt a 1" using assms(4) by (simp add: leaf_range_def)
  show ?thesis
    using uvmunmap_loop[OF assms(1) v assms(3) l, of False] assms(1)
    by (simp add: uvmunmap_def pg_aligned_def)
qed

lemma uvmfree_empty:
  assumes "pt_own pt fs s" "\<And>vb. vb < MAXVA \<Longrightarrow> pte_of (mem s) pt vb = 0"
  shows "\<exists>s' fs'. uvmfree pt 0 s = Ok () s' \<and> tree_freed (pt_pages (mem s) pt) fs s fs' s'"
proof -
  have z: "npg 0 = 0" by (simp add: npg_def)
  show ?thesis
    using uvmfree_spec[OF assms(1), of 0] assms(2) by (simp add: z freeable_def no_mapping)
qed

definition tramp_pte :: "u64 \<Rightarrow> u64" where
  "tramp_pte pa = PA2PTE pa OR (PTE_R OR PTE_X) OR PTE_V"

definition tf_pte :: "u64 \<Rightarrow> u64" where
  "tf_pte pa = PA2PTE pa OR (PTE_R OR PTE_W) OR PTE_V"

text \<open>The address space above user memory: the trampoline, the trapframe, and nothing else.\<close>

definition top_pte :: "u64 \<Rightarrow> u64 \<Rightarrow> u64 \<Rightarrow> u64" where
  "top_pte tr tf va = (if vpn va = 67108863 then tramp_pte tr else if vpn va = 67108862 then tf_pte tf else 0)"

lemma top_leaves: "is_leaf (tramp_pte pa)" "is_leaf (tf_pte pa)"
proof -
  have "PTE_FLAGS (PA2PTE pa OR 11) = 11" "PTE_FLAGS (PA2PTE pa OR 7) = 7"
    by (rule PTE_FLAGS_PA2PTE; simp)+
  then show "is_leaf (tramp_pte pa)" "is_leaf (tf_pte pa)"
    by (auto intro!: is_leaf_flags simp: tramp_pte_def tf_pte_def or.assoc)
qed

lemma top_pages:
  "pg_aligned TRAMPOLINE" "pg_aligned TRAPFRAME" "vpn TRAMPOLINE = 67108863" "vpn TRAPFRAME = 67108862"
  "TRAMPOLINE < MAXVA" "TRAPFRAME < MAXVA"
  by (simp_all add: pg_aligned_def vpn_def)

section \<open>proc\_pagetable\<close>

lemma kmem_frame_proc:
  fixes s :: "'z proc_st_scheme"
  assumes "kmem_frame s s'"
  shows "procs s' = procs s" "nextpid s' = nextpid s" "trampoline_pa s' = trampoline_pa s"
    "forkret_pa s' = forkret_pa s" "kout s' = kout s" "ticks s' = ticks s" "kobj s' = kobj s"
proof -
  have "s' = s\<lparr>mem := mem s', freelist := freelist s', cpus := cpus s'\<rparr>"
    using assms by (simp add: kmem_frame_def)
  then obtain m f c where "s' = s\<lparr>mem := m, freelist := f, cpus := c\<rparr>" by blast
  then show "procs s' = procs s" "nextpid s' = nextpid s" "trampoline_pa s' = trampoline_pa s"
    "forkret_pa s' = forkret_pa s" "kout s' = kout s" "ticks s' = ticks s" "kobj s' = kobj s" by simp_all
qed

text \<open>What \<open>proc_pagetable\<close> delivers: a fresh table over pages of the free list.\<close>

definition new_space :: "u64 \<Rightarrow> u64 \<Rightarrow> u64 \<Rightarrow> u64 list \<Rightarrow> u64 list \<Rightarrow> 'z kmem_st_scheme \<Rightarrow> bool" where
  "new_space pt tr tf fs fs' s \<longleftrightarrow> pt \<noteq> 0 \<and> pt_own pt fs' s \<and> set fs = set fs' \<union> pt_pages (mem s) pt \<and>
     (\<forall>vb < MAXVA. pte_of (mem s) pt vb = top_pte tr tf vb)"

text \<open>
  Such a table has at least its three levels of pages, and the two pages at the top share them
  all.
\<close>

lemma top_pages_path: "va_path TRAPFRAME = va_path TRAMPOLINE"
  by (simp add: va_path_def PX_def PXSHIFT_def)

lemma three_levels:
  assumes "pt_wf e m pt" "pte_of m pt va \<noteq> 0"
  shows "\<exists>A. A \<subseteq> pt_pages m pt \<and> card A = 3"
proof -
  obtain t where t: "pt_node m pt (va_path va) = Some t" using assms(2) pte_of_node by blast
  let ?i = "unat (PX 2 va)" and ?j = "unat (PX 1 va)"
  have v: "va_path va = [?i] @ [?j]" by (simp add: va_path_def)
  obtain u where u: "pt_node m pt [?i] = Some u"
    using t unfolding v pt_node_append by (auto split: option.splits)
  have p: "pt_path []" "pt_path [?i]" using PX_lt by (auto simp: pt_path_def)
  have r: "pt_node m pt [] = Some pt" by simp
  have "pt \<noteq> u" "pt \<noteq> t" "u \<noteq> t"
    using pt_wf_inj[OF assms(1) p(1,2) r] pt_wf_inj[OF assms(1) p(1) pt_path_va r] pt_wf_inj[OF assms(1) p(2) pt_path_va u]
      u t by (auto simp: va_path_def)
  then have c: "card {pt, u, t} = 3" by simp
  have "{pt, u, t} \<subseteq> pt_pages m pt"
    using pt_wfD(4)[OF assms(1) p(1) r] pt_wfD(4)[OF assms(1) p(2) u] pt_wfD(4)[OF assms(1) pt_path_va t] by simp
  with c show ?thesis by blast
qed

lemma new_space_pages:
  assumes "new_space pt tr tf fs fs' s"
  shows "3 \<le> length fs"
proof -
  have "tramp_pte tr \<noteq> 0" using top_leaves(1)[of tr] by (auto simp: is_leaf_def)
  then have "pte_of (mem s) pt TRAMPOLINE \<noteq> 0" "pt_wf (kend s) (mem s) pt" "pt_pages (mem s) pt \<subseteq> set fs"
    using assms top_pages(3,5) by (auto simp: new_space_def top_pte_def pt_own_def)
  then obtain A where "A \<subseteq> set fs" "card A = 3" using three_levels by (meson subset_trans)
  then have "3 \<le> card (set fs)" using card_mono[of "set fs" A] by simp
  then show ?thesis using card_length[of fs] by simp
qed

text \<open>A partly built table is given back whole.\<close>

lemma table_given_back:
  assumes "pt_own pt fs1 s1" "\<And>vb. vb < MAXVA \<Longrightarrow> pte_of (mem s1) pt vb = 0"
    "set fs = set fs1 \<union> pt_pages (mem s1) pt" "kmem_frame s s1"
    "\<And>b. b \<notin> set fs \<Longrightarrow> same_frame b (mem s1) (mem s)"
  shows "\<exists>s' fs'. uvmfree pt 0 s1 = Ok () s' \<and> kmem_pool s' fs' \<and> set fs' = set fs \<and> kmem_frame s s' \<and>
    (\<forall>b. b \<notin> set fs \<longrightarrow> same_frame b (mem s') (mem s))"
proof -
  obtain s' fs' where f: "uvmfree pt 0 s1 = Ok () s'" "tree_freed (pt_pages (mem s1) pt) fs1 s1 fs' s'"
    using uvmfree_empty[OF assms(1,2)] by auto
  have "same_frame b (mem s') (mem s)" if "b \<notin> set fs" for b
    using f(2) assms(3) assms(5)[OF that] that unfolding tree_freed_def by (auto intro: same_frame_trans)
  moreover have "kmem_frame s s'" using f(2) kmem_frame_trans[OF assms(4)] by (simp add: tree_freed_def)
  ultimately show ?thesis using f assms(3) by (auto simp: tree_freed_def)
qed

lemma map_top_page:
  assumes "pg_aligned a" "a < MAXVA" "pt_own pt fs1 s1" "pte_of (mem s1) pt a = 0"
    "set fs = set fs1 \<union> pt_pages (mem s1) pt" "kmem_frame s s1"
    "\<And>b. b \<notin> set fs \<Longrightarrow> same_frame b (mem s1) (mem s)"
  shows "\<exists>r s' fs'. mappages pt a PGSIZE t perm s1 = Ok r s' \<and> (r = 0 \<or> r = -1) \<and> pt_own pt fs' s' \<and>
    set fs = set fs' \<union> pt_pages (mem s') pt \<and> kmem_frame s s' \<and>
    (\<forall>vb < MAXVA. pte_of (mem s') pt vb =
       (if r = 0 \<and> vpn vb = vpn a then PA2PTE t OR perm OR PTE_V else pte_of (mem s1) pt vb)) \<and>
    (\<forall>b. b \<notin> set fs \<longrightarrow> same_frame b (mem s') (mem s)) \<and> (r = -1 \<longrightarrow> length fs1 < 2)"
proof -
  obtain r s' fs' where m: "mappages pt a PGSIZE t perm s1 = Ok r s'" "pt_ext pt fs1 s1 s' fs'"
    "\<forall>vb < MAXVA. pte_of (mem s') pt vb =
       (if r = 0 \<and> vpn vb = vpn a then PA2PTE t OR perm OR PTE_V else pte_of (mem s1) pt vb)"
    "r = 0 \<or> r = -1 \<and> length fs1 < 2"
    using mappages_one[OF assms(1-3), of t perm] assms(4) by auto
  have s: "set fs = set fs' \<union> pt_pages (mem s') pt" using m(2) assms(5) by (auto simp: pt_ext_def)
  have "same_frame b (mem s') (mem s)" if "b \<notin> set fs" for b
    using pt_extD(6)[OF m(2), of b] assms(7)[OF that] that s by (auto intro: same_frame_trans)
  then show ?thesis
    using m s pt_extD(2)[OF m(2)] kmem_frame_trans[OF assms(6) pt_extD(1)[OF m(2)]]
    by (intro exI[of _ r] exI[of _ s'] exI[of _ fs']) auto
qed

lemma proc_pagetable_spec:
  fixes s :: "'z proc_st_scheme"
  assumes "kmem_pool s fs"
  shows "\<exists>r s' fs'. proc_pagetable p s = Ok r s' \<and> kmem_frame s s' \<and>
    (\<forall>b. b \<notin> set fs \<longrightarrow> same_frame b (mem s') (mem s)) \<and>
    (if length fs < 3 then r = 0 \<and> kmem_pool s' fs' \<and> set fs' = set fs
     else new_space r (trampoline_pa s) (p_trapframe (procs s ! p)) fs fs' s')"
proof (cases fs)
  case Nil
  then show ?thesis using uvmcreate_spec[OF assms] by (fastforce simp: proc_pagetable_def kop_simps)
next
  case (Cons pt ts)
  let ?tf = "p_trapframe (procs s ! p)"
  have nz: "pt \<noteq> 0" using assms Cons pages.pool_pages by fastforce
  obtain s1 where s1: "uvmcreate s = Ok pt s1" "pt_own pt ts s1" "pt_pages (mem s1) pt = {pt}"
    "kmem_frame s s1" "\<And>va. pte_of (mem s1) pt va = 0" "\<And>b. b \<noteq> pt \<Longrightarrow> same_frame b (mem s1) (mem s)"
    using uvmcreate_spec[OF assms] Cons by auto
  have f1: "set fs = set ts \<union> pt_pages (mem s1) pt" "\<And>b. b \<notin> set fs \<Longrightarrow> same_frame b (mem s1) (mem s)"
    using s1(3,6) Cons by auto
  obtain r2 s2 fs2 where s2: "mappages pt TRAMPOLINE PGSIZE (trampoline_pa s) (PTE_R OR PTE_X) s1 = Ok r2 s2"
    "r2 = 0 \<or> r2 = -1" "pt_own pt fs2 s2" "set fs = set fs2 \<union> pt_pages (mem s2) pt" "kmem_frame s s2"
    "\<And>vb. vb < MAXVA \<Longrightarrow> pte_of (mem s2) pt vb = (if r2 = 0 \<and> vpn vb = 67108863 then tramp_pte (trampoline_pa s) else 0)"
    "\<And>b. b \<notin> set fs \<Longrightarrow> same_frame b (mem s2) (mem s)" "r2 = -1 \<Longrightarrow> length ts < 2"
    using map_top_page[OF top_pages(1,5) s1(2,5) f1(1) s1(4) f1(2), of "trampoline_pa s" "PTE_R OR PTE_X"]
    unfolding s1(5) top_pages(3) tramp_pte_def by auto
  note run1 = proc_pagetable_def kop_simps s1(1) nz kmem_frame_proc(3)[OF s1(4)] s2(1)[simplified]
  show ?thesis
  proof (cases "r2 = 0")
    case False
    with s2(2,6) have r2: "r2 = -1" and z: "\<And>vb. vb < MAXVA \<Longrightarrow> pte_of (mem s2) pt vb = 0" by auto
    obtain s' fs' where "uvmfree pt 0 s2 = Ok () s'" "kmem_pool s' fs'" "set fs' = set fs" "kmem_frame s s'"
      "\<forall>b. b \<notin> set fs \<longrightarrow> same_frame b (mem s') (mem s)"
      using table_given_back[OF s2(3) z s2(4,5)] s2(7) by auto
    with s2(8)[OF r2] Cons show ?thesis by (intro exI[of _ 0] exI[of _ s'] exI[of _ fs']) (simp add: run1 r2)
  next
    case True
    note p2 = s2(6)[unfolded simp_thms True]
    have "pte_of (mem s2) pt TRAPFRAME = 0" using p2[OF top_pages(6)] by (simp add: top_pages(4))
    from map_top_page[OF top_pages(2,6) s2(3) this s2(4,5,7), of ?tf "PTE_R OR PTE_W"]
    obtain r3 s3 fs3 where s3: "mappages pt TRAPFRAME PGSIZE ?tf (PTE_R OR PTE_W) s2 = Ok r3 s3"
      "r3 = 0 \<or> r3 = -1" "pt_own pt fs3 s3" "set fs = set fs3 \<union> pt_pages (mem s3) pt" "kmem_frame s s3"
      "\<And>vb. vb < MAXVA \<Longrightarrow> pte_of (mem s3) pt vb = (if r3 = 0 \<and> vpn vb = 67108862 then tf_pte ?tf
         else if vpn vb = 67108863 then tramp_pte (trampoline_pa s) else 0)"
      "\<And>b. b \<notin> set fs \<Longrightarrow> same_frame b (mem s3) (mem s)"
      unfolding top_pages(4) tf_pte_def[symmetric] using p2 by auto
    note run2 = run1 True getp_def kmem_frame_proc(1)[OF s2(5)] s3(1)[simplified]
    have r3: "r3 = 0"
    proof -
      have "pte_of (mem s2) pt TRAMPOLINE \<noteq> 0"
        using p2[OF top_pages(5)] top_leaves(1)[of "trampoline_pa s"] by (auto simp: top_pages(3) is_leaf_def)
      then obtain n where "pt_node (mem s2) pt (va_path TRAPFRAME) = Some n"
        unfolding top_pages_path using pte_of_node by blast
      moreover have "pt_wf (kend s2) (mem s2) pt" using s2(3) by (simp add: pt_own_def)
      ultimately show ?thesis using mappages_hit[OF _ top_pages(6) _ s3(1)] by blast
    qed
    then have "new_space pt (trampoline_pa s) ?tf fs fs3 s3"
      using nz s3 by (auto simp: new_space_def top_pte_def)
    with r3 s3(5,7) new_space_pages show ?thesis
      by (intro exI[of _ pt] exI[of _ s3] exI[of _ fs3]) (fastforce simp: run2)
  qed
qed

section \<open>proc\_freepagetable\<close>

text \<open>The address space of a process with \<open>sz\<close> bytes of user memory.\<close>

definition user_space :: "u64 \<Rightarrow> u64 \<Rightarrow> u64 \<Rightarrow> u64 \<Rightarrow> u64 list \<Rightarrow> 'z kmem_st_scheme \<Rightarrow> bool" where
  "user_space pt tr tf sz fs s \<longleftrightarrow> pt_own pt fs s \<and> unat sz \<le> unat TRAPFRAME \<and> freeable pt fs s 0 (npg sz) \<and>
     (\<forall>vb < MAXVA. npg sz \<le> vpn vb \<longrightarrow> pte_of (mem s) pt vb = top_pte tr tf vb)"

abbreviation space_pages :: "'z machine_scheme \<Rightarrow> u64 \<Rightarrow> u64 \<Rightarrow> u64 set" where
  "space_pages s pt sz \<equiv> pt_pages (mem s) pt \<union> set (range_frames (mem s) pt 0 (npg sz))"

lemma new_space_user: "new_space pt tr tf fs fs' s \<Longrightarrow> user_space pt tr tf 0 fs' s"
  by (simp add: new_space_def user_space_def npg_def freeable_def no_mapping)

lemma freeable_cong:
  assumes "freeable pt fs s a n" "pg_aligned a" "vpn a + n \<le> 67108864" "kend s' = kend s"
    "pt_pages (mem s') pt = pt_pages (mem s) pt"
    "\<And>vb. \<lbrakk>vb < MAXVA; vpn a \<le> vpn vb; vpn vb < vpn a + n\<rbrakk> \<Longrightarrow> pte_of (mem s') pt vb = pte_of (mem s) pt vb"
  shows "freeable pt fs s' a n" "range_frames (mem s') pt a n = range_frames (mem s) pt a n"
  using assms range_cong[OF assms(2,3), of "mem s'" pt "mem s"] by (simp_all add: freeable_def)

lemma proc_freepagetable_spec:
  assumes "user_space pt tr tf sz fs s"
  shows "\<exists>s' fs'. proc_freepagetable pt sz s = Ok () s' \<and> tree_freed (space_pages s pt sz) fs s fs' s'"
proof -
  have own: "pt_own pt fs s" and sz: "unat sz \<le> 274877898752" and fr: "freeable pt fs s 0 (npg sz)"
    and top: "\<And>vb. \<lbrakk>vb < MAXVA; npg sz \<le> vpn vb\<rbrakk> \<Longrightarrow> pte_of (mem s) pt vb = top_pte tr tf vb"
    using assms by (auto simp: user_space_def)
  have n: "npg sz \<le> 67108862" using sz by (simp add: npg_def)
  have z: "pg_aligned 0" "vpn 0 = 0" by (simp_all add: pg_aligned_def vpn_def)
  have "is_leaf (pte_of (mem s) pt TRAMPOLINE)"
    using top[OF top_pages(5)] n top_leaves by (simp add: top_pages top_pte_def)
  from uvmunmap_keep[OF top_pages(1,5) own this] obtain s1 where
    s1: "uvmunmap pt TRAMPOLINE 1 False s = Ok () s1" "kmem_frame s s1" "pt_own pt fs s1"
    "pt_pages (mem s1) pt = pt_pages (mem s) pt" "unmapped pt TRAMPOLINE 1 (mem s) (mem s1)"
    "\<And>b. b \<notin> pt_pages (mem s) pt \<Longrightarrow> same_frame b (mem s1) (mem s)" by blast
  have p1: "pte_of (mem s1) pt vb = (if vpn vb = 67108863 then 0 else pte_of (mem s) pt vb)" if "vb < MAXVA" for vb
    using s1(5) that by (auto simp: unmapped_def top_pages(3))
  have "is_leaf (pte_of (mem s1) pt TRAPFRAME)"
    using p1[OF top_pages(6)] top[OF top_pages(6)] n top_leaves by (simp add: top_pages top_pte_def)
  from uvmunmap_keep[OF top_pages(2,6) s1(3) this] obtain s2 where
    s2: "uvmunmap pt TRAPFRAME 1 False s1 = Ok () s2" "kmem_frame s1 s2" "pt_own pt fs s2"
    "pt_pages (mem s2) pt = pt_pages (mem s) pt" "unmapped pt TRAPFRAME 1 (mem s1) (mem s2)"
    "\<And>b. b \<notin> pt_pages (mem s) pt \<Longrightarrow> same_frame b (mem s2) (mem s1)" using s1(4) by auto
  have p2: "pte_of (mem s2) pt vb = (if vpn vb \<in> {67108862, 67108863} then 0 else pte_of (mem s) pt vb)"
    if "vb < MAXVA" for vb
    using s2(5) p1[OF that] that by (auto simp: unmapped_def top_pages(4))
  have k: "kmem_frame s s2" by (rule kmem_frame_trans[OF s1(2) s2(2)])
  have r: "range_frames (mem s2) pt 0 (npg sz) = range_frames (mem s) pt 0 (npg sz)" "freeable pt fs s2 0 (npg sz)"
    using freeable_cong[OF fr z(1) _ kmem_frameD(4)[OF k] s2(4)] p2 n z(2) by auto
  have "pte_of (mem s2) pt vb AND PTE_V = 0" if "vb < MAXVA" "npg sz \<le> vpn vb" for vb
    using p2[OF that(1)] top[OF that] by (auto simp: top_pte_def)
  from uvmfree_spec[OF s2(3) _ r(2) this] obtain s3 fs3 where s3: "uvmfree pt sz s2 = Ok () s3"
    "tree_freed (space_pages s pt sz) fs s2 fs3 s3" using sz unfolding r(1) s2(4) by auto
  have "same_frame b (mem s3) (mem s)" if "b \<notin> space_pages s pt sz" for b
    using that s3(2) s1(6)[of b] s2(6)[of b] unfolding tree_freed_def by (auto intro: same_frame_trans)
  then have "tree_freed (space_pages s pt sz) fs s fs3 s3"
    using s3(2) kmem_frame_trans[OF k] by (auto simp: tree_freed_def)
  moreover have "proc_freepagetable pt sz s = Ok () s3"
    using s1(1) s2(1) s3(1) by (simp add: proc_freepagetable_def kop_simps)
  ultimately show ?thesis by blast
qed

section \<open>freeproc\<close>

lemma pool_procs [simp]:
  fixes s :: "'z proc_st_scheme"
  shows "kmem_pool (s\<lparr>procs := ps\<rparr>) fs \<longleftrightarrow> kmem_pool s fs"
    "pt_own pt fs (s\<lparr>procs := ps\<rparr>) \<longleftrightarrow> pt_own pt fs s"
    "user_space pt tr tf sz fs (s\<lparr>procs := ps\<rparr>) \<longleftrightarrow> user_space pt tr tf sz fs s"
    "new_space pt tr tf fs fs' (s\<lparr>procs := ps\<rparr>) \<longleftrightarrow> new_space pt tr tf fs fs' s"
  by (simp_all add: kmem_pool_def kmem_ready_def kmem_inv_def pt_own_def user_space_def freeable_def
      new_space_def)

lemma kmem_frame_swap:
  fixes s :: "'z proc_st_scheme"
  assumes "kmem_frame (s\<lparr>procs := ps\<rparr>) s'"
  shows "kmem_frame (s\<lparr>procs := qs\<rparr>) (s'\<lparr>procs := qs\<rparr>)"
proof -
  from assms have e: "s' = s\<lparr>procs := ps, mem := mem s', freelist := freelist s', cpus := cpus s'\<rparr>"
    and c: "cpus s' = cpus s \<or> cpus s' = cs_cpus s"
    by (simp_all add: kmem_frame_def)
  then obtain m f c where "s' = s\<lparr>procs := ps, mem := m, freelist := f, cpus := c\<rparr>" "c = cpus s \<or> c = cs_cpus s"
    by blast
  then show ?thesis by (auto simp: kmem_frame_def)
qed

text \<open>A slot as \<open>freeproc\<close> leaves it.\<close>

definition cleared :: "proc \<Rightarrow> proc" where
  "cleared q = q\<lparr>p_trapframe := 0, p_pagetable := 0, p_sz := 0, p_pid := 0, p_parent := None, p_name := [],
     p_chan := None, p_killed := 0, p_xstate := 0, p_state := UNUSED\<rparr>"

text \<open>The pages a process holds, and that they are its own.\<close>

definition proc_pages :: "'z proc_st_scheme \<Rightarrow> nat \<Rightarrow> u64 set" where
  "proc_pages s p = (let q = procs s ! p in
     (if p_trapframe q = 0 then {} else {p_trapframe q}) \<union>
     (if p_pagetable q = 0 then {} else space_pages s (p_pagetable q) (p_sz q)))"

definition proc_owns :: "'z proc_st_scheme \<Rightarrow> u64 list \<Rightarrow> nat \<Rightarrow> bool" where
  "proc_owns s fs p \<longleftrightarrow> (let q = procs s ! p; tf = p_trapframe q; pt = p_pagetable q in
     (tf = 0 \<or> ram_page (kend s) tf \<and> tf \<notin> set fs \<and> (pt = 0 \<or> tf \<notin> space_pages s pt (p_sz q))) \<and>
     (pt = 0 \<or> (\<exists>tr tf'. user_space pt tr tf' (p_sz q) fs s)))"

lemma user_space_free:
  assumes "user_space pt tr tf' sz fs s" "ram_page (kend s) tf" "tf \<notin> space_pages s pt sz \<union> set fs"
  shows "\<exists>s'. kfree tf s = Ok () s' \<and> user_space pt tr tf' sz (tf # fs) s' \<and> kmem_frame s s' \<and>
    space_pages s' pt sz = space_pages s pt sz \<and> (\<forall>b. b \<noteq> tf \<longrightarrow> same_frame b (mem s') (mem s))"
proof -
  have own: "pt_own pt fs s" using assms(1) by (simp add: user_space_def)
  then obtain s' where s': "kfree tf s = Ok () s'" "pt_own pt (tf # fs) s'" "pt_same pt s s'"
    "\<And>b. b \<noteq> tf \<Longrightarrow> same_frame b (mem s') (mem s)" using pt_own_free[OF _ assms(2), of pt fs] assms(3) by blast
  note d = pt_sameD[OF s'(3)]
  have n: "vpn 0 + npg sz \<le> 67108864" using assms(1) by (auto simp: user_space_def npg_def vpn_def)
  have "freeable pt fs s 0 (npg sz)" using assms(1) by (simp add: user_space_def)
  note f = freeable_cong[OF this _ n d(4,2,3)]
  have "user_space pt tr tf' sz (tf # fs) s'"
    using assms(1,3) s'(2) d f by (auto simp: user_space_def freeable_def pg_aligned_def)
  with s' d f(2) show ?thesis by (auto simp: pg_aligned_def)
qed

lemma freeproc_trapframe:
  assumes "kmem_pool s fs" "proc_owns s fs p"
  shows "\<exists>s' fs'. whenk (p_trapframe (procs s ! p) \<noteq> 0) (kfree (p_trapframe (procs s ! p))) s = Ok () s' \<and>
    kmem_frame s s' \<and> kmem_pool s' fs' \<and>
    set fs' = set fs \<union> (if p_trapframe (procs s ! p) = 0 then {} else {p_trapframe (procs s ! p)}) \<and>
    (p_pagetable (procs s ! p) \<noteq> 0 \<longrightarrow> (\<exists>tr tf. user_space (p_pagetable (procs s ! p)) tr tf (p_sz (procs s ! p)) fs' s') \<and>
       space_pages s' (p_pagetable (procs s ! p)) (p_sz (procs s ! p)) =
       space_pages s (p_pagetable (procs s ! p)) (p_sz (procs s ! p))) \<and>
    (\<forall>b. b \<noteq> p_trapframe (procs s ! p) \<longrightarrow> same_frame b (mem s') (mem s))"
proof -
  let ?tf = "p_trapframe (procs s ! p)" and ?pt = "p_pagetable (procs s ! p)" and ?sz = "p_sz (procs s ! p)"
  consider "?tf = 0" | "?tf \<noteq> 0" "?pt = 0" | "?tf \<noteq> 0" "?pt \<noteq> 0" by blast
  then show ?thesis
  proof cases
    case 1
    then show ?thesis
      using assms by (intro exI[of _ s] exI[of _ fs]) (auto simp: kop_simps proc_owns_def Let_def)
  next
    case 2
    then have "ram_page (kend s) ?tf" "?tf \<notin> set fs" using assms(2) by (auto simp: proc_owns_def Let_def)
    from pages.free_push[OF assms(1) this] obtain s' where "kfree ?tf s = Ok () s'"
      "kmem_pool s' (?tf # fs)" "kmem_keeps {?tf} s s'" by blast
    with 2 show ?thesis by (intro exI[of _ s'] exI[of _ "?tf # fs"]) (auto simp: kop_simps kmem_keeps_def)
  next
    case 3
    then obtain tr tf' where "user_space ?pt tr tf' ?sz fs s" "ram_page (kend s) ?tf"
      "?tf \<notin> space_pages s ?pt ?sz \<union> set fs"
      using assms(2) by (auto simp: proc_owns_def Let_def)
    from user_space_free[OF this] obtain s' where s': "kfree ?tf s = Ok () s'"
      "user_space ?pt tr tf' ?sz (?tf # fs) s'" "kmem_frame s s'" "space_pages s' ?pt ?sz = space_pages s ?pt ?sz"
      "\<forall>b. b \<noteq> ?tf \<longrightarrow> same_frame b (mem s') (mem s)" by blast
    have "kmem_pool s' (?tf # fs)" using s'(2) by (simp add: user_space_def pt_own_def)
    with 3 s' show ?thesis by (intro exI[of _ s'] exI[of _ "?tf # fs"]) (auto simp: kop_simps)
  qed
qed

lemma freeproc_spec:
  assumes "kmem_pool s fs" "proc_owns s fs p" "p < length (procs s)"
  shows "\<exists>s' fs' s0. freeproc p s = Ok () s' \<and> kmem_frame s s0 \<and>
    s' = s0\<lparr>procs := (procs s)[p := cleared (procs s ! p)]\<rparr> \<and> kmem_pool s' fs' \<and>
    set fs' = set fs \<union> proc_pages s p \<and> (\<forall>b. b \<notin> proc_pages s p \<longrightarrow> same_frame b (mem s') (mem s))"
proof -
  let ?q = "procs s ! p" let ?tf = "p_trapframe ?q" and ?pt = "p_pagetable ?q" and ?sz = "p_sz ?q"
  obtain s1 fs1 where s1: "whenk (?tf \<noteq> 0) (kfree ?tf) s = Ok () s1" "kmem_frame s s1" "kmem_pool s1 fs1"
    "set fs1 = set fs \<union> (if ?tf = 0 then {} else {?tf})" "\<And>b. b \<noteq> ?tf \<Longrightarrow> same_frame b (mem s1) (mem s)"
    and us: "?pt \<noteq> 0 \<Longrightarrow> \<exists>tr tf. user_space ?pt tr tf ?sz fs1 s1"
    "?pt \<noteq> 0 \<Longrightarrow> space_pages s1 ?pt ?sz = space_pages s ?pt ?sz"
    using freeproc_trapframe[OF assms(1,2)] by blast
  have p1: "procs s1 = procs s" by (rule kmem_frame_proc(1)[OF s1(2)])
  let ?u = "s1\<lparr>procs := (procs s)[p := ?q\<lparr>p_trapframe := 0\<rparr>]\<rparr>"
  have "\<exists>s2 fs2. whenk (?pt \<noteq> 0) (proc_freepagetable ?pt ?sz) ?u = Ok () s2 \<and> kmem_frame ?u s2 \<and> kmem_pool s2 fs2 \<and>
      set fs2 = set fs1 \<union> (if ?pt = 0 then {} else space_pages s ?pt ?sz) \<and>
      (\<forall>b. b \<notin> (if ?pt = 0 then {} else space_pages s ?pt ?sz) \<longrightarrow> same_frame b (mem s2) (mem ?u))"
  proof (cases "?pt = 0")
    case True
    then show ?thesis using s1(3) by (intro exI[of _ ?u] exI[of _ fs1]) (simp add: kop_simps)
  next
    case False
    with us(1) obtain tr tf where "user_space ?pt tr tf ?sz fs1 ?u" by auto
    from proc_freepagetable_spec[OF this] obtain s2 fs2 where "proc_freepagetable ?pt ?sz ?u = Ok () s2"
      "tree_freed (space_pages ?u ?pt ?sz) fs1 ?u fs2 s2" by blast
    with False us(2) show ?thesis
      by (intro exI[of _ s2] exI[of _ fs2]) (simp add: kop_simps tree_freed_def)
  qed
  then obtain s2 fs2 where s2: "whenk (?pt \<noteq> 0) (proc_freepagetable ?pt ?sz) ?u = Ok () s2" "kmem_frame ?u s2"
    "kmem_pool s2 fs2" "set fs2 = set fs1 \<union> (if ?pt = 0 then {} else space_pages s ?pt ?sz)"
    "\<And>b. b \<notin> (if ?pt = 0 then {} else space_pages s ?pt ?sz) \<Longrightarrow> same_frame b (mem s2) (mem ?u)" by blast
  let ?s0 = "s2\<lparr>procs := procs s\<rparr>" and ?s' = "s2\<lparr>procs := (procs s)[p := cleared ?q]\<rparr>"
  have k: "kmem_frame s ?s0"
  proof -
    have "kmem_frame s1 ?s0" using kmem_frame_swap[OF s2(2), of "procs s1"] unfolding p1[symmetric] by simp
    with s1(2) show ?thesis by (rule kmem_frame_trans)
  qed
  have "freeproc p s = Ok () ?s'"
  proof -
    have q: "procs s2 = (procs s)[p := ?q\<lparr>p_trapframe := 0\<rparr>]" using kmem_frame_proc(1)[OF s2(2)] by simp
    then show ?thesis
      using s1(1) s2(1) p1 assms(3)
      by (simp add: freeproc_def getp_def setp_def upd_proc_def kop_simps cleared_def)
  qed
  moreover have "same_frame b (mem ?s') (mem s)" if "b \<notin> proc_pages s p" for b
    using that s2(5)[of b] s1(1) s1(5)[of b]
    by (cases "?tf = 0") (auto simp: proc_pages_def Let_def kop_simps intro: same_frame_trans split: if_splits)
  ultimately show ?thesis
    using k s2(3,4) s1(4) by (intro exI[of _ ?s'] exI[of _ fs2] exI[of _ ?s0]) (auto simp: proc_pages_def Let_def)
qed

section \<open>allocproc\<close>

lemma allocproc_scan_hit:
  assumes "all_free s" "p < NPROC" "p_state (procs s ! p) = UNUSED"
  shows "allocproc_scan p s = Ok (Inr (Some p)) (entered (ProcLock p) s)"
  using assms by (simp add: allocproc_scan_def kop_simps acquire_free all_free_def getp_def)

lemma allocproc_scan_next:
  assumes "intr_ok s" "all_free s" "p < NPROC" "p_state (procs s ! p) \<noteq> UNUSED"
  shows "allocproc_scan p s = Ok (Inl (p + 1)) (touch s)"
  using assms by (simp add: allocproc_scan_def kop_simps acquire_free all_free_def getp_def leave_entered)

lemma allocproc_scan_end: "allocproc_scan NPROC s = Ok (Inr None) s"
  by (simp add: allocproc_scan_def kop_simps)

lemma allocproc_loop_hit:
  assumes "intr_ok s" "all_free s" "i < NPROC" "p_state (procs s ! i) = UNUSED"
    "\<And>j. j < i \<Longrightarrow> p_state (procs s ! j) \<noteq> UNUSED" "p \<le> i"
  shows "loopk allocproc_scan p s = Ok (Some i) (entered (ProcLock i) s)"
  using assms
proof (induction "i - p" arbitrary: p s)
  case 0
  then have "p = i" by simp
  with 0 allocproc_scan_hit[of s i] show ?case by (simp add: loopk_steps(2))
next
  case (Suc k)
  then have "allocproc_scan p s = Ok (Inl (p + 1)) (touch s)" by (intro allocproc_scan_next) auto
  then have "loopk allocproc_scan p s = loopk allocproc_scan (p + 1) (touch s)" by (rule loopk_steps(1))
  also have "\<dots> = Ok (Some i) (entered (ProcLock i) (touch s))"
    using Suc.hyps(1)[of "p + 1" "touch s"] Suc.hyps(2) Suc.prems by (simp add: intr_ok_touch)
  finally show ?case by (simp add: entered_touch)
qed

lemma allocproc_loop_miss:
  assumes "intr_ok s" "all_free s" "\<And>j. j < NPROC \<Longrightarrow> p_state (procs s ! j) \<noteq> UNUSED" "p < NPROC"
  shows "loopk allocproc_scan p s = Ok None (touch s)"
  using assms
proof (induction "NPROC - p" arbitrary: p s)
  case 0
  then show ?case by simp
next
  case (Suc k)
  then have n: "allocproc_scan p s = Ok (Inl (p + 1)) (touch s)" by (intro allocproc_scan_next) auto
  show ?case
  proof (cases "p + 1 = NPROC")
    case True
    with loopk_steps(1)[where body = allocproc_scan, OF n]
      loopk_steps(2)[where body = allocproc_scan, OF allocproc_scan_end] show ?thesis by simp
  next
    case False
    with Suc loopk_steps(1)[where body = allocproc_scan, OF n] Suc.hyps(1)[of "p + 1" "touch s"] show ?thesis
      by (simp add: intr_ok_touch cs_cpus_idem)
  qed
qed

lemma allocpid_held:
  assumes "intr_ok s" "lock_free PidLock s" "cs_cpus s = cpus s"
  shows "allocpid s = Ok (nextpid s) (s\<lparr>nextpid := nextpid s + 1\<rparr>)"
proof -
  let ?e = "entered PidLock s"
  have "release PidLock (?e\<lparr>nextpid := nextpid s + 1\<rparr>) =
      Ok () (?e\<lparr>nextpid := nextpid s + 1, sstatus := sstatus s, cpus := cs_cpus s, locks := locks s\<rparr>)"
    using release_entered[OF assms(2,1), of "?e\<lparr>nextpid := nextpid s + 1\<rparr>"] by simp
  also have "?e\<lparr>nextpid := nextpid s + 1, sstatus := sstatus s, cpus := cs_cpus s, locks := locks s\<rparr> =
      s\<lparr>nextpid := nextpid s + 1\<rparr>"
    using assms(3) by (simp add: entered_def)
  finally have r: "release PidLock (?e\<lparr>nextpid := nextpid s + 1\<rparr>) = Ok () (s\<lparr>nextpid := nextpid s + 1\<rparr>)" .
  have "nextpid ?e = nextpid s" by (simp add: entered_def)
  then show ?thesis by (simp add: allocpid_def kop_simps acquire_free[OF assms(2)] r)
qed

text \<open>A thread inside a critical section: \<open>kalloc\<close> and \<open>kfree\<close> leave the hart as it was.\<close>

lemma kmem_frame_held:
  assumes "kmem_frame s t" "cs_cpus s = cpus s"
  shows "tp t = tp s" "sstatus t = sstatus s" "cpus t = cpus s" "locks t = locks s" "cs_cpus t = cpus t"
proof -
  note d = kmem_frameD[OF assms(1)]
  show e: "tp t = tp s" "sstatus t = sstatus s" "cpus t = cpus s" "locks t = locks s"
    using d assms(2) by auto
  show "cs_cpus t = cpus t" using cs_cpus_cong[OF e(1-3)] e(3) assms(2) by simp
qed

text \<open>The slot a new process gets.\<close>

definition new_proc :: "int \<Rightarrow> u64 \<Rightarrow> u64 \<Rightarrow> u64 \<Rightarrow> proc \<Rightarrow> proc" where
  "new_proc pid tf pt forkret q = q\<lparr>p_pid := pid, p_state := USED, p_trapframe := tf, p_pagetable := pt,
     p_context := zero_context\<lparr>ctx_ra := forkret, ctx_sp := p_kstack q + PGSIZE\<rparr>\<rparr>"

lemma pool_ext [simp]:
  fixes s :: "'z proc_st_scheme"
  shows "kmem_pool (s\<lparr>nextpid := n\<rparr>) fs \<longleftrightarrow> kmem_pool s fs"
    "proc_owns (s\<lparr>nextpid := n\<rparr>) fs p \<longleftrightarrow> proc_owns s fs p"
  by (simp_all add: kmem_pool_def kmem_ready_def kmem_inv_def pt_own_def user_space_def freeable_def
      new_space_def proc_owns_def lock_free_def intr_ok_def cpu_defs)

lemma pool_entered: "l \<noteq> KmemLock \<Longrightarrow> kmem_pool s fs \<Longrightarrow> kmem_pool (entered l s) fs"
  by (simp add: kmem_pool_def kmem_ready_def kmem_inv_def lock_free_entered intr_ok_entered)
    (simp add: entered_def)

text \<open>The error exits of \<open>allocproc\<close>: the slot is cleared, its page comes back, the lock is released.\<close>

lemma allocproc_fail_spec:
  fixes s t :: "'z proc_st_scheme"
  assumes "lock_free (ProcLock p) s" "intr_ok s" "p < length (procs t)"
    "tp t = tp s" "sstatus t = sstatus (entered (ProcLock p) s)" "cpus t = cpus (entered (ProcLock p) s)"
    "locks t = locks (entered (ProcLock p) s)"
    and "kmem_pool t fs" "proc_owns t fs p"
  shows "\<exists>u fs'. allocproc_fail p t = Ok None u \<and> kmem_pool u fs' \<and> set fs' = set fs \<union> proc_pages t p \<and>
    procs u = (procs t)[p := cleared (procs t ! p)] \<and> nextpid u = nextpid t \<and> locks u = locks s \<and>
    sstatus u = sstatus s \<and> cpus u = cs_cpus s \<and> tp u = tp s"
proof -
  have c: "cs_cpus t = cpus t"
    using cs_cpus_cong[of t "entered (ProcLock p) s"] cs_cpus_entered[OF assms(2)] assms(4-6) by simp
  obtain t' fs' t0 where f: "freeproc p t = Ok () t'" "kmem_frame t t0"
    "t' = t0\<lparr>procs := (procs t)[p := cleared (procs t ! p)]\<rparr>" "kmem_pool t' fs'" "set fs' = set fs \<union> proc_pages t p"
    using freeproc_spec[OF assms(8,9,3)] by blast
  note k = kmem_frame_held[OF f(2) c]
  let ?u = "t'\<lparr>sstatus := sstatus s, cpus := cs_cpus s, locks := locks s\<rparr>"
  have r: "release (ProcLock p) t' = Ok () ?u"
    by (rule release_entered[OF assms(1,2)]) (use k f(3) assms(4-7) in simp_all)
  have "kmem_pool ?u fs'"
    using f(4) assms(1,2,4-7) k f(3)
    by (auto simp: kmem_pool_def kmem_ready_def kmem_inv_def lock_free_def entered_def intr_ok_def cs_cpus_def cpu_defs)
  moreover have "nextpid t' = nextpid t" using kmem_frame_proc(2)[OF f(2)] f(3) by simp
  ultimately show ?thesis
    using f(1,5) r k(1) f(3) assms(4)
    by (intro exI[of _ ?u] exI[of _ fs']) (simp add: allocproc_fail_def kop_simps)
qed

text \<open>An unused slot has no page table, no memory and no pid.\<close>

definition slots_clean :: "'z proc_st_scheme \<Rightarrow> bool" where
  "slots_clean s \<longleftrightarrow> length (procs s) = NPROC \<and> (\<forall>q \<in> set (procs s). p_state q = UNUSED \<longrightarrow> p_pagetable q = 0 \<and> p_sz q = 0 \<and> p_pid q = 0)"

abbreviation unused_slot :: "'z proc_st_scheme \<Rightarrow> nat option" where
  "unused_slot s \<equiv> find_index (\<lambda>q. p_state q = UNUSED) (procs s)"

text \<open>The body of \<open>allocproc\<close> behind the label \<open>found\<close>.\<close>

lemma allocproc_full:
  assumes "kmem_pool s fs" "all_free s" "slots_clean s" "unused_slot s = None"
  shows "allocproc s = Ok None (touch s)"
proof -
  have "intr_ok s" using assms(1) by (simp add: kmem_pool_def kmem_ready_def)
  moreover have "p_state (procs s ! j) \<noteq> UNUSED" if "j < NPROC" for j
    using assms(3,4) that by (simp add: find_index_None slots_clean_def)
  ultimately have "loopk allocproc_scan 0 s = Ok None (touch s)"
    using assms(2) by (intro allocproc_loop_miss) auto
  then show ?thesis by (simp add: allocproc_def kop_simps)
qed

text \<open>The state in which \<open>allocproc\<close> calls \<open>kalloc\<close> for the trapframe.\<close>

definition claimed :: "nat \<Rightarrow> 'z proc_st_scheme \<Rightarrow> 'z proc_st_scheme" where
  "claimed i s = (entered (ProcLock i) s)\<lparr>nextpid := nextpid s + 1,
     procs := (procs s)[i := (procs s ! i)\<lparr>p_pid := nextpid s, p_state := USED\<rparr>]\<rparr>"

lemma allocproc_found:
  assumes "kmem_pool s fs" "all_free s" "lock_free PidLock s" "slots_clean s" "unused_slot s = Some i"
  shows "allocproc s = allocproc_mem i (claimed i s)"
    "i < length (procs s)" "cs_cpus (claimed i s) = cpus (claimed i s)" "kmem_pool (claimed i s) fs"
proof -
  let ?e = "entered (ProcLock i) s"
  have i: "intr_ok s" using assms(1) by (simp add: kmem_pool_def kmem_ready_def)
  have f: "i < NPROC" "p_state (procs s ! i) = UNUSED" "\<And>j. j < i \<Longrightarrow> p_state (procs s ! j) \<noteq> UNUSED"
    "length (procs s) = NPROC"
    using assms(4,5) by (simp_all add: find_index_Some slots_clean_def)
  have c: "cs_cpus ?e = cpus ?e" by (rule cs_cpus_entered[OF i])
  have scan: "loopk allocproc_scan 0 s = Ok (Some i) ?e"
    by (rule allocproc_loop_hit[OF i assms(2) f(1-3)]) simp_all
  have pid: "allocpid ?e = Ok (nextpid s) (?e\<lparr>nextpid := nextpid s + 1\<rparr>)"
    using allocpid_held[of ?e] assms(3) intr_ok_entered[OF i] c
    by (simp add: lock_free_entered) (simp add: entered_def)
  have st: "upd_proc i (p_state_update (\<lambda>_. USED)) (upd_proc i (p_pid_update (\<lambda>_. nextpid s)) (?e\<lparr>nextpid := nextpid s + 1\<rparr>)) =
      claimed i s"
    using f(1,4) by (simp add: upd_proc_def claimed_def)
  show "i < length (procs s)" using f(1,4) by simp
  show "cs_cpus (claimed i s) = cpus (claimed i s)"
    using c cs_cpus_cong[of "claimed i s" ?e] by (simp add: claimed_def)
  show "kmem_pool (claimed i s) fs" using pool_entered[OF _ assms(1), of "ProcLock i"] by (simp add: claimed_def)
  show "allocproc s = allocproc_mem i (claimed i s)"
    unfolding st[symmetric] by (simp add: allocproc_def kop_simps scan pid setp_def)
qed

text \<open>The two outcomes of the rest.\<close>

definition allocproc_failed :: "u64 list \<Rightarrow> nat \<Rightarrow> 'z proc_st_scheme \<Rightarrow> 'z proc_st_scheme \<Rightarrow> bool" where
  "allocproc_failed fs i s s' \<longleftrightarrow> (\<exists>fs'. kmem_pool s' fs' \<and> set fs' = set fs) \<and>
     procs s' = (procs s)[i := cleared (procs s ! i)] \<and> locks s' = locks s \<and> sstatus s' = sstatus s \<and> cpus s' = cs_cpus s"

definition allocproc_done :: "u64 list \<Rightarrow> nat \<Rightarrow> 'z proc_st_scheme \<Rightarrow> 'z proc_st_scheme \<Rightarrow> bool" where
  "allocproc_done fs i s s' \<longleftrightarrow> (\<exists>tf ts pt fs'. fs = tf # ts \<and>
     new_space pt (trampoline_pa s) tf ts fs' s' \<and>
     procs s' = (procs s)[i := new_proc (nextpid s) tf pt (forkret_pa s) (procs s ! i)]) \<and>
     holding (ProcLock i) s' \<and> cpus s' = cpus (entered (ProcLock i) s) \<and> kend s' = kend s"

lemma allocproc_gives_up:
  fixes s t :: "'z proc_st_scheme"
  assumes "intr_ok s" "all_free s" "i < length (procs s)" "kmem_pool t gs"
    "tp t = tp s" "sstatus t = sstatus (entered (ProcLock i) s)" "cpus t = cpus (entered (ProcLock i) s)"
    "locks t = locks (entered (ProcLock i) s)"
    "procs t = (procs s)[i := q]" "cleared q = cleared (procs s ! i)" "p_pagetable q = 0" "nextpid t = nextpid s + 1"
    "p_trapframe q = 0 \<or> ram_page (kend t) (p_trapframe q) \<and> p_trapframe q \<notin> set gs"
    "set fs = set gs \<union> (if p_trapframe q = 0 then {} else {p_trapframe q})"
  shows "\<exists>u. allocproc_fail i t = Ok None u \<and> nextpid u = nextpid s + 1 \<and> allocproc_failed fs i s u"
proof -
  have q: "procs t ! i = q" "i < length (procs t)" using assms(3,9) by simp_all
  have o: "proc_owns t gs i" "set fs = set gs \<union> proc_pages t i"
    using assms(11,13,14) by (auto simp: proc_owns_def proc_pages_def q Let_def)
  have l: "lock_free (ProcLock i) s" using assms(2) by (simp add: all_free_def)
  show ?thesis
    using allocproc_fail_spec[OF l assms(1) q(2) assms(5-8) assms(4) o(1)] assms(9,10,12) q o(2)
    by (auto simp: allocproc_failed_def)
qed

lemma claimed_facts:
  assumes "intr_ok s"
  shows "tp (claimed i s) = tp s" "sstatus (claimed i s) = sstatus (entered (ProcLock i) s)"
    "cpus (claimed i s) = cpus (entered (ProcLock i) s)" "locks (claimed i s) = locks (entered (ProcLock i) s)"
    "kend (claimed i s) = kend s" "nextpid (claimed i s) = nextpid s + 1"
    "procs (claimed i s) = (procs s)[i := (procs s ! i)\<lparr>p_pid := nextpid s, p_state := USED\<rparr>]"
    "trampoline_pa (claimed i s) = trampoline_pa s" "forkret_pa (claimed i s) = forkret_pa s"
  by (simp_all add: claimed_def entered_def)

lemma allocproc_no_page:
  fixes s :: "'z proc_st_scheme"
  assumes "intr_ok s" "all_free s" "i < length (procs s)" "kmem_pool (claimed i s) []"
    "cs_cpus (claimed i s) = cpus (claimed i s)" "p_pagetable (procs s ! i) = 0"
  shows "\<exists>u. allocproc_mem i (claimed i s) = Ok None u \<and> nextpid u = nextpid s + 1 \<and> allocproc_failed [] i s u"
proof -
  let ?q1 = "(procs s ! i)\<lparr>p_pid := nextpid s, p_state := USED\<rparr>"
  obtain s1 where s1: "kalloc (claimed i s) = Ok 0 s1" "kmem_pool s1 []" "kmem_frame (claimed i s) s1"
    using pages.alloc_empty[OF assms(4)] by (auto simp: kmem_keeps_def)
  note k = kmem_frame_held[OF s1(3) assms(5)] kmem_frame_proc[OF s1(3)] claimed_facts[OF assms(1)]
  have "\<exists>u. allocproc_fail i (upd_proc i (p_trapframe_update (\<lambda>_. 0)) s1) = Ok None u \<and>
      nextpid u = nextpid s + 1 \<and> allocproc_failed [] i s u"
    using s1(2) k assms(3,6)
    by (intro allocproc_gives_up[OF assms(1-3), where gs = "[]" and q = "?q1\<lparr>p_trapframe := 0\<rparr>"])
      (simp_all add: upd_proc_def cleared_def)
  then show ?thesis using s1(1) by (auto simp: allocproc_mem_def kop_simps setp_def)
qed

lemma allocproc_page:
  fixes s :: "'z proc_st_scheme"
  assumes "intr_ok s" "all_free s" "i < length (procs s)" "kmem_pool (claimed i s) (tf # ts)"
    "cs_cpus (claimed i s) = cpus (claimed i s)" "p_pagetable (procs s ! i) = 0"
  shows "\<exists>r s'. allocproc_mem i (claimed i s) = Ok r s' \<and> nextpid s' = nextpid s + 1 \<and>
    (if length (tf # ts) < 4 then r = None \<and> allocproc_failed (tf # ts) i s s'
     else r = Some i \<and> allocproc_done (tf # ts) i s s')"
proof -
  let ?c = "claimed i s" and ?e = "entered (ProcLock i) s" and ?q = "procs s ! i"
  let ?q2 = "?q\<lparr>p_pid := nextpid s, p_state := USED, p_trapframe := tf\<rparr>"
  have tf: "tf \<noteq> 0" "ram_page (kend s) tf" "tf \<notin> set ts"
    using pages.pool_pages[OF assms(4)] by (auto simp: claimed_facts[OF assms(1)])
  obtain s1 where s1: "kalloc ?c = Ok tf s1" "kmem_pool s1 ts" "kmem_frame ?c s1"
    using pages.alloc_pop[OF assms(4)] by (auto simp: kmem_keeps_def)
  note k1 = kmem_frame_held[OF s1(3) assms(5)] kmem_frame_proc[OF s1(3)] kmem_frameD(4)[OF s1(3)]
  define t where "t = upd_proc i (p_trapframe_update (\<lambda>_. tf)) s1"
  have t: "procs t = (procs s)[i := ?q2]" "kmem_pool t ts" "tp t = tp s" "sstatus t = sstatus ?e"
    "cpus t = cpus ?e" "locks t = locks ?e" "kend t = kend s" "cs_cpus t = cpus t" "nextpid t = nextpid s + 1"
    "trampoline_pa t = trampoline_pa s" "forkret_pa t = forkret_pa s"
    using k1 claimed_facts[OF assms(1), of i] assms(3) s1(2) by (simp_all add: t_def upd_proc_def)
  have tf': "p_trapframe (procs t ! i) = tf" using t(1) assms(3) by simp
  obtain r s2 fs2 where s2: "proc_pagetable i t = Ok r s2" "kmem_frame t s2"
    "if length ts < 3 then r = 0 \<and> kmem_pool s2 fs2 \<and> set fs2 = set ts else new_space r (trampoline_pa s) tf ts fs2 s2"
    using proc_pagetable_spec[OF t(2), of i] unfolding tf' t(10) by blast
  note k2 = kmem_frame_held[OF s2(2) t(8)] kmem_frame_proc[OF s2(2)] kmem_frameD(4)[OF s2(2)]
  let ?u = "upd_proc i (p_pagetable_update (\<lambda>_. r)) s2"
  have u: "procs ?u = (procs s)[i := ?q2\<lparr>p_pagetable := r\<rparr>]"
    using k2(6) t(1) assms(3) by (simp add: upd_proc_def)
  note run = allocproc_mem_def kop_simps setp_def s1(1) tf(1) s2(1)[unfolded t_def]
  show ?thesis
  proof (cases "length ts < 3")
    case len: True
    then have True: "r = 0" and p: "kmem_pool ?u fs2" "set fs2 = set ts"
      using s2(3) by (auto simp: upd_proc_def)
    have "\<exists>v. allocproc_fail i ?u = Ok None v \<and> nextpid v = nextpid s + 1 \<and> allocproc_failed (tf # ts) i s v"
      using k2 t p u True tf
      by (intro allocproc_gives_up[OF assms(1-3) p(1), where q = "?q2\<lparr>p_pagetable := r\<rparr>"])
        (auto simp: cleared_def upd_proc_def)
    with True len show ?thesis by (auto simp: run)
  next
    case len: False
    then have ns: "new_space r (trampoline_pa s) tf ts fs2 s2" using s2(3) by simp
    then have False: "r \<noteq> 0" by (simp add: new_space_def)
    let ?v = "upd_proc i (\<lambda>q. q\<lparr>p_context := zero_context\<lparr>ctx_ra := forkret_pa s, ctx_sp := p_kstack q + PGSIZE\<rparr>\<rparr>) ?u"
    have "procs ?v = (procs s)[i := new_proc (nextpid s) tf r (forkret_pa s) ?q]"
      using u assms(3) by (simp add: upd_proc_def new_proc_def)
    moreover have "new_space r (trampoline_pa s) tf ts fs2 ?v" using ns by (simp add: upd_proc_def)
    moreover have "holding (ProcLock i) ?v" "cpus ?v = cpus ?e" "nextpid ?v = nextpid s + 1" "kend ?v = kend s"
      using k2 t by (simp_all add: upd_proc_def holding_def cpuid_def entered_def)
    ultimately have "allocproc_done (tf # ts) i s ?v" "nextpid ?v = nextpid s + 1"
      unfolding allocproc_done_def by blast+
    moreover have "forkret_pa ?u = forkret_pa s" using k2(9) t(11) by (simp add: upd_proc_def)
    then have "allocproc_mem i ?c = Ok (Some i) ?v" using False by (simp add: run)
    moreover have "\<not> length (tf # ts) < 4" using len by simp
    ultimately show ?thesis by (intro exI[of _ "Some i"] exI[of _ ?v]) (simp only: if_False simp_thms)
  qed
qed

lemma allocproc_outcome:
  assumes "kmem_pool s fs" "all_free s" "lock_free PidLock s" "slots_clean s" "unused_slot s = Some i"
  shows "length fs < 4 \<Longrightarrow> \<exists>s'. allocproc s = Ok None s' \<and> nextpid s' = nextpid s + 1 \<and> allocproc_failed fs i s s'"
    "4 \<le> length fs \<Longrightarrow> \<exists>s'. allocproc s = Ok (Some i) s' \<and> nextpid s' = nextpid s + 1 \<and> allocproc_done fs i s s'"
proof -
  note found = allocproc_found[OF assms]
  have i: "intr_ok s" using assms(1) by (simp add: kmem_pool_def kmem_ready_def)
  have "procs s ! i \<in> set (procs s)" using found(2) by simp
  then have pt0: "p_pagetable (procs s ! i) = 0"
    using assms(4,5) unfolding slots_clean_def by (simp add: find_index_Some)
  note page = allocproc_page[OF i assms(2) found(2) _ found(3) pt0]
  show "\<exists>s'. allocproc s = Ok None s' \<and> nextpid s' = nextpid s + 1 \<and> allocproc_failed fs i s s'" if "length fs < 4"
  proof (cases fs)
    case Nil
    with allocproc_no_page[OF i assms(2) found(2) _ found(3) pt0] found(4) show ?thesis by (simp add: found(1))
  next
    case (Cons tf ts)
    with page[of tf ts] found(4) that show ?thesis by (auto simp: found(1))
  qed
  show "\<exists>s'. allocproc s = Ok (Some i) s' \<and> nextpid s' = nextpid s + 1 \<and> allocproc_done fs i s s'" if "4 \<le> length fs"
  proof -
    obtain tf ts where fs: "fs = tf # ts" using \<open>4 \<le> length fs\<close> by (cases fs) auto
    then have "\<not> length (tf # ts) < 4" using that by simp
    with page[of tf ts] found(4) show ?thesis unfolding found(1) fs by (simp only: if_False) blast
  qed
qed

section \<open>Properties\<close>

lemma pool_extend:
  "kmem_pool (kmem_st.extend s x) fs \<longleftrightarrow> kmem_pool s fs"
  by (simp add: kmem_pool_def kmem_ready_def kmem_inv_def lock_free_def intr_ok_def cpu_defs kmem_st.defs)

text \<open>A state with an unused process table and a given free list.\<close>

lemma demo_alloc_state:
  assumes "distinct fs" "\<forall>x \<in> set fs. ram_page 0x80010000 x"
  shows "\<exists>s :: proc_st. kmem_pool s fs \<and> all_free s \<and> lock_free PidLock s \<and> slots_clean s \<and> nextpid s = 1 \<and>
     procs s = replicate NPROC zero_proc"
proof -
  obtain s0 where s0: "kmem_pool s0 fs" "kmem_frame boot_kmem s0"
  proof -
    have "kmem_pool boot_kmem []" using boot_kmem_ok by (simp add: kmem_pool_def)
    from pages.frees_push[OF this, of "rev fs"] that show ?thesis
      using assms boot_kmem_ok(3) by (auto simp: kmem_keeps_def)
  qed
  let ?s = "kmem_st.extend s0 \<lparr>kernel_pagetable = 0, satp = 0, procs = replicate NPROC zero_proc, initproc = None,
     nextpid = 1, ticks = 0, trampoline_pa = 0x80007000, forkret_pa = 0x80001000, kobj = 0x80008000,
     kloc = 0x80008800, kout = []\<rparr>"
  have "lock_free l boot_kmem" for l
    by (simp add: boot_kmem_def zero_machine_def machine.defs lock_free_def)
  then have "lock_free l ?s" for l
    using kmem_frameD(3)[OF s0(2)] by (simp add: lock_free_def kmem_st.defs)
  with s0(1) show ?thesis
    by (intro exI[of _ ?s]) (simp add: pool_extend all_free_def slots_clean_def, simp add: kmem_st.defs zero_proc_def)
qed

lemma eight_pages_state:
  "\<exists>s :: proc_st. kmem_pool s eight_pages \<and> all_free s \<and> lock_free PidLock s \<and> slots_clean s \<and> nextpid s = 1 \<and>
     procs s = replicate NPROC zero_proc \<and> unused_slot s = Some 0"
proof -
  have u: "find_index (\<lambda>q. p_state q = UNUSED) (replicate NPROC zero_proc) = Some 0"
    by (simp add: find_index_Some zero_proc_def)
  obtain s :: proc_st where "kmem_pool s eight_pages" "all_free s" "lock_free PidLock s" "slots_clean s" "nextpid s = 1"
    "procs s = replicate NPROC zero_proc"
    using demo_alloc_state[of eight_pages] by (auto simp: eight_pages_def ram_page_def pg_aligned_def)
  with u show ?thesis by (intro exI[of _ s]) simp
qed

text \<open>
  C30: \<open>allocproc\<close>. With no unused slot it returns 0 and changes no slot. Otherwise it takes the
  first unused slot and a fresh pid, and needs exactly four pages: the trapframe and the three
  levels of a page table. With four pages free it succeeds: the slot is in state \<open>USED\<close> with its
  lock held, the first free page as trapframe, and a page table over fresh pages that maps
  exactly the trampoline and the trapframe; the context starts at \<open>forkret\<close> on the slot's kernel
  stack. With fewer it returns 0 with the slot unused again, the lock released and every page
  back on the free list.
\<close>

theorem allocproc_correct:
  assumes "kmem_pool s fs" "all_free s" "lock_free PidLock s" "slots_clean s"
  shows "case find_index (\<lambda>q. p_state q = UNUSED) (procs s) of
      None \<Rightarrow> \<exists>s'. allocproc s = Ok None s' \<and> procs s' = procs s \<and> locks s' = locks s
    | Some i \<Rightarrow> \<exists>s'. nextpid s' = nextpid s + 1 \<and>
        (if length fs < 4
         then allocproc s = Ok None s' \<and> procs s' = (procs s)[i := cleared (procs s ! i)] \<and> locks s' = locks s \<and>
           (\<exists>fs'. kmem_pool s' fs' \<and> set fs' = set fs)
         else allocproc s = Ok (Some i) s' \<and> holding (ProcLock i) s' \<and> (\<exists>pt fs'.
           new_space pt (trampoline_pa s) (hd fs) (tl fs) fs' s' \<and>
           procs s' = (procs s)[i := new_proc (nextpid s) (hd fs) pt (forkret_pa s) (procs s ! i)]))"
proof (cases "unused_slot s")
  case None
  with allocproc_full[OF assms(1,2,4)] show ?thesis by auto
next
  case (Some i)
  note o = allocproc_outcome[OF assms Some]
  show ?thesis
  proof (cases "length fs < 4")
    case True
    from o(1)[OF this] True Some show ?thesis by (auto simp: allocproc_failed_def)
  next
    case False
    then have "4 \<le> length fs" by simp
    from o(2)[OF this] obtain s' where s': "allocproc s = Ok (Some i) s'" "nextpid s' = nextpid s + 1" "holding (ProcLock i) s'"
      and "\<exists>tf ts pt fs'. fs = tf # ts \<and> new_space pt (trampoline_pa s) tf ts fs' s' \<and>
        procs s' = (procs s)[i := new_proc (nextpid s) tf pt (forkret_pa s) (procs s ! i)]"
      unfolding allocproc_done_def by blast
    then have "\<exists>pt fs'. new_space pt (trampoline_pa s) (hd fs) (tl fs) fs' s' \<and>
        procs s' = (procs s)[i := new_proc (nextpid s) (hd fs) pt (forkret_pa s) (procs s ! i)]"
      by (metis list.sel(1,3))
    with s' show ?thesis unfolding Some option.case if_not_P[OF False] by blast
  qed
qed

theorem allocproc_correct_witness:
  "(\<exists>(s :: proc_st) s'. kmem_pool s eight_pages \<and> allocproc s = Ok (Some 0) s' \<and> nextpid s' = 2 \<and>
      p_state (procs s' ! 0) = USED \<and> p_pid (procs s' ! 0) = 1 \<and> p_trapframe (procs s' ! 0) = 0x80010000) \<and>
   (\<exists>(s :: proc_st) s'. kmem_pool s demo_pages \<and> allocproc s = Ok None s' \<and> p_state (procs s' ! 0) = UNUSED)"
proof -
  obtain s :: proc_st where s: "kmem_pool s eight_pages" "all_free s" "lock_free PidLock s" "slots_clean s"
    "nextpid s = 1" "procs s = replicate NPROC zero_proc" "unused_slot s = Some 0" using eight_pages_state by blast
  have e: "\<not> length eight_pages < 4" "hd eight_pages = 0x80010000" by (simp_all add: eight_pages_def)
  obtain s' pt where "allocproc s = Ok (Some 0) s'" "nextpid s' = nextpid s + 1"
    "procs s' = (procs s)[0 := new_proc (nextpid s) (hd eight_pages) pt (forkret_pa s) (procs s ! 0)]"
    using allocproc_correct[OF s(1-4)] unfolding s(7) option.case if_not_P[OF e(1)] by blast
  then have 1: "allocproc s = Ok (Some 0) s' \<and> nextpid s' = 2 \<and> p_state (procs s' ! 0) = USED \<and> p_pid (procs s' ! 0) = 1 \<and>
      p_trapframe (procs s' ! 0) = 0x80010000"
    using s(5,6) e(2) by (simp add: new_proc_def)
  obtain t :: proc_st where t: "kmem_pool t demo_pages" "all_free t" "lock_free PidLock t" "slots_clean t"
    "procs t = replicate NPROC zero_proc"
    using demo_alloc_state[of demo_pages] by (auto simp: demo_pages_def ram_page_def pg_aligned_def)
  have u: "find_index (\<lambda>q. p_state q = UNUSED) (procs t) = Some 0"
    unfolding t(5) by (simp add: find_index_Some zero_proc_def)
  have l: "length demo_pages < 4" by (simp add: demo_pages_def)
  obtain t' where "allocproc t = Ok None t'" "procs t' = (procs t)[0 := cleared (procs t ! 0)]"
    using allocproc_correct[OF t(1-4)] unfolding u option.case if_P[OF l] by blast
  then have "allocproc t = Ok None t' \<and> p_state (procs t' ! 0) = UNUSED" using t(5) by (simp add: cleared_def)
  with 1 s(1) t(1) show ?thesis by blast
qed

lemma freeproc_after_allocproc:
  assumes "kmem_pool s fs" "slots_clean s" "unused_slot s = Some i" "allocproc_done fs i s s1"
  shows "\<exists>s2 fs'. freeproc i s1 = Ok () s2 \<and> kmem_pool s2 fs' \<and> set fs' = set fs \<and>
    procs s2 = (procs s)[i := cleared (procs s2 ! i)] \<and> cleared (procs s2 ! i) = procs s2 ! i"
proof -
  have l: "i < length (procs s)" using assms(3) by (simp add: find_index_Some)
  obtain tf ts pt fs' where a: "fs = tf # ts" "new_space pt (trampoline_pa s) tf ts fs' s1"
    "procs s1 = (procs s)[i := new_proc (nextpid s) tf pt (forkret_pa s) (procs s ! i)]" "kend s1 = kend s"
    using assms(4) by (auto simp: allocproc_done_def)
  have "procs s ! i \<in> set (procs s)" using l by simp
  then have sz: "p_sz (procs s ! i) = 0"
    using assms(2,3) unfolding slots_clean_def by (simp add: find_index_Some)
  have q: "procs s1 ! i = new_proc (nextpid s) tf pt (forkret_pa s) (procs s ! i)" "i < length (procs s1)"
    using a(3) l by simp_all
  have us: "user_space pt (trampoline_pa s) tf 0 fs' s1" by (rule new_space_user[OF a(2)])
  have tf: "tf \<noteq> 0" "ram_page (kend s) tf" "tf \<notin> set ts"
    using pages.pool_pages[OF assms(1)] a(1) by auto
  have p: "set ts = set fs' \<union> pt_pages (mem s1) pt" "pt \<noteq> 0" "kmem_pool s1 fs'"
    using a(2) by (auto simp: new_space_def pt_own_def)
  have z: "range_frames (mem s1) pt 0 (npg 0) = []" by (simp add: npg_def no_mapping)
  have o: "proc_owns s1 fs' i"
    using tf p(1) us sz a(4) by (auto simp: proc_owns_def q(1) new_proc_def Let_def z)
  have "proc_pages s1 i = insert tf (pt_pages (mem s1) pt)"
    using tf p(2) sz by (simp add: proc_pages_def q(1) new_proc_def Let_def z)
  then show ?thesis
    using freeproc_spec[OF p(3) o q(2)] p(1) a(1,3) q(1) l by (force simp: cleared_def)
qed

text \<open>
  C31: nothing leaks. Whatever the outcome of \<open>allocproc\<close>, no page is lost: if it fails, the free
  list holds the pages it held before; if it returns a process, \<open>freeproc\<close> on that slot returns
  normally, the free list then holds exactly the pages it held before \<open>allocproc\<close>, the slot is
  unused with no pid, parent, page table or trapframe, and the other slots are as they were.
\<close>

theorem allocproc_freeproc_no_leak:
  assumes "kmem_pool s fs" "all_free s" "lock_free PidLock s" "slots_clean s"
  shows "\<exists>r s1. allocproc s = Ok r s1 \<and> (case r of
      None \<Rightarrow> \<exists>fs'. kmem_pool s1 fs' \<and> set fs' = set fs
    | Some i \<Rightarrow> \<exists>s2 fs'. freeproc i s1 = Ok () s2 \<and> kmem_pool s2 fs' \<and> set fs' = set fs \<and>
        procs s2 = (procs s)[i := procs s2 ! i] \<and>
        p_state (procs s2 ! i) = UNUSED \<and> p_pid (procs s2 ! i) = 0 \<and> p_parent (procs s2 ! i) = None \<and>
        p_pagetable (procs s2 ! i) = 0 \<and> p_trapframe (procs s2 ! i) = 0)"
proof (cases "unused_slot s")
  case None
  have "kmem_pool (touch s) fs"
    using assms(1) by (simp add: kmem_pool_def kmem_ready_def kmem_inv_def intr_ok_touch)
  with allocproc_full[OF assms(1,2,4) None] show ?thesis by auto
next
  case (Some i)
  obtain r s1 where o: "allocproc s = Ok r s1"
    "r = None \<and> allocproc_failed fs i s s1 \<or> r = Some i \<and> allocproc_done fs i s s1"
    using allocproc_outcome[OF assms Some] by (cases "length fs < 4") (auto simp: not_less)
  from o(2) show ?thesis
  proof
    assume "r = Some i \<and> allocproc_done fs i s s1"
    with freeproc_after_allocproc[OF assms(1,4) Some] obtain s2 fs' where r: "r = Some i"
      "freeproc i s1 = Ok () s2" "kmem_pool s2 fs'" "set fs' = set fs"
      "procs s2 = (procs s)[i := cleared (procs s2 ! i)]" "cleared (procs s2 ! i) = procs s2 ! i" by blast
    have "p_state (cleared q) = UNUSED" "p_pid (cleared q) = 0" "p_parent (cleared q) = None"
      "p_pagetable (cleared q) = 0" "p_trapframe (cleared q) = 0" for q by (simp_all add: cleared_def)
    from this[of "procs s2 ! i"] o(1) r show ?thesis by auto
  qed (use o(1) in \<open>auto simp: allocproc_failed_def\<close>)
qed

theorem allocproc_freeproc_no_leak_witness:
  "\<exists>(s :: proc_st) s1 s2 fs'. kmem_pool s eight_pages \<and> allocproc s = Ok (Some 0) s1 \<and> freeproc 0 s1 = Ok () s2 \<and>
     kmem_pool s2 fs' \<and> set fs' = set eight_pages \<and> p_state (procs s2 ! 0) = UNUSED \<and> p_trapframe (procs s2 ! 0) = 0"
proof -
  obtain s :: proc_st where s: "kmem_pool s eight_pages" "all_free s" "lock_free PidLock s" "slots_clean s"
    "unused_slot s = Some 0" using eight_pages_state by blast
  have "4 \<le> length eight_pages" by (simp add: eight_pages_def)
  from allocproc_outcome(2)[OF s this] obtain s1 where s1: "allocproc s = Ok (Some 0) s1" by blast
  from allocproc_freeproc_no_leak[OF s(1-4)] s1 obtain s2 fs' where "freeproc 0 s1 = Ok () s2" "kmem_pool s2 fs'"
    "set fs' = set eight_pages" "p_state (procs s2 ! 0) = UNUSED" "p_trapframe (procs s2 ! 0) = 0" by fastforce
  with s(1) s1 show ?thesis by blast
qed

text \<open>
  C32: a process can be born killed. \<open>kill(0)\<close> matches an unused slot, because unused slots have pid
  0, and sets its \<open>killed\<close> flag; \<open>allocproc\<close> does not clear the flag. So if the first unused slot is
  the first with pid 0, \<open>kill(0)\<close> returns 0 and leaves that slot unused and marked as killed, and
  with four pages free the next \<open>allocproc\<close> hands it out as a process that is already killed.
\<close>

theorem kill_zero_born_killed:
  assumes "kmem_pool s fs" "all_free s" "lock_free PidLock s" "slots_clean s" "4 \<le> length fs"
    "find_index (\<lambda>q. p_pid q = 0) (procs s) = Some i" "p_state (procs s ! i) = UNUSED"
  shows "\<exists>t u. kill 0 s = Ok 0 t \<and> p_state (procs t ! i) = UNUSED \<and> p_killed (procs t ! i) = 1 \<and>
    allocproc t = Ok (Some i) u \<and> p_state (procs u ! i) = USED \<and> p_killed (procs u ! i) = 1"
proof -
  have "intr_ok s" using assms(1) by (simp add: kmem_pool_def kmem_ready_def)
  moreover have len: "length (procs s) = NPROC" using assms(4) by (simp add: slots_clean_def)
  ultimately have k: "kill 0 s = Ok 0 ((touch s)\<lparr>procs := (procs s)[i := victim (procs s ! i)]\<rparr>)" (is "_ = Ok 0 ?t")
    using kill_eq[OF _ assms(2), of 0] assms(6) by simp
  have i: "i < length (procs s)" "\<And>j. j < i \<Longrightarrow> p_pid (procs s ! j) \<noteq> 0"
    using assms(6) by (simp_all add: find_index_Some)
  have v: "p_state (victim (procs s ! i)) = UNUSED" "p_killed (victim (procs s ! i)) = 1"
    using assms(7) by (simp_all add: victim_def)
  have nu: "p_state (procs s ! j) \<noteq> UNUSED" if "j < i" for j
    using i that assms(4) unfolding slots_clean_def by (metis less_trans nth_mem)
  have un: "unused_slot ?t = Some i"
    using i(1) v(1) nu by (simp add: find_index_Some)
  have cl: "slots_clean ?t"
    using assms(4,7) i(1) unfolding slots_clean_def
    by (auto simp: victim_def dest!: set_update_subset_insert[THEN subsetD] nth_mem)
  have pool: "kmem_pool ?t fs"
    using assms(1) by (simp add: kmem_pool_def kmem_ready_def kmem_inv_def intr_ok_touch)
  have "all_free ?t" "lock_free PidLock ?t" using assms(2,3) by simp_all
  from allocproc_outcome(2)[OF pool this cl un assms(5)] obtain u where u: "allocproc ?t = Ok (Some i) u" "allocproc_done fs i ?t u"
    by blast
  then obtain pid tf pt fr where "procs u = (procs ?t)[i := new_proc pid tf pt fr (procs ?t ! i)]"
    unfolding allocproc_done_def by blast
  then have "p_state (procs u ! i) = USED" "p_killed (procs u ! i) = 1"
    using i(1) v(2) by (simp_all add: new_proc_def)
  with k u(1) v i(1) show ?thesis by (intro exI[of _ ?t] exI[of _ u]) simp
qed

theorem kill_zero_born_killed_witness:
  "\<exists>s t u :: proc_st. procs s = replicate NPROC zero_proc \<and> kill 0 s = Ok 0 t \<and> p_killed (procs t ! 0) = 1 \<and>
     allocproc t = Ok (Some 0) u \<and> p_killed (procs u ! 0) = 1"
proof -
  obtain s :: proc_st where s: "kmem_pool s eight_pages" "all_free s" "lock_free PidLock s" "slots_clean s"
    "procs s = replicate NPROC zero_proc" using eight_pages_state by blast
  have "find_index (\<lambda>q. p_pid q = 0) (procs s) = Some 0" "p_state (procs s ! 0) = UNUSED" "4 \<le> length eight_pages"
    using s(5) by (simp_all add: find_index_Some zero_proc_def eight_pages_def)
  from kill_zero_born_killed[OF s(1-4) this(3,1,2)] s(5) show ?thesis by blast
qed

end
