(* ===== verification/Calm.thy ===== *)
theory Calm
  imports Sleeplock Procsync
begin

text \<open>
  Sleep locks as a thread uses them between critical sections: the hart holds no spin lock, and
  every spin lock is free. Then each operation of kernel/sleeplock.c is one update of the state.
\<close>

section \<open>Between critical sections\<close>

definition calm :: "nat \<Rightarrow> 'z proc_st_scheme \<Rightarrow> bool" where
  "calm pr s \<longleftrightarrow> noff (mycpu s) = 0 \<and> cs_cpus s = cpus s \<and> (\<forall>l. lock_free l s) \<and>
     cpu_proc (mycpu s) = Some pr \<and> pr < NPROC \<and> length (procs s) = NPROC"

lemma calmD:
  assumes "calm pr s"
  shows "intr_ok s" "others_free s" "lock_free l s" "cs_cpus s = cpus s" "cpu_proc (mycpu s) = Some pr"
    "pr < NPROC" "length (procs s) = NPROC" "touch s = s"
  using assms by (simp_all add: calm_def intr_ok_def others_free_def)

lemma calm_frame:
  assumes "calm pr s" "tp t = tp s" "sstatus t = sstatus s" "cpus t = cpus s" "locks t = locks s"
    "length (procs t) = length (procs s)"
  shows "calm pr t"
  using assms by (auto simp: calm_def cs_cpus_def lock_free_def cpu_defs)

lemma calm_updates [simp]:
  "calm pr (s\<lparr>mem := m\<rparr>) \<longleftrightarrow> calm pr s"
  "length ps = length (procs s) \<Longrightarrow> calm pr (s\<lparr>procs := ps\<rparr>) \<longleftrightarrow> calm pr s"
  by (auto simp: calm_def cs_cpus_def lock_free_def cpu_defs)

text \<open>A critical section that leaves the hart alone.\<close>

lemma calm_release:
  assumes "calm pr s" "in_section l s t"
  shows "release l t = Ok () (t\<lparr>sstatus := sstatus s, cpus := cpus s, locks := locks s\<rparr>)"
  using in_section_release[OF assms(2) calmD(3)[OF assms(1)] calmD(1)[OF assms(1)]] calmD(4)[OF assms(1)] by simp

lemma calm_acquire: "calm pr s \<Longrightarrow> acquire l s = Ok () (entered l s)"
  using calmD(3) by (rule acquire_free)

lemma calm_leave: "calm pr s \<Longrightarrow> release l (entered l s) = Ok () s"
  using leave_entered[of l s] calmD by metis

section \<open>kernel/sleeplock.c\<close>

text \<open>The sleep lock after a process took it, and after it let it go.\<close>

definition sl_taken :: "int \<Rightarrow> sleeplock \<Rightarrow> sleeplock" where
  "sl_taken pid k = k\<lparr>sl_locked := 1, sl_pid := pid\<rparr>"

definition sl_open :: "sleeplock \<Rightarrow> sleeplock" where
  "sl_open k = k\<lparr>sl_locked := 0, sl_pid := 0\<rparr>"

abbreviation mine :: "nat \<Rightarrow> lockid \<Rightarrow> 'z sl_st_scheme \<Rightarrow> bool" where
  "mine pr lk s \<equiv> sl_locked (slocks s lk) \<noteq> 0 \<and> sl_pid (slocks s lk) = p_pid (procs s ! pr)"

lemma slocks_entered [simp]: "slocks (entered l s) = slocks s"
  by (simp add: entered_def)

lemma in_section_slocks [simp]: "in_section l s (t\<lparr>slocks := x\<rparr>) \<longleftrightarrow> in_section l s t"
  by (simp add: in_section_def)

lemma in_section_procs [simp]: "in_section l s (t\<lparr>procs := x\<rparr>) \<longleftrightarrow> in_section l s t"
  by (simp add: in_section_def)

lemma mypid_section:
  fixes t :: "'z proc_st_scheme"
  assumes "calm pr s" "in_section l s t"
  shows "mypid t = Ok (p_pid (procs t ! pr)) t"
  using in_section_myproc[OF assms(2) calmD(1)[OF assms(1)]] calmD(5)[OF assms(1)]
  by (simp add: mypid_def kop_simps derefk_def getp_def)

lemma acquiresleep_calm:
  fixes s :: "'z sl_st_scheme"
  assumes "calm pr s" "sl_locked (slocks s lk) = 0"
  shows "acquiresleep lk s = Ok () (s\<lparr>slocks := (slocks s)(lk := sl_taken (p_pid (procs s ! pr)) (slocks s lk))\<rparr>)"
proof -
  let ?t = "(entered lk s)\<lparr>slocks := (slocks s)(lk := sl_taken (p_pid (procs s ! pr)) (slocks s lk))\<rparr>"
  have "release lk ?t = Ok () (?t\<lparr>sstatus := sstatus s, cpus := cpus s, locks := locks s\<rparr>)"
    by (rule calm_release[OF assms(1)]) simp
  moreover have "?t\<lparr>sstatus := sstatus s, cpus := cpus s, locks := locks s\<rparr> =
      s\<lparr>slocks := (slocks s)(lk := sl_taken (p_pid (procs s ! pr)) (slocks s lk))\<rparr>"
    by (simp add: entered_def)
  ultimately show ?thesis
    using assms(2) mypid_section[OF assms(1), of lk "(entered lk s)\<lparr>slocks := x\<rparr>" for x]
    by (simp add: acquiresleep_def acquiresleep_loop_def kop_simps calm_acquire[OF assms(1)] set_slock_def sl_taken_def)
qed

lemma releasesleep_calm:
  fixes s :: "'z sl_st_scheme"
  assumes "calm pr s" "\<And>p. lk \<noteq> ProcLock p"
  shows "releasesleep lk s = Ok () (s\<lparr>slocks := (slocks s)(lk := sl_open (slocks s lk)),
    procs := woken (Some (ChSleeplock lk)) (Some pr) NPROC (procs s)\<rparr>)"
proof -
  let ?t = "(entered lk s)\<lparr>slocks := (slocks s)(lk := sl_open (slocks s lk))\<rparr>"
  let ?u = "?t\<lparr>procs := woken (Some (ChSleeplock lk)) (Some pr) NPROC (procs s)\<rparr>"
  have "wakeup (Some (ChSleeplock lk)) ?t = Ok () ?u"
    using in_section_wakeup[of lk s ?t, OF _ calmD(1,2)[OF assms(1)] assms(2)] calmD(5,7)[OF assms(1)] by simp
  moreover have "release lk ?u = Ok () (?u\<lparr>sstatus := sstatus s, cpus := cpus s, locks := locks s\<rparr>)"
    by (rule calm_release[OF assms(1)]) simp
  moreover have "?u\<lparr>sstatus := sstatus s, cpus := cpus s, locks := locks s\<rparr> =
      s\<lparr>slocks := (slocks s)(lk := sl_open (slocks s lk)), procs := woken (Some (ChSleeplock lk)) (Some pr) NPROC (procs s)\<rparr>"
    by (simp add: entered_def)
  ultimately show ?thesis
    by (simp add: releasesleep_def kop_simps calm_acquire[OF assms(1)] set_slock_def sl_open_def)
qed

lemma holdingsleep_calm:
  fixes s :: "'z sl_st_scheme"
  assumes "calm pr s"
  shows "holdingsleep lk s = Ok (mine pr lk s) s"
  using mypid_section[OF assms, of lk "entered lk s"]
  by (simp add: holdingsleep_def kop_simps calm_acquire[OF assms] calm_leave[OF assms])

lemma p_pid_woken [simp]: "p < length ps \<Longrightarrow> p_pid (woken c me n ps ! p) = p_pid (ps ! p)"
  by (simp add: nth_woken wake_def)

end
