(* ===== verification/Bcache.thy ===== *)
theory Bcache
  imports Bio Calm
begin

text \<open>
  Behaviour of kernel/bio.c. The doubly linked list of the cache is described by the list of its
  buffers, most recently used first. Over it, \<open>cache\<close> is the abstract view a client of the cache
  has: the contents of every block, how often each block is referenced, and the buffers the
  client holds.
\<close>

section \<open>Linked lists\<close>

text \<open>Following the links \<open>f\<close> from \<open>a\<close> one visits \<open>xs\<close> and then \<open>z\<close>.\<close>

fun chain :: "(nat \<Rightarrow> nat) \<Rightarrow> nat \<Rightarrow> nat list \<Rightarrow> nat \<Rightarrow> bool" where
  "chain f a [] z \<longleftrightarrow> f a = z"
| "chain f a (x # xs) z \<longleftrightarrow> f a = x \<and> chain f x xs z"

lemma chain_append: "chain f a (xs @ y # ys) z \<longleftrightarrow> chain f a xs y \<and> chain f y ys z"
  by (induction xs arbitrary: a) auto

lemma chain_cong: "(\<And>x. x \<in> set (a # xs) \<Longrightarrow> f x = g x) \<Longrightarrow> chain f a xs z \<longleftrightarrow> chain g a xs z"
  by (induction xs arbitrary: a) auto

lemma chain_upd [simp]: "p \<notin> set (a # xs) \<Longrightarrow> chain (f(p := v)) a xs z \<longleftrightarrow> chain f a xs z"
  by (rule chain_cong) auto

lemma chain_last: "chain f a xs z \<Longrightarrow> f (last (a # xs)) = z"
  by (induction xs arbitrary: a) auto

lemma chain_relink:
  "chain f a xs z \<Longrightarrow> distinct (a # xs) \<Longrightarrow> chain (f(last (a # xs) := v)) a xs v"
proof (induction xs arbitrary: a)
  case (Cons x xs)
  have "chain (f(last (x # xs) := v)) x xs v" using Cons.prems by (intro Cons.IH) auto
  moreover have "last (x # xs) \<noteq> a" using Cons.prems(2) last_in_set[of "x # xs"] by auto
  moreover have "last (a # x # xs) = last (x # xs)" by simp
  ultimately show ?case using Cons.prems(1) by (simp add: fun_upd_other del: fun_upd_apply last.simps)
qed simp

text \<open>The head's list of a link field that runs one way, and of one that runs back.\<close>

definition lru :: "buf list \<Rightarrow> nat list \<Rightarrow> bool" where
  "lru bc ord \<longleftrightarrow> length bc = NBUF + 1 \<and> distinct ord \<and> set ord = {..<NBUF} \<and>
     chain (\<lambda>i. b_next (bc ! i)) bhead ord bhead \<and> chain (\<lambda>i. b_prev (bc ! i)) bhead (rev ord) bhead"

lemma links_upd:
  assumes "i < length bc"
  shows "(\<lambda>k. b_next (bc[i := b_next_update (\<lambda>_. v) (bc ! i)] ! k)) = (\<lambda>k. b_next (bc ! k))(i := v)"
    "(\<lambda>k. b_prev (bc[i := b_next_update (\<lambda>_. v) (bc ! i)] ! k)) = (\<lambda>k. b_prev (bc ! k))"
    "(\<lambda>k. b_prev (bc[i := b_prev_update (\<lambda>_. v) (bc ! i)] ! k)) = (\<lambda>k. b_prev (bc ! k))(i := v)"
    "(\<lambda>k. b_next (bc[i := b_prev_update (\<lambda>_. v) (bc ! i)] ! k)) = (\<lambda>k. b_next (bc ! k))"
  using assms by (auto simp: fun_eq_iff nth_list_update)

text \<open>Updates of the other fields leave the links alone.\<close>

lemma lru_keep:
  assumes "lru bc ord" "length bc' = length bc" "\<And>i. i < length bc \<Longrightarrow> b_next (bc' ! i) = b_next (bc ! i) \<and> b_prev (bc' ! i) = b_prev (bc ! i)"
  shows "lru bc' ord"
proof -
  have "set (bhead # ord) \<subseteq> {..<length bc}" "set (bhead # rev ord) \<subseteq> {..<length bc}" using assms(1) by (auto simp: lru_def)
  then have "chain (\<lambda>i. b_next (bc' ! i)) bhead ord bhead = chain (\<lambda>i. b_next (bc ! i)) bhead ord bhead"
    "chain (\<lambda>i. b_prev (bc' ! i)) bhead (rev ord) bhead = chain (\<lambda>i. b_prev (bc ! i)) bhead (rev ord) bhead"
    using assms(3) by (intro chain_cong; blast)+
  then show ?thesis using assms(1,2) by (simp add: lru_def)
qed

text \<open>The scans of \<open>bget\<close> run over the list forwards and backwards.\<close>

lemma bget_find_loop:
  assumes "chain (\<lambda>i. b_next (bcache s ! i)) a xs bhead" "bhead \<notin> set xs"
  shows "loopk (bget_find d bn) (b_next (bcache s ! a)) s =
    Ok (find (\<lambda>b. b_dev (bcache s ! b) = d \<and> b_blockno (bcache s ! b) = bn) xs) s"
  using assms
proof (induction xs arbitrary: a)
  case Nil
  have "bget_find d bn bhead s = Ok (Inr None) s" by (simp add: bget_find_def kop_simps)
  with Nil show ?case by (simp add: loopk_steps(2))
next
  case (Cons x xs)
  then have x: "b_next (bcache s ! a) = x" "x \<noteq> bhead" by auto
  show ?case
  proof (cases "b_dev (bcache s ! x) = d \<and> b_blockno (bcache s ! x) = bn")
    case True
    then have "bget_find d bn x s = Ok (Inr (Some x)) s" using x(2) by (simp add: bget_find_def kop_simps getb_def)
    with True x(1) show ?thesis by (simp add: loopk_steps(2))
  next
    case False
    then have "bget_find d bn x s = Ok (Inl (b_next (bcache s ! x))) s"
      using x(2) by (auto simp: bget_find_def kop_simps getb_def)
    then have "loopk (bget_find d bn) x s = loopk (bget_find d bn) (b_next (bcache s ! x)) s" by (rule loopk_steps(1))
    with False Cons x(1) show ?thesis by auto
  qed
qed

lemma bget_victim_loop:
  assumes "chain (\<lambda>i. b_prev (bcache s ! i)) a xs bhead" "bhead \<notin> set xs"
  shows "loopk bget_victim (b_prev (bcache s ! a)) s = Ok (find (\<lambda>b. b_refcnt (bcache s ! b) = 0) xs) s"
  using assms
proof (induction xs arbitrary: a)
  case Nil
  have "bget_victim bhead s = Ok (Inr None) s" by (simp add: bget_victim_def kop_simps)
  with Nil show ?case by (simp add: loopk_steps(2))
next
  case (Cons x xs)
  then have x: "b_prev (bcache s ! a) = x" "x \<noteq> bhead" by auto
  show ?case
  proof (cases "b_refcnt (bcache s ! x) = 0")
    case True
    then have "bget_victim x s = Ok (Inr (Some x)) s" using x(2) by (simp add: bget_victim_def kop_simps getb_def)
    with True x(1) show ?thesis by (simp add: loopk_steps(2))
  next
    case False
    then have "bget_victim x s = Ok (Inl (b_prev (bcache s ! x))) s"
      using x(2) by (auto simp: bget_victim_def kop_simps getb_def)
    then have "loopk bget_victim x s = loopk bget_victim (b_prev (bcache s ! x)) s" by (rule loopk_steps(1))
    with False Cons x(1) show ?thesis by auto
  qed
qed

section \<open>Moving a buffer to the front\<close>

text \<open>A list of fewer buffers, as it is between \<open>unlink_buf\<close> and \<open>push_front\<close>.\<close>

definition linked :: "buf list \<Rightarrow> nat list \<Rightarrow> bool" where
  "linked bc ord \<longleftrightarrow> length bc = NBUF + 1 \<and> distinct ord \<and> set ord \<subseteq> {..<NBUF} \<and>
     chain (\<lambda>i. b_next (bc ! i)) bhead ord bhead \<and> chain (\<lambda>i. b_prev (bc ! i)) bhead (rev ord) bhead"

lemma lru_linked: "lru bc ord \<longleftrightarrow> linked bc ord \<and> set ord = {..<NBUF}"
  unfolding lru_def linked_def by blast

lemma linked_ends:
  assumes "linked bc ord"
  shows "b_next (bc ! bhead) = hd (ord @ [bhead])" "b_prev (bc ! bhead) = last (bhead # ord)"
proof -
  have c: "chain (\<lambda>i. b_next (bc ! i)) bhead ord bhead" "chain (\<lambda>i. b_prev (bc ! i)) bhead (rev ord) bhead"
    using assms unfolding linked_def by blast+
  show "b_next (bc ! bhead) = hd (ord @ [bhead])" using c(1) by (cases ord) auto
  show "b_prev (bc ! bhead) = last (bhead # ord)" using c(2) by (cases ord rule: rev_cases) auto
qed

definition unlinked :: "nat \<Rightarrow> buf list \<Rightarrow> buf list" where
  "unlinked b bc = (let n = b_next (bc ! b); p = b_prev (bc ! b); bc1 = bc[n := (bc ! n)\<lparr>b_prev := p\<rparr>] in
     bc1[p := (bc1 ! p)\<lparr>b_next := n\<rparr>])"

definition pushed :: "nat \<Rightarrow> buf list \<Rightarrow> buf list" where
  "pushed b bc = (let f = b_next (bc ! bhead); bc1 = bc[b := (bc ! b)\<lparr>b_next := f, b_prev := bhead\<rparr>];
     bc2 = bc1[f := (bc1 ! f)\<lparr>b_prev := b\<rparr>] in bc2[bhead := (bc2 ! bhead)\<lparr>b_next := b\<rparr>])"

lemma linked_split:
  assumes "linked bc (xs @ b # ys)"
  shows "b_next (bc ! b) = hd (ys @ [bhead])" "b_prev (bc ! b) = last (bhead # xs)" "b < NBUF"
    "hd (ys @ [bhead]) \<noteq> b" "last (bhead # xs) \<noteq> b" "hd (ys @ [bhead]) \<le> NBUF" "last (bhead # xs) \<le> NBUF"
proof -
  have c: "chain (\<lambda>i. b_next (bc ! i)) b ys bhead" "chain (\<lambda>i. b_prev (bc ! i)) b (rev xs) bhead"
    "distinct (xs @ b # ys)" "set (xs @ b # ys) \<subseteq> {..<NBUF}"
    using assms by (auto simp: linked_def chain_append)
  show "b_next (bc ! b) = hd (ys @ [bhead])" using c(1) by (cases ys) auto
  show "b_prev (bc ! b) = last (bhead # xs)" using c(2) by (cases xs rule: rev_cases) auto
  show "b < NBUF" using c(4) by auto
  show "hd (ys @ [bhead]) \<noteq> b" "hd (ys @ [bhead]) \<le> NBUF" using c(3,4) by (cases ys; auto)+
  show "last (bhead # xs) \<noteq> b" "last (bhead # xs) \<le> NBUF" using c(3,4) by (cases xs rule: rev_cases; auto)+
qed

lemma unlinked_linked:
  assumes "linked bc (xs @ b # ys)"
  shows "linked (unlinked b bc) (xs @ ys)"
proof -
  let ?n = "hd (ys @ [bhead])" and ?p = "last (bhead # xs)"
  note l = linked_split[OF assms]
  have d: "distinct (xs @ b # ys)" "set (xs @ b # ys) \<subseteq> {..<NBUF}" "length bc = NBUF + 1"
    "chain (\<lambda>i. b_next (bc ! i)) bhead xs b" "chain (\<lambda>i. b_next (bc ! i)) b ys bhead"
    "chain (\<lambda>i. b_prev (bc ! i)) bhead (rev ys) b" "chain (\<lambda>i. b_prev (bc ! i)) b (rev xs) bhead"
    using assms by (auto simp: linked_def chain_append)
  have h: "bhead \<notin> set xs" "bhead \<notin> set ys" using d(2) by auto
  have u: "unlinked b bc = (bc[?n := (bc ! ?n)\<lparr>b_prev := ?p\<rparr>])[?p := (bc[?n := (bc ! ?n)\<lparr>b_prev := ?p\<rparr>] ! ?p)\<lparr>b_next := ?n\<rparr>]"
    by (simp add: unlinked_def l(1,2) Let_def)
  have nx: "(\<lambda>i. b_next (unlinked b bc ! i)) = (\<lambda>i. b_next (bc ! i))(?p := ?n)"
    unfolding u using l(6,7) d(3) by (simp add: links_upd)
  have pv: "(\<lambda>i. b_prev (unlinked b bc ! i)) = (\<lambda>i. b_prev (bc ! i))(?n := ?p)"
    unfolding u using l(6,7) d(3) by (simp add: links_upd)
  have "chain ((\<lambda>i. b_next (bc ! i))(?p := ?n)) bhead (xs @ ys) bhead"
  proof -
    have a: "chain ((\<lambda>i. b_next (bc ! i))(?p := ?n)) bhead xs ?n" using chain_relink[OF d(4)] d(1) h(1) by auto
    show ?thesis
    proof (cases ys)
      case (Cons y zs)
      have "?p \<notin> set (y # zs)" using d(1) h last_in_set[of "bhead # xs"] Cons by auto
      then have "chain ((\<lambda>i. b_next (bc ! i))(?p := ?n)) y zs bhead" using d(5) Cons by simp
      with a Cons show ?thesis by (simp add: chain_append)
    qed (use a in simp)
  qed
  moreover have "chain ((\<lambda>i. b_prev (bc ! i))(?n := ?p)) bhead (rev (xs @ ys)) bhead"
  proof -
    have n: "?n = last (bhead # rev ys)" by (cases ys) auto
    have a: "chain ((\<lambda>i. b_prev (bc ! i))(?n := ?p)) bhead (rev ys) ?p"
      unfolding n using chain_relink[OF d(6)] d(1) h(2) by auto
    show ?thesis
    proof (cases xs rule: rev_cases)
      case (snoc zs y)
      have "?n \<notin> set (y # rev zs)" using d(1) h snoc by (cases ys) auto
      then have "chain ((\<lambda>i. b_prev (bc ! i))(?n := ?p)) y (rev zs) bhead" using d(7) snoc by simp
      with a snoc show ?thesis by (simp add: chain_append)
    qed (use a in simp)
  qed
  ultimately show ?thesis using d nx pv by (auto simp: linked_def u simp del: last.simps)
qed

lemma pushed_linked:
  assumes "linked bc ord" "b < NBUF" "b \<notin> set ord"
  shows "linked (pushed b bc) (b # ord)"
proof -
  let ?f = "hd (ord @ [bhead])"
  note e = linked_ends[OF assms(1)]
  have d: "distinct ord" "set ord \<subseteq> {..<NBUF}" "length bc = NBUF + 1"
    "chain (\<lambda>i. b_next (bc ! i)) bhead ord bhead" "chain (\<lambda>i. b_prev (bc ! i)) bhead (rev ord) bhead"
    using assms(1) unfolding linked_def by blast+
  have f: "?f \<le> NBUF" "?f \<noteq> b" using d(2) assms(2,3) by (cases ord; auto)+
  have h: "bhead \<notin> set ord" using d(2) by auto
  define bc1 where "bc1 = bc[b := b_prev_update (\<lambda>_. bhead) (b_next_update (\<lambda>_. ?f) (bc ! b))]"
  have bc1: "(\<lambda>i. b_next (bc1 ! i)) = (\<lambda>i. b_next (bc ! i))(b := ?f)" "(\<lambda>i. b_prev (bc1 ! i)) = (\<lambda>i. b_prev (bc ! i))(b := bhead)"
    "length bc1 = NBUF + 1"
    using assms(2) d(3) by (auto simp: bc1_def fun_eq_iff nth_list_update)
  have p: "pushed b bc = (bc1[?f := b_prev_update (\<lambda>_. b) (bc1 ! ?f)])
      [bhead := b_next_update (\<lambda>_. b) (bc1[?f := b_prev_update (\<lambda>_. b) (bc1 ! ?f)] ! bhead)]"
    by (simp add: pushed_def e(1)[simplified] Let_def bc1_def)
  have nx: "(\<lambda>i. b_next (pushed b bc ! i)) = (\<lambda>i. b_next (bc ! i))(b := ?f, bhead := b)"
    unfolding p using f(1) bc1 by (simp add: links_upd)
  have pv: "(\<lambda>i. b_prev (pushed b bc ! i)) = (\<lambda>i. b_prev (bc ! i))(b := bhead, ?f := b)"
    unfolding p using f(1) bc1 by (simp add: links_upd)
  have "chain ((\<lambda>i. b_next (bc ! i))(b := ?f, bhead := b)) bhead (b # ord) bhead"
  proof (cases ord)
    case (Cons x xs)
    then have "chain (\<lambda>i. b_next (bc ! i)) x xs bhead" using d(4) by simp
    then have "chain ((\<lambda>i. b_next (bc ! i))(b := ?f, bhead := b)) x xs bhead" using assms(3) h Cons by simp
    then show ?thesis using Cons assms(2) by simp
  qed (use assms(2) in simp)
  moreover have "chain ((\<lambda>i. b_prev (bc ! i))(b := bhead, ?f := b)) bhead (rev (b # ord)) bhead"
  proof -
    have l: "last (bhead # rev ord) = ?f" by (cases ord) auto
    have "distinct (bhead # rev ord)" "b \<notin> set (bhead # rev ord)" using d(1) h assms(2,3) by auto
    then have "chain ((\<lambda>i. b_prev (bc ! i))(b := bhead, last (bhead # rev ord) := b)) bhead (rev ord) b"
      using d(5) by (intro chain_relink) simp_all
    then show ?thesis using f(2) unfolding l by (simp add: chain_append)
  qed
  ultimately show ?thesis using d assms nx pv by (simp add: linked_def p bc1(3))
qed

lemma unlink_buf_run:
  assumes "linked (bcache s) (xs @ b # ys)"
  shows "unlink_buf b s = Ok () (s\<lparr>bcache := unlinked b (bcache s)\<rparr>)"
  using linked_split[OF assms] assms
  by (simp add: unlink_buf_def unlinked_def kop_simps getb_def setb_def Let_def linked_def)

lemma push_front_run:
  assumes "b < NBUF" "length (bcache s) = NBUF + 1"
  shows "push_front b s = Ok () (s\<lparr>bcache := pushed b (bcache s)\<rparr>)"
  using assms by (simp add: push_front_def pushed_def kop_simps getb_def setb_def Let_def)

text \<open>The buffer's new list position is the front; nothing but links changed.\<close>

definition front :: "nat \<Rightarrow> buf list \<Rightarrow> buf list" where
  "front b bc = pushed b (unlinked b bc)"

lemma front_lru:
  assumes "lru bc ord" "b < NBUF"
  shows "lru (front b bc) (b # remove1 b ord)"
proof -
  have l: "linked bc ord" "set ord = {..<NBUF}" using assms(1) by (simp_all add: lru_linked)
  then obtain xs ys where o: "ord = xs @ b # ys" "b \<notin> set xs" using assms(2) split_list_first[of b ord] by auto
  have b: "b \<notin> set (xs @ ys)" using l(1) o by (simp add: linked_def)
  have "remove1 b ord = xs @ ys" using o by (simp add: remove1_append)
  moreover have "linked (front b bc) (b # xs @ ys)"
    unfolding front_def using l(1) o(1) by (intro pushed_linked[OF unlinked_linked assms(2) b]) simp
  moreover have "set (b # xs @ ys) = {..<NBUF}" using l(2) o(1) by auto
  ultimately show ?thesis by (simp only: lru_linked)
qed

lemma front_run:
  assumes "lru (bcache s) ord" "b < NBUF"
  shows "bindk (unlink_buf b) (\<lambda>_. push_front b) s = Ok () (s\<lparr>bcache := front b (bcache s)\<rparr>)"
proof -
  have l: "linked (bcache s) ord" "set ord = {..<NBUF}" using assms(1) by (simp_all add: lru_linked)
  then obtain xs ys where o: "ord = xs @ b # ys" using assms(2) split_list_first[of b ord] by auto
  have "length (unlinked b (bcache s)) = NBUF + 1" using l(1) by (simp add: unlinked_def linked_def Let_def)
  then show ?thesis
    using unlink_buf_run[of s xs b ys] push_front_run[of b "s\<lparr>bcache := unlinked b (bcache s)\<rparr>"] l(1) o assms(2)
    by (simp add: bindk_eq front_def)
qed

text \<open>Buffers that agree but for their links.\<close>

definition same_buf :: "buf \<Rightarrow> buf \<Rightarrow> bool" where
  "same_buf x y \<longleftrightarrow> b_valid x = b_valid y \<and> b_disk x = b_disk y \<and> b_dev x = b_dev y \<and> b_blockno x = b_blockno y \<and>
     b_refcnt x = b_refcnt y \<and> b_data x = b_data y"

definition relinks :: "buf list \<Rightarrow> buf list \<Rightarrow> bool" where
  "relinks bc' bc \<longleftrightarrow> length bc' = length bc \<and> (\<forall>i < length bc. same_buf (bc' ! i) (bc ! i))"

lemma relinks_intros:
  "relinks bc bc"
  "relinks bc' bc \<Longrightarrow> relinks (bc'[i := (bc' ! i)\<lparr>b_next := v\<rparr>]) bc"
  "relinks bc' bc \<Longrightarrow> relinks (bc'[i := (bc' ! i)\<lparr>b_prev := v\<rparr>]) bc"
  "relinks bc' bc \<Longrightarrow> relinks (bc'[i := (bc' ! i)\<lparr>b_next := v, b_prev := w\<rparr>]) bc"
  by (auto simp: relinks_def) (cases "i < length bc"; auto simp: nth_list_update same_buf_def)+

lemma front_relinks: "relinks (front b bc) bc"
  unfolding front_def pushed_def unlinked_def Let_def by (intro relinks_intros)

lemma length_front [simp]: "length (front b bc) = length bc"
  by (simp add: front_def pushed_def unlinked_def Let_def)

section \<open>The abstract cache\<close>

text \<open>The buffer that caches a block of device \<open>d\<close>; a block is cached at most once.\<close>

definition caches :: "u32 \<Rightarrow> u32 \<Rightarrow> buf \<Rightarrow> bool" where
  "caches d bn x \<longleftrightarrow> b_dev x = d \<and> b_blockno x = bn"

definition cblock :: "u32 \<Rightarrow> buf list \<Rightarrow> u32 \<Rightarrow> nat option" where
  "cblock d bc bn = find (\<lambda>i. caches d bn (bc ! i)) [0..<NBUF]"

definition uniq :: "u32 \<Rightarrow> buf list \<Rightarrow> bool" where
  "uniq d bc \<longleftrightarrow> (\<forall>i < NBUF. \<forall>j < NBUF. \<forall>bn. caches d bn (bc ! i) \<and> caches d bn (bc ! j) \<longrightarrow> i = j)"

text \<open>What a block holds for the users of the cache, and how many references it has.\<close>

definition bview :: "u32 \<Rightarrow> buf list \<Rightarrow> (u32 \<Rightarrow> block) \<Rightarrow> u32 \<Rightarrow> block" where
  "bview d bc dk bn = (case cblock d bc bn of None \<Rightarrow> dk bn | Some i \<Rightarrow> if b_valid (bc ! i) then b_data (bc ! i) else dk bn)"

definition brefs :: "u32 \<Rightarrow> buf list \<Rightarrow> u32 \<Rightarrow> nat" where
  "brefs d bc bn = (case cblock d bc bn of None \<Rightarrow> 0 | Some i \<Rightarrow> unat (b_refcnt (bc ! i)))"

lemma find_unique:
  assumes "\<And>i j. i \<in> set xs \<Longrightarrow> j \<in> set xs \<Longrightarrow> P i \<Longrightarrow> P j \<Longrightarrow> i = j"
  shows "find P xs = Some i \<longleftrightarrow> i \<in> set xs \<and> P i"
proof (cases "find P xs")
  case None
  then have "\<forall>x \<in> set xs. \<not> P x" by (auto simp: find_None_iff)
  with None show ?thesis by auto
next
  case (Some k)
  then have "k \<in> set xs" "P k" by (auto simp: find_Some_iff)
  with Some assms show ?thesis by auto
qed

lemma find_SomeD: "find P xs = Some i \<Longrightarrow> i \<in> set xs \<and> P i"
  by (auto simp: find_Some_iff)

lemma cblock_Some: "uniq d bc \<Longrightarrow> cblock d bc bn = Some i \<longleftrightarrow> i < NBUF \<and> caches d bn (bc ! i)"
  unfolding cblock_def by (subst find_unique) (auto simp: uniq_def)

lemma cblock_None: "cblock d bc bn = None \<longleftrightarrow> (\<forall>i < NBUF. \<not> caches d bn (bc ! i))"
  by (auto simp: cblock_def find_None_iff)

lemma option_eqI: "(\<And>i. x = Some i \<longleftrightarrow> y = Some i) \<Longrightarrow> x = y"
  by (cases x; cases y) auto

text \<open>How the abstract view follows the changes of the buffers: links, one buffer's contents, its block.\<close>

lemma relinks_view:
  assumes "relinks bc' bc" "length bc = NBUF + 1"
  shows "cblock d bc' = cblock d bc" "uniq d bc' = uniq d bc" "bview d bc' = bview d bc" "brefs d bc' = brefs d bc"
proof -
  have s: "same_buf (bc' ! i) (bc ! i)" if "i < NBUF" for i using assms that by (simp add: relinks_def)
  then have c: "caches d bn (bc' ! i) = caches d bn (bc ! i)" if "i < NBUF" for i bn
    using that by (simp add: same_buf_def caches_def)
  show b: "cblock d bc' = cblock d bc" unfolding cblock_def fun_eq_iff
    using c by (intro allI find_cong) auto
  show "uniq d bc' = uniq d bc" using c by (auto simp: uniq_def)
  have lt: "i < NBUF" if "cblock d bc bn = Some i" for i bn
    using that by (auto simp: cblock_def find_Some_iff)
  show "bview d bc' = bview d bc" "brefs d bc' = brefs d bc"
    using s[OF lt] by (auto simp: bview_def brefs_def b fun_eq_iff same_buf_def split: option.splits)
qed

lemma update_view:
  assumes "uniq d bc" "cblock d bc bn = Some i" "length bc = NBUF + 1" "caches d bn x"
  shows "cblock d (bc[i := x]) = cblock d bc" "uniq d (bc[i := x])"
    "bview d (bc[i := x]) dk = (bview d bc dk)(bn := if b_valid x then b_data x else dk bn)"
    "brefs d (bc[i := x]) = (brefs d bc)(bn := unat (b_refcnt x))"
proof -
  have i: "i < NBUF" "caches d bn (bc ! i)" using assms(1,2) by (auto simp: cblock_Some)
  have c: "caches d b (bc[i := x] ! j) = caches d b (bc ! j)" if "j < NBUF" for j b
    using that i assms(3,4) by (auto simp: nth_list_update caches_def)
  show b: "cblock d (bc[i := x]) = cblock d bc" unfolding cblock_def fun_eq_iff
    using c by (intro allI find_cong) auto
  show "uniq d (bc[i := x])" using c assms(1) by (auto simp: uniq_def)
  have o: "bc[i := x] ! j = bc ! j" if "b \<noteq> bn" "cblock d bc b = Some j" for b j
    using that i assms(1) by (cases "j = i") (auto simp: cblock_Some caches_def)
  show "bview d (bc[i := x]) dk = (bview d bc dk)(bn := if b_valid x then b_data x else dk bn)"
    "brefs d (bc[i := x]) = (brefs d bc)(bn := unat (b_refcnt x))"
    using i assms(2,3) o by (auto simp: bview_def brefs_def b fun_eq_iff split: option.splits)
qed

lemma recycle_view:
  assumes "uniq d bc" "cblock d bc bn = None" "length bc = NBUF + 1" "i < NBUF" "caches d bn x" "\<not> b_valid x"
    "b_refcnt (bc ! i) = 0" "\<And>b. brefs d bc b = 0 \<Longrightarrow> bview d bc dk b = dk b"
  shows "cblock d (bc[i := x]) bn = Some i" "uniq d (bc[i := x])" "bview d (bc[i := x]) dk = bview d bc dk"
    "brefs d (bc[i := x]) = (brefs d bc)(bn := unat (b_refcnt x))"
    "\<And>b j. j \<noteq> i \<Longrightarrow> cblock d (bc[i := x]) b = Some j \<longleftrightarrow> cblock d bc b = Some j"
proof -
  have n: "\<not> caches d bn (bc ! j)" if "j < NBUF" for j using assms(2) that by (auto simp: cblock_None)
  have c: "caches d b (bc[i := x] ! j) \<longleftrightarrow> (if j = i then b = bn else caches d b (bc ! j))" if "j < NBUF" for j b
    using that assms(3-5) by (auto simp: nth_list_update caches_def)
  show u: "uniq d (bc[i := x])" unfolding uniq_def
  proof (intro allI impI)
    fix j k b assume jk: "j < NBUF" "k < NBUF" "caches d b (bc[i := x] ! j) \<and> caches d b (bc[i := x] ! k)"
    then show "j = k" using c[OF jk(1)] c[OF jk(2)] n[OF jk(1)] n[OF jk(2)] assms(1) unfolding uniq_def
      by (cases "j = i"; cases "k = i") auto
  qed
  show s: "cblock d (bc[i := x]) bn = Some i" using c[OF assms(4)] assms(4) by (simp add: cblock_Some[OF u])
  show j: "cblock d (bc[i := x]) b = Some j \<longleftrightarrow> cblock d bc b = Some j" if "j \<noteq> i" for b j
    using that c by (auto simp: cblock_Some[OF u] cblock_Some[OF assms(1)])
  have r: "cblock d (bc[i := x]) b = (if cblock d bc b = Some i then None else cblock d bc b)" if "b \<noteq> bn" for b
  proof (rule option_eqI)
    fix k
    have "cblock d (bc[i := x]) b \<noteq> Some i" using that c[OF assms(4)] by (simp add: cblock_Some[OF u])
    then show "cblock d (bc[i := x]) b = Some k \<longleftrightarrow> (if cblock d bc b = Some i then None else cblock d bc b) = Some k"
      using j[of k b] by (cases "k = i") auto
  qed
  have z: "brefs d bc b = 0" if "cblock d bc b = Some i" for b using that assms(7) by (simp add: brefs_def)
  have nn: "brefs d bc bn = 0" using assms(2) by (simp add: brefs_def)
  show "bview d (bc[i := x]) dk = bview d bc dk"
  proof
    fix b
    show "bview d (bc[i := x]) dk b = bview d bc dk b"
    proof (cases "b = bn")
      case True
      then show ?thesis using s assms(3,4,6) assms(8)[OF nn] by (simp add: bview_def)
    next
      case False
      show ?thesis
      proof (cases "cblock d bc b = Some i")
        case True
        then show ?thesis using r[OF False] assms(8)[OF z[OF True]] by (simp add: bview_def)
      next
        case o: False
        then show ?thesis using r[OF False] by (auto simp: bview_def split: option.splits)
      qed
    qed
  qed
  show "brefs d (bc[i := x]) = (brefs d bc)(bn := unat (b_refcnt x))"
  proof
    fix b
    show "brefs d (bc[i := x]) b = ((brefs d bc)(bn := unat (b_refcnt x))) b"
      using s r[of b] z[of b] assms(3,4) by (auto simp: brefs_def split: option.splits if_splits)
  qed
qed

text \<open>
  The cache as a client sees it: \<open>V\<close> has the contents of every block of device \<open>d\<close>, \<open>R\<close> counts
  the references to a block, and \<open>H\<close> names the buffers process \<open>pr\<close> holds locked; no other
  process holds a buffer. A block nobody refers to is as on the disk.
\<close>

definition cache :: "u32 \<Rightarrow> nat \<Rightarrow> 'z bio_st_scheme \<Rightarrow> (u32 \<Rightarrow> block) \<Rightarrow> (u32 \<Rightarrow> nat) \<Rightarrow> (u32 \<rightharpoonup> nat) \<Rightarrow> bool" where
  "cache d pr s V R H \<longleftrightarrow> calm pr s \<and> (\<exists>ord. lru (bcache s) ord) \<and> uniq d (bcache s) \<and>
     V = bview d (bcache s) (disk s) \<and> R = brefs d (bcache s) \<and> (\<forall>bn. R bn = 0 \<longrightarrow> V bn = disk s bn) \<and>
     (\<forall>i < NBUF. b_dev (bcache s ! i) \<noteq> d \<longrightarrow> b_refcnt (bcache s ! i) = 0) \<and>
     (\<forall>i. sl_locked (slocks s (BufLk i)) \<noteq> 0 \<longrightarrow> i \<in> ran H) \<and>
     (\<forall>bn i. H bn = Some i \<longrightarrow> cblock d (bcache s) bn = Some i \<and> b_valid (bcache s ! i) \<and> R bn \<noteq> 0 \<and> mine pr (BufLk i) s)"

lemma cacheD:
  assumes "cache d pr s V R H"
  shows "calm pr s" "\<exists>ord. lru (bcache s) ord" "uniq d (bcache s)" "V = bview d (bcache s) (disk s)" "R = brefs d (bcache s)"
    "\<And>bn. R bn = 0 \<Longrightarrow> V bn = disk s bn" "\<And>i. i < NBUF \<Longrightarrow> b_dev (bcache s ! i) \<noteq> d \<Longrightarrow> b_refcnt (bcache s ! i) = 0"
    "\<And>i. sl_locked (slocks s (BufLk i)) \<noteq> 0 \<Longrightarrow> i \<in> ran H"
    "H bn = Some i \<Longrightarrow> cblock d (bcache s) bn = Some i" "H bn = Some i \<Longrightarrow> b_valid (bcache s ! i)" "H bn = Some i \<Longrightarrow> R bn \<noteq> 0"
    "H bn = Some i \<Longrightarrow> mine pr (BufLk i) s" "length (bcache s) = NBUF + 1"
  using assms unfolding cache_def lru_def by blast+

text \<open>What the operations of the cache leave alone.\<close>

definition io_frame :: "'z bio_st_scheme \<Rightarrow> 'z bio_st_scheme \<Rightarrow> bool" where
  "io_frame s t \<longleftrightarrow> (\<exists>ps sl bc dw. t = s\<lparr>procs := ps, slocks := sl, bcache := bc, dwrites := dw\<rparr>)"

lemma io_frameI: "io_frame s (s\<lparr>procs := ps, slocks := sl, bcache := bc, dwrites := dw\<rparr>)"
  unfolding io_frame_def by blast

lemma io_frameI_locks: "io_frame s (s\<lparr>bcache := bc, slocks := sl\<rparr>)"
  unfolding io_frame_def
  by (intro exI[of _ "procs s"] exI[of _ sl] exI[of _ bc] exI[of _ "dwrites s"]) (rule bio_st.equality, simp_all)

lemma io_frame_refl [simp]: "io_frame s s"
  using io_frameI[of s "dwrites s" "bcache s" "slocks s" "procs s"] by simp

lemma io_frame_trans: "io_frame s t \<Longrightarrow> io_frame t u \<Longrightarrow> io_frame s u"
proof -
  assume "io_frame s t" "io_frame t u"
  then obtain ps sl bc dw ps' sl' bc' dw' where
    "t = s\<lparr>procs := ps, slocks := sl, bcache := bc, dwrites := dw\<rparr>"
    "u = t\<lparr>procs := ps', slocks := sl', bcache := bc', dwrites := dw'\<rparr>" unfolding io_frame_def by blast
  then have "u = s\<lparr>procs := ps', slocks := sl', bcache := bc', dwrites := dw'\<rparr>" by simp
  then show ?thesis using io_frameI by metis
qed

text \<open>A block that is not in the cache finds a buffer if fewer than \<open>NBUF\<close> blocks are referenced.\<close>

lemma free_buffer:
  assumes "cache d pr s V R H" "finite {b. R b \<noteq> 0}" "card {b. R b \<noteq> 0} < NBUF"
  shows "\<exists>i < NBUF. b_refcnt (bcache s ! i) = 0"
proof (rule ccontr)
  assume "\<not> ?thesis"
  then have n: "b_refcnt (bcache s ! i) \<noteq> 0" if "i < NBUF" for i using that by auto
  note c = cacheD[OF assms(1)]
  have dev: "b_dev (bcache s ! i) = d" if "i < NBUF" for i using c(7)[OF that] n[OF that] by blast
  have blk: "cblock d (bcache s) (b_blockno (bcache s ! i)) = Some i" if "i < NBUF" for i
    using that dev by (simp add: cblock_Some[OF c(3)] caches_def)
  have "inj_on (\<lambda>i. b_blockno (bcache s ! i)) {..<NBUF}"
    using blk by (intro inj_onI) (metis lessThan_iff option.inject)
  moreover have "R (b_blockno (bcache s ! i)) \<noteq> 0" if "i < NBUF" for i
    using blk[OF that] n[OF that] by (simp add: c(5) brefs_def unat_eq_zero)
  then have "(\<lambda>i. b_blockno (bcache s ! i)) ` {..<NBUF} \<subseteq> {b. R b \<noteq> 0}" by auto
  ultimately show False using assms(2,3) card_inj_on_le[of _ "{..<NBUF}" "{b. R b \<noteq> 0}"] by fastforce
qed

section \<open>Operations\<close>

lemma bcache_entered [simp]: "bcache (entered l s) = bcache s" "disk (entered l s) = disk s" "dwrites (entered l s) = dwrites s"
  by (simp_all add: entered_def disk_def)

lemma in_section_bcache [simp]: "in_section l s (t\<lparr>bcache := x\<rparr>) \<longleftrightarrow> in_section l s t"
  by (simp add: in_section_def)

lemma disk_simps [simp]: "disk (s\<lparr>bcache := x\<rparr>) = disk s" "disk (s\<lparr>slocks := y\<rparr>) = disk s" "disk (s\<lparr>procs := z\<rparr>) = disk s"
  by (simp_all add: disk_def)

lemma calm_io [simp]: "calm pr (s\<lparr>bcache := x\<rparr>) \<longleftrightarrow> calm pr s" "calm pr (s\<lparr>slocks := y\<rparr>) \<longleftrightarrow> calm pr s"
  "calm pr (s\<lparr>dwrites := w\<rparr>) \<longleftrightarrow> calm pr s"
  by (auto simp: calm_def cs_cpus_def lock_free_def cpu_defs)

text \<open>A critical section of the cache that changes the buffers only.\<close>

lemma bcache_section:
  fixes s :: "'z bio_st_scheme"
  assumes "calm pr s"
  shows "release BcacheLock ((entered BcacheLock s)\<lparr>bcache := bc\<rparr>) = Ok () (s\<lparr>bcache := bc\<rparr>)"
proof -
  let ?t = "(entered BcacheLock s)\<lparr>bcache := bc\<rparr>"
  have "release BcacheLock ?t = Ok () (?t\<lparr>sstatus := sstatus s, cpus := cpus s, locks := locks s\<rparr>)"
    by (rule calm_release[OF assms]) simp
  then show ?thesis by (simp add: entered_def)
qed

text \<open>Taking a reference: the block's own buffer if it is cached, else the least recently used free one.\<close>

definition bget_choice :: "u32 \<Rightarrow> u32 \<Rightarrow> nat list \<Rightarrow> buf list \<Rightarrow> (nat \<times> buf) option" where
  "bget_choice d bn ord bc =
     (case cblock d bc bn of Some i \<Rightarrow> Some (i, (bc ! i)\<lparr>b_refcnt := b_refcnt (bc ! i) + 1\<rparr>)
      | None \<Rightarrow> (case find (\<lambda>i. b_refcnt (bc ! i) = 0) (rev ord) of None \<Rightarrow> None
        | Some i \<Rightarrow> Some (i, (bc ! i)\<lparr>b_dev := d, b_blockno := bn, b_valid := False, b_refcnt := 1\<rparr>)))"

lemma find_order:
  assumes "uniq d bc" "set ord = {..<NBUF}"
  shows "find (\<lambda>b. b_dev (bc ! b) = d \<and> b_blockno (bc ! b) = bn) ord = cblock d bc bn"
proof (rule option_eqI)
  fix i
  have "find (\<lambda>b. caches d bn (bc ! b)) ord = Some i \<longleftrightarrow> i \<in> set ord \<and> caches d bn (bc ! i)"
    using assms by (intro find_unique) (auto simp: uniq_def)
  then show "find (\<lambda>b. b_dev (bc ! b) = d \<and> b_blockno (bc ! b) = bn) ord = Some i \<longleftrightarrow> cblock d bc bn = Some i"
    using assms by (simp add: cblock_Some caches_def)
qed

lemma bget_run:
  assumes "calm pr s" "lru (bcache s) ord" "uniq d (bcache s)" "bget_choice d bn ord (bcache s) = Some (i, x)"
    "sl_locked (slocks s (BufLk i)) = 0"
  shows "bget d bn s = Ok i (s\<lparr>bcache := (bcache s)[i := x],
    slocks := (slocks s)(BufLk i := sl_taken (p_pid (procs s ! pr)) (slocks s (BufLk i)))\<rparr>)"
proof -
  let ?e = "entered BcacheLock s"
  have o: "set ord = {..<NBUF}" "chain (\<lambda>i. b_next (bcache ?e ! i)) bhead ord bhead"
    "chain (\<lambda>i. b_prev (bcache ?e ! i)) bhead (rev ord) bhead" using assms(2) by (auto simp: lru_def)
  have h: "bhead \<notin> set ord" "bhead \<notin> set (rev ord)" using o(1) by auto
  have f: "loopk (bget_find d bn) (b_next (bcache s ! bhead)) ?e = Ok (cblock d (bcache s) bn) ?e"
    using bget_find_loop[OF o(2) h(1), of d bn] find_order[OF assms(3) o(1), of bn] by simp
  have v: "loopk bget_victim (b_prev (bcache s ! bhead)) ?e = Ok (find (\<lambda>i. b_refcnt (bcache s ! i) = 0) (rev ord)) ?e"
    using bget_victim_loop[OF o(3) h(2)] by simp
  have rel: "release BcacheLock (?e\<lparr>bcache := (bcache s)[i := x]\<rparr>) = Ok () (s\<lparr>bcache := (bcache s)[i := x]\<rparr>)"
    by (rule bcache_section[OF assms(1)])
  have acq: "acquiresleep (BufLk i) (s\<lparr>bcache := (bcache s)[i := x]\<rparr>) = Ok () (s\<lparr>bcache := (bcache s)[i := x],
    slocks := (slocks s)(BufLk i := sl_taken (p_pid (procs s ! pr)) (slocks s (BufLk i)))\<rparr>)"
    using acquiresleep_calm[of pr "s\<lparr>bcache := (bcache s)[i := x]\<rparr>" "BufLk i"] assms(1,5) by simp
  have bg: "bget d bn s = (case cblock d (bcache s) bn of
      Some b \<Rightarrow> bindk (setb b (\<lambda>x. x\<lparr>b_refcnt := b_refcnt x + 1\<rparr>)) (\<lambda>_. bindk (release BcacheLock) (\<lambda>_.
         bindk (acquiresleep (BufLk b)) (\<lambda>_. returnk b))) ?e
    | None \<Rightarrow> (case find (\<lambda>i. b_refcnt (bcache s ! i) = 0) (rev ord) of
        Some b \<Rightarrow> bindk (setb b (\<lambda>x. x\<lparr>b_dev := d, b_blockno := bn, b_valid := False, b_refcnt := 1\<rparr>)) (\<lambda>_.
           bindk (release BcacheLock) (\<lambda>_. bindk (acquiresleep (BufLk b)) (\<lambda>_. returnk b))) ?e
      | None \<Rightarrow> Panic ''bget: no buffers''))"
    using f v calm_acquire[OF assms(1), of BcacheLock]
    by (simp add: bget_def bindk_eq bindk_getk panick_simp getb_def split: option.split)
  show ?thesis
  proof (cases "cblock d (bcache s) bn")
    case None
    then obtain v: "find (\<lambda>i. b_refcnt (bcache s ! i) = 0) (rev ord) = Some i"
      and "x = (bcache s ! i)\<lparr>b_dev := d, b_blockno := bn, b_valid := False, b_refcnt := 1\<rparr>"
      using assms(4) by (auto simp: bget_choice_def split: option.splits)
    then show ?thesis
      using rel acq unfolding bg None by (simp add: kop_simps setb_def)
  next
    case (Some j)
    then have "x = (bcache s ! i)\<lparr>b_refcnt := b_refcnt (bcache s ! i) + 1\<rparr>" "j = i"
      using assms(4) by (auto simp: bget_choice_def)
    then show ?thesis
      using rel acq unfolding bg Some by (simp add: kop_simps setb_def)
  qed
qed

text \<open>\<open>bread\<close> adds a reference and hands out the buffer, locked, with the block's contents.\<close>

lemma bget_choice_props:
  assumes "cache d pr s V R H" "lru (bcache s) ord" "R bn + 1 < 2 ^ 32" "H bn = None"
    "R bn \<noteq> 0 \<or> (\<exists>i < NBUF. b_refcnt (bcache s ! i) = 0)"
  obtains i x where "bget_choice d bn ord (bcache s) = Some (i, x)" "i < NBUF" "caches d bn x" "b_data x = b_data (bcache s ! i)"
    "uniq d ((bcache s)[i := x])" "cblock d ((bcache s)[i := x]) bn = Some i" "bview d ((bcache s)[i := x]) (disk s) = V"
    "brefs d ((bcache s)[i := x]) = R(bn := R bn + 1)" "sl_locked (slocks s (BufLk i)) = 0"
    "b_next x = b_next (bcache s ! i)" "b_prev x = b_prev (bcache s ! i)" "i \<notin> ran H"
    "\<And>b j. H b = Some j \<Longrightarrow> cblock d ((bcache s)[i := x]) b = Some j" "b_dev x = d" "b_valid x \<Longrightarrow> b_data x = V bn"
proof -
  note c = cacheD[OF assms(1)]
  have nr: "i \<notin> ran H \<Longrightarrow> sl_locked (slocks s (BufLk i)) = 0" for i using c(8) by blast
  show thesis
  proof (cases "cblock d (bcache s) bn")
    case (Some i)
    let ?x = "(bcache s ! i)\<lparr>b_refcnt := b_refcnt (bcache s ! i) + 1\<rparr>"
    have i: "i < NBUF" "caches d bn (bcache s ! i)" using Some by (simp_all add: cblock_Some[OF c(3)])
    have R: "R bn = unat (b_refcnt (bcache s ! i))" using Some by (simp add: c(5) brefs_def)
    have x: "caches d bn ?x" "unat (b_refcnt ?x) = R bn + 1"
      using i(2) R assms(3) by (simp_all add: caches_def unat_add_nowrap)
    note u = update_view[OF c(3) Some c(13) x(1)]
    have ni: "i \<notin> ran H"
    proof
      assume "i \<in> ran H"
      then obtain b where "H b = Some i" by (auto simp: ran_def)
      then have "b = bn" using c(9)[of b i] i by (auto simp: cblock_Some[OF c(3)] caches_def)
      then show False using \<open>H b = Some i\<close> assms(4) by simp
    qed
    have v: "(if b_valid ?x then b_data ?x else disk s bn) = V bn" using Some by (simp add: c(4) bview_def)
    show thesis
    proof (rule that[of i ?x])
      show "bget_choice d bn ord (bcache s) = Some (i, ?x)" using Some by (simp add: bget_choice_def)
      show "bview d ((bcache s)[i := ?x]) (disk s) = V" using u(3)[of "disk s"] v c(4) by auto
      show "brefs d ((bcache s)[i := ?x]) = R(bn := R bn + 1)" using u(4) x(2) c(5) by simp
      show "b_valid ?x \<Longrightarrow> b_data ?x = V bn" using v by simp
      show "H b = Some j \<Longrightarrow> cblock d ((bcache s)[i := ?x]) b = Some j" for b j using c(9) u(1) by metis
    qed (use i x u(1,2) Some ni nr in \<open>simp_all add: caches_def\<close>)
  next
    case None
    then have "R bn = 0" by (simp add: c(5) brefs_def)
    with assms(5) obtain k where "k < NBUF" "b_refcnt (bcache s ! k) = 0" by auto
    then obtain i where f: "find (\<lambda>i. b_refcnt (bcache s ! i) = 0) (rev ord) = Some i"
      using assms(2) by (cases "find (\<lambda>i. b_refcnt (bcache s ! i) = 0) (rev ord)") (auto simp: find_None_iff lru_def)
    then have i: "i < NBUF" "b_refcnt (bcache s ! i) = 0"
      using find_SomeD[OF f] assms(2) by (auto simp: lru_def)
    let ?x = "(bcache s ! i)\<lparr>b_dev := d, b_blockno := bn, b_valid := False, b_refcnt := 1\<rparr>"
    have x: "caches d bn ?x" "\<not> b_valid ?x" by (simp_all add: caches_def)
    note r = recycle_view[OF c(3) None c(13) i(1) x i(2), of "disk s"]
    have cl: "bview d (bcache s) (disk s) b = disk s b" if "brefs d (bcache s) b = 0" for b
      using c(6)[of b] that c(4,5) by simp
    have nH: "H b \<noteq> Some i" for b using c(9,11)[of b i] i(2) by (auto simp: c(5) brefs_def)
    then have ni: "i \<notin> ran H" by (auto simp: ran_def)
    show thesis
    proof (rule that[of i ?x])
      show "bget_choice d bn ord (bcache s) = Some (i, ?x)" using None f by (simp add: bget_choice_def)
      show "brefs d ((bcache s)[i := ?x]) = R(bn := R bn + 1)" using r(4)[OF cl] \<open>R bn = 0\<close> c(5) by simp
      show "cblock d ((bcache s)[i := ?x]) b = Some j" if "H b = Some j" for b j
      proof -
        have "j \<noteq> i" using that nH by auto
        then show ?thesis using c(9)[OF that] r(5)[OF cl] by simp
      qed
    qed (use i x r(1,2,3)[OF cl] ni nr c(4) in simp_all)
  qed
qed

lemma lru_update:
  assumes "lru bc ord" "b_next x = b_next (bc ! i)" "b_prev x = b_prev (bc ! i)"
  shows "lru (bc[i := x]) ord"
proof (rule lru_keep[OF assms(1)])
  show "b_next (bc[i := x] ! k) = b_next (bc ! k) \<and> b_prev (bc[i := x] ! k) = b_prev (bc ! k)" if "k < length bc" for k
    using that assms(2,3) by (cases "k = i") auto
qed simp

lemma bread_spec:
  assumes "cache d pr s V R H" "R bn + 1 < 2 ^ 32" "H bn = None" "R bn \<noteq> 0 \<or> (\<exists>i < NBUF. b_refcnt (bcache s ! i) = 0)"
  shows "\<exists>i t. bread d bn s = Ok i t \<and> cache d pr t V (R(bn := R bn + 1)) (H(bn \<mapsto> i)) \<and> io_frame s t \<and>
    dwrites t = dwrites s \<and> i < NBUF \<and> b_data (bcache t ! i) = V bn"
proof -
  note c = cacheD[OF assms(1)]
  obtain ord where o: "lru (bcache s) ord" using c(2) by blast
  obtain i x where
    x: "bget_choice d bn ord (bcache s) = Some (i, x)" "i < NBUF" "caches d bn x" "uniq d ((bcache s)[i := x])"
    "cblock d ((bcache s)[i := x]) bn = Some i" "bview d ((bcache s)[i := x]) (disk s) = V"
    "brefs d ((bcache s)[i := x]) = R(bn := R bn + 1)" "sl_locked (slocks s (BufLk i)) = 0"
    "b_next x = b_next (bcache s ! i)" "b_prev x = b_prev (bcache s ! i)" "i \<notin> ran H"
    "\<And>b j. H b = Some j \<Longrightarrow> cblock d ((bcache s)[i := x]) b = Some j" "b_valid x \<Longrightarrow> b_data x = V bn"
    by (rule bget_choice_props[OF assms(1) o assms(2-4)]) (rule that; assumption)
  let ?bc = "(bcache s)[i := x]" let ?sl = "(slocks s)(BufLk i := sl_taken (p_pid (procs s ! pr)) (slocks s (BufLk i)))"
  define y where "y = (if b_valid x then x else x\<lparr>b_data := disk s bn, b_valid := True\<rparr>)"
  let ?t = "s\<lparr>bcache := (bcache s)[i := y], slocks := ?sl\<rparr>"
  have bn: "b_blockno x = bn" using x(3) by (simp add: caches_def)
  have run: "bread d bn s = Ok i ?t"
    using bget_run[OF c(1) o c(3) x(1,8)] x(2) c(13) bn
    by (auto simp: bread_def kop_simps getb_def setb_def disk_rw_def y_def)
  have l: "length ?bc = NBUF + 1" "?bc[i := y] = (bcache s)[i := y]" using c(13) by simp_all
  have y: "caches d bn y" "b_valid y" "b_refcnt y = b_refcnt x" using x(3) by (simp_all add: y_def caches_def)
  note u = update_view[OF x(4,5) l(1) y(1), unfolded l(2)]
  have inv: "\<not> b_valid x \<Longrightarrow> V bn = disk s bn" using x(2,5,6) c(13) by (auto simp: bview_def)
  then have data: "b_data y = V bn" using x(13) by (auto simp: y_def)
  have R': "unat (b_refcnt y) = R bn + 1" using fun_cong[OF x(7), of bn] x(2,5) y(3) c(13) by (simp add: brefs_def)
  have "cache d pr ?t V (R(bn := R bn + 1)) (H(bn \<mapsto> i))"
    unfolding cache_def
  proof (intro conjI allI impI)
    show "calm pr ?t" using c(1) by simp
    show "\<exists>ord. lru (bcache ?t) ord" using lru_update[OF o, of y i] x(9,10) by (auto simp: y_def)
    show "uniq d (bcache ?t)" using u(2) by simp
    show "V = bview d (bcache ?t) (disk ?t)" using u(3)[of "disk s"] x(6) y(2) data by (auto simp: fun_eq_iff)
    show "R(bn := R bn + 1) = brefs d (bcache ?t)" using u(4) x(7) R' by (auto simp: fun_eq_iff)
    show "V b = disk ?t b" if "(R(bn := R bn + 1)) b = 0" for b using that c(6) by (auto split: if_splits)
    show "b_refcnt (bcache ?t ! k) = 0" if "k < NBUF" "b_dev (bcache ?t ! k) \<noteq> d" for k
      using that c(7)[OF that(1)] y(1) c(13) by (cases "k = i") (auto simp: caches_def)
    show "k \<in> ran (H(bn \<mapsto> i))" if "sl_locked (slocks ?t (BufLk k)) \<noteq> 0" for k
      using that c(8)[of k] ran_map_upd[of H bn i] assms(3) by (cases "k = i") auto
  next
    fix b k assume h: "(H(bn \<mapsto> i)) b = Some k"
    have "p_pid (procs ?t ! pr) = p_pid (procs s ! pr)" by simp
    show "cblock d (bcache ?t) b = Some k" using h x(5,12) u(1) by (auto split: if_splits)
    show "b_valid (bcache ?t ! k)" using h c(10) y(2) x(2,11) c(13)
      by (cases "b = bn") (auto simp: ran_def nth_list_update split: if_splits)
    show "(R(bn := R bn + 1)) b \<noteq> 0" using h c(11) by (auto split: if_splits)
    show "sl_locked (slocks ?t (BufLk k)) \<noteq> 0" "sl_pid (slocks ?t (BufLk k)) = p_pid (procs ?t ! pr)"
      using h c(12)[of b k] by (auto simp: sl_taken_def split: if_splits)
  qed
  moreover have "io_frame s ?t" by (rule io_frameI_locks)
  ultimately show ?thesis using run x(2) data c(13) by (intro exI[of _ i] exI[of _ ?t]) simp
qed

text \<open>The holder of a buffer changes its contents.\<close>

lemma set_data_spec:
  assumes "cache d pr s V R H" "H bn = Some i"
  shows "cache d pr (s\<lparr>bcache := (bcache s)[i := (bcache s ! i)\<lparr>b_data := y\<rparr>]\<rparr>) (V(bn := y)) R H"
    "i < NBUF" "b_data (bcache s ! i) = V bn" "b_blockno (bcache s ! i) = bn"
proof -
  note c = cacheD[OF assms(1)] let ?x = "(bcache s ! i)\<lparr>b_data := y\<rparr>"
  note h = c(9)[OF assms(2)] c(10)[OF assms(2)] c(11)[OF assms(2)]
  have i: "i < NBUF" "caches d bn (bcache s ! i)" using h(1) by (simp_all add: cblock_Some[OF c(3)])
  then show "i < NBUF" "b_blockno (bcache s ! i) = bn" by (simp_all add: caches_def)
  show "b_data (bcache s ! i) = V bn" using h by (simp add: c(4) bview_def)
  have x: "caches d bn ?x" "b_valid ?x" using i h(2) by (simp_all add: caches_def)
  note u = update_view[OF c(3) h(1) c(13) x(1)]
  obtain ord where o: "lru (bcache s) ord" using c(2) by blast
  let ?t = "s\<lparr>bcache := (bcache s)[i := ?x]\<rparr>"
  have R: "R bn = unat (b_refcnt (bcache s ! i))" using h(1) by (simp add: c(5) brefs_def)
  show "cache d pr ?t (V(bn := y)) R H"
    unfolding cache_def
  proof (intro conjI allI impI)
    show "\<exists>ord. lru (bcache ?t) ord" using lru_update[OF o, of ?x i] by auto
    show "V(bn := y) = bview d (bcache ?t) (disk ?t)" using u(3)[of "disk s"] x(2) c(4) by simp
    show "R = brefs d (bcache ?t)" using u(4) R c(5) by (simp add: fun_eq_iff)
    show "(V(bn := y)) b = disk ?t b" if "R b = 0" for b using that c(6) h(3) by auto
    show "b_refcnt (bcache ?t ! k) = 0" if "k < NBUF" "b_dev (bcache ?t ! k) \<noteq> d" for k
      using that c(7)[OF that(1)] x(1) c(13) by (cases "k = i") (auto simp: caches_def)
    show "b_valid (bcache ?t ! k)" if "H b = Some k" for b k
      using c(10)[OF that] x(2) i(1) c(13) by (cases "k = i") auto
  qed (use c u in auto)
qed

lemma replay_append: "replay dk (xs @ ys) = replay (replay dk xs) ys"
  by (induction xs arbitrary: dk) auto

lemma disk_write: "disk (s\<lparr>dwrites := dwrites s @ [(bn, y)]\<rparr>) = (disk s)(bn := y)"
  by (simp add: disk_def replay_append)

text \<open>\<open>bwrite\<close> makes the disk's block what the buffer holds.\<close>

lemma bwrite_spec:
  assumes "cache d pr s V R H" "H bn = Some i"
  shows "bwrite i s = Ok () (s\<lparr>dwrites := dwrites s @ [(bn, V bn)]\<rparr>)"
    "cache d pr (s\<lparr>dwrites := dwrites s @ [(bn, V bn)]\<rparr>) V R H"
proof -
  note c = cacheD[OF assms(1)]
  note h = c(9)[OF assms(2)] c(10)[OF assms(2)] c(11)[OF assms(2)] c(12)[OF assms(2)]
  note d = set_data_spec(3,4)[OF assms]
  show "bwrite i s = Ok () (s\<lparr>dwrites := dwrites s @ [(bn, V bn)]\<rparr>)"
    using h(4) d holdingsleep_calm[OF c(1), of "BufLk i"] by (simp add: bwrite_def kop_simps disk_rw_def)
  let ?t = "s\<lparr>dwrites := dwrites s @ [(bn, V bn)]\<rparr>"
  have V: "V = bview d (bcache s) (disk ?t)"
  proof
    fix b show "V b = bview d (bcache s) (disk ?t) b"
      using h(1,2) c(4) unfolding disk_write by (cases "b = bn") (auto simp: bview_def split: option.splits)
  qed
  show "cache d pr ?t V R H"
    unfolding cache_def
  proof (intro conjI allI impI)
    show "V = bview d (bcache ?t) (disk ?t)" using V by simp
    show "V b = disk ?t b" if "R b = 0" for b using that c(6)[OF that] by (auto simp: disk_write)
  qed (use c in auto)
qed

text \<open>Dropping a reference; the last one goes only when the disk has the contents.\<close>

definition dropped :: "nat \<Rightarrow> buf list \<Rightarrow> buf list" where
  "dropped i bc = bc[i := (bc ! i)\<lparr>b_refcnt := b_refcnt (bc ! i) - 1\<rparr>]"

lemma dropped_view:
  assumes "cache d pr s V R H" "cblock d (bcache s) bn = Some i" "R bn \<noteq> 0" "R bn = 1 \<longrightarrow> V bn = disk s bn"
  shows "uniq d (dropped i (bcache s))" "cblock d (dropped i (bcache s)) = cblock d (bcache s)"
    "bview d (dropped i (bcache s)) (disk s) = V" "brefs d (dropped i (bcache s)) = R(bn := R bn - 1)"
    "\<And>b. (R(bn := R bn - 1)) b = 0 \<Longrightarrow> V b = disk s b" "lru (bcache s) ord \<Longrightarrow> lru (dropped i (bcache s)) ord"
    "length (dropped i (bcache s)) = NBUF + 1" "i < NBUF"
    "\<And>k. k < NBUF \<Longrightarrow> b_dev (dropped i (bcache s) ! k) \<noteq> d \<Longrightarrow> b_refcnt (dropped i (bcache s) ! k) = 0"
    "\<And>k. b_valid (dropped i (bcache s) ! k) = b_valid (bcache s ! k)"
    "b_refcnt (dropped i (bcache s) ! i) = 0 \<longleftrightarrow> R bn = 1"
proof -
  note c = cacheD[OF assms(1)]
  let ?x = "(bcache s ! i)\<lparr>b_refcnt := b_refcnt (bcache s ! i) - 1\<rparr>"
  have i: "i < NBUF" "caches d bn (bcache s ! i)" using assms(2) by (simp_all add: cblock_Some[OF c(3)])
  have R: "R bn = unat (b_refcnt (bcache s ! i))" using assms(2) by (simp add: c(5) brefs_def)
  have x: "caches d bn ?x" using i by (simp add: caches_def)
  note u = update_view[OF c(3) assms(2) c(13) x, folded dropped_def]
  have "b_refcnt (bcache s ! i) \<noteq> 0" using R assms(3) by auto
  then have r: "unat (b_refcnt (bcache s ! i) - 1) = R bn - 1" using R by (simp add: unat_minus_one)
  have l: "i < length (bcache s)" using i(1) c(13) by simp
  show "uniq d (dropped i (bcache s))" "cblock d (dropped i (bcache s)) = cblock d (bcache s)" by (fact u)+
  show "bview d (dropped i (bcache s)) (disk s) = V"
    using u(3)[of "disk s"] assms(2) c(4) by (auto simp: bview_def fun_eq_iff)
  show "brefs d (dropped i (bcache s)) = R(bn := R bn - 1)" using u(4) r c(5) by simp
  show "V b = disk s b" if "(R(bn := R bn - 1)) b = 0" for b
    using that assms(3,4) c(6)[of b] by (cases "b = bn") auto
  show "lru (bcache s) ord \<Longrightarrow> lru (dropped i (bcache s)) ord" unfolding dropped_def by (rule lru_update) simp_all
  show "length (dropped i (bcache s)) = NBUF + 1" "i < NBUF" using c(13) i by (simp_all add: dropped_def)
  show "b_refcnt (dropped i (bcache s) ! k) = 0" if "k < NBUF" "b_dev (dropped i (bcache s) ! k) \<noteq> d" for k
    using that c(7)[OF that(1)] i(2) l by (cases "k = i") (auto simp: dropped_def caches_def)
  show "b_valid (dropped i (bcache s) ! k) = b_valid (bcache s ! k)" for k
    using l by (cases "k = i") (auto simp: dropped_def)
  show "b_refcnt (dropped i (bcache s) ! i) = 0 \<longleftrightarrow> R bn = 1"
    using r R assms(3) l by (auto simp: dropped_def simp flip: unat_eq_zero)
qed

lemma bunpin_spec:
  assumes "cache d pr s V R H" "H bn = Some i" "R bn \<ge> 2"
  shows "\<exists>t. bunpin i s = Ok () t \<and> cache d pr t V (R(bn := R bn - 1)) H \<and> io_frame s t \<and> dwrites t = dwrites s"
proof -
  note c = cacheD[OF assms(1)]
  have r: "R bn \<noteq> 0" "R bn = 1 \<longrightarrow> V bn = disk s bn" using assms(3) by auto
  note v = dropped_view[OF assms(1) c(9)[OF assms(2)] r]
  obtain ord where o: "lru (bcache s) ord" using c(2) by blast
  let ?t = "s\<lparr>bcache := dropped i (bcache s)\<rparr>"
  have "bunpin i s = Ok () ?t"
    using bcache_section[OF c(1), of "dropped i (bcache s)"]
    by (simp add: bunpin_def kop_simps calm_acquire[OF c(1)] setb_def dropped_def)
  moreover have "cache d pr ?t V (R(bn := R bn - 1)) H"
    unfolding cache_def
  proof (intro conjI allI impI)
    show "\<exists>ord. lru (bcache ?t) ord" using v(6)[OF o] by auto
    show "V = bview d (bcache ?t) (disk ?t)" "R(bn := R bn - 1) = brefs d (bcache ?t)" using v(3,4) by simp_all
    show "V b = disk ?t b" if "(R(bn := R bn - 1)) b = 0" for b using v(5)[OF that] by simp
    show "b_refcnt (bcache ?t ! k) = 0" if "k < NBUF" "b_dev (bcache ?t ! k) \<noteq> d" for k using v(9)[of k] that by simp
    show "(R(bn := R bn - 1)) b \<noteq> 0" if "H b = Some k" for b k using c(11)[OF that] assms(3) by auto
  qed (use c v(1,2,10) in auto)
  moreover have "io_frame s ?t" using io_frameI[of s "dwrites s" "dropped i (bcache s)" "slocks s" "procs s"] by simp
  ultimately show ?thesis by (intro exI[of _ ?t]) simp
qed

text \<open>\<open>brelse\<close> unlocks the buffer, drops the reference, and moves a buffer nobody uses to the front.\<close>

definition released_buf :: "nat \<Rightarrow> nat \<Rightarrow> 'z bio_st_scheme \<Rightarrow> 'z bio_st_scheme" where
  "released_buf pr i s = s\<lparr>slocks := (slocks s)(BufLk i := sl_open (slocks s (BufLk i))),
     procs := woken (Some (ChSleeplock (BufLk i))) (Some pr) NPROC (procs s),
     bcache := (if b_refcnt (dropped i (bcache s) ! i) = 0 then front i (dropped i (bcache s)) else dropped i (bcache s))\<rparr>"

lemma brelse_run:
  fixes s :: "'z bio_st_scheme"
  assumes "calm pr s" "mine pr (BufLk i) s" "lru (dropped i (bcache s)) ord" "i < NBUF"
  shows "brelse i s = Ok () (released_buf pr i s)"
proof -
  let ?s1 = "s\<lparr>slocks := (slocks s)(BufLk i := sl_open (slocks s (BufLk i))),
    procs := woken (Some (ChSleeplock (BufLk i))) (Some pr) NPROC (procs s)\<rparr>"
  let ?e = "(entered BcacheLock ?s1)\<lparr>bcache := dropped i (bcache s)\<rparr>"
  have c: "calm pr ?s1" using assms(1) by simp
  have h: "holdingsleep (BufLk i) s = Ok True s" using holdingsleep_calm[OF assms(1)] assms(2) by simp
  have r: "releasesleep (BufLk i) s = Ok () ?s1" by (rule releasesleep_calm[OF assms(1)]) simp
  have set: "setb i (\<lambda>x. x\<lparr>b_refcnt := b_refcnt x - 1\<rparr>) (entered BcacheLock ?s1) = Ok () ?e"
    by (simp add: setb_def modifyk_simp dropped_def)
  have f: "bindk (unlink_buf i) (\<lambda>_. push_front i) ?e = Ok () ((entered BcacheLock ?s1)\<lparr>bcache := front i (dropped i (bcache s))\<rparr>)"
    using front_run[of ?e ord i] assms(3,4) by simp
  have "brelse i s = bindk (whenk (b_refcnt (dropped i (bcache s) ! i) = 0) (bindk (unlink_buf i) (\<lambda>_. push_front i)))
      (\<lambda>_. release BcacheLock) ?e"
    using h r set calm_acquire[OF c, of BcacheLock] by (simp add: brelse_def bindk_eq getb_def bindk_getk)
  also have "\<dots> = Ok () (released_buf pr i s)"
    using f bcache_section[OF c, of "dropped i (bcache s)"] bcache_section[OF c, of "front i (dropped i (bcache s))"]
    by (cases "b_refcnt (dropped i (bcache s) ! i) = 0") (simp_all add: kop_simps released_buf_def)
  finally show ?thesis .
qed

lemma brelse_spec:
  assumes "cache d pr s V R H" "H bn = Some i" "R bn = 1 \<longrightarrow> V bn = disk s bn"
  shows "\<exists>t. brelse i s = Ok () t \<and> cache d pr t V (R(bn := R bn - 1)) (H(bn := None)) \<and> io_frame s t \<and> dwrites t = dwrites s"
proof -
  note c = cacheD[OF assms(1)]
  note v = dropped_view[OF assms(1) c(9)[OF assms(2)] c(11)[OF assms(2)] assms(3)]
  obtain ord where o: "lru (bcache s) ord" using c(2) by blast
  let ?t = "released_buf pr i s"
  have run: "brelse i s = Ok () ?t" using brelse_run[OF c(1) c(12)[OF assms(2)] v(6)[OF o] v(8)] .
  have rl: "relinks (bcache ?t) (dropped i (bcache s))" using front_relinks relinks_intros(1) by (simp add: released_buf_def)
  note w = relinks_view[OF rl v(7)]
  have same: "same_buf (bcache ?t ! k) (dropped i (bcache s) ! k)" if "k < NBUF" for k
    using rl that v(7) by (simp add: relinks_def)
  have dk: "disk ?t = disk s" by (simp add: released_buf_def disk_def)
  have pid: "p_pid (procs ?t ! pr) = p_pid (procs s ! pr)" using calmD(6,7)[OF c(1)] by (simp add: released_buf_def)
  have inj: "k \<noteq> i" if "H b = Some k" "b \<noteq> bn" for b k
    using c(9)[OF that(1)] c(9)[OF assms(2)] that(2) by (auto simp: cblock_Some[OF c(3)] caches_def)
  have lt: "k < NBUF" if "H b = Some k" for b k using c(9)[OF that] by (simp add: cblock_Some[OF c(3)])
  have "cache d pr ?t V (R(bn := R bn - 1)) (H(bn := None))"
    unfolding cache_def
  proof (intro conjI allI impI)
    show "calm pr ?t" using c(1) by (simp add: released_buf_def)
    show "\<exists>ord. lru (bcache ?t) ord" using front_lru[OF v(6)[OF o] v(8)] v(6)[OF o] by (auto simp: released_buf_def)
    show "uniq d (bcache ?t)" using w(2) v(1) by simp
    show "V = bview d (bcache ?t) (disk ?t)" "R(bn := R bn - 1) = brefs d (bcache ?t)" using v(3,4) w(3,4) dk by simp_all
    show "V b = disk ?t b" if "(R(bn := R bn - 1)) b = 0" for b using v(5)[OF that] dk by simp
    show "b_refcnt (bcache ?t ! k) = 0" if "k < NBUF" "b_dev (bcache ?t ! k) \<noteq> d" for k
      using v(9)[OF that(1)] same[OF that(1)] that(2) by (simp add: same_buf_def)
    show "k \<in> ran (H(bn := None))" if "sl_locked (slocks ?t (BufLk k)) \<noteq> 0" for k
    proof -
      have k: "k \<noteq> i" "sl_locked (slocks s (BufLk k)) \<noteq> 0" using that by (auto simp: released_buf_def sl_open_def split: if_splits)
      then obtain b where b: "H b = Some k" using c(8) by (auto simp: ran_def)
      then have "b \<noteq> bn" using k(1) assms(2) by auto
      with b show ?thesis by (auto simp: ran_def)
    qed
  next
    fix b k assume h: "(H(bn := None)) b = Some k"
    then have b: "H b = Some k" "b \<noteq> bn" by (auto split: if_splits)
    show "cblock d (bcache ?t) b = Some k" using c(9)[OF b(1)] w(1) v(2) by simp
    show "b_valid (bcache ?t ! k)" using c(10)[OF b(1)] same[OF lt[OF b(1)]] v(10) by (simp add: same_buf_def)
    show "(R(bn := R bn - 1)) b \<noteq> 0" using c(11)[OF b(1)] b(2) by simp
    show "sl_locked (slocks ?t (BufLk k)) \<noteq> 0" "sl_pid (slocks ?t (BufLk k)) = p_pid (procs ?t ! pr)"
      using c(12)[OF b(1)] inj[OF b] pid by (simp_all add: released_buf_def)
  qed
  moreover have "io_frame s ?t" unfolding released_buf_def io_frame_def
    by (intro exI) (rule bio_st.equality, simp_all)
  moreover have "dwrites ?t = dwrites s" by (simp add: released_buf_def)
  ultimately show ?thesis using run by blast
qed

section \<open>Initialisation\<close>

text \<open>\<open>binit\<close> links the buffers in; it changes locks and links only.\<close>

definition boot_frame :: "'z bio_st_scheme \<Rightarrow> 'z bio_st_scheme \<Rightarrow> bool" where
  "boot_frame s t \<longleftrightarrow> (\<exists>lk sl bc. t = s\<lparr>locks := lk, slocks := sl, bcache := bc\<rparr> \<and> relinks bc (bcache s) \<and>
     (\<forall>l. lock_free l s \<longrightarrow> lock_free l t))"

lemma relinks_trans: "relinks a b \<Longrightarrow> relinks b c \<Longrightarrow> relinks a c"
  by (auto simp: relinks_def same_buf_def)

lemma boot_frame_trans: "boot_frame s t \<Longrightarrow> boot_frame t u \<Longrightarrow> boot_frame s u"
proof -
  assume "boot_frame s t" "boot_frame t u"
  then obtain lk sl bc lk' sl' bc' where
    t: "t = s\<lparr>locks := lk, slocks := sl, bcache := bc\<rparr>" "relinks bc (bcache s)" "\<forall>l. lock_free l s \<longrightarrow> lock_free l t" and
    u: "u = t\<lparr>locks := lk', slocks := sl', bcache := bc'\<rparr>" "relinks bc' (bcache t)" "\<forall>l. lock_free l t \<longrightarrow> lock_free l u"
    unfolding boot_frame_def by blast
  have "u = s\<lparr>locks := lk', slocks := sl', bcache := bc'\<rparr>" using t(1) u(1) by simp
  moreover have "relinks bc' (bcache s)" using t u(2) relinks_trans by simp
  ultimately show ?thesis using t(3) u(3) unfolding boot_frame_def by blast
qed

lemma pushed_relinks: "relinks (pushed b bc) bc"
  unfolding pushed_def Let_def by (intro relinks_intros)

lemma binit_one:
  assumes "linked (bcache s) ord" "b < NBUF" "b \<notin> set ord"
  shows "\<exists>t. bindk (initsleeplock (BufLk b) ''buffer'') (\<lambda>_. push_front b) s = Ok () t \<and> linked (bcache t) (b # ord) \<and>
    boot_frame s t \<and> sl_locked (slocks t (BufLk b)) = 0 \<and> (\<forall>k. k \<noteq> b \<longrightarrow> slocks t (BufLk k) = slocks s (BufLk k))"
proof -
  let ?s1 = "set_slock (BufLk b) (\<lambda>_. \<lparr>sl_locked = 0, sl_name = ''buffer'', sl_pid = 0\<rparr>) (initlock (BufLk b) ''sleep lock'' s)"
  let ?t = "?s1\<lparr>bcache := pushed b (bcache s)\<rparr>"
  have s1: "bcache ?s1 = bcache s" by (simp add: set_slock_def initlock_def)
  have "push_front b ?s1 = Ok () ?t"
    using push_front_run[of b ?s1] s1 assms(1,2) by (simp add: linked_def)
  then have "bindk (initsleeplock (BufLk b) ''buffer'') (\<lambda>_. push_front b) s = Ok () ?t"
    by (simp add: initsleeplock_def kop_simps)
  moreover have "boot_frame s ?t"
    unfolding boot_frame_def
    by (intro exI[of _ "locks ?t"] exI[of _ "slocks ?t"] exI[of _ "pushed b (bcache s)"] conjI pushed_relinks)
      (simp_all add: set_slock_def initlock_def lock_free_def)
  moreover have "linked (bcache ?t) (b # ord)" using pushed_linked[OF assms] by simp
  ultimately show ?thesis by (intro exI[of _ ?t]) (simp add: set_slock_def initlock_def)
qed

lemma binit_loop:
  assumes "linked (bcache s) []" "n \<le> NBUF"
  shows "\<exists>t. foreachk [0..<n] (\<lambda>b. bindk (initsleeplock (BufLk b) ''buffer'') (\<lambda>_. push_front b)) s = Ok () t \<and>
    linked (bcache t) (rev [0..<n]) \<and> boot_frame s t \<and> (\<forall>k < n. sl_locked (slocks t (BufLk k)) = 0) \<and>
    (\<forall>k \<ge> n. slocks t (BufLk k) = slocks s (BufLk k))"
  using assms(2)
proof (induction n)
  case 0
  have "boot_frame s s" unfolding boot_frame_def
    by (intro exI[of _ "locks s"] exI[of _ "slocks s"] exI[of _ "bcache s"]) (simp add: relinks_intros)
  then show ?case using assms(1) by (simp add: kop_simps)
next
  case (Suc n)
  then obtain t where t: "foreachk [0..<n] (\<lambda>b. bindk (initsleeplock (BufLk b) ''buffer'') (\<lambda>_. push_front b)) s = Ok () t"
    "linked (bcache t) (rev [0..<n])" "boot_frame s t" "\<forall>k < n. sl_locked (slocks t (BufLk k)) = 0"
    "\<forall>k \<ge> n. slocks t (BufLk k) = slocks s (BufLk k)" by auto
  obtain u where u: "bindk (initsleeplock (BufLk n) ''buffer'') (\<lambda>_. push_front n) t = Ok () u" "linked (bcache u) (n # rev [0..<n])"
    "boot_frame t u" "sl_locked (slocks u (BufLk n)) = 0" "\<forall>k. k \<noteq> n \<longrightarrow> slocks u (BufLk k) = slocks t (BufLk k)"
    using binit_one[OF t(2), of n] Suc.prems by auto
  have "foreachk [0..<Suc n] (\<lambda>b. bindk (initsleeplock (BufLk b) ''buffer'') (\<lambda>_. push_front b)) s = Ok () u"
    using t(1) u(1) by (simp add: foreachk_append kop_simps)
  then show ?case using u(2,4,5) t(4,5) boot_frame_trans[OF t(3) u(3)] by (intro exI[of _ u]) (auto simp: less_Suc_eq)
qed

lemma binit_spec:
  assumes "calm pr s" "length (bcache s) = NBUF + 1" "\<And>i. i < NBUF \<Longrightarrow> b_dev (bcache s ! i) \<noteq> d \<and> b_refcnt (bcache s ! i) = 0"
    "\<And>i. i \<ge> NBUF \<Longrightarrow> sl_locked (slocks s (BufLk i)) = 0"
  shows "\<exists>t. binit s = Ok () t \<and> lru (bcache t) (rev [0..<NBUF]) \<and> cache d pr t (disk s) (\<lambda>_. 0) Map.empty \<and> boot_frame s t"
proof -
  let ?s0 = "initlock BcacheLock ''bcache'' s"
  let ?s1 = "?s0\<lparr>bcache := (bcache s)[bhead := (bcache s ! bhead)\<lparr>b_prev := bhead, b_next := bhead\<rparr>]\<rparr>"
  have l: "linked (bcache ?s1) []" using assms(2) by (simp add: linked_def initlock_def)
  obtain t where t: "foreachk [0..<NBUF] (\<lambda>b. bindk (initsleeplock (BufLk b) ''buffer'') (\<lambda>_. push_front b)) ?s1 = Ok () t"
    "linked (bcache t) (rev [0..<NBUF])" "boot_frame ?s1 t" "\<forall>k < NBUF. sl_locked (slocks t (BufLk k)) = 0"
    "\<forall>k \<ge> NBUF. slocks t (BufLk k) = slocks ?s1 (BufLk k)" using binit_loop[OF l, of NBUF] by auto
  have "boot_frame s ?s1" unfolding boot_frame_def
    by (intro exI[of _ "locks ?s1"] exI[of _ "slocks s"] exI[of _ "bcache ?s1"])
      (use assms(2) in \<open>auto simp: initlock_def lock_free_def relinks_def same_buf_def nth_list_update\<close>)
  then have fr: "boot_frame s t" using t(3) boot_frame_trans by blast
  then obtain lk sl bc where t': "t = s\<lparr>locks := lk, slocks := sl, bcache := bc\<rparr>" "relinks bc (bcache s)" "\<forall>l. lock_free l s \<longrightarrow> lock_free l t"
    unfolding boot_frame_def by blast
  have run: "binit s = Ok () t"
    using t(1) assms(2) by (simp add: binit_def kop_simps setb_def initlock_def)
  have lru: "lru (bcache t) (rev [0..<NBUF])" using t(2) by (auto simp: lru_linked)
  have "length bc = NBUF + 1" using t'(2) assms(2) by (simp add: relinks_def)
  then have b: "b_dev (bcache t ! i) \<noteq> d \<and> b_refcnt (bcache t ! i) = 0" if "i < NBUF" for i
    using that t'(1,2) assms(2) assms(3)[OF that] by (auto simp: relinks_def same_buf_def)
  have n: "cblock d (bcache t) bn = None" for bn using b by (auto simp: cblock_None caches_def)
  have dk: "disk t = disk s" using t'(1) by (simp add: disk_def)
  have cm: "calm pr t" using assms(1) t'(1,3) by (auto simp: calm_def cs_cpus_def cpu_defs)
  have ul: "sl_locked (slocks t (BufLk i)) = 0" for i
    using t(4,5) assms(4)[of i] by (cases "i < NBUF") (auto simp: initlock_def)
  have "cache d pr t (disk s) (\<lambda>_. 0) Map.empty"
    unfolding cache_def using lru cm b ul
    by (auto simp: bview_def brefs_def n dk uniq_def caches_def)
  with run lru fr show ?thesis by blast
qed

end
