(* ===== verification/Buffers.thy ===== *)
theory Buffers
  imports Zero Bcache
begin

text \<open>
  The properties of the buffer cache of kernel/bio.c: what \<open>binit\<close>, \<open>bread\<close> and \<open>brelse\<close> promise,
  with the order in which buffers are recycled.
\<close>

section \<open>The order of the list\<close>

lemma bread_order:
  assumes "cache d pr s V R H" "lru (bcache s) ord" "R bn + 1 < 2 ^ 32" "H bn = None"
    "R bn \<noteq> 0 \<or> (\<exists>i < NBUF. b_refcnt (bcache s ! i) = 0)" "bread d bn s = Ok i t"
  shows "lru (bcache t) ord \<and> (case cblock d (bcache s) bn of Some j \<Rightarrow> i = j
    | None \<Rightarrow> find (\<lambda>i. b_refcnt (bcache s ! i) = 0) (rev ord) = Some i)"
proof -
  note c = cacheD[OF assms(1)]
  obtain k x where x: "bget_choice d bn ord (bcache s) = Some (k, x)" "k < NBUF" "sl_locked (slocks s (BufLk k)) = 0"
    "b_next x = b_next (bcache s ! k)" "b_prev x = b_prev (bcache s ! k)"
    by (rule bget_choice_props[OF assms(1-5)]) (rule that; assumption)
  let ?y = "\<lambda>x. if b_valid x then x else x\<lparr>b_data := disk s (b_blockno x), b_valid := True\<rparr>"
  have "bread d bn s = Ok k (s\<lparr>bcache := (bcache s)[k := ?y x],
      slocks := (slocks s)(BufLk k := sl_taken (p_pid (procs s ! pr)) (slocks s (BufLk k)))\<rparr>)"
    using bget_run[OF c(1) assms(2) c(3) x(1,3)] x(2) c(13)
    by (cases "b_valid x") (simp_all add: bread_def kop_simps getb_def setb_def disk_rw_def)
  with assms(6) have t: "i = k" "bcache t = (bcache s)[k := ?y x]" by auto
  have "lru (bcache t) ord" unfolding t(2) using x(4,5) by (intro lru_update[OF assms(2)]) auto
  moreover have "case cblock d (bcache s) bn of Some j \<Rightarrow> i = j | None \<Rightarrow> find (\<lambda>i. b_refcnt (bcache s ! i) = 0) (rev ord) = Some i"
    using x(1) t(1) by (auto simp: bget_choice_def split: option.splits)
  ultimately show ?thesis ..
qed

lemma bget_none:
  assumes "cache d pr s V R H" "R bn = 0" "cblock d (bcache s) bn = None" "\<forall>i < NBUF. b_refcnt (bcache s ! i) \<noteq> 0"
  shows "bread d bn s = Panic ''bget: no buffers''"
proof -
  note c = cacheD[OF assms(1)]
  obtain ord where o: "lru (bcache s) ord" using c(2) by blast
  let ?e = "entered BcacheLock s"
  have l: "set ord = {..<NBUF}" "chain (\<lambda>i. b_next (bcache ?e ! i)) bhead ord bhead"
    "chain (\<lambda>i. b_prev (bcache ?e ! i)) bhead (rev ord) bhead" using o by (auto simp: lru_def)
  have h: "bhead \<notin> set ord" "bhead \<notin> set (rev ord)" using l(1) by auto
  have f: "loopk (bget_find d bn) (b_next (bcache s ! bhead)) ?e = Ok None ?e"
    using bget_find_loop[OF l(2) h(1), of d bn] find_order[OF c(3) l(1), of bn] assms(3) by simp
  have "find (\<lambda>i. b_refcnt (bcache s ! i) = 0) (rev ord) = None" using assms(4) l(1) by (auto simp: find_None_iff)
  then have v: "loopk bget_victim (b_prev (bcache s ! bhead)) ?e = Ok None ?e"
    using bget_victim_loop[OF l(3) h(2)] by simp
  have "bget d bn s = Panic ''bget: no buffers''"
    using f v calm_acquire[OF c(1), of BcacheLock] by (simp add: bget_def bindk_eq bindk_getk panick_simp getb_def)
  then show ?thesis by (simp add: bread_def bindk_eq)
qed

section \<open>A booted cache\<close>

lemma zero_calm: "calm 0 (touch zero_kernel)"
  using zero_kernel_sync zero_kernel_data cs_cpus_idem[of zero_kernel]
  by (simp add: calm_def) (simp add: cpu_defs)

text \<open>A machine that has just run \<open>binit\<close> over any disk.\<close>

lemma booted:
  "\<exists>r :: file_st. cache 1 0 r D (\<lambda>_. 0) Map.empty \<and> log r = zero_log \<and> disk r = D \<and> lru (bcache r) (rev [0..<NBUF]) \<and>
    (\<forall>i < NBUF. b_refcnt (bcache r ! i) = 0) \<and> (\<forall>bn. cblock 1 (bcache r) bn = None)"
proof -
  let ?z = "(touch zero_kernel)\<lparr>disk0 := D\<rparr>"
  have z: "bcache ?z = replicate (NBUF + 1) zero_buf" "disk ?z = D" "log ?z = zero_log" "slocks ?z l = \<lparr>sl_locked = 0, sl_name = [], sl_pid = 0\<rparr>" for l
    using zero_kernel_data by (simp_all add: disk_def) (simp add: zero_defs)
  have c: "calm 0 ?z" by (rule calm_frame[OF zero_calm]) simp_all
  obtain t where t: "binit ?z = Ok () t" "lru (bcache t) (rev [0..<NBUF])" "cache 1 0 t (disk ?z) (\<lambda>_. 0) Map.empty" "boot_frame ?z t"
    using binit_spec[OF c, of 1] z by (auto simp: zero_buf_def nth_append)
  have "log t = log ?z" "disk t = disk ?z" using t(4) by (auto simp: boot_frame_def disk_def)
  moreover have "same_buf (bcache t ! i) zero_buf" if "i < NBUF" for i
    using t(4) that z(1) by (auto simp: boot_frame_def relinks_def)
  then have "\<forall>i < NBUF. b_refcnt (bcache t ! i) = 0" "\<forall>bn. cblock 1 (bcache t) bn = None"
    by (auto simp: same_buf_def zero_buf_def cblock_None caches_def)
  ultimately show ?thesis using t z by (intro exI[of _ t]) simp
qed

section \<open>Properties\<close>

text \<open>
  C33: \<open>bread\<close> returns a locked buffer that holds the block's current contents and changes no block
  for anybody. If the block is cached the buffer is the one that caches it; otherwise it is the
  least recently used buffer without references, and it panics if there is none. The cache stays
  a doubly linked list of all buffers in which no block occurs twice.
\<close>

theorem bread_correct:
  assumes "cache d pr s V R H" "lru (bcache s) ord" "R bn + 1 < 2 ^ 32" "H bn = None"
  shows "if cblock d (bcache s) bn = None \<and> (\<forall>i < NBUF. b_refcnt (bcache s ! i) \<noteq> 0)
    then bread d bn s = Panic ''bget: no buffers''
    else \<exists>i t. bread d bn s = Ok i t \<and> cache d pr t V (R(bn := R bn + 1)) (H(bn \<mapsto> i)) \<and>
      b_data (bcache t ! i) = V bn \<and> lru (bcache t) ord \<and> dwrites t = dwrites s \<and>
      (case cblock d (bcache s) bn of Some j \<Rightarrow> i = j | None \<Rightarrow> find (\<lambda>i. b_refcnt (bcache s ! i) = 0) (rev ord) = Some i)"
proof (cases "cblock d (bcache s) bn = None \<and> (\<forall>i < NBUF. b_refcnt (bcache s ! i) \<noteq> 0)")
  case True
  then have "R bn = 0" using cacheD(5)[OF assms(1)] by (simp add: brefs_def)
  with True bget_none[OF assms(1)] show ?thesis by simp
next
  case False
  have free: "R bn \<noteq> 0 \<or> (\<exists>i < NBUF. b_refcnt (bcache s ! i) = 0)"
  proof (cases "cblock d (bcache s) bn")
    case (Some j)
    then have "j < NBUF" using cacheD(3)[OF assms(1)] by (simp add: cblock_Some)
    moreover have "R bn = unat (b_refcnt (bcache s ! j))" using Some cacheD(5)[OF assms(1)] by (simp add: brefs_def)
    ultimately show ?thesis by (cases "b_refcnt (bcache s ! j) = 0") (auto simp: unat_eq_zero)
  qed (use False in auto)
  from bread_spec[OF assms(1,3,4) free] bread_order[OF assms(1-4) free] show ?thesis using False by auto
qed

theorem bread_correct_witness:
  "\<exists>(s :: file_st) i t. bread 1 7 s = Ok i t \<and> b_data (bcache t ! i) = disk s 7 \<and> i = 0 \<and> lru (bcache t) (rev [0..<NBUF])"
proof -
  obtain r :: file_st where r: "cache 1 0 r (\<lambda>_. [1]) (\<lambda>_. 0) Map.empty" "disk r = (\<lambda>_. [1])" "lru (bcache r) (rev [0..<NBUF])"
    "\<forall>i < NBUF. b_refcnt (bcache r ! i) = 0" "\<forall>bn. cblock 1 (bcache r) bn = None" using booted by blast
  have "find (\<lambda>i. b_refcnt (bcache r ! i) = 0) (rev (rev [0..<NBUF])) = Some 0"
    using r(4) by (simp add: upt_rec[of 0])
  moreover have "\<not> (cblock 1 (bcache r) 7 = None \<and> (\<forall>i < NBUF. b_refcnt (bcache r ! i) \<noteq> 0))" using r(4) by (auto intro: exI[of _ 0])
  note bread_correct[OF r(1,3), of 7, unfolded if_not_P[OF this]]
  ultimately show ?thesis using r(2,5) by (intro exI[of _ r]) auto
qed

text \<open>
  C34: \<open>brelse\<close> by the process that holds a buffer unlocks it and drops one reference, and changes no
  block for anybody. Exactly when the last reference goes the buffer becomes the most recently
  used one, the order of the others kept. By a process that does not hold it, it panics.
\<close>

theorem brelse_correct:
  assumes "cache d pr s V R H" "lru (bcache s) ord" "H bn = Some i" "R bn = 1 \<longrightarrow> V bn = disk s bn"
  shows "\<exists>t. brelse i s = Ok () t \<and> cache d pr t V (R(bn := R bn - 1)) (H(bn := None)) \<and> dwrites t = dwrites s \<and>
    lru (bcache t) (if R bn = 1 then i # remove1 i ord else ord) \<and> brelse i t = Panic ''brelse''"
proof -
  note c = cacheD[OF assms(1)]
  note v = dropped_view[OF assms(1) c(9)[OF assms(3)] c(11)[OF assms(3)] assms(4)]
  obtain t where t: "brelse i s = Ok () t" "cache d pr t V (R(bn := R bn - 1)) (H(bn := None))" "dwrites t = dwrites s"
    using brelse_spec[OF assms(1,3,4)] by blast
  have "t = released_buf pr i s" using brelse_run[OF c(1) c(12)[OF assms(3)] v(6)[OF assms(2)] v(8)] t(1) by simp
  then have "lru (bcache t) (if R bn = 1 then i # remove1 i ord else ord)" "sl_locked (slocks t (BufLk i)) = 0"
    using front_lru[OF v(6)[OF assms(2)] v(8)] v(6)[OF assms(2)] v(11) by (auto simp: released_buf_def sl_open_def)
  moreover from this(2) have "brelse i t = Panic ''brelse''"
    using holdingsleep_calm[OF cacheD(1)[OF t(2)], of "BufLk i"]
    by (simp add: brelse_def bindk_eq(1)[of "holdingsleep (BufLk i)" t False t] panick_simp)
  ultimately show ?thesis using t by blast
qed

theorem brelse_correct_witness:
  "\<exists>(s :: file_st) i t. cblock 1 (bcache s) 7 = Some i \<and> brelse i s = Ok () t \<and> lru (bcache t) (i # remove1 i (rev [0..<NBUF])) \<and>
    brelse i t = Panic ''brelse''"
proof -
  obtain r :: file_st where r: "cache 1 0 r (\<lambda>_. [1]) (\<lambda>_. 0) Map.empty" "disk r = (\<lambda>_. [1])" "lru (bcache r) (rev [0..<NBUF])"
    "\<forall>i < NBUF. b_refcnt (bcache r ! i) = 0" using booted by blast
  have free: "(\<lambda>_. 0 :: nat) (7 :: u32) \<noteq> 0 \<or> (\<exists>i < NBUF. b_refcnt (bcache r ! i) = 0)" using r(4) by (auto intro: exI[of _ 0])
  define R where "R = (\<lambda>_ :: u32. 0 :: nat)(7 := 0 + 1)"
  obtain i s where s: "bread 1 7 r = Ok i s" "cache 1 0 s (\<lambda>_. [1]) R [7 \<mapsto> i]" "io_frame r s" "dwrites s = dwrites r"
    using bread_spec[OF r(1) _ _ free, of 7] unfolding R_def by auto
  have o: "lru (bcache s) (rev [0..<NBUF])" using bread_order[OF r(1,3) _ _ free s(1)] by simp
  have "disk s = (\<lambda>_. [1])" using s(3,4) r(2) by (auto simp: io_frame_def disk_def)
  then have "R 7 = 1 \<longrightarrow> (\<lambda>_. [1]) 7 = disk s 7" "R 7 = 1" by (simp_all add: R_def)
  with brelse_correct[OF s(2) o _ this(1)] cacheD(9)[OF s(2), of 7 i] show ?thesis
    by - (rule exI[of _ s], rule exI[of _ i], auto)
qed

end
