(* ===== verification/Crash.thy ===== *)
theory Crash
  imports Buffers
begin

text \<open>
  What the redo log of kernel/log.c is for: a commit is atomic with respect to crashes. The
  writes a commit sends to the disk are computed exactly and in order; after any prefix of them,
  recovery at the next boot leaves every block as before the transaction, or every block as the
  transaction made it.
\<close>

section \<open>Sequences of block writes\<close>

lemma replay_other: "b \<notin> fst ` set ws \<Longrightarrow> replay D ws b = D b"
proof (induction ws arbitrary: D)
  case (Cons w ws)
  then show ?case by (cases w) auto
qed simp

lemma replay_same: "D c = v \<Longrightarrow> (\<And>x. (c, x) \<in> set ws \<Longrightarrow> x = v) \<Longrightarrow> replay D ws c = v"
proof (induction ws arbitrary: D)
  case (Cons w ws)
  then show ?case by (cases w) auto
qed simp

lemma replay_at:
  "distinct (map fst ws) \<Longrightarrow> i < length ws \<Longrightarrow> replay D ws (fst (ws ! i)) = snd (ws ! i)"
proof (induction ws arbitrary: D i)
  case (Cons w ws)
  obtain b x where w: "w = (b, x)" by (cases w)
  show ?case
  proof (cases i)
    case 0
    have "b \<notin> fst ` set ws" using Cons.prems(1) w by auto
    then show ?thesis using 0 w by (simp add: replay_other)
  next
    case (Suc k)
    then show ?thesis using Cons.IH[of k "D(b := x)"] Cons.prems w by (simp del: fun_upd_apply)
  qed
qed simp

lemma replay_map:
  assumes "inj_on f {..<n}"
  shows "i < n \<Longrightarrow> replay D (map (\<lambda>i. (f i, g i)) [0..<n]) (f i) = g i"
    "b \<notin> f ` {..<n} \<Longrightarrow> replay D (map (\<lambda>i. (f i, g i)) [0..<n]) b = D b"
proof -
  let ?ws = "map (\<lambda>i. (f i, g i)) [0..<n]"
  have "distinct (map fst ?ws)" using assms by (simp add: distinct_map comp_def atLeast0LessThan)
  then show "replay D ?ws (f i) = g i" if "i < n" using replay_at[of ?ws i D] that by simp
  show "replay D ?ws b = D b" if "b \<notin> f ` {..<n}" using that by (intro replay_other) auto
qed

section \<open>One block of the log\<close>

lemma io_frame_log:
  fixes s t :: "'z log_st_scheme"
  shows "io_frame s t \<Longrightarrow> log t = log s"
  by (auto simp: io_frame_def)

text \<open>There is room in the cache for \<open>k\<close> more blocks.\<close>

definition roomy :: "nat \<Rightarrow> (u32 \<Rightarrow> nat) \<Rightarrow> bool" where
  "roomy k R \<longleftrightarrow> finite {b. R b \<noteq> 0} \<and> card {b. R b \<noteq> 0} + k \<le> NBUF"

lemma roomy_add:
  assumes "roomy (Suc k) R"
  shows "roomy k (R(b := R b + 1))"
proof -
  have e: "{c. (R(b := R b + 1)) c \<noteq> 0} = insert b {c. R c \<noteq> 0}" by auto
  show ?thesis using assms unfolding roomy_def e by (auto simp: card_insert_if)
qed

lemma bread_roomy:
  assumes "cache d pr s V R H" "R bn < 2 ^ 31" "H bn = None" "R bn \<noteq> 0 \<or> roomy 1 R"
  shows "\<exists>i t. bread d bn s = Ok i t \<and> cache d pr t V (R(bn := R bn + 1)) (H(bn \<mapsto> i)) \<and> io_frame s t \<and>
    dwrites t = dwrites s \<and> i < NBUF \<and> b_data (bcache t ! i) = V bn"
proof -
  have "R bn \<noteq> 0 \<or> (\<exists>i < NBUF. b_refcnt (bcache s ! i) = 0)"
    using assms(4) free_buffer[OF assms(1)] by (auto simp: roomy_def)
  moreover have "R bn + 1 < 2 ^ 32" using assms(2) by simp
  ultimately show ?thesis using bread_spec[OF assms(1) _ assms(3)] by blast
qed

lemma bread_two:
  assumes "cache d pr s V R Map.empty" "x \<noteq> y" "\<And>b. R b < 2 ^ 31" "roomy 1 R" "R y \<noteq> 0 \<or> roomy 2 R"
  obtains i j u t H where "bread d x s = Ok i u" "bread d y u = Ok j t" "io_frame s u" "io_frame s t" "dwrites t = dwrites s"
    "cache d pr t V (R(x := R x + 1, y := R y + 1)) H" "H x = Some i" "H y = Some j"
    "H(x := None, y := None) = Map.empty" "H(y := None, x := None) = Map.empty"
proof -
  obtain i u where u: "bread d x s = Ok i u" "cache d pr u V (R(x := R x + 1)) [x \<mapsto> i]" "io_frame s u" "dwrites u = dwrites s"
    using bread_roomy[OF assms(1) assms(3), of x] assms(4) by blast
  let ?R = "R(x := R x + 1)"
  have "?R y \<noteq> 0 \<or> roomy 1 ?R" using assms(2,5) roomy_add[of 1 R x] by (auto simp: numeral_2_eq_2)
  then obtain j t where t: "bread d y u = Ok j t" "cache d pr t V (?R(y := ?R y + 1)) ([x \<mapsto> i](y \<mapsto> j))" "io_frame u t" "dwrites t = dwrites u"
    using bread_roomy[OF u(2), of y] assms(2) assms(3)[of y] by auto
  show thesis
  proof (rule that[OF u(1) t(1) u(3) io_frame_trans[OF u(3) t(3)]])
    show "cache d pr t V (R(x := R x + 1, y := R y + 1)) [x \<mapsto> i, y \<mapsto> j]" using t(2) assms(2) by simp
  qed (use t(4) u(4) assms(2) in auto)
qed

text \<open>Copying the contents of a held buffer to another one.\<close>

lemma move_data_spec:
  assumes "cache d pr s V R H" "H x = Some i" "H y = Some j"
  shows "move_data i j s = Ok () (s\<lparr>bcache := (bcache s)[i := (bcache s ! i)\<lparr>b_data := V y\<rparr>]\<rparr>)"
    "cache d pr (s\<lparr>bcache := (bcache s)[i := (bcache s ! i)\<lparr>b_data := V y\<rparr>]\<rparr>) (V(x := V y)) R H"
    "io_frame s (s\<lparr>bcache := (bcache s)[i := (bcache s ! i)\<lparr>b_data := V y\<rparr>]\<rparr>)"
proof -
  show "move_data i j s = Ok () (s\<lparr>bcache := (bcache s)[i := (bcache s ! i)\<lparr>b_data := V y\<rparr>]\<rparr>)"
    using set_data_spec(3)[OF assms(1,3)] by (simp add: move_data_def kop_simps getb_def setb_def)
  show "cache d pr (s\<lparr>bcache := (bcache s)[i := (bcache s ! i)\<lparr>b_data := V y\<rparr>]\<rparr>) (V(x := V y)) R H"
    by (rule set_data_spec(1)[OF assms(1,2)])
  show "io_frame s (s\<lparr>bcache := (bcache s)[i := (bcache s ! i)\<lparr>b_data := V y\<rparr>]\<rparr>)"
    using io_frameI[of s "dwrites s" "(bcache s)[i := (bcache s ! i)\<lparr>b_data := V y\<rparr>]" "slocks s" "procs s"] by simp
qed

lemma io_frame_dwrites: "io_frame s (s\<lparr>dwrites := w\<rparr>)"
  using io_frameI[of s w "bcache s" "slocks s" "procs s"] by simp

text \<open>One turn of \<open>write_log\<close>: the log block becomes what the home block is.\<close>

lemma write_log_one_spec:
  fixes s :: "'z log_st_scheme" and k :: nat
  assumes "cache (log_dev (log s)) pr s V R Map.empty" "\<And>b. R b < 2 ^ 31" "roomy 1 R"
  defines "x \<equiv> log_start (log s) + of_nat k + 1" and "y \<equiv> lh_block (lh (log s)) ! k"
  assumes "x \<noteq> y" "R y \<noteq> 0"
  shows "\<exists>t. write_log_one k s = Ok () t \<and> cache (log_dev (log s)) pr t (V(x := V y)) R Map.empty \<and> io_frame s t \<and>
    dwrites t = dwrites s @ [(x, V y)]"
proof -
  let ?d = "log_dev (log s)" and ?R = "R(x := R x + 1, y := R y + 1)" let ?V = "V(x := V y)"
  obtain i j u t H where r: "bread ?d x s = Ok i u" "bread ?d y u = Ok j t" "io_frame s u" "io_frame s t" "dwrites t = dwrites s"
    "cache ?d pr t V ?R H" and H: "H x = Some i" "H y = Some j" and
    H0: "H(x := None, y := None) = Map.empty" "H(y := None, x := None) = Map.empty"
    using assms(1,6) assms(2,3) by (rule bread_two) (use assms(7) in auto)
  note m = move_data_spec[OF r(6) H]
  let ?m = "t\<lparr>bcache := (bcache t)[i := (bcache t ! i)\<lparr>b_data := V y\<rparr>]\<rparr>"
  note w = bwrite_spec[OF m(2) H(1)]
  let ?w = "?m\<lparr>dwrites := dwrites ?m @ [(x, ?V x)]\<rparr>"
  have "?R y = 1 \<longrightarrow> ?V y = disk ?w y" using assms(7) by simp
  from brelse_spec[OF w(2) H(2) this] obtain a where a: "brelse j ?w = Ok () a"
    "cache ?d pr a ?V (?R(y := ?R y - 1)) (H(y := None))" "io_frame ?w a" "dwrites a = dwrites ?w" by blast
  have H': "(H(y := None)) x = Some i" using assms(6) H by simp
  have dk: "disk a = disk ?w" using a(3,4) by (auto simp: io_frame_def disk_def)
  have "(?R(y := ?R y - 1)) x = 1 \<longrightarrow> ?V x = disk a x" unfolding dk disk_write by simp
  from brelse_spec[OF a(2) H' this] obtain b where b: "brelse i a = Ok () b"
    "cache ?d pr b ?V (?R(y := ?R y - 1, x := (?R(y := ?R y - 1)) x - 1)) ((H(y := None))(x := None))"
    "io_frame a b" "dwrites b = dwrites a" by blast
  have "?R(y := ?R y - 1, x := (?R(y := ?R y - 1)) x - 1) = R" "(H(y := None))(x := None) = Map.empty"
    using assms(6) H0 by (simp_all add: fun_eq_iff)
  with b(2) have c: "cache ?d pr b ?V R Map.empty" by simp
  have run: "write_log_one k s = Ok () b"
    unfolding write_log_one_def using r(1,2) m(1) w(1) a(1) b(1) io_frame_log[OF r(3)]
    by (simp add: kop_simps x_def[symmetric] y_def[symmetric])
  have "io_frame s b"
    using io_frame_trans[OF r(4) io_frame_trans[OF m(3) io_frame_trans[OF io_frame_dwrites io_frame_trans[OF a(3) b(3)]]]] .
  with run c a(4) b(4) r(5) show ?thesis by (intro exI[of _ b]) simp
qed

text \<open>The writes of \<open>write_log\<close> and of \<open>install_trans\<close> for the first \<open>k\<close> blocks.\<close>

definition log_writes :: "u32 \<Rightarrow> u32 list \<Rightarrow> (u32 \<Rightarrow> block) \<Rightarrow> nat \<Rightarrow> (u32 \<times> block) list" where
  "log_writes st bl V k = map (\<lambda>i. (st + of_nat i + 1, V (bl ! i))) [0..<k]"

definition install_writes :: "u32 \<Rightarrow> u32 list \<Rightarrow> (u32 \<Rightarrow> block) \<Rightarrow> nat \<Rightarrow> (u32 \<times> block) list" where
  "install_writes st bl V k = map (\<lambda>i. (bl ! i, V (st + of_nat i + 1))) [0..<k]"

text \<open>The log's own blocks and the home blocks are apart.\<close>

definition log_apart :: "u32 \<Rightarrow> u32 list \<Rightarrow> nat \<Rightarrow> bool" where
  "log_apart st bl n \<longleftrightarrow> (\<forall>i < n. bl ! i \<noteq> st \<and> (\<forall>j < n. bl ! i \<noteq> st + of_nat j + 1)) \<and> n \<le> LOGSIZE"

lemma log_apartD:
  assumes "log_apart st bl n" "i < n"
  shows "bl ! i \<noteq> st" "j < n \<Longrightarrow> st + of_nat j + 1 \<noteq> bl ! i" "j < n \<Longrightarrow> bl ! i \<noteq> st + of_nat j + 1" "n \<le> LOGSIZE"
  using assms unfolding log_apart_def by metis+

lemma write_log_prefix:
  fixes s :: "'z log_st_scheme"
  assumes "cache (log_dev (log s)) pr s V R Map.empty" "\<And>b. R b < 2 ^ 31" "roomy 1 R"
    and "log_apart (log_start (log s)) (lh_block (lh (log s))) n" "\<And>i. i < n \<Longrightarrow> R (lh_block (lh (log s)) ! i) \<noteq> 0"
    and "k \<le> n"
  defines "ws \<equiv> log_writes (log_start (log s)) (lh_block (lh (log s))) V"
  shows "\<exists>t. foreachk [0..<k] write_log_one s = Ok () t \<and> cache (log_dev (log s)) pr t (replay V (ws k)) R Map.empty \<and>
    io_frame s t \<and> dwrites t = dwrites s @ ws k"
  using assms(6)
proof (induction k)
  case 0
  then show ?case using assms(1) by (simp add: kop_simps ws_def log_writes_def)
next
  case (Suc k)
  let ?st = "log_start (log s)" and ?bl = "lh_block (lh (log s))"
  obtain t where t: "foreachk [0..<k] write_log_one s = Ok () t" "cache (log_dev (log s)) pr t (replay V (ws k)) R Map.empty"
    "io_frame s t" "dwrites t = dwrites s @ ws k" using Suc by auto
  have k: "k < n" using Suc.prems by simp
  have lg: "log t = log s" by (rule io_frame_log[OF t(3)])
  have "?bl ! k \<noteq> ?st + of_nat i + 1" if "i < k" for i using log_apartD(3)[OF assms(4) k, of i] that k by simp
  then have home: "replay V (ws k) (?bl ! k) = V (?bl ! k)"
    by (intro replay_other) (force simp: ws_def log_writes_def)
  have ws: "ws (Suc k) = ws k @ [(?st + of_nat k + 1, V (?bl ! k))]" by (simp add: ws_def log_writes_def)
  obtain u where u: "write_log_one k t = Ok () u"
    "cache (log_dev (log s)) pr u ((replay V (ws k))(?st + of_nat k + 1 := V (?bl ! k))) R Map.empty"
    "io_frame t u" "dwrites u = dwrites t @ [(?st + of_nat k + 1, V (?bl ! k))]"
    using write_log_one_spec[of t pr "replay V (ws k)" R k] t(2) assms(2,3) assms(5)[OF k] log_apartD(2)[OF assms(4) k k] lg home by auto
  have "foreachk [0..<Suc k] write_log_one s = Ok () u" using t(1) u(1) by (simp add: foreachk_append kop_simps)
  then show ?case using u(2,4) t(4) io_frame_trans[OF t(3) u(3)] by (intro exI[of _ u]) (simp add: ws replay_append del: fun_upd_apply)
qed

text \<open>One turn of \<open>install_trans\<close>: the home block becomes what the log block is.\<close>

lemma install_one_spec:
  fixes s :: "'z log_st_scheme" and k :: nat
  assumes "cache (log_dev (log s)) pr s V R Map.empty" "\<And>b. R b < 2 ^ 31" "roomy 1 R"
  defines "x \<equiv> log_start (log s) + of_nat k + 1" and "y \<equiv> lh_block (lh (log s)) ! k"
  assumes "x \<noteq> y" "if rec then roomy 2 R else R y \<noteq> 0"
  shows "\<exists>t. install_one rec k s = Ok () t \<and>
    cache (log_dev (log s)) pr t (V(y := V x)) (if rec then R else R(y := R y - 1)) Map.empty \<and> io_frame s t \<and>
    dwrites t = dwrites s @ [(y, V x)]"
proof -
  let ?d = "log_dev (log s)" and ?R = "R(x := R x + 1, y := R y + 1)" let ?V = "V(y := V x)"
  obtain i j u t H where r: "bread ?d x s = Ok i u" "bread ?d y u = Ok j t" "io_frame s u" "io_frame s t" "dwrites t = dwrites s"
    "cache ?d pr t V ?R H" and H: "H x = Some i" "H y = Some j" and
    H0: "H(x := None, y := None) = Map.empty" "H(y := None, x := None) = Map.empty"
    using assms(1,6) assms(2,3) by (rule bread_two) (use assms(7) in \<open>auto split: if_splits\<close>)
  note m = move_data_spec[OF r(6) H(2,1)]
  let ?m = "t\<lparr>bcache := (bcache t)[j := (bcache t ! j)\<lparr>b_data := V x\<rparr>]\<rparr>"
  note w = bwrite_spec[OF m(2) H(2)]
  let ?w = "?m\<lparr>dwrites := dwrites ?m @ [(y, ?V y)]\<rparr>"
  define R1 where "R1 = (if rec then ?R else ?R(y := ?R y - 1))"
  obtain v where v: "whenk (\<not> rec) (bunpin j) ?w = Ok () v" "cache ?d pr v ?V R1 H" "io_frame ?w v" "dwrites v = dwrites ?w"
  proof (cases rec)
    case True
    with w(2) that[of ?w] show ?thesis by (simp add: R1_def whenk_def returnk_simp del: fun_upd_apply)
  next
    case False
    then have "?R y \<ge> 2" using assms(6,7) by simp
    from bunpin_spec[OF w(2) H(2) this] obtain v where "bunpin j ?w = Ok () v" "cache ?d pr v ?V (?R(y := ?R y - 1)) H"
      "io_frame ?w v" "dwrites v = dwrites ?w" by blast
    with False that[of v] show ?thesis by (simp add: R1_def whenk_def del: fun_upd_apply)
  qed
  have dw: "disk ?w = (disk t)(y := V x)" using disk_write[of ?m y "?V y"] by simp
  have dv: "disk v = disk ?w" using v(3,4) by (auto simp: io_frame_def disk_def)
  have rx: "R1 x = R x + 1" using assms(6) by (simp add: R1_def)
  have Vx: "V x = disk t x" if "R x = 0"
  proof -
    have "V x = disk s x" using cacheD(6)[OF assms(1) that] .
    also have "disk s = disk t" using r(4,5) by (auto simp: io_frame_def disk_def)
    finally show ?thesis .
  qed
  have "R1 x = 1 \<longrightarrow> ?V x = disk v x" unfolding rx dv dw using Vx assms(6) by simp
  from brelse_spec[OF v(2) H(1) this] obtain a where a: "brelse i v = Ok () a"
    "cache ?d pr a ?V (R1(x := R1 x - 1)) (H(x := None))" "io_frame v a" "dwrites a = dwrites v" by blast
  have H': "(H(x := None)) y = Some j" using assms(6) H by simp
  have da: "disk a = disk ?w" using a(3,4) dv by (auto simp: io_frame_def disk_def)
  have "(R1(x := R1 x - 1)) y = 1 \<longrightarrow> ?V y = disk a y" unfolding da dw by simp
  from brelse_spec[OF a(2) H' this] obtain b where b: "brelse j a = Ok () b"
    "cache ?d pr b ?V (R1(x := R1 x - 1, y := (R1(x := R1 x - 1)) y - 1)) ((H(x := None))(y := None))"
    "io_frame a b" "dwrites b = dwrites a" by blast
  have "R1(x := R1 x - 1, y := (R1(x := R1 x - 1)) y - 1) = (if rec then R else R(y := R y - 1))"
    "(H(x := None))(y := None) = Map.empty" using assms(6) H0 by (simp_all add: fun_eq_iff R1_def)
  with b(2) have c: "cache ?d pr b ?V (if rec then R else R(y := R y - 1)) Map.empty" by simp
  have run: "install_one rec k s = Ok () b"
    unfolding install_one_def using r(1,2) m(1) w(1) v(1) a(1) b(1) io_frame_log[OF r(3)]
    by (simp add: kop_simps x_def[symmetric] y_def[symmetric])
  have "io_frame s b" using io_frame_trans[OF r(4) io_frame_trans[OF m(3) io_frame_trans[OF io_frame_dwrites
        io_frame_trans[OF v(3) io_frame_trans[OF a(3) b(3)]]]]] .
  with run c a(4) b(4) v(4) r(5) show ?thesis by (intro exI[of _ b]) simp
qed

lemma roomy_mono: "roomy k R \<Longrightarrow> (\<And>b. R' b \<le> R b) \<Longrightarrow> roomy k R'"
proof -
  assume r: "roomy k R" and le: "\<And>b. R' b \<le> R b"
  have sub: "{b. R' b \<noteq> 0} \<subseteq> {b. R b \<noteq> 0}"
  proof
    fix b assume "b \<in> {b. R' b \<noteq> 0}"
    then show "b \<in> {b. R b \<noteq> 0}" using le[of b] by simp
  qed
  have fin: "finite {b. R b \<noteq> 0}" using r by (simp add: roomy_def)
  show ?thesis using card_mono[OF fin sub] finite_subset[OF sub fin] r by (simp add: roomy_def)
qed

definition unpinned :: "bool \<Rightarrow> u32 set \<Rightarrow> (u32 \<Rightarrow> nat) \<Rightarrow> u32 \<Rightarrow> nat" where
  "unpinned rec A R b = (if \<not> rec \<and> b \<in> A then R b - 1 else R b)"

lemma install_prefix:
  fixes s :: "'z log_st_scheme"
  assumes "cache (log_dev (log s)) pr s V R Map.empty" "\<And>b. R b < 2 ^ 31" "roomy 1 R" "rec \<Longrightarrow> roomy 2 R"
    and "log_apart (log_start (log s)) (lh_block (lh (log s))) n" "distinct (take n (lh_block (lh (log s))))"
    and "n \<le> length (lh_block (lh (log s)))" "\<And>i. \<not> rec \<Longrightarrow> i < n \<Longrightarrow> R (lh_block (lh (log s)) ! i) \<noteq> 0"
    and "k \<le> n"
  defines "ws \<equiv> install_writes (log_start (log s)) (lh_block (lh (log s))) V"
  shows "\<exists>t. foreachk [0..<k] (install_one rec) s = Ok () t \<and>
    cache (log_dev (log s)) pr t (replay V (ws k)) (unpinned rec (set (take k (lh_block (lh (log s))))) R) Map.empty \<and>
    io_frame s t \<and> dwrites t = dwrites s @ ws k"
  using assms(9)
proof (induction k)
  case 0
  have "unpinned rec (set (take 0 (lh_block (lh (log s))))) R = R" by (simp add: unpinned_def fun_eq_iff)
  then show ?case using assms(1) by (simp add: kop_simps ws_def install_writes_def)
next
  case (Suc k)
  let ?st = "log_start (log s)" and ?bl = "lh_block (lh (log s))"
  let ?R = "unpinned rec (set (take k ?bl)) R"
  have k: "k < n" "k < length ?bl" using Suc.prems assms(7) by auto
  from Suc obtain t where t: "foreachk [0..<k] (install_one rec) s = Ok () t"
    "cache (log_dev (log s)) pr t (replay V (ws k)) ?R Map.empty" "io_frame s t" "dwrites t = dwrites s @ ws k" by auto
  have lg: "log t = log s" by (rule io_frame_log[OF t(3)])
  have "?st + of_nat k + 1 \<noteq> ?bl ! i" if "i < k" for i using log_apartD(2)[OF assms(5), of i k] that k(1) by simp
  then have lgb: "replay V (ws k) (?st + of_nat k + 1) = V (?st + of_nat k + 1)"
    by (intro replay_other) (force simp: ws_def install_writes_def)
  have ws: "ws (Suc k) = ws k @ [(?bl ! k, V (?st + of_nat k + 1))]" by (simp add: ws_def install_writes_def)
  have le: "?R b \<le> R b" for b by (simp add: unpinned_def)
  have "distinct (take k ?bl @ [?bl ! k])"
    using distinct_take[OF assms(6), of "Suc k"] k by (simp add: min_def take_Suc_conv_app_nth)
  then have new: "?bl ! k \<notin> set (take k ?bl)" by simp
  have Rk: "?R (?bl ! k) = R (?bl ! k)" using new by (simp add: unpinned_def)
  have R': "(if rec then ?R else ?R(?bl ! k := ?R (?bl ! k) - 1)) = unpinned rec (set (take (Suc k) ?bl)) R"
    using k(2) new by (auto simp: unpinned_def fun_eq_iff take_Suc_conv_app_nth)
  have c1: "?R b < 2 ^ 31" for b using le[of b] assms(2)[of b] by (rule le_less_trans)
  have c2: "if rec then roomy 2 ?R else ?R (?bl ! k) \<noteq> 0"
    using roomy_mono[OF assms(4) le] assms(8)[OF _ k(1)] Rk by auto
  obtain u where u: "install_one rec k t = Ok () u"
    "cache (log_dev (log s)) pr u ((replay V (ws k))(?bl ! k := V (?st + of_nat k + 1))) (unpinned rec (set (take (Suc k) ?bl)) R) Map.empty"
    "io_frame t u" "dwrites u = dwrites t @ [(?bl ! k, V (?st + of_nat k + 1))]"
    using install_one_spec[of t pr "replay V (ws k)" ?R k rec] t(2) c1 roomy_mono[OF assms(3) le] c2
      log_apartD(2)[OF assms(5) k(1) k(1)] unfolding lg lgb R' by blast
  have "foreachk [0..<Suc k] (install_one rec) s = Ok () u" using t(1) u(1) by (simp add: foreachk_append kop_simps)
  then show ?case using u(2,4) t(4) io_frame_trans[OF t(3) u(3)]
    by (intro exI[of _ u]) (simp add: ws replay_append del: fun_upd_apply)
qed

section \<open>The header block\<close>

text \<open>The header with \<open>n\<close> block numbers written over the old contents of its block.\<close>

definition head_block :: "nat \<Rightarrow> u32 list \<Rightarrow> block \<Rightarrow> block" where
  "head_block n bl old = fold (\<lambda>i bs. wr32 bs (4 + 4 * i) (bl ! i)) [0..<n] (wr32 old 0 (of_nat n))"

lemma fold_wr32:
  assumes "4 + 4 * n \<le> length bs"
  shows "length (fold (\<lambda>i bs. wr32 bs (4 + 4 * i) (bl ! i)) [0..<n] bs) = length bs"
    "rd32 (fold (\<lambda>i bs. wr32 bs (4 + 4 * i) (bl ! i)) [0..<n] bs) 0 = rd32 bs 0"
    "i < n \<Longrightarrow> rd32 (fold (\<lambda>i bs. wr32 bs (4 + 4 * i) (bl ! i)) [0..<n] bs) (4 + 4 * i) = bl ! i"
  using assms
proof (induction n)
  case (Suc n)
  let ?f = "fold (\<lambda>i bs. wr32 bs (4 + 4 * i) (bl ! i)) [0..<n] bs"
  have up: "fold (\<lambda>i bs. wr32 bs (4 + 4 * i) (bl ! i)) [0..<Suc n] bs = wr32 ?f (4 + 4 * n) (bl ! n)" by simp
  {
    case 1
    then show ?case using Suc.IH(1) unfolding up by simp
  next
    case 2
    then show ?case using Suc.IH(1,2) unfolding up by simp
  next
    case 3
    then show ?case using Suc.IH(1,3) unfolding up by (cases "i = n") simp_all
  }
qed simp_all

lemma head_block_read:
  assumes "length old = BSIZE" "n \<le> LOGSIZE"
  shows "length (head_block n bl old) = BSIZE" "hd_n (head_block n bl old) = int n"
    "i < n \<Longrightarrow> hd_block (head_block n bl old) i = bl ! i"
proof -
  have l: "4 + 4 * n \<le> length (wr32 old 0 (of_nat n))" using assms by simp
  note f = fold_wr32[where bl = bl, OF l, folded head_block_def]
  show "length (head_block n bl old) = BSIZE" using f(1) assms by simp
  have "rd32 (head_block n bl old) 0 = of_nat n" using f(2) assms by simp
  then show "hd_n (head_block n bl old) = int n"
    using assms(2) by (simp add: hd_n_def signed_of_nat signed_take_bit_int_eq_self)
  show "hd_block (head_block n bl old) i = bl ! i" if "i < n" using f(3)[OF that] by (simp add: hd_block_def)
qed

lemma head_loop:
  assumes "b < length (bcache s)"
  shows "foreachk [0..<m] (\<lambda>i. setb b (\<lambda>x. x\<lparr>b_data := wr32 (b_data x) (4 + 4 * i) (bl ! i)\<rparr>)) s =
    Ok () (s\<lparr>bcache := (bcache s)[b := (bcache s ! b)\<lparr>b_data :=
      fold (\<lambda>i bs. wr32 bs (4 + 4 * i) (bl ! i)) [0..<m] (b_data (bcache s ! b))\<rparr>]\<rparr>)"
proof (induction m)
  case (Suc m)
  then show ?case using assms by (simp add: foreachk_append kop_simps setb_def)
qed (simp add: kop_simps)

lemma write_head_spec:
  fixes s :: "'z log_st_scheme"
  assumes "cache (log_dev (log s)) pr s V R Map.empty" "\<And>b. R b < 2 ^ 31" "roomy 1 R" "lh_n (lh (log s)) = int n"
  defines "st \<equiv> log_start (log s)" defines "h \<equiv> head_block n (lh_block (lh (log s))) (V st)"
  shows "\<exists>t. write_head s = Ok () t \<and> cache (log_dev (log s)) pr t (V(st := h)) R Map.empty \<and> io_frame s t \<and>
    dwrites t = dwrites s @ [(st, h)]"
proof -
  let ?d = "log_dev (log s)" and ?R = "R(st := R st + 1)"
  obtain i u where u: "bread ?d st s = Ok i u" "cache ?d pr u V ?R [st \<mapsto> i]" "io_frame s u" "dwrites u = dwrites s"
    using bread_roomy[OF assms(1) assms(2), of st] assms(3) by blast
  define H where "H = [st \<mapsto> i]"
  have H: "H st = Some i" "H(st := None) = Map.empty" by (simp_all add: H_def)
  have cu: "cache ?d pr u V ?R H" using u(2) by (simp add: H_def)
  note sd = set_data_spec[OF cu H(1)]
  have lg: "log u = log s" by (rule io_frame_log[OF u(3)])
  let ?m = "u\<lparr>bcache := (bcache u)[i := (bcache u ! i)\<lparr>b_data := h\<rparr>]\<rparr>" let ?V = "V(st := h)"
  have li: "i < length (bcache u)" using sd(2) cacheD(13)[OF cu] by simp
  have mv: "bindk (setb i (\<lambda>x. x\<lparr>b_data := wr32 (b_data x) 0 (of_nat n)\<rparr>)) (\<lambda>_. bindk (foreachk [0..<n]
      (\<lambda>k. setb i (\<lambda>x. x\<lparr>b_data := wr32 (b_data x) (4 + 4 * k) (lh_block (lh (log s)) ! k)\<rparr>))) f) u = f () ?m" for f :: "unit \<Rightarrow> (unit, 'z log_st_scheme) kernel"
    using li sd(3) head_loop[of i "u\<lparr>bcache := x\<rparr>" n "lh_block (lh (log s))" for x]
    by (simp add: kop_simps setb_def h_def head_block_def)
  note w = bwrite_spec[OF sd(1) H(1), of h]
  let ?w = "?m\<lparr>dwrites := dwrites ?m @ [(st, ?V st)]\<rparr>"
  have "?R st = 1 \<longrightarrow> ?V st = disk ?w st" unfolding disk_write by simp
  from brelse_spec[OF w(2) H(1) this] obtain a where a: "brelse i ?w = Ok () a"
    "cache ?d pr a ?V (?R(st := ?R st - 1)) (H(st := None))" "io_frame ?w a" "dwrites a = dwrites ?w" by blast
  have "?R(st := ?R st - 1) = R" by (simp add: fun_eq_iff)
  then have c: "cache ?d pr a ?V R Map.empty" using a(2) H(2) by simp
  have "write_head s = Ok () a"
    unfolding write_head_def using u(1) a(1) w(1) assms(4)
    by (simp add: bindk_eq bindk_getk st_def[symmetric] lg mv)
  moreover have "io_frame u ?m" using io_frameI[of u "dwrites u" "bcache ?m" "slocks u" "procs u"] by simp
  then have "io_frame s a" using io_frame_trans[OF u(3) io_frame_trans[OF _ io_frame_trans[OF io_frame_dwrites a(3)]]] by blast
  ultimately show ?thesis using c a(4) u(4) by (intro exI[of _ a]) simp
qed

section \<open>Commit\<close>

lemma cache_log [simp]:
  fixes s :: "'z log_st_scheme"
  shows "cache d pr (s\<lparr>log := l\<rparr>) V R H \<longleftrightarrow> cache d pr s V R H"
  by (simp add: cache_def disk_def calm_def cs_cpus_def lock_free_def cpu_defs)

text \<open>
  A transaction of \<open>n\<close> blocks is ready to commit: its blocks are pinned in the cache, nothing else
  is in use, and the header on the disk is empty.
\<close>

definition commit_ready :: "nat \<Rightarrow> 'z log_st_scheme \<Rightarrow> (u32 \<Rightarrow> block) \<Rightarrow> nat \<Rightarrow> bool" where
  "commit_ready pr s V n \<longleftrightarrow> lh_n (lh (log s)) = int n \<and> 0 < n \<and> n < NBUF \<and> length (lh_block (lh (log s))) = LOGSIZE \<and>
     distinct (take n (lh_block (lh (log s)))) \<and> log_apart (log_start (log s)) (lh_block (lh (log s))) n \<and>
     length (V (log_start (log s))) = BSIZE \<and> hd_n (disk s (log_start (log s))) = 0 \<and>
     cache (log_dev (log s)) pr s V (\<lambda>b. if b \<in> set (take n (lh_block (lh (log s)))) then 1 else 0) Map.empty"

definition commit_writes :: "u32 \<Rightarrow> u32 list \<Rightarrow> nat \<Rightarrow> (u32 \<Rightarrow> block) \<Rightarrow> (u32 \<times> block) list" where
  "commit_writes st bl n V = map (\<lambda>i. (st + of_nat i + 1, V (bl ! i))) [0..<n] @ [(st, head_block n bl (V st))] @
     map (\<lambda>i. (bl ! i, V (bl ! i))) [0..<n] @ [(st, head_block 0 bl (head_block n bl (V st)))]"

lemma log_blocks:
  assumes "n \<le> LOGSIZE"
  shows "inj_on (\<lambda>i. st + of_nat i + (1 :: u32)) {..<n}" "i < n \<Longrightarrow> st + of_nat i + 1 \<noteq> st"
proof -
  have u: "unat (of_nat i + 1 :: u32) = i + 1" if "i < n" for i
  proof -
    have "(of_nat i + 1 :: u32) = of_nat (i + 1)" by simp
    then show ?thesis using that assms by (simp only: unat_of_nat) (simp add: take_bit_nat_eq_self)
  qed
  show "inj_on (\<lambda>i. st + of_nat i + (1 :: u32)) {..<n}"
  proof (rule inj_onI)
    fix i j assume ij: "i \<in> {..<n}" "j \<in> {..<n}" "st + of_nat i + (1 :: u32) = st + of_nat j + 1"
    then have "unat (of_nat i + 1 :: u32) = unat (of_nat j + 1 :: u32)" by simp
    moreover have "i < n" "j < n" using ij by auto
    ultimately show "i = j" using u[of i] u[of j] by linarith
  qed
  show "st + of_nat i + 1 \<noteq> st" if "i < n" using u[OF that] by (auto simp: add.assoc)
qed

lemma commit_spec:
  fixes s :: "'z log_st_scheme"
  assumes "commit_ready pr s V n"
  shows "\<exists>t. commit s = Ok () t \<and> dwrites t = dwrites s @ commit_writes (log_start (log s)) (lh_block (lh (log s))) n V \<and>
    cache (log_dev (log s)) pr t (replay V (commit_writes (log_start (log s)) (lh_block (lh (log s))) n V)) (\<lambda>_. 0) Map.empty \<and>
    log t = (log s)\<lparr>lh := (lh (log s))\<lparr>lh_n := 0\<rparr>\<rparr>"
proof -
  let ?st = "log_start (log s)" and ?bl = "lh_block (lh (log s))" and ?d = "log_dev (log s)"
  define R where "R = (\<lambda>b. if b \<in> set (take n ?bl) then 1 else 0 :: nat)"
  have r: "lh_n (lh (log s)) = int n" "0 < n" "n < NBUF" "length ?bl = LOGSIZE" "distinct (take n ?bl)" "log_apart ?st ?bl n"
    "length (V ?st) = BSIZE" "cache ?d pr s V R Map.empty"
    using assms unfolding commit_ready_def R_def by blast+
  have "{b. R b \<noteq> 0} = set (take n ?bl)" by (auto simp: R_def)
  then have rm: "roomy 1 R" using r(3,4,5) by (simp add: roomy_def distinct_card)
  have Rb: "R b < 2 ^ 31" for b by (simp add: R_def)
  have Rn: "R (?bl ! i) \<noteq> 0" if "i < n" for i
    using that r(3,4) by (auto simp: R_def in_set_conv_nth intro!: exI[of _ i])
  have nl: "n \<le> LOGSIZE" "n \<le> length ?bl" using r(3,4) by simp_all
  define W where "W = log_writes ?st ?bl V n"
  define h where "h = head_block n ?bl (V ?st)"
  obtain t1 where t1: "foreachk [0..<n] write_log_one s = Ok () t1" "cache ?d pr t1 (replay V W) R Map.empty"
    "io_frame s t1" "dwrites t1 = dwrites s @ W"
    using write_log_prefix[OF r(8) Rb rm r(6) Rn order.refl] unfolding W_def by blast
  have l1: "log t1 = log s" by (rule io_frame_log[OF t1(3)])
  note lb = log_blocks[where st = ?st, OF nl(1)]
  have V1: "replay V W (?st + of_nat i + 1) = V (?bl ! i)" if "i < n" for i
    using replay_map(1)[OF lb(1) that] by (simp add: W_def log_writes_def)
  have "?st \<notin> (\<lambda>i. ?st + of_nat i + 1) ` {..<n}" using lb(2) by force
  then have Vst: "replay V W ?st = V ?st" using replay_map(2)[OF lb(1)] by (simp add: W_def log_writes_def)
  obtain t2 where t2: "write_head t1 = Ok () t2" "cache ?d pr t2 ((replay V W)(?st := h)) R Map.empty" "io_frame t1 t2"
    "dwrites t2 = dwrites t1 @ [(?st, h)]"
    using write_head_spec[of t1 pr "replay V W" R n] t1(2) Rb rm r(1) unfolding l1 Vst h_def by blast
  have l2: "log t2 = log s" using io_frame_log[OF t2(3)] l1 by simp
  let ?V2 = "(replay V W)(?st := h)"
  have I: "install_writes ?st ?bl ?V2 n = map (\<lambda>i. (?bl ! i, V (?bl ! i))) [0..<n]"
    using V1 lb(2) by (simp add: install_writes_def)
  obtain t3 where t3: "foreachk [0..<n] (install_one False) t2 = Ok () t3"
    "cache ?d pr t3 (replay ?V2 (install_writes ?st ?bl ?V2 n)) (unpinned False (set (take n ?bl)) R) Map.empty"
    "io_frame t2 t3" "dwrites t3 = dwrites t2 @ install_writes ?st ?bl ?V2 n"
    using install_prefix[of t2 pr ?V2 R False n n] t2(2) Rb rm r(5,6) nl(2) Rn unfolding l2 by blast
  have l3: "log t3 = log s" using io_frame_log[OF t3(3)] l2 by simp
  have R0: "unpinned False (set (take n ?bl)) R = (\<lambda>_. 0)" by (auto simp: unpinned_def R_def fun_eq_iff)
  let ?V3 = "replay ?V2 (install_writes ?st ?bl ?V2 n)"
  have V3: "?V3 ?st = h" using log_apartD(1)[OF r(6)] unfolding I by (subst replay_other) force+
  let ?t4 = "t3\<lparr>log := (log s)\<lparr>lh := (lh (log s))\<lparr>lh_n := 0\<rparr>\<rparr>\<rparr>"
  have rm0: "roomy 1 (\<lambda>_ :: u32. 0)" by (simp add: roomy_def)
  have c4: "cache ?d pr ?t4 ?V3 (\<lambda>_. 0) Map.empty" using t3(2) R0 by simp
  obtain t5 where t5: "write_head ?t4 = Ok () t5" "cache ?d pr t5 (?V3(?st := head_block 0 ?bl h)) (\<lambda>_. 0) Map.empty"
    "io_frame ?t4 t5" "dwrites t5 = dwrites t3 @ [(?st, head_block 0 ?bl h)]"
    using write_head_spec[of ?t4 pr ?V3 "\<lambda>_. 0" 0] c4 rm0 V3 by auto
  have W': "commit_writes ?st ?bl n V = W @ [(?st, h)] @ install_writes ?st ?bl ?V2 n @ [(?st, head_block 0 ?bl h)]"
    unfolding I by (simp add: commit_writes_def W_def log_writes_def h_def)
  have run: "commit s = Ok () t5"
    using t1(1) t2(1) t3(1) t5(1) r(1,2) l1 l2 l3
    by (simp add: commit_def write_log_def install_trans_def set_n_def upd_log_def kop_simps)
  have "dwrites t5 = dwrites s @ commit_writes ?st ?bl n V" using t1(4) t2(4) t3(4) t5(4) by (simp add: W')
  moreover have "replay V (commit_writes ?st ?bl n V) = ?V3(?st := head_block 0 ?bl h)" by (simp add: W' replay_append del: fun_upd_apply)
  moreover have "log t5 = (log s)\<lparr>lh := (lh (log s))\<lparr>lh_n := 0\<rparr>\<rparr>" using io_frame_log[OF t5(3)] by simp
  ultimately show ?thesis using run t5(2) by (intro exI[of _ t5]) simp
qed

section \<open>Recovery\<close>

lemma read_loop:
  fixes s :: "'z log_st_scheme"
  shows "foreachk [0..<m] (\<lambda>i. upd_log (\<lambda>l. l\<lparr>lh := (lh l)\<lparr>lh_block := (lh_block (lh l))[i := hd_block D i]\<rparr>\<rparr>)) s =
    Ok () (s\<lparr>log := (log s)\<lparr>lh := (lh (log s))\<lparr>lh_block := fold (\<lambda>i l. l[i := hd_block D i]) [0..<m] (lh_block (lh (log s)))\<rparr>\<rparr>\<rparr>)"
proof (induction m)
  case (Suc m)
  then show ?case by (simp add: foreachk_append kop_simps upd_log_def)
qed (simp add: kop_simps)

lemma fold_update:
  "length (fold (\<lambda>i l. l[i := f i]) [0..<m] xs) = length xs"
  "m \<le> length xs \<Longrightarrow> i < m \<Longrightarrow> fold (\<lambda>i l. l[i := f i]) [0..<m] xs ! i = f i"
proof -
  show l: "length (fold (\<lambda>i l. l[i := f i]) [0..<m] xs) = length xs" for m by (induction m) simp_all
  show "fold (\<lambda>i l. l[i := f i]) [0..<m] xs ! i = f i" if "m \<le> length xs" "i < m"
    using that by (induction m) (auto simp: l nth_list_update less_Suc_eq)
qed

lemma read_head_spec:
  fixes s :: "'z log_st_scheme"
  assumes "cache (log_dev (log s)) pr s V (\<lambda>_. 0) Map.empty" "hd_n (V (log_start (log s))) = int n"
  defines "D \<equiv> V (log_start (log s))"
  shows "\<exists>t. read_head s = Ok () t \<and> cache (log_dev (log s)) pr t V (\<lambda>_. 0) Map.empty \<and> dwrites t = dwrites s \<and>
    log t = (log s)\<lparr>lh := (lh (log s))\<lparr>lh_n := int n, lh_block := fold (\<lambda>i l. l[i := hd_block D i]) [0..<n] (lh_block (lh (log s)))\<rparr>\<rparr> \<and>
    disk0 t = disk0 s"
proof -
  let ?d = "log_dev (log s)" and ?st = "log_start (log s)"
  obtain i u where u: "bread ?d ?st s = Ok i u" "cache ?d pr u V ((\<lambda>_. 0)(?st := 0 + 1)) [?st \<mapsto> i]" "io_frame s u"
    "dwrites u = dwrites s" "b_data (bcache u ! i) = V ?st"
    using bread_roomy[OF assms(1), of ?st] by (auto simp: roomy_def)
  have lg: "log u = log s" by (rule io_frame_log[OF u(3)])
  let ?l = "(log s)\<lparr>lh := (lh (log s))\<lparr>lh_n := int n, lh_block := fold (\<lambda>i l. l[i := hd_block D i]) [0..<n] (lh_block (lh (log s)))\<rparr>\<rparr>"
  let ?u = "u\<lparr>log := ?l\<rparr>"
  define R where "R = (\<lambda>_ :: u32. 0 :: nat)(?st := 1)" define H where "H = [?st \<mapsto> i]"
  have RH: "R ?st = 1" "H ?st = Some i" "R(?st := R ?st - 1) = (\<lambda>_. 0)" "H(?st := None) = Map.empty"
    by (simp_all add: R_def H_def fun_eq_iff)
  have cu: "cache ?d pr ?u V R H" using u(2) by (simp add: R_def H_def)
  have "disk ?u = disk s" using u(3,4) by (auto simp: io_frame_def disk_def)
  then have "R ?st = 1 \<longrightarrow> V ?st = disk ?u ?st" using cacheD(6)[OF assms(1)] by simp
  from brelse_spec[OF cu RH(2) this] obtain a where a: "brelse i ?u = Ok () a"
    "cache ?d pr a V (R(?st := R ?st - 1)) (H(?st := None))" "io_frame ?u a" "dwrites a = dwrites ?u" by blast
  have sn: "set_n (int n) u = Ok () (u\<lparr>log := (log s)\<lparr>lh := (lh (log s))\<lparr>lh_n := int n\<rparr>\<rparr>\<rparr>)"
    by (simp add: set_n_def upd_log_def lg modifyk_simp)
  have "read_head s = Ok () a"
    using u(1,5) a(1) assms(2) by (simp add: read_head_def bindk_eq bindk_getk getb_def D_def read_loop sn)
  then show ?thesis using a u(4) io_frame_log[OF a(3)] RH(3,4) u(3)
    by (intro exI[of _ a]) (auto simp: io_frame_def)
qed

text \<open>The header on a disk names the blocks to install; recovery copies them home and clears it.\<close>

definition on_disk :: "(u32 \<Rightarrow> block) \<Rightarrow> u32 \<Rightarrow> u32 list" where
  "on_disk D st = map (hd_block (D st)) [0..<nat (hd_n (D st))]"

definition log_sound :: "(u32 \<Rightarrow> block) \<Rightarrow> u32 \<Rightarrow> bool" where
  "log_sound D st \<longleftrightarrow> 0 \<le> hd_n (D st) \<and> log_apart st (on_disk D st) (length (on_disk D st)) \<and> distinct (on_disk D st) \<and>
     length (D st) = BSIZE"

definition recovered :: "(u32 \<Rightarrow> block) \<Rightarrow> u32 \<Rightarrow> u32 \<Rightarrow> block" where
  "recovered D st = replay D (install_writes st (on_disk D st) D (length (on_disk D st)))"

lemma recover_spec:
  fixes s :: "'z log_st_scheme"
  assumes "cache (log_dev (log s)) pr s D (\<lambda>_. 0) Map.empty" "log_sound D (log_start (log s))"
    "length (lh_block (lh (log s))) = LOGSIZE"
  shows "\<exists>t h. recover_from_log s = Ok () t \<and> disk t = (recovered D (log_start (log s)))(log_start (log s) := h) \<and> hd_n h = 0 \<and> length h = BSIZE \<and>
    cache (log_dev (log s)) pr t (disk t) (\<lambda>_. 0) Map.empty \<and>
    dwrites t = dwrites s @ install_writes (log_start (log s)) (on_disk D (log_start (log s))) D
      (length (on_disk D (log_start (log s)))) @ [(log_start (log s), h)]"
proof -
  let ?st = "log_start (log s)" and ?d = "log_dev (log s)" let ?od = "on_disk D ?st"
  define n where "n = nat (hd_n (D ?st))"
  have n: "hd_n (D ?st) = int n" "length ?od = n" using assms(2) by (simp_all add: log_sound_def n_def on_disk_def)
  have ap: "log_apart ?st ?od n" "distinct ?od" "length (D ?st) = BSIZE" "n \<le> LOGSIZE"
    using assms(2) n(2) by (simp_all add: log_sound_def log_apart_def)
  define bl where "bl = fold (\<lambda>i l. l[i := hd_block (D ?st) i]) [0..<n] (lh_block (lh (log s)))"
  have bl: "length bl = LOGSIZE" "\<And>i. i < n \<Longrightarrow> bl ! i = ?od ! i"
    using fold_update[where f = "hd_block (D ?st)" and m = n and xs = "lh_block (lh (log s))"] assms(3) ap(4)
    by (simp_all add: bl_def on_disk_def n_def)
  have tk: "take n bl = ?od" using bl n(2) ap(4) by (intro nth_equalityI) simp_all
  obtain t1 where t1: "read_head s = Ok () t1" "cache ?d pr t1 D (\<lambda>_. 0) Map.empty" "dwrites t1 = dwrites s" "disk0 t1 = disk0 s"
    "log t1 = (log s)\<lparr>lh := (lh (log s))\<lparr>lh_n := int n, lh_block := bl\<rparr>\<rparr>"
    using read_head_spec[OF assms(1) n(1)] unfolding bl_def by blast
  have r0: "roomy k (\<lambda>_ :: u32. 0)" if "k \<le> 2" for k using that by (simp add: roomy_def)
  let ?W = "install_writes ?st ?od D n"
  have iw: "install_writes ?st bl D n = ?W" using bl(2) by (simp add: install_writes_def)
  have apb: "log_apart ?st bl n" using ap(1) bl(2) by (simp add: log_apart_def)
  have up: "unpinned True A (\<lambda>_. 0) = (\<lambda>_. 0)" for A by (simp add: unpinned_def fun_eq_iff)
  obtain t2 where t2: "foreachk [0..<n] (install_one True) t1 = Ok () t2" "cache ?d pr t2 (replay D ?W) (\<lambda>_. 0) Map.empty"
    "io_frame t1 t2" "dwrites t2 = dwrites s @ ?W"
    using install_prefix[of t1 pr D "\<lambda>_. 0" True n n] t1(2,3) r0 apb tk ap(2,4) bl(1) unfolding t1(5) by (auto simp: iw up)
  have l2: "log t2 = (log s)\<lparr>lh := (lh (log s))\<lparr>lh_n := int n, lh_block := bl\<rparr>\<rparr>" using io_frame_log[OF t2(3)] t1(5) by simp
  let ?t3 = "t2\<lparr>log := (log s)\<lparr>lh := (lh (log s))\<lparr>lh_block := bl, lh_n := 0\<rparr>\<rparr>\<rparr>"
  have st: "replay D ?W ?st = D ?st"
    using log_apartD(1)[OF ap(1)] by (intro replay_other) (force simp: install_writes_def)
  define h where "h = head_block 0 bl (D ?st)"
  obtain t4 where t4: "write_head ?t3 = Ok () t4" "cache ?d pr t4 ((replay D ?W)(?st := h)) (\<lambda>_. 0) Map.empty"
    "dwrites t4 = dwrites t2 @ [(?st, h)]"
    using write_head_spec[of ?t3 pr "replay D ?W" "\<lambda>_. 0" 0] t2(2) r0[of 1] st by (auto simp: h_def)
  have run: "recover_from_log s = Ok () t4"
    using t1(1,5) t2(1) t4(1) l2 by (simp add: recover_from_log_def install_trans_def kop_simps set_n_def upd_log_def)
  have dk: "disk t4 = (recovered D ?st)(?st := h)" using cacheD(6)[OF t4(2)] n(2) by (auto simp: recovered_def fun_eq_iff)
  have "hd_n h = 0" "length h = BSIZE" using head_block_read(1,2)[OF ap(3), of 0 bl] by (simp_all add: h_def)
  moreover have "cache ?d pr t4 (disk t4) (\<lambda>_. 0) Map.empty" using t4(2) n(2) unfolding dk recovered_def by simp
  ultimately show ?thesis using run dk t2(4) t4(3) n(2) by (intro exI[of _ t4] exI[of _ h]) simp
qed

section \<open>Crashes\<close>

text \<open>
  The blocks that belong to the log itself, as \<open>mkfs\<close> lays them out: \<open>LOGSIZE\<close> blocks, the header
  and \<open>LOGSIZE - 1\<close> log blocks behind it.
\<close>

definition log_area :: "u32 \<Rightarrow> u32 set" where
  "log_area st = {st + of_nat i | i. i < LOGSIZE}"

lemma log_areaI: "Suc i < LOGSIZE \<Longrightarrow> st + of_nat i + 1 \<in> log_area st" "st \<in> log_area st"
proof -
  show "st + of_nat i + 1 \<in> log_area st" if "Suc i < LOGSIZE"
    using that unfolding log_area_def by (intro CollectI exI[of _ "Suc i"]) simp
  show "st \<in> log_area st" unfolding log_area_def by (intro CollectI exI[of _ 0]) simp
qed

lemma log_area_iff: "b \<in> log_area st \<longleftrightarrow> unat (b - st) < LOGSIZE"
proof
  assume "b \<in> log_area st"
  then obtain i where "i < LOGSIZE" "b - st = of_nat i" by (auto simp: log_area_def)
  then show "unat (b - st) < LOGSIZE" by (simp add: unat_of_nat take_bit_nat_eq_self)
next
  assume "unat (b - st) < LOGSIZE"
  then show "b \<in> log_area st" unfolding log_area_def by (intro CollectI exI[of _ "unat (b - st)"]) simp
qed

lemma empty_header:
  assumes "hd_n (D st) = 0" "length (D st) = BSIZE"
  shows "log_sound D st" "recovered D st = D"
  using assms by (simp_all add: log_sound_def recovered_def on_disk_def log_apart_def install_writes_def)

lemma on_disk_head:
  assumes "D st = head_block n bl old" "length old = BSIZE" "n \<le> LOGSIZE" "n \<le> length bl"
  shows "on_disk D st = take n bl"
proof (rule nth_equalityI)
  show "length (on_disk D st) = length (take n bl)" using head_block_read(2)[OF assms(2,3)] assms by (simp add: on_disk_def)
  show "on_disk D st ! i = take n bl ! i" if "i < length (on_disk D st)" for i
    using that head_block_read(2,3)[OF assms(2,3)] assms by (simp add: on_disk_def)
qed

text \<open>A full header over a complete log: recovery gives every logged block its logged contents.\<close>

lemma recovered_full:
  assumes "D st = head_block n bl old" "length old = BSIZE" "n \<le> LOGSIZE" "n \<le> length bl" "log_apart st bl n" "distinct (take n bl)"
    "\<And>i. i < n \<Longrightarrow> D (st + of_nat i + 1) = V (bl ! i)" "\<And>b. b \<notin> set (take n bl) \<Longrightarrow> b \<notin> log_area st \<Longrightarrow> D b = V b"
  shows "log_sound D st" "b \<notin> log_area st \<Longrightarrow> recovered D st b = V b"
proof -
  note od = on_disk_head[where D = D and st = st, OF assms(1-4)]
  have l: "length (take n bl) = n" using assms(4) by simp
  show "log_sound D st"
    using head_block_read(1,2)[OF assms(2,3), of bl] assms(1,5,6) l by (simp add: log_sound_def od log_apart_def)
  have inj: "inj_on (\<lambda>i. take n bl ! i) {..<n}" using assms(6) l by (intro inj_on_nth) auto
  show "recovered D st b = V b" if "b \<notin> log_area st"
  proof (cases "b \<in> set (take n bl)")
    case True
    then obtain i where i: "i < n" "b = take n bl ! i" using l by (auto simp: in_set_conv_nth)
    have "recovered D st b = D (st + of_nat i + 1)"
      using replay_map(1)[OF inj i(1)] i(2) unfolding recovered_def od l install_writes_def by simp
    then show ?thesis using assms(7)[OF i(1)] i by simp
  next
    case False
    then have "b \<notin> (\<lambda>i. take n bl ! i) ` {..<n}" using l nth_mem[of _ "take n bl"] by auto
    then have "recovered D st b = D b"
      using replay_map(2)[OF inj] unfolding recovered_def od l install_writes_def by simp
    then show ?thesis using assms(8)[OF False that] by simp
  qed
qed

lemma take_map_upt: "take k (map f [0..<n]) = map f [0..<min k n]"
  by (simp add: take_map min_def)

text \<open>The disk after the first \<open>k\<close> writes of a commit.\<close>

lemma crash_before:
  assumes "commit_ready pr s V n" "k \<le> n"
  defines "st \<equiv> log_start (log s)" and "bl \<equiv> lh_block (lh (log s))"
  defines "D \<equiv> replay (disk s) (take k (commit_writes st bl n V))"
  shows "log_sound D st" "b \<notin> log_area st \<Longrightarrow> recovered D st b = disk s b"
proof -
  have r: "n < NBUF" "log_apart st bl n" "length (V st) = BSIZE" "hd_n (disk s st) = 0"
    and c: "cache (log_dev (log s)) pr s V (\<lambda>b. if b \<in> set (take n bl) then 1 else 0) Map.empty" "length bl = LOGSIZE"
    using assms(1) unfolding commit_ready_def st_def bl_def by blast+
  have ws: "take k (commit_writes st bl n V) = map (\<lambda>i. (st + of_nat i + 1, V (bl ! i))) [0..<k]"
    using assms(2) by (simp add: commit_writes_def take_map_upt min_def)
  have out: "D b = disk s b" if "b \<notin> (\<lambda>i. st + of_nat i + 1) ` {..<k}" for b
    unfolding D_def ws using that by (intro replay_other) auto
  have "st \<notin> (\<lambda>i. st + of_nat i + 1) ` {..<k}" using log_blocks(2)[of n _ st] r(1) assms(2) by force
  then have D: "D st = disk s st" by (rule out)
  have "st \<notin> set (take n bl)" using log_apartD(1)[OF r(2)] c(2) r(1) by (auto simp: in_set_conv_nth)
  then have "V st = disk s st" using cacheD(6)[OF c(1)] by simp
  then have "hd_n (D st) = 0" "length (D st) = BSIZE" using D r(3,4) by simp_all
  note e = empty_header[where D = D and st = st, OF this]
  show "log_sound D st" by (rule e(1))
  show "recovered D st b = disk s b" if "b \<notin> log_area st"
    unfolding e(2) using log_areaI(1)[of _ st] that r(1) assms(2) by (intro out) force
qed

lemma crash_after:
  assumes "commit_ready pr s V n" "n < k"
  defines "st \<equiv> log_start (log s)" and "bl \<equiv> lh_block (lh (log s))"
  defines "D \<equiv> replay (disk s) (take k (commit_writes st bl n V))"
  shows "log_sound D st" "b \<notin> log_area st \<Longrightarrow> recovered D st b = V b"
proof -
  have r: "n < NBUF" "log_apart st bl n" "length (V st) = BSIZE" "distinct (take n bl)"
    and c: "cache (log_dev (log s)) pr s V (\<lambda>b. if b \<in> set (take n bl) then 1 else 0) Map.empty" "length bl = LOGSIZE"
    using assms(1) unfolding commit_ready_def st_def bl_def by blast+
  have n: "n \<le> LOGSIZE" "n \<le> length bl" using r(1) c(2) by simp_all
  have Vb: "V b = disk s b" if "b \<notin> set (take n bl)" for b using cacheD(6)[OF c(1)] that by simp
  let ?L = "map (\<lambda>i. (st + of_nat i + 1, V (bl ! i))) [0..<n]" and ?h = "head_block n bl (V st)"
  let ?m = "min (k - Suc n) n" let ?I = "map (\<lambda>i. (bl ! i, V (bl ! i))) [0..<?m]"
  let ?E = "take (k - Suc n - n) [(st, head_block 0 bl ?h)]"
  have ws: "take k (commit_writes st bl n V) = ?L @ [(st, ?h)] @ ?I @ ?E"
    using assms(2) by (simp add: commit_writes_def take_map_upt take_Cons' min_def Suc_diff_Suc)
  define D1 where "D1 = replay (disk s) (?L @ [(st, ?h)] @ ?I)"
  have D: "D = replay D1 ?E" unfolding D_def D1_def ws by (simp add: replay_append)
  have I: "replay E ?I b = E b" if "b \<notin> set (take n bl)" for E b
    using that n(2) by (intro replay_other) (force simp: in_set_conv_nth)
  have stn: "st \<notin> set (take n bl)" using log_apartD(1)[OF r(2)] n(2) by (auto simp: in_set_conv_nth)
  have st: "D1 st = ?h" unfolding D1_def replay_append using I[OF stn] by simp
  note lb = log_blocks[where st = st, OF n(1)]
  have log: "D1 (st + of_nat i + 1) = V (bl ! i)" if "i < n" for i
  proof -
    have "st + of_nat i + 1 \<notin> set (take n bl)" using log_apartD(2)[OF r(2)] that n(2) by (force simp: in_set_conv_nth)
    then show ?thesis unfolding D1_def replay_append using I lb(2)[OF that] replay_map(1)[OF lb(1) that] by simp
  qed
  have rest: "D1 b = V b" if "b \<notin> set (take n bl)" "b \<notin> log_area st" for b
  proof -
    have "b \<notin> (\<lambda>i. st + of_nat i + 1) ` {..<n}" "b \<noteq> st" using that(2) log_areaI(1)[of _ st] log_areaI(2)[of st] r(1) by force+
    then show ?thesis unfolding D1_def replay_append using I[OF that(1)] replay_map(2)[OF lb(1)] Vb[OF that(1)] by simp
  qed
  note full = recovered_full[where D = D1 and V = V and st = st, OF st r(3) n r(2,4) log rest]
  have "log_sound D st \<and> (\<forall>b. b \<notin> log_area st \<longrightarrow> recovered D st b = V b)"
  proof (cases "k - Suc n - n = 0")
    case True
    then show ?thesis using full D by simp
  next
    case False
    then have m: "?m = n" by linarith
    have D': "D = D1(st := head_block 0 bl ?h)" using D False by (simp add: take_Cons')
    have "length ?h = BSIZE" by (rule head_block_read(1)[OF r(3) n(1)])
    then have "hd_n (D st) = 0" "length (D st) = BSIZE" using head_block_read(1,2)[of ?h 0 bl] by (simp_all add: D')
    note e = empty_header[where D = D and st = st, OF this]
    have inj: "inj_on (\<lambda>i. bl ! i) {..<n}" using inj_on_nth[OF r(4), of "{..<n}"] n(2) by (auto simp: inj_on_def)
    have "D1 b = V b" if "b \<notin> log_area st" for b
    proof (cases "b \<in> set (take n bl)")
      case True
      then obtain i where i: "i < n" "b = bl ! i" using n(2) by (auto simp: in_set_conv_nth)
      then show ?thesis unfolding D1_def replay_append m using replay_map(1)[OF inj i(1)] by simp
    next
      case False
      then show ?thesis using rest that by simp
    qed
    then show ?thesis using e log_areaI(2)[of st] by (auto simp: D')
  qed
  then show "log_sound D st" "b \<notin> log_area st \<Longrightarrow> recovered D st b = V b" by blast+
qed

text \<open>A crash while recovering: the next recovery comes to the same contents.\<close>

lemma crash_recovering:
  fixes k :: nat
  assumes "log_sound D st" "hd_n h = 0" "length h = BSIZE"
  defines "W \<equiv> install_writes st (on_disk D st) D (length (on_disk D st)) @ [(st, h)]"
  defines "E \<equiv> replay D (take k W)"
  shows "log_sound E st" "b \<notin> log_area st \<Longrightarrow> recovered E st b = recovered D st b"
proof -
  let ?od = "on_disk D st" let ?n = "length ?od"
  have a: "log_apart st ?od ?n" "distinct ?od" "length (D st) = BSIZE" using assms(1) by (simp_all add: log_sound_def)
  have inj: "inj_on (\<lambda>i. ?od ! i) {..<m}" if "m \<le> ?n" for m using a(2) that by (intro inj_on_nth) auto
  have "log_sound E st \<and> (b \<notin> log_area st \<longrightarrow> recovered E st b = recovered D st b)"
  proof (cases "k \<le> ?n")
    case True
    then have E: "E = replay D (map (\<lambda>i. (?od ! i, D (st + of_nat i + 1))) [0..<k])"
      by (simp add: E_def W_def install_writes_def take_map_upt min_def)
    have out: "E c = D c" if "c \<notin> set ?od" for c
      unfolding E using that True by (intro replay_other) force
    have st: "E st = D st" using log_apartD(1)[OF a(1)] by (intro out) (auto simp: in_set_conv_nth)
    have lg: "E (st + of_nat i + 1) = D (st + of_nat i + 1)" if "i < ?n" for i
      using log_apartD(2)[OF a(1) _ that] by (intro out) (force simp: in_set_conv_nth)
    have od: "on_disk E st = ?od" by (simp add: on_disk_def st)
    have "recovered E st b = recovered D st b"
    proof (cases "b \<in> set ?od")
      case True
      then obtain i where i: "i < ?n" "b = ?od ! i" by (auto simp: in_set_conv_nth)
      then show ?thesis using replay_map(1)[OF inj[OF order.refl] i(1)] lg by (simp add: recovered_def od install_writes_def)
    next
      case False
      then have "b \<notin> (\<lambda>i. ?od ! i) ` {..<?n}" by auto
      then show ?thesis using replay_map(2)[OF inj[OF order.refl]] out[OF False] by (simp add: recovered_def od install_writes_def)
    qed
    moreover have "log_sound E st" using assms(1) by (simp add: log_sound_def od st)
    ultimately show ?thesis by blast
  next
    case False
    then have "take k W = W" by (simp add: W_def install_writes_def)
    then have E: "E = (recovered D st)(st := h)" unfolding E_def by (simp add: W_def replay_append recovered_def)
    note e = empty_header[where D = E and st = st]
    show ?thesis using e assms(2,3) log_areaI(2)[of st] by (auto simp: E)
  qed
  then show "log_sound E st" "b \<notin> log_area st \<Longrightarrow> recovered E st b = recovered D st b" by blast+
qed

section \<open>Boot\<close>

lemma cache_initlock:
  fixes s :: "'z log_st_scheme"
  assumes "cache d pr s V R H"
  shows "cache d pr (initlock l nm s) V R H"
proof -
  have same: "bcache (initlock l nm s) = bcache s" "slocks (initlock l nm s) = slocks s" "procs (initlock l nm s) = procs s"
    "disk (initlock l nm s) = disk s" by (simp_all add: initlock_def disk_def)
  have "calm pr (initlock l nm s)" using cacheD(1)[OF assms] by (auto simp: calm_def initlock_def cs_cpus_def lock_free_def cpu_defs)
  then show ?thesis using assms unfolding cache_def same by blast
qed

lemma initlog_spec:
  fixes r :: "'z log_st_scheme"
  assumes "cache d pr r D (\<lambda>_. 0) Map.empty" "log_sound D (sb_logstart su)" "length (lh_block (lh (log r))) = LOGSIZE"
  defines "st \<equiv> sb_logstart su"
  shows "\<exists>u h. initlog d su r = Ok () u \<and> disk u = (recovered D st)(st := h) \<and> hd_n h = 0 \<and> length h = BSIZE \<and>
    cache d pr u (disk u) (\<lambda>_. 0) Map.empty \<and>
    dwrites u = dwrites r @ install_writes st (on_disk D st) D (length (on_disk D st)) @ [(st, h)]"
proof -
  let ?l = "(log r)\<lparr>log_start := st, log_size := sint (sb_nlog su), log_dev := d\<rparr>"
  let ?r = "(initlock LogLock ''log'' r)\<lparr>log := ?l\<rparr>"
  have c: "cache (log_dev (log ?r)) pr ?r D (\<lambda>_. 0) Map.empty" using cache_initlock[OF assms(1)] by simp
  have run: "initlog d su r = recover_from_log ?r"
    by (simp add: initlog_def kop_simps upd_log_def st_def) (simp add: initlock_def)
  have dw: "dwrites ?r = dwrites r" by (simp add: initlock_def)
  show ?thesis using recover_spec[OF c] assms(2,3) unfolding run dw by (simp add: st_def)
qed

section \<open>Recording a block\<close>

lemma bpin_section:
  fixes s t :: "'z bio_st_scheme"
  assumes "calm pr s" "in_section l s t" "l \<noteq> BcacheLock"
  shows "bpin i t = Ok () (t\<lparr>bcache := (bcache t)[i := (bcache t ! i)\<lparr>b_refcnt := b_refcnt (bcache t ! i) + 1\<rparr>]\<rparr>)"
proof -
  note f = in_section_facts[OF assms(2) calmD(1)[OF assms(1)]]
  have lf: "lock_free BcacheLock t" using f(3)[OF assms(3)[symmetric]] calmD(3)[OF assms(1)] by simp
  let ?e = "(entered BcacheLock t)\<lparr>bcache := (bcache t)[i := (bcache t ! i)\<lparr>b_refcnt := b_refcnt (bcache t ! i) + 1\<rparr>]\<rparr>"
  have "release BcacheLock ?e = Ok () (?e\<lparr>sstatus := sstatus t, cpus := cpus t, locks := locks t\<rparr>)"
    using in_section_release[of BcacheLock t ?e, OF _ lf f(1)] f(2) by simp
  then show ?thesis by (simp add: bpin_def kop_simps acquire_free[OF lf] setb_def) (simp add: entered_def)
qed

lemma pin_cache:
  assumes "cache d pr s V R H" "H bn = Some i" "R bn + 1 < 2 ^ 32"
  shows "cache d pr (s\<lparr>bcache := (bcache s)[i := (bcache s ! i)\<lparr>b_refcnt := b_refcnt (bcache s ! i) + 1\<rparr>]\<rparr>) V (R(bn := R bn + 1)) H"
proof -
  note c = cacheD[OF assms(1)] let ?x = "(bcache s ! i)\<lparr>b_refcnt := b_refcnt (bcache s ! i) + 1\<rparr>"
  note h = c(9)[OF assms(2)] c(10)[OF assms(2)] c(11)[OF assms(2)]
  have i: "i < NBUF" "caches d bn (bcache s ! i)" using h(1) by (simp_all add: cblock_Some[OF c(3)])
  have x: "caches d bn ?x" "b_valid ?x" using i h(2) by (simp_all add: caches_def)
  note u = update_view[OF c(3) h(1) c(13) x(1)]
  obtain ord where o: "lru (bcache s) ord" using c(2) by blast
  have R: "R bn = unat (b_refcnt (bcache s ! i))" using h(1) by (simp add: c(5) brefs_def)
  then have r: "unat (b_refcnt ?x) = R bn + 1" using assms(3) by (simp add: unat_add_nowrap)
  let ?t = "s\<lparr>bcache := (bcache s)[i := ?x]\<rparr>"
  have Vbn: "b_data (bcache s ! i) = V bn" using h by (simp add: c(4) bview_def)
  show ?thesis unfolding cache_def
  proof (intro conjI allI impI)
    show "\<exists>ord. lru (bcache ?t) ord" using lru_update[OF o, of ?x i] by auto
    show "V = bview d (bcache ?t) (disk ?t)" using u(3)[of "disk s"] x(2) c(4) Vbn by (auto simp: fun_eq_iff)
    show "R(bn := R bn + 1) = brefs d (bcache ?t)" using u(4) r c(5) by simp
    show "V b = disk ?t b" if "(R(bn := R bn + 1)) b = 0" for b using that c(6) by (auto split: if_splits)
    show "b_refcnt (bcache ?t ! k) = 0" if "k < NBUF" "b_dev (bcache ?t ! k) \<noteq> d" for k
      using that c(7)[OF that(1)] x(1) c(13) by (cases "k = i") (auto simp: caches_def)
    show "b_valid (bcache ?t ! k)" if "H b = Some k" for b k using c(10)[OF that] x(2) i(1) c(13) by (cases "k = i") auto
  qed (use c u in auto)
qed

lemma log_slot_absorb:
  assumes "blockno \<in> set (take n bl)"
  shows "log_slot bl n blockno < n" "bl[log_slot bl n blockno := blockno] = bl"
proof -
  obtain i where i: "find_index (\<lambda>x. x = blockno) (take n bl) = Some i"
    using assms by (cases "find_index (\<lambda>x. x = blockno) (take n bl)") (auto simp: find_index_None)
  then have "i < length (take n bl)" "take n bl ! i = blockno" using find_index_SomeD[OF i] by auto
  with i show "log_slot bl n blockno < n" "bl[log_slot bl n blockno := blockno] = bl"
    by (auto simp: log_slot_def)
qed

lemma log_slot_new: "blockno \<notin> set (take n bl) \<Longrightarrow> log_slot bl n blockno = n"
proof -
  assume "blockno \<notin> set (take n bl)"
  then have "find_index (\<lambda>x. x = blockno) (take n bl) = None" by (auto simp: find_index_None)
  then show ?thesis by (simp add: log_slot_def)
qed

text \<open>The log after a block was added to the transaction.\<close>

definition logged :: "u32 \<Rightarrow> log \<Rightarrow> log" where
  "logged bn l = (if bn \<in> set (take (nat (lh_n (lh l))) (lh_block (lh l))) then l
     else l\<lparr>lh := \<lparr>lh_n = lh_n (lh l) + 1, lh_block = (lh_block (lh l))[nat (lh_n (lh l)) := bn]\<rparr>\<rparr>)"

lemma in_section_log [simp]:
  fixes t :: "'z log_st_scheme"
  shows "in_section l s (t\<lparr>log := x\<rparr>) \<longleftrightarrow> in_section l s t"
  by (simp add: in_section_def)

lemma log_write_spec:
  fixes s :: "'z log_st_scheme"
  assumes "cache d pr s V R H" "H bn = Some i" "R bn + 1 < 2 ^ 32" "lh_n (lh (log s)) = int n" "n < LOGSIZE"
    "int n < log_size (log s) - 1" "1 \<le> outstanding (log s)"
  defines "new \<equiv> bn \<notin> set (take n (lh_block (lh (log s))))"
  shows "\<exists>t. log_write i s = Ok () t \<and> cache d pr t V (if new then R(bn := R bn + 1) else R) H \<and> log t = logged bn (log s) \<and>
    dwrites t = dwrites s \<and> disk t = disk s \<and> io_frame s (t\<lparr>log := log s\<rparr>)"
proof -
  note c = cacheD[OF assms(1)]
  let ?e = "entered LogLock s" let ?bl = "lh_block (lh (log s))"
  have eb: "log ?e = log s" "bcache ?e = bcache s" by (simp_all add: entered_def)
  have bn: "b_blockno (bcache s ! i) = bn" by (rule set_data_spec(4)[OF assms(1,2)])
  note pre = calm_acquire[OF c(1), of LogLock] assms(4-7)
  have rel: "release LogLock t = Ok () (t\<lparr>sstatus := sstatus s, cpus := cpus s, locks := locks s\<rparr>)" if "in_section LogLock s t" for t
    by (rule calm_release[OF c(1) that])
  show ?thesis
  proof (cases new)
    case False
    then have ab: "log_slot ?bl n bn < n" "?bl[log_slot ?bl n bn := bn] = ?bl" using log_slot_absorb by (auto simp: new_def)
    have "log_write i s = release LogLock (?e\<lparr>log := log s\<rparr>)"
      using pre ab eb bn by (simp add: log_write_def kop_simps getb_def upd_log_def whenk_def)
    also have "\<dots> = Ok () s" by (subst rel, simp) (simp add: entered_def)
    finally show ?thesis using assms(1,4) False by (intro exI[of _ s]) (simp add: logged_def new_def)
  next
    case True
    let ?l = "logged bn (log s)"
    have sl: "log_slot ?bl n bn = n" using True log_slot_new by (auto simp: new_def)
    let ?bc = "(bcache s)[i := (bcache s ! i)\<lparr>b_refcnt := b_refcnt (bcache s ! i) + 1\<rparr>]"
    let ?l1 = "(log s)\<lparr>lh := (lh (log s))\<lparr>lh_block := ?bl[n := bn]\<rparr>\<rparr>"
    have p: "bpin i (?e\<lparr>log := ?l1\<rparr>) = Ok () (?e\<lparr>log := ?l1, bcache := ?bc\<rparr>)"
      using bpin_section[OF c(1), of LogLock "?e\<lparr>log := ?l1\<rparr>"] eb by simp
    have l: "?l1\<lparr>lh := (lh ?l1)\<lparr>lh_n := int n + 1\<rparr>\<rparr> = ?l" using True assms(4) by (simp add: logged_def new_def)
    have "log_write i s = release LogLock (?e\<lparr>log := ?l1, bcache := ?bc, log := ?l\<rparr>)"
      using pre sl eb bn p l by (simp add: log_write_def kop_simps getb_def upd_log_def set_n_def whenk_def)
    also have "\<dots> = Ok () (s\<lparr>bcache := ?bc, log := ?l\<rparr>)"
      by (subst rel, simp) (simp add: entered_def)
    finally show ?thesis using pin_cache[OF assms(1-3)] True
        io_frameI[of s "dwrites s" ?bc "slocks s" "procs s"]
      by (intro exI[of _ "s\<lparr>bcache := ?bc, log := ?l\<rparr>"]) (simp add: disk_def)
  qed
qed

section \<open>A transaction of one block\<close>

text \<open>
  On a freshly booted machine, block 100 was read, filled with 7s, recorded by \<open>log_write\<close> and
  released, inside a transaction.
\<close>

abbreviation zero_block :: block where "zero_block \<equiv> replicate BSIZE 0"
abbreviation seven_block :: block where "seven_block \<equiv> replicate BSIZE 7"

lemma hd_n_zero: "hd_n zero_block = 0"
  by (simp add: hd_n_def rd32_def numeral_eq_Suc le_word_def)

lemma demo_transaction:
  "\<exists>s :: file_st. commit_ready 0 s ((\<lambda>_. zero_block)(100 := seven_block)) 1 \<and> disk s = (\<lambda>_. zero_block) \<and>
     log_start (log s) = 2 \<and> log_dev (log s) = 1"
proof -
  obtain r :: file_st where r: "cache 1 0 r (\<lambda>_. zero_block) (\<lambda>_. 0) Map.empty" "log r = zero_log" "disk r = (\<lambda>_. zero_block)"
    "\<forall>i < NBUF. b_refcnt (bcache r ! i) = 0" using booted by blast
  let ?l = "zero_log\<lparr>log_start := 2, log_size := int LOGSIZE, log_dev := 1, outstanding := 1\<rparr>"
  let ?r = "r\<lparr>log := ?l\<rparr>" let ?V = "(\<lambda>_. zero_block)(100 := seven_block)"
  have c: "cache 1 0 ?r (\<lambda>_. zero_block) (\<lambda>_. 0) Map.empty" using r(1) by simp
  define R where "R = (\<lambda>_ :: u32. 0 :: nat)(100 := 0 + 1)"
  have free: "(\<lambda>_. 0 :: nat) (100 :: u32) \<noteq> 0 \<or> (\<exists>i < NBUF. b_refcnt (bcache ?r ! i) = 0)" using r(4) by (auto intro: exI[of _ 0])
  obtain i u where u: "bread 1 100 ?r = Ok i u" "cache 1 0 u (\<lambda>_. zero_block) R [100 \<mapsto> i]" "io_frame ?r u" "dwrites u = dwrites r"
    using bread_spec[OF c _ _ free, of 100] unfolding R_def by auto
  define H where "H = [100 :: u32 \<mapsto> i]"
  have H: "H 100 = Some i" "H(100 := None) = Map.empty" by (simp_all add: H_def)
  let ?m = "u\<lparr>bcache := (bcache u)[i := (bcache u ! i)\<lparr>b_data := seven_block\<rparr>]\<rparr>"
  have m: "cache 1 0 ?m ?V R H" using set_data_spec(1)[OF u(2)[folded H_def] H(1)] .
  have lg: "log ?m = ?l" using io_frame_log[OF u(3)] by simp
  have R1: "R 100 = 1" by (simp add: R_def)
  obtain w where w: "log_write i ?m = Ok () w" "cache 1 0 w ?V (R(100 := R 100 + 1)) H" "log w = logged 100 ?l" "disk w = disk ?m"
    using log_write_spec[OF m H(1), of 0] R1 unfolding lg by (auto simp: zero_log_def)
  have "(R(100 := R 100 + 1)) 100 = 1 \<longrightarrow> ?V 100 = disk w 100" using R1 by simp
  from brelse_spec[OF w(2) H(1) this] obtain s where s: "brelse i w = Ok () s"
    "cache 1 0 s ?V (R(100 := R 100 + 1, 100 := (R(100 := R 100 + 1)) 100 - 1)) (H(100 := None))" "io_frame w s" "dwrites s = dwrites w" by blast
  have l: "log s = logged 100 ?l" using io_frame_log[OF s(3)] w(3) by simp
  have ls: "lh_n (lh (log s)) = 1" "lh_block (lh (log s)) = (replicate LOGSIZE 0)[0 := 100]" "log_start (log s) = 2" "log_dev (log s) = 1"
    unfolding l by (simp_all add: logged_def zero_log_def)
  have tk: "take 1 ((replicate LOGSIZE 0)[0 := 100 :: u32]) = [100]" by (simp add: numeral_eq_Suc)
  have Rs: "R(100 := R 100 + 1, 100 := (R(100 := R 100 + 1)) 100 - 1) = (\<lambda>b. if b \<in> set [100] then 1 else 0)"
    by (auto simp: R_def fun_eq_iff)
  have "disk u = disk r" "disk s = disk w" using u(3,4) s(3,4) by (auto simp: io_frame_def disk_def)
  then have dk: "disk s = (\<lambda>_. zero_block)" using w(4) r(3) by simp
  have "log_apart 2 ((replicate LOGSIZE 0)[0 := 100]) 1" by (simp add: log_apart_def)
  then have "commit_ready 0 s ?V 1"
    unfolding commit_ready_def ls tk dk using s(2) H(2) Rs hd_n_zero by simp
  then show ?thesis using dk ls by blast
qed

section \<open>Properties\<close>

text \<open>
  C35: \<open>commit\<close> of a transaction whose blocks are pinned in the cache. It returns, with the blocks
  unpinned and the in-memory log empty. The disk has received, in this order: the blocks'
  contents into the log, the header naming them, the contents into the home locations, and the
  empty header; so every block outside the log then is what the transaction made it.
\<close>

theorem commit_correct:
  fixes s :: "'z log_st_scheme"
  assumes "commit_ready pr s V n"
  shows "\<exists>t. commit s = Ok () t \<and> dwrites t = dwrites s @ commit_writes (log_start (log s)) (lh_block (lh (log s))) n V \<and>
    (\<exists>W. cache (log_dev (log s)) pr t W (\<lambda>_. 0) Map.empty \<and> W = disk t) \<and> lh_n (lh (log t)) = 0 \<and>
    (\<forall>b. b \<notin> log_area (log_start (log s)) \<longrightarrow> disk t b = V b)"
proof -
  let ?st = "log_start (log s)" and ?bl = "lh_block (lh (log s))" let ?W = "commit_writes ?st ?bl n V"
  obtain t where t: "commit s = Ok () t" "dwrites t = dwrites s @ ?W" "log t = (log s)\<lparr>lh := (lh (log s))\<lparr>lh_n := 0\<rparr>\<rparr>"
    "cache (log_dev (log s)) pr t (replay V ?W) (\<lambda>_. 0) Map.empty" using commit_spec[OF assms] by blast
  have dk: "disk t = replay V ?W" using cacheD(6)[OF t(4)] by auto
  have "disk t b = V b" if "b \<notin> log_area ?st" for b
  proof -
    have ap: "log_apart ?st ?bl n" "n < NBUF" using assms by (simp_all add: commit_ready_def)
    have "b \<noteq> ?st" "b \<noteq> ?st + of_nat i + 1" if "i < n" for i
      using \<open>b \<notin> log_area ?st\<close> log_areaI(1)[of i ?st] log_areaI(2)[of ?st] ap(2) that by auto
    moreover have "0 < n" using assms by (simp add: commit_ready_def)
    ultimately have "replay V ?W b = V b" by (intro replay_same) (force simp: commit_writes_def)+
    then show ?thesis using dk by simp
  qed
  with t dk show ?thesis by auto
qed

theorem commit_correct_witness:
  "\<exists>(s :: file_st) t. disk s 100 = zero_block \<and> commit s = Ok () t \<and> disk t 100 = seven_block \<and> length (dwrites t) = length (dwrites s) + 4"
proof -
  obtain s :: file_st where s: "commit_ready 0 s ((\<lambda>_. zero_block)(100 := seven_block)) 1" "disk s = (\<lambda>_. zero_block)"
    "log_start (log s) = 2" using demo_transaction by blast
  have "100 \<notin> log_area 2" by (simp add: log_area_iff)
  then have "\<exists>t. commit s = Ok () t \<and> disk t 100 = seven_block \<and> length (dwrites t) = length (dwrites s) + 4"
    using commit_correct[OF s(1)] s(3) by (auto simp: commit_writes_def)
  with s(2) show ?thesis by - (rule exI[of _ s], simp)
qed

text \<open>
  C1: A commit is atomic with respect to crashes. Let the machine stop after any number \<open>k\<close> of the
  block writes of a commit. Then at the next boot \<open>initlog\<close> returns with an empty header on the
  disk, and outside the log all blocks are as before the transaction if the header had not been
  written yet, and otherwise all blocks are as the transaction made them.
\<close>

theorem commit_crash_atomic:
  fixes s :: "'z log_st_scheme" and r :: "'y log_st_scheme"
  assumes "commit_ready pr s V n" "commit s = Ok () t" "dwrites t = dwrites s @ ws"
    and "cache d q r (replay (disk s) (take k ws)) (\<lambda>_. 0) Map.empty" "length (lh_block (lh (log r))) = LOGSIZE"
    and "sb_logstart su = log_start (log s)"
  shows "\<exists>u. initlog d su r = Ok () u \<and> hd_n (disk u (log_start (log s))) = 0 \<and>
    (\<forall>b. b \<notin> log_area (log_start (log s)) \<longrightarrow> disk u b = (if k \<le> n then disk s b else V b))"
proof -
  let ?st = "log_start (log s)" and ?bl = "lh_block (lh (log s))" let ?D = "replay (disk s) (take k ws)"
  have ws: "ws = commit_writes ?st ?bl n V" using commit_spec[OF assms(1)] assms(2,3) by auto
  have ls: "log_sound ?D ?st" "\<And>b. b \<notin> log_area ?st \<Longrightarrow> recovered ?D ?st b = (if k \<le> n then disk s b else V b)"
    using crash_before[OF assms(1), of k] crash_after[OF assms(1), of k] unfolding ws by (cases "k \<le> n"; auto)+
  then have "log_sound ?D (sb_logstart su)" using assms(6) by simp
  from initlog_spec[OF assms(4) this assms(5)] obtain u h where
    u: "initlog d su r = Ok () u" "disk u = (recovered ?D ?st)(?st := h)" "hd_n h = 0" unfolding assms(6) by blast
  show ?thesis using u ls(2) log_areaI(2)[of ?st] by (intro exI[of _ u]) auto
qed

theorem commit_crash_atomic_witness:
  "\<exists>(s :: file_st) (r :: file_st) u. disk s 100 = zero_block \<and> initlog 1 (zero_sb\<lparr>sb_logstart := 2\<rparr>) r = Ok () u \<and> disk u 100 = seven_block"
proof -
  let ?V = "(\<lambda>_. zero_block)(100 := seven_block)"
  obtain s :: file_st where s: "commit_ready 0 s ?V 1" "disk s = (\<lambda>_. zero_block)" "log_start (log s) = 2" using demo_transaction by blast
  obtain t ws where t: "commit s = Ok () t" "dwrites t = dwrites s @ ws" using commit_spec[OF s(1)] by blast
  obtain r :: file_st where r: "cache 1 0 r (replay (disk s) (take 2 ws)) (\<lambda>_. 0) Map.empty" "log r = zero_log" using booted by blast
  have a: "100 \<notin> log_area 2" by (simp add: log_area_iff)
  have l: "length (lh_block (lh (log r))) = LOGSIZE" by (simp add: r(2) zero_log_def)
  have "sb_logstart (zero_sb\<lparr>sb_logstart := 2\<rparr>) = log_start (log s)" using s(3) by simp
  from commit_crash_atomic[OF s(1) t r(1) l this] a s(3)
  obtain u where "initlog 1 (zero_sb\<lparr>sb_logstart := 2\<rparr>) r = Ok () u" "disk u 100 = seven_block" by auto
  with s(2) show ?thesis by (intro exI[of _ s] exI[of _ r] exI[of _ u]) simp
qed

text \<open>
  C6: Recovery itself can be interrupted. If \<open>initlog\<close> is stopped after any number of its block
  writes, the next \<open>initlog\<close> gives every block outside the log the contents the first one would
  have given it.
\<close>

theorem recovery_crash_safe:
  fixes r :: "'z log_st_scheme" and r' :: "'y log_st_scheme"
  assumes "cache d pr r D (\<lambda>_. 0) Map.empty" "log_sound D (sb_logstart su)" "length (lh_block (lh (log r))) = LOGSIZE"
    and "initlog d su r = Ok () u" "dwrites u = dwrites r @ ws"
    and "cache d q r' (replay D (take k ws)) (\<lambda>_. 0) Map.empty" "length (lh_block (lh (log r'))) = LOGSIZE"
  shows "\<exists>u'. initlog d su r' = Ok () u' \<and> hd_n (disk u' (sb_logstart su)) = 0 \<and>
    (\<forall>b. b \<notin> log_area (sb_logstart su) \<longrightarrow> disk u' b = disk u b)"
proof -
  let ?st = "sb_logstart su"
  obtain h where h: "disk u = (recovered D ?st)(?st := h)" "hd_n h = 0" "length h = BSIZE"
    "ws = install_writes ?st (on_disk D ?st) D (length (on_disk D ?st)) @ [(?st, h)]"
    using initlog_spec[OF assms(1-3)] assms(4,5) by auto
  note c = crash_recovering[where k = k, OF assms(2) h(2,3), folded h(4)]
  obtain u' h' where u': "initlog d su r' = Ok () u'" "disk u' = (recovered (replay D (take k ws)) ?st)(?st := h')" "hd_n h' = 0"
    using initlog_spec[OF assms(6) c(1) assms(7)] by blast
  show ?thesis using u' c(2) h(1) log_areaI(2)[of ?st] by (intro exI[of _ u']) auto
qed

text \<open>A disk on which a commit was cut off after the header: block 100 is in the log but not home.\<close>

lemma demo_committed:
  "\<exists>D. log_sound D 2 \<and> on_disk D 2 = [100] \<and> D 100 = zero_block \<and> recovered D 2 100 = seven_block"
proof -
  let ?V = "(\<lambda>_. zero_block)(100 := seven_block)"
  obtain s :: file_st where s: "commit_ready 0 s ?V 1" "disk s = (\<lambda>_. zero_block)" "log_start (log s) = 2" using demo_transaction by blast
  define bl where "bl = lh_block (lh (log s))"
  define D where "D = replay (disk s) (take 2 (commit_writes 2 bl 1 ?V))"
  have c: "length bl = LOGSIZE" "cache (log_dev (log s)) 0 s ?V (\<lambda>b. if b \<in> set (take 1 bl) then 1 else 0) Map.empty"
    using s(1) unfolding commit_ready_def bl_def by blast+
  have "100 \<in> set (take 1 bl)"
  proof (rule ccontr)
    assume "100 \<notin> set (take 1 bl)"
    then have "?V 100 = disk s 100" using cacheD(6)[OF c(2), rule_format, of 100] by simp
    then show False using s(2) by simp
  qed
  then have bl: "take 1 bl = [100]" "bl ! 0 = 100" using c(1) by (cases bl; auto)+
  have D: "D = (\<lambda>_. zero_block)(3 := seven_block, 2 := head_block 1 bl zero_block)"
    using s(2) bl(2) by (simp add: D_def commit_writes_def take_Cons')
  have "on_disk D 2 = take 1 bl"
    by (rule on_disk_head[where old = zero_block]) (use c(1) in \<open>simp_all add: D\<close>)
  moreover have "log_sound D 2" "recovered D 2 100 = ?V 100"
    using crash_after(1)[OF s(1), of 2] crash_after(2)[OF s(1), of 2 100] s(3)
    by (simp_all add: D_def bl_def log_area_iff)
  moreover have "D 100 = zero_block" by (simp add: D)
  ultimately show ?thesis using bl(1) by (intro exI[of _ D]) simp
qed

theorem recovery_crash_safe_witness:
  "\<exists>D (r :: file_st) (r' :: file_st) u u' ws. on_disk D 2 = [100] \<and> D 100 = zero_block \<and> disk r = D \<and>
     initlog 1 (zero_sb\<lparr>sb_logstart := 2\<rparr>) r = Ok () u \<and> dwrites u = dwrites r @ ws \<and> length ws = 2 \<and>
     disk r' = replay D (take 1 ws) \<and> initlog 1 (zero_sb\<lparr>sb_logstart := 2\<rparr>) r' = Ok () u' \<and>
     disk u 100 = seven_block \<and> disk u' 100 = seven_block"
proof -
  let ?sb = "zero_sb\<lparr>sb_logstart := 2\<rparr>"
  obtain D where D: "log_sound D 2" "on_disk D 2 = [100]" "D 100 = zero_block" "recovered D 2 100 = seven_block"
    using demo_committed by blast
  then have ls: "log_sound D (sb_logstart ?sb)" by simp
  obtain r :: file_st where r: "cache 1 0 r D (\<lambda>_. 0) Map.empty" "log r = zero_log" using booted by blast
  have l: "length (lh_block (lh (log r))) = LOGSIZE" by (simp add: r(2) zero_log_def)
  obtain u h ws where u: "initlog 1 ?sb r = Ok () u" "dwrites u = dwrites r @ ws" "disk u = (recovered D 2)(2 := h)"
    "ws = install_writes 2 (on_disk D 2) D (length (on_disk D 2)) @ [(2, h)]"
    using initlog_spec[OF r(1) ls l] by auto
  obtain r' :: file_st where r': "cache 1 0 r' (replay D (take 1 ws)) (\<lambda>_. 0) Map.empty" "log r' = zero_log" using booted by blast
  have l': "length (lh_block (lh (log r'))) = LOGSIZE" by (simp add: r'(2) zero_log_def)
  have "100 \<notin> log_area (sb_logstart ?sb)" by (simp add: log_area_iff)
  with recovery_crash_safe[OF r(1) ls l u(1,2) r'(1) l'] obtain u' where
    u': "initlog 1 ?sb r' = Ok () u'" "disk u' 100 = disk u 100" by blast
  have "disk u 100 = seven_block" "length ws = 2" using u(3,4) D(2,4) by (simp_all add: install_writes_def)
  moreover have "disk r = D" "disk r' = replay D (take 1 ws)" using cacheD(6)[OF r(1)] cacheD(6)[OF r'(1)] by auto
  ultimately show ?thesis using D(2,3) u(1,2) u' by metis
qed

text \<open>
  \<open>log_write\<close> inside a transaction with room in the log. A block that is in the transaction
  already is absorbed: nothing changes. Another one is appended to the header and pinned in the cache, so that its
  buffer is not recycled before the commit. No block changes and nothing is written to the disk.
\<close>

theorem log_write_correct:
  fixes s :: "'z log_st_scheme"
  assumes "cache d pr s V R H" "H bn = Some i" "R bn + 1 < 2 ^ 32" "lh_n (lh (log s)) = int n" "n < LOGSIZE"
    "int n < log_size (log s) - 1" "1 \<le> outstanding (log s)" "length (lh_block (lh (log s))) = LOGSIZE"
  defines "old \<equiv> take n (lh_block (lh (log s)))"
  shows "\<exists>t. log_write i s = Ok () t \<and> dwrites t = dwrites s \<and>
    (if bn \<in> set old then cache d pr t V R H \<and> log t = log s
     else cache d pr t V (R(bn := R bn + 1)) H \<and> lh_n (lh (log t)) = int (n + 1) \<and>
       take (n + 1) (lh_block (lh (log t))) = old @ [bn])"
  using log_write_spec[OF assms(1-7)] assms(4,5,8)
  by (auto simp: old_def logged_def take_Suc_conv_app_nth)

theorem log_write_correct_witness:
  "\<exists>(s :: file_st) i t. outstanding (log s) = 1 \<and> log_write i s = Ok () t \<and> take 1 (lh_block (lh (log t))) = [100]"
proof -
  obtain r :: file_st where r: "cache 1 0 r (\<lambda>_. zero_block) (\<lambda>_. 0) Map.empty" "\<forall>i < NBUF. b_refcnt (bcache r ! i) = 0" using booted by blast
  let ?l = "zero_log\<lparr>log_size := int LOGSIZE, outstanding := 1\<rparr>" let ?r = "r\<lparr>log := ?l\<rparr>"
  have c: "cache 1 0 ?r (\<lambda>_. zero_block) (\<lambda>_. 0) Map.empty" using r(1) by simp
  have free: "(\<lambda>_. 0 :: nat) (100 :: u32) \<noteq> 0 \<or> (\<exists>i < NBUF. b_refcnt (bcache ?r ! i) = 0)" using r(2) by (auto intro: exI[of _ 0])
  define R where "R = (\<lambda>_ :: u32. 0 :: nat)(100 := 0 + 1)"
  obtain i u where u: "cache 1 0 u (\<lambda>_. zero_block) R [100 \<mapsto> i]" "io_frame ?r u" using bread_spec[OF c _ _ free, of 100] unfolding R_def by auto
  have lg: "log u = ?l" using io_frame_log[OF u(2)] by simp
  have "\<exists>t. log_write i u = Ok () t \<and> take 1 (lh_block (lh (log t))) = [100]"
    using log_write_correct[OF u(1), of 100 i 0] unfolding lg by (auto simp: zero_log_def R_def)
  then show ?thesis using lg by (intro exI[of _ u]) auto
qed

text \<open>
  C36: The space \<open>begin_op\<close> reserves is one block more than the log takes. With a log of the size
  mkfs makes (\<open>LOGSIZE\<close> blocks), \<open>begin_op\<close> admits a third operation to an empty transaction, for
  up to 3 * \<open>MAXOPBLOCKS\<close> = 30 blocks; but once the operations have logged 29 blocks, every
  \<open>log_write\<close> panics, whatever block it is for.
\<close>

theorem log_reservation_overflows:
  fixes s :: "'z log_st_scheme"
  assumes "calm pr s" "committing (log s) = 0" "lh_n (lh (log s)) = 0" "outstanding (log s) = 2" "log_size (log s) = int LOGSIZE"
  shows "\<exists>t. begin_op s = Ok () t \<and> calm pr t \<and> log t = (log s)\<lparr>outstanding := 3\<rparr> \<and>
    (\<forall>b l. lh_n l = 29 \<longrightarrow> log_write b (t\<lparr>log := (log t)\<lparr>lh := l\<rparr>\<rparr>) = Panic ''too big a transaction'')"
proof -
  let ?t = "s\<lparr>log := (log s)\<lparr>outstanding := 3\<rparr>\<rparr>"
  have ct: "calm pr (s\<lparr>log := x\<rparr>)" for x by (rule calm_frame[OF assms(1)]) simp_all
  have lg: "log (entered LogLock s) = log s" for s :: "'z log_st_scheme" by (simp add: entered_def)
  have "release LogLock ((entered LogLock s)\<lparr>log := (log s)\<lparr>outstanding := 3\<rparr>\<rparr>) = Ok () ?t"
    by (subst calm_release[OF assms(1)], simp) (simp add: entered_def)
  then have "begin_op s = Ok () ?t"
    using assms(2-5) lg by (simp add: begin_op_def begin_op_loop_def kop_simps calm_acquire[OF assms(1)] upd_log_def)
  moreover have "log_write b (?t\<lparr>log := (log ?t)\<lparr>lh := l\<rparr>\<rparr>) = Panic ''too big a transaction''" if "lh_n l = 29" for b l
    using that assms(5) lg calm_acquire[OF ct, of LogLock "(log s)\<lparr>outstanding := 3, lh := l\<rparr>"]
    by (simp add: log_write_def kop_simps)
  ultimately show ?thesis using ct by (intro exI[of _ ?t]) simp
qed

theorem log_reservation_overflows_witness:
  "\<exists>(s :: file_st) t. outstanding (log s) = 2 \<and> begin_op s = Ok () t \<and> outstanding (log t) = 3 \<and>
     log_write 0 (t\<lparr>log := (log t)\<lparr>lh := \<lparr>lh_n = 29, lh_block = replicate LOGSIZE 0\<rparr>\<rparr>\<rparr>) = Panic ''too big a transaction''"
proof -
  obtain r :: file_st where r: "cache 1 0 r (\<lambda>_. zero_block) (\<lambda>_. 0) Map.empty" using booted by blast
  let ?s = "r\<lparr>log := zero_log\<lparr>outstanding := 2, log_size := int LOGSIZE\<rparr>\<rparr>"
  have c: "calm 0 ?s" using cacheD(1)[OF r] by (rule calm_frame) simp_all
  obtain t where "begin_op ?s = Ok () t" "log t = (log ?s)\<lparr>outstanding := 3\<rparr>"
    "\<forall>b l. lh_n l = 29 \<longrightarrow> log_write b (t\<lparr>log := (log t)\<lparr>lh := l\<rparr>\<rparr>) = Panic ''too big a transaction''"
    using log_reservation_overflows[OF c] by (auto simp: zero_log_def)
  then show ?thesis by (intro exI[of _ ?s] exI[of _ t]) simp
qed

end
