(* ===== verification/Trans.thy ===== *)
theory Trans
  imports Crash
begin

text \<open>
  The disk as kernel/fs.c sees it inside a transaction: a function from block numbers to contents
  that \<open>bread\<close> reads and that a change of a buffer followed by \<open>log_write\<close> updates, with the set of the
  blocks that are in the transaction and the buffers the process holds. The lemmas of this theory
  are the interface of the cache and the log that the proofs about the file system use.
\<close>

definition fsview :: "nat \<Rightarrow> 'z log_st_scheme \<Rightarrow> (u32 \<Rightarrow> block) \<Rightarrow> u32 set \<Rightarrow> (u32 \<rightharpoonup> nat) \<Rightarrow> bool" where
  "fsview pr s V X H \<longleftrightarrow> (\<exists>n \<le> LOGSIZE. lh_n (lh (log s)) = int n \<and> distinct (take n (lh_block (lh (log s)))) \<and>
       X = set (take n (lh_block (lh (log s)))) \<and> length (lh_block (lh (log s))) = LOGSIZE) \<and>
     finite (dom H) \<and> (\<forall>b. b \<notin> X \<longrightarrow> V b = disk s b) \<and>
     cache (log_dev (log s)) pr s V (\<lambda>b. (if b \<in> X then 1 else 0) + (if b \<in> dom H then 1 else 0)) H"

definition in_trans :: "'z log_st_scheme \<Rightarrow> bool" where
  "in_trans s \<longleftrightarrow> log_size (log s) = int LOGSIZE \<and> 1 \<le> outstanding (log s)"

text \<open>What the operations leave alone: all but the cache, the locks of its buffers, the processes they wake, the log header and the console.\<close>

definition tr_frame :: "'z log_st_scheme \<Rightarrow> 'z log_st_scheme \<Rightarrow> bool" where
  "tr_frame s t \<longleftrightarrow> (\<exists>ko ps sl bc l. t = s\<lparr>kout := ko, procs := ps, slocks := sl, bcache := bc, log := (log s)\<lparr>lh := l\<rparr>\<rparr>)"

lemma tr_frame_refl [simp]: "tr_frame s s"
  unfolding tr_frame_def by (intro exI[of _ "kout s"] exI[of _ "procs s"] exI[of _ "slocks s"] exI[of _ "bcache s"] exI[of _ "lh (log s)"]) simp

lemma tr_frame_trans: "tr_frame s t \<Longrightarrow> tr_frame t u \<Longrightarrow> tr_frame s u"
proof -
  assume "tr_frame s t" "tr_frame t u"
  then obtain ko ps sl bc l ko' ps' sl' bc' l' where
    "t = s\<lparr>kout := ko, procs := ps, slocks := sl, bcache := bc, log := (log s)\<lparr>lh := l\<rparr>\<rparr>"
    "u = t\<lparr>kout := ko', procs := ps', slocks := sl', bcache := bc', log := (log t)\<lparr>lh := l'\<rparr>\<rparr>" unfolding tr_frame_def by blast
  then have "u = s\<lparr>kout := ko', procs := ps', slocks := sl', bcache := bc', log := (log s)\<lparr>lh := l'\<rparr>\<rparr>" by simp
  then show ?thesis unfolding tr_frame_def by blast
qed

lemma tr_frame_io:
  fixes s t :: "'z log_st_scheme"
  assumes "io_frame s t" "dwrites t = dwrites s"
  shows "tr_frame s t"
proof -
  obtain ps sl bc dw where t: "t = s\<lparr>procs := ps, slocks := sl, bcache := bc, dwrites := dw\<rparr>" using assms(1) unfolding io_frame_def by blast
  then have "t = s\<lparr>kout := kout s, procs := ps, slocks := sl, bcache := bc, log := (log s)\<lparr>lh := lh (log s)\<rparr>\<rparr>" using assms(2) by simp
  then show ?thesis unfolding tr_frame_def by blast
qed

lemma tr_frame_logged:
  fixes s t :: "'z log_st_scheme"
  assumes "io_frame s (t\<lparr>log := log s\<rparr>)" "dwrites t = dwrites s" "log t = logged bn (log s)"
  shows "tr_frame s t"
proof -
  obtain ps sl bc dw where t: "t\<lparr>log := log s\<rparr> = s\<lparr>procs := ps, slocks := sl, bcache := bc, dwrites := dw\<rparr>"
    using assms(1) unfolding io_frame_def by blast
  have dw: "dw = dwrites s" using arg_cong[OF t, of dwrites] assms(2) by simp
  have "t = (t\<lparr>log := log s\<rparr>)\<lparr>log := log t\<rparr>" by simp
  also have "\<dots> = s\<lparr>kout := kout s, procs := ps, slocks := sl, bcache := bc, log := log t\<rparr>" unfolding t dw by simp
  also have "log t = (log s)\<lparr>lh := lh (log t)\<rparr>" by (simp add: assms(3) logged_def)
  finally show ?thesis unfolding tr_frame_def by blast
qed

lemma tr_frameD:
  fixes s t :: "'z log_st_scheme"
  assumes "tr_frame s t"
  shows "log_dev (log t) = log_dev (log s)" "in_trans t = in_trans s" "disk t = disk s" "mem t = mem s" "kloc t = kloc s" "kobj t = kobj s"
    "log_start (log t) = log_start (log s)"
  using assms by (auto simp: tr_frame_def in_trans_def disk_def)

section \<open>Reading and releasing\<close>

lemma fsviewD:
  assumes "fsview pr s V X H"
  shows "finite X" "finite (dom H)" "\<And>b. b \<notin> X \<Longrightarrow> V b = disk s b"
    "cache (log_dev (log s)) pr s V (\<lambda>b. (if b \<in> X then 1 else 0) + (if b \<in> dom H then 1 else 0)) H"
    "\<exists>n \<le> LOGSIZE. lh_n (lh (log s)) = int n \<and> card X = n \<and> X = set (take n (lh_block (lh (log s)))) \<and>
       distinct (take n (lh_block (lh (log s)))) \<and> length (lh_block (lh (log s))) = LOGSIZE"
  using assms unfolding fsview_def by (auto simp: distinct_card)

lemma held_data: "fsview pr s V X H \<Longrightarrow> H bn = Some i \<Longrightarrow> b_data (bcache s ! i) = V bn"
  using set_data_spec(3) fsviewD(4) by blast

text \<open>A change that leaves the log alone.\<close>

lemma fsview_frame:
  fixes s t :: "'z log_st_scheme"
  assumes "fsview pr s V X H" "io_frame s t" "dwrites t = dwrites s" "finite (dom H')"
    "cache (log_dev (log s)) pr t V (\<lambda>b. (if b \<in> X then 1 else 0) + (if b \<in> dom H' then 1 else 0)) H'"
  shows "fsview pr t V X H'"
proof -
  have "log t = log s" "disk t = disk s" using io_frame_log[OF assms(2)] tr_frameD(3)[OF tr_frame_io[OF assms(2,3)]] by auto
  then show ?thesis using assms(1,4,5) unfolding fsview_def by simp
qed

lemma bread_view:
  fixes s :: "'z log_st_scheme"
  assumes "fsview pr s V X H" "bn \<notin> dom H" "card X + card (dom H) < NBUF"
  shows "\<exists>i t. bread (log_dev (log s)) bn s = Ok i t \<and> fsview pr t V X (H(bn \<mapsto> i)) \<and> tr_frame s t \<and> b_data (bcache t ! i) = V bn"
proof -
  note v = fsviewD[OF assms(1)]
  let ?R = "\<lambda>H b. (if b \<in> X then 1 else 0) + (if b \<in> dom H then 1 else 0 :: nat)"
  have "{b. ?R H b \<noteq> 0} = X \<union> dom H" by auto
  then have "roomy 1 (?R H)" using v(1,2) assms(3) card_Un_le[of X "dom H"] by (simp add: roomy_def)
  moreover have less: "?R H bn < 2 ^ 31" by simp
  ultimately obtain i t where t: "bread (log_dev (log s)) bn s = Ok i t" "cache (log_dev (log s)) pr t V ((?R H)(bn := ?R H bn + 1)) (H(bn \<mapsto> i))"
    "io_frame s t" "dwrites t = dwrites s" "b_data (bcache t ! i) = V bn"
    using bread_roomy[OF v(4) less _ disjI2] assms(2) by blast
  have "(?R H)(bn := ?R H bn + 1) = ?R (H(bn \<mapsto> i))" using assms(2) by (auto simp: fun_eq_iff)
  then have "fsview pr t V X (H(bn \<mapsto> i))" using t(2) v(2) by (intro fsview_frame[OF assms(1) t(3,4)]) simp_all
  then show ?thesis using t tr_frame_io[OF t(3,4)] by blast
qed

lemma brelse_view:
  fixes s :: "'z log_st_scheme"
  assumes "fsview pr s V X H" "H bn = Some i"
  shows "\<exists>t. brelse i s = Ok () t \<and> fsview pr t V X (H(bn := None)) \<and> tr_frame s t"
proof -
  note v = fsviewD[OF assms(1)]
  let ?R = "\<lambda>H b. (if b \<in> X then 1 else 0) + (if b \<in> dom H then 1 else 0 :: nat)"
  have "?R H bn = 1 \<longrightarrow> V bn = disk s bn" using assms(2) v(3)[of bn] by (auto split: if_splits)
  then obtain t where t: "brelse i s = Ok () t" "cache (log_dev (log s)) pr t V ((?R H)(bn := ?R H bn - 1)) (H(bn := None))"
    "io_frame s t" "dwrites t = dwrites s" using brelse_spec[OF v(4) assms(2)] by blast
  have "(?R H)(bn := ?R H bn - 1) = ?R (H(bn := None))" using assms(2) by (auto simp: fun_eq_iff)
  then have "fsview pr t V X (H(bn := None))" using t(2) v(2) by (intro fsview_frame[OF assms(1) t(3,4)]) simp_all
  then show ?thesis using t tr_frame_io[OF t(3,4)] by blast
qed

lemma drop_view:
  fixes s :: "'z log_st_scheme"
  assumes "fsview pr s V X (H(bn \<mapsto> i))" "bn \<notin> dom H"
  shows "\<exists>t. brelse i s = Ok () t \<and> fsview pr t V X H \<and> tr_frame s t"
proof -
  have "(H(bn \<mapsto> i))(bn := None) = H" using assms(2) by (auto simp: domIff)
  then show ?thesis using brelse_view[OF assms(1), of bn i] by simp
qed

section \<open>Changing a block\<close>

lemma change_view:
  fixes s :: "'z log_st_scheme"
  assumes "fsview pr s V X H" "H bn = Some i" "in_trans s" "card X < LOGSIZE - 1"
  shows "\<exists>u t. setb i (b_data_update f) s = Ok () u \<and> log_write i u = Ok () t \<and> fsview pr t (V(bn := f (V bn))) (insert bn X) H \<and> tr_frame s t"
proof -
  note v = fsviewD[OF assms(1)]
  obtain n where n: "n \<le> LOGSIZE" "lh_n (lh (log s)) = int n" "card X = n" "X = set (take n (lh_block (lh (log s))))"
    "distinct (take n (lh_block (lh (log s))))" "length (lh_block (lh (log s))) = LOGSIZE" using v(5) by blast
  let ?V = "V(bn := f (V bn))" and ?R = "\<lambda>X b. (if b \<in> X then 1 else 0) + (if b \<in> dom H then 1 else 0 :: nat)"
  let ?u = "s\<lparr>bcache := (bcache s)[i := (bcache s ! i)\<lparr>b_data := f (V bn)\<rparr>]\<rparr>"
  have "b_data_update f (bcache s ! i) = (bcache s ! i)\<lparr>b_data := f (V bn)\<rparr>" using held_data[OF assms(1,2)] by (cases "bcache s ! i") auto
  then have u: "setb i (b_data_update f) s = Ok () ?u" by (simp add: setb_def kop_simps)
  have c: "cache (log_dev (log s)) pr ?u ?V (?R X) H" by (rule set_data_spec(1)[OF v(4) assms(2)])
  have r: "?R X bn + 1 < 2 ^ 32" by simp
  obtain t where t: "log_write i ?u = Ok () t" "cache (log_dev (log s)) pr t ?V (if bn \<notin> X then (?R X)(bn := ?R X bn + 1) else ?R X) H"
    "log t = logged bn (log s)" "dwrites t = dwrites s" "disk t = disk s" "io_frame ?u (t\<lparr>log := log s\<rparr>)"
    using log_write_spec[OF c assms(2) r, of n] assms(3,4) n(2,3) unfolding n(4)[symmetric] in_trans_def by (simp add: n(4)[symmetric]) blast
  have "(if bn \<notin> X then (?R X)(bn := ?R X bn + 1) else ?R X) = ?R (insert bn X)" by (auto simp: fun_eq_iff)
  moreover have "io_frame s (t\<lparr>log := log s\<rparr>)"
    using io_frame_trans[OF _ t(6)] io_frameI[of s "dwrites s" "bcache ?u" "slocks s" "procs s"] by simp
  then have "tr_frame s t" using t(3,4) by (intro tr_frame_logged) auto
  moreover have "\<exists>n \<le> LOGSIZE. lh_n (lh (log t)) = int n \<and> distinct (take n (lh_block (lh (log t)))) \<and>
     insert bn X = set (take n (lh_block (lh (log t)))) \<and> length (lh_block (lh (log t))) = LOGSIZE"
  proof (cases "bn \<in> X")
    case True
    then show ?thesis using n t(3) by (auto simp: logged_def insert_absorb intro: exI[of _ n])
  next
    case False
    then show ?thesis using n t(3) assms(4) by (intro exI[of _ "Suc n"]) (auto simp: logged_def take_Suc_conv_app_nth)
  qed
  moreover have "\<forall>b. b \<notin> insert bn X \<longrightarrow> ?V b = disk t b" using v(3) t(5) by simp
  moreover have "log_dev (log t) = log_dev (log s)" using t(3) by (simp add: logged_def)
  ultimately show ?thesis using u t(1,2) v(2) unfolding fsview_def by auto
qed

end
