(* ===== verification/Balloc.thy ===== *)
theory Balloc
  imports Trans
begin

text \<open>
  The block allocator of kernel/fs.c: \<open>balloc\<close> and \<open>bfree\<close> on the bitmap of the disk, inside a
  transaction.
\<close>

section \<open>The bitmap\<close>

lemma bit_clear_iff: "bit_clear d bi \<longleftrightarrow> \<not> bit (d ! (bi div 8)) (bi mod 8)"
  by (simp add: bit_clear_def push_bit_of_1 and_exp_eq_0_iff_not_bit)

lemma bit_mask: "m < 8 \<Longrightarrow> bit (2 ^ n :: u8) m \<longleftrightarrow> m = n"
  by (auto simp: bit_exp_iff)

lemma same_bit: "i div n = j div n \<Longrightarrow> i mod n = j mod n \<longleftrightarrow> i = (j :: nat)"
  by (metis div_mult_mod_eq)

lemma bit_clear_set_used:
  "bi < 8 * length d \<Longrightarrow> bit_clear (set_used bi d) bj \<longleftrightarrow> bj \<noteq> bi \<and> bit_clear d bj"
  using same_bit[of bi 8 bj]
  by (cases "bj div 8 = bi div 8") (auto simp: bit_clear_iff set_used_def bit_or_iff bit_mask less_mult_imp_div_less mult.commute)

lemma bit_clear_set_free:
  "bi < 8 * length d \<Longrightarrow> bit_clear (set_free bi d) bj \<longleftrightarrow> bj = bi \<or> bit_clear d bj"
  using same_bit[of bi 8 bj]
  by (cases "bj div 8 = bi div 8")
    (auto simp: bit_clear_iff set_free_def bit_and_iff bit_not_iff bit_mask less_mult_imp_div_less mult.commute)

lemma length_set_bits [simp]: "length (set_used bi d) = length d" "length (set_free bi d) = length d"
  by (simp_all add: set_used_def set_free_def)

text \<open>Block \<open>b\<close> is in use.\<close>

definition used :: "superblock \<Rightarrow> (u32 \<Rightarrow> block) \<Rightarrow> u32 \<Rightarrow> bool" where
  "used x V b \<longleftrightarrow> \<not> bit_clear (V (BBLOCK b x)) (unat b mod BPB)"

lemma BBLOCK_offset:
  assumes "unat b mod BPB = 0" "bi < BPB" "unat b + bi < 2 ^ 32"
  shows "unat (b + of_nat bi) = unat b + bi" "BBLOCK (b + of_nat bi) x = BBLOCK b x" "unat (b + of_nat bi) mod BPB = bi"
proof -
  show u: "unat (b + of_nat bi) = unat b + bi" using assms(2,3) by (simp add: unat_word_ariths unat_of_nat)
  have "unat (b + of_nat bi) div BPB = unat b div BPB" unfolding u using assms(1,2) by (auto elim: dvdE simp: mod_eq_0_iff_dvd)
  then have "(b + of_nat bi) div of_nat BPB = b div (of_nat BPB :: u32)" by (simp add: word_unat_eq_iff unat_div)
  then show "BBLOCK (b + of_nat bi) x = BBLOCK b x" by (simp add: BBLOCK_def)
  show "unat (b + of_nat bi) mod BPB = bi" unfolding u using assms(1,2) by (auto elim: dvdE simp: mod_eq_0_iff_dvd)
qed

section \<open>Blocks in a transaction\<close>

lemma tr_frame_fs:
  fixes s t :: "'z fs_st_scheme"
  assumes "tr_frame s t"
  shows "sb t = sb s" "itable t = itable s"
  using assms by (auto simp: tr_frame_def)

lemma tr_frame_kout: "tr_frame s (s\<lparr>kout := ko\<rparr>)"
  unfolding tr_frame_def by (intro exI[of _ ko] exI[of _ "procs s"] exI[of _ "slocks s"] exI[of _ "bcache s"] exI[of _ "lh (log s)"]) simp

lemma fsview_kout [simp]: "fsview pr (s\<lparr>kout := ko\<rparr>) V X H \<longleftrightarrow> fsview pr s V X H"
  by (simp add: fsview_def cache_def disk_def calm_def cs_cpus_def lock_free_def cpu_defs)

lemma edit_view:
  fixes s :: "'z log_st_scheme"
  assumes "fsview pr s V X H" "in_trans s" "bn \<notin> dom H" "card X < LOGSIZE - 1" "card (dom H) \<le> 1"
  shows "\<exists>i t w u r. bread (log_dev (log s)) bn s = Ok i t \<and> b_data (bcache t ! i) = V bn \<and>
    setb i (b_data_update f) t = Ok () w \<and> log_write i w = Ok () u \<and> brelse i u = Ok () r \<and>
    fsview pr r (V(bn := f (V bn))) (insert bn X) H \<and> tr_frame s r"
proof -
  obtain i t where t: "bread (log_dev (log s)) bn s = Ok i t" "fsview pr t V X (H(bn \<mapsto> i))" "tr_frame s t" "b_data (bcache t ! i) = V bn"
    using bread_view[OF assms(1,3)] assms(4,5) by force
  obtain w u where u: "setb i (b_data_update f) t = Ok () w" "log_write i w = Ok () u" "fsview pr u (V(bn := f (V bn))) (insert bn X) (H(bn \<mapsto> i))" "tr_frame t u"
    using change_view[OF t(2) _ _ assms(4), of bn i f] tr_frameD(2)[OF t(3)] assms(2) by auto
  obtain r where r: "brelse i u = Ok () r" "fsview pr r (V(bn := f (V bn))) (insert bn X) H" "tr_frame u r"
    using drop_view[OF u(3) assms(3)] by blast
  have "tr_frame s r" using tr_frame_trans t(3) u(4) r(3) by blast
  then show ?thesis using t u r by auto
qed

lemma read_view:
  fixes s :: "'z log_st_scheme"
  assumes "fsview pr s V X H" "bn \<notin> dom H" "card X + card (dom H) < NBUF"
  shows "\<exists>i t r. bread (log_dev (log s)) bn s = Ok i t \<and> b_data (bcache t ! i) = V bn \<and> brelse i t = Ok () r \<and> fsview pr r V X H \<and> tr_frame s r"
proof -
  obtain i t where t: "bread (log_dev (log s)) bn s = Ok i t" "fsview pr t V X (H(bn \<mapsto> i))" "tr_frame s t" "b_data (bcache t ! i) = V bn"
    using bread_view[OF assms] by blast
  obtain r where r: "brelse i t = Ok () r" "fsview pr r V X H" "tr_frame t r" using drop_view[OF t(2) assms(2)] by blast
  then show ?thesis using t tr_frame_trans[OF t(3) r(3)] by auto
qed

lemma bzero_view:
  assumes "fsview pr s V X H" "in_trans s" "bn \<notin> dom H" "card X < LOGSIZE - 1" "card (dom H) \<le> 1"
  shows "\<exists>t. bzero (log_dev (log s)) bn s = Ok () t \<and> fsview pr t (V(bn := replicate BSIZE 0)) (insert bn X) H \<and> tr_frame s t"
  using edit_view[OF assms, of "\<lambda>_. replicate BSIZE 0"] by (auto simp: bzero_def kop_simps)

section \<open>The allocator\<close>

text \<open>
  The transaction has room for two more blocks, and at most one buffer is held, of a block in use
  that is not part of the bitmap. The loop variable \<open>b\<close> of \<open>balloc\<close> is an \<open>int\<close>, compared with the
  unsigned size: the bound on the size keeps \<open>b\<close> from overflowing, and then it has the value of
  the unsigned number of the model.
\<close>

definition alloc_ready :: "nat \<Rightarrow> 'z fs_st_scheme \<Rightarrow> (u32 \<Rightarrow> block) \<Rightarrow> u32 set \<Rightarrow> (u32 \<rightharpoonup> nat) \<Rightarrow> bool" where
  "alloc_ready pr s V X H \<longleftrightarrow> fsview pr s V X H \<and> in_trans s \<and> card X + 2 \<le> LOGSIZE - 1 \<and> card (dom H) \<le> 1 \<and>
     unat (sb_size (sb s)) + BPB \<le> 2 ^ 31 \<and>
     (\<forall>b < sb_size (sb s). BBLOCK b (sb s) \<notin> dom H \<and> (b \<in> dom H \<longrightarrow> used (sb s) V b))"

lemma alloc_readyD:
  assumes "alloc_ready pr s V X H"
  shows "fsview pr s V X H" "in_trans s" "card X + 2 \<le> LOGSIZE - 1" "card (dom H) \<le> 1" "unat (sb_size (sb s)) + BPB \<le> 2 ^ 31"
    "b < sb_size (sb s) \<Longrightarrow> BBLOCK b (sb s) \<notin> dom H" "b < sb_size (sb s) \<Longrightarrow> b \<in> dom H \<Longrightarrow> used (sb s) V b"
  using assms by (auto simp: alloc_ready_def)

lemma alloc_ready_frame:
  assumes "alloc_ready pr s V X H" "fsview pr t V X H" "tr_frame s t"
  shows "alloc_ready pr t V X H"
  using assms tr_frame_fs[OF assms(3)] tr_frameD(2)[OF assms(3)] by (simp add: alloc_ready_def)

text \<open>The disk after block \<open>b\<close> was allocated.\<close>

definition alloc_block :: "superblock \<Rightarrow> u32 \<Rightarrow> (u32 \<Rightarrow> block) \<Rightarrow> u32 \<Rightarrow> block" where
  "alloc_block x b V = V(BBLOCK b x := set_used (unat b mod BPB) (V (BBLOCK b x)), b := replicate BSIZE 0)"

definition balloc_post :: "nat \<Rightarrow> 'z fs_st_scheme \<Rightarrow> (u32 \<Rightarrow> block) \<Rightarrow> u32 set \<Rightarrow> (u32 \<rightharpoonup> nat) \<Rightarrow> u32 \<Rightarrow> 'z fs_st_scheme \<Rightarrow> bool" where
  "balloc_post pr s V X H r t \<longleftrightarrow> tr_frame s t \<and>
     (if \<forall>b < sb_size (sb s). used (sb s) V b then r = 0 \<and> fsview pr t V X H
      else r < sb_size (sb s) \<and> \<not> used (sb s) V r \<and> (\<forall>b < r. used (sb s) V b) \<and>
        fsview pr t (alloc_block (sb s) r V) (insert r (insert (BBLOCK r (sb s)) X)) H)"

text \<open>One block of the bitmap: all its bits set, or the first clear bit is taken.\<close>

lemma balloc_body_full:
  fixes s :: "'z fs_st_scheme"
  assumes "alloc_ready pr s V X H" "b < sb_size (sb s)"
    and "List.find (bit_clear (V (BBLOCK b (sb s)))) [0..<min BPB (unat (sb_size (sb s)) - unat b)] = None"
  shows "\<exists>t. balloc_body (log_dev (log s)) b s = Ok (Inl (b + of_nat BPB)) t \<and> fsview pr t V X H \<and> tr_frame s t"
proof -
  note a = alloc_readyD[OF assms(1)]
  obtain i t r where "bread (log_dev (log s)) (BBLOCK b (sb s)) s = Ok i t" "b_data (bcache t ! i) = V (BBLOCK b (sb s))"
    "brelse i t = Ok () r" "fsview pr r V X H" "tr_frame s r"
    using read_view[OF a(1) a(6)[OF assms(2)]] a(3,4) by force
  then show ?thesis using assms(2,3) by (simp add: balloc_body_def kop_simps getb_def)
qed

lemma balloc_body_found:
  fixes s :: "'z fs_st_scheme"
  assumes "alloc_ready pr s V X H" "b < sb_size (sb s)" "unat b mod BPB = 0"
    and "List.find (bit_clear (V (BBLOCK b (sb s)))) [0..<min BPB (unat (sb_size (sb s)) - unat b)] = Some bi"
  shows "\<exists>t. balloc_body (log_dev (log s)) b s = Ok (Inr (b + of_nat bi)) t \<and>
    fsview pr t (alloc_block (sb s) (b + of_nat bi) V) (insert (b + of_nat bi) (insert (BBLOCK b (sb s)) X)) H \<and> tr_frame s t"
proof -
  note a = alloc_readyD[OF assms(1)]
  let ?r = "b + of_nat bi" and ?x = "sb s" let ?B = "BBLOCK b ?x" let ?V = "V(?B := set_used bi (V ?B))"
  have bi: "bi < BPB" "unat b + bi < unat (sb_size ?x)" "bit_clear (V ?B) bi" using assms(4) by (auto simp: find_Some_iff)
  have "unat b + bi < 2 ^ 32" using bi(2) a(5) by simp
  note o = BBLOCK_offset[OF assms(3) bi(1) this]
  have r: "?r < sb_size ?x" using o(1) bi(2) by (simp add: word_less_nat_alt)
  have "\<not> used ?x V ?r" using bi(3) o by (simp add: used_def)
  then have nr: "?r \<notin> dom H" using a(7)[OF r] by blast
  obtain i t w u v where e: "bread (log_dev (log s)) ?B s = Ok i t" "b_data (bcache t ! i) = V ?B" "setb i (b_data_update (set_used bi)) t = Ok () w"
    "log_write i w = Ok () u" "brelse i u = Ok () v" "fsview pr v ?V (insert ?B X) H" "tr_frame s v"
    using edit_view[OF a(1,2) a(6)[OF assms(2)], of "set_used bi"] a(3,4) by force
  have "card (insert ?B X) < LOGSIZE - 1" using a(3) fsviewD(1)[OF a(1)] by (simp add: card_insert_if)
  then obtain z where z: "bzero (log_dev (log v)) ?r v = Ok () z" "fsview pr z (?V(?r := replicate BSIZE 0)) (insert ?r (insert ?B X)) H" "tr_frame v z"
    using bzero_view[OF e(6) _ nr] a(2,4) tr_frameD(2)[OF e(7)] by blast
  have "balloc_body (log_dev (log s)) b s = Ok (Inr ?r) z"
    using e(1-5) z(1) tr_frameD(1)[OF e(7)] assms(2,4) by (simp add: balloc_body_def kop_simps getb_def)
  moreover have "?V(?r := replicate BSIZE 0) = alloc_block ?x ?r V" using o by (simp add: alloc_block_def)
  ultimately show ?thesis using z(2) tr_frame_trans[OF e(7) z(3)] by auto
qed

text \<open>The bits of one block of the bitmap, as block numbers.\<close>

lemma find_bit:
  assumes "unat b mod BPB = 0" "b < sb_size x" "unat (sb_size x) + BPB \<le> 2 ^ 31"
  shows "List.find (bit_clear (V (BBLOCK b x))) [0..<min BPB (unat (sb_size x) - unat b)] = None \<Longrightarrow>
      unat c < unat b + BPB \<Longrightarrow> b \<le> c \<Longrightarrow> c < sb_size x \<Longrightarrow> used x V c"
    "List.find (bit_clear (V (BBLOCK b x))) [0..<min BPB (unat (sb_size x) - unat b)] = Some bi \<Longrightarrow>
      b + of_nat bi < sb_size x \<and> \<not> used x V (b + of_nat bi) \<and> BBLOCK (b + of_nat bi) x = BBLOCK b x \<and>
      (\<forall>c. b \<le> c \<and> c < b + of_nat bi \<longrightarrow> used x V c)"
proof -
  let ?n = "min BPB (unat (sb_size x) - unat b)"
  have at: "used x V c \<longleftrightarrow> \<not> bit_clear (V (BBLOCK b x)) (unat c - unat b)" if "b \<le> c" "unat c < unat b + BPB" "c < sb_size x" for c
  proof -
    have "c = b + of_nat (unat c - unat b)" using that(1) by (simp add: word_unat_eq_iff unat_word_ariths unat_of_nat word_le_nat_alt)
    moreover have "unat c - unat b < BPB" "unat b + (unat c - unat b) < 2 ^ 32" using that(1,2) by (auto simp: word_le_nat_alt)
    ultimately show ?thesis using BBLOCK_offset(2,3)[OF assms(1), of "unat c - unat b"] by (metis used_def)
  qed
  show "used x V c" if "List.find (bit_clear (V (BBLOCK b x))) [0..<?n] = None" "unat c < unat b + BPB" "b \<le> c" "c < sb_size x"
    using that at[of c] by (auto simp: find_None_iff word_less_nat_alt word_le_nat_alt)
  assume f: "List.find (bit_clear (V (BBLOCK b x))) [0..<?n] = Some bi"
  then have bi: "bi < ?n" "bit_clear (V (BBLOCK b x)) bi" "\<And>j. j < bi \<Longrightarrow> \<not> bit_clear (V (BBLOCK b x)) j" by (auto simp: find_Some_iff)
  then have "bi < BPB" "unat b + bi < 2 ^ 32" using assms(3) by auto
  note o = BBLOCK_offset[OF assms(1) this]
  have "used x V c" if "b \<le> c" "c < b + of_nat bi" for c
    using at[of c] that bi(1) bi(3)[of "unat c - unat b"] o(1) by (auto simp: word_less_nat_alt word_le_nat_alt)
  then show "b + of_nat bi < sb_size x \<and> \<not> used x V (b + of_nat bi) \<and> BBLOCK (b + of_nat bi) x = BBLOCK b x \<and>
      (\<forall>c. b \<le> c \<and> c < b + of_nat bi \<longrightarrow> used x V c)"
    using o bi by (auto simp: used_def word_less_nat_alt)
qed

lemma balloc_spec:
  fixes s :: "'z fs_st_scheme"
  assumes "alloc_ready pr s V X H"
  shows "\<exists>r t. balloc (log_dev (log s)) s = Ok r t \<and> balloc_post pr s V X H r t"
proof -
  let ?x = "sb s"
  let ?J = "\<lambda>(b :: u32) u. unat b mod BPB = 0 \<and> (\<forall>c. c < b \<and> c < sb_size ?x \<longrightarrow> used ?x V c) \<and> fsview pr u V X H \<and> tr_frame s u"
  show ?thesis unfolding balloc_def
  proof (rule loopk_rule[where J = ?J and variant = "\<lambda>b. unat (sb_size ?x) + BPB - unat b"])
    show "?J 0 s" using alloc_readyD(1)[OF assms] by simp
    fix b u assume J: "?J b u"
    note f = tr_frame_fs(1)[of s u] tr_frameD(1)[of s u]
    have a: "alloc_ready pr u V X H" using alloc_ready_frame[OF assms] J by blast
    show "\<exists>y t. balloc_body (log_dev (log s)) b u = Ok y t \<and> (case y of
        Inl b' \<Rightarrow> ?J b' t \<and> unat (sb_size ?x) + BPB - unat b' < unat (sb_size ?x) + BPB - unat b
      | Inr r \<Rightarrow> balloc_post pr s V X H r t)"
    proof (cases "b < sb_size ?x")
      case False
      then have "used ?x V c" if "c < sb_size ?x" for c using J that by auto
      then have "balloc_post pr s V X H 0 (u\<lparr>kout := ko\<rparr>)" for ko
        using J tr_frame_trans[OF _ tr_frame_kout] by (auto simp: balloc_post_def)
      then show ?thesis using False J f by (simp add: balloc_body_def kop_simps printk_def)
    next
      case True
      note fb = find_bit[OF _ True alloc_readyD(5)[OF assms], of V]
      show ?thesis
      proof (cases "List.find (bit_clear (V (BBLOCK b ?x))) [0..<min BPB (unat (sb_size ?x) - unat b)]")
        case None
        then obtain t where t: "balloc_body (log_dev (log s)) b u = Ok (Inl (b + of_nat BPB)) t" "fsview pr t V X H" "tr_frame u t"
          using balloc_body_full[OF a] True f J by auto
        have n: "unat (b + of_nat BPB) = unat b + BPB" using True alloc_readyD(5)[OF assms] by (simp add: unat_word_ariths word_less_nat_alt)
        have "used ?x V c" if "c < b + of_nat BPB" "c < sb_size ?x" for c
          using J fb(1)[OF _ None, of c] that n by (cases "c < b") (auto simp: word_less_nat_alt not_less word_le_nat_alt)
        then show ?thesis using t J n True tr_frame_trans[OF _ t(3)] by (auto simp: word_less_nat_alt)
      next
        case (Some bi)
        then obtain t where t: "balloc_body (log_dev (log s)) b u = Ok (Inr (b + of_nat bi)) t"
          "fsview pr t (alloc_block ?x (b + of_nat bi) V) (insert (b + of_nat bi) (insert (BBLOCK b ?x) X)) H" "tr_frame u t"
          using balloc_body_found[OF a, of b bi] True f J by auto
        have r: "b + of_nat bi < sb_size ?x" "\<not> used ?x V (b + of_nat bi)" "BBLOCK (b + of_nat bi) ?x = BBLOCK b ?x"
          "\<And>c. b \<le> c \<Longrightarrow> c < b + of_nat bi \<Longrightarrow> used ?x V c" using fb(2)[OF _ Some] J by auto
        have "used ?x V c" if "c < b + of_nat bi" for c using J r(1) r(4)[OF _ that] that by (cases "c < b") auto
        then have "balloc_post pr s V X H (b + of_nat bi) t"
          using t r J tr_frame_trans[OF _ t(3)] by (auto simp: balloc_post_def)
        then show ?thesis using t(1) by simp
      qed
    qed
  qed
qed

section \<open>The blocks in use\<close>

text \<open>The bitmap covers the disk, and its own blocks and the boot block are in use.\<close>

definition bitmap_ok :: "superblock \<Rightarrow> (u32 \<Rightarrow> block) \<Rightarrow> bool" where
  "bitmap_ok x V \<longleftrightarrow> used x V 0 \<and>
     (\<forall>b < sb_size x. BBLOCK b x < sb_size x \<and> used x V (BBLOCK b x) \<and> length (V (BBLOCK b x)) = BSIZE)"

lemma bitmap_okD:
  assumes "bitmap_ok x V" "b < sb_size x"
  shows "BBLOCK b x < sb_size x" "used x V (BBLOCK b x)" "length (V (BBLOCK b x)) = BSIZE"
  using assms by (auto simp: bitmap_ok_def)

lemma same_BBLOCK: "BBLOCK b x = BBLOCK c x \<Longrightarrow> unat b mod BPB = unat c mod BPB \<longleftrightarrow> b = c"
proof -
  assume "BBLOCK b x = BBLOCK c x"
  then have "unat (b div 8192) = unat (c div 8192)" by (simp add: BBLOCK_def)
  then have "unat b div 8192 = unat c div 8192" by (simp add: unat_div)
  from same_bit[OF this] show ?thesis by (simp add: word_unat_eq_iff)
qed

definition free_block :: "superblock \<Rightarrow> u32 \<Rightarrow> (u32 \<Rightarrow> block) \<Rightarrow> u32 \<Rightarrow> block" where
  "free_block x b V = V(BBLOCK b x := set_free (unat b mod BPB) (V (BBLOCK b x)))"

lemma used_alloc:
  assumes "bitmap_ok x V" "r < sb_size x" "\<not> used x V r" "c < sb_size x"
  shows "used x (alloc_block x r V) c \<longleftrightarrow> used x V c \<or> c = r"
proof -
  have "BBLOCK c x \<noteq> r" using bitmap_okD(2)[OF assms(1,4)] assms(3) by auto
  then show ?thesis using bitmap_okD(3)[OF assms(1,2)] same_BBLOCK[of c x r]
    by (cases "BBLOCK c x = BBLOCK r x") (auto simp: used_def alloc_block_def bit_clear_set_used)
qed

lemma used_free:
  assumes "bitmap_ok x V" "b < sb_size x" "c < sb_size x"
  shows "used x (free_block x b V) c \<longleftrightarrow> used x V c \<and> c \<noteq> b"
  using bitmap_okD(3)[OF assms(1,2)] same_BBLOCK[of c x b]
  by (cases "BBLOCK c x = BBLOCK b x") (auto simp: used_def free_block_def bit_clear_set_free)

lemma bitmap_ok_alloc:
  assumes "bitmap_ok x V" "r < sb_size x" "\<not> used x V r"
  shows "bitmap_ok x (alloc_block x r V)"
proof -
  have "0 < sb_size x" using assms(2) by (auto simp: word_less_nat_alt)
  moreover have "length (alloc_block x r V (BBLOCK b x)) = BSIZE" if "b < sb_size x" for b
    using bitmap_okD[OF assms(1) that] bitmap_okD[OF assms(1,2)] by (auto simp: alloc_block_def)
  ultimately show ?thesis using assms(1) used_alloc[OF assms] by (auto simp: bitmap_ok_def)
qed

lemma bitmap_ok_free:
  assumes "bitmap_ok x V" "b < sb_size x" "b \<noteq> 0" "\<forall>c < sb_size x. BBLOCK c x \<noteq> b"
  shows "bitmap_ok x (free_block x b V)"
proof -
  have "0 < sb_size x" using assms(2) by (auto simp: word_less_nat_alt)
  moreover have "length (free_block x b V (BBLOCK c x)) = BSIZE" if "c < sb_size x" for c
    using bitmap_okD[OF assms(1) that] bitmap_okD[OF assms(1,2)] by (auto simp: free_block_def)
  ultimately show ?thesis using assms used_free[OF assms(1,2)] by (auto simp: bitmap_ok_def)
qed

lemma bfree_spec:
  fixes s :: "'z fs_st_scheme"
  assumes "fsview pr s V X H" "in_trans s" "card X < LOGSIZE - 1" "card (dom H) \<le> 1" "BBLOCK b (sb s) \<notin> dom H"
  shows "if used (sb s) V b then \<exists>t. bfree (log_dev (log s)) b s = Ok () t \<and>
      fsview pr t (free_block (sb s) b V) (insert (BBLOCK b (sb s)) X) H \<and> tr_frame s t
    else bfree (log_dev (log s)) b s = Panic ''freeing free block''"
proof -
  obtain i t w u v where e: "bread (log_dev (log s)) (BBLOCK b (sb s)) s = Ok i t" "b_data (bcache t ! i) = V (BBLOCK b (sb s))"
    "setb i (b_data_update (set_free (unat b mod BPB))) t = Ok () w" "log_write i w = Ok () u" "brelse i u = Ok () v"
    "fsview pr v (V(BBLOCK b (sb s) := set_free (unat b mod BPB) (V (BBLOCK b (sb s))))) (insert (BBLOCK b (sb s)) X) H" "tr_frame s v"
    using edit_view[OF assms(1,2,5,3,4), of "set_free (unat b mod BPB)"] by blast
  then show ?thesis by (simp add: bfree_def kop_simps getb_def used_def free_block_def Let_def)
qed

lemma balloc_cases:
  fixes s :: "'z fs_st_scheme"
  assumes "alloc_ready pr s V X H" "bitmap_ok (sb s) V"
  obtains (full) t where "balloc (log_dev (log s)) s = Ok 0 t" "\<forall>b < sb_size (sb s). used (sb s) V b" "fsview pr t V X H" "tr_frame s t"
  | (got) r t where "balloc (log_dev (log s)) s = Ok r t" "r \<noteq> 0" "r < sb_size (sb s)" "\<not> used (sb s) V r" "\<forall>b < r. used (sb s) V b"
      "fsview pr t (alloc_block (sb s) r V) (insert r (insert (BBLOCK r (sb s)) X)) H" "tr_frame s t"
proof -
  obtain r t where t: "balloc (log_dev (log s)) s = Ok r t" "balloc_post pr s V X H r t" using balloc_spec[OF assms(1)] by blast
  show thesis
  proof (cases "\<forall>b < sb_size (sb s). used (sb s) V b")
    case True
    then show thesis using t full by (simp add: balloc_post_def)
  next
    case False
    have r: "tr_frame s t" "r < sb_size (sb s)" "\<not> used (sb s) V r" "\<forall>b < r. used (sb s) V b"
      "fsview pr t (alloc_block (sb s) r V) (insert r (insert (BBLOCK r (sb s)) X)) H"
      using t(2) unfolding balloc_post_def if_not_P[OF False] by simp_all
    have "r \<noteq> 0" using assms(2) r(3) by (auto simp: bitmap_ok_def)
    then show thesis using got t(1) r by blast
  qed
qed

lemma room_two: "finite X \<Longrightarrow> card (insert a (insert b X)) \<le> card X + 2"
  by (simp add: card_insert_if)

section \<open>A small disk\<close>

text \<open>Eight blocks, the bitmap in block 1; blocks 0 and 1 are in use.\<close>

definition demo_sb :: superblock where
  "demo_sb = \<lparr>sb_magic = FSMAGIC, sb_size = 8, sb_nblocks = 6, sb_ninodes = 0, sb_nlog = 0, sb_logstart = 0, sb_inodestart = 0, sb_bmapstart = 1\<rparr>"

definition demo_disk :: "u32 \<Rightarrow> block" where
  "demo_disk = (\<lambda>_. zero_block)(1 := 3 # replicate 1023 0)"

lemma demo_BBLOCK: "b < 8 \<Longrightarrow> BBLOCK b demo_sb = 1"
proof -
  assume "b < 8"
  then have "unat b < 8" by (simp add: word_less_nat_alt)
  then have "unat (b div 8192) = 0" by (simp add: unat_div)
  then show ?thesis by (simp add: BBLOCK_def demo_sb_def unat_eq_zero)
qed

lemma demo_used: "b < 8 \<Longrightarrow> used demo_sb demo_disk b \<longleftrightarrow> b < 2"
proof -
  assume b: "b < 8"
  then have u: "unat b < 8" by (simp add: word_less_nat_alt)
  then have "unat b mod 8192 = unat b" "unat b div 8 = 0" by simp_all
  then have "used demo_sb demo_disk b \<longleftrightarrow> bit (3 :: u8) (unat b)"
    by (simp add: used_def demo_BBLOCK[OF b] bit_clear_iff demo_disk_def)
  also have "\<dots> \<longleftrightarrow> unat b < 2" using u by (auto simp: numeral_eq_Suc less_Suc_eq bit_Suc)
  finally show ?thesis by (simp add: word_less_nat_alt)
qed

lemma demo_bitmap: "bitmap_ok demo_sb demo_disk"
proof -
  have "length (demo_disk (BBLOCK b demo_sb)) = BSIZE" if "b < 8" for b by (simp add: demo_BBLOCK[OF that] demo_disk_def)
  then show ?thesis using demo_used[of 0] demo_used[of 1] demo_BBLOCK by (auto simp: bitmap_ok_def demo_sb_def)
qed

lemma fsview_sb [simp]:
  fixes s :: "'z fs_st_scheme"
  shows "fsview pr (s\<lparr>sb := x\<rparr>) V X H \<longleftrightarrow> fsview pr s V X H"
  by (simp add: fsview_def cache_def disk_def calm_def cs_cpus_def lock_free_def cpu_defs)

text \<open>A transaction that has not changed a block yet, on any disk.\<close>

lemma demo_trans:
  "\<exists>s :: file_st. fsview 0 s D {} Map.empty \<and> in_trans s \<and> sb s = x \<and> log_dev (log s) = 1"
proof -
  obtain r :: file_st where r: "cache 1 0 r D (\<lambda>_. 0) Map.empty" "disk r = D" using booted by blast
  let ?l = "zero_log\<lparr>log_size := int LOGSIZE, log_dev := 1, outstanding := 1\<rparr>" let ?s = "r\<lparr>log := ?l\<rparr>"
  have l: "lh_n (lh ?l) = int 0" "length (lh_block (lh ?l)) = LOGSIZE" by (simp_all add: zero_log_def)
  have "disk ?s = D" using r(2) by (simp add: disk_def)
  moreover have "cache 1 0 ?s D (\<lambda>_. 0) Map.empty" using r(1) by simp
  ultimately have "fsview 0 ?s D {} Map.empty" using l unfolding fsview_def by (auto intro!: exI[of _ 0])
  then show ?thesis by (intro exI[of _ "?s\<lparr>sb := x\<rparr>"]) (simp add: in_trans_def)
qed

lemma demo_bitmap_trans: "\<exists>s :: file_st. alloc_ready 0 s demo_disk {} Map.empty \<and> sb s = demo_sb \<and> log_dev (log s) = 1"
  using demo_trans[of demo_disk demo_sb] by (auto simp: alloc_ready_def demo_sb_def)

lemma demo_free: "\<not> (\<forall>b < sb_size demo_sb. used demo_sb demo_disk b)"
proof -
  have "2 < sb_size demo_sb" "\<not> used demo_sb demo_disk 2" using demo_used[of 2] by (simp_all add: demo_sb_def)
  then show ?thesis by blast
qed

section \<open>Properties\<close>

text \<open>
  C2: \<open>balloc\<close> in a transaction returns. If every block of the disk is in use the result is 0 and
  nothing changes. Otherwise it is the number of the first block that is not in use: this block
  now is in use and holds zeros, no other block becomes used or free, only the bitmap block
  changes besides, and both changes are part of the transaction.
\<close>

theorem balloc_correct:
  fixes s :: "'z fs_st_scheme"
  assumes "alloc_ready pr s V X H" "bitmap_ok (sb s) V"
  defines "x \<equiv> sb s"
  shows "\<exists>r t. balloc (log_dev (log s)) s = Ok r t \<and> tr_frame s t \<and>
    (if \<forall>b < sb_size x. used x V b then r = 0 \<and> fsview pr t V X H
     else r \<noteq> 0 \<and> r < sb_size x \<and> \<not> used x V r \<and> (\<forall>b < r. used x V b) \<and>
       (\<exists>W. fsview pr t W (X \<union> {r, BBLOCK r x}) H \<and> bitmap_ok x W \<and> W r = replicate BSIZE 0 \<and>
         (\<forall>b < sb_size x. used x W b \<longleftrightarrow> used x V b \<or> b = r) \<and> (\<forall>b. b \<notin> {r, BBLOCK r x} \<longrightarrow> W b = V b)))"
proof -
  note b = assms(2)[folded x_def]
  show ?thesis using assms(1,2)
  proof (cases rule: balloc_cases)
    case (full t)
    then show ?thesis by (auto simp: x_def)
  next
    case (got r t)
    note g = got[folded x_def]
    have "insert r (insert (BBLOCK r x) X) = X \<union> {r, BBLOCK r x}" by blast
    then have "fsview pr t (alloc_block x r V) (X \<union> {r, BBLOCK r x}) H" using g(6) by simp
    moreover have "alloc_block x r V b = V b" if "b \<notin> {r, BBLOCK r x}" for b using that by (simp add: alloc_block_def)
    moreover have "alloc_block x r V r = replicate BSIZE 0" by (simp add: alloc_block_def)
    moreover have "\<not> (\<forall>b < sb_size x. used x V b)" using g(3,4) by blast
    ultimately show ?thesis using g bitmap_ok_alloc[OF b g(3,4)] used_alloc[OF b g(3,4)]
      by (intro exI[of _ r] exI[of _ t]) (simp only: if_False, intro conjI exI[of _ "alloc_block x r V"], simp_all)
  qed
qed

theorem balloc_correct_witness:
  "\<exists>(s :: file_st) t. balloc 1 s = Ok 2 t \<and> (\<exists>W. fsview 0 t W {2, 1} Map.empty \<and> used demo_sb W 2 \<and> \<not> used demo_sb W 3)"
proof -
  obtain s :: file_st where s: "alloc_ready 0 s demo_disk {} Map.empty" "sb s = demo_sb" "log_dev (log s) = 1" using demo_bitmap_trans by blast
  have n: "sb_size demo_sb = 8" by (simp add: demo_sb_def)
  obtain r t W where r: "balloc 1 s = Ok r t" "r < 8" "\<not> used demo_sb demo_disk r" "\<forall>b < r. used demo_sb demo_disk b"
    "fsview 0 t W ({} \<union> {r, BBLOCK r demo_sb}) Map.empty" "\<forall>b < 8. used demo_sb W b \<longleftrightarrow> used demo_sb demo_disk b \<or> b = r"
    using balloc_correct[OF s(1)] demo_bitmap demo_free unfolding s(2,3) n by (simp only: if_False simp_thms) blast
  have "\<not> r < 2" using r(2,3) demo_used[of r] by simp
  moreover have "\<not> 2 < r" using r(4) demo_used[of 2] by fastforce
  ultimately have "r = 2" by (simp add: not_less_iff_gr_or_eq)
  moreover have "used demo_sb W 2" "\<not> used demo_sb W 3" using r(6) \<open>r = 2\<close> demo_used[of 3] by auto
  moreover have "{} \<union> {2, BBLOCK 2 demo_sb} = {2, 1}" using demo_BBLOCK[of 2] by simp
  ultimately show ?thesis using r(1,5) by metis
qed

text \<open>
  C16: \<open>bfree\<close> of a block that \<open>balloc\<close> has returned, in the same transaction, makes the blocks in use the
  same as before; a second \<open>bfree\<close> of it panics.
\<close>

theorem balloc_bfree_roundtrip:
  fixes s :: "'z fs_st_scheme"
  assumes "alloc_ready pr s V X H" "bitmap_ok (sb s) V" "card X + 3 \<le> LOGSIZE - 1" "\<not> (\<forall>b < sb_size (sb s). used (sb s) V b)"
  shows "\<exists>r t u. balloc (log_dev (log s)) s = Ok r t \<and> bfree (log_dev (log s)) r t = Ok () u \<and>
    (\<exists>W. fsview pr u W (X \<union> {r, BBLOCK r (sb s)}) H \<and> (\<forall>b < sb_size (sb s). used (sb s) W b \<longleftrightarrow> used (sb s) V b)) \<and>
    bfree (log_dev (log s)) r u = Panic ''freeing free block''"
proof -
  let ?x = "sb s"
  obtain r t where t: "balloc (log_dev (log s)) s = Ok r t"
    and r: "tr_frame s t" "r < sb_size ?x" "\<not> used ?x V r" "fsview pr t (alloc_block ?x r V) (insert r (insert (BBLOCK r ?x) X)) H"
    by (rule balloc_cases[OF assms(1,2)]) (use assms(4) in auto)
  let ?W = "alloc_block ?x r V" and ?X = "insert r (insert (BBLOCK r ?x) X)" let ?U = "free_block ?x r ?W"
  note a = alloc_readyD[OF assms(1)] and f = tr_frame_fs(1)[OF r(1)] tr_frameD(1,2)[OF r(1)]
  have c: "card ?X < LOGSIZE - 1" using room_two[OF fsviewD(1)[OF a(1)], of r "BBLOCK r ?x"] assms(3) by simp
  have "used ?x ?W r" using used_alloc[OF assms(2) r(2,3) r(2)] by simp
  then obtain u where u: "bfree (log_dev (log s)) r t = Ok () u" "fsview pr u ?U (insert (BBLOCK r ?x) ?X) H" "tr_frame t u"
    using bfree_spec[OF r(4) _ c a(4), of r] a(2) a(6)[OF r(2)] unfolding f by simp blast
  note g = tr_frame_fs(1)[OF u(3)] tr_frameD(1,2)[OF u(3)]
  have U: "used ?x ?U b \<longleftrightarrow> used ?x V b" if "b < sb_size ?x" for b
    using used_free[OF bitmap_ok_alloc[OF assms(2) r(2,3)] r(2) that] used_alloc[OF assms(2) r(2,3) that] r(3) by auto
  have X: "insert (BBLOCK r ?x) ?X = ?X" "?X = X \<union> {r, BBLOCK r ?x}" by auto
  have "bfree (log_dev (log s)) r u = Panic ''freeing free block''"
    using bfree_spec[OF u(2) _ _ a(4), of r] a(2) a(6)[OF r(2)] c U[OF r(2)] r(3) unfolding X(1) f g by simp
  moreover have "fsview pr u ?U (X \<union> {r, BBLOCK r ?x}) H" using u(2) unfolding X(1) unfolding X(2) .
  ultimately show ?thesis using t u(1) U by - (rule exI[of _ r], rule exI[of _ t], rule exI[of _ u], intro conjI exI[of _ ?U], simp_all)
qed

theorem balloc_bfree_roundtrip_witness:
  "\<exists>(s :: file_st) r t u. balloc 1 s = Ok r t \<and> bfree 1 r t = Ok () u \<and> bfree 1 r u = Panic ''freeing free block''"
proof -
  obtain s :: file_st where s: "alloc_ready 0 s demo_disk {} Map.empty" "sb s = demo_sb" "log_dev (log s) = 1" using demo_bitmap_trans by blast
  from balloc_bfree_roundtrip[OF s(1)] demo_bitmap demo_free show ?thesis unfolding s(2,3) by auto
qed

end
