(* ===== verification/Bmap.thy ===== *)
theory Bmap
  imports Balloc
begin

text \<open>
  \<open>bmap\<close> of kernel/fs.c: the map from the blocks of a file to blocks of the disk, through the direct
  addresses of the inode and its indirect block, extended on demand.
\<close>

section \<open>The map of a file\<close>

definition baddr :: "(u32 \<Rightarrow> block) \<Rightarrow> u32 list \<Rightarrow> nat \<Rightarrow> u32" where
  "baddr V as k = (if k < NDIRECT then as ! k else if as ! NDIRECT = 0 then 0 else rd32 (V (as ! NDIRECT)) (4 * (k - NDIRECT)))"

text \<open>The indirect block, if there is one, is a block in use that is not part of the bitmap.\<close>

definition indirect_ok :: "superblock \<Rightarrow> (u32 \<Rightarrow> block) \<Rightarrow> u32 list \<Rightarrow> bool" where
  "indirect_ok x V as \<longleftrightarrow> length as = NDIRECT + 1 \<and> (as ! NDIRECT \<noteq> 0 \<longrightarrow>
     as ! NDIRECT < sb_size x \<and> used x V (as ! NDIRECT) \<and> (\<forall>b < sb_size x. BBLOCK b x \<noteq> as ! NDIRECT) \<and>
     length (V (as ! NDIRECT)) = BSIZE)"

definition set_addr :: "nat \<Rightarrow> nat \<Rightarrow> u32 \<Rightarrow> 'z fs_st_scheme \<Rightarrow> 'z fs_st_scheme" where
  "set_addr ip i a s = s\<lparr>itable := (itable s)[ip := (itable s ! ip)\<lparr>i_addrs := (i_addrs (itable s ! ip))[i := a]\<rparr>]\<rparr>"

lemma fsview_set_addr [simp]:
  "fsview pr (set_addr ip i a s) V X H \<longleftrightarrow> fsview pr s V X H" "in_trans (set_addr ip i a s) \<longleftrightarrow> in_trans s"
  "sb (set_addr ip i a s) = sb s" "log (set_addr ip i a s) = log s"
  by (simp_all add: set_addr_def fsview_def cache_def disk_def calm_def cs_cpus_def lock_free_def cpu_defs in_trans_def)

lemma tr_frame_set_addr: "tr_frame s t \<Longrightarrow> tr_frame (set_addr ip i a s) (set_addr ip i a t)"
proof -
  assume "tr_frame s t"
  then obtain ko ps sl bc l where t: "t = s\<lparr>kout := ko, procs := ps, slocks := sl, bcache := bc, log := (log s)\<lparr>lh := l\<rparr>\<rparr>"
    unfolding tr_frame_def by blast
  show ?thesis unfolding tr_frame_def t set_addr_def by (rule exI, rule exI, rule exI, rule exI, rule exI) (rule fs_st.equality; simp)
qed

lemma itable_set_addr [simp]:
  "ip < length (itable s) \<Longrightarrow> itable (set_addr ip i a s) ! ip = (itable s ! ip)\<lparr>i_addrs := (i_addrs (itable s ! ip))[i := a]\<rparr>"
  "length (itable (set_addr ip i a s)) = length (itable s)"
  by (simp_all add: set_addr_def)

section \<open>One slot of the inode\<close>

lemma bmap_slot_mapped: "i_addrs (itable s ! ip) ! i \<noteq> 0 \<Longrightarrow> bmap_slot ip i s = Ok (i_addrs (itable s ! ip) ! i) s"
  by (simp add: bmap_slot_def kop_simps geti_def)

lemma bmap_slot_alloc:
  fixes s :: "'z fs_st_scheme"
  assumes "alloc_ready pr s V X H" "bitmap_ok (sb s) V" "i_addrs (itable s ! ip) ! i = 0" "i_dev (itable s ! ip) = log_dev (log s)"
  shows "(\<exists>t. bmap_slot ip i s = Ok 0 t \<and> (\<forall>b < sb_size (sb s). used (sb s) V b) \<and> fsview pr t V X H \<and> tr_frame s t) \<or>
    (\<exists>r t. bmap_slot ip i s = Ok r t \<and> r \<noteq> 0 \<and> r < sb_size (sb s) \<and> \<not> used (sb s) V r \<and>
      fsview pr t (alloc_block (sb s) r V) (insert r (insert (BBLOCK r (sb s)) X)) H \<and> tr_frame (set_addr ip i r s) t)"
proof -
  have m: "bmap_slot ip i s = (if r = 0 then Ok 0 t else Ok r (set_addr ip i r t))" if "balloc (log_dev (log s)) s = Ok r t" for r t
    using that assms(3,4) by (simp add: bmap_slot_def kop_simps geti_def seti_def set_addr_def)
  show ?thesis using assms(1,2)
  proof (cases rule: balloc_cases)
    case (full t)
    then show ?thesis using m[OF full(1)] by simp
  next
    case (got r t)
    then show ?thesis using m[OF got(1)] tr_frame_set_addr[OF got(7)] by auto
  qed
qed

section \<open>The indirect block\<close>

text \<open>With an indirect block, \<open>bmap\<close> reads the entry.\<close>

lemma bmap_indirect:
  fixes s :: "'z fs_st_scheme"
  assumes "unat bn = NDIRECT + k" "k < NINDIRECT" "i_addrs (itable s ! ip) ! NDIRECT = a" "a \<noteq> 0" "i_dev (itable s ! ip) = log_dev (log s)"
    and "bread (log_dev (log s)) a s = Ok i t" "itable t = itable s"
  shows "bmap ip bn s =
    bindk (if rd32 (b_data (bcache t ! i)) (4 * k) \<noteq> 0 then returnk (rd32 (b_data (bcache t ! i)) (4 * k)) else
           bindk (balloc (log_dev (log s))) (\<lambda>addr.
           bindk (whenk (addr \<noteq> 0) (
             bindk (setb i (b_data_update (\<lambda>d. wr32 d (4 * k) addr))) (\<lambda>_.
             log_write i))) (\<lambda>_.
           returnk addr))) (\<lambda>addr.
    bindk (brelse i) (\<lambda>_.
    returnk addr)) t"
proof -
  have "\<not> unat bn < NDIRECT" "unat bn - NDIRECT = k" using assms(1) by simp_all
  then show ?thesis using assms(2-7) bmap_slot_mapped[of s ip NDIRECT]
    by (simp add: bmap_def Let_def bindk_eq geti_def bindk_getk getb_def)
qed

lemma bmap_indirect_mapped:
  fixes s :: "'z fs_st_scheme"
  assumes "fsview pr s V X H" "card X + card (dom H) < NBUF" "a \<notin> dom H" "unat bn = NDIRECT + k" "k < NINDIRECT"
    "i_addrs (itable s ! ip) ! NDIRECT = a" "a \<noteq> 0" "i_dev (itable s ! ip) = log_dev (log s)" "rd32 (V a) (4 * k) \<noteq> 0"
  shows "\<exists>t. bmap ip bn s = Ok (rd32 (V a) (4 * k)) t \<and> fsview pr t V X H \<and> tr_frame s t"
proof -
  obtain i t where t: "bread (log_dev (log s)) a s = Ok i t" "fsview pr t V X (H(a \<mapsto> i))" "tr_frame s t" "b_data (bcache t ! i) = V a"
    using bread_view[OF assms(1,3,2)] by blast
  obtain r where r: "brelse i t = Ok () r" "fsview pr r V X H" "tr_frame t r" using drop_view[OF t(2) assms(3)] by blast
  then show ?thesis using bmap_indirect[OF assms(4-8) t(1) tr_frame_fs(2)[OF t(3)]] assms(9) t(4) tr_frame_trans[OF t(3) r(3)]
    by (simp add: kop_simps)
qed

lemma bmap_indirect_alloc:
  fixes s :: "'z fs_st_scheme"
  assumes ready: "alloc_ready pr s V X Map.empty" "card X + 3 \<le> LOGSIZE - 1" "bitmap_ok (sb s) V"
    and ind: "indirect_ok (sb s) V (i_addrs (itable s ! ip))"
    and bn: "unat bn = NDIRECT + k" "k < NINDIRECT" "i_addrs (itable s ! ip) ! NDIRECT = a" "a \<noteq> 0" "i_dev (itable s ! ip) = log_dev (log s)"
    and zero: "rd32 (V a) (4 * k) = 0"
  shows "(\<exists>t. bmap ip bn s = Ok 0 t \<and> (\<forall>b < sb_size (sb s). used (sb s) V b) \<and> fsview pr t V X Map.empty \<and> tr_frame s t) \<or>
    (\<exists>r t. bmap ip bn s = Ok r t \<and> r \<noteq> 0 \<and> r < sb_size (sb s) \<and> \<not> used (sb s) V r \<and>
      fsview pr t ((alloc_block (sb s) r V)(a := wr32 (V a) (4 * k) r)) (insert a (insert r (insert (BBLOCK r (sb s)) X))) Map.empty \<and> tr_frame s t)"
proof -
  let ?x = "sb s"
  note rd = alloc_readyD[OF ready(1)]
  have a: "used ?x V a" "a < sb_size ?x" "\<And>b. b < sb_size ?x \<Longrightarrow> BBLOCK b ?x \<noteq> a" using ind bn(3,4) by (auto simp: indirect_ok_def)
  obtain i t where t: "bread (log_dev (log s)) a s = Ok i t" "fsview pr t V X [a \<mapsto> i]" "tr_frame s t" "b_data (bcache t ! i) = V a"
    using bread_view[OF rd(1), of a] rd(3) by auto
  note f = tr_frame_fs[OF t(3)] tr_frameD(1,2)[OF t(3)]
  have ar: "alloc_ready pr t V X [a \<mapsto> i]" using t(2) rd(2,3,5) a f by (auto simp: alloc_ready_def)
  note b = bmap_indirect[OF bn t(1) f(2)]
  show ?thesis using ar ready(3)[folded f(1)]
  proof (cases rule: balloc_cases)
    case (full u)
    obtain v where v: "brelse i u = Ok () v" "fsview pr v V X Map.empty" "tr_frame u v" using drop_view[OF full(3)] by auto
    then show ?thesis using full(1,2) f b t(4) zero tr_frame_trans[OF tr_frame_trans[OF t(3) full(4)] v(3)] by (simp add: kop_simps)
  next
    case (got r u)
    note r = got(3-6)[unfolded f]
    let ?X = "insert r (insert (BBLOCK r ?x) X)" let ?W = "(alloc_block ?x r V)(a := wr32 (V a) (4 * k) r)"
    have c: "card ?X < LOGSIZE - 1" using ready(2) room_two[OF fsviewD(1)[OF rd(1)], of r "BBLOCK r ?x"] by simp
    have Va: "alloc_block ?x r V a = V a" using a(1) a(3)[OF r(1)] r(2) by (auto simp: alloc_block_def)
    obtain w v where v: "setb i (b_data_update (\<lambda>d. wr32 d (4 * k) r)) u = Ok () w" "log_write i w = Ok () v" "fsview pr v ?W (insert a ?X) [a \<mapsto> i]" "tr_frame u v"
      using change_view[OF r(4) _ _ c, of a i "\<lambda>d. wr32 d (4 * k) r"] rd(2) f(4) tr_frameD(2)[OF got(7)] Va by auto
    obtain z where z: "brelse i v = Ok () z" "fsview pr z ?W (insert a ?X) Map.empty" "tr_frame v z" using drop_view[OF v(3)] by auto
    have "bmap ip bn s = Ok r z" using b t(4) zero got(1,2) f(3) v(1,2) z(1) by (simp add: kop_simps)
    moreover have "tr_frame s z" using tr_frame_trans t(3) got(7) v(4) z(3) by blast
    ultimately show ?thesis using r(1,2) got(2) z(2) by metis
  qed
qed

section \<open>What the allocation of a block does to the map\<close>

definition bmap_post :: "superblock \<Rightarrow> (u32 \<Rightarrow> block) \<Rightarrow> u32 list \<Rightarrow> nat \<Rightarrow> u32 \<Rightarrow> (u32 \<Rightarrow> block) \<Rightarrow> u32 list \<Rightarrow> bool" where
  "bmap_post x V as k r W as' \<longleftrightarrow> bitmap_ok x W \<and> indirect_ok x W as' \<and> baddr W as' k = r \<and>
     (\<forall>j < MAXFILE. j \<noteq> k \<longrightarrow> baddr W as' j = baddr V as j) \<and>
     (if baddr V as k \<noteq> 0 then W = V \<and> as' = as
      else if r = 0 then \<forall>b < sb_size x. used x W b
      else r < sb_size x \<and> \<not> used x V r \<and> used x W r \<and> W r = replicate BSIZE 0) \<and>
     (\<forall>b < sb_size x. used x V b \<longrightarrow> used x W b \<and> (b \<noteq> as ! NDIRECT \<longrightarrow> (\<forall>c < sb_size x. b \<noteq> BBLOCK c x) \<longrightarrow> W b = V b))"

lemma bmap_post_same:
  assumes "bitmap_ok x V" "indirect_ok x V as" "baddr V as k = r" "r = 0 \<longrightarrow> (\<forall>b < sb_size x. used x V b)"
  shows "bmap_post x V as k r V as"
  using assms by (auto simp: bmap_post_def)

lemma alloc_block_other: "b \<noteq> r \<Longrightarrow> b \<noteq> BBLOCK r x \<Longrightarrow> alloc_block x r V b = V b"
  by (simp add: alloc_block_def)

lemma alloc_keeps:
  assumes "bitmap_ok x V" "r < sb_size x" "\<not> used x V r" "b < sb_size x" "used x V b"
  shows "used x (alloc_block x r V) b" "(\<forall>c < sb_size x. b \<noteq> BBLOCK c x) \<Longrightarrow> alloc_block x r V b = V b"
  using assms used_alloc[OF assms(1-4)] by (auto intro: alloc_block_other)

lemma indirect_alloc:
  assumes "bitmap_ok x V" "r < sb_size x" "\<not> used x V r" "indirect_ok x V as" "as ! NDIRECT \<noteq> 0"
  shows "alloc_block x r V (as ! NDIRECT) = V (as ! NDIRECT)" "as ! NDIRECT \<noteq> r"
proof -
  have "\<forall>c < sb_size x. as ! NDIRECT \<noteq> BBLOCK c x" using assms(4,5) by (auto simp: indirect_ok_def)
  then show "alloc_block x r V (as ! NDIRECT) = V (as ! NDIRECT)" "as ! NDIRECT \<noteq> r"
    using alloc_keeps[OF assms(1-3), of "as ! NDIRECT"] assms(3-5) by (auto simp: indirect_ok_def)
qed

text \<open>A direct block is added.\<close>

lemma bmap_post_direct:
  assumes b: "bitmap_ok x V" "r < sb_size x" "\<not> used x V r" and as: "indirect_ok x V as" "k < NDIRECT" "as ! k = 0"
  shows "bmap_post x V as k r (alloc_block x r V) (as[k := r])"
proof -
  let ?W = "alloc_block x r V" and ?as = "as[k := r]"
  have n: "?as ! NDIRECT = as ! NDIRECT" "length as = NDIRECT + 1" using as by (auto simp: indirect_ok_def)
  have "indirect_ok x ?W ?as"
    using as(1) n indirect_alloc[OF b as(1)] alloc_keeps(1)[OF b, of "as ! NDIRECT"] by (auto simp: indirect_ok_def)
  moreover have "baddr ?W ?as j = baddr V as j" if "j \<noteq> k" for j
    using that n indirect_alloc[OF b as(1)] by (auto simp: baddr_def)
  moreover have "baddr ?W ?as k = r" "baddr V as k = 0" using n(2) as(2,3) by (auto simp: baddr_def)
  moreover have "?W r = replicate BSIZE 0" "used x ?W r" using used_alloc[OF b b(2)] by (auto simp: alloc_block_def)
  moreover have "r \<noteq> 0" using b(1,3) by (auto simp: bitmap_ok_def)
  ultimately show ?thesis using b(2,3) bitmap_ok_alloc[OF b] alloc_keeps[OF b] by (simp add: bmap_post_def)
qed

text \<open>A block is added behind the indirect block.\<close>

lemma bmap_post_indirect:
  assumes b: "bitmap_ok x V" "r < sb_size x" "\<not> used x V r" and as: "indirect_ok x V as" "as ! NDIRECT \<noteq> 0"
    and k: "k < NINDIRECT" "rd32 (V (as ! NDIRECT)) (4 * k) = 0"
  defines "a \<equiv> as ! NDIRECT"
  shows "bmap_post x V as (NDIRECT + k) r ((alloc_block x r V)(a := wr32 (V a) (4 * k) r)) as"
proof -
  let ?U = "alloc_block x r V" let ?W = "?U(a := wr32 (V a) (4 * k) r)"
  have a: "?U a = V a" "a \<noteq> r" "length (V a) = BSIZE" "used x V a" "a < sb_size x" "\<And>c. c < sb_size x \<Longrightarrow> BBLOCK c x \<noteq> a"
    using indirect_alloc[OF b as] as by (auto simp: a_def indirect_ok_def)
  have u: "used x ?W c \<longleftrightarrow> used x ?U c" if "c < sb_size x" for c using a(6)[OF that] by (simp add: used_def)
  have "bitmap_ok x ?W"
  proof -
    have "0 < sb_size x" using b(2) by (auto simp: word_less_nat_alt)
    moreover have "length (?W (BBLOCK c x)) = BSIZE" if "c < sb_size x" for c
      using a(6)[OF that] bitmap_okD(3)[OF bitmap_ok_alloc[OF b] that] by simp
    ultimately show ?thesis using bitmap_ok_alloc[OF b] u by (auto simp: bitmap_ok_def)
  qed
  moreover have "indirect_ok x ?W as" using as k(1) a u[OF a(5)] alloc_keeps(1)[OF b a(5,4)] by (auto simp: indirect_ok_def a_def[symmetric])
  moreover have "baddr ?W as j = baddr V as j" if "j < MAXFILE" "j \<noteq> NDIRECT + k" for j
    using that a(3) k(1) by (auto simp: baddr_def a_def[symmetric] intro!: rd32_wr32_other)
  moreover have "baddr ?W as (NDIRECT + k) = r" "baddr V as (NDIRECT + k) = 0" using as(2) a(3) k by (auto simp: baddr_def a_def[symmetric])
  moreover have "?W r = replicate BSIZE 0" "used x ?W r" using a(2) u[OF b(2)] used_alloc[OF b b(2)] by (auto simp: alloc_block_def)
  moreover have "used x ?W c \<and> (c \<noteq> a \<longrightarrow> (\<forall>d < sb_size x. c \<noteq> BBLOCK d x) \<longrightarrow> ?W c = V c)" if "c < sb_size x" "used x V c" for c
    using that u alloc_keeps[OF b that] by auto
  moreover have "r \<noteq> 0" using b(1,3) by (auto simp: bitmap_ok_def)
  ultimately show ?thesis using b(2,3) by (simp add: bmap_post_def a_def[symmetric])
qed

text \<open>A new indirect block maps nothing yet.\<close>

lemma rd32_zeros: "j + 4 \<le> n \<Longrightarrow> rd32 (replicate n 0) j = 0"
  by (simp add: rd32_def le_word_def numeral_eq_Suc)

lemma indirect_new:
  assumes b: "bitmap_ok x V" "a < sb_size x" "\<not> used x V a" and as: "indirect_ok x V as" "as ! NDIRECT = 0"
  shows "indirect_ok x (alloc_block x a V) (as[NDIRECT := a])" "j < MAXFILE \<Longrightarrow> baddr (alloc_block x a V) (as[NDIRECT := a]) j = baddr V as j"
proof -
  have n: "length as = NDIRECT + 1" using as by (simp add: indirect_ok_def)
  have "alloc_block x a V a = replicate BSIZE 0" by (simp add: alloc_block_def)
  then show "j < MAXFILE \<Longrightarrow> baddr (alloc_block x a V) (as[NDIRECT := a]) j = baddr V as j"
    using n as(2) rd32_zeros[of "4 * (j - NDIRECT)" BSIZE] by (auto simp: baddr_def)
  have "BBLOCK c x \<noteq> a" if "c < sb_size x" for c using bitmap_okD(2)[OF b(1) that] b(3) by auto
  then show "indirect_ok x (alloc_block x a V) (as[NDIRECT := a])"
    using n b(2) used_alloc[OF b b(2)] by (auto simp: indirect_ok_def alloc_block_def)
qed

lemma bmap_post_new:
  assumes b: "bitmap_ok x V" "a < sb_size x" "\<not> used x V a" and as: "indirect_ok x V as" "as ! NDIRECT = 0"
    and p: "bmap_post x (alloc_block x a V) (as[NDIRECT := a]) k r W as'" and k: "NDIRECT \<le> k" "k < MAXFILE"
  shows "bmap_post x V as k r W as'"
proof -
  let ?V = "alloc_block x a V" and ?as = "as[NDIRECT := a]"
  have z: "baddr V as k = 0" using k as(2) by (simp add: baddr_def)
  note e = indirect_new(2)[OF b as]
  have "used x W c \<and> (c \<noteq> as ! NDIRECT \<longrightarrow> (\<forall>d < sb_size x. c \<noteq> BBLOCK d x) \<longrightarrow> W c = V c)" if c: "c < sb_size x" "used x V c" for c
  proof -
    have "?as ! NDIRECT = a" "c \<noteq> a" using as b(3) c by (auto simp: indirect_ok_def)
    then show ?thesis using p c alloc_keeps[OF b c] by (auto simp: bmap_post_def)
  qed
  moreover have "\<not> used x V r" if "r < sb_size x" "\<not> used x ?V r" using alloc_keeps(1)[OF b that(1)] that(2) by blast
  ultimately show ?thesis using p z e k by (simp add: bmap_post_def)
qed

section \<open>Properties\<close>

text \<open>\<open>bmap\<close> may allocate two blocks and change the indirect block: up to five blocks of the transaction.\<close>

definition bmap_ready :: "nat \<Rightarrow> 'z fs_st_scheme \<Rightarrow> (u32 \<Rightarrow> block) \<Rightarrow> u32 set \<Rightarrow> nat \<Rightarrow> bool" where
  "bmap_ready pr s V X ip \<longleftrightarrow> alloc_ready pr s V X Map.empty \<and> card X + 5 \<le> LOGSIZE - 1 \<and> bitmap_ok (sb s) V \<and> ip < length (itable s) \<and>
     i_dev (itable s ! ip) = log_dev (log s) \<and> indirect_ok (sb s) V (i_addrs (itable s ! ip))"

definition set_addrs :: "nat \<Rightarrow> u32 list \<Rightarrow> 'z fs_st_scheme \<Rightarrow> 'z fs_st_scheme" where
  "set_addrs ip as s = s\<lparr>itable := (itable s)[ip := (itable s ! ip)\<lparr>i_addrs := as\<rparr>]\<rparr>"

lemma set_addr_addrs: "set_addr ip i a s = set_addrs ip ((i_addrs (itable s ! ip))[i := a]) s"
  by (simp add: set_addr_def set_addrs_def)

lemma set_addrs_same [simp]: "set_addrs ip (i_addrs (itable s ! ip)) s = s"
  by (simp add: set_addrs_def)

definition bmap_runs :: "nat \<Rightarrow> 'z fs_st_scheme \<Rightarrow> (u32 \<Rightarrow> block) \<Rightarrow> u32 set \<Rightarrow> nat \<Rightarrow> u32 \<Rightarrow> bool" where
  "bmap_runs pr s V X ip bn \<longleftrightarrow> (\<exists>r t W Y as. bmap ip bn s = Ok r t \<and> fsview pr t W Y Map.empty \<and> tr_frame (set_addrs ip as s) t \<and>
     X \<subseteq> Y \<and> card Y \<le> card X + 5 \<and> bmap_post (sb s) V (i_addrs (itable s ! ip)) (unat bn) r W as)"

lemma bmap_runsI:
  assumes "bmap ip bn s = Ok r t" "fsview pr t W Y Map.empty" "tr_frame (set_addrs ip as s) t" "X \<subseteq> Y" "card Y \<le> card X + 5"
    "bmap_post (sb s) V (i_addrs (itable s ! ip)) (unat bn) r W as"
  shows "bmap_runs pr s V X ip bn"
  using assms unfolding bmap_runs_def by blast

lemma bmap_direct_runs:
  fixes s :: "'z fs_st_scheme"
  assumes ready: "bmap_ready pr s V X ip" and bn: "unat bn < NDIRECT"
  shows "bmap_runs pr s V X ip bn"
proof -
  let ?as = "i_addrs (itable s ! ip)"
  have r: "alloc_ready pr s V X Map.empty" "bitmap_ok (sb s) V" "i_dev (itable s ! ip) = log_dev (log s)" "indirect_ok (sb s) V ?as"
    using ready by (auto simp: bmap_ready_def)
  have m: "bmap ip bn s = bmap_slot ip (unat bn) s" using bn by (simp add: bmap_def)
  have ba: "baddr V ?as (unat bn) = ?as ! unat bn" using bn by (simp add: baddr_def)
  note v = alloc_readyD(1)[OF r(1)]
  show ?thesis
  proof (cases "?as ! unat bn = 0")
    case False
    then show ?thesis using bmap_slot_mapped[of s ip "unat bn"] m v bmap_post_same[OF r(2,4) ba]
      by (intro bmap_runsI[of ip bn s _ s pr V X ?as]) auto
  next
    case True
    from bmap_slot_alloc[OF r(1,2) True r(3)] show ?thesis
    proof (elim disjE exE conjE)
      fix t assume "bmap_slot ip (unat bn) s = Ok 0 t" "\<forall>b < sb_size (sb s). used (sb s) V b" "fsview pr t V X Map.empty" "tr_frame s t"
      then show ?thesis using m bmap_post_same[OF r(2,4) ba] True by (intro bmap_runsI[of ip bn s 0 t pr V X ?as]) auto
    next
      fix b t assume a: "bmap_slot ip (unat bn) s = Ok b t" "b < sb_size (sb s)" "\<not> used (sb s) V b"
        "fsview pr t (alloc_block (sb s) b V) (insert b (insert (BBLOCK b (sb s)) X)) Map.empty" "tr_frame (set_addr ip (unat bn) b s) t"
      show ?thesis using a m bmap_post_direct[OF r(2) a(2,3) r(4) bn True] room_two[OF fsviewD(1)[OF v], of b "BBLOCK b (sb s)"]
        by (intro bmap_runsI[OF _ a(4), of ip bn s b "?as[unat bn := b]"]) (auto simp: set_addr_addrs)
    qed
  qed
qed

lemma bmap_indirect_runs:
  fixes s :: "'z fs_st_scheme"
  assumes r: "alloc_ready pr s V X Map.empty" "card X + 3 \<le> LOGSIZE - 1" "bitmap_ok (sb s) V" "indirect_ok (sb s) V (i_addrs (itable s ! ip))"
    and bn: "unat bn = NDIRECT + k" "k < NINDIRECT" and a: "i_addrs (itable s ! ip) ! NDIRECT \<noteq> 0" and dev: "i_dev (itable s ! ip) = log_dev (log s)"
  shows "\<exists>b t W Y. bmap ip bn s = Ok b t \<and> fsview pr t W Y Map.empty \<and> tr_frame s t \<and> X \<subseteq> Y \<and> card Y \<le> card X + 3 \<and>
    bmap_post (sb s) V (i_addrs (itable s ! ip)) (unat bn) b W (i_addrs (itable s ! ip))"
proof -
  let ?as = "i_addrs (itable s ! ip)" and ?x = "sb s" let ?a = "?as ! NDIRECT"
  note v = alloc_readyD(1)[OF r(1)]
  have ba: "baddr V ?as (unat bn) = rd32 (V ?a) (4 * k)" using bn a by (simp add: baddr_def)
  show ?thesis
  proof (cases "rd32 (V ?a) (4 * k) = 0")
    case False
    have "card X + card (dom Map.empty) < NBUF" "?a \<notin> dom Map.empty" using r(2) by simp_all
    from bmap_indirect_mapped[OF v this bn refl a dev False] obtain t
      where t: "bmap ip bn s = Ok (rd32 (V ?a) (4 * k)) t" "fsview pr t V X Map.empty" "tr_frame s t" by blast
    have "bmap_post ?x V ?as (unat bn) (rd32 (V ?a) (4 * k)) V ?as" using bmap_post_same[OF r(3,4) ba] False by blast
    with t show ?thesis by (metis le_add1 order_refl)
  next
    case True
    from bmap_indirect_alloc[OF r(1-4) bn refl a dev True] show ?thesis
    proof (elim disjE exE conjE)
      fix t assume t: "bmap ip bn s = Ok 0 t" "\<forall>b < sb_size ?x. used ?x V b" "fsview pr t V X Map.empty" "tr_frame s t"
      have "bmap_post ?x V ?as (unat bn) 0 V ?as" using bmap_post_same[OF r(3,4) ba] True t(2) by simp
      with t show ?thesis by (metis le_add1 order_refl)
    next
      fix b t let ?W = "(alloc_block ?x b V)(?a := wr32 (V ?a) (4 * k) b)" and ?Y = "insert ?a (insert b (insert (BBLOCK b ?x) X))"
      assume t: "bmap ip bn s = Ok b t" "b < sb_size ?x" "\<not> used ?x V b" "fsview pr t ?W ?Y Map.empty" "tr_frame s t"
      have "card ?Y \<le> card X + 3" using fsviewD(1)[OF v] by (simp add: card_insert_if)
      moreover have "bmap_post ?x V ?as (unat bn) b ?W ?as" using bmap_post_indirect[OF r(3) t(2,3) r(4) a bn(2) True] bn(1) by simp
      moreover have "X \<subseteq> ?Y" by blast
      ultimately show ?thesis using t(1,4,5) by metis
    qed
  qed
qed

lemma bmap_through:
  assumes "bmap_slot ip NDIRECT s = Ok a t" "a \<noteq> 0" "i_addrs (itable t ! ip) ! NDIRECT = a" "NDIRECT \<le> unat bn" "unat bn < MAXFILE"
  shows "bmap ip bn s = bmap ip bn t"
  using assms bmap_slot_mapped[of t ip NDIRECT] by (simp add: bmap_def Let_def bindk_eq panick_simp)

lemma bmap_new_runs:
  fixes s :: "'z fs_st_scheme"
  assumes ready: "bmap_ready pr s V X ip" and bn: "unat bn = NDIRECT + k" "k < NINDIRECT" and a0: "i_addrs (itable s ! ip) ! NDIRECT = 0"
  shows "bmap_runs pr s V X ip bn"
proof -
  let ?as = "i_addrs (itable s ! ip)" and ?x = "sb s"
  have r: "alloc_ready pr s V X Map.empty" "bitmap_ok ?x V" "i_dev (itable s ! ip) = log_dev (log s)" "indirect_ok ?x V ?as" "ip < length (itable s)" "card X + 5 \<le> LOGSIZE - 1"
    using ready by (auto simp: bmap_ready_def)
  have ba: "baddr V ?as (unat bn) = 0" using bn a0 by (simp add: baddr_def)
  from bmap_slot_alloc[OF r(1,2) a0 r(3)] show ?thesis
  proof (elim disjE exE conjE)
    fix t assume t: "bmap_slot ip NDIRECT s = Ok 0 t" "\<forall>b < sb_size ?x. used ?x V b" "fsview pr t V X Map.empty" "tr_frame s t"
    have "bmap ip bn s = Ok 0 t" using t(1) bn by (simp add: bmap_def Let_def kop_simps)
    then show ?thesis using t bmap_post_same[OF r(2,4) ba] by (intro bmap_runsI[of ip bn s 0 t pr V X ?as]) auto
  next
    fix a t let ?V = "alloc_block ?x a V" and ?X = "insert a (insert (BBLOCK a ?x) X)" and ?s = "set_addr ip NDIRECT a s"
    assume t: "bmap_slot ip NDIRECT s = Ok a t" "a \<noteq> 0" "a < sb_size ?x" "\<not> used ?x V a" "fsview pr t ?V ?X Map.empty" "tr_frame ?s t"
    have as: "i_addrs (itable t ! ip) = ?as[NDIRECT := a]" "i_dev (itable t ! ip) = log_dev (log s)" "sb t = ?x" "log_dev (log t) = log_dev (log s)" "in_trans t"
      using tr_frame_fs[OF t(6)] tr_frameD(1,2)[OF t(6)] r(3,5) alloc_readyD(2)[OF r(1)] by simp_all
    have n: "?as[NDIRECT := a] ! NDIRECT = a" using r(4) by (simp add: indirect_ok_def)
    have c: "card ?X \<le> card X + 2" by (rule room_two[OF fsviewD(1)[OF alloc_readyD(1)[OF r(1)]]])
    have "alloc_ready pr t ?V ?X Map.empty" using t(5) c r(6) alloc_readyD(5)[OF r(1)] as by (simp add: alloc_ready_def)
    moreover have "card ?X + 3 \<le> LOGSIZE - 1" using c r(6) by simp
    moreover have "indirect_ok (sb t) ?V (i_addrs (itable t ! ip))" unfolding as by (rule indirect_new(1)[OF r(2) t(3,4) r(4) a0])
    moreover have "bitmap_ok (sb t) ?V" unfolding as by (rule bitmap_ok_alloc[OF r(2) t(3,4)])
    ultimately obtain b u W Y where u: "bmap ip bn t = Ok b u" "fsview pr u W Y Map.empty" "tr_frame t u" "?X \<subseteq> Y" "card Y \<le> card ?X + 3"
      "bmap_post ?x ?V (?as[NDIRECT := a]) (unat bn) b W (?as[NDIRECT := a])"
      using bmap_indirect_runs[of pr t ?V ?X ip bn k] bn t(2) unfolding as n by blast
    have "bmap ip bn s = Ok b u" using bmap_through[OF t(1,2)] as(1) n u(1) bn by simp
    moreover have "bmap_post ?x V ?as (unat bn) b W (?as[NDIRECT := a])" using bmap_post_new[OF r(2) t(3,4) r(4) a0 u(6)] bn by simp
    ultimately show ?thesis using u(2,4,5) c tr_frame_trans[OF t(6) u(3)] unfolding set_addr_addrs by (intro bmap_runsI) auto
  qed
qed

text \<open>
  C3: \<open>bmap\<close> of a block of a file returns its disk block, for every block number below \<open>MAXFILE\<close>. If the file
  has the block, nothing changes. Otherwise a block that was not in use is allocated, zeroed and
  entered in the inode or in the indirect block, itself allocated if need be; the result is 0 only
  when the disk is full. The other blocks of the file keep their places, and no block in use is
  changed but the bitmap and the indirect block. Larger block numbers panic.
\<close>

theorem bmap_correct:
  fixes s :: "'z fs_st_scheme"
  assumes "bmap_ready pr s V X ip"
  shows "if unat bn < MAXFILE
    then \<exists>r t W Y as. bmap ip bn s = Ok r t \<and> fsview pr t W Y Map.empty \<and> tr_frame (set_addrs ip as s) t \<and> X \<subseteq> Y \<and>
      card Y \<le> card X + 5 \<and> bmap_post (sb s) V (i_addrs (itable s ! ip)) (unat bn) r W as
    else bmap ip bn s = Panic ''bmap: out of range''"
proof (cases "unat bn < MAXFILE")
  case True
  have "bmap_runs pr s V X ip bn"
  proof (cases "unat bn < NDIRECT")
    case False
    then have bn: "unat bn = NDIRECT + (unat bn - NDIRECT)" "unat bn - NDIRECT < NINDIRECT" using True by simp_all
    show ?thesis
    proof (cases "i_addrs (itable s ! ip) ! NDIRECT = 0")
      case i: False
      have r: "alloc_ready pr s V X Map.empty" "card X + 3 \<le> LOGSIZE - 1" "bitmap_ok (sb s) V" "indirect_ok (sb s) V (i_addrs (itable s ! ip))"
        "i_dev (itable s ! ip) = log_dev (log s)" using assms by (auto simp: bmap_ready_def)
      from bmap_indirect_runs[OF r(1-4) bn i r(5)] obtain b t W Y where t: "bmap ip bn s = Ok b t" "fsview pr t W Y Map.empty" "tr_frame s t"
        "X \<subseteq> Y" "card Y \<le> card X + 3" "bmap_post (sb s) V (i_addrs (itable s ! ip)) (unat bn) b W (i_addrs (itable s ! ip))" by blast
      then show ?thesis by (intro bmap_runsI[OF t(1,2) _ t(4) _ t(6)]) simp_all
    qed (rule bmap_new_runs[OF assms bn])
  qed (rule bmap_direct_runs[OF assms])
  then show ?thesis using True by (simp add: bmap_runs_def)
next
  case False
  then have "\<not> unat bn < NDIRECT" "\<not> unat bn - NDIRECT < NINDIRECT" by simp_all
  then show ?thesis using False by (simp add: bmap_def Let_def panick_simp)
qed

text \<open>A file without blocks on the small disk.\<close>

lemma fsview_itable [simp]:
  fixes s :: "'z fs_st_scheme"
  shows "fsview pr (s\<lparr>itable := x\<rparr>) V X H \<longleftrightarrow> fsview pr s V X H" "in_trans (s\<lparr>itable := x\<rparr>) \<longleftrightarrow> in_trans s"
  by (simp_all add: fsview_def cache_def disk_def calm_def cs_cpus_def lock_free_def cpu_defs in_trans_def)

lemma demo_file:
  "\<exists>s :: file_st. bmap_ready 0 s demo_disk {} 0 \<and> sb s = demo_sb \<and> itable s = [zero_inode\<lparr>i_dev := 1, i_addrs := replicate 13 0\<rparr>]"
proof -
  obtain s :: file_st where s: "alloc_ready 0 s demo_disk {} Map.empty" "sb s = demo_sb" "log_dev (log s) = 1" using demo_bitmap_trans by blast
  let ?s = "s\<lparr>itable := [zero_inode\<lparr>i_dev := 1, i_addrs := replicate 13 0\<rparr>]\<rparr>"
  have "alloc_ready 0 ?s demo_disk {} Map.empty" using s(1) by (simp add: alloc_ready_def)
  then have "bmap_ready 0 ?s demo_disk {} 0" using s(2,3) demo_bitmap by (simp add: bmap_ready_def indirect_ok_def)
  then show ?thesis using s(2) by (intro exI[of _ ?s]) simp
qed

theorem bmap_correct_witness:
  "\<exists>(s :: file_st) r t W Y as. bmap 0 20 s = Ok r t \<and> fsview 0 t W Y Map.empty \<and> card Y \<le> 5 \<and> baddr W as 20 = r \<and> baddr W as 21 = 0"
proof -
  obtain s :: file_st where s: "bmap_ready 0 s demo_disk {} 0" "itable s = [zero_inode\<lparr>i_dev := 1, i_addrs := replicate 13 0\<rparr>]"
    using demo_file by blast
  obtain r t W Y as where r: "bmap 0 20 s = Ok r t" "fsview 0 t W Y Map.empty" "card Y \<le> card ({} :: u32 set) + 5"
    "bmap_post (sb s) demo_disk (replicate 13 0) 20 r W as"
    using bmap_correct[OF s(1), of 20] s(2) by auto
  have "baddr demo_disk (replicate 13 0) 21 = 0" by (simp add: baddr_def)
  then have "baddr W as 20 = r" "baddr W as 21 = 0" using r(4) by (auto simp: bmap_post_def)
  moreover have "card Y \<le> 5" using r(3) by simp
  ultimately show ?thesis using r(1,2) by blast
qed

end
