(* ===== verification/Ulib.thy ===== *)
theory Ulib
  imports Printf CString
begin

text \<open>
  The C library of the user programs, user/ulib.c and user/printf.c, and how a user program talks
  to the kernel. A run of a program is a function of the answers it gets: \<open>env\<close> gives the answer to
  the last of the system calls made so far, and is arbitrary. A run can end in the outcome
  \<open>Sleeps\<close>: the process has exited, or has become another program.
\<close>

section \<open>System calls\<close>

datatype scall =
    SFork | SExit int | SWait | SPipe | SRead int nat | SKill int | SExec ctext "ctext list" | SFstat int
  | SChdir ctext | SDup int | SGetpid | SSbrk int | SSleep int | SUptime | SOpen ctext int
  | SWrite int ctext | SMknod ctext int int | SUnlink ctext | SLink ctext ctext | SMkdir ctext | SClose int
  | STrace int | SSysinfo

text \<open>The value a call returns, the bytes \<open>read\<close> delivers, and the integers \<open>pipe\<close>, \<open>fstat\<close> and \<open>sysinfo\<close> deliver.\<close>

record reply =
  rv :: int
  rbytes :: ctext
  rints :: "int list"

record user_st =
  env :: "scall list \<Rightarrow> reply"
  calls :: "scall list"

datatype uend = Exited int | Became ctext "ctext list"

type_synonym 'a user = "(uend, 'a, user_st) kop"

definition sys :: "scall \<Rightarrow> reply user" where
  "sys c s = Ok (env s (calls s @ [c])) (s\<lparr>calls := calls s @ [c]\<rparr>)"

definition sysi :: "scall \<Rightarrow> int user" where
  "sysi c = bindk (sys c) (\<lambda>r. returnk (rv r))"

definition sys_do :: "scall \<Rightarrow> unit user" where
  "sys_do c = bindk (sys c) (\<lambda>_. returnk ())"

definition u_exit :: "int \<Rightarrow> 'a user" where
  "u_exit st s = Sleeps (Exited st) (s\<lparr>calls := calls s @ [SExit st]\<rparr>)"

text \<open>\<open>exec\<close> returns only when it fails.\<close>

definition u_exec :: "ctext \<Rightarrow> ctext list \<Rightarrow> unit user" where
  "u_exec path argv s = (let h = calls s @ [SExec path argv] in
     if rv (env s h) < 0 then Ok () (s\<lparr>calls := h\<rparr>) else Sleeps (Became path argv) (s\<lparr>calls := h\<rparr>))"

text \<open>The bytes a run has written to a descriptor.\<close>

fun written :: "int \<Rightarrow> scall list \<Rightarrow> ctext" where
  "written fd [] = []"
| "written fd (SWrite d bs # cs) = (if d = fd then bs @ written fd cs else written fd cs)"
| "written fd (_ # cs) = written fd cs"

lemma written_append [simp]: "written fd (xs @ ys) = written fd xs @ written fd ys"
  by (induction fd xs rule: written.induct) auto

section \<open>user/printf.c\<close>

definition putc :: "int \<Rightarrow> u8 \<Rightarrow> unit user" where
  "putc fd c = sys_do (SWrite fd [c])"

text \<open>\<open>vprintf\<close> writes its text byte by byte. A format that does not fit its arguments is undefined.\<close>

definition fprintf :: "int \<Rightarrow> ctext \<Rightarrow> arg list \<Rightarrow> unit user" where
  "fprintf fd fmt ap = (case vprintf_text False fmt ap of
     None \<Rightarrow> panick ''undefined'' | Some t \<Rightarrow> foreachk t (putc fd))"

definition u_printf :: "ctext \<Rightarrow> arg list \<Rightarrow> unit user" where
  "u_printf fmt ap = fprintf 1 fmt ap"

lemma putc_run: "\<exists>h. putc fd c s = Ok () (s\<lparr>calls := calls s @ h\<rparr>) \<and> written fd h = [c]"
  by (intro exI[of _ "[SWrite fd [c]]"]) (simp add: putc_def sys_do_def sys_def kop_simps)

lemma puts_run: "\<exists>h. foreachk t (putc fd) s = Ok () (s\<lparr>calls := calls s @ h\<rparr>) \<and> written fd h = t"
proof (induction t arbitrary: s)
  case Nil
  then show ?case by (intro exI[of _ "[]"]) (simp add: kop_simps)
next
  case (Cons c t)
  obtain h where h: "putc fd c s = Ok () (s\<lparr>calls := calls s @ h\<rparr>)" "written fd h = [c]" using putc_run by blast
  obtain h' where "foreachk t (putc fd) (s\<lparr>calls := calls s @ h\<rparr>) = Ok () (s\<lparr>calls := calls s @ h @ h'\<rparr>)" "written fd h' = t"
    using Cons[of "s\<lparr>calls := calls s @ h\<rparr>"] by auto
  with h show ?case by (intro exI[of _ "h @ h'"]) (simp add: kop_simps)
qed

text \<open>ASCII text of the messages.\<close>

definition txt_bytes :: "string \<Rightarrow> ctext" where
  "txt_bytes t = map of_char t"

section \<open>user/ulib.c\<close>

definition u_start :: "unit user \<Rightarrow> unit user" where
  "u_start main = bindk main (\<lambda>_. u_exit 0)"

partial_function (option) ustrcpy_loop :: "memory \<Rightarrow> u64 \<Rightarrow> u64 \<Rightarrow> memory option" where
  "ustrcpy_loop m s t = (let m' = m(s := m t) in if m t = 0 then Some m' else ustrcpy_loop m' (s + 1) (t + 1))"

definition ustrcpy :: "memory \<Rightarrow> u64 \<Rightarrow> u64 \<Rightarrow> (memory \<times> u64) option" where
  "ustrcpy m s t = map_option (\<lambda>m'. (m', s)) (ustrcpy_loop m s t)"

partial_function (option) ustrcmp :: "memory \<Rightarrow> u64 \<Rightarrow> u64 \<Rightarrow> int option" where
  "ustrcmp m p q =
     (if m p \<noteq> 0 \<and> m p = m q then ustrcmp m (p + 1) (q + 1) else Some (int (unat (m p)) - int (unat (m q))))"

partial_function (option) ustrlen_loop :: "memory \<Rightarrow> u64 \<Rightarrow> nat \<Rightarrow> nat option" where
  "ustrlen_loop m s n = (if m (s + of_nat n) = 0 then Some n else ustrlen_loop m s (n + 1))"

definition ustrlen :: "memory \<Rightarrow> u64 \<Rightarrow> u32 option" where
  "ustrlen m s = map_option of_nat (ustrlen_loop m s 0)"

primrec umemset_loop :: "memory \<Rightarrow> u64 \<Rightarrow> u8 \<Rightarrow> nat \<Rightarrow> memory" where
  "umemset_loop m dst c 0 = m"
| "umemset_loop m dst c (Suc n) = (umemset_loop m dst c n)(dst + of_nat n := c)"

definition umemset :: "memory \<Rightarrow> u64 \<Rightarrow> u32 \<Rightarrow> u32 \<Rightarrow> memory \<times> u64" where
  "umemset m dst c n = (umemset_loop m dst (ucast c) (unat n), dst)"

partial_function (option) ustrchr :: "memory \<Rightarrow> u64 \<Rightarrow> u8 \<Rightarrow> u64 option" where
  "ustrchr m s c = (if m s = 0 then Some 0 else if m s = c then Some s else ustrchr m (s + 1) c)"

partial_function (option) uatoi_loop :: "memory \<Rightarrow> u64 \<Rightarrow> u32 \<Rightarrow> u32 option" where
  "uatoi_loop m s n =
     (if 48 \<le> m s \<and> m s \<le> 57 then uatoi_loop m (s + 1) (n * 10 + ucast (m s) - 48) else Some n)"

definition uatoi :: "memory \<Rightarrow> u64 \<Rightarrow> u32 option" where
  "uatoi m s = uatoi_loop m s 0"

text \<open>The two loops of \<open>memmove\<close>, upwards and downwards.\<close>

primrec umove_up :: "memory \<Rightarrow> u64 \<Rightarrow> u64 \<Rightarrow> nat \<Rightarrow> memory" where
  "umove_up m dst src 0 = m"
| "umove_up m dst src (Suc n) = umove_up (m(dst := m src)) (dst + 1) (src + 1) n"

primrec umove_down :: "memory \<Rightarrow> u64 \<Rightarrow> u64 \<Rightarrow> nat \<Rightarrow> memory" where
  "umove_down m dst src 0 = m"
| "umove_down m dst src (Suc n) = umove_down (m(dst + of_nat n := m (src + of_nat n))) dst src n"

definition umemmove :: "memory \<Rightarrow> u64 \<Rightarrow> u64 \<Rightarrow> int \<Rightarrow> memory \<times> u64" where
  "umemmove m dst src n = ((if src > dst then umove_up m dst src (nat n) else umove_down m dst src (nat n)), dst)"

primrec umemcmp_loop :: "memory \<Rightarrow> u64 \<Rightarrow> u64 \<Rightarrow> nat \<Rightarrow> int" where
  "umemcmp_loop m p q 0 = 0"
| "umemcmp_loop m p q (Suc n) =
     (if m p \<noteq> m q then int (unat (m p)) - int (unat (m q)) else umemcmp_loop m (p + 1) (q + 1) n)"

definition umemcmp :: "memory \<Rightarrow> u64 \<Rightarrow> u64 \<Rightarrow> u32 \<Rightarrow> int" where
  "umemcmp m p q n = umemcmp_loop m p q (unat n)"

definition umemcpy :: "memory \<Rightarrow> u64 \<Rightarrow> u64 \<Rightarrow> u32 \<Rightarrow> memory \<times> u64" where
  "umemcpy m dst src n = umemmove m dst src (sint n)"

text \<open>\<open>gets\<close>: the bytes it leaves in the buffer before the terminating NUL.\<close>

definition gets_body :: "int \<Rightarrow> ctext \<Rightarrow> (ctext + ctext) user" where
  "gets_body maxn buf =
     (if int (length buf) + 1 < maxn then
        bindk (sys (SRead 0 1)) (\<lambda>r.
        if rv r < 1 then returnk (Inr buf) else
        let c = hd (rbytes r); buf = buf @ [c] in
        if c = 10 \<or> c = 13 then returnk (Inr buf) else returnk (Inl buf))
      else returnk (Inr buf))"

definition u_gets :: "int \<Rightarrow> ctext user" where
  "u_gets maxn = loopk (gets_body maxn) []"

text \<open>\<open>stat\<close>: the value returned, and the fields \<open>dev, ino, type, nlink, size\<close>.\<close>

definition u_stat :: "ctext \<Rightarrow> (int \<times> int list) user" where
  "u_stat n =
     bindk (sysi (SOpen n 0)) (\<lambda>fd.
     if fd < 0 then returnk (-1, []) else
     bindk (sys (SFstat fd)) (\<lambda>r.
     bindk (sys_do (SClose fd)) (\<lambda>_.
     returnk (rv r, rints r))))"

section \<open>Reading a file to its end\<close>

text \<open>\<open>while((n = read(fd, buf, room)) > 0) ...\<close>: the value of the loop variables and the last \<open>n\<close>.\<close>

definition read_loop :: "int \<Rightarrow> ('v \<Rightarrow> nat) \<Rightarrow> ('v \<Rightarrow> ctext \<Rightarrow> 'v user) \<Rightarrow> 'v \<Rightarrow> ('v \<times> int) user" where
  "read_loop fd room f = loopk (\<lambda>v.
     bindk (sys (SRead fd (room v))) (\<lambda>r.
     if rv r > 0 then bindk (f v (rbytes r)) (\<lambda>v'. returnk (Inl v'))
     else returnk (Inr (v, rv r))))"

text \<open>The bytes the calls \<open>cs\<close>, made after \<open>h\<close>, have read from a descriptor.\<close>

primrec delivered :: "(scall list \<Rightarrow> reply) \<Rightarrow> int \<Rightarrow> scall list \<Rightarrow> scall list \<Rightarrow> ctext" where
  "delivered e fd h [] = []"
| "delivered e fd h (c # cs) =
     (case c of SRead d n \<Rightarrow> if d = fd then rbytes (e (h @ [c])) else [] | _ \<Rightarrow> []) @ delivered e fd (h @ [c]) cs"

fun is_write :: "scall \<Rightarrow> bool" where
  "is_write (SWrite fd bs) = True"
| "is_write _ = False"

fun is_io :: "int \<Rightarrow> scall \<Rightarrow> bool" where
  "is_io fd (SRead d n) = (d = fd)"
| "is_io fd c = is_write c"

text \<open>
  The contract of \<open>read\<close> on an open file with the bytes \<open>data\<close> left to read: each call delivers some of
  the next bytes, at most as many as it was asked for, and none only at the end of the file.
\<close>

definition serves :: "(scall list \<Rightarrow> reply) \<Rightarrow> scall list \<Rightarrow> int \<Rightarrow> ctext \<Rightarrow> bool" where
  "serves e h fd data \<longleftrightarrow> (\<forall>cs n. list_all (is_io fd) cs \<longrightarrow>
     (let r = e (h @ cs @ [SRead fd n]); past = delivered e fd h cs in
      rv r = int (length (rbytes r)) \<and> length (rbytes r) \<le> n \<and>
      (\<exists>rest. data = past @ rbytes r @ rest \<and> (rbytes r = [] \<longrightarrow> n = 0 \<or> rest = []))))"

lemma delivered_append: "delivered e fd h (xs @ ys) = delivered e fd h xs @ delivered e fd (h @ xs) ys"
  by (induction xs arbitrary: h) auto

lemma delivered_writes: "list_all is_write cs \<Longrightarrow> delivered e fd h cs = []"
  by (induction cs arbitrary: h) (auto split: scall.splits)

lemma is_io_write: "is_write c \<Longrightarrow> is_io fd c"
  by (cases c) auto

lemma servesD:
  assumes "serves e h fd data" "list_all (is_io fd) cs"
  obtains rest where "rv (e (h @ cs @ [SRead fd n])) = int (length (rbytes (e (h @ cs @ [SRead fd n]))))"
    "length (rbytes (e (h @ cs @ [SRead fd n]))) \<le> n"
    "data = delivered e fd h cs @ rbytes (e (h @ cs @ [SRead fd n])) @ rest"
    "rbytes (e (h @ cs @ [SRead fd n])) = [] \<Longrightarrow> n = 0 \<or> rest = []"
  using assms by (auto simp: serves_def Let_def)

text \<open>A loop that reads a file to its end: \<open>I past v out\<close> is an invariant of what was read and written.\<close>

lemma read_loop_rule:
  fixes f :: "'v \<Rightarrow> ctext \<Rightarrow> 'v user"
  assumes srv: "serves (env s) (calls s) fd data" and init: "I [] v []"
    and step: "\<And>past v out chunk rest t. I past v out \<Longrightarrow> data = past @ chunk @ rest \<Longrightarrow> chunk \<noteq> [] \<Longrightarrow>
      length chunk \<le> room v \<Longrightarrow> env t = env s \<Longrightarrow>
      \<exists>v' w. f v chunk t = Ok v' (t\<lparr>calls := calls t @ w\<rparr>) \<and> list_all is_write w \<and> I (past @ chunk) v' (out @ written 1 w)"
    and room: "\<And>past v out rest. I past v out \<Longrightarrow> data = past @ rest \<Longrightarrow> rest \<noteq> [] \<Longrightarrow> 0 < room v"
  shows "\<exists>v' w. read_loop fd room f v s = Ok (v', 0) (s\<lparr>calls := calls s @ w\<rparr>) \<and> I data v' (written 1 w)"
proof -
  let ?body = "\<lambda>v. bindk (sys (SRead fd (room v))) (\<lambda>r.
     if rv r > 0 then bindk (f v (rbytes r)) (\<lambda>v'. returnk (Inl v')) else returnk (Inr (v, rv r)))"
  have "\<exists>v' w. loopk ?body v (s\<lparr>calls := calls s @ cs\<rparr>) = Ok (v', 0) (s\<lparr>calls := calls s @ w\<rparr>) \<and> I data v' (written 1 w)"
    if "list_all (is_io fd) cs" "I (delivered (env s) fd (calls s) cs) v (written 1 cs)" for cs v
    using that
  proof (induction "length data - length (delivered (env s) fd (calls s) cs)" arbitrary: cs v rule: less_induct)
    case less
    define r where "r = env s (calls s @ cs @ [SRead fd (room v)])"
    define t where "t = s\<lparr>calls := calls s @ cs @ [SRead fd (room v)]\<rparr>"
    let ?past = "delivered (env s) fd (calls s) cs"
    obtain rest where r: "rv r = int (length (rbytes r))" "length (rbytes r) \<le> room v" "data = ?past @ rbytes r @ rest"
      "rbytes r = [] \<Longrightarrow> room v = 0 \<or> rest = []"
      using servesD[OF srv less.prems(1), of "room v"] unfolding r_def by blast
    have rd: "sys (SRead fd (room v)) (s\<lparr>calls := calls s @ cs\<rparr>) = Ok r t" by (simp add: sys_def r_def t_def)
    show ?case
    proof (cases "rbytes r = []")
      case True
      then have "rest = []" using room[OF less.prems(2), of rest] r(3,4) by force
      then have "I data v (written 1 cs)" "rv r = 0" using r less.prems(2) True by auto
      moreover have "loopk ?body v (s\<lparr>calls := calls s @ cs\<rparr>) = Ok (v, 0) t"
        using \<open>rv r = 0\<close> by (intro loopk_steps(2)) (simp add: bindk_eq(1)[where m = "sys (SRead fd (room v))", OF rd] kop_simps)
      ultimately show ?thesis by (auto simp: t_def)
    next
      case False
      obtain v' w where f: "f v (rbytes r) t = Ok v' (t\<lparr>calls := calls t @ w\<rparr>)" "list_all is_write w"
        "I (?past @ rbytes r) v' (written 1 cs @ written 1 w)"
        using step[OF less.prems(2) r(3) False r(2), of t] by (auto simp: t_def)
      let ?cs = "cs @ SRead fd (room v) # w"
      have past: "delivered (env s) fd (calls s) ?cs = ?past @ rbytes r"
        using f(2) by (simp add: delivered_append delivered_writes r_def)
      have "?body v (s\<lparr>calls := calls s @ cs\<rparr>) = Ok (Inl v') (s\<lparr>calls := calls s @ ?cs\<rparr>)"
        using r(1) False f(1) by (simp add: bindk_eq(1)[where m = "sys (SRead fd (room v))", OF rd] kop_simps) (simp add: t_def)
      then have "loopk ?body v (s\<lparr>calls := calls s @ cs\<rparr>) = loopk ?body v' (s\<lparr>calls := calls s @ ?cs\<rparr>)"
        by (rule loopk_steps(1))
      moreover have "list_all (is_io fd) ?cs"
        using less.prems(1) f(2) by (auto simp: list_all_iff is_io_write)
      ultimately show ?thesis
        using less.hyps[of ?cs v'] f(3) past r(3) False by (simp add: less_diff_conv2)
    qed
  qed
  from this[of "[]" v] init show ?thesis by (simp add: read_loop_def)
qed

section \<open>Programs that end\<close>

text \<open>A program part that ends the process, and one that returns or ends it, whatever the system calls answer.\<close>

definition ends :: "'a user \<Rightarrow> bool" where
  "ends m \<longleftrightarrow> (\<forall>s. \<exists>e s'. m s = Sleeps e s')"

definition steady :: "'a user \<Rightarrow> bool" where
  "steady m \<longleftrightarrow> (\<forall>s. (\<exists>x s'. m s = Ok x s') \<or> (\<exists>e s'. m s = Sleeps e s'))"

lemma ends_exit: "ends (u_exit n)"
  by (simp add: ends_def u_exit_def)

lemma ends_first:
  assumes "ends m"
  shows "ends (bindk m f)"
  unfolding ends_def
proof
  fix s
  obtain e s' where "m s = Sleeps e s'" using assms unfolding ends_def by blast
  then show "\<exists>e s'. bindk m f s = Sleeps e s'" by (simp add: bindk_def)
qed

lemma steady_cases:
  assumes "steady m"
  obtains x s' where "m s = Ok x s'" | e s' where "m s = Sleeps e s'"
  using assms unfolding steady_def by blast

lemma ends_after:
  assumes "steady m" "\<And>x. ends (f x)"
  shows "ends (bindk m f)"
  unfolding ends_def
proof
  fix s
  from assms(1) show "\<exists>e s'. bindk m f s = Sleeps e s'"
    by (cases rule: steady_cases[where s = s]) (use assms(2) in \<open>simp_all add: bindk_def ends_def\<close>)
qed

lemma steady_bind:
  assumes "steady m" "\<And>x. steady (f x)"
  shows "steady (bindk m f)"
  unfolding steady_def
proof
  fix s
  from assms(1) show "(\<exists>x s'. bindk m f s = Ok x s') \<or> (\<exists>e s'. bindk m f s = Sleeps e s')"
    by (cases rule: steady_cases[where s = s]) (use assms(2) in \<open>simp_all add: bindk_def steady_def\<close>)
qed

lemma steady_ends: "ends m \<Longrightarrow> steady m"
  by (simp add: ends_def steady_def)

lemma steady_return: "steady (returnk x)"
  by (simp add: steady_def returnk_def)

lemma steady_sys: "steady (sys c)" "steady (sysi c)" "steady (sys_do c)" "steady (u_exec p as)"
  by (auto simp: steady_def sys_def sysi_def sys_do_def u_exec_def bindk_def returnk_def Let_def)

lemma steady_when: "(b \<Longrightarrow> steady m) \<Longrightarrow> steady (whenk b m)"
  by (simp add: steady_def whenk_def returnk_def)

lemma steady_fprintf: "\<exists>t. vprintf_text False fmt ap = Some t \<Longrightarrow> steady (fprintf fd fmt ap)"
proof -
  assume "\<exists>t. vprintf_text False fmt ap = Some t"
  then obtain t where "vprintf_text False fmt ap = Some t" by blast
  moreover have "\<exists>s'. foreachk t (putc fd) s = Ok () s'" for s using puts_run[of t fd s] by blast
  ultimately show ?thesis by (simp add: steady_def fprintf_def)
qed

text \<open>An environment that keeps the contract: a file read in the pieces the program asks for.\<close>

fun asked :: "int \<Rightarrow> scall list \<Rightarrow> nat" where
  "asked fd [] = 0"
| "asked fd (SRead d n # cs) = (if d = fd then n + asked fd cs else asked fd cs)"
| "asked fd (_ # cs) = asked fd cs"

definition file_env :: "int \<Rightarrow> ctext \<Rightarrow> scall list \<Rightarrow> reply" where
  "file_env fd data h =
     (case last h of
        SRead d n \<Rightarrow> let bs = (if d = fd then take n (drop (asked fd (butlast h)) data) else []) in
          \<lparr>rv = int (length bs), rbytes = bs, rints = []\<rparr>
      | SWrite d bs \<Rightarrow> \<lparr>rv = int (length bs), rbytes = [], rints = []\<rparr>
      | _ \<Rightarrow> \<lparr>rv = 0, rbytes = [], rints = []\<rparr>)"

lemma asked_append [simp]: "asked fd (xs @ ys) = asked fd xs + asked fd ys"
  by (induction fd xs rule: asked.induct) auto

lemma file_env_delivered: "delivered (file_env fd data) fd [] cs = take (asked fd cs) data"
proof (induction cs rule: rev_induct)
  case (snoc c cs)
  then show ?case by (auto simp: delivered_append file_env_def Let_def take_add split: scall.splits)
qed simp

lemma file_env_serves: "serves (file_env fd data) [] fd data"
  unfolding serves_def
proof (intro allI impI)
  fix cs n
  have "data = take (asked fd cs) data @ take n (drop (asked fd cs) data) @ drop n (drop (asked fd cs) data)"
    unfolding append_take_drop_id ..
  then show "let r = file_env fd data ([] @ cs @ [SRead fd n]); past = delivered (file_env fd data) fd [] cs in
      rv r = int (length (rbytes r)) \<and> length (rbytes r) \<le> n \<and>
      (\<exists>rest. data = past @ rbytes r @ rest \<and> (rbytes r = [] \<longrightarrow> n = 0 \<or> rest = []))"
    by (auto simp: file_env_delivered file_env_def Let_def intro!: exI[of _ "drop n (drop (asked fd cs) data)"])
qed

end
