(* ===== verification/Grep.thy ===== *)
theory Grep
  imports Ulib "HOL-Library.Sublist"
begin

text \<open>
  user/grep.c: the regular-expression matcher and the loop over the lines of a file. A C string is the
  list of its bytes before the NUL; the buffer of \<open>grep\<close> is the list of its first \<open>m\<close> bytes, which may
  contain a NUL. The matcher is proved to decide the language of the pattern, and the loop to write
  the matching lines of the file, whatever the sizes of the pieces \<open>read\<close> delivers.
\<close>

section \<open>The matcher\<close>

text \<open>The byte at the head of a C string, the NUL at its end.\<close>

definition ch0 :: "ctext \<Rightarrow> u8" where
  "ch0 t = (case t of [] \<Rightarrow> 0 | c # _ \<Rightarrow> c)"

function matchhere :: "ctext \<Rightarrow> ctext \<Rightarrow> bool" and matchstar :: "u8 \<Rightarrow> ctext \<Rightarrow> ctext \<Rightarrow> bool" where
  "matchhere re tx =
     (if re = [] then True
      else if ch0 (tl re) = 42 then matchstar (hd re) (tl (tl re)) tx
      else if hd re = 36 \<and> tl re = [] then tx = []
      else if tx \<noteq> [] \<and> (hd re = 46 \<or> hd re = hd tx) then matchhere (tl re) (tl tx)
      else False)"
| "matchstar c re tx =
     (if matchhere re tx then True
      else if tx \<noteq> [] \<and> (hd tx = c \<or> c = 46) then matchstar c re (tl tx)
      else False)"
  by pat_completeness auto
termination
proof (relation "measures [\<lambda>x. case x of Inl (re, _) \<Rightarrow> 2 * length re | Inr (_, re, _) \<Rightarrow> 2 * length re + 1,
    \<lambda>x. case x of Inl (_, tx) \<Rightarrow> length tx | Inr (_, _, tx) \<Rightarrow> length tx]", goal_cases)
  case (2 re tx)
  then show ?case by (cases re; cases "tl re") (auto simp: ch0_def)
qed auto

declare matchhere.simps [simp del] matchstar.simps [simp del]

fun match_anywhere :: "ctext \<Rightarrow> ctext \<Rightarrow> bool" where
  "match_anywhere re [] = matchhere re []"
| "match_anywhere re (c # tx) = (if matchhere re (c # tx) then True else match_anywhere re tx)"

definition match :: "ctext \<Rightarrow> ctext \<Rightarrow> bool" where
  "match re tx = (if ch0 re = 94 then matchhere (tl re) tx else match_anywhere re tx)"

section \<open>The language of a pattern\<close>

text \<open>A pattern is a sequence of items, and possibly the end of the line.\<close>

datatype item = Lit u8 | Rep u8

fun items :: "ctext \<Rightarrow> item list \<times> bool" where
  "items [] = ([], False)"
| "items [c] = (if c = 36 then ([], True) else ([Lit c], False))"
| "items (c # d # re) =
     (if d = 42 then apfst ((#) (Rep c)) (items re) else apfst ((#) (Lit c)) (items (d # re)))"

definition byte_ok :: "u8 \<Rightarrow> u8 \<Rightarrow> bool" where
  "byte_ok c x \<longleftrightarrow> c = 46 \<or> x = c"

inductive in_lang :: "item list \<Rightarrow> ctext \<Rightarrow> bool" where
  nil: "in_lang [] []"
| lit: "byte_ok c x \<Longrightarrow> in_lang ps w \<Longrightarrow> in_lang (Lit c # ps) (x # w)"
| rep: "list_all (byte_ok c) u \<Longrightarrow> in_lang ps w \<Longrightarrow> in_lang (Rep c # ps) (u @ w)"

inductive_simps in_lang_simps: "in_lang [] w" "in_lang (Lit c # ps) w" "in_lang (Rep c # ps) w"

text \<open>A text begins with a word of the language.\<close>

definition begins :: "item list \<times> bool \<Rightarrow> ctext \<Rightarrow> bool" where
  "begins p tx \<longleftrightarrow> (\<exists>w rest. tx = w @ rest \<and> in_lang (fst p) w \<and> (snd p \<longrightarrow> rest = []))"

lemma begins_nil: "begins ([], False) tx" "begins ([], True) tx \<longleftrightarrow> tx = []"
  by (auto simp: begins_def in_lang_simps)

lemma begins_lit: "begins (Lit c # ps, e) tx \<longleftrightarrow> tx \<noteq> [] \<and> byte_ok c (hd tx) \<and> begins (ps, e) (tl tx)"
proof (cases tx)
  case Nil
  then show ?thesis by (simp add: begins_def in_lang_simps)
next
  case (Cons x xs)
  have "begins (Lit c # ps, e) (x # xs) \<longleftrightarrow> byte_ok c x \<and> begins (ps, e) xs" (is "?l \<longleftrightarrow> ?r")
  proof
    assume ?l
    then obtain v rest where v: "x # xs = v @ rest" "in_lang (Lit c # ps) v" "e \<longrightarrow> rest = []"
      unfolding begins_def fst_conv snd_conv by blast
    then obtain w where "v = x # w" "byte_ok c x" "in_lang ps w" unfolding in_lang_simps by force
    with v show ?r by (auto simp: begins_def)
  next
    assume ?r
    then obtain w rest where "x # xs = (x # w) @ rest" "in_lang (Lit c # ps) (x # w)" "e \<longrightarrow> rest = []"
      by (auto simp: begins_def intro: in_lang.lit)
    then show ?l unfolding begins_def fst_conv snd_conv by blast
  qed
  with Cons show ?thesis by simp
qed

lemma begins_rep_iff:
  "begins (Rep c # ps, e) tx \<longleftrightarrow> (\<exists>u v. tx = u @ v \<and> list_all (byte_ok c) u \<and> begins (ps, e) v)"
proof
  assume "begins (Rep c # ps, e) tx"
  then obtain u w rest where "tx = (u @ w) @ rest" "list_all (byte_ok c) u" "in_lang ps w" "e \<longrightarrow> rest = []"
    unfolding begins_def in_lang_simps fst_conv snd_conv by blast
  then show "\<exists>u v. tx = u @ v \<and> list_all (byte_ok c) u \<and> begins (ps, e) v"
    by (intro exI[of _ u] exI[of _ "w @ rest"]) (auto simp: begins_def)
next
  assume "\<exists>u v. tx = u @ v \<and> list_all (byte_ok c) u \<and> begins (ps, e) v"
  then obtain u w rest where "tx = (u @ w) @ rest" "list_all (byte_ok c) u" "in_lang ps w" "e \<longrightarrow> rest = []"
    by (auto simp: begins_def)
  then show "begins (Rep c # ps, e) tx"
    unfolding begins_def fst_conv snd_conv by (intro exI[of _ "u @ w"] exI[of _ rest] conjI in_lang.rep)
qed

lemma begins_rep:
  "begins (Rep c # ps, e) tx \<longleftrightarrow>
     begins (ps, e) tx \<or> (tx \<noteq> [] \<and> byte_ok c (hd tx) \<and> begins (Rep c # ps, e) (tl tx))" (is "?l \<longleftrightarrow> ?r")
proof
  assume ?l
  then obtain u v where "tx = u @ v" "list_all (byte_ok c) u" "begins (ps, e) v" by (auto simp: begins_rep_iff)
  then show ?r by (cases u) (auto simp: begins_rep_iff)
next
  assume ?r
  then consider "begins (ps, e) tx" | u v where "tx = (hd tx # u) @ v" "list_all (byte_ok c) (hd tx # u)" "begins (ps, e) v"
    by (cases tx) (auto simp: begins_rep_iff)
  then show ?l
    unfolding begins_rep_iff by cases (rule exI[of _ "[]"], simp, blast)
qed

lemma matcher_decides:
  "matchhere re tx \<longleftrightarrow> begins (items re) tx"
  "matchstar c re tx \<longleftrightarrow> begins (apfst ((#) (Rep c)) (items re)) tx"
proof (induction re tx and c re tx rule: matchhere_matchstar.induct)
  case (1 re tx)
  show ?case
  proof (cases re rule: items.cases)
    case 1
    then show ?thesis by (simp add: matchhere.simps begins_nil)
  next
    case (2 c)
    then show ?thesis
      by (auto simp: matchhere.simps[of "[_]"] matchhere.simps[of "[]"] ch0_def begins_nil begins_lit byte_ok_def)
  next
    case (3 c d re')
    then show ?thesis using 1
      by (cases "items (d # re')") (auto simp: matchhere.simps[of "_ # _ # _"] ch0_def begins_lit byte_ok_def)
  qed
next
  case (2 c re tx)
  then show ?case
    by (cases "items re") (auto simp: matchstar.simps[of c re tx] begins_rep[of c _ _ tx] byte_ok_def)
qed

lemma match_anywhere_iff: "match_anywhere re tx \<longleftrightarrow> (\<exists>a b. tx = a @ b \<and> matchhere re b)"
  by (induction re tx rule: match_anywhere.induct) (auto simp: append_eq_Cons_conv Cons_eq_append_conv)

section \<open>The loop over the lines\<close>

text \<open>\<open>strchr\<close> in the C string at the front of the buffer: the index of the byte, if it is there.\<close>

fun strchr_at :: "ctext \<Rightarrow> u8 \<Rightarrow> nat option" where
  "strchr_at [] c = None"
| "strchr_at (x # xs) c = (if x = 0 then None else if x = c then Some 0 else map_option Suc (strchr_at xs c))"

lemma strchr_at_bound: "strchr_at p c = Some q \<Longrightarrow> q < length p"
  by (induction p c arbitrary: q rule: strchr_at.induct) (auto split: if_splits)

text \<open>The lines in the buffer from \<open>p\<close> on; the result is the rest, which \<open>memmove\<close> takes to its start.\<close>

function grep_lines :: "ctext \<Rightarrow> ctext \<Rightarrow> ctext user" where
  "grep_lines pattern p =
     (case strchr_at p 10 of None \<Rightarrow> returnk p
      | Some q \<Rightarrow>
        bindk (whenk (match pattern (take q p)) (sys_do (SWrite 1 (take (q + 1) p)))) (\<lambda>_.
        grep_lines pattern (drop (q + 1) p)))"
  by pat_completeness auto
termination
  by (relation "measure (length \<circ> snd)") (auto dest: strchr_at_bound)

declare grep_lines.simps [simp del]

definition grep :: "ctext \<Rightarrow> int \<Rightarrow> unit user" where
  "grep pattern fd =
     bindk (read_loop fd (\<lambda>b. 1024 - length b - 1) (\<lambda>b chunk. grep_lines pattern (b @ chunk)) [])
       (\<lambda>_. returnk ())"

definition grep_file :: "ctext \<Rightarrow> ctext \<Rightarrow> unit user" where
  "grep_file pattern f =
     bindk (sysi (SOpen f 0)) (\<lambda>fd.
     if fd < 0 then
       bindk (u_printf (txt_bytes ''grep: cannot open %s'' @ [10]) [ArgStr (Some f)]) (\<lambda>_. u_exit 1)
     else
       bindk (grep pattern fd) (\<lambda>_.
       sys_do (SClose fd)))"

definition grep_main :: "ctext list \<Rightarrow> unit user" where
  "grep_main argv =
     (if length argv \<le> 1 then
        bindk (fprintf 2 (txt_bytes ''usage: grep pattern [file ...]'' @ [10]) []) (\<lambda>_. u_exit 1)
      else if length argv \<le> 2 then
        bindk (grep (argv ! 1) 0) (\<lambda>_. u_exit 0)
      else
        bindk (foreachk (drop 2 argv) (grep_file (argv ! 1))) (\<lambda>_. u_exit 0))"

text \<open>Text as a sequence of complete lines and a rest.\<close>

definition nl :: "ctext \<Rightarrow> ctext" where
  "nl l = l @ [10]"

definition unlines :: "ctext list \<Rightarrow> ctext" where
  "unlines ls = concat (map nl ls)"

definition one_line :: "ctext \<Rightarrow> bool" where
  "one_line l \<longleftrightarrow> 10 \<notin> set l"

lemma unlines_simps [simp]: "unlines [] = []" "unlines (l # ls) = l @ 10 # unlines ls" "unlines (as @ bs) = unlines as @ unlines bs"
  by (simp_all add: unlines_def nl_def)

lemma line_split:
  assumes "a @ 10 # x = b @ (10::u8) # y" "one_line a" "one_line b"
  shows "a = b \<and> x = y"
  using assms by (induction a arbitrary: b) (case_tac [!] b, auto simp: one_line_def)

lemma split_lines: "\<exists>ls b. t = unlines ls @ b \<and> list_all one_line ls \<and> one_line b"
proof (induction t rule: rev_induct)
  case Nil
  then show ?case by (intro exI[of _ "[]"]) (simp add: one_line_def)
next
  case (snoc c t)
  then obtain ls b where lb: "t = unlines ls @ b" "list_all one_line ls" "one_line b" by blast
  show ?case
  proof (cases "c = 10")
    case True
    with lb show ?thesis by (intro exI[of _ "ls @ [b]"] exI[of _ "[]"]) (simp add: list_all_iff one_line_def)
  next
    case False
    with lb show ?thesis by (intro exI[of _ ls] exI[of _ "b @ [c]"]) (simp add: list_all_iff one_line_def)
  qed
qed

text \<open>The complete lines of a prefix are the first lines of the text.\<close>

lemma unlines_prefix:
  assumes "unlines as @ x = unlines ls @ b" "list_all one_line as" "list_all one_line ls" "one_line b"
  shows "as = take (length as) ls \<and> x = unlines (drop (length as) ls) @ b"
  using assms
proof (induction as arbitrary: ls)
  case (Cons a as)
  show ?case
  proof (cases ls)
    case Nil
    then have "10 \<in> set b" using Cons.prems(1) by (metis append_Nil in_set_conv_decomp append_assoc append_Cons unlines_simps(1,2))
    with Cons.prems show ?thesis by (simp add: one_line_def)
  next
    case (Cons l ls')
    with Cons.prems line_split[of a "unlines as @ x" l "unlines ls' @ b"] Cons.IH[of ls'] show ?thesis by simp
  qed
qed simp

lemma strchr_at_line: "0 \<notin> set l \<Longrightarrow> one_line l \<Longrightarrow> strchr_at (l @ 10 # x) 10 = Some (length l)"
  by (induction l) (auto simp: one_line_def)

lemma strchr_at_none: "one_line b \<Longrightarrow> strchr_at b 10 = None"
  by (induction b) (auto simp: one_line_def)

lemma grep_lines_run:
  assumes "0 \<notin> set (unlines ls)" "list_all one_line ls" "one_line b"
  shows "\<exists>w. grep_lines pat (unlines ls @ b) t = Ok b (t\<lparr>calls := calls t @ w\<rparr>) \<and> list_all is_write w \<and>
    written 1 w = unlines (filter (match pat) ls)"
  using assms(1,2)
proof (induction ls arbitrary: t)
  case Nil
  then show ?case using assms(3) by (intro exI[of _ "[]"]) (simp add: grep_lines.simps[of pat b] strchr_at_none returnk_def)
next
  case (Cons l ls)
  define w1 where "w1 = (if match pat l then [SWrite 1 (l @ [10])] else [])"
  obtain w where w: "grep_lines pat (unlines ls @ b) (t\<lparr>calls := calls t @ w1\<rparr>) = Ok b (t\<lparr>calls := calls t @ w1 @ w\<rparr>)"
    "list_all is_write w" "written 1 w = unlines (filter (match pat) ls)"
    using Cons.IH[of "t\<lparr>calls := calls t @ w1\<rparr>"] Cons.prems by auto
  have "strchr_at (unlines (l # ls) @ b) 10 = Some (length l)" using Cons.prems by (simp add: strchr_at_line)
  then have "grep_lines pat (unlines (l # ls) @ b) t = grep_lines pat (unlines ls @ b) (t\<lparr>calls := calls t @ w1\<rparr>)"
    by (simp add: grep_lines.simps[of pat "l @ 10 # unlines ls @ b"] w1_def sys_do_def sys_def kop_simps whenk_def)
  with w show ?case by (intro exI[of _ "w1 @ w"]) (simp add: w1_def)
qed

text \<open>What is kept between two calls of \<open>read\<close>: the complete lines so far are done, the rest is in the buffer.\<close>

definition grep_inv :: "ctext \<Rightarrow> ctext \<Rightarrow> ctext \<Rightarrow> ctext \<Rightarrow> bool" where
  "grep_inv pat past b out \<longleftrightarrow> (\<exists>as. past = unlines as @ b \<and> list_all one_line as \<and> one_line b \<and>
     out = unlines (filter (match pat) as))"

lemma grep_step:
  assumes "grep_inv pat past b out" "0 \<notin> set (past @ chunk)"
  shows "\<exists>b' w. grep_lines pat (b @ chunk) t = Ok b' (t\<lparr>calls := calls t @ w\<rparr>) \<and> list_all is_write w \<and>
    grep_inv pat (past @ chunk) b' (out @ written 1 w)"
proof -
  obtain as where as: "past = unlines as @ b" "list_all one_line as" "out = unlines (filter (match pat) as)"
    using assms(1) by (auto simp: grep_inv_def)
  obtain ls b' where b': "b @ chunk = unlines ls @ b'" "list_all one_line ls" "one_line b'" using split_lines by blast
  have "set (unlines ls) \<subseteq> set (b @ chunk)" unfolding b'(1) by simp
  with assms(2) as(1) have "0 \<notin> set (unlines ls)" by auto
  from grep_lines_run[OF this b'(2,3), of pat t] obtain w where
    w: "grep_lines pat (b @ chunk) t = Ok b' (t\<lparr>calls := calls t @ w\<rparr>)" "list_all is_write w"
    "written 1 w = unlines (filter (match pat) ls)" unfolding b'(1) by blast
  then show ?thesis using as b' by (intro exI[of _ b'] exI[of _ w]) (auto simp: grep_inv_def intro!: exI[of _ "as @ ls"])
qed

text \<open>A line that fits leaves room in the buffer.\<close>

lemma grep_room:
  assumes "grep_inv pat past b out" "unlines ls @ rest = past @ ys" "ys \<noteq> []"
    and "list_all one_line ls" "one_line rest" "list_all (\<lambda>l. length l \<le> 1022) (rest # ls)"
  shows "length b \<le> 1022"
proof -
  obtain as where as: "past = unlines as @ b" "list_all one_line as" "one_line b" using assms(1) by (auto simp: grep_inv_def)
  have "unlines as @ (b @ ys) = unlines ls @ rest" using assms(2) as(1) by simp
  from unlines_prefix[OF this as(2) assms(4,5)] have b: "b @ ys = unlines (drop (length as) ls) @ rest" by blast
  show ?thesis
  proof (cases "drop (length as) ls")
    case Nil
    with b have "length (b @ ys) \<le> 1022" using assms(6) by simp
    then show ?thesis by simp
  next
    case (Cons l ls')
    then have "l \<in> set ls" by (metis in_set_dropD list.set_intros(1))
    then have l: "length l \<le> 1022" using assms(6) by (simp add: list_all_iff)
    have "\<not> length l < length b"
    proof
      assume "length l < length b"
      then have "b ! length l = (b @ ys) ! length l" by (simp add: nth_append)
      also have "\<dots> = 10" unfolding b Cons by simp
      finally have "10 \<in> set b" using \<open>length l < length b\<close> by (metis nth_mem)
      with as(3) show False by (simp add: one_line_def)
    qed
    with l show ?thesis by simp
  qed
qed

text \<open>
  C18: \<open>match\<close> decides the language of the pattern: with \<open>^\<close> the text begins with a word of the rest
  of the pattern, without it some suffix of the text does. A word is matched item by item, \<open>.\<close> is any
  byte, \<open>c*\<close> any number of bytes, and a final \<open>$\<close> asks that nothing follows.
\<close>

theorem match_correct:
  "match re tx \<longleftrightarrow>
     (if ch0 re = 94 then begins (items (tl re)) tx else \<exists>a b. tx = a @ b \<and> begins (items re) b)"
  by (simp add: match_def match_anywhere_iff matcher_decides)

text \<open>
  C17: \<open>grep\<close> returns, and has written the lines of the file that match, in order and with their
  newlines, however \<open>read\<close> cuts the file in pieces. The lines have no NUL byte and at most 1022
  bytes, which is what the buffer of 1024 bytes holds. The bytes after the last newline are not looked at.
\<close>

theorem grep_correct:
  assumes "serves (env s) (calls s) fd (unlines ls @ rest)" "list_all one_line ls" "one_line rest"
    and "list_all (\<lambda>l. length l \<le> 1022 \<and> 0 \<notin> set l) (rest # ls)"
  shows "\<exists>w. grep pat fd s = Ok () (s\<lparr>calls := calls s @ w\<rparr>) \<and> written 1 w = unlines (filter (match pat) ls)"
proof -
  let ?data = "unlines ls @ rest"
  have zero: "0 \<notin> set ?data" using assms(4) by (induction ls) auto
  have len: "list_all (\<lambda>l. length l \<le> 1022) (rest # ls)" using assms(4) by (simp add: list_all_iff)
  have "\<exists>b w. read_loop fd (\<lambda>b. 1024 - length b - 1) (\<lambda>b chunk. grep_lines pat (b @ chunk)) [] s =
      Ok (b, 0) (s\<lparr>calls := calls s @ w\<rparr>) \<and> grep_inv pat ?data b (written 1 w)"
  proof (rule read_loop_rule[OF assms(1)])
    show "grep_inv pat [] [] []" by (auto simp: grep_inv_def one_line_def intro!: exI[of _ "[]"])
  next
    fix past b out chunk rest' t
    assume "grep_inv pat past b out" "?data = past @ chunk @ rest'"
    with zero show "\<exists>b' w. grep_lines pat (b @ chunk) t = Ok b' (t\<lparr>calls := calls t @ w\<rparr>) \<and> list_all is_write w \<and>
        grep_inv pat (past @ chunk) b' (out @ written 1 w)"
      by (intro grep_step) simp_all
  next
    fix past b out rest'
    assume "grep_inv pat past b out" "?data = past @ rest'" "rest' \<noteq> []"
    from grep_room[OF this assms(2,3) len] show "0 < 1024 - length b - 1" by simp
  qed
  then obtain b w as where w: "read_loop fd (\<lambda>b. 1024 - length b - 1) (\<lambda>b chunk. grep_lines pat (b @ chunk)) [] s =
      Ok (b, 0) (s\<lparr>calls := calls s @ w\<rparr>)" "?data = unlines as @ b" "list_all one_line as" "one_line b"
    "written 1 w = unlines (filter (match pat) as)" by (auto simp: grep_inv_def)
  have "as = take (length as) ls" "ls = take (length ls) as"
    using unlines_prefix[of as b ls rest] unlines_prefix[of ls rest as b] w(2-4) assms(2,3) by auto
  then have "as = ls" by (metis length_take min.absorb_iff2 nat_le_linear take_all_iff)
  with w show ?thesis by (intro exI[of _ w]) (simp add: grep_def bindk_def returnk_def)
qed

theorem grep_correct_witness:
  "\<exists>w. grep [97] 3 \<lparr>env = file_env 3 [97, 98, 10, 99, 10, 97], calls = []\<rparr> =
      Ok () \<lparr>env = file_env 3 [97, 98, 10, 99, 10, 97], calls = w\<rparr> \<and> written 1 w = [97, 98, 10]"
  using grep_correct[of "\<lparr>env = file_env 3 [97, 98, 10, 99, 10, 97], calls = []\<rparr>" 3 "[[97, 98], [99]]" "[97]" "[97]"]
    file_env_serves[of 3 "[97, 98, 10, 99, 10, 97]"]
  by (simp add: one_line_def match_def ch0_def matchhere.simps)

end
