(* ===== verification/Shparse.thy ===== *)
theory Shparse
  imports Ulib
begin

text \<open>
  user/sh.c, its tokeniser and parser. The command line is the list of the bytes before its NUL and a
  pointer into it is an index; the parsed command keeps pairs of indices, as the C structs keep pairs
  of pointers. The recursion of the parser takes fuel; four times the length of the line and four is
  shown to be enough. The lemmas also show which pairs of indices the parser collects.
\<close>

section \<open>Commands\<close>

text \<open>An argument or a file is the pair of its start and its end. Fields of \<open>redircmd\<close>: command, file, efile, mode, fd.\<close>

datatype scmd =
    EXEC "(nat \<times> nat) list"
  | REDIR scmd nat nat int int
  | PIPE scmd scmd
  | LIST scmd scmd
  | BACK scmd

text \<open>
  The constructors allocate a zeroed struct and fill it in. As the code does, they take it that
  \<open>malloc\<close> succeeds.
\<close>

abbreviation execcmd :: scmd where
  "execcmd \<equiv> EXEC []"

abbreviation redircmd :: "scmd \<Rightarrow> nat \<Rightarrow> nat \<Rightarrow> int \<Rightarrow> int \<Rightarrow> scmd" where
  "redircmd \<equiv> REDIR"

abbreviation pipecmd :: "scmd \<Rightarrow> scmd \<Rightarrow> scmd" where
  "pipecmd \<equiv> PIPE"

abbreviation listcmd :: "scmd \<Rightarrow> scmd \<Rightarrow> scmd" where
  "listcmd \<equiv> LIST"

abbreviation backcmd :: "scmd \<Rightarrow> scmd" where
  "backcmd \<equiv> BACK"

abbreviation MAXARGS :: nat where
  "MAXARGS \<equiv> 10"

text \<open>
  \<open>parseexec\<close> goes on filling the \<open>execcmd\<close> it has wrapped in \<open>redircmd\<close>s: the arguments go to the
  command at the bottom.
\<close>

primrec add_arg :: "nat \<Rightarrow> nat \<Rightarrow> scmd \<Rightarrow> scmd" where
  "add_arg q eq (EXEC as) = EXEC (as @ [(q, eq)])"
| "add_arg q eq (REDIR c f ef mode fd) = REDIR (add_arg q eq c) f ef mode fd"
| "add_arg q eq (PIPE a b) = PIPE a b"
| "add_arg q eq (LIST a b) = LIST a b"
| "add_arg q eq (BACK c) = BACK c"

section \<open>Tokens\<close>

definition byte_at :: "ctext \<Rightarrow> nat \<Rightarrow> u8" where
  "byte_at l i = (if i < length l then l ! i else 0)"

definition whitespace :: ctext where
  "whitespace = [32, 9, 13, 10, 11]"

definition symbols :: ctext where
  "symbols = [60, 124, 62, 38, 59, 40, 41]"

function skip_space :: "ctext \<Rightarrow> nat \<Rightarrow> nat" where
  "skip_space l s = (if s < length l \<and> byte_at l s \<in> set whitespace then skip_space l (s + 1) else s)"
  by pat_completeness auto
termination by (relation "measure (\<lambda>(l, s). length l - s)") auto

function skip_word :: "ctext \<Rightarrow> nat \<Rightarrow> nat" where
  "skip_word l s =
     (if s < length l \<and> byte_at l s \<notin> set whitespace \<and> byte_at l s \<notin> set symbols then skip_word l (s + 1) else s)"
  by pat_completeness auto
termination by (relation "measure (\<lambda>(l, s). length l - s)") auto

declare skip_space.simps [simp del] skip_word.simps [simp del]

text \<open>The token at \<open>s\<close>: its kind, where it starts and ends, and the position after it.\<close>

definition gettoken :: "ctext \<Rightarrow> nat \<Rightarrow> u8 \<times> nat \<times> nat \<times> nat" where
  "gettoken l s =
     (let s = skip_space l s; q = s; c = byte_at l s in
      let (ret, s) =
        (if c = 0 then (c, s)
         else if c \<in> {124, 40, 41, 59, 38, 60} then (c, s + 1)
         else if c = 62 then (if byte_at l (s + 1) = 62 then (43, s + 2) else (c, s + 1))
         else (97, skip_word l s)) in
      (ret, q, s, skip_space l s))"

definition peek :: "ctext \<Rightarrow> nat \<Rightarrow> ctext \<Rightarrow> bool \<times> nat" where
  "peek l s toks = (let s = skip_space l s in (byte_at l s \<noteq> 0 \<and> byte_at l s \<in> set toks, s))"

lemma skip_space_bounds: "s \<le> skip_space l s" "s \<le> length l \<Longrightarrow> skip_space l s \<le> length l"
  by (induction l s rule: skip_space.induct) (subst skip_space.simps, force)+

lemma skip_word_bounds: "s \<le> skip_word l s" "s \<le> length l \<Longrightarrow> skip_word l s \<le> length l"
  by (induction l s rule: skip_word.induct) (subst skip_word.simps, force)+

lemma skip_space_stop: "skip_space l s < length l \<Longrightarrow> byte_at l (skip_space l s) \<notin> set whitespace"
proof (induction l s rule: skip_space.induct)
  case (1 l s)
  then show ?case
    by (cases "s < length l \<and> byte_at l s \<in> set whitespace") (auto simp: skip_space.simps[of l s])
qed

text \<open>The bytes of words.\<close>

definition wordc :: "u8 \<Rightarrow> bool" where
  "wordc c \<longleftrightarrow> c \<notin> set whitespace \<and> c \<notin> set symbols"

lemma skip_word_word: "q \<le> i \<Longrightarrow> i < skip_word l q \<Longrightarrow> wordc (byte_at l i)"
proof (induction l q rule: skip_word.induct)
  case (1 l s)
  then show ?case
    by (cases "i = s"; cases "s < length l \<and> wordc (byte_at l s)") (auto simp: skip_word.simps[of l s] wordc_def)
qed

lemma skip_word_stop: "skip_word l q < length l \<Longrightarrow> \<not> wordc (byte_at l (skip_word l q))"
proof (induction l q rule: skip_word.induct)
  case (1 l s)
  then show ?case
    by (cases "s < length l \<and> wordc (byte_at l s)") (auto simp: skip_word.simps[of l s] wordc_def)
qed

lemma byte_at_nonzero: "byte_at l s \<noteq> 0 \<Longrightarrow> s < length l"
  by (simp add: byte_at_def split: if_splits)

lemma skip_word_progress:
  assumes "s < length l" "wordc (byte_at l s)"
  shows "s < skip_word l s"
  using assms skip_word_bounds(1)[of "s + 1" l] by (subst skip_word.simps) (simp add: wordc_def)

lemma gettoken_cases:
  assumes "gettoken l s = (tok, q, eq, s')"
  obtains (eof) "q = skip_space l s" "byte_at l q = 0" "tok = 0" "eq = q" "s' = skip_space l eq"
  | (one) "q = skip_space l s" "byte_at l q = tok" "tok \<in> set symbols" "eq = q + 1" "s' = skip_space l eq"
  | (app) "q = skip_space l s" "byte_at l q = 62" "byte_at l (q + 1) = 62" "tok = 43" "eq = q + 2" "s' = skip_space l eq"
  | (word) "q = skip_space l s" "byte_at l q \<noteq> 0" "wordc (byte_at l q)" "tok = 97" "eq = skip_word l q" "s' = skip_space l eq"
proof -
  have "byte_at l (skip_space l s) \<notin> set whitespace" if "byte_at l (skip_space l s) \<noteq> 0"
    using that skip_space_stop byte_at_nonzero by blast
  with assms that show ?thesis
    by (auto simp: gettoken_def Let_def symbols_def wordc_def split: if_splits)
qed

lemma gettoken_bounds:
  assumes "gettoken l s = (tok, q, eq, s')" "s \<le> length l"
  shows "s \<le> q" "q \<le> eq" "eq \<le> s'" "s' \<le> length l"
  using assms(1)
  by (cases rule: gettoken_cases;
      use assms(2) skip_space_bounds[of s l] skip_space_bounds[of eq l] skip_word_bounds[of q l]
        byte_at_nonzero[of l q] byte_at_nonzero[of l "q + 1"] in \<open>auto simp: symbols_def\<close>)+

lemma gettoken_progress:
  assumes "gettoken l s = (tok, q, eq, s')" "byte_at l (skip_space l s) \<noteq> 0"
  shows "s < s'"
  using assms(1)
proof (cases rule: gettoken_cases)
  case word
  then show ?thesis
    using skip_word_progress[of q l] skip_space_bounds(1)[of s l] skip_space_bounds(1)[of eq l] byte_at_nonzero[of l q] by auto
qed (use assms(2) skip_space_bounds(1)[of s l] skip_space_bounds(1)[of eq l] in auto)

lemma peek_bounds: "peek l s toks = (b, s1) \<Longrightarrow> s \<le> s1 \<and> (s \<le> length l \<longrightarrow> s1 \<le> length l)"
  using skip_space_bounds by (auto simp: peek_def Let_def)

lemma skip_space_idem [simp]: "skip_space l (skip_space l s) = skip_space l s"
  using skip_space_stop[of l s] by (subst skip_space.simps) auto

lemma peek_token:
  assumes "peek l s toks = (True, s1)" "gettoken l s1 = (tok, q, eq, s2)"
  shows "s1 < s2" "s1 < length l"
proof -
  have "byte_at l (skip_space l s1) \<noteq> 0" "s1 = skip_space l s" using assms(1) by (auto simp: peek_def Let_def)
  then show "s1 < s2" "s1 < length l" using gettoken_progress[OF assms(2)] byte_at_nonzero[of l s1] by auto
qed

section \<open>The parser\<close>

datatype 'a parsed = Got 'a nat | Bad string | Fuel

definition pbind :: "'a parsed \<Rightarrow> ('a \<Rightarrow> nat \<Rightarrow> 'b parsed) \<Rightarrow> 'b parsed" where
  "pbind r f = (case r of Got x s \<Rightarrow> f x s | Bad e \<Rightarrow> Bad e | Fuel \<Rightarrow> Fuel)"

text \<open>Modes: \<open>O_RDONLY\<close> is 0, \<open>O_WRONLY|O_CREATE|O_TRUNC\<close> 1537 and \<open>O_WRONLY|O_CREATE\<close> 513.\<close>

function parseredirs :: "scmd \<Rightarrow> ctext \<Rightarrow> nat \<Rightarrow> scmd parsed" where
  "parseredirs cmd l s =
     (case peek l s [60, 62] of
        (False, s1) \<Rightarrow> Got cmd s1
      | (True, s1) \<Rightarrow> (case gettoken l s1 of (tok, _, _, s2) \<Rightarrow> (case gettoken l s2 of (tok2, q, eq, s3) \<Rightarrow>
          if tok2 \<noteq> 97 then Bad ''missing file for redirection'' else
          if tok = 60 then parseredirs (redircmd cmd q eq 0 0) l s3
          else if tok = 62 then parseredirs (redircmd cmd q eq 1537 1) l s3
          else if tok = 43 then parseredirs (redircmd cmd q eq 513 1) l s3
          else parseredirs cmd l s3)))"
  by pat_completeness auto

lemma peek_progress:
  assumes "(True, s1) = peek l s toks" "(tok, q, eq, s2) = gettoken l s1"
  shows "length l - s2 < length l - s"
  using peek_token[OF assms[symmetric]] peek_bounds[OF assms(1)[symmetric]] by simp

lemma parseredirs_progress:
  assumes "(True, s1) = peek l s toks" "(tok, q, eq, s2) = gettoken l s1" "(tok2, q2, eq2, s3) = gettoken l s2"
  shows "length l - s3 < length l - s"
proof -
  have "s1 < length l" using peek_token(2)[OF assms(1,2)[symmetric]] .
  then have "s2 \<le> length l" using gettoken_bounds(4)[OF assms(2)[symmetric]] by simp
  then have "s2 \<le> s3" using gettoken_bounds(1-3)[OF assms(3)[symmetric]] by simp
  with peek_progress[OF assms(1,2)] show ?thesis by simp
qed

termination parseredirs
  by (relation "measure (\<lambda>(_, l, s). length l - s)") (auto intro: parseredirs_progress)

declare parseredirs.simps [simp del]

function parseargs :: "scmd \<Rightarrow> nat \<Rightarrow> ctext \<Rightarrow> nat \<Rightarrow> scmd parsed" where
  "parseargs ret argc l s =
     (case peek l s [124, 41, 38, 59] of
        (True, s1) \<Rightarrow> Got ret s1
      | (False, s1) \<Rightarrow> (case gettoken l s1 of (tok, q, eq, s2) \<Rightarrow>
          if tok = 0 then Got ret s2
          else if tok \<noteq> 97 then Bad ''syntax''
          else if argc + 1 \<ge> MAXARGS then Bad ''too many args''
          else (case parseredirs (add_arg q eq ret) l s2 of
              Got ret s3 \<Rightarrow> parseargs ret (argc + 1) l s3 | Bad e \<Rightarrow> Bad e | Fuel \<Rightarrow> Fuel)))"
  by pat_completeness auto
termination
  by (relation "measure (\<lambda>(_, argc, _, _). MAXARGS - argc)") auto

function parsebacks :: "scmd \<Rightarrow> ctext \<Rightarrow> nat \<Rightarrow> scmd \<times> nat" where
  "parsebacks cmd l s =
     (case peek l s [38] of
        (False, s1) \<Rightarrow> (cmd, s1)
      | (True, s1) \<Rightarrow> (case gettoken l s1 of (_, _, _, s2) \<Rightarrow> parsebacks (backcmd cmd) l s2))"
  by pat_completeness auto
termination
  by (relation "measure (\<lambda>(_, l, s). length l - s)") (auto intro: peek_progress)

declare parseargs.simps [simp del] parsebacks.simps [simp del]

fun parseline :: "nat \<Rightarrow> ctext \<Rightarrow> nat \<Rightarrow> scmd parsed"
  and parsepipe :: "nat \<Rightarrow> ctext \<Rightarrow> nat \<Rightarrow> scmd parsed"
  and parseexec :: "nat \<Rightarrow> ctext \<Rightarrow> nat \<Rightarrow> scmd parsed"
  and parseblock :: "nat \<Rightarrow> ctext \<Rightarrow> nat \<Rightarrow> scmd parsed" where
  "parseline 0 l s = Fuel"
| "parseline (Suc k) l s =
     pbind (parsepipe k l s) (\<lambda>cmd s. case parsebacks cmd l s of (cmd, s) \<Rightarrow>
     (case peek l s [59] of
        (False, s) \<Rightarrow> Got cmd s
      | (True, s) \<Rightarrow> (case gettoken l s of (_, _, _, s) \<Rightarrow>
          pbind (parseline k l s) (\<lambda>right s. Got (listcmd cmd right) s))))"
| "parsepipe 0 l s = Fuel"
| "parsepipe (Suc k) l s =
     pbind (parseexec k l s) (\<lambda>cmd s.
     (case peek l s [124] of
        (False, s) \<Rightarrow> Got cmd s
      | (True, s) \<Rightarrow> (case gettoken l s of (_, _, _, s) \<Rightarrow>
          pbind (parsepipe k l s) (\<lambda>right s. Got (pipecmd cmd right) s))))"
| "parseexec 0 l s = Fuel"
| "parseexec (Suc k) l s =
     (case peek l s [40] of
        (True, s) \<Rightarrow> parseblock k l s
      | (False, s) \<Rightarrow> pbind (parseredirs execcmd l s) (\<lambda>ret s. parseargs ret 0 l s))"
| "parseblock 0 l s = Fuel"
| "parseblock (Suc k) l s =
     (case peek l s [40] of
        (False, _) \<Rightarrow> Bad ''parseblock''
      | (True, s) \<Rightarrow> (case gettoken l s of (_, _, _, s) \<Rightarrow>
          pbind (parseline k l s) (\<lambda>cmd s.
          (case peek l s [41] of
             (False, _) \<Rightarrow> Bad ''syntax - missing )''
           | (True, s) \<Rightarrow> (case gettoken l s of (_, _, _, s) \<Rightarrow> parseredirs cmd l s)))))"

section \<open>What the parser keeps\<close>

text \<open>All words of a command, and that a pair of indices is a maximal run of word bytes.\<close>

primrec words :: "scmd \<Rightarrow> (nat \<times> nat) list" where
  "words (EXEC as) = as"
| "words (REDIR c f ef mode fd) = words c @ [(f, ef)]"
| "words (PIPE a b) = words a @ words b"
| "words (LIST a b) = words a @ words b"
| "words (BACK c) = words c"

definition word_ok :: "ctext \<Rightarrow> nat \<times> nat \<Rightarrow> bool" where
  "word_ok l w = (case w of (q, eq) \<Rightarrow> q < eq \<and> eq \<le> length l \<and> list_all wordc (take (eq - q) (drop q l)) \<and>
     (eq < length l \<longrightarrow> \<not> wordc (l ! eq)))"

definition cmd_ok :: "ctext \<Rightarrow> scmd \<Rightarrow> bool" where
  "cmd_ok l c = list_all (word_ok l) (words c)"

definition good :: "ctext \<Rightarrow> nat \<Rightarrow> scmd parsed \<Rightarrow> bool" where
  "good l s r = (case r of Got c s' \<Rightarrow> s \<le> s' \<and> s' \<le> length l \<and> cmd_ok l c | _ \<Rightarrow> True)"

lemma cmd_ok_simps [simp]:
  "cmd_ok l (EXEC []) \<longleftrightarrow> True"
  "cmd_ok l (REDIR c f ef mode fd) \<longleftrightarrow> cmd_ok l c \<and> word_ok l (f, ef)"
  "cmd_ok l (PIPE a b) \<longleftrightarrow> cmd_ok l a \<and> cmd_ok l b"
  "cmd_ok l (LIST a b) \<longleftrightarrow> cmd_ok l a \<and> cmd_ok l b"
  "cmd_ok l (BACK c) \<longleftrightarrow> cmd_ok l c"
  by (auto simp: cmd_ok_def)

lemma cmd_ok_add_arg: "cmd_ok l c \<Longrightarrow> word_ok l (q, eq) \<Longrightarrow> cmd_ok l (add_arg q eq c)"
  by (induction c) (auto simp: cmd_ok_def)

lemma gettoken_word_ok:
  assumes "gettoken l s = (97, q, eq, s')" "s \<le> length l"
  shows "word_ok l (q, eq)"
  using assms(1)
proof (cases rule: gettoken_cases)
  case word
  have q: "q < length l" using word(2) byte_at_nonzero by blast
  then have "q < eq" "eq \<le> length l" using skip_word_progress[of q l] skip_word_bounds(2)[of q l] word by auto
  moreover have "wordc (l ! i)" if "q \<le> i" "i < eq" for i
    using skip_word_word[of q i l] that word(5) \<open>eq \<le> length l\<close> by (simp add: byte_at_def)
  then have "list_all wordc (take (eq - q) (drop q l))"
    by (auto simp: list_all_length)
  moreover have "eq < length l \<longrightarrow> \<not> wordc (l ! eq)"
    using skip_word_stop[of l q] word(5) by (simp add: byte_at_def)
  ultimately show ?thesis by (simp add: word_ok_def)
qed (auto simp: symbols_def)

lemma goodI: "r = Bad e \<Longrightarrow> good l s r" "r = Fuel \<Longrightarrow> good l s r"
  "r = Got c s' \<Longrightarrow> s \<le> s' \<Longrightarrow> s' \<le> length l \<Longrightarrow> cmd_ok l c \<Longrightarrow> good l s r"
  by (auto simp: good_def)

lemma good_le: "good l s' r \<Longrightarrow> s \<le> s' \<Longrightarrow> good l s r"
  by (auto simp: good_def split: parsed.splits)

lemma good_pbind:
  assumes "good l s r" "\<And>c s'. s \<le> s' \<Longrightarrow> s' \<le> length l \<Longrightarrow> cmd_ok l c \<Longrightarrow> good l s' (f c s')"
  shows "good l s (pbind r f)"
proof (cases r)
  case (Got c s')
  then have "s \<le> s'" "good l s' (f c s')" using assms by (auto simp: good_def)
  with Got good_le show ?thesis by (simp add: pbind_def)
qed (auto simp: pbind_def intro: goodI)

lemma parseredirs_good: "s \<le> length l \<Longrightarrow> cmd_ok l cmd \<Longrightarrow> good l s (parseredirs cmd l s)"
proof (induction cmd l s rule: parseredirs.induct)
  case (1 cmd l s)
  obtain b s1 where pk: "peek l s [60, 62] = (b, s1)" by force
  obtain tok q0 eq0 s2 where t1: "gettoken l s1 = (tok, q0, eq0, s2)" by (metis prod_cases4)
  obtain tok2 q eq s3 where t2: "gettoken l s2 = (tok2, q, eq, s3)" by (metis prod_cases4)
  note le1 = peek_bounds[OF pk]
  note le2 = gettoken_bounds[OF t1]
  note le3 = gettoken_bounds[OF t2]
  have le: "s \<le> s1" "s1 \<le> length l" "s \<le> s3" "s3 \<le> length l" using le1 le2 le3 1(5) by auto
  have w: "word_ok l (q, eq)" if "tok2 = 97" using gettoken_word_ok[of l s2] t2 that le1 le2 1(5) by simp
  show ?case
    apply (subst parseredirs.simps)
    using 1 pk t1 t2 le w good_le[of l s3 _ s] by (cases b) (auto intro: goodI)
qed

lemma parseredirs_total: "parseredirs cmd l s \<noteq> Fuel"
  by (induction cmd l s rule: parseredirs.induct) (subst parseredirs.simps, auto split: prod.splits bool.splits)

lemma parseargs_total: "parseargs cmd argc l s \<noteq> Fuel"
proof (induction cmd argc l s rule: parseargs.induct)
  case (1 ret argc l s)
  then show ?case
    by (subst parseargs.simps) (auto simp: parseredirs_total split: prod.splits bool.splits parsed.splits)
qed

lemma parseargs_good: "s \<le> length l \<Longrightarrow> cmd_ok l cmd \<Longrightarrow> good l s (parseargs cmd argc l s)"
proof (induction cmd argc l s rule: parseargs.induct)
  case (1 ret argc l s)
  obtain b s1 where pk: "peek l s [124, 41, 38, 59] = (b, s1)" by force
  obtain tok q eq s2 where tk: "gettoken l s1 = (tok, q, eq, s2)" by (metis prod_cases4)
  have le: "s \<le> s1" "s1 \<le> length l" "s1 \<le> s2" "s2 \<le> length l"
    using peek_bounds[OF pk] gettoken_bounds[OF tk] 1(2) by auto
  show ?case
  proof (cases "b \<or> tok = 0 \<or> tok \<noteq> 97 \<or> argc + 1 \<ge> MAXARGS")
    case True
    then show ?thesis using pk tk le 1(3) by (subst parseargs.simps) (auto split: bool.splits intro: goodI)
  next
    case False
    then have g: "good l s2 (parseredirs (add_arg q eq ret) l s2)"
      using gettoken_word_ok[of l s1 q eq s2] tk le 1(3) by (intro parseredirs_good cmd_ok_add_arg) auto
    then have "good l s (case parseredirs (add_arg q eq ret) l s2 of
        Got ret s3 \<Rightarrow> parseargs ret (argc + 1) l s3 | Bad e \<Rightarrow> Bad e | Fuel \<Rightarrow> Fuel)"
      using 1(1)[of b s1 tok "(q, eq, s2)" q "(eq, s2)" eq s2] pk tk False le
      by (cases "parseredirs (add_arg q eq ret) l s2") (auto simp: good_def split: parsed.splits)
    then show ?thesis using pk tk False by (subst parseargs.simps) simp
  qed
qed

lemma parsebacks_bounds:
  "parsebacks cmd l s = (cmd', s') \<Longrightarrow> s \<le> length l \<Longrightarrow> cmd_ok l cmd \<Longrightarrow> s \<le> s' \<and> s' \<le> length l \<and> cmd_ok l cmd'"
proof (induction cmd l s rule: parsebacks.induct)
  case (1 cmd l s)
  obtain b s1 where pk: "peek l s [38] = (b, s1)" by force
  obtain tok q eq s2 where tk: "gettoken l s1 = (tok, q, eq, s2)" by (metis prod_cases4)
  have le: "s \<le> s1" "s1 \<le> length l" "s1 \<le> s2" "s2 \<le> length l"
    using peek_bounds[OF pk] gettoken_bounds[OF tk] 1(3) by auto
  show ?case
  proof (cases b)
    case True
    then have "parsebacks (BACK cmd) l s2 = (cmd', s')" using 1(2) pk tk by (simp add: parsebacks.simps[of cmd])
    then show ?thesis using 1(1)[of b s1 tok "(q, eq, s2)" q "(eq, s2)" eq s2] pk tk True le 1(4) by simp
  next
    case False
    then show ?thesis using 1(2,4) pk le by (simp add: parsebacks.simps[of cmd])
  qed
qed

lemma good_peek:
  assumes "s \<le> length l" "\<And>s'. s \<le> s' \<Longrightarrow> s' \<le> length l \<Longrightarrow> good l s' (f s')"
    "\<And>s'. s \<le> s' \<Longrightarrow> s' \<le> length l \<Longrightarrow> good l s' (g s')"
  shows "good l s (case peek l s toks of (True, s) \<Rightarrow> f s | (False, s) \<Rightarrow> g s)"
proof -
  obtain b s1 where pk: "peek l s toks = (b, s1)" by force
  with assms peek_bounds[OF pk] good_le[of l s1 _ s] show ?thesis by (cases b) auto
qed

lemma good_gettoken:
  assumes "s \<le> length l" "\<And>s'. s \<le> s' \<Longrightarrow> s' \<le> length l \<Longrightarrow> good l s' (f s')"
  shows "good l s (case gettoken l s of (_, _, _, s) \<Rightarrow> f s)"
proof -
  obtain tok q eq s1 where "gettoken l s = (tok, q, eq, s1)" by (metis prod_cases4)
  with assms gettoken_bounds[OF this] good_le[of l s1 _ s] show ?thesis by auto
qed

lemma good_parsebacks:
  assumes "s \<le> length l" "cmd_ok l cmd" "\<And>cmd s'. s \<le> s' \<Longrightarrow> s' \<le> length l \<Longrightarrow> cmd_ok l cmd \<Longrightarrow> good l s' (f cmd s')"
  shows "good l s (case parsebacks cmd l s of (cmd, s) \<Rightarrow> f cmd s)"
proof -
  obtain cmd' s1 where "parsebacks cmd l s = (cmd', s1)" by force
  with assms parsebacks_bounds[OF this] good_le[of l s1 _ s] show ?thesis by auto
qed

lemmas good_rules = good_pbind good_peek good_gettoken good_parsebacks parseredirs_good parseargs_good
  goodI(1)[OF refl] goodI(2)[OF refl] goodI(3)[OF refl]

lemma parse_good_all:
  "\<forall>s \<le> length l. good l s (parseline k l s) \<and> good l s (parsepipe k l s) \<and>
     good l s (parseexec k l s) \<and> good l s (parseblock k l s)"
proof (induction k)
  case (Suc k)
  then have "good l s (parseline k l s)" "good l s (parsepipe k l s)" "good l s (parseexec k l s)"
    "good l s (parseblock k l s)" if "s \<le> length l" for s using that by auto
  note ih = this
  show ?case
    unfolding parseline.simps parsepipe.simps parseexec.simps parseblock.simps
    by (intro allI impI conjI; intro good_rules ih) auto
qed (auto intro: goodI)

lemmas parse_good = parse_good_all[rule_format, THEN conjunct1]
  parse_good_all[rule_format, THEN conjunct2, THEN conjunct1]
  parse_good_all[rule_format, THEN conjunct2, THEN conjunct2, THEN conjunct1]
  parse_good_all[rule_format, THEN conjunct2, THEN conjunct2, THEN conjunct2]

section \<open>Termination of the parser\<close>

lemma total_pbind:
  assumes "good l s r" "r \<noteq> Fuel"
    "\<And>c s'. s \<le> s' \<Longrightarrow> s' \<le> length l \<Longrightarrow> cmd_ok l c \<Longrightarrow> f c s' \<noteq> Fuel"
  shows "pbind r f \<noteq> Fuel"
  using assms by (cases r) (auto simp: good_def pbind_def)

lemma total_peek:
  assumes "s \<le> length l" "\<And>s'. s \<le> s' \<Longrightarrow> s' \<le> length l \<Longrightarrow> g s' \<noteq> Fuel"
    "\<And>s'. s < s' \<Longrightarrow> s' \<le> length l \<Longrightarrow> f s' \<noteq> Fuel"
  shows "(case peek l s toks of (True, s) \<Rightarrow> (case gettoken l s of (_, _, _, s) \<Rightarrow> f s) | (False, s) \<Rightarrow> g s) \<noteq> Fuel"
proof -
  obtain b s1 where pk: "peek l s toks = (b, s1)" by force
  obtain tok q eq s2 where tk: "gettoken l s1 = (tok, q, eq, s2)" by (metis prod_cases4)
  show ?thesis using assms pk tk peek_bounds[OF pk] peek_token[of l s toks s1] gettoken_bounds(4)[OF tk] by (cases b) auto
qed

lemma total_parsebacks:
  assumes "s \<le> length l" "cmd_ok l cmd" "\<And>cmd s'. s \<le> s' \<Longrightarrow> s' \<le> length l \<Longrightarrow> f cmd s' \<noteq> Fuel"
  shows "(case parsebacks cmd l s of (cmd, s) \<Rightarrow> f cmd s) \<noteq> Fuel"
proof -
  obtain cmd' s1 where "parsebacks cmd l s = (cmd', s1)" by force
  with assms parsebacks_bounds[OF this] show ?thesis by auto
qed

lemma parse_fuel_all:
  "\<forall>s \<le> length l.
     (4 * (length l - s) + 4 \<le> k \<longrightarrow> parseline k l s \<noteq> Fuel) \<and>
     (4 * (length l - s) + 3 \<le> k \<longrightarrow> parsepipe k l s \<noteq> Fuel) \<and>
     (4 * (length l - s) + 2 \<le> k \<longrightarrow> parseexec k l s \<noteq> Fuel) \<and>
     (4 * (length l - s) + 1 \<le> k \<longrightarrow> parseblock k l s \<noteq> Fuel)"
proof (induction k)
  case (Suc k)
  then have ih: "4 * (length l - s) + 4 \<le> k \<Longrightarrow> parseline k l s \<noteq> Fuel"
    "4 * (length l - s) + 3 \<le> k \<Longrightarrow> parsepipe k l s \<noteq> Fuel"
    "4 * (length l - s) + 2 \<le> k \<Longrightarrow> parseexec k l s \<noteq> Fuel"
    "4 * (length l - s) + 1 \<le> k \<Longrightarrow> parseblock k l s \<noteq> Fuel" if "s \<le> length l" for s using that by auto
  have line: "parseline (Suc k) l s \<noteq> Fuel" if "s \<le> length l" "4 * (length l - s) + 4 \<le> Suc k" for s
    unfolding parseline.simps using that
    by (intro total_pbind[OF parse_good(2)] total_parsebacks total_peek total_pbind[OF parse_good(1)] ih) auto
  have pipe: "parsepipe (Suc k) l s \<noteq> Fuel" if "s \<le> length l" "4 * (length l - s) + 3 \<le> Suc k" for s
    unfolding parsepipe.simps using that
    by (intro total_pbind[OF parse_good(3)] total_peek total_pbind[OF parse_good(2)] ih) auto
  have exec: "parseexec (Suc k) l s \<noteq> Fuel" if "s \<le> length l" "4 * (length l - s) + 2 \<le> Suc k" for s
  proof -
    obtain b s1 where pk: "peek l s [40] = (b, s1)" by force
    have s1: "s \<le> s1" "s1 \<le> length l" using peek_bounds[OF pk] that(1) by auto
    then have "parseblock k l s1 \<noteq> Fuel" using that by (intro ih) auto
    moreover have "pbind (parseredirs (EXEC []) l s1) (\<lambda>ret. parseargs ret 0 l) \<noteq> Fuel"
      using s1 by (intro total_pbind[OF parseredirs_good] parseredirs_total parseargs_total) auto
    ultimately show ?thesis using pk by (cases b) auto
  qed
  have block: "parseblock (Suc k) l s \<noteq> Fuel" if "s \<le> length l" "4 * (length l - s) + 1 \<le> Suc k" for s
    unfolding parseblock.simps using that
    by (intro total_peek total_pbind[OF parse_good(1)] ih parseredirs_total) auto
  show ?case using line pipe exec block by blast
qed simp

text \<open>More fuel does not change a result.\<close>

definition below :: "'a parsed \<Rightarrow> 'a parsed \<Rightarrow> bool" where
  "below r r' \<longleftrightarrow> r = Fuel \<or> r = r'"

lemma below_refl [simp]: "below r r"
  by (simp add: below_def)

lemma below_pbind:
  assumes "below r r'" "\<And>x s. below (f x s) (f' x s)"
  shows "below (pbind r f) (pbind r' f')"
proof (cases "r = Fuel")
  case False
  then have "r' = r" using assms(1) by (auto simp: below_def)
  then show ?thesis using assms(2) by (cases r) (simp_all add: pbind_def)
qed (simp add: pbind_def below_def)

lemma below_cases:
  "(\<And>x s. below (f x s) (f' x s)) \<Longrightarrow> below (case p of (x, s) \<Rightarrow> f x s) (case p of (x, s) \<Rightarrow> f' x s)"
  "below g g' \<Longrightarrow> below h h' \<Longrightarrow> below (case b of True \<Rightarrow> g | False \<Rightarrow> h) (case b of True \<Rightarrow> g' | False \<Rightarrow> h')"
  by (auto split: prod.splits bool.splits)

lemma parse_mono_all:
  "\<forall>s. below (parseline k l s) (parseline (k + n) l s) \<and> below (parsepipe k l s) (parsepipe (k + n) l s) \<and>
     below (parseexec k l s) (parseexec (k + n) l s) \<and> below (parseblock k l s) (parseblock (k + n) l s)"
proof (induction k)
  case (Suc k)
  then have ih: "below (parseline k l s) (parseline (k + n) l s)" "below (parsepipe k l s) (parsepipe (k + n) l s)"
    "below (parseexec k l s) (parseexec (k + n) l s)" "below (parseblock k l s) (parseblock (k + n) l s)" for s by auto
  show ?case
    unfolding add_Suc parseline.simps parsepipe.simps parseexec.simps parseblock.simps
    by (intro allI conjI below_pbind below_cases ih below_refl)
qed (simp add: below_def)

text \<open>
  C40: The recursive descent ends: a recursion depth of four times the length of the line and four is
  enough for the parser to return a command or a syntax error, and a greater depth changes nothing.
\<close>

theorem parser_terminates:
  "parseline (4 * length l + 4) l 0 \<noteq> Fuel \<and>
   parseline (4 * length l + 4 + n) l 0 = parseline (4 * length l + 4) l 0"
proof -
  have "parseline (4 * length l + 4) l 0 \<noteq> Fuel" using parse_fuel_all[of l "4 * length l + 4"] by simp
  moreover have "below (parseline (4 * length l + 4) l 0) (parseline (4 * length l + 4 + n) l 0)"
    using parse_mono_all by blast
  ultimately show ?thesis by (simp add: below_def)
qed

end
