(* ===== verification/Sh.thy ===== *)
theory Sh
  imports Shparse
begin

text \<open>
  user/sh.c, the rest: \<open>nulterminate\<close>, which turns the words of the parsed line into C strings by writing
  into the line, the interpreter \<open>runcmd\<close> and the main loop.
\<close>

section \<open>The interpreter\<close>

text \<open>The line as \<open>nulterminate\<close> finds it, its NUL included; it writes a NUL after every word.\<close>

primrec nulterminate :: "scmd \<Rightarrow> ctext \<Rightarrow> ctext" where
  "nulterminate (EXEC as) b = foldl (\<lambda>b (q, eq). b[eq := 0]) b as"
| "nulterminate (REDIR c f ef mode fd) b = (nulterminate c b)[ef := 0]"
| "nulterminate (PIPE left right) b = nulterminate right (nulterminate left b)"
| "nulterminate (LIST left right) b = nulterminate right (nulterminate left b)"
| "nulterminate (BACK c) b = nulterminate c b"

text \<open>The C string that starts at an index.\<close>

definition str_at :: "ctext \<Rightarrow> nat \<Rightarrow> ctext" where
  "str_at b q = takeWhile (\<lambda>c. c \<noteq> 0) (drop q b)"

definition sh_panic :: "string \<Rightarrow> 'a user" where
  "sh_panic m = bindk (fprintf 2 (txt_bytes ''%s'' @ [10]) [ArgStr (Some (txt_bytes m))]) (\<lambda>_. u_exit 1)"

definition fork1 :: "int user" where
  "fork1 = bindk (sysi SFork) (\<lambda>pid. if pid = -1 then sh_panic ''fork'' else returnk pid)"

definition parsecmd :: "ctext \<Rightarrow> (scmd \<times> ctext) user" where
  "parsecmd l =
     (case parseline (4 * length l + 4) l 0 of
        Fuel \<Rightarrow> (\<lambda>_. Spins)
      | Bad m \<Rightarrow> sh_panic m
      | Got cmd s \<Rightarrow> (case peek l s [] of (_, s) \<Rightarrow>
          if s \<noteq> length l then
            bindk (fprintf 2 (txt_bytes ''leftovers: %s'' @ [10]) [ArgStr (Some (drop s l))]) (\<lambda>_. sh_panic ''syntax'')
          else returnk (cmd, nulterminate cmd (l @ [0]))))"

primrec runcmd :: "ctext \<Rightarrow> scmd \<Rightarrow> unit user" where
  "runcmd b (EXEC as) =
     (if as = [] then u_exit 1 else
      let argv = map (\<lambda>(q, eq). str_at b q) as in
      bindk (u_exec (hd argv) argv) (\<lambda>_.
      bindk (fprintf 2 (txt_bytes ''exec %s failed'' @ [10]) [ArgStr (Some (hd argv))]) (\<lambda>_.
      u_exit 0)))"
| "runcmd b (REDIR c f ef mode fd) =
     bindk (sys_do (SClose fd)) (\<lambda>_.
     bindk (sysi (SOpen (str_at b f) mode)) (\<lambda>r.
     if r < 0 then
       bindk (fprintf 2 (txt_bytes ''open %s failed'' @ [10]) [ArgStr (Some (str_at b f))]) (\<lambda>_. u_exit 1)
     else bindk (runcmd b c) (\<lambda>_. u_exit 0)))"
| "runcmd b (LIST left right) =
     bindk fork1 (\<lambda>pid.
     bindk (whenk (pid = 0) (runcmd b left)) (\<lambda>_.
     bindk (sys_do SWait) (\<lambda>_.
     bindk (runcmd b right) (\<lambda>_. u_exit 0))))"
| "runcmd b (PIPE left right) =
     bindk (sys SPipe) (\<lambda>r. if rv r < 0 then sh_panic ''pipe'' else
     let p0 = rints r ! 0; p1 = rints r ! 1 in
     bindk fork1 (\<lambda>pid.
     bindk (whenk (pid = 0) (
       bindk (sys_do (SClose 1)) (\<lambda>_.
       bindk (sys_do (SDup p1)) (\<lambda>_.
       bindk (sys_do (SClose p0)) (\<lambda>_.
       bindk (sys_do (SClose p1)) (\<lambda>_.
       runcmd b left)))))) (\<lambda>_.
     bindk fork1 (\<lambda>pid.
     bindk (whenk (pid = 0) (
       bindk (sys_do (SClose 0)) (\<lambda>_.
       bindk (sys_do (SDup p0)) (\<lambda>_.
       bindk (sys_do (SClose p0)) (\<lambda>_.
       bindk (sys_do (SClose p1)) (\<lambda>_.
       runcmd b right)))))) (\<lambda>_.
     bindk (sys_do (SClose p0)) (\<lambda>_.
     bindk (sys_do (SClose p1)) (\<lambda>_.
     bindk (sys_do SWait) (\<lambda>_.
     bindk (sys_do SWait) (\<lambda>_.
     u_exit 0)))))))))"
| "runcmd b (BACK c) =
     bindk fork1 (\<lambda>pid.
     bindk (whenk (pid = 0) (runcmd b c)) (\<lambda>_.
     u_exit 0))"

text \<open>\<open>getcmd\<close>: the C string that is left in the buffer, which was zeroed before.\<close>

definition getcmd :: "int \<Rightarrow> (int \<times> ctext) user" where
  "getcmd nbuf =
     bindk (sys_do (SWrite 2 [36, 32])) (\<lambda>_.
     bindk (u_gets nbuf) (\<lambda>bs.
     let buf = takeWhile (\<lambda>c. c \<noteq> 0) bs in
     returnk (if buf = [] then -1 else 0, buf)))"

definition sh_open_body :: "unit \<Rightarrow> (unit + unit) user" where
  "sh_open_body _ =
     bindk (sysi (SOpen (txt_bytes ''console'') 2)) (\<lambda>fd.
     if fd \<ge> 0 then
       if fd \<ge> 3 then bindk (sys_do (SClose fd)) (\<lambda>_. returnk (Inr ())) else returnk (Inl ())
     else returnk (Inr ()))"

definition sh_body :: "unit \<Rightarrow> (unit + unit) user" where
  "sh_body _ =
     bindk (getcmd 100) (\<lambda>(r, buf).
     if r < 0 then returnk (Inr ()) else
     if take 3 buf = [99, 100, 32] then
       let path = drop 3 (butlast buf) in
       bindk (sysi (SChdir path)) (\<lambda>e.
       bindk (whenk (e < 0) (fprintf 2 (txt_bytes ''cannot cd %s'' @ [10]) [ArgStr (Some path)])) (\<lambda>_.
       returnk (Inl ())))
     else
       bindk fork1 (\<lambda>pid.
       bindk (whenk (pid = 0) (bindk (parsecmd buf) (\<lambda>(cmd, b). runcmd b cmd))) (\<lambda>_.
       bindk (sys_do SWait) (\<lambda>_.
       returnk (Inl ())))))"

definition sh_main :: "unit user" where
  "sh_main =
     bindk (loopk sh_open_body ()) (\<lambda>_.
     bindk (loopk sh_body ()) (\<lambda>_.
     u_exit 0))"

section \<open>Words become strings\<close>

text \<open>The line with some of the bytes after words overwritten.\<close>

definition cut :: "ctext \<Rightarrow> ctext \<Rightarrow> bool" where
  "cut l b \<longleftrightarrow> length b = Suc (length l) \<and> b ! length l = 0 \<and> (\<forall>i < length l. wordc (l ! i) \<longrightarrow> b ! i = l ! i)"

definition ended :: "ctext \<Rightarrow> nat \<times> nat \<Rightarrow> bool" where
  "ended b w = (case w of (q, eq) \<Rightarrow> eq < length b \<and> b ! eq = 0)"

lemma cut_init: "cut l (l @ [0])"
  by (simp add: cut_def nth_append)

lemma cut_write:
  assumes "cut l b" "word_ok l (q, eq)"
  shows "cut l (b[eq := 0])" "ended (b[eq := 0]) (q, eq)" "ended b w \<Longrightarrow> ended (b[eq := 0]) w"
  using assms by (auto simp: cut_def word_ok_def ended_def nth_list_update split: prod.splits)

lemma nulterminate_words:
  "cut l b \<Longrightarrow> cmd_ok l c \<Longrightarrow> cut l (nulterminate c b) \<and> list_all (ended (nulterminate c b)) (words c) \<and>
     (\<forall>w. ended b w \<longrightarrow> ended (nulterminate c b) w)"
proof (induction c arbitrary: b)
  case (EXEC as)
  then show ?case
  proof (induction as arbitrary: b)
    case (Cons w as)
    obtain q eq where w: "w = (q, eq)" by force
    with Cons.prems have "word_ok l (q, eq)" "cmd_ok l (EXEC as)" by (auto simp: cmd_ok_def)
    with Cons.IH[of "b[eq := 0]"] cut_write[OF Cons.prems(1), of q eq] w show ?case by auto
  qed simp
next
  case (REDIR c f ef mode fd)
  then show ?case using cut_write[of l "nulterminate c b" f ef] by (auto simp: list_all_iff)
next
  case (PIPE c1 c2)
  then show ?case by (auto simp: list_all_iff)
next
  case (LIST c1 c2)
  then show ?case by (auto simp: list_all_iff)
qed auto

lemma cut_string:
  assumes "cut l b" "word_ok l (q, eq)" "ended b (q, eq)" "0 \<notin> set l"
  shows "str_at b q = take (eq - q) (drop q l)"
proof -
  let ?w = "take (eq - q) (drop q l)"
  have len: "q < eq" "eq \<le> length l" "length b = Suc (length l)" using assms(1,2) by (auto simp: cut_def word_ok_def)
  have "b ! i = l ! i" if "q \<le> i" "i < eq" for i
  proof -
    have "wordc (?w ! n)" if "n < length ?w" for n using assms(2) that by (auto simp: word_ok_def list_all_length)
    from this[of "i - q"] have "wordc (?w ! (i - q))" using that len by simp
    then show ?thesis using assms(1) that len by (simp add: cut_def)
  qed
  then have w: "take (eq - q) (drop q b) = ?w" using len by (intro nth_equalityI) auto
  have "drop (eq - q) (drop q b) = 0 # drop (Suc eq) b"
    using assms(3) len Cons_nth_drop_Suc[of eq b] by (simp add: ended_def)
  then have "drop q b = ?w @ 0 # drop (Suc eq) b" using w by (metis append_take_drop_id)
  moreover have "c \<noteq> 0" if "c \<in> set ?w" for c using assms(4) that by (metis in_set_dropD in_set_takeD)
  ultimately show ?thesis unfolding str_at_def by (simp add: takeWhile_append2)
qed

lemma parsed_words:
  assumes "parseline k l 0 = Got cmd p" "0 \<notin> set l" "(q, eq) \<in> set (words cmd)"
  shows "str_at (nulterminate cmd (l @ [0])) q = take (eq - q) (drop q l)" "word_ok l (q, eq)"
proof -
  let ?b = "nulterminate cmd (l @ [0])"
  have ok: "cmd_ok l cmd" using parse_good(1)[of 0 l k] assms(1) by (simp add: good_def)
  then show w: "word_ok l (q, eq)" using assms(3) by (auto simp: cmd_ok_def list_all_iff)
  have "cut l ?b" "ended ?b (q, eq)" using nulterminate_words[OF cut_init ok] assms(3) by (auto simp: list_all_iff)
  from cut_string[OF this(1) w this(2) assms(2)] show "str_at ?b q = take (eq - q) (drop q l)" .
qed

text \<open>
  When the shell has parsed a line, every argument and file name of the command is a string of its
  own: \<open>nulterminate\<close> has put a NUL after it and overwritten no byte of any other word. The string
  is the non-empty run of word bytes that the tokeniser found in the line.
\<close>

theorem parsecmd_words:
  assumes "parsecmd l s = Ok (cmd, b) s'" "0 \<notin> set l" "(q, eq) \<in> set (words cmd)"
  shows "str_at b q = take (eq - q) (drop q l) \<and> str_at b q \<noteq> [] \<and> list_all wordc (str_at b q) \<and> s' = s"
proof -
  obtain p where p: "parseline (4 * length l + 4) l 0 = Got cmd p" "b = nulterminate cmd (l @ [0])" "s' = s"
    using assms(1) by (auto simp: parsecmd_def sh_panic_def bindk_def u_exit_def returnk_def
      split: parsed.splits prod.splits if_splits res.splits)
  from parsed_words[OF p(1) assms(2,3)] p(2,3) show ?thesis by (auto simp: word_ok_def)
qed

text \<open>The line \<open>echo hi>f\<close>.\<close>

definition demo_line :: ctext where
  "demo_line = [101, 99, 104, 111, 32, 104, 105, 62, 102]"

lemma demo_parse: "parseline 40 demo_line 0 = Got (REDIR (EXEC [(0, 4), (5, 7)]) 8 9 1537 1) 9"
  by code_simp

lemma demo_parsecmd:
  "parsecmd demo_line s = Ok (REDIR (EXEC [(0, 4), (5, 7)]) 8 9 1537 1, [101, 99, 104, 111, 0, 104, 105, 0, 102, 0]) s"
proof -
  have "peek demo_line 9 [] = (False, 9)" "length demo_line = 9"
    "nulterminate (REDIR (EXEC [(0, 4), (5, 7)]) 8 9 1537 1) (demo_line @ [0]) = [101, 99, 104, 111, 0, 104, 105, 0, 102, 0]"
    by code_simp+
  then show ?thesis by (simp add: parsecmd_def demo_parse returnk_def)
qed

theorem parsecmd_words_witness:
  "\<exists>cmd b s'. parsecmd demo_line \<lparr>env = \<lambda>_. \<lparr>rv = 0, rbytes = [], rints = []\<rparr>, calls = []\<rparr> = Ok (cmd, b) s' \<and>
     (5, 7) \<in> set (words cmd) \<and> str_at b 5 = [104, 105]"
proof -
  have "0 \<notin> set demo_line" by code_simp
  from parsecmd_words[OF demo_parsecmd this, of 5 7] show ?thesis
    by (simp add: demo_parsecmd) (simp add: demo_line_def)
qed

section \<open>The interpreter does not return\<close>

lemma message_fits:
  "\<exists>x. vprintf_text False (txt_bytes ''%s'' @ [10]) [ArgStr t] = Some x"
  "\<exists>x. vprintf_text False (txt_bytes ''exec %s failed'' @ [10]) [ArgStr t] = Some x"
  "\<exists>x. vprintf_text False (txt_bytes ''open %s failed'' @ [10]) [ArgStr t] = Some x"
  by (simp_all add: txt_bytes_def vprintf_conv_def)

lemma ends_panic: "ends (sh_panic m)"
  unfolding sh_panic_def by (intro ends_after steady_fprintf message_fits ends_exit)

lemma steady_fork1: "steady fork1"
  unfolding fork1_def by (intro steady_bind steady_sys) (simp add: ends_panic steady_ends steady_return)

lemmas run_rules = ends_exit ends_panic ends_after steady_sys steady_fork1 steady_when steady_bind

text \<open>
  \<open>runcmd\<close> never returns, as its callers expect: whatever the system calls answer, the process exits
  or becomes another program.
\<close>

theorem runcmd_never_returns: "\<exists>e s'. runcmd b cmd s = Sleeps e s'"
proof -
  have "ends (runcmd b cmd)"
  proof (induction cmd)
    case (EXEC as)
    show ?case by (auto simp: Let_def intro!: run_rules steady_fprintf message_fits)
  next
    case (REDIR c f ef mode fd)
    then show ?case by (auto intro!: run_rules steady_fprintf message_fits intro: steady_ends)
  qed (auto simp: Let_def intro!: run_rules intro: steady_ends)
  then show ?thesis by (simp add: ends_def)
qed

end
