(* ===== verification/Shround.thy ===== *)
theory Shround
  imports Sh
begin

text \<open>
  Printing a command line and parsing it back. An abstract command has its words as strings; the
  printer writes a line for it, with parentheses where the grammar of the shell needs them. The
  parser of user/sh.c gives back the command that was printed, for every command.
\<close>

section \<open>Abstract commands\<close>

text \<open>\<open>ARedir c mode fd file\<close> has the open mode and the descriptor of the redirection.\<close>

datatype ast =
    AExec "ctext list"
  | ARedir ast int int ctext
  | APipe ast ast
  | AList ast ast
  | ABack ast

text \<open>The command that \<open>runcmd\<close> sees: words are the C strings in the line that \<open>nulterminate\<close> has cut.\<close>

primrec command :: "ctext \<Rightarrow> scmd \<Rightarrow> ast" where
  "command b (EXEC as) = AExec (map (\<lambda>(q, eq). str_at b q) as)"
| "command b (REDIR c f ef mode fd) = ARedir (command b c) mode fd (str_at b f)"
| "command b (PIPE l r) = APipe (command b l) (command b r)"
| "command b (LIST l r) = AList (command b l) (command b r)"
| "command b (BACK c) = ABack (command b c)"

text \<open>The same with the words as they are in the line before.\<close>

definition piece :: "ctext \<Rightarrow> nat \<times> nat \<Rightarrow> ctext" where
  "piece l w = (case w of (q, eq) \<Rightarrow> take (eq - q) (drop q l))"

primrec view :: "ctext \<Rightarrow> scmd \<Rightarrow> ast" where
  "view l (EXEC as) = AExec (map (piece l) as)"
| "view l (REDIR c f ef mode fd) = ARedir (view l c) mode fd (piece l (f, ef))"
| "view l (PIPE a b) = APipe (view l a) (view l b)"
| "view l (LIST a b) = AList (view l a) (view l b)"
| "view l (BACK c) = ABack (view l c)"

section \<open>The printer\<close>

definition redir_sym :: "int \<Rightarrow> ctext" where
  "redir_sym mode = (if mode = 0 then [60] else if mode = 1537 then [62] else [62, 62])"

definition paren :: "bool \<Rightarrow> ctext \<Rightarrow> ctext" where
  "paren b t = (if b then 40 # t @ [41] else t)"

text \<open>Levels: 0 a line, 1 a line without \<open>;\<close>, 2 a pipeline, 3 a single command.\<close>

primrec show_cmd :: "ast \<Rightarrow> nat \<Rightarrow> ctext" where
  "show_cmd (AExec ws) n = concat (map (\<lambda>w. w @ [32]) ws)"
| "show_cmd (ARedir c mode fd f) n = show_cmd c 3 @ redir_sym mode @ f @ [32]"
| "show_cmd (APipe a b) n = paren (2 < n) (show_cmd a 3 @ 124 # show_cmd b 2)"
| "show_cmd (AList a b) n = paren (0 < n) (show_cmd a 1 @ 59 # show_cmd b 0)"
| "show_cmd (ABack a) n = paren (1 < n) (show_cmd a 1 @ [38])"

definition word_text :: "ctext \<Rightarrow> bool" where
  "word_text w \<longleftrightarrow> w \<noteq> [] \<and> list_all wordc w \<and> 0 \<notin> set w"

definition redir_ok :: "int \<Rightarrow> int \<Rightarrow> bool" where
  "redir_ok mode fd \<longleftrightarrow> (mode, fd) \<in> {(0, 0), (1537, 1), (513, 1)}"

text \<open>The commands of the shell: at most nine words, which have no white space, symbol or NUL, and the three kinds of redirection.\<close>

primrec shell_cmd :: "ast \<Rightarrow> bool" where
  "shell_cmd (AExec ws) \<longleftrightarrow> list_all word_text ws \<and> length ws < MAXARGS"
| "shell_cmd (ARedir c mode fd f) \<longleftrightarrow> shell_cmd c \<and> redir_ok mode fd \<and> word_text f"
| "shell_cmd (APipe a b) \<longleftrightarrow> shell_cmd a \<and> shell_cmd b"
| "shell_cmd (AList a b) \<longleftrightarrow> shell_cmd a \<and> shell_cmd b"
| "shell_cmd (ABack a) \<longleftrightarrow> shell_cmd a"

section \<open>Tokens of a printed line\<close>

definition rest :: "ctext \<Rightarrow> nat \<Rightarrow> ctext \<Rightarrow> bool" where
  "rest l s t \<longleftrightarrow> s \<le> length l \<and> drop s l = t"

definition tight :: "ctext \<Rightarrow> bool" where
  "tight t \<longleftrightarrow> t = [] \<or> hd t \<notin> set whitespace"

lemma rest_iff: "rest l s t \<longleftrightarrow> (\<exists>pre. l = pre @ t \<and> length pre = s)"
proof
  assume "rest l s t"
  then show "\<exists>pre. l = pre @ t \<and> length pre = s"
    by (intro exI[of _ "take s l"]) (auto simp: rest_def)
qed (auto simp: rest_def)

lemma rest_append: "rest l s (xs @ t) \<Longrightarrow> rest l (s + length xs) t"
  unfolding rest_iff by (metis append_assoc length_append)

lemma rest_Cons: "rest l s (c # t) \<Longrightarrow> rest l (s + 1) t"
  using rest_append[of l s "[c]" t] by simp

lemma rest_byte: "rest l s (c # t) \<Longrightarrow> byte_at l s = c \<and> s < length l" "rest l s [] \<Longrightarrow> byte_at l s = 0 \<and> s = length l"
  by (auto simp: rest_iff byte_at_def)

lemma skip_space_tight:
  assumes "rest l s t" "tight t"
  shows "skip_space l s = s"
proof (cases t)
  case Nil
  then show ?thesis using rest_byte(2)[of l s] assms(1) by (subst skip_space.simps) simp
next
  case (Cons c t')
  then show ?thesis using rest_byte(1)[of l s c t'] assms by (subst skip_space.simps) (simp add: tight_def)
qed

lemma peek_tight:
  assumes "rest l s t" "tight t"
  shows "peek l s toks = (t \<noteq> [] \<and> hd t \<noteq> 0 \<and> hd t \<in> set toks, s)"
  using assms rest_byte[of l s] by (cases t) (auto simp: peek_def skip_space_tight Let_def)

lemma skip_word_text:
  "rest l s (w @ t) \<Longrightarrow> list_all wordc w \<Longrightarrow> t = [] \<or> \<not> wordc (hd t) \<Longrightarrow> skip_word l s = s + length w"
proof (induction w arbitrary: s)
  case Nil
  then show ?case
    using rest_byte(1)[of l s "hd t" "tl t"] rest_byte(2)[of l s]
    by (cases t; subst skip_word.simps) (auto simp: wordc_def)
next
  case (Cons c w)
  have "skip_word l (s + 1) = s + 1 + length w" using Cons.IH[of "s + 1"] Cons.prems rest_Cons[of l s c "w @ t"] by simp
  then show ?case using rest_byte(1)[of l s c "w @ t"] Cons.prems by (subst skip_word.simps) (simp add: wordc_def)
qed

lemma wordc_space: "\<not> wordc 32"
  by (simp add: wordc_def whitespace_def)

lemma gettoken_symbol:
  assumes "rest l s (c # t)" "tight t" "c \<in> {124, 40, 41, 59, 38, 60}"
  shows "gettoken l s = (c, s, s + 1, s + 1)" "rest l (s + 1) t"
proof -
  have "tight (c # t)" using assms(3) by (auto simp: tight_def whitespace_def)
  then show "gettoken l s = (c, s, s + 1, s + 1)"
    using assms rest_byte(1)[OF assms(1)] skip_space_tight[OF assms(1)] skip_space_tight[OF rest_Cons[OF assms(1)] assms(2)]
    by (auto simp: gettoken_def Let_def)
  show "rest l (s + 1) t" using rest_Cons[OF assms(1)] .
qed

lemma gettoken_gt:
  assumes "rest l s (62 # t)" "tight t" "t = [] \<or> hd t \<noteq> 62"
  shows "gettoken l s = (62, s, s + 1, s + 1)"
proof -
  have "tight (62 # t)" by (simp add: tight_def whitespace_def)
  moreover have "byte_at l (s + 1) \<noteq> 62"
    using assms(3) rest_byte[of l "s + 1"] rest_Cons[OF assms(1)] by (cases t) auto
  ultimately show ?thesis
    using rest_byte(1)[OF assms(1)] skip_space_tight[OF assms(1)] skip_space_tight[OF rest_Cons[OF assms(1)] assms(2)]
    by (simp add: gettoken_def Let_def)
qed

lemma gettoken_app:
  assumes "rest l s (62 # 62 # t)" "tight t"
  shows "gettoken l s = (43, s, s + 2, s + 2)"
proof -
  have "tight (62 # 62 # t)" by (simp add: tight_def whitespace_def)
  moreover have "byte_at l (s + 1) = 62" using rest_byte(1)[OF rest_Cons[OF assms(1)]] by simp
  moreover have "skip_space l (s + 2) = s + 2"
    using skip_space_tight[OF rest_append[of l s "[62, 62]" t] assms(2)] assms(1) by simp
  ultimately show ?thesis
    using rest_byte(1)[OF assms(1)] skip_space_tight[OF assms(1)] by (simp add: gettoken_def Let_def)
qed

lemma gettoken_word:
  assumes "rest l s (w @ 32 # t)" "tight t" "word_text w"
  shows "gettoken l s = (97, s, s + length w, s + length w + 1)" "rest l (s + length w + 1) t" "piece l (s, s + length w) = w"
proof -
  obtain c w' where w: "w = c # w'" "wordc c" "c \<noteq> 0" using assms(3) by (cases w) (auto simp: word_text_def)
  have "tight (w @ 32 # t)" using w by (simp add: tight_def wordc_def)
  then have s: "skip_space l s = s" using skip_space_tight assms(1) by blast
  have 1: "skip_word l s = s + length w" using skip_word_text[OF assms(1)] assms(3) wordc_space by (simp add: word_text_def)
  have r: "rest l (s + length w) (32 # t)" using rest_append[OF assms(1)] .
  show "rest l (s + length w + 1) t" using rest_Cons[OF r] by simp
  then have "skip_space l (s + length w + 1) = s + length w + 1" using skip_space_tight assms(2) by blast
  then have "skip_space l (s + length w) = s + length w + 1"
    using rest_byte(1)[OF r] by (subst skip_space.simps) (simp add: whitespace_def)
  moreover have "byte_at l s = c" using rest_byte(1)[of l s c "w' @ 32 # t"] assms(1) w(1) by simp
  moreover have "c \<notin> {0, 124, 40, 41, 59, 38, 60, 62}" using w by (auto simp: wordc_def symbols_def)
  ultimately show "gettoken l s = (97, s, s + length w, s + length w + 1)"
    using s 1 by (simp add: gettoken_def Let_def)
  show "piece l (s, s + length w) = w" using assms(1) by (auto simp: piece_def rest_def)
qed

lemma gettoken_end: "rest l s [] \<Longrightarrow> gettoken l s = (0, s, s, s)"
  using rest_byte(2)[of l s] skip_space_tight[of l s "[]"] by (auto simp: gettoken_def Let_def tight_def byte_at_def)

section \<open>Parsing a printed command\<close>

type_synonym redir = "int \<times> int \<times> ctext"

definition show_redirs :: "redir list \<Rightarrow> ctext" where
  "show_redirs rs = concat (map (\<lambda>(mode, fd, f). redir_sym mode @ f @ [32]) rs)"

definition redirs_ok :: "redir list \<Rightarrow> bool" where
  "redirs_ok rs = list_all (\<lambda>(mode, fd, f). redir_ok mode fd \<and> word_text f) rs"

definition add_redirs :: "ast \<Rightarrow> redir list \<Rightarrow> ast" where
  "add_redirs c rs = foldl (\<lambda>c (mode, fd, f). ARedir c mode fd f) c rs"

text \<open>What follows a command: the end of the line or one of some symbols.\<close>

definition follow :: "u8 set \<Rightarrow> ctext \<Rightarrow> bool" where
  "follow F t \<longleftrightarrow> t = [] \<or> hd t \<in> F"

abbreviation "exec_end \<equiv> {124, 41, 38, 59}"

lemma follow_tight: "follow exec_end t \<Longrightarrow> tight t"
  by (auto simp: follow_def tight_def whitespace_def)

lemma redirs_simps [simp]:
  "show_redirs [] = []" "show_redirs ((m, fd, f) # rs) = redir_sym m @ f @ 32 # show_redirs rs"
  "redirs_ok []" "redirs_ok ((m, fd, f) # rs) \<longleftrightarrow> redir_ok m fd \<and> word_text f \<and> redirs_ok rs"
  "add_redirs c [] = c" "add_redirs c ((m, fd, f) # rs) = add_redirs (ARedir c m fd f) rs"
  by (simp_all add: show_redirs_def redirs_ok_def add_redirs_def)

lemma redir_head: "redir_sym m \<noteq> []" "hd (redir_sym m) \<in> {60, 62}"
  by (auto simp: redir_sym_def)

lemma redir_not_paren: "hd (redir_sym m) \<noteq> 40"
  by (simp add: redir_sym_def)

lemma tight_redir_sym: "tight (redir_sym m @ t)"
  by (simp add: tight_def redir_sym_def whitespace_def)

lemma tight_redirs: "tight t \<Longrightarrow> tight (show_redirs rs @ t)"
  by (cases rs) (auto simp: tight_redir_sym)

lemma word_text_head: "word_text w \<Longrightarrow> w \<noteq> [] \<and> wordc (hd w) \<and> hd w \<noteq> 0"
  by (cases w) (auto simp: word_text_def)

lemma tight_word: "word_text w \<Longrightarrow> tight (w @ t)"
  using word_text_head[of w] by (auto simp: tight_def wordc_def)

lemma redir_tokens:
  assumes "rest l s (redir_sym m @ f @ 32 # t)" "redir_ok m fd" "word_text f" "tight t"
  obtains tok q eq s1 s2 q2 where "peek l s [60, 62] = (True, s)" "gettoken l s = (tok, q, eq, s1)"
    "gettoken l s1 = (97, q2, q2 + length f, s2)" "rest l s2 t" "piece l (q2, q2 + length f) = f"
    "tok = 60 \<and> m = 0 \<and> fd = 0 \<or> tok = 62 \<and> m = 1537 \<and> fd = 1 \<or> tok = 43 \<and> m = 513 \<and> fd = 1"
proof -
  let ?t = "f @ 32 # t"
  have tf: "tight ?t" "hd ?t \<noteq> 62" "?t \<noteq> []"
    using tight_word[OF assms(3)] word_text_head[OF assms(3)] by (auto simp: wordc_def symbols_def)
  from peek_tight[OF assms(1) tight_redir_sym] have pk: "peek l s [60, 62] = (True, s)" by (simp add: redir_sym_def)
  have r: "rest l (s + length (redir_sym m)) ?t" using rest_append[OF assms(1)] .
  obtain tok q eq where "gettoken l s = (tok, q, eq, s + length (redir_sym m))"
    "tok = 60 \<and> m = 0 \<and> fd = 0 \<or> tok = 62 \<and> m = 1537 \<and> fd = 1 \<or> tok = 43 \<and> m = 513 \<and> fd = 1"
  proof -
    consider "m = 0 \<and> fd = 0" | "m = 1537 \<and> fd = 1" | "m = 513 \<and> fd = 1" using assms(2) by (auto simp: redir_ok_def)
    then show ?thesis
    proof cases
      case 1
      then show ?thesis using that[of 60 s "s + 1"] gettoken_symbol(1)[of l s 60 ?t] assms(1) tf(1) by (simp add: redir_sym_def)
    next
      case 2
      then show ?thesis using that[of 62 s "s + 1"] gettoken_gt[of l s ?t] assms(1) tf by (simp add: redir_sym_def)
    next
      case 3
      then show ?thesis using that[of 43 s "s + 2"] gettoken_app[of l s ?t] assms(1) tf(1) by (simp add: redir_sym_def)
    qed
  qed
  with pk gettoken_word[OF r assms(4,3)] show ?thesis by (rule_tac that)
qed

lemma parseredirs_none:
  assumes "rest l s t" "tight t" "t = [] \<or> hd t \<notin> {60, 62}"
  shows "parseredirs cmd l s = Got cmd s"
  using peek_tight[OF assms(1,2), of "[60, 62]"] assms(3) by (auto simp: parseredirs.simps[of cmd l s])

lemma parseredirs_show:
  "rest l s (show_redirs rs @ t) \<Longrightarrow> redirs_ok rs \<Longrightarrow> follow exec_end t \<Longrightarrow>
     \<exists>cmd' s'. parseredirs cmd l s = Got cmd' s' \<and> rest l s' t \<and> view l cmd' = add_redirs (view l cmd) rs"
proof (induction rs arbitrary: cmd s)
  case Nil
  then show ?case using parseredirs_none[of l s t cmd] follow_tight[of t] by (auto simp: follow_def)
next
  case (Cons r rs)
  obtain m fd f where r: "r = (m, fd, f)" by (cases r)
  have tt: "tight (show_redirs rs @ t)" using tight_redirs follow_tight Cons.prems(3) by blast
  obtain tok q eq s1 s2 q2 where tk: "peek l s [60, 62] = (True, s)" "gettoken l s = (tok, q, eq, s1)"
    "gettoken l s1 = (97, q2, q2 + length f, s2)" "rest l s2 (show_redirs rs @ t)" "piece l (q2, q2 + length f) = f"
    "tok = 60 \<and> m = 0 \<and> fd = 0 \<or> tok = 62 \<and> m = 1537 \<and> fd = 1 \<or> tok = 43 \<and> m = 513 \<and> fd = 1"
  proof (rule redir_tokens[of l s m f "show_redirs rs @ t" fd])
    show "rest l s (redir_sym m @ f @ 32 # show_redirs rs @ t)" "redir_ok m fd" "word_text f" using Cons.prems r by auto
  qed (use tt that in auto)
  then have "parseredirs cmd l s = parseredirs (REDIR cmd q2 (q2 + length f) m fd) l s2"
    by (auto simp: parseredirs.simps[of cmd l s])
  with Cons.IH[OF tk(4), of "REDIR cmd q2 (q2 + length f) m fd"] Cons.prems r tk(5) show ?case by simp
qed

text \<open>A parser with enough fuel.\<close>

definition reaches :: "(nat \<Rightarrow> 'a parsed) \<Rightarrow> 'a parsed \<Rightarrow> bool" where
  "reaches f r \<longleftrightarrow> (\<exists>k0. \<forall>k \<ge> k0. f k = r)"

lemma reaches_const: "reaches (\<lambda>k. r) r"
  by (simp add: reaches_def)

lemma reaches_Suc:
  assumes "reaches (\<lambda>k. f (Suc k)) r"
  shows "reaches f r"
proof -
  obtain k0 where "\<forall>k \<ge> k0. f (Suc k) = r" using assms by (auto simp: reaches_def)
  then have "f k = r" if "k \<ge> Suc k0" for k using that by (cases k) auto
  then show ?thesis by (auto simp: reaches_def)
qed

lemma reaches_pbind:
  assumes "reaches f (Got x s)" "reaches (\<lambda>k. g k x s) r"
  shows "reaches (\<lambda>k. pbind (f k) (g k)) r"
proof -
  obtain k1 k2 where "\<forall>k \<ge> k1. f k = Got x s" "\<forall>k \<ge> k2. g k x s = r" using assms by (auto simp: reaches_def)
  then have "\<forall>k \<ge> max k1 k2. pbind (f k) (g k) = r" by (simp add: pbind_def)
  then show ?thesis unfolding reaches_def by blast
qed

abbreviation "show_words ws \<equiv> concat (map (\<lambda>w. w @ [32]) ws)"

lemma parseargs_end:
  assumes "rest l s t" "follow exec_end t"
  shows "parseargs cmd n l s = Got cmd s"
proof (cases t)
  case Nil
  then show ?thesis
    using assms peek_tight[of l s t "[124, 41, 38, 59]"] gettoken_end[of l s]
    by (simp add: parseargs.simps[of cmd n l s] tight_def)
next
  case (Cons c t')
  then show ?thesis
    using assms peek_tight[OF assms(1) follow_tight[OF assms(2)], of "[124, 41, 38, 59]"]
    by (auto simp: parseargs.simps[of cmd n l s] follow_def)
qed

lemma parseargs_show:
  "rest l s (show_words ws @ show_redirs rs @ t) \<Longrightarrow> list_all word_text ws \<Longrightarrow> redirs_ok rs \<Longrightarrow> follow exec_end t \<Longrightarrow>
   n + length ws < MAXARGS \<Longrightarrow> ws \<noteq> [] \<or> rs = [] \<Longrightarrow>
   \<exists>cmd s'. parseargs (EXEC as) n l s = Got cmd s' \<and> rest l s' t \<and>
     view l cmd = add_redirs (AExec (map (piece l) as @ ws)) rs"
proof (induction ws arbitrary: as n s)
  case Nil
  then show ?case using parseargs_end[of l s t "EXEC as" n] by auto
next
  case (Cons w ws)
  let ?more = "show_words ws @ show_redirs rs @ t"
  let ?q = "(s, s + length w)"
  have w: "word_text w" using Cons.prems by simp
  have "tight ?more"
    using tight_redirs[OF follow_tight[OF Cons.prems(4)]] Cons.prems(2) tight_word by (cases ws) auto
  with Cons.prems(1) gettoken_word[of l s w ?more] w
  have tk: "gettoken l s = (97, s, s + length w, s + length w + 1)" "rest l (s + length w + 1) ?more" "piece l ?q = w"
    by simp_all
  have "peek l s [124, 41, 38, 59] = (False, s)"
    using peek_tight[of l s "w @ 32 # ?more"] Cons.prems(1) tight_word[OF w] word_text_head[OF w]
    by (auto simp: wordc_def symbols_def)
  then have step: "parseargs (EXEC as) n l s = (case parseredirs (EXEC (as @ [?q])) l (s + length w + 1) of
      Got ret s3 \<Rightarrow> parseargs ret (n + 1) l s3 | Bad e \<Rightarrow> Bad e | Fuel \<Rightarrow> Fuel)"
    using tk(1) Cons.prems(5) by (simp add: parseargs.simps[of "EXEC as" n l s])
  show ?case
  proof (cases ws)
    case Nil
    then obtain cmd s' where "parseredirs (EXEC (as @ [?q])) l (s + length w + 1) = Got cmd s'" "rest l s' t"
      "view l cmd = add_redirs (view l (EXEC (as @ [?q]))) rs"
      using parseredirs_show[of l "s + length w + 1" rs t "EXEC (as @ [?q])"] tk(2) Cons.prems(3,4) by auto
    with step parseargs_end[of l s' t cmd "n + 1"] Cons.prems(4) tk(3) Nil show ?thesis by simp
  next
    case (Cons v vs)
    then have "parseredirs (EXEC (as @ [?q])) l (s + length w + 1) = Got (EXEC (as @ [?q])) (s + length w + 1)"
      using tk(2) word_text_head[of v] tight_word[of v] Cons.prems(2) \<open>tight ?more\<close>
      by (intro parseredirs_none) (auto simp: wordc_def symbols_def)
    with step Cons.IH[OF tk(2), of "n + 1" "as @ [?q]"] Cons Cons.prems tk(3) show ?thesis by simp
  qed
qed

text \<open>What each of the parsers does on a command printed at its level.\<close>

definition reads_exec :: "ast \<Rightarrow> bool" where
  "reads_exec c \<longleftrightarrow> (\<forall>l s rs t. rest l s (show_cmd c 3 @ show_redirs rs @ t) \<longrightarrow> redirs_ok rs \<longrightarrow> follow exec_end t \<longrightarrow>
     (\<exists>cmd s'. reaches (\<lambda>k. parseexec k l s) (Got cmd s') \<and> rest l s' t \<and> view l cmd = add_redirs c rs))"

definition reads_pipe :: "ast \<Rightarrow> bool" where
  "reads_pipe c \<longleftrightarrow> (\<forall>l s t. rest l s (show_cmd c 2 @ t) \<longrightarrow> follow {41, 38, 59} t \<longrightarrow>
     (\<exists>cmd s'. reaches (\<lambda>k. parsepipe k l s) (Got cmd s') \<and> rest l s' t \<and> view l cmd = c))"

definition reads_back :: "ast \<Rightarrow> bool" where
  "reads_back c \<longleftrightarrow> (\<forall>l s n t. rest l s (show_cmd c 1 @ replicate n 38 @ t) \<longrightarrow> follow {41, 59} t \<longrightarrow>
     (\<exists>cmd0 s0 cmd s'. reaches (\<lambda>k. parsepipe k l s) (Got cmd0 s0) \<and> parsebacks cmd0 l s0 = (cmd, s') \<and> rest l s' t \<and>
       view l cmd = (ABack ^^ n) c))"

definition reads_line :: "ast \<Rightarrow> bool" where
  "reads_line c \<longleftrightarrow> (\<forall>l s t. rest l s (show_cmd c 0 @ t) \<longrightarrow> follow {41} t \<longrightarrow>
     (\<exists>cmd s'. reaches (\<lambda>k. parseline k l s) (Got cmd s') \<and> rest l s' t \<and> view l cmd = c))"

lemma follow_sub: "follow F t \<Longrightarrow> F \<subseteq> G \<Longrightarrow> follow G t"
  by (auto simp: follow_def)

lemma tight_symbol: "c \<in> {40, 41, 124, 38, 59} \<Longrightarrow> tight (c # t)"
  by (auto simp: tight_def whitespace_def)

lemma tight_show: "shell_cmd c \<Longrightarrow> tight t \<Longrightarrow> tight (show_cmd c n @ t)"
proof (induction c arbitrary: n t)
  case (AExec ws)
  then show ?case using tight_word by (cases ws) auto
next
  case (ARedir c m fd f)
  then show ?case using tight_redir_sym by simp
qed (auto simp: paren_def tight_symbol)

text \<open>A command that the level below prints in the same way.\<close>

lemma reads_pipe_up:
  assumes "reads_exec c" "show_cmd c 2 = show_cmd c 3"
  shows "reads_pipe c"
  unfolding reads_pipe_def
proof (intro allI impI)
  fix l s t
  assume r: "rest l s (show_cmd c 2 @ t)" and f: "follow {41, 38, 59} t"
  obtain cmd s' where c: "reaches (\<lambda>k. parseexec k l s) (Got cmd s')" "rest l s' t" "view l cmd = add_redirs c []"
    using assms(1)[unfolded reads_exec_def, rule_format, of l s "[]" t] assms(2) r follow_sub[OF f, of exec_end] by auto
  have "peek l s' [124] = (False, s')"
    using peek_tight[OF c(2) follow_tight, of "[124]"] f by (auto simp: follow_def)
  then have "reaches (\<lambda>k. parsepipe (Suc k) l s) (Got cmd s')"
    unfolding parsepipe.simps by (intro reaches_pbind[OF c(1)]) (simp add: reaches_const)
  then have "reaches (\<lambda>k. parsepipe k l s) (Got cmd s')" by (rule reaches_Suc)
  with c show "\<exists>cmd s'. reaches (\<lambda>k. parsepipe k l s) (Got cmd s') \<and> rest l s' t \<and> view l cmd = c" by auto
qed

lemma parsebacks_show:
  "rest l s (replicate n 38 @ t) \<Longrightarrow> follow {41, 59} t \<Longrightarrow>
     \<exists>cmd' s'. parsebacks cmd l s = (cmd', s') \<and> rest l s' t \<and> view l cmd' = (ABack ^^ n) (view l cmd)"
proof (induction n arbitrary: cmd s)
  case 0
  then show ?case
    using peek_tight[of l s t "[38]"] follow_tight[of t] by (auto simp: parsebacks.simps[of cmd l s] follow_def)
next
  case (Suc n)
  let ?t = "replicate n 38 @ t"
  have tt: "tight ?t" "tight (38 # ?t)"
    using Suc.prems(2) by (cases n; auto simp: tight_def follow_def whitespace_def)+
  have r: "rest l s (38 # ?t)" using Suc.prems(1) by simp
  have "parsebacks cmd l s = parsebacks (BACK cmd) l (s + 1)"
    using peek_tight[OF r tt(2), of "[38]"] gettoken_symbol(1)[OF r tt(1)] by (simp add: parsebacks.simps[of cmd l s])
  with Suc.IH[of "s + 1" "BACK cmd"] gettoken_symbol(2)[OF r tt(1)] Suc.prems(2) show ?case
    by (simp add: funpow_swap1)
qed

lemma reads_back_up:
  assumes "reads_pipe c" "show_cmd c 1 = show_cmd c 2"
  shows "reads_back c"
  unfolding reads_back_def
proof (intro allI impI)
  fix l s n t
  assume r: "rest l s (show_cmd c 1 @ replicate n 38 @ t)" and f: "follow {41, 59} t"
  have "follow {41, 38, 59} (replicate n 38 @ t)" using f by (cases n) (auto simp: follow_def)
  then obtain cmd s' where c: "reaches (\<lambda>k. parsepipe k l s) (Got cmd s')" "rest l s' (replicate n 38 @ t)" "view l cmd = c"
    using assms(1)[unfolded reads_pipe_def, rule_format, of l s "replicate n 38 @ t"] assms(2) r by auto
  obtain cmd' s'' where "parsebacks cmd l s' = (cmd', s'')" "rest l s'' t" "view l cmd' = (ABack ^^ n) c"
    using parsebacks_show[OF c(2) f, of cmd] c(3) by auto
  with c(1) show "\<exists>cmd0 s0 cmd s'. reaches (\<lambda>k. parsepipe k l s) (Got cmd0 s0) \<and> parsebacks cmd0 l s0 = (cmd, s') \<and> rest l s' t \<and>
       view l cmd = (ABack ^^ n) c" by blast
qed

lemma reads_line_up:
  assumes "reads_back c" "show_cmd c 0 = show_cmd c 1"
  shows "reads_line c"
  unfolding reads_line_def
proof (intro allI impI)
  fix l s t
  assume r: "rest l s (show_cmd c 0 @ t)" and f: "follow {41} t"
  obtain cmd0 s0 cmd s' where c: "reaches (\<lambda>k. parsepipe k l s) (Got cmd0 s0)" "parsebacks cmd0 l s0 = (cmd, s')"
    "rest l s' t" "view l cmd = c"
    using assms(1)[unfolded reads_back_def, rule_format, of l s 0 t] assms(2) r follow_sub[OF f, of "{41, 59}"] by auto
  have "tight t" using f by (auto simp: follow_def tight_def whitespace_def)
  then have "peek l s' [59] = (False, s')" using peek_tight[OF c(3), of "[59]"] f by (auto simp: follow_def)
  then have "reaches (\<lambda>k. parseline (Suc k) l s) (Got cmd s')"
    unfolding parseline.simps by (intro reaches_pbind[OF c(1)]) (simp add: c(2) reaches_const)
  with c(3,4) show "\<exists>cmd s'. reaches (\<lambda>k. parseline k l s) (Got cmd s') \<and> rest l s' t \<and> view l cmd = c"
    using reaches_Suc[of "\<lambda>k. parseline k l s"] by blast
qed

text \<open>A command in parentheses.\<close>

lemma reads_exec_paren:
  assumes "reads_line c" "show_cmd c 3 = 40 # show_cmd c 0 @ [41]" "shell_cmd c"
  shows "reads_exec c"
  unfolding reads_exec_def
proof (intro allI impI)
  fix l s rs t
  assume r: "rest l s (show_cmd c 3 @ show_redirs rs @ t)" and rs: "redirs_ok rs" and f: "follow exec_end t"
  let ?t1 = "41 # show_redirs rs @ t"
  have t1: "tight (show_cmd c 0 @ ?t1)" using tight_show[OF assms(3)] tight_symbol by blast
  have t2: "tight (show_redirs rs @ t)" using tight_redirs follow_tight f by blast
  have r0: "rest l s (40 # show_cmd c 0 @ ?t1)" using r assms(2) by simp
  note open_tok = gettoken_symbol[OF r0 t1, simplified]
  have pk: "peek l s [40] = (True, s)" using peek_tight[OF r0, of "[40]"] tight_symbol by simp
  obtain cmd s1 where c: "reaches (\<lambda>k. parseline k l (s + 1)) (Got cmd s1)" "rest l s1 ?t1" "view l cmd = c"
    using assms(1)[unfolded reads_line_def, rule_format, of l "s + 1" ?t1] open_tok(2) by (auto simp: follow_def)
  note close_tok = gettoken_symbol[OF c(2) t2, simplified]
  have pk1: "peek l s1 [41] = (True, s1)" using peek_tight[OF c(2), of "[41]"] tight_symbol by simp
  obtain cmd' s' where e: "parseredirs cmd l (s1 + 1) = Got cmd' s'" "rest l s' t" "view l cmd' = add_redirs c rs"
    using parseredirs_show[of l "s1 + 1" rs t cmd] close_tok(2) rs f c(3) by auto
  have "reaches (\<lambda>k. pbind (parseline k l (s + 1)) (\<lambda>cmd s.
          (case peek l s [41] of
             (False, _) \<Rightarrow> Bad ''syntax - missing )''
           | (True, s) \<Rightarrow> (case gettoken l s of (_, _, _, s) \<Rightarrow> parseredirs cmd l s)))) (Got cmd' s')"
    by (intro reaches_pbind[OF c(1)]) (use e(1) in \<open>simp add: pk1 close_tok(1) reaches_const\<close>)
  then have "reaches (\<lambda>k. parseblock (Suc k) l s) (Got cmd' s')" using pk open_tok(1) by simp
  then have "reaches (\<lambda>k. parseexec (Suc k) l s) (Got cmd' s')" using pk reaches_Suc[of "\<lambda>k. parseblock k l s"] by simp
  with e(2,3) show "\<exists>cmd s'. reaches (\<lambda>k. parseexec k l s) (Got cmd s') \<and> rest l s' t \<and> view l cmd = add_redirs c rs"
    using reaches_Suc[of "\<lambda>k. parseexec k l s"] by blast
qed

lemma reads_exec_words:
  assumes "shell_cmd (AExec ws)"
  shows "reads_exec (AExec ws)"
  unfolding reads_exec_def
proof (intro allI impI)
  fix l s rs t
  assume r: "rest l s (show_cmd (AExec ws) 3 @ show_redirs rs @ t)" and rs: "redirs_ok rs" and f: "follow exec_end t"
  have ws: "list_all word_text ws" "0 + length ws < MAXARGS" using assms by auto
  have tt: "tight (show_cmd (AExec ws) 3 @ show_redirs rs @ t)"
    using tight_show[OF assms] tight_redirs follow_tight f by blast
  from peek_tight[OF r tt, of "[40]"] have pk: "peek l s [40] = (False, s)"
    using ws(1) f word_text_head[of "hd ws"]
    by (cases ws; cases rs) (auto simp: follow_def wordc_def symbols_def redir_head(1) redir_not_paren)
  obtain cmd s' where c: "pbind (parseredirs execcmd l s) (\<lambda>ret s. parseargs ret 0 l s) = Got cmd s'" "rest l s' t"
    "view l cmd = add_redirs (AExec ws) rs"
  proof (cases ws)
    case Nil
    then obtain cmd s' where "parseredirs execcmd l s = Got cmd s'" "rest l s' t" "view l cmd = add_redirs (AExec []) rs"
      using parseredirs_show[of l s rs t execcmd] r rs f by auto
    with that[of cmd s'] parseargs_end[of l s' t cmd 0] f Nil show ?thesis by (simp add: pbind_def)
  next
    case (Cons w ws')
    then have "parseredirs execcmd l s = Got execcmd s"
      using parseredirs_none[OF r tt] ws(1) word_text_head[of w] by (auto simp: wordc_def symbols_def)
    with that parseargs_show[of l s ws rs t 0 "[]"] r ws rs f Cons show ?thesis by (auto simp: pbind_def)
  qed
  then have "reaches (\<lambda>k. parseexec (Suc k) l s) (Got cmd s')" using pk by (simp add: reaches_const)
  then have "reaches (\<lambda>k. parseexec k l s) (Got cmd s')" by (rule reaches_Suc)
  with c(2,3) show "\<exists>cmd s'. reaches (\<lambda>k. parseexec k l s) (Got cmd s') \<and> rest l s' t \<and> view l cmd = add_redirs (AExec ws) rs"
    by blast
qed

lemma reads_exec_redir:
  assumes "reads_exec c" "redir_ok mode fd" "word_text f"
  shows "reads_exec (ARedir c mode fd f)"
  unfolding reads_exec_def
proof (intro allI impI)
  fix l s rs t
  assume "rest l s (show_cmd (ARedir c mode fd f) 3 @ show_redirs rs @ t)" "redirs_ok rs" "follow exec_end t"
  then show "\<exists>cmd s'. reaches (\<lambda>k. parseexec k l s) (Got cmd s') \<and> rest l s' t \<and>
      view l cmd = add_redirs (ARedir c mode fd f) rs"
    using assms(1)[unfolded reads_exec_def, rule_format, of l s "(mode, fd, f) # rs" t] assms(2,3) by simp
qed

lemma reads_pipe_pipe:
  assumes "reads_exec a" "reads_pipe b" "shell_cmd b"
  shows "reads_pipe (APipe a b)"
  unfolding reads_pipe_def
proof (intro allI impI)
  fix l s t
  assume r: "rest l s (show_cmd (APipe a b) 2 @ t)" and f: "follow {41, 38, 59} t"
  let ?t1 = "124 # show_cmd b 2 @ t"
  have r0: "rest l s (show_cmd a 3 @ show_redirs [] @ ?t1)" using r by (simp add: paren_def)
  obtain cmd s1 where c: "reaches (\<lambda>k. parseexec k l s) (Got cmd s1)" "rest l s1 ?t1" "view l cmd = a"
    using assms(1)[unfolded reads_exec_def, rule_format, OF r0] by (auto simp: follow_def)
  have t2: "tight (show_cmd b 2 @ t)"
    using tight_show[OF assms(3), of t 2] follow_tight[of t] follow_sub[OF f, of exec_end] by simp
  note tok = gettoken_symbol[OF c(2) t2, simplified]
  have pk: "peek l s1 [124] = (True, s1)" using peek_tight[OF c(2), of "[124]"] tight_symbol by simp
  obtain cmd2 s2 where e: "reaches (\<lambda>k. parsepipe k l (s1 + 1)) (Got cmd2 s2)" "rest l s2 t" "view l cmd2 = b"
    using assms(2)[unfolded reads_pipe_def, rule_format, of l "s1 + 1" t] tok(2) f by auto
  have "reaches (\<lambda>k. pbind (parsepipe k l (s1 + 1)) (\<lambda>right s. Got (pipecmd cmd right) s)) (Got (PIPE cmd cmd2) s2)"
    by (intro reaches_pbind[OF e(1)] reaches_const)
  then have "reaches (\<lambda>k. parsepipe (Suc k) l s) (Got (PIPE cmd cmd2) s2)"
    unfolding parsepipe.simps by (intro reaches_pbind[OF c(1)]) (simp add: pk tok(1))
  with e(2,3) c(3) reaches_Suc[of "\<lambda>k. parsepipe k l s"]
  show "\<exists>cmd s'. reaches (\<lambda>k. parsepipe k l s) (Got cmd s') \<and> rest l s' t \<and> view l cmd = APipe a b"
    by (intro exI[of _ "PIPE cmd cmd2"] exI[of _ s2]) simp
qed

lemma reads_back_back:
  assumes "reads_back a"
  shows "reads_back (ABack a)"
  unfolding reads_back_def
proof (intro allI impI)
  fix l s n t
  assume "rest l s (show_cmd (ABack a) 1 @ replicate n 38 @ t)" "follow {41, 59} t"
  then show "\<exists>cmd0 s0 cmd s'. reaches (\<lambda>k. parsepipe k l s) (Got cmd0 s0) \<and> parsebacks cmd0 l s0 = (cmd, s') \<and> rest l s' t \<and>
       view l cmd = (ABack ^^ n) (ABack a)"
    using assms[unfolded reads_back_def, rule_format, of l s "Suc n" t] by (simp add: paren_def funpow_swap1)
qed

lemma reads_line_list:
  assumes "reads_back a" "reads_line b" "shell_cmd b"
  shows "reads_line (AList a b)"
  unfolding reads_line_def
proof (intro allI impI)
  fix l s t
  assume r: "rest l s (show_cmd (AList a b) 0 @ t)" and f: "follow {41} t"
  let ?t1 = "59 # show_cmd b 0 @ t"
  have r0: "rest l s (show_cmd a 1 @ replicate 0 38 @ ?t1)" using r by (simp add: paren_def)
  obtain cmd0 s0 cmd s1 where c: "reaches (\<lambda>k. parsepipe k l s) (Got cmd0 s0)" "parsebacks cmd0 l s0 = (cmd, s1)"
    "rest l s1 ?t1" "view l cmd = a"
    using assms(1)[unfolded reads_back_def, rule_format, OF r0] by (auto simp: follow_def)
  have t2: "tight (show_cmd b 0 @ t)"
    using tight_show[OF assms(3), of t 0] follow_tight[of t] follow_sub[OF f, of exec_end] by simp
  note tok = gettoken_symbol[OF c(3) t2, simplified]
  have pk: "peek l s1 [59] = (True, s1)" using peek_tight[OF c(3), of "[59]"] tight_symbol by simp
  obtain cmd2 s2 where e: "reaches (\<lambda>k. parseline k l (s1 + 1)) (Got cmd2 s2)" "rest l s2 t" "view l cmd2 = b"
    using assms(2)[unfolded reads_line_def, rule_format, of l "s1 + 1" t] tok(2) f by auto
  have "reaches (\<lambda>k. pbind (parseline k l (s1 + 1)) (\<lambda>right s. Got (listcmd cmd right) s)) (Got (LIST cmd cmd2) s2)"
    by (intro reaches_pbind[OF e(1)] reaches_const)
  then have "reaches (\<lambda>k. parseline (Suc k) l s) (Got (LIST cmd cmd2) s2)"
    unfolding parseline.simps by (intro reaches_pbind[OF c(1)]) (simp add: c(2) pk tok(1))
  with e(2,3) c(4) reaches_Suc[of "\<lambda>k. parseline k l s"]
  show "\<exists>cmd s'. reaches (\<lambda>k. parseline k l s) (Got cmd s') \<and> rest l s' t \<and> view l cmd = AList a b"
    by (intro exI[of _ "LIST cmd cmd2"] exI[of _ s2]) simp
qed

lemma reads_all: "shell_cmd c \<Longrightarrow> reads_exec c \<and> reads_pipe c \<and> reads_back c \<and> reads_line c"
proof (induction c)
  case (AExec ws)
  then show ?case using reads_exec_words[of ws] reads_pipe_up[of "AExec ws"] reads_back_up[of "AExec ws"] reads_line_up[of "AExec ws"] by simp
next
  case (ARedir c mode fd f)
  let ?c = "ARedir c mode fd f"
  show ?case using ARedir reads_exec_redir[of c mode fd f] reads_pipe_up[of ?c] reads_back_up[of ?c] reads_line_up[of ?c] by simp
next
  case (APipe a b)
  let ?c = "APipe a b"
  show ?case using APipe reads_pipe_pipe[of a b] reads_back_up[of ?c] reads_line_up[of ?c] reads_exec_paren[of ?c] by (simp add: paren_def)
next
  case (AList a b)
  let ?c = "AList a b"
  show ?case using AList reads_line_list[of a b] reads_exec_paren[of ?c] reads_pipe_up[of ?c] reads_back_up[of ?c] by (simp add: paren_def)
next
  case (ABack a)
  let ?c = "ABack a"
  show ?case using ABack reads_back_back[of a] reads_line_up[of ?c] reads_exec_paren[of ?c] reads_pipe_up[of ?c] by (simp add: paren_def)
qed

lemma show_nonzero: "shell_cmd c \<Longrightarrow> 0 \<notin> set (show_cmd c n)"
  by (induction c arbitrary: n) (auto simp: paren_def word_text_def redir_sym_def list_all_iff)

lemma command_view:
  "(\<And>q eq. (q, eq) \<in> set (words cmd) \<Longrightarrow> str_at b q = piece l (q, eq)) \<Longrightarrow> command b cmd = view l cmd"
  by (induction cmd) auto

text \<open>
  C4: Printing a shell command and parsing the line gives the command back, with the words as
  the strings that \<open>runcmd\<close> will pass to \<open>exec\<close> and \<open>open\<close>: sequence, background, pipeline, parentheses
  and redirection all have the meaning they are written with, and no syntax error is reported.
\<close>

theorem shell_roundtrip:
  assumes "shell_cmd c"
  shows "\<exists>cmd b. parsecmd (show_cmd c 0) s = Ok (cmd, b) s \<and> command b cmd = c"
proof -
  let ?l = "show_cmd c 0" and ?k = "4 * length (show_cmd c 0) + 4"
  have "rest ?l 0 (?l @ [])" by (simp add: rest_def)
  then obtain cmd p where p: "reaches (\<lambda>k. parseline k ?l 0) (Got cmd p)" "rest ?l p []" "view ?l cmd = c"
    using reads_all[OF assms] unfolding reads_line_def by (metis follow_def)
  then obtain k0 where "\<forall>k \<ge> k0. parseline k ?l 0 = Got cmd p" by (auto simp: reaches_def)
  then have "parseline (?k + k0) ?l 0 = Got cmd p" by simp
  moreover have "parseline ?k ?l 0 \<noteq> Fuel" using parse_fuel_all[of ?l ?k] by simp
  moreover have "below (parseline ?k ?l 0) (parseline (?k + k0) ?l 0)" using parse_mono_all by blast
  ultimately have g: "parseline ?k ?l 0 = Got cmd p" by (simp add: below_def)
  have "p = length ?l" using rest_byte(2)[OF p(2)] by simp
  moreover have "peek ?l p [] = (False, p)" using peek_tight[OF p(2)] by (simp add: tight_def)
  ultimately have "parsecmd ?l s = Ok (cmd, nulterminate cmd (?l @ [0])) s" using g by (simp add: parsecmd_def returnk_def)
  moreover have "command (nulterminate cmd (?l @ [0])) cmd = c"
    using command_view[of cmd _ ?l] parsed_words(1)[OF g show_nonzero[OF assms]] p(3) by (simp add: piece_def)
  ultimately show ?thesis by blast
qed

text \<open>The line \<open>ls |wc >f &;a\<close>, with the spaces of the printer.\<close>

definition demo_cmd :: ast where
  "demo_cmd = AList (ABack (APipe (AExec [[108, 115]]) (ARedir (AExec [[119, 99]]) 1537 1 [102]))) (AExec [[97]])"

lemma demo_cmd_ok: "shell_cmd demo_cmd"
  by code_simp

lemma demo_cmd_show: "show_cmd demo_cmd 0 = [108, 115, 32, 124, 119, 99, 32, 62, 102, 32, 38, 59, 97, 32]"
  by code_simp

theorem shell_roundtrip_witness:
  "\<exists>cmd b s. parsecmd [108, 115, 32, 124, 119, 99, 32, 62, 102, 32, 38, 59, 97, 32] s = Ok (cmd, b) s \<and> command b cmd = demo_cmd"
  using shell_roundtrip[OF demo_cmd_ok] unfolding demo_cmd_show by blast

end
