(* ===== verification/Utils.thy ===== *)
theory Utils
  imports Ulib
begin

text \<open>
  The small user programs: cat, wc, echo, kill, ln, mkdir, rm, sleep, trace, zombie, sysinfotest, init,
  pingpong, primes, xargs, find and ls. \<open>argv\<close> is the list of the arguments, the name of the program
  first; \<open>main\<close> of the program \<open>p\<close> is \<open>p_main\<close>.
\<close>

section \<open>Arguments and messages\<close>

definition msg :: "string \<Rightarrow> ctext" where
  "msg t = txt_bytes t @ [10]"

definition usage :: "string \<Rightarrow> 'a user" where
  "usage m = bindk (fprintf 2 (msg m) []) (\<lambda>_. u_exit 1)"

text \<open>A string in memory, and \<open>atoi\<close> of an argument.\<close>

definition text_mem :: "ctext \<Rightarrow> memory" where
  "text_mem t = (\<lambda>a. if unat a < length t then t ! unat a else 0)"

definition arg_atoi :: "ctext \<Rightarrow> int user" where
  "arg_atoi t = (case uatoi (text_mem t) 0 of None \<Rightarrow> (\<lambda>_. Spins) | Some n \<Rightarrow> returnk (sint n))"

section \<open>cat and wc\<close>

definition cat :: "int \<Rightarrow> unit user" where
  "cat fd =
     bindk (read_loop fd (\<lambda>_. 512) (\<lambda>_ bs.
       bindk (sysi (SWrite 1 bs)) (\<lambda>w.
       whenk (w \<noteq> int (length bs)) (bindk (fprintf 2 (msg ''cat: write error'') []) (\<lambda>_. u_exit 1)))) ())
     (\<lambda>(_, n). whenk (n < 0) (bindk (fprintf 2 (msg ''cat: read error'') []) (\<lambda>_. u_exit 1)))"

definition cat_main :: "ctext list \<Rightarrow> unit user" where
  "cat_main argv =
     (if length argv \<le> 1 then bindk (cat 0) (\<lambda>_. u_exit 0)
      else
        bindk (foreachk (tl argv) (\<lambda>f.
          bindk (sysi (SOpen f 0)) (\<lambda>fd.
          if fd < 0 then bindk (fprintf 2 (msg ''cat: cannot open %s'') [ArgStr (Some f)]) (\<lambda>_. u_exit 1)
          else bindk (cat fd) (\<lambda>_. sys_do (SClose fd))))) (\<lambda>_.
        u_exit 0))"

text \<open>The counters \<open>l, w, c\<close> and \<open>inword\<close>. A NUL in the file is not white space, as \<open>strchr\<close> does not find it.\<close>

record wc_st =
  wc_l :: u32
  wc_w :: u32
  wc_c :: u32
  inword :: bool

definition wc_byte :: "u8 \<Rightarrow> wc_st \<Rightarrow> wc_st" where
  "wc_byte b s =
     (let s = s\<lparr>wc_c := wc_c s + 1\<rparr>;
          s = (if b = 10 then s\<lparr>wc_l := wc_l s + 1\<rparr> else s) in
      if b \<in> {32, 13, 9, 10, 11} then s\<lparr>inword := False\<rparr>
      else if \<not> inword s then s\<lparr>wc_w := wc_w s + 1, inword := True\<rparr>
      else s)"

definition wc :: "int \<Rightarrow> ctext \<Rightarrow> unit user" where
  "wc fd name =
     bindk (read_loop fd (\<lambda>_. 512) (\<lambda>s bs. returnk (fold wc_byte bs s)) \<lparr>wc_l = 0, wc_w = 0, wc_c = 0, inword = False\<rparr>)
     (\<lambda>(s, n).
       if n < 0 then bindk (u_printf (msg ''wc: read error'') []) (\<lambda>_. u_exit 1)
       else u_printf (msg ''%d %d %d %s'') [ArgInt (wc_l s), ArgInt (wc_w s), ArgInt (wc_c s), ArgStr (Some name)])"

definition wc_main :: "ctext list \<Rightarrow> unit user" where
  "wc_main argv =
     (if length argv \<le> 1 then bindk (wc 0 []) (\<lambda>_. u_exit 0)
      else
        bindk (foreachk (tl argv) (\<lambda>f.
          bindk (sysi (SOpen f 0)) (\<lambda>fd.
          if fd < 0 then bindk (u_printf (msg ''wc: cannot open %s'') [ArgStr (Some f)]) (\<lambda>_. u_exit 1)
          else bindk (wc fd f) (\<lambda>_. sys_do (SClose fd))))) (\<lambda>_.
        u_exit 0))"

section \<open>Programs that pass their arguments to a system call\<close>

fun echo_args :: "ctext list \<Rightarrow> unit user" where
  "echo_args [] = returnk ()"
| "echo_args (a # as) =
     bindk (sys_do (SWrite 1 a)) (\<lambda>_.
     bindk (sys_do (SWrite 1 (if as \<noteq> [] then [32] else [10]))) (\<lambda>_.
     echo_args as))"

definition echo_main :: "ctext list \<Rightarrow> unit user" where
  "echo_main argv = bindk (echo_args (tl argv)) (\<lambda>_. u_exit 0)"

definition kill_main :: "ctext list \<Rightarrow> unit user" where
  "kill_main argv =
     (if length argv < 2 then usage ''usage: kill pid...''
      else bindk (foreachk (tl argv) (\<lambda>a. bindk (arg_atoi a) (\<lambda>pid. sys_do (SKill pid)))) (\<lambda>_. u_exit 0))"

definition ln_main :: "ctext list \<Rightarrow> unit user" where
  "ln_main argv =
     (if length argv \<noteq> 3 then usage ''Usage: ln old new''
      else
        bindk (sysi (SLink (argv ! 1) (argv ! 2))) (\<lambda>r.
        bindk (whenk (r < 0) (fprintf 2 (msg ''link %s %s: failed'') [ArgStr (Some (argv ! 1)), ArgStr (Some (argv ! 2))]))
        (\<lambda>_. u_exit 0)))"

text \<open>\<open>mkdir\<close> and \<open>rm\<close> stop at the first argument that fails.\<close>

fun mkdir_args :: "ctext list \<Rightarrow> unit user" where
  "mkdir_args [] = returnk ()"
| "mkdir_args (a # as) =
     bindk (sysi (SMkdir a)) (\<lambda>r.
     if r < 0 then fprintf 2 (msg ''mkdir: %s failed to create'') [ArgStr (Some a)] else mkdir_args as)"

definition mkdir_main :: "ctext list \<Rightarrow> unit user" where
  "mkdir_main argv =
     (if length argv < 2 then usage ''Usage: mkdir files...''
      else bindk (mkdir_args (tl argv)) (\<lambda>_. u_exit 0))"

fun rm_args :: "ctext list \<Rightarrow> unit user" where
  "rm_args [] = returnk ()"
| "rm_args (a # as) =
     bindk (sysi (SUnlink a)) (\<lambda>r.
     if r < 0 then fprintf 2 (msg ''rm: %s failed to delete'') [ArgStr (Some a)] else rm_args as)"

definition rm_main :: "ctext list \<Rightarrow> unit user" where
  "rm_main argv =
     (if length argv < 2 then usage ''Usage: rm files...''
      else bindk (rm_args (tl argv)) (\<lambda>_. u_exit 0))"

definition sleep_main :: "ctext list \<Rightarrow> unit user" where
  "sleep_main argv =
     (if length argv \<le> 1 \<or> length argv > 2 then usage ''Usage: sleep <time>''
      else
        bindk (arg_atoi (argv ! 1)) (\<lambda>time.
        if time < 0 then usage ''Usage: sleep <time> > 0''
        else bindk (sys_do (SSleep time)) (\<lambda>_. u_exit 0)))"

text \<open>\<open>trace\<close> is declared to return a pointer: the comparison with 0 is one of pointers.\<close>

definition trace_main :: "ctext list \<Rightarrow> unit user" where
  "trace_main argv =
     (if length argv < 3 then usage ''Usage: trace mask command [args...]''
      else
        bindk (arg_atoi (argv ! 1)) (\<lambda>mask.
        bindk (sysi (STrace mask)) (\<lambda>r.
        if (word_of_int r :: u64) < 0 then usage ''trace: failed''
        else
          bindk (u_exec (argv ! 2) (drop 2 argv)) (\<lambda>_.
          u_exit 0))))"

definition zombie_main :: "unit user" where
  "zombie_main =
     bindk (sysi SFork) (\<lambda>pid.
     bindk (whenk (pid > 0) (sys_do (SSleep 5))) (\<lambda>_.
     u_exit 0))"

text \<open>\<open>%d\<close> of the 64-bit \<open>freemem\<close> prints its low 32 bits.\<close>

definition sysinfotest_main :: "ctext list \<Rightarrow> unit user" where
  "sysinfotest_main argv =
     bindk (whenk (length argv \<noteq> 1) (fprintf 2 (txt_bytes ''usage: sysinfo'') [])) (\<lambda>_.
     bindk (sys SSysinfo) (\<lambda>r.
     bindk (fprintf 1 (msg ''Free memory: %d bytes'') [ArgInt (word_of_int (rints r ! 0))]) (\<lambda>_.
     bindk (fprintf 1 (msg ''Active processes: %d'') [ArgInt (word_of_int (rints r ! 1))]) (\<lambda>_.
     u_exit 0))))"

section \<open>init, pingpong and primes\<close>

definition init_wait :: "int \<Rightarrow> unit \<Rightarrow> (unit + unit) user" where
  "init_wait pid _ =
     bindk (sysi SWait) (\<lambda>wpid.
     if wpid = pid then returnk (Inr ())
     else if wpid < 0 then bindk (u_printf (msg ''init: wait returned an error'') []) (\<lambda>_. u_exit 1)
     else returnk (Inl ()))"

definition init_body :: "unit \<Rightarrow> (unit + unit) user" where
  "init_body _ =
     bindk (u_printf (msg ''init: starting sh'') []) (\<lambda>_.
     bindk (sysi SFork) (\<lambda>pid.
     if pid < 0 then bindk (u_printf (msg ''init: fork failed'') []) (\<lambda>_. u_exit 1)
     else if pid = 0 then
       bindk (u_exec (txt_bytes ''sh'') [txt_bytes ''sh'']) (\<lambda>_.
       bindk (u_printf (msg ''init: exec sh failed'') []) (\<lambda>_.
       u_exit 1))
     else bindk (loopk (init_wait pid) ()) (\<lambda>_. returnk (Inl ()))))"

definition init_main :: "unit user" where
  "init_main =
     bindk (sysi (SOpen (txt_bytes ''console'') 2)) (\<lambda>fd.
     bindk (whenk (fd < 0) (
       bindk (sys_do (SMknod (txt_bytes ''console'') 1 0)) (\<lambda>_.
       sys_do (SOpen (txt_bytes ''console'') 2)))) (\<lambda>_.
     bindk (sys_do (SDup 0)) (\<lambda>_.
     bindk (sys_do (SDup 0)) (\<lambda>_.
     loopk init_body ()))))"

text \<open>One side: the descriptors not used, to read from and to write to. \<open>junk\<close> is what is on the stack behind the bytes read.\<close>

definition pingpong_say :: "ctext \<Rightarrow> ctext \<Rightarrow> unit user" where
  "pingpong_say junk bs =
     bindk (sysi SGetpid) (\<lambda>pid.
     fprintf 1 (msg ''%d: received %s'') [ArgInt (word_of_int pid), ArgStr (Some (takeWhile (\<lambda>c. c \<noteq> 0) (bs @ junk)))])"

definition pingpong_main :: "ctext \<Rightarrow> ctext list \<Rightarrow> unit user" where
  "pingpong_main junk argv =
     (if length argv \<noteq> 1 then usage ''Usage: pingpong'' else
     bindk (sys SPipe) (\<lambda>p1.
     bindk (sys SPipe) (\<lambda>p2.
     bindk (sysi SFork) (\<lambda>pid.
     if pid < 0 then usage ''fork failed''
     else if pid = 0 then
       bindk (sys_do (SClose (rints p1 ! 1))) (\<lambda>_.
       bindk (sys_do (SClose (rints p2 ! 0))) (\<lambda>_.
       bindk (sys (SRead (rints p1 ! 0) 10)) (\<lambda>r.
       bindk (pingpong_say junk (rbytes r)) (\<lambda>_.
       bindk (sys_do (SWrite (rints p2 ! 1) (txt_bytes ''pong''))) (\<lambda>_.
       bindk (sys_do (SClose (rints p1 ! 0))) (\<lambda>_.
       bindk (sys_do (SClose (rints p2 ! 1))) (\<lambda>_.
       u_exit 0)))))))
     else
       bindk (sys_do (SClose (rints p1 ! 0))) (\<lambda>_.
       bindk (sys_do (SClose (rints p2 ! 1))) (\<lambda>_.
       bindk (sys_do (SWrite (rints p1 ! 1) (txt_bytes ''ping''))) (\<lambda>_.
       bindk (sys (SRead (rints p2 ! 0) 10)) (\<lambda>r.
       bindk (pingpong_say junk (rbytes r)) (\<lambda>_.
       bindk (sys_do (SClose (rints p1 ! 1))) (\<lambda>_.
       bindk (sys_do (SClose (rints p2 ! 0))) (\<lambda>_.
       u_exit 0)))))))))))"

text \<open>Reading an int: the bytes that \<open>read\<close> delivers replace the first bytes of the variable.\<close>

definition into_int :: "u32 \<Rightarrow> ctext \<Rightarrow> u32" where
  "into_int old bs = le_word (bs @ drop (length bs) (le_bytes 4 old))"

text \<open>The filter loop of a stage of the sieve.\<close>

definition primes_filter :: "int \<Rightarrow> u32 \<Rightarrow> u32 \<Rightarrow> ctext \<Rightarrow> u32 user" where
  "primes_filter out prime old bs =
     (let n = into_int old bs in
      bindk (whenk (sint n mod sint prime \<noteq> 0) (sys_do (SWrite out (le_bytes 4 n)))) (\<lambda>_.
      returnk n))"

text \<open>A stage that forks: the child goes on as the next stage, reading from the new pipe.\<close>

definition primes_stage :: "u32 \<Rightarrow> int \<Rightarrow> (int + unit) user" where
  "primes_stage junk p0 =
     bindk (sys (SRead p0 4)) (\<lambda>r.
     if rv r \<le> 0 then bindk (sys_do (SClose p0)) (\<lambda>_. u_exit 0)
     else
       let prime = into_int junk (rbytes r) in
       bindk (u_printf (msg ''prime %d'') [ArgInt prime]) (\<lambda>_.
       bindk (sys SPipe) (\<lambda>p.
       bindk (sysi SFork) (\<lambda>pid.
       if pid = 0 then
         bindk (sys_do (SClose (rints p ! 1))) (\<lambda>_.
         returnk (Inl (rints p ! 0)))
       else
         bindk (sys_do (SClose (rints p ! 0))) (\<lambda>_.
         bindk (read_loop p0 (\<lambda>_. 4) (primes_filter (rints p ! 1) prime) junk) (\<lambda>_.
         bindk (sys_do (SClose (rints p ! 1))) (\<lambda>_.
         bindk (sys_do (SClose p0)) (\<lambda>_.
         bindk (sys_do SWait) (\<lambda>_.
         u_exit 0))))))))) "

definition primes :: "u32 \<Rightarrow> int \<Rightarrow> unit user" where
  "primes junk p0 = loopk (primes_stage junk) p0"

definition primes_main :: "u32 \<Rightarrow> unit user" where
  "primes_main junk =
     bindk (sys SPipe) (\<lambda>p.
     bindk (sysi SFork) (\<lambda>pid.
     if pid = 0 then
       bindk (sys_do (SClose (rints p ! 1))) (\<lambda>_.
       bindk (primes junk (rints p ! 0)) (\<lambda>_.
       u_exit 0))
     else
       bindk (sys_do (SClose (rints p ! 0))) (\<lambda>_.
       bindk (foreachk [2..<36] (\<lambda>i. sys_do (SWrite (rints p ! 1) (le_bytes 4 (of_nat i :: u32))))) (\<lambda>_.
       bindk (sys_do (SClose (rints p ! 1))) (\<lambda>_.
       bindk (sys_do SWait) (\<lambda>_.
       u_exit 0))))))"

section \<open>xargs\<close>

definition xargs_run :: "ctext list \<Rightarrow> ctext \<Rightarrow> unit user" where
  "xargs_run cmd tok =
     bindk (sysi SFork) (\<lambda>pid.
     bindk (whenk (pid = 0) (
       bindk (u_exec (hd cmd) (cmd @ [tok])) (\<lambda>_.
       bindk (fprintf 2 (msg ''xargv: exec %s failed'') [ArgStr (Some (hd cmd))]) (\<lambda>_.
       u_exit 1)))) (\<lambda>_.
     sys_do SWait))"

text \<open>The scan of the buffer with the token begun; the result is the token left over, moved to the start.\<close>

fun xargs_scan :: "ctext list \<Rightarrow> ctext \<Rightarrow> ctext \<Rightarrow> ctext user" where
  "xargs_scan cmd tok [] = returnk tok"
| "xargs_scan cmd tok (c # cs) =
     (if c = 0 then returnk tok
      else if c = 32 \<or> c = 10 then
        bindk (whenk (tok \<noteq> []) (xargs_run cmd tok)) (\<lambda>_. xargs_scan cmd [] cs)
      else xargs_scan cmd (tok @ [c]) cs)"

text \<open>
  The arguments of the command are copied to an array of \<open>MAXARG\<close> pointers without a test. It holds
  them: \<open>sys_exec\<close> accepts at most \<open>MAXARG - 1\<close> arguments, of which the first is not copied, and one
  token and the final null pointer follow.
\<close>

definition xargs_main :: "ctext list \<Rightarrow> unit user" where
  "xargs_main argv =
     (if length argv < 2 then usage ''Usage: xargs command [args...]''
      else
        bindk (read_loop 0 (\<lambda>b. 512 - length b - 1) (\<lambda>b chunk. xargs_scan (tl argv) [] (b @ chunk)) []) (\<lambda>_.
        u_exit 0))"

section \<open>find and ls\<close>

text \<open>The position after the last slash, searched from the end.\<close>

primrec last_slash :: "ctext \<Rightarrow> nat \<Rightarrow> nat" where
  "last_slash path 0 = 0"
| "last_slash path (Suc i) = (if path ! i = 47 then Suc i else last_slash path i)"

definition basename :: "ctext \<Rightarrow> ctext" where
  "basename path = drop (last_slash path (length path)) path"

abbreviation "cstr \<equiv> takeWhile (\<lambda>c. c \<noteq> (0::u8))"

text \<open>A directory entry as it is read: the inode number and the name of at most 14 bytes.\<close>

definition de_inum :: "ctext \<Rightarrow> u16" where
  "de_inum bs = le_word (take 2 bs)"

definition de_name :: "ctext \<Rightarrow> ctext" where
  "de_name bs = cstr (take 14 (drop 2 bs))"

definition find_entry :: "(ctext \<Rightarrow> int user) \<Rightarrow> int \<Rightarrow> ctext \<Rightarrow> unit \<Rightarrow> (unit + unit) user" where
  "find_entry rec fd path _ =
     bindk (sys (SRead fd 16)) (\<lambda>r.
     if rv r \<noteq> 16 then returnk (Inr ()) else
     let nm = de_name (rbytes r); buf = path @ 47 # nm in
     if nm = [46] \<or> nm = [46, 46] then returnk (Inl ())
     else if de_inum (rbytes r) = 0 then returnk (Inl ())
     else
       bindk (u_stat buf) (\<lambda>(e, _).
       if e < 0 then bindk (fprintf 2 (msg ''find: connt stat %s'') [ArgStr (Some buf)]) (\<lambda>_. returnk (Inl ()))
       else bindk (rec buf) (\<lambda>_. returnk (Inl ()))))"

definition find_body :: "ctext \<Rightarrow> (ctext \<Rightarrow> int user) \<Rightarrow> ctext \<Rightarrow> int user" where
  "find_body name rec path =
     bindk (sysi (SOpen path 0)) (\<lambda>fd.
     if fd < 0 then
       bindk (fprintf 2 (msg ''find: cannot open %s'') [ArgStr (Some path)]) (\<lambda>_. returnk (-1))
     else
       bindk (sys (SFstat fd)) (\<lambda>r.
       if rv r < 0 then
         bindk (fprintf 2 (msg ''find: cannot stat %s'') [ArgStr (Some path)]) (\<lambda>_.
         bindk (sys_do (SClose fd)) (\<lambda>_. returnk (-1)))
       else if length path + 1 + 14 + 1 > 512 then
         bindk (u_printf (msg ''find: path too long'') []) (\<lambda>_.
         bindk (sys_do (SClose fd)) (\<lambda>_. returnk (-1)))
       else
         let type = rints r ! 2 in
         bindk (if type = 2 \<or> type = 3 then
                  whenk (name = basename path) (fprintf 1 (msg ''%s'') [ArgStr (Some path)])
                else whenk (type = 1) (loopk (find_entry rec fd path) ())) (\<lambda>_.
         bindk (sys_do (SClose fd)) (\<lambda>_. returnk 1))))"

text \<open>The recursion, with its depth bounded: every level adds a slash to a path of at most 496 bytes.\<close>

primrec find_at :: "nat \<Rightarrow> ctext \<Rightarrow> ctext \<Rightarrow> int user" where
  "find_at 0 name path = find_body name (\<lambda>_ _. Spins) path"
| "find_at (Suc k) name path = find_body name (find_at k name) path"

lemma find_entry_cong:
  assumes "\<And>nm. rec (path @ 47 # nm) = rec' (path @ 47 # nm)"
  shows "find_entry rec fd path = find_entry rec' fd path"
  unfolding find_entry_def Let_def by (simp add: assms fun_eq_iff cong: if_cong)

lemma find_body_cong:
  assumes "\<And>nm. length path \<le> 496 \<Longrightarrow> rec (path @ 47 # nm) = rec' (path @ 47 # nm)"
  shows "find_body name rec path = find_body name rec' path"
proof (cases "length path \<le> 496")
  case True
  then have "find_entry rec fd path = find_entry rec' fd path" for fd using assms by (intro find_entry_cong) simp
  then show ?thesis by (simp add: find_body_def cong: if_cong)
qed (simp add: find_body_def cong: if_cong)

lemma find_deep_enough: "497 \<le> k + length path \<Longrightarrow> find_at (k + n) name path = find_at k name path"
proof (induction k arbitrary: path)
  case 0
  then show ?case by (cases n) (auto intro: find_body_cong)
next
  case (Suc k)
  then show ?case by (auto intro!: find_body_cong)
qed

definition find_main :: "ctext list \<Rightarrow> unit user" where
  "find_main argv =
     (if length argv \<noteq> 3 then
        bindk (fprintf 2 (msg ''Usage: find <path> <name>'') []) (\<lambda>_. u_exit 0)
      else bindk (find_at 512 (argv ! 2) (argv ! 1)) (\<lambda>_. u_exit 0))"

definition fmtname :: "ctext \<Rightarrow> ctext" where
  "fmtname path =
     (let p = basename path in
      if length p \<ge> 14 then p else p @ replicate (14 - length p) 32)"

definition ls_line :: "ctext \<Rightarrow> int list \<Rightarrow> unit user" where
  "ls_line path st =
     u_printf (msg ''%s %d %d %d'')
       [ArgStr (Some (fmtname path)), ArgInt (word_of_int (st ! 2)), ArgInt (word_of_int (st ! 1)), ArgInt (word_of_int (st ! 4))]"

definition ls_entry :: "int \<Rightarrow> ctext \<Rightarrow> unit \<Rightarrow> (unit + unit) user" where
  "ls_entry fd path _ =
     bindk (sys (SRead fd 16)) (\<lambda>r.
     if rv r \<noteq> 16 then returnk (Inr ()) else
     let buf = path @ 47 # de_name (rbytes r) in
     if de_inum (rbytes r) = 0 then returnk (Inl ())
     else
       bindk (u_stat buf) (\<lambda>(e, st).
       if e < 0 then bindk (u_printf (msg ''ls: cannot stat %s'') [ArgStr (Some buf)]) (\<lambda>_. returnk (Inl ()))
       else bindk (ls_line buf st) (\<lambda>_. returnk (Inl ()))))"

definition ls :: "ctext \<Rightarrow> unit user" where
  "ls path =
     bindk (sysi (SOpen path 0)) (\<lambda>fd.
     if fd < 0 then fprintf 2 (msg ''ls: cannot open %s'') [ArgStr (Some path)]
     else
       bindk (sys (SFstat fd)) (\<lambda>r.
       if rv r < 0 then
         bindk (fprintf 2 (msg ''ls: cannot stat %s'') [ArgStr (Some path)]) (\<lambda>_. sys_do (SClose fd))
       else
         let type = rints r ! 2 in
         bindk (if type = 2 \<or> type = 3 then ls_line path (rints r)
                else if type = 1 then
                  if length path + 1 + 14 + 1 > 512 then u_printf (msg ''ls: path too long'') []
                  else loopk (ls_entry fd path) ()
                else returnk ()) (\<lambda>_.
         sys_do (SClose fd))))"

definition ls_main :: "ctext list \<Rightarrow> unit user" where
  "ls_main argv =
     (if length argv < 2 then bindk (ls [46]) (\<lambda>_. u_exit 0)
      else bindk (foreachk (tl argv) ls) (\<lambda>_. u_exit 0))"

end
