(* ===== verification/Umalloc.thy ===== *)
theory Umalloc
  imports Ulib
begin

text \<open>
  user/umalloc.c: the allocator of Kernighan and Ritchie. The headers are a store from addresses to
  the two fields of \<open>Header\<close>, which is 16 bytes long; \<open>base\<close> is the address of the static header. The
  free list is shown to be a ring of the free blocks, sorted by address and with no two of them
  adjacent, and \<open>malloc\<close> and \<open>free\<close> to move exactly the bytes of a block out of it and into it.
\<close>

section \<open>The allocator\<close>

record heap = user_st +
  hptr :: "u64 \<Rightarrow> u64"
  hsize :: "u64 \<Rightarrow> u32"
  freep :: u64

type_synonym 'a alloc = "(uend, 'a, heap) kop"

text \<open>\<open>p + n\<close> for a pointer to a header.\<close>

definition units :: "u64 \<Rightarrow> u32 \<Rightarrow> u64" where
  "units p n = p + 16 * ucast n"

definition set_ptr :: "u64 \<Rightarrow> u64 \<Rightarrow> unit alloc" where
  "set_ptr p v = modifyk (\<lambda>s. s\<lparr>hptr := (hptr s)(p := v)\<rparr>)"

definition set_size :: "u64 \<Rightarrow> u32 \<Rightarrow> unit alloc" where
  "set_size p n = modifyk (\<lambda>s. s\<lparr>hsize := (hsize s)(p := n)\<rparr>)"

definition free_step :: "u64 \<Rightarrow> u64 \<Rightarrow> (u64 + u64) alloc" where
  "free_step bp p =
     bindk (getk (\<lambda>s. hptr s p)) (\<lambda>n.
     if bp > p \<and> bp < n then returnk (Inr p)
     else if p \<ge> n \<and> (bp > p \<or> bp < n) then returnk (Inr p)
     else returnk (Inl n))"

text \<open>The two joins, with the block above and with the block below.\<close>

definition join_upper :: "u64 \<Rightarrow> u64 \<Rightarrow> unit alloc" where
  "join_upper bp p =
     bindk (getk (\<lambda>s. s)) (\<lambda>s. let n = hptr s p in
     if units bp (hsize s bp) = n then
       bindk (set_size bp (hsize s bp + hsize s n)) (\<lambda>_.
       set_ptr bp (hptr s n))
     else set_ptr bp n)"

definition join_lower :: "u64 \<Rightarrow> u64 \<Rightarrow> unit alloc" where
  "join_lower bp p =
     bindk (getk (\<lambda>s. s)) (\<lambda>s.
     if units p (hsize s p) = bp then
       bindk (set_size p (hsize s p + hsize s bp)) (\<lambda>_.
       set_ptr p (hptr s bp))
     else set_ptr p bp)"

definition u_free :: "u64 \<Rightarrow> unit alloc" where
  "u_free ap =
     (let bp = ap - 16 in
      bindk (getk freep) (\<lambda>p0.
      bindk (loopk (free_step bp) p0) (\<lambda>p.
      bindk (join_upper bp p) (\<lambda>_.
      bindk (join_lower bp p) (\<lambda>_.
      modifyk (\<lambda>s. s\<lparr>freep := p\<rparr>))))))"

text \<open>\<open>sbrk\<close> takes an int: the number of bytes is cut to 32 bits.\<close>

definition sbrk_arg :: "u32 \<Rightarrow> int" where
  "sbrk_arg nu = sint (ucast ((ucast nu :: u64) * 16) :: u32)"

definition morecore :: "u32 \<Rightarrow> u64 alloc" where
  "morecore nu0 =
     (let nu = (if nu0 < 4096 then 4096 else nu0) in
      bindk (getk (\<lambda>s. rv (env s (calls s @ [SSbrk (sbrk_arg nu)])))) (\<lambda>r.
      bindk (modifyk (\<lambda>s. s\<lparr>calls := calls s @ [SSbrk (sbrk_arg nu)]\<rparr>)) (\<lambda>_.
      let p = word_of_int r in
      if p = -1 then returnk 0 else
      bindk (set_size p nu) (\<lambda>_.
      bindk (u_free (p + 16)) (\<lambda>_.
      getk freep)))))"

text \<open>Taking \<open>nunits\<close> from the block \<open>p\<close>, which is large enough: all of it, or its end.\<close>

definition malloc_take :: "u32 \<Rightarrow> u64 \<Rightarrow> u64 \<Rightarrow> u64 alloc" where
  "malloc_take nunits prevp p =
     bindk (getk (\<lambda>s. s)) (\<lambda>s.
     bindk (if hsize s p = nunits then bindk (set_ptr prevp (hptr s p)) (\<lambda>_. returnk p)
            else
              let rem = hsize s p - nunits; q = units p rem in
              bindk (set_size p rem) (\<lambda>_.
              bindk (set_size q nunits) (\<lambda>_.
              returnk q))) (\<lambda>q.
     bindk (modifyk (\<lambda>s. s\<lparr>freep := prevp\<rparr>)) (\<lambda>_.
     returnk (q + 16))))"

definition malloc_step :: "u32 \<Rightarrow> u64 \<times> u64 \<Rightarrow> (u64 \<times> u64 + u64) alloc" where
  "malloc_step nunits v = (case v of (prevp, p) \<Rightarrow>
     bindk (getk (\<lambda>s. s)) (\<lambda>s.
     if hsize s p \<ge> nunits then bindk (malloc_take nunits prevp p) (\<lambda>r. returnk (Inr r))
     else if p = freep s then
       bindk (morecore nunits) (\<lambda>q.
       if q = 0 then returnk (Inr 0)
       else bindk (getk (\<lambda>s. hptr s q)) (\<lambda>n. returnk (Inl (q, n))))
     else returnk (Inl (p, hptr s p))))"

definition nunits_of :: "u32 \<Rightarrow> u32" where
  "nunits_of nbytes = ucast (((ucast nbytes :: u64) + 16 - 1) div 16 + 1)"

definition malloc :: "u64 \<Rightarrow> u32 \<Rightarrow> u64 alloc" where
  "malloc base nbytes =
     (let nunits = nunits_of nbytes in
      bindk (getk freep) (\<lambda>f.
      bindk (whenk (f = 0) (
        bindk (set_ptr base base) (\<lambda>_.
        bindk (modifyk (\<lambda>s. s\<lparr>freep := base\<rparr>)) (\<lambda>_.
        set_size base 0)))) (\<lambda>_.
      bindk (getk (\<lambda>s. (freep s, hptr s (freep s)))) (\<lambda>v.
      loopk (malloc_step nunits) v))))"

section \<open>Rings\<close>

text \<open>A list of addresses that a successor function goes through in a circle.\<close>

definition ring :: "('a \<Rightarrow> 'a) \<Rightarrow> 'a list \<Rightarrow> bool" where
  "ring f xs \<longleftrightarrow> map f xs = rotate1 xs"

lemma ring_rotate1: "ring f xs \<Longrightarrow> ring f (rotate1 xs)"
  by (metis ring_def rotate1_map)

lemma ring_rotate: "ring f xs \<Longrightarrow> ring f (rotate n xs)"
  by (induction n) (auto simp: ring_rotate1)

lemma ring_swap: "ring f (xs @ ys) \<Longrightarrow> ring f (ys @ xs)"
  using ring_rotate[of f "xs @ ys" "length xs"] by (simp add: rotate_append)

lemma ring_Cons: "ring f (x # xs) \<longleftrightarrow> map f (x # xs) = xs @ [x]"
  by (simp add: ring_def)

lemma ring_inj: "ring f xs \<Longrightarrow> distinct xs \<Longrightarrow> inj_on f (set xs)"
  by (metis distinct_map distinct1_rotate ring_def)

lemma ring_closed: "ring f xs \<Longrightarrow> x \<in> set xs \<Longrightarrow> f x \<in> set xs"
  by (metis imageI list.set_map ring_def set_rotate1)

lemma ring_insert:
  assumes "ring f (as @ p # cs)" "distinct (as @ p # cs)" "b \<notin> set (as @ p # cs)"
  shows "ring (f(b := f p, p := b)) (as @ p # b # cs)"
proof -
  have "ring f (p # cs @ as)" using ring_swap[OF assms(1)] by simp
  then have "ring (f(b := f p, p := b)) (p # b # cs @ as)"
    using assms(2,3) by (auto simp: ring_Cons)
  from ring_swap[of _ "p # b # cs" as] this show ?thesis by simp
qed

lemma ring_remove:
  assumes "ring f (as @ p # q # cs)" "distinct (as @ p # q # cs)"
  shows "ring (f(p := f q)) (as @ p # cs)"
proof -
  have "ring f (p # q # cs @ as)" using ring_swap[OF assms(1)] by simp
  then have "ring (f(p := f q)) (p # cs @ as)" using assms(2) by (auto simp: ring_Cons)
  from ring_swap[of _ "p # cs" as] this show ?thesis by simp
qed

lemma ring_next: "ring f (as @ p # cs) \<Longrightarrow> f p = hd (cs @ as @ [p])"
  using ring_swap[of f as "p # cs"] by (simp add: ring_Cons) (metis append.assoc list.sel(1))

section \<open>The free list\<close>

text \<open>The end of a block, and its bytes. Addresses are below \<open>2 ^ 36\<close>: the machine has 128 megabytes.\<close>

definition blk_end :: "(u64 \<Rightarrow> u32) \<Rightarrow> u64 \<Rightarrow> nat" where
  "blk_end sz b = unat b + 16 * unat (sz b)"

definition blk_bytes :: "(u64 \<Rightarrow> u32) \<Rightarrow> u64 \<Rightarrow> nat set" where
  "blk_bytes sz b = {unat b ..< blk_end sz b}"

definition free_bytes :: "(u64 \<Rightarrow> u32) \<Rightarrow> u64 list \<Rightarrow> nat set" where
  "free_bytes sz bs = (\<Union>b \<in> set bs. blk_bytes sz b)"

definition sorted_blocks :: "u64 \<Rightarrow> (u64 \<Rightarrow> u32) \<Rightarrow> u64 list \<Rightarrow> bool" where
  "sorted_blocks base sz bs \<longleftrightarrow> sz base = 0 \<and> sorted_wrt (\<lambda>b c. blk_end sz b < unat c) (base # bs) \<and>
     list_all (\<lambda>b. 0 < sz b \<and> blk_end sz b < 2 ^ 36) bs"

definition free_list :: "u64 \<Rightarrow> heap \<Rightarrow> u64 list \<Rightarrow> bool" where
  "free_list base s bs \<longleftrightarrow>
     ring (hptr s) (base # bs) \<and> freep s \<in> set (base # bs) \<and> sorted_blocks base (hsize s) bs"

lemma sorted_distinct: "sorted_wrt (\<lambda>b c. blk_end sz b < unat c) xs \<Longrightarrow> distinct xs"
  by (induction xs) (auto simp: blk_end_def)

lemma sorted_blocks_distinct: "sorted_blocks base sz bs \<Longrightarrow> distinct (base # bs)"
  unfolding sorted_blocks_def using sorted_distinct by blast

text \<open>A block that can be freed: above \<open>base\<close> and apart from the free blocks.\<close>

definition fresh :: "u64 \<Rightarrow> (u64 \<Rightarrow> u32) \<Rightarrow> u64 list \<Rightarrow> u64 \<Rightarrow> bool" where
  "fresh base sz bs bp \<longleftrightarrow> unat base < unat bp \<and> 0 < sz bp \<and> blk_end sz bp < 2 ^ 36 \<and>
     blk_bytes sz bp \<inter> free_bytes sz bs = {}"

text \<open>The place of the block in the list: after \<open>p\<close>.\<close>

definition placed :: "(u64 \<Rightarrow> u32) \<Rightarrow> u64 list \<Rightarrow> u64 \<Rightarrow> u64 list \<Rightarrow> u64 \<Rightarrow> bool" where
  "placed sz as p cs bp \<longleftrightarrow> (\<forall>x \<in> set (as @ [p]). blk_end sz x \<le> unat bp \<and> unat x < unat bp) \<and>
     (\<forall>c \<in> set cs. blk_end sz bp \<le> unat c \<and> unat bp < unat c)"

lemma size_pos: "0 < (n::u32) \<longleftrightarrow> 0 < unat n"
  by (simp add: word_less_nat_alt)

lemma fresh_apart:
  assumes "fresh base sz bs bp" "sorted_blocks base sz bs" "b \<in> set bs"
  shows "unat b < unat bp \<Longrightarrow> blk_end sz b \<le> unat bp" "\<not> unat b < unat bp \<Longrightarrow> blk_end sz bp \<le> unat b \<and> unat bp < unat b"
proof -
  have d: "blk_bytes sz bp \<inter> blk_bytes sz b = {}" using assms(1,3) by (auto simp: fresh_def free_bytes_def)
  have ne: "unat bp \<in> blk_bytes sz bp" "unat b \<in> blk_bytes sz b"
    using assms by (auto simp: fresh_def sorted_blocks_def list_all_iff blk_bytes_def blk_end_def size_pos)
  show "unat b < unat bp \<Longrightarrow> blk_end sz b \<le> unat bp" using d ne by (fastforce simp: blk_bytes_def)
  assume "\<not> unat b < unat bp"
  then have "blk_end sz bp \<le> unat b" using d ne by (fastforce simp: blk_bytes_def)
  then show "blk_end sz bp \<le> unat b \<and> unat bp < unat b" using ne(1) by (simp add: blk_bytes_def)
qed

lemma fresh_placed:
  assumes "fresh base sz bs bp" "sorted_blocks base sz bs"
  obtains as p cs where "base # bs = as @ p # cs" "placed sz as p cs bp"
proof -
  let ?lo = "\<lambda>b. unat b < unat bp"
  define l where "l = takeWhile ?lo bs"
  define cs where "cs = dropWhile ?lo bs"
  have sw: "sorted_wrt (\<lambda>b c. blk_end sz b < unat c) bs" using assms(2) by (simp add: sorted_blocks_def)
  have bs: "bs = l @ cs" by (simp add: l_def cs_def)
  have lo: "?lo x" if "x \<in> set l" for x using that set_takeWhileD unfolding l_def by fast
  have hi: "\<not> ?lo c" if "c \<in> set cs" for c
  proof (cases cs)
    case (Cons d ds)
    then have "\<not> ?lo d" unfolding cs_def by (metis hd_dropWhile list.sel(1) list.distinct(1))
    moreover have "sorted_wrt (\<lambda>b c. blk_end sz b < unat c) (d # ds)" using sw bs Cons by (simp add: sorted_wrt_append)
    ultimately show ?thesis using that Cons by (fastforce simp: blk_end_def)
  qed (use that in simp)
  have base: "blk_end sz base \<le> unat bp" "unat base < unat bp"
    using assms by (auto simp: fresh_def sorted_blocks_def blk_end_def)
  have low: "blk_end sz x \<le> unat bp \<and> unat x < unat bp" if "x \<in> set (base # l)" for x
    using that base lo[of x] fresh_apart(1)[OF assms, of x] bs by auto
  have high: "blk_end sz bp \<le> unat c \<and> unat bp < unat c" if "c \<in> set cs" for c
    using that hi[of c] fresh_apart(2)[OF assms, of c] bs by auto
  have "base # l = butlast (base # l) @ [last (base # l)]" by simp
  then show ?thesis using that[of "butlast (base # l)" "last (base # l)" cs] low high bs
    by (simp only: placed_def) (metis append_Cons append_assoc append_Nil)
qed

lemma path_walk:
  assumes "body p s = Ok (Inr r) s"
  shows "map f X = tl (X @ [p]) \<Longrightarrow> (\<And>y. y \<in> set X \<Longrightarrow> body y s = Ok (Inl (f y)) s) \<Longrightarrow> loopk body (hd (X @ [p])) s = Ok r s"
proof (induction X)
  case Nil
  then show ?case using assms loopk_steps(2)[of body p s r s] by simp
next
  case (Cons x X)
  then have "f x = hd (X @ [p])" "map f X = tl (X @ [p])" by (cases X; simp)+
  with Cons loopk_steps(1)[of body x s "f x" s] show ?case by simp
qed

lemma ring_walk:
  assumes "ring f R" "p \<in> set R" "x \<in> set R" "body p s = Ok (Inr r) s"
    and "\<And>y. y \<in> set R \<Longrightarrow> y \<noteq> p \<Longrightarrow> body y s = Ok (Inl (f y)) s"
  shows "loopk body x s = Ok r s"
proof -
  obtain A B where R: "R = A @ x # B" using assms(3) by (meson split_list)
  then have m: "map f (x # B @ A) = (B @ A) @ [x]" using assms(1) ring_swap[of f A "x # B"] by (simp add: ring_Cons)
  obtain X Y where X: "x # B @ A = X @ p # Y" "p \<notin> set X" using assms(2) R by (metis append_Cons in_set_conv_decomp_first set_append set_rotate1 rotate1.simps(2) Un_iff set_ConsD list.set_intros)
  have "map f X = tl (X @ [p])"
  proof -
    have "map f (X @ p # Y) = tl (X @ p # Y) @ [x]" using m X(1) by (metis list.sel(3))
    then have "take (length X) (map f (X @ p # Y)) = take (length X) (tl (X @ p # Y) @ [x])" by simp
    then show ?thesis by (cases X) auto
  qed
  moreover have "body y s = Ok (Inl (f y)) s" if "y \<in> set X" for y
    using assms(5)[of y] that X R by (metis UnCI UnE append_Cons set_append set_ConsD list.set_intros)
  ultimately have "loopk body (hd (X @ [p])) s = Ok r s" by (rule path_walk[of body, OF assms(4)])
  moreover have "hd (X @ [p]) = x" using X(1) by (cases X) auto
  ultimately show ?thesis by simp
qed

text \<open>The search of \<open>free\<close> stops at \<open>p\<close>, wherever it starts.\<close>

lemma ring_succ:
  assumes "ring f (as @ x # cs)"
  shows "cs \<noteq> [] \<Longrightarrow> f x = hd cs" "cs = [] \<Longrightarrow> f x = hd (as @ [x])"
  using ring_next[OF assms] by auto

lemma free_step_stop:
  assumes "ring (hptr s) (as @ p # cs)" "placed sz as p cs bp" "unat (hd (as @ [p])) \<le> unat p"
  shows "free_step bp p s = Ok (Inr p) s"
proof (cases cs)
  case Nil
  then have "hptr s p = hd (as @ [p])" using ring_succ(2)[OF assms(1)] by simp
  moreover have "unat p < unat bp" using assms(2) by (simp add: placed_def)
  ultimately show ?thesis using assms(3) by (simp add: free_step_def kop_simps word_less_nat_alt word_le_nat_alt)
next
  case (Cons c cs')
  then have "hptr s p = c" using ring_succ(1)[OF assms(1)] by simp
  moreover have "unat p < unat bp" "unat bp < unat c" using assms(2) Cons by (auto simp: placed_def)
  ultimately show ?thesis by (simp add: free_step_def kop_simps word_less_nat_alt)
qed

lemma free_step_on:
  assumes "ring (hptr s) (as @ p # cs)" "placed sz as p cs bp" "sorted_wrt (\<lambda>b c. blk_end sz b < unat c) (as @ p # cs)"
    and "y \<in> set (as @ p # cs)" "y \<noteq> p"
  shows "free_step bp y s = Ok (Inl (hptr s y)) s"
proof -
  consider (lo) a1 a2 where "as = a1 @ y # a2" | (hi) c1 c2 where "cs = c1 @ y # c2"
    using assms(4,5) by (auto dest: split_list)
  then show ?thesis
  proof cases
    case lo
    define n where "n = hd (a2 @ p # cs)"
    have "hptr s y = n" using ring_succ(1)[of "hptr s" a1 y "a2 @ p # cs"] assms(1) lo by (simp add: n_def)
    moreover have "n \<in> set (as @ [p])" "n \<in> set (a2 @ p # cs)" using lo by (cases a2; simp add: n_def)+
    moreover have "\<forall>x \<in> set (a2 @ p # cs). blk_end sz y < unat x" using assms(3) lo by (simp add: sorted_wrt_append)
    ultimately have "hptr s y = n" "unat n < unat bp" "blk_end sz y < unat n"
      using assms(2) unfolding placed_def by blast+
    moreover have "unat y \<le> blk_end sz y" by (simp add: blk_end_def)
    ultimately show ?thesis by (simp add: free_step_def kop_simps word_less_nat_alt word_le_nat_alt)
  next
    case hi
    have y: "unat bp < unat y" using assms(2) hi by (simp add: placed_def)
    show ?thesis
    proof (cases c2)
      case Nil
      have "hptr s y = hd (as @ [p])" using ring_succ(2)[of "hptr s" "as @ p # c1" y c2] assms(1) hi Nil by (cases as) auto
      moreover have "unat (hd (as @ [p])) < unat bp" using assms(2) by (cases as) (auto simp: placed_def)
      ultimately show ?thesis using y by (simp add: free_step_def kop_simps word_less_nat_alt word_le_nat_alt)
    next
      case (Cons d ds)
      have "hptr s y = d" using ring_succ(1)[of "hptr s" "as @ p # c1" y c2] assms(1) hi Cons by simp
      moreover have "unat y < unat d" using assms(3) hi Cons by (simp add: sorted_wrt_append blk_end_def)
      ultimately show ?thesis using y by (simp add: free_step_def kop_simps word_less_nat_alt word_le_nat_alt)
    qed
  qed
qed

lemma free_search:
  assumes "free_list base s bs" "base # bs = as @ p # cs" "placed (hsize s) as p cs bp"
  shows "loopk (free_step bp) (freep s) s = Ok p s"
proof -
  have r: "ring (hptr s) (as @ p # cs)" and w: "sorted_wrt (\<lambda>b c. blk_end (hsize s) b < unat c) (as @ p # cs)"
    and f: "freep s \<in> set (as @ p # cs)"
    using assms(1) unfolding free_list_def sorted_blocks_def assms(2) by auto
  have "unat (hd (as @ [p])) \<le> unat p" using w by (cases as) (auto simp: blk_end_def)
  from free_step_stop[OF r assms(3) this] show ?thesis
    by (intro ring_walk[OF r _ f, where body = "free_step bp"] free_step_on[OF r assms(3) w]) simp_all
qed

lemma unat_units: "blk_end sz b < 2 ^ 36 \<Longrightarrow> unat (units b (sz b)) = blk_end sz b"
proof -
  assume a: "blk_end sz b < 2 ^ 36"
  have "unat (sz b) < 4294967296" using unsigned_less[of "sz b"] by simp
  then have "unat (sz b) mod 18446744073709551616 = unat (sz b)" "16 * unat (sz b) mod 18446744073709551616 = 16 * unat (sz b)"
    by (intro mod_less, linarith)+
  then have "unat (16 * ucast (sz b) :: u64) = 16 * unat (sz b)"
    by (simp add: unat_word_ariths unsigned_ucast_eq take_bit_nat_def)
  then show ?thesis using a unfolding units_def blk_end_def by (simp add: unat_word_ariths)
qed

section \<open>Freeing\<close>

lemma unat_sum:
  fixes a b :: u32
  assumes "unat a + unat b < 2 ^ 32"
  shows "unat (a + b) = unat a + unat b"
  using assms by (simp add: unat_word_ariths)

text \<open>Joining a block with the block right above it.\<close>

lemma joined_block:
  assumes "blk_end sz x = unat y" "blk_end sz y < 2 ^ 36" "x \<noteq> y"
  shows "blk_end (sz(x := sz x + sz y)) x = blk_end sz y"
    "blk_bytes (sz(x := sz x + sz y)) x = blk_bytes sz x \<union> blk_bytes sz y"
    "0 < sz x \<Longrightarrow> 0 < sz x + sz y"
proof -
  have "unat (sz x) + unat (sz y) < 2 ^ 32" using assms(1,2) by (simp add: blk_end_def)
  then have u: "unat (sz x + sz y) = unat (sz x) + unat (sz y)" by (rule unat_sum)
  then show e: "blk_end (sz(x := sz x + sz y)) x = blk_end sz y" using assms(1) by (simp add: blk_end_def)
  have "unat x \<le> unat y" "unat y \<le> blk_end sz y" using assms(1) by (auto simp: blk_end_def)
  then show "blk_bytes (sz(x := sz x + sz y)) x = blk_bytes sz x \<union> blk_bytes sz y"
    using assms(1) by (auto simp: blk_bytes_def e)
  show "0 < sz x \<Longrightarrow> 0 < sz x + sz y" using u by (simp add: size_pos)
qed

lemma blk_end_upd [simp]: "b \<noteq> x \<Longrightarrow> blk_end (sz(x := n)) b = blk_end sz b"
  by (simp add: blk_end_def)

lemma blk_bytes_upd [simp]: "b \<noteq> x \<Longrightarrow> blk_bytes (sz(x := n)) b = blk_bytes sz b"
  by (simp add: blk_bytes_def)

lemma free_bytes_simps [simp]:
  "free_bytes sz [] = {}" "free_bytes sz (b # bs) = blk_bytes sz b \<union> free_bytes sz bs"
  "free_bytes sz (as @ bs) = free_bytes sz as \<union> free_bytes sz bs"
  by (auto simp: free_bytes_def)

lemma free_bytes_upd [simp]: "x \<notin> set bs \<Longrightarrow> free_bytes (sz(x := n)) bs = free_bytes sz bs"
  unfolding free_bytes_def by (rule SUP_cong[OF refl]) (metis blk_bytes_upd)

lemma sorted_upd [simp]:
  "x \<notin> set xs \<Longrightarrow> sorted_wrt (\<lambda>b c. blk_end (sz(x := n)) b < unat c) xs = sorted_wrt (\<lambda>b c. blk_end sz b < unat c) xs"
  by (induction xs) auto

lemma sizes_upd [simp]:
  "x \<notin> set xs \<Longrightarrow> list_all (\<lambda>b. 0 < (sz(x := n)) b \<and> blk_end (sz(x := n)) b < k) xs =
     list_all (\<lambda>b. 0 < sz b \<and> blk_end sz b < k) xs"
  by (induction xs) auto

text \<open>The list with the block put in its place, joined with the block above where they meet.\<close>

definition upper_joined :: "(u64 \<Rightarrow> u32) \<Rightarrow> u64 \<Rightarrow> u64 list \<Rightarrow> (u64 \<Rightarrow> u32) \<times> u64 list" where
  "upper_joined sz bp cs =
     (if cs \<noteq> [] \<and> blk_end sz bp = unat (hd cs) then (sz(bp := sz bp + sz (hd cs)), tl cs) else (sz, cs))"

definition lower_joined :: "(u64 \<Rightarrow> u32) \<Rightarrow> u64 \<Rightarrow> u64 \<Rightarrow> (u64 \<Rightarrow> u32) \<times> u64 list" where
  "lower_joined sz p bp = (if blk_end sz p = unat bp then (sz(p := sz p + sz bp), []) else (sz, [bp]))"

lemma upper_joined_ok:
  assumes "upper_joined sz bp cs = (sz', cs')" "bp \<notin> set cs" "\<forall>c \<in> set cs. blk_end sz bp \<le> unat c" "0 < sz bp" "blk_end sz bp < 2 ^ 36"
    and "sorted_wrt (\<lambda>b c. blk_end sz b < unat c) cs" "list_all (\<lambda>b. 0 < sz b \<and> blk_end sz b < 2 ^ 36) cs"
  shows "sorted_wrt (\<lambda>b c. blk_end sz' b < unat c) (bp # cs')" "list_all (\<lambda>b. 0 < sz' b \<and> blk_end sz' b < 2 ^ 36) (bp # cs')"
    "free_bytes sz' (bp # cs') = blk_bytes sz bp \<union> free_bytes sz cs" "set cs' \<subseteq> set cs" "\<forall>x. x \<noteq> bp \<longrightarrow> sz' x = sz x"
proof -
  have "sorted_wrt (\<lambda>b c. blk_end sz' b < unat c) (bp # cs') \<and> list_all (\<lambda>b. 0 < sz' b \<and> blk_end sz' b < 2 ^ 36) (bp # cs') \<and>
    free_bytes sz' (bp # cs') = blk_bytes sz bp \<union> free_bytes sz cs \<and> set cs' \<subseteq> set cs \<and> (\<forall>x. x \<noteq> bp \<longrightarrow> sz' x = sz x)"
  proof (cases "cs \<noteq> [] \<and> blk_end sz bp = unat (hd cs)")
    case True
    then obtain d ds where cs: "cs = d # ds" "blk_end sz bp = unat d" by (cases cs) auto
    have sz': "sz' = sz(bp := sz bp + sz d)" "cs' = ds" using assms(1) cs by (auto simp: upper_joined_def)
    have d: "blk_end sz d < 2 ^ 36" "bp \<noteq> d" "bp \<notin> set ds" using assms(2,7) cs by auto
    note j = joined_block[OF cs(2) d(1,2)]
    have "sorted_wrt (\<lambda>b c. blk_end sz' b < unat c) ds"
      using assms(6) cs(1) d(3) unfolding sz' by simp
    then show ?thesis using j assms(4,6,7) cs d unfolding sz' by (auto simp: list_all_iff)
  next
    case False
    then have sz': "sz' = sz" "cs' = cs" using assms(1) by (auto simp: upper_joined_def split: if_splits)
    have "\<forall>c \<in> set cs. blk_end sz bp < unat c"
    proof (cases cs)
      case (Cons d ds)
      then have "blk_end sz bp < unat d" "\<forall>c \<in> set ds. blk_end sz d < unat c" using assms(3,6) False by auto
      then show ?thesis using Cons by (auto simp: blk_end_def)
    qed simp
    then show ?thesis using assms(4-7) unfolding sz' by simp
  qed
  then show "sorted_wrt (\<lambda>b c. blk_end sz' b < unat c) (bp # cs')" "list_all (\<lambda>b. 0 < sz' b \<and> blk_end sz' b < 2 ^ 36) (bp # cs')"
    "free_bytes sz' (bp # cs') = blk_bytes sz bp \<union> free_bytes sz cs" "set cs' \<subseteq> set cs" "\<forall>x. x \<noteq> bp \<longrightarrow> sz' x = sz x"
    by blast+
qed

lemma lower_joined_ok:
  assumes "lower_joined sz p bp = (sz', bl)" "blk_end sz p \<le> unat bp" "unat p < unat bp"
    and "sorted_wrt (\<lambda>b c. blk_end sz b < unat c) (bp # cs)" "list_all (\<lambda>b. 0 < sz b \<and> blk_end sz b < 2 ^ 36) (bp # cs)"
    and "p \<notin> set (bp # cs)" "\<forall>c \<in> set cs. blk_end sz p < unat c"
  shows "sorted_wrt (\<lambda>b c. blk_end sz' b < unat c) (p # bl @ cs)"
    "list_all (\<lambda>b. 0 < sz' b \<and> blk_end sz' b < 2 ^ 36) (bl @ cs)"
    "0 < sz p \<Longrightarrow> 0 < sz' p" "sz p = 0 \<Longrightarrow> sz' = sz" "blk_end sz p < 2 ^ 36 \<Longrightarrow> blk_end sz' p < 2 ^ 36"
    "free_bytes sz' (p # bl @ cs) = blk_bytes sz p \<union> blk_bytes sz bp \<union> free_bytes sz cs" "\<forall>x. x \<noteq> p \<longrightarrow> sz' x = sz x"
proof -
  have "sorted_wrt (\<lambda>b c. blk_end sz' b < unat c) (p # bl @ cs) \<and>
    list_all (\<lambda>b. 0 < sz' b \<and> blk_end sz' b < 2 ^ 36) (bl @ cs) \<and>
    (0 < sz p \<longrightarrow> 0 < sz' p) \<and> (sz p = 0 \<longrightarrow> sz' = sz) \<and> (blk_end sz p < 2 ^ 36 \<longrightarrow> blk_end sz' p < 2 ^ 36) \<and>
    free_bytes sz' (p # bl @ cs) = blk_bytes sz p \<union> blk_bytes sz bp \<union> free_bytes sz cs \<and> (\<forall>x. x \<noteq> p \<longrightarrow> sz' x = sz x)"
  proof (cases "blk_end sz p = unat bp")
    case True
    then have sz': "sz' = sz(p := sz p + sz bp)" "bl = []" using assms(1) by (auto simp: lower_joined_def)
    have d: "blk_end sz bp < 2 ^ 36" "p \<noteq> bp" "p \<notin> set cs" using assms(5,6) by auto
    note j = joined_block[OF True d(1,2)]
    have "sz p \<noteq> 0" using True assms(3) by (auto simp: blk_end_def)
    then show ?thesis using j d assms(4-7) unfolding sz' by (auto simp: word_neq_0_conv list_all_iff)
  next
    case False
    then have sz': "sz' = sz" "bl = [bp]" using assms(1) by (auto simp: lower_joined_def)
    have "blk_end sz p < unat bp" using False assms(2) by simp
    then show ?thesis using assms(4-7) unfolding sz' by auto
  qed
  then show "sorted_wrt (\<lambda>b c. blk_end sz' b < unat c) (p # bl @ cs)"
    "list_all (\<lambda>b. 0 < sz' b \<and> blk_end sz' b < 2 ^ 36) (bl @ cs)"
    "0 < sz p \<Longrightarrow> 0 < sz' p" "sz p = 0 \<Longrightarrow> sz' = sz" "blk_end sz p < 2 ^ 36 \<Longrightarrow> blk_end sz' p < 2 ^ 36"
    "free_bytes sz' (p # bl @ cs) = blk_bytes sz p \<union> blk_bytes sz bp \<union> free_bytes sz cs" "\<forall>x. x \<noteq> p \<longrightarrow> sz' x = sz x"
    by blast+
qed

text \<open>What the two joins do to the state.\<close>

lemma join_upper_run:
  assumes "ring (hptr s) (as @ p # cs)" "distinct (as @ p # cs)" "bp \<notin> set (as @ p # cs)"
    and "blk_end (hsize s) bp < 2 ^ 36" "unat (hd (as @ [p])) < unat bp"
    and "upper_joined (hsize s) bp cs = (sz', cs')"
  shows "\<exists>f. join_upper bp p s = Ok () (s\<lparr>hptr := f, hsize := sz'\<rparr>) \<and> ring (f(p := bp)) (as @ p # bp # cs')"
proof -
  let ?f0 = "(hptr s)(bp := hptr s p, p := bp)"
  have r0: "ring ?f0 (as @ p # bp # cs)" using ring_insert[OF assms(1-3)] .
  have u: "units bp (hsize s bp) = n \<longleftrightarrow> blk_end (hsize s) bp = unat n" for n
    using unat_units[OF assms(4)] by (metis word_unat_eq_iff)
  show ?thesis
  proof (cases "cs \<noteq> [] \<and> blk_end (hsize s) bp = unat (hd cs)")
    case True
    then obtain d ds where cs: "cs = d # ds" "blk_end (hsize s) bp = unat d" by (cases cs) auto
    have sz': "sz' = (hsize s)(bp := hsize s bp + hsize s d)" "cs' = ds" using assms(6) cs by (auto simp: upper_joined_def)
    have n: "hptr s p = d" using ring_succ(1)[OF assms(1)] cs by simp
    have "ring (?f0(bp := ?f0 d)) ((as @ [p]) @ bp # ds)"
      by (rule ring_remove) (use r0 assms(2,3) cs(1) in auto)
    moreover have "?f0(bp := ?f0 d) = ((hptr s)(bp := hptr s d))(p := bp)" using assms(2,3) cs(1) by auto
    moreover have "join_upper bp p s = Ok () (s\<lparr>hptr := (hptr s)(bp := hptr s d), hsize := sz'\<rparr>)"
      using n u[of d] cs(2) by (simp add: join_upper_def set_size_def set_ptr_def kop_simps sz')
    ultimately show ?thesis using sz'(2) by (intro exI[of _ "(hptr s)(bp := hptr s d)"]) simp
  next
    case False
    then have sz': "sz' = hsize s" "cs' = cs" using assms(6) by (auto simp: upper_joined_def split: if_splits)
    have "unat (hptr s p) \<noteq> blk_end (hsize s) bp"
    proof (cases cs)
      case Nil
      then show ?thesis using ring_succ(2)[OF assms(1)] assms(5) by (simp add: blk_end_def)
    qed (use ring_succ(1)[OF assms(1)] False in auto)
    then have "join_upper bp p s = Ok () (s\<lparr>hptr := (hptr s)(bp := hptr s p), hsize := sz'\<rparr>)"
      using u[of "hptr s p"] by (auto simp: join_upper_def set_ptr_def kop_simps sz')
    then show ?thesis using r0 sz'(2) by (intro exI[of _ "(hptr s)(bp := hptr s p)"]) simp
  qed
qed

lemma join_lower_run:
  assumes "ring ((hptr s)(p := bp)) (as @ p # bp # cs)" "distinct (as @ p # bp # cs)" "blk_end (hsize s) p < 2 ^ 36"
    and "lower_joined (hsize s) p bp = (sz', bl)"
  shows "\<exists>f. join_lower bp p s = Ok () (s\<lparr>hptr := f, hsize := sz'\<rparr>) \<and> ring f (as @ p # bl @ cs)"
proof -
  have u: "units p (hsize s p) = bp \<longleftrightarrow> blk_end (hsize s) p = unat bp"
    using unat_units[OF assms(3)] by (metis word_unat_eq_iff)
  show ?thesis
  proof (cases "blk_end (hsize s) p = unat bp")
    case True
    then have sz': "sz' = (hsize s)(p := hsize s p + hsize s bp)" "bl = []" using assms(4) by (auto simp: lower_joined_def)
    have "ring (((hptr s)(p := bp))(p := ((hptr s)(p := bp)) bp)) (as @ p # cs)"
      by (rule ring_remove) (use assms(1,2) in auto)
    moreover have "((hptr s)(p := bp))(p := ((hptr s)(p := bp)) bp) = (hptr s)(p := hptr s bp)" using assms(2) by auto
    ultimately show ?thesis using True u sz'
      by (intro exI[of _ "(hptr s)(p := hptr s bp)"]) (simp add: join_lower_def set_size_def set_ptr_def kop_simps)
  next
    case False
    then have sz': "sz' = hsize s" "bl = [bp]" using assms(4) by (auto simp: lower_joined_def)
    then show ?thesis using False u assms(1) by (auto simp: join_lower_def set_ptr_def kop_simps)
  qed
qed

text \<open>The blocks of a list that may begin with \<open>base\<close>.\<close>

lemma sorted_blocks_R:
  assumes "base # bs = R"
  shows "sorted_blocks base sz bs \<longleftrightarrow> sz base = 0 \<and> sorted_wrt (\<lambda>b c. blk_end sz b < unat c) R \<and>
    (\<forall>x \<in> set R. x \<noteq> base \<longrightarrow> 0 < sz x \<and> blk_end sz x < 2 ^ 36)"
proof -
  have "base \<notin> set bs" if "sorted_wrt (\<lambda>b c. blk_end sz b < unat c) R" using that assms by (auto simp: blk_end_def)
  then show ?thesis unfolding assms[symmetric] by (auto simp: sorted_blocks_def list_all_iff)
qed

lemma free_bytes_R: "sz base = 0 \<Longrightarrow> base # bs = R \<Longrightarrow> free_bytes sz R = free_bytes sz bs"
  by (auto simp: blk_bytes_def blk_end_def)

text \<open>Where two size functions agree.\<close>

lemma free_bytes_same: "(\<And>x. x \<in> set xs \<Longrightarrow> sz2 x = sz x) \<Longrightarrow> free_bytes sz2 xs = free_bytes sz xs"
  by (auto simp: free_bytes_def blk_bytes_def blk_end_def)

lemma sorted_tail:
  assumes w: "sorted_wrt (\<lambda>b c. blk_end sz b < unat c) (as @ p # cs)" and eq: "\<And>x. x \<in> set as \<Longrightarrow> sz2 x = sz x"
    and ds: "\<And>c. c \<in> set ds \<Longrightarrow> unat p < unat c \<or> c \<in> set cs" "sorted_wrt (\<lambda>b c. blk_end sz2 b < unat c) (p # ds)"
  shows "sorted_wrt (\<lambda>b c. blk_end sz2 b < unat c) (as @ p # ds)"
proof -
  have same: "blk_end sz2 a = blk_end sz a" if "a \<in> set as" for a using eq[OF that] by (simp add: blk_end_def)
  have "sorted_wrt (\<lambda>b c. blk_end sz2 b < unat c) as"
    using w same by (auto simp: sorted_wrt_append intro: sorted_wrt_mono_rel[of as "\<lambda>b c. blk_end sz b < unat c"])
  moreover have "blk_end sz2 a < unat c" if "a \<in> set as" "c \<in> set (p # ds)" for a c
  proof -
    have "blk_end sz a < unat p" "\<forall>c \<in> set cs. blk_end sz a < unat c" using w that(1) by (auto simp: sorted_wrt_append)
    then show ?thesis using that(2) same[OF that(1)] ds(1)[of c] by auto
  qed
  ultimately show ?thesis using ds(2) by (simp only: sorted_wrt_append) blast
qed

text \<open>The list after both joins.\<close>

lemma joined_list:
  assumes sb: "sorted_blocks base sz bs" and R: "base # bs = as @ p # cs" and pl: "placed sz as p cs bp" and fr: "fresh base sz bs bp"
    and u: "upper_joined sz bp cs = (sz1, cs1)" and l: "lower_joined sz1 p bp = (sz2, bl)"
  shows "\<exists>bs'. base # bs' = as @ p # bl @ cs1 \<and> sorted_blocks base sz2 bs' \<and>
    free_bytes sz2 bs' = free_bytes sz bs \<union> blk_bytes sz bp \<and> (\<forall>x. x \<notin> {p, bp} \<longrightarrow> sz2 x = sz x)"
proof -
  have w: "sorted_wrt (\<lambda>b c. blk_end sz b < unat c) (as @ p # cs)" and z: "sz base = 0"
    and ok: "\<And>x. x \<in> set (as @ p # cs) \<Longrightarrow> x \<noteq> base \<Longrightarrow> 0 < sz x \<and> blk_end sz x < 2 ^ 36"
    using sb unfolding sorted_blocks_R[OF R] by auto
  have d: "distinct (as @ p # cs)" using sorted_distinct[OF w] .
  have low: "unat x < unat bp" "blk_end sz x \<le> unat bp" if "x \<in> set (as @ [p])" for x using pl that by (auto simp: placed_def)
  have bp: "bp \<notin> set (as @ p # cs)" "bp \<noteq> base" using pl fr by (auto simp: placed_def fresh_def)
  have base_cs: "base \<notin> set cs" using R d by (cases as) auto
  have cs: "list_all (\<lambda>b. 0 < sz b \<and> blk_end sz b < 2 ^ 36) cs" using ok base_cs by (auto simp: list_all_iff)
  have pre: "bp \<notin> set cs" "\<forall>c \<in> set cs. blk_end sz bp \<le> unat c" "0 < sz bp" "blk_end sz bp < 2 ^ 36"
    "sorted_wrt (\<lambda>b c. blk_end sz b < unat c) cs"
    using bp pl fr w by (auto simp: placed_def fresh_def sorted_wrt_append)
  note 1 = upper_joined_ok[OF u pre cs]
  have same: "blk_end sz1 x = blk_end sz x" "blk_bytes sz1 x = blk_bytes sz x" if "x \<noteq> bp" for x
    using 1(5) that by (auto simp: blk_end_def blk_bytes_def)
  have p: "blk_end sz1 p \<le> unat bp" "unat p < unat bp" "p \<notin> set (bp # cs1)" "\<forall>c \<in> set cs1. blk_end sz1 p < unat c" "p \<noteq> bp"
    using low[of p] d bp 1(4) w same[of p] by (auto simp: sorted_wrt_append)
  note L = lower_joined_ok[OF l p(1,2) 1(1,2) p(3,4)]
  have eq: "sz2 x = sz x" if "x \<notin> {p, bp}" for x using that 1(5) L(7) by simp
  have bl: "set bl \<subseteq> {bp}" using l by (auto simp: lower_joined_def split: if_splits)
  have as: "x \<notin> {p, bp}" if "x \<in> set as" for x using that d bp by auto
  obtain bs' where R': "base # bs' = as @ p # bl @ cs1" using R by (cases as) auto
  have "sz2 base = 0" using z 1(5) L(4) eq[of base] bp(2) by (cases "p = base") auto
  moreover have "sorted_wrt (\<lambda>b c. blk_end sz2 b < unat c) (as @ p # bl @ cs1)"
    by (rule sorted_tail[OF w _ _ L(1)]) (use eq[OF as] bl 1(4) p(2) in auto)
  moreover have "0 < sz2 x \<and> blk_end sz2 x < 2 ^ 36" if x: "x \<in> set as" "x \<noteq> base" for x
    using ok[of x] x eq[OF as[OF x(1)]] by (auto simp: blk_end_def)
  moreover have "0 < sz2 p \<and> blk_end sz2 p < 2 ^ 36" if "p \<noteq> base"
    using ok[of p] that L(3,5) same(1)[OF p(5)] 1(5) p(5) by simp
  moreover have "0 < sz2 x \<and> blk_end sz2 x < 2 ^ 36" if "x \<in> set (bl @ cs1)" for x using that L(2) by (auto simp: list_all_iff)
  ultimately have sb': "sorted_blocks base sz2 bs'" unfolding sorted_blocks_R[OF R'] by auto
  have "free_bytes sz2 as = free_bytes sz as" by (rule free_bytes_same) (rule eq[OF as])
  moreover have "free_bytes sz2 (p # bl @ cs1) = blk_bytes sz p \<union> (blk_bytes sz bp \<union> free_bytes sz cs)"
    using L(6) 1(3) same(2)[OF p(5)] by (simp only: free_bytes_simps Un_assoc)
  ultimately have "free_bytes sz2 (as @ p # bl @ cs1) = free_bytes sz (as @ p # cs) \<union> blk_bytes sz bp"
    by (simp only: free_bytes_simps) blast
  then show ?thesis using R' sb' eq free_bytes_R[of sz base bs] free_bytes_R[of sz2 base bs'] R z \<open>sz2 base = 0\<close> by auto
qed

text \<open>\<open>free\<close> puts exactly the bytes of the block into the free list and keeps its form.\<close>

lemma u_free_run:
  assumes "free_list base s bs" "fresh base (hsize s) bs bp"
  shows "\<exists>s' bs'. u_free (bp + 16) s = Ok () s' \<and> free_list base s' bs' \<and>
    free_bytes (hsize s') bs' = free_bytes (hsize s) bs \<union> blk_bytes (hsize s) bp \<and>
    (\<forall>x. x \<notin> set (bp # base # bs) \<longrightarrow> hsize s' x = hsize s x) \<and> env s' = env s \<and> calls s' = calls s"
proof -
  let ?sz = "hsize s"
  have sb: "sorted_blocks base ?sz bs" and r: "ring (hptr s) (base # bs)" using assms(1) by (auto simp: free_list_def)
  obtain as p cs where R: "base # bs = as @ p # cs" and pl: "placed ?sz as p cs bp" using fresh_placed[OF assms(2) sb] by blast
  have d: "distinct (as @ p # cs)" using sorted_blocks_distinct[OF sb] unfolding R .
  have bp: "bp \<notin> set (as @ p # cs)" using pl by (auto simp: placed_def)
  obtain sz1 cs1 where u: "upper_joined ?sz bp cs = (sz1, cs1)" by force
  obtain sz2 bl where l: "lower_joined sz1 p bp = (sz2, bl)" by force
  obtain f1 where f1: "join_upper bp p s = Ok () (s\<lparr>hptr := f1, hsize := sz1\<rparr>)" "ring (f1(p := bp)) (as @ p # bp # cs1)"
    using join_upper_run[of s as p cs bp sz1 cs1] r R d bp u assms(2) pl
    by (cases as) (auto simp: fresh_def placed_def)
  obtain bs' where bs': "base # bs' = as @ p # bl @ cs1" "sorted_blocks base sz2 bs'"
    "free_bytes sz2 bs' = free_bytes ?sz bs \<union> blk_bytes ?sz bp" "\<forall>x. x \<notin> {p, bp} \<longrightarrow> sz2 x = ?sz x"
    using joined_list[OF sb R pl assms(2) u l] by blast
  have cs1: "set cs1 \<subseteq> set cs" "distinct cs1" "sz1 p = ?sz p"
    using u d bp by (auto simp: upper_joined_def distinct_tl dest: list.set_sel(2) split: if_splits)
  have "blk_end ?sz p < 2 ^ 36"
    using pl assms(2) by (auto simp: placed_def fresh_def blk_end_def)
  then obtain f2 where f2: "join_lower bp p (s\<lparr>hptr := f1, hsize := sz1\<rparr>) = Ok () (s\<lparr>hptr := f2, hsize := sz2\<rparr>)" "ring f2 (as @ p # bl @ cs1)"
    using join_lower_run[of "s\<lparr>hptr := f1, hsize := sz1\<rparr>" p bp as cs1 sz2 bl] f1(2) l cs1 d bp by (auto simp: blk_end_def)
  have "u_free (bp + 16) s = Ok () (s\<lparr>hptr := f2, hsize := sz2, freep := p\<rparr>)"
    using free_search[OF assms(1) R pl] by (simp add: u_free_def kop_simps bindk_def f1(1) f2(1))
  moreover have "p \<in> set (base # bs')" unfolding bs'(1) by simp
  ultimately show ?thesis using bs' f2(2) R
    by (intro exI[of _ "s\<lparr>hptr := f2, hsize := sz2, freep := p\<rparr>"] exI[of _ bs']) (auto simp: free_list_def)
qed

section \<open>Allocating\<close>

text \<open>What is left when a block \<open>q\<close> of \<open>n\<close> units has been taken from the free list.\<close>

definition taken :: "u64 \<Rightarrow> heap \<Rightarrow> u64 list \<Rightarrow> u32 \<Rightarrow> u64 \<Rightarrow> heap \<Rightarrow> u64 list \<Rightarrow> bool" where
  "taken base s bs n q s' bs' \<longleftrightarrow> free_list base s' bs' \<and> hsize s' q = n \<and>
     blk_bytes (hsize s') q \<inter> free_bytes (hsize s') bs' = {} \<and>
     blk_bytes (hsize s') q \<union> free_bytes (hsize s') bs' = free_bytes (hsize s) bs \<and>
     (\<forall>x. x \<notin> set bs \<longrightarrow> x \<noteq> q \<longrightarrow> hsize s' x = hsize s x)"

lemma free_list_split:
  assumes "free_list base s bs" "p \<in> set bs"
  obtains C y D where "base # bs = C @ y # p # D" "hptr s y = p"
proof -
  obtain X D where X: "bs = X @ p # D" using assms(2) by (meson split_list)
  have "base # X = butlast (base # X) @ [last (base # X)]" by simp
  then have R: "base # bs = butlast (base # X) @ last (base # X) # p # D"
    unfolding X by (metis append_Cons append_assoc append_Nil)
  have "ring (hptr s) (base # bs)" using assms(1) by (simp add: free_list_def)
  then have "hptr s (last (base # X)) = p" using ring_succ(1)[of "hptr s" "butlast (base # X)" "last (base # X)" "p # D"] R by simp
  with R that show ?thesis by blast
qed

lemma blocks_apart:
  assumes "sorted_wrt (\<lambda>b c. blk_end sz b < unat c) R" "b \<in> set R" "c \<in> set R" "b \<noteq> c"
  shows "blk_end sz b < unat c \<or> blk_end sz c < unat b"
proof -
  obtain X Y where R: "R = X @ b # Y" using assms(2) by (meson split_list)
  with assms(3,4) consider "c \<in> set X" | "c \<in> set Y" by auto
  then show ?thesis using assms(1) unfolding R by cases (auto simp: sorted_wrt_append)
qed

lemma block_alone:
  assumes "sorted_wrt (\<lambda>b c. blk_end sz b < unat c) R" "p \<in> set R" "set zs \<subseteq> set R - {p}"
  shows "blk_bytes sz p \<inter> free_bytes sz zs = {}"
proof -
  have "blk_bytes sz p \<inter> blk_bytes sz b = {}" if "b \<in> set zs" for b
    using blocks_apart[OF assms(1,2), of b] that assms(3) by (force simp: blk_bytes_def blk_end_def)
  then show ?thesis by (auto simp: free_bytes_def)
qed

lemma take_all:
  assumes "free_list base s bs" "p \<in> set bs" "prevp \<in> set (base # bs)" "hptr s prevp = p"
  shows "\<exists>s' bs'. malloc_take (hsize s p) prevp p s = Ok (p + 16) s' \<and> taken base s bs (hsize s p) p s' bs'"
proof -
  obtain C y D where R: "base # bs = C @ y # p # D" "hptr s y = p" using free_list_split[OF assms(1,2)] by blast
  have r: "ring (hptr s) (base # bs)" and sb: "sorted_blocks base (hsize s) bs" using assms(1) by (auto simp: free_list_def)
  have d: "distinct (C @ y # p # D)" using sorted_blocks_distinct[OF sb] R(1) by simp
  have "prevp = y" using ring_inj[OF r sorted_blocks_distinct[OF sb]] assms(3,4) R by (auto dest: inj_onD)
  let ?s = "s\<lparr>hptr := (hptr s)(y := hptr s p), freep := y\<rparr>"
  have run: "malloc_take (hsize s p) prevp p s = Ok (p + 16) ?s"
    using \<open>prevp = y\<close> by (simp add: malloc_take_def set_ptr_def kop_simps)
  obtain bs' where R': "base # bs' = C @ y # D" using R(1) by (cases C) auto
  have "ring ((hptr s)(y := hptr s p)) (C @ y # D)" by (rule ring_remove) (use r R(1) d in auto)
  moreover have "sorted_blocks base (hsize s) bs'"
    using sb unfolding sorted_blocks_R[OF R'] sorted_blocks_R[OF R(1)] by (auto simp: sorted_wrt_append)
  moreover have "y \<in> set (base # bs')" unfolding R' by simp
  ultimately have fl: "free_list base ?s bs'" unfolding free_list_def R' by simp
  have z: "hsize s base = 0" using sb by (simp add: sorted_blocks_def)
  have u: "free_bytes (hsize s) bs = blk_bytes (hsize s) p \<union> free_bytes (hsize s) bs'"
    using free_bytes_R[of "hsize s", OF z R(1)] free_bytes_R[of "hsize s", OF z R'] by auto
  have w: "sorted_wrt (\<lambda>b c. blk_end (hsize s) b < unat c) (C @ y # p # D)" using sb unfolding sorted_blocks_R[OF R(1)] by simp
  have "blk_bytes (hsize s) p \<inter> free_bytes (hsize s) (C @ y # D) = {}" using d by (intro block_alone[OF w]) auto
  then have "taken base s bs (hsize s p) p ?s bs'"
    using fl u free_bytes_R[of "hsize s", OF z R'] by (auto simp: taken_def)
  with run show ?thesis by blast
qed

text \<open>A block cut in two: its front stays in the list with the rest of the size, its end \<open>q\<close> does not belong to it.\<close>

lemma split_block:
  assumes sb: "sorted_blocks base sz bs" and p: "p \<in> set bs" and n: "n < sz p" "0 < n"
    and q_def: "q = units p (sz p - n)" and sz2: "sz2 = sz(p := sz p - n, q := n)"
  shows "q \<notin> set (base # bs)" "sorted_blocks base sz2 bs" "blk_bytes sz2 p = {unat p ..< unat q}"
    "blk_bytes sz2 q = {unat q ..< blk_end sz p}" "unat p < unat q" "unat q < blk_end sz p"
proof -
  have nn: "unat (sz p - n) + unat n = unat (sz p)" "0 < sz p - n"
    using n by (auto simp: unat_sub word_less_nat_alt order_less_imp_le size_pos word_le_nat_alt)
  have "blk_end sz p < 2 ^ 36" using sb p by (simp add: sorted_blocks_def list_all_iff)
  then have "blk_end (sz(p := sz p - n)) p < 2 ^ 36" using nn by (simp add: blk_end_def)
  from unat_units[OF this] have q: "unat q = unat p + 16 * unat (sz p - n)" by (simp add: q_def blk_end_def)
  then show q1: "unat p < unat q" "unat q < blk_end sz p" using nn n by (auto simp: blk_end_def size_pos)
  have w: "sorted_wrt (\<lambda>b c. blk_end sz b < unat c) (base # bs)" and z: "sz base = 0" using sb by (auto simp: sorted_blocks_def)
  have qb: "q \<noteq> b" if "b \<in> set (base # bs)" for b
    using blocks_apart[OF w, of p b] that p q1 by (cases "b = p") (auto simp: blk_end_def)
  then show "q \<notin> set (base # bs)" by blast
  have p2: "sz2 p = sz p - n" "blk_end sz2 p = unat q" using qb[of p] p q by (auto simp: sz2 blk_end_def)
  then show "blk_bytes sz2 p = {unat p ..< unat q}" by (simp add: blk_bytes_def)
  show "blk_bytes sz2 q = {unat q ..< blk_end sz p}" using q nn(1) by (auto simp: sz2 blk_bytes_def blk_end_def)
  have same: "sz2 b = sz b \<and> blk_end sz2 b = blk_end sz b" if "b \<in> set (base # bs)" "b \<noteq> p" for b
    using that qb by (auto simp: sz2 blk_end_def)
  have le: "blk_end sz2 b \<le> blk_end sz b" if "b \<in> set (base # bs)" for b using same[OF that] p2(2) q1(2) by (cases "b = p") auto
  have "sorted_wrt (\<lambda>b c. blk_end sz2 b < unat c) (base # bs)" by (rule sorted_wrt_mono_rel[OF _ w]) (use le in fastforce)
  moreover have "0 < sz2 b \<and> blk_end sz2 b < 2 ^ 36" if "b \<in> set (base # bs)" "b \<noteq> base" for b
  proof -
    have "0 < sz b \<and> blk_end sz b < 2 ^ 36" using sb that by (auto simp: sorted_blocks_def list_all_iff)
    then show ?thesis using same[OF that(1)] p2(1) nn(2) le[OF that(1)] by (cases "b = p") auto
  qed
  moreover have "sz2 base = 0" using same[of base] z p sorted_blocks_distinct[OF sb] by auto
  ultimately show "sorted_blocks base sz2 bs" using sorted_blocks_R[OF refl, of base sz2 bs] by blast
qed

lemma take_end:
  assumes fl: "free_list base s bs" and p: "p \<in> set bs" and prevp: "prevp \<in> set (base # bs)" and n: "n < hsize s p" "0 < n"
  shows "\<exists>q s' bs'. malloc_take n prevp p s = Ok (q + 16) s' \<and> taken base s bs n q s' bs'"
proof -
  let ?sz = "hsize s"
  define q where "q = units p (?sz p - n)"
  define sz2 where "sz2 = ?sz(p := ?sz p - n, q := n)"
  have sb: "sorted_blocks base ?sz bs" using fl by (simp add: free_list_def)
  note S = split_block[OF sb p n q_def sz2_def]
  have same: "sz2 b = ?sz b" if "b \<noteq> p" "b \<noteq> q" for b using that by (simp add: sz2_def)
  let ?s = "s\<lparr>hsize := sz2, freep := prevp\<rparr>"
  have run: "malloc_take n prevp p s = Ok (q + 16) ?s"
    using n by (auto simp: malloc_take_def set_size_def kop_simps Let_def sz2_def q_def)
  have fl': "free_list base ?s bs" using fl prevp S(2) by (simp add: free_list_def)
  have w: "sorted_wrt (\<lambda>b c. blk_end ?sz b < unat c) (base # bs)" using sb by (simp add: sorted_blocks_def)
  have d: "distinct (base # bs)" using sorted_blocks_distinct[OF sb] .
  obtain X Y where bs: "bs = X @ p # Y" using p by (meson split_list)
  have "free_bytes sz2 zs = free_bytes ?sz zs" if "set zs \<subseteq> set X \<union> set Y" for zs
    by (rule free_bytes_same, rule same) (use that d S(1) in \<open>auto simp: bs\<close>)
  then have fb: "free_bytes sz2 bs = free_bytes ?sz X \<union> {unat p ..< unat q} \<union> free_bytes ?sz Y" by (simp add: bs S(3) Un_assoc)
  have pp: "blk_bytes ?sz p = {unat p ..< unat q} \<union> {unat q ..< blk_end ?sz p}" using S(5,6) by (auto simp: blk_bytes_def)
  then have un: "blk_bytes sz2 q \<union> free_bytes sz2 bs = free_bytes ?sz bs" unfolding fb S(4) by (auto simp: bs)
  have "blk_bytes ?sz p \<inter> free_bytes ?sz (X @ Y) = {}" using d bs by (intro block_alone[OF w]) auto
  then have "blk_bytes sz2 q \<inter> free_bytes sz2 bs = {}" unfolding fb S(4) using pp by auto
  moreover have "\<forall>x. x \<notin> set bs \<longrightarrow> x \<noteq> q \<longrightarrow> sz2 x = ?sz x" using same p by metis
  moreover have "sz2 q = n" by (simp add: sz2_def)
  ultimately have "taken base s bs n q ?s bs" using fl' un by (simp add: taken_def)
  with run show ?thesis by blast
qed

lemma take_run:
  assumes "free_list base s bs" "prevp \<in> set (base # bs)" "hptr s prevp = p" "n \<le> hsize s p" "0 < n"
  shows "\<exists>q s' bs'. malloc_take n prevp p s = Ok (q + 16) s' \<and> taken base s bs n q s' bs'"
proof -
  have r: "ring (hptr s) (base # bs)" and z: "hsize s base = 0" using assms(1) by (auto simp: free_list_def sorted_blocks_def)
  have "p \<in> set (base # bs)" using ring_closed[OF r assms(2)] assms(3) by simp
  then have p: "p \<in> set bs" using z assms(4,5) by auto
  show ?thesis
  proof (cases "n = hsize s p")
    case True
    then show ?thesis using take_all[OF assms(1) p assms(2,3)] by blast
  next
    case False
    then show ?thesis using take_end[OF assms(1) p assms(2) _ assms(5)] assms(4) by simp
  qed
qed

lemma loop_take:
  assumes "n \<le> hsize s p"
  shows "loopk (malloc_step n) (pp, p) s = malloc_take n pp p s"
proof -
  obtain r s' where t: "malloc_take n pp p s = Ok r s'"
    by (cases "hsize s p = n") (auto simp: malloc_take_def set_ptr_def set_size_def kop_simps Let_def)
  then have "malloc_step n (pp, p) s = Ok (Inr r) s'" using assms by (simp add: malloc_step_def kop_simps bindk_def)
  with t show ?thesis using loopk_steps(2)[of "malloc_step n"] by metis
qed

text \<open>The search along the ring, from the block after \<open>prevp\<close> to the block \<open>f\<close>, where it would wrap around.\<close>

lemma malloc_scan:
  assumes "f = freep s"
  shows "map (hptr s) (prevp # ys) = ys @ [f] \<Longrightarrow> f \<notin> set ys \<Longrightarrow>
    (\<exists>pp. pp \<in> set (prevp # ys) \<and> n \<le> hsize s (hptr s pp) \<and>
       loopk (malloc_step n) (prevp, hptr s prevp) s = malloc_take n pp (hptr s pp) s) \<or>
    (\<forall>y \<in> set (ys @ [f]). \<not> n \<le> hsize s y) \<and>
      (\<exists>pp. loopk (malloc_step n) (prevp, hptr s prevp) s = loopk (malloc_step n) (pp, f) s)"
proof (induction ys arbitrary: prevp)
  case Nil
  then have h: "hptr s prevp = f" by simp
  then show ?case using loop_take[of n s f prevp] by auto
next
  case (Cons y ys)
  then have h: "hptr s prevp = y" "map (hptr s) (y # ys) = ys @ [f]" "y \<noteq> f" "f \<notin> set ys" by auto
  show ?case
  proof (cases "n \<le> hsize s y")
    case True
    then show ?thesis using loop_take[of n s y prevp] h(1) by auto
  next
    case False
    then have "malloc_step n (prevp, y) s = Ok (Inl (y, hptr s y)) s"
      using h(3) assms by (simp add: malloc_step_def kop_simps)
    then have "loopk (malloc_step n) (prevp, y) s = loopk (malloc_step n) (y, hptr s y) s" by (rule loopk_steps(1))
    with Cons.IH[OF h(2,4)] h(1) False show ?thesis by auto
  qed
qed

text \<open>A round of the search.\<close>

lemma malloc_round:
  assumes "free_list base s bs" "0 < n"
  shows "(\<exists>b \<in> set bs. n \<le> hsize s b) \<and>
    (\<exists>q s' bs'. loopk (malloc_step n) (freep s, hptr s (freep s)) s = Ok (q + 16) s' \<and> taken base s bs n q s' bs') \<or>
    (\<forall>b \<in> set bs. hsize s b < n) \<and>
    (\<exists>pp. loopk (malloc_step n) (freep s, hptr s (freep s)) s = loopk (malloc_step n) (pp, freep s) s)"
proof -
  have r: "ring (hptr s) (base # bs)" and f: "freep s \<in> set (base # bs)" and d: "distinct (base # bs)"
    using assms(1) sorted_blocks_distinct by (auto simp: free_list_def)
  obtain A B where R: "base # bs = A @ freep s # B" using f by (meson split_list)
  have "ring (hptr s) (freep s # B @ A)" using ring_swap[of "hptr s" A "freep s # B"] r R by simp
  then have m: "map (hptr s) (freep s # B @ A) = (B @ A) @ [freep s]" by (simp add: ring_Cons)
  have all: "set ((B @ A) @ [freep s]) = set (base # bs)" "set (freep s # B @ A) = set (base # bs)" unfolding R by auto
  have "freep s \<notin> set (B @ A)" using d unfolding R by auto
  from malloc_scan[OF refl m this, of n] show ?thesis
  proof
    assume "\<exists>pp. pp \<in> set (freep s # B @ A) \<and> n \<le> hsize s (hptr s pp) \<and>
       loopk (malloc_step n) (freep s, hptr s (freep s)) s = malloc_take n pp (hptr s pp) s"
    then obtain pp where "pp \<in> set (base # bs)" "n \<le> hsize s (hptr s pp)"
      "loopk (malloc_step n) (freep s, hptr s (freep s)) s = malloc_take n pp (hptr s pp) s" unfolding all by blast
    moreover from this have "hptr s pp \<in> set (base # bs)" "hptr s pp \<noteq> base"
      using ring_closed[OF r] assms by (auto simp: free_list_def sorted_blocks_def)
    ultimately show ?thesis using take_run[OF assms(1) _ refl _ assms(2), of pp] by auto
  next
    assume "(\<forall>y \<in> set ((B @ A) @ [freep s]). \<not> n \<le> hsize s y) \<and>
      (\<exists>pp. loopk (malloc_step n) (freep s, hptr s (freep s)) s = loopk (malloc_step n) (pp, freep s) s)"
    then show ?thesis unfolding all by auto
  qed
qed

section \<open>Asking the kernel for memory\<close>

definition brk_answer :: "heap \<Rightarrow> u32 \<Rightarrow> u64" where
  "brk_answer s nu = word_of_int (rv (env s (calls s @ [SSbrk (sbrk_arg nu)])))"

definition granted :: "heap \<Rightarrow> u32 \<Rightarrow> nat set" where
  "granted s nu = {unat (brk_answer s nu) ..< unat (brk_answer s nu) + nat (sbrk_arg nu)}"

text \<open>The contract of \<open>sbrk\<close>: it fails, or returns the start of as many new bytes as it was asked for.\<close>

definition sbrk_sound :: "u64 \<Rightarrow> heap \<Rightarrow> u64 list \<Rightarrow> u32 \<Rightarrow> bool" where
  "sbrk_sound base s bs nu \<longleftrightarrow> brk_answer s nu = -1 \<or>
     (unat base < unat (brk_answer s nu) \<and> granted s nu \<subseteq> {..< 2 ^ 36 - 1} \<and> granted s nu \<inter> free_bytes (hsize s) bs = {})"

lemma sbrk_arg_val: "unat nu < 2 ^ 27 \<Longrightarrow> sbrk_arg nu = 16 * int (unat nu)"
proof -
  assume a: "unat nu < 2 ^ 27"
  then have "unat nu mod 18446744073709551616 = unat nu" "16 * unat nu mod 18446744073709551616 = 16 * unat nu"
    "16 * unat nu mod 4294967296 = 16 * unat nu" by (intro mod_less, simp)+
  then have "unat (ucast ((ucast nu :: u64) * 16) :: u32) = 16 * unat nu"
    by (simp add: unat_word_ariths unsigned_ucast_eq take_bit_nat_def mult.commute)
  then have "uint (ucast ((ucast nu :: u64) * 16) :: u32) = int (16 * unat nu)" by (metis uint_nat)
  moreover have "16 * unat nu < 2 ^ 31" using a by simp
  then have "int (16 * unat nu) < 2 ^ 31" by (metis of_nat_less_iff of_nat_numeral of_nat_power)
  ultimately show ?thesis by (simp add: sbrk_arg_def sint_uint signed_take_bit_eq_take_bit_shift take_bit_int_eq_self)
qed

lemma granted_units:
  "unat nu < 2 ^ 27 \<Longrightarrow> granted s nu = {unat (brk_answer s nu) ..< unat (brk_answer s nu) + 16 * unat nu}"
  by (simp add: granted_def sbrk_arg_val nat_mult_distrib)

text \<open>A run of free bytes lies in one block, because no two free blocks touch.\<close>

lemma big_block:
  assumes "sorted_blocks base sz bs" "{a ..< a + 16 * m} \<subseteq> free_bytes sz bs" "0 < m"
  shows "\<exists>b \<in> set bs. m \<le> unat (sz b)"
proof -
  have "a \<in> free_bytes sz bs" using assms(2,3) by auto
  then obtain b where b: "b \<in> set bs" "unat b \<le> a" "a < blk_end sz b" by (auto simp: free_bytes_def blk_bytes_def)
  have "\<not> blk_end sz b < a + 16 * m"
  proof
    assume "blk_end sz b < a + 16 * m"
    then have "blk_end sz b \<in> free_bytes sz bs" using assms(2) b(3) by auto
    then obtain c where c: "c \<in> set bs" "unat c \<le> blk_end sz b" "blk_end sz b < blk_end sz c" by (auto simp: free_bytes_def blk_bytes_def)
    have w: "sorted_wrt (\<lambda>b c. blk_end sz b < unat c) bs" using assms(1) by (simp add: sorted_blocks_def)
    have "b \<noteq> c" using c(3) by auto
    then show False using blocks_apart[OF w b(1) c(1)] c b by (auto simp: blk_end_def)
  qed
  then have "m \<le> unat (sz b)" using b(2) by (simp add: blk_end_def)
  with b(1) show ?thesis by blast
qed

lemma morecore_refused:
  assumes "nu = (if n < 4096 then 4096 else n)" "brk_answer s nu = -1"
  shows "morecore n s = Ok 0 (s\<lparr>calls := calls s @ [SSbrk (sbrk_arg nu)]\<rparr>)"
  using assms by (simp add: morecore_def kop_simps brk_answer_def Let_def)

lemma morecore_granted:
  assumes "free_list base s bs" "nu = (if n < 4096 then 4096 else n)" "unat nu < 2 ^ 27"
    and "sbrk_sound base s bs nu" "brk_answer s nu \<noteq> -1"
  shows "\<exists>s' bs'. morecore n s = Ok (freep s') s' \<and> free_list base s' bs' \<and>
    free_bytes (hsize s') bs' = free_bytes (hsize s) bs \<union> granted s nu \<and>
    (\<forall>x. x \<notin> set (brk_answer s nu # base # bs) \<longrightarrow> hsize s' x = hsize s x)"
proof -
  define a where "a = brk_answer s nu"
  let ?s = "s\<lparr>calls := calls s @ [SSbrk (sbrk_arg nu)], hsize := (hsize s)(a := nu)\<rparr>"
  have nu0: "0 < unat nu" using assms(2) by (auto simp: word_less_nat_alt)
  have g: "granted s nu = {unat a ..< unat a + 16 * unat nu}" using granted_units[OF assms(3)] by (simp add: a_def)
  have a: "unat base < unat a" "granted s nu \<inter> free_bytes (hsize s) bs = {}"
    using assms(4,5) by (auto simp: sbrk_sound_def a_def)
  have "unat a + 16 * unat nu - 1 \<in> granted s nu" using nu0 by (auto simp: g)
  then have "unat a + 16 * unat nu - 1 < 2 ^ 36 - 1" using assms(4,5) by (auto simp: sbrk_sound_def)
  then have lim: "unat a + 16 * unat nu < 2 ^ 36" using nu0 by simp
  have sb: "sorted_blocks base (hsize s) bs" using assms(1) by (simp add: free_list_def)
  have "unat b \<in> free_bytes (hsize s) bs" if "b \<in> set bs" for b
    using sb that by (auto simp: sorted_blocks_def list_all_iff free_bytes_def blk_bytes_def blk_end_def size_pos intro!: bexI[of _ b])
  moreover have "unat a \<in> granted s nu" using nu0 by (simp add: g)
  ultimately have na: "a \<notin> set (base # bs)" using a by auto
  then have fl: "free_list base ?s bs" using assms(1) by (auto simp: free_list_def sorted_blocks_def list_all_iff)
  have bb: "blk_bytes ((hsize s)(a := nu)) a = granted s nu" by (simp add: blk_bytes_def blk_end_def g)
  have fr: "fresh base (hsize ?s) bs a" using a lim nu0 na bb by (auto simp: fresh_def size_pos blk_end_def)
  obtain s' bs' where f: "u_free (a + 16) ?s = Ok () s'" "free_list base s' bs'"
    "free_bytes (hsize s') bs' = free_bytes (hsize ?s) bs \<union> blk_bytes (hsize ?s) a"
    "\<forall>x. x \<notin> set (a # base # bs) \<longrightarrow> hsize s' x = hsize ?s x"
    using u_free_run[OF fl fr] by blast
  have "morecore n s = Ok (freep s') s'"
    using assms(2,5) f(1) by (auto simp: morecore_def kop_simps brk_answer_def Let_def a_def set_size_def bindk_def)
  then show ?thesis using f(2-4) na bb by (intro exI[of _ s'] exI[of _ bs']) (auto simp: a_def)
qed

lemma nunits_bounds:
  assumes "unat nbytes \<le> 2 ^ 30"
  shows "unat (nunits_of nbytes) < 2 ^ 27" "unat nbytes + 16 \<le> 16 * unat (nunits_of nbytes)" "0 < nunits_of nbytes"
proof -
  let ?n = "(unat nbytes + 15) div 16 + 1"
  have b: "unat nbytes + 15 < 2 ^ 31" "?n < 2 ^ 27" using assms by auto
  have "unat (ucast nbytes :: u64) = unat nbytes" using assms by (simp add: unsigned_ucast_eq take_bit_nat_def)
  then have "unat ((ucast nbytes :: u64) + 15) = unat nbytes + 15" using b(1) by (simp add: unat_word_ariths)
  then have "unat (((ucast nbytes :: u64) + 15) div 16 + 1) = ?n" using b by (simp add: unat_word_ariths unat_div)
  moreover have "(ucast nbytes :: u64) + 16 - 1 = ucast nbytes + 15" by simp
  ultimately have n: "unat (nunits_of nbytes) = ?n"
    unfolding nunits_of_def using b(2) by (simp only: unsigned_ucast_eq take_bit_nat_def) simp
  then show "unat (nunits_of nbytes) < 2 ^ 27" using b(2) by simp
  show "unat nbytes + 16 \<le> 16 * unat (nunits_of nbytes)" unfolding n by presburger
  show "0 < nunits_of nbytes" using n by (simp add: size_pos)
qed

text \<open>The heap before the first \<open>malloc\<close>, and after it.\<close>

definition heap_ok :: "u64 \<Rightarrow> heap \<Rightarrow> u64 list \<Rightarrow> bool" where
  "heap_ok base s bs \<longleftrightarrow> base \<noteq> 0 \<and> (if freep s = 0 then bs = [] else free_list base s bs)"

definition first_heap :: "u64 \<Rightarrow> heap \<Rightarrow> heap" where
  "first_heap base s = (if freep s = 0 then
     s\<lparr>hptr := (hptr s)(base := base), freep := base, hsize := (hsize s)(base := 0)\<rparr> else s)"

lemma first_heap_list:
  assumes "heap_ok base s bs"
  shows "free_list base (first_heap base s) bs" "free_bytes (hsize (first_heap base s)) bs = free_bytes (hsize s) bs"
    "brk_answer (first_heap base s) nu = brk_answer s nu" "\<forall>x. x \<noteq> base \<longrightarrow> hsize (first_heap base s) x = hsize s x"
  using assms by (auto simp: heap_ok_def first_heap_def free_list_def sorted_blocks_def ring_def brk_answer_def)

lemma malloc_start: "malloc base nbytes s =
  loopk (malloc_step (nunits_of nbytes)) (freep (first_heap base s), hptr (first_heap base s) (freep (first_heap base s))) (first_heap base s)"
  by (auto simp: malloc_def first_heap_def kop_simps whenk_def set_ptr_def set_size_def Let_def)

text \<open>The search goes on after the kernel has answered.\<close>

lemma malloc_more:
  assumes fl: "free_list base s bs" and base: "base \<noteq> 0" and n: "unat n < 2 ^ 27" "0 < n"
    and nu: "nu = (if n < 4096 then 4096 else n)" and sb: "sbrk_sound base s bs nu" and small: "hsize s (freep s) < n"
  shows "(brk_answer s nu = -1 \<and> loopk (malloc_step n) (pp, freep s) s = Ok 0 (s\<lparr>calls := calls s @ [SSbrk (sbrk_arg nu)]\<rparr>)) \<or>
    (\<exists>q s1 bs1 s' bs'. loopk (malloc_step n) (pp, freep s) s = Ok (q + 16) s' \<and> free_list base s1 bs1 \<and> taken base s1 bs1 n q s' bs' \<and>
      free_bytes (hsize s1) bs1 = free_bytes (hsize s) bs \<union> granted s nu \<and>
      (\<forall>x. x \<notin> set (brk_answer s nu # base # bs) \<longrightarrow> hsize s1 x = hsize s x))"
proof (cases "brk_answer s nu = -1")
  case True
  have "malloc_step n (pp, freep s) s = Ok (Inr 0) (s\<lparr>calls := calls s @ [SSbrk (sbrk_arg nu)]\<rparr>)"
    using small morecore_refused[OF nu True] by (auto simp: malloc_step_def kop_simps bindk_def)
  then show ?thesis using True loopk_steps(2) by metis
next
  case False
  have nu27: "unat nu < 2 ^ 27" using nu n(1) by simp
  obtain s1 bs1 where m: "morecore n s = Ok (freep s1) s1" "free_list base s1 bs1"
    "free_bytes (hsize s1) bs1 = free_bytes (hsize s) bs \<union> granted s nu"
    "\<forall>x. x \<notin> set (brk_answer s nu # base # bs) \<longrightarrow> hsize s1 x = hsize s x"
    using morecore_granted[OF fl nu nu27 sb False] by blast
  have sb1: "sorted_blocks base (hsize s1) bs1" using m(2) by (simp add: free_list_def)
  have "freep s1 \<noteq> 0" using m(2) base by (auto simp: free_list_def sorted_blocks_def blk_end_def)
  then have "malloc_step n (pp, freep s) s = Ok (Inl (freep s1, hptr s1 (freep s1))) s1"
    using small m(1) by (auto simp: malloc_step_def kop_simps bindk_def)
  then have l: "loopk (malloc_step n) (pp, freep s) s = loopk (malloc_step n) (freep s1, hptr s1 (freep s1)) s1"
    by (rule loopk_steps(1))
  have "n \<le> nu" using nu by (auto simp: word_le_nat_alt word_less_nat_alt)
  then have "0 < unat nu" using n(2) by (auto simp: size_pos word_le_nat_alt)
  moreover note granted_units[OF nu27, of s]
  ultimately have "\<exists>b \<in> set bs1. unat nu \<le> unat (hsize s1 b)" using big_block[OF sb1, of "unat (brk_answer s nu)" "unat nu"] m(3) by auto
  then have "\<not> (\<forall>b \<in> set bs1. hsize s1 b < n)" using \<open>n \<le> nu\<close> by (force simp: word_le_nat_alt word_less_nat_alt)
  then obtain q s' bs' where "loopk (malloc_step n) (freep s1, hptr s1 (freep s1)) s1 = Ok (q + 16) s'" "taken base s1 bs1 n q s' bs'"
    using malloc_round[OF m(2) n(2)] by blast
  then show ?thesis using l m(2-4) by metis
qed

section \<open>The contract of the allocator\<close>

text \<open>The units that \<open>morecore\<close> asks for.\<close>

definition more_units :: "u32 \<Rightarrow> u32" where
  "more_units nbytes = (if nunits_of nbytes < 4096 then 4096 else nunits_of nbytes)"

lemma in_free_bytes: "sorted_blocks base sz bs \<Longrightarrow> b \<in> set bs \<Longrightarrow> unat b \<in> free_bytes sz bs"
  by (auto simp: sorted_blocks_def list_all_iff free_bytes_def blk_bytes_def blk_end_def size_pos intro!: bexI[of _ b])

text \<open>A block that was taken is large enough and can be freed again, and no other header has changed.\<close>

lemma taken_block:
  assumes "free_list base s bs" "taken base s bs n q s' bs'" "0 < n"
  shows "fresh base (hsize s') bs' q" "\<forall>x. unat x \<notin> free_bytes (hsize s) bs \<longrightarrow> hsize s' x = hsize s x"
proof -
  have sb: "sorted_blocks base (hsize s) bs" using assms(1) by (simp add: free_list_def)
  have un: "blk_bytes (hsize s') q \<subseteq> free_bytes (hsize s) bs" and n: "hsize s' q = n" using assms(2) by (auto simp: taken_def)
  have q: "unat q \<in> blk_bytes (hsize s') q" "blk_end (hsize s') q - 1 \<in> blk_bytes (hsize s') q"
    using n assms(3) by (auto simp: blk_bytes_def blk_end_def size_pos)
  have lim: "unat base < y \<and> y < 2 ^ 36 - 1" if y: "y \<in> free_bytes (hsize s) bs" for y
  proof -
    obtain b where b: "b \<in> set bs" "unat b \<le> y" "y < blk_end (hsize s) b" using y by (auto simp: free_bytes_def blk_bytes_def)
    then have "unat base < unat b" "blk_end (hsize s) b < 2 ^ 36" using sb by (auto simp: sorted_blocks_def list_all_iff blk_end_def)
    with b show ?thesis by simp
  qed
  have "unat base < unat q" "blk_end (hsize s') q - 1 < 2 ^ 36 - 1" using lim q un by blast+
  then show "fresh base (hsize s') bs' q" using assms(2,3) n by (auto simp: fresh_def taken_def)
  show "\<forall>x. unat x \<notin> free_bytes (hsize s) bs \<longrightarrow> hsize s' x = hsize s x"
    using assms(2) in_free_bytes[OF sb] q(1) un unfolding taken_def by (metis subsetD)
qed

text \<open>
  The two results of \<open>malloc\<close>: out of memory, with the same bytes free; or a block of \<open>n\<close> units, taken from
  the bytes that were free or that the kernel has granted. The headers of allocated blocks are kept.
\<close>

definition allocates :: "u64 \<Rightarrow> heap \<Rightarrow> u64 list \<Rightarrow> u32 \<Rightarrow> u32 \<Rightarrow> u64 \<Rightarrow> heap \<Rightarrow> u64 list \<Rightarrow> bool" where
  "allocates base s bs n nu r s' bs' \<longleftrightarrow> free_list base s' bs' \<and>
     (\<forall>x. x \<noteq> base \<and> unat x \<notin> free_bytes (hsize s) bs \<union> granted s nu \<longrightarrow> hsize s' x = hsize s x) \<and>
     (r = 0 \<and> brk_answer s nu = -1 \<and> \<not> (\<exists>b \<in> set bs. n \<le> hsize s b) \<and> free_bytes (hsize s') bs' = free_bytes (hsize s) bs \<or>
      (\<exists>q. r = q + 16 \<and> hsize s' q = n \<and> fresh base (hsize s') bs' q \<and>
         blk_bytes (hsize s') q \<union> free_bytes (hsize s') bs' =
           (if \<exists>b \<in> set bs. n \<le> hsize s b then free_bytes (hsize s) bs else free_bytes (hsize s) bs \<union> granted s nu)))"

lemma allocates_grown:
  assumes "free_list base s1 bs1" "taken base s1 bs1 n q s' bs'" "0 < n" "unat nu < 2 ^ 27" "0 < unat nu"
    and "free_bytes (hsize s1) bs1 = free_bytes (hsize s) bs \<union> granted s nu" "\<forall>b \<in> set bs. unat b \<in> free_bytes (hsize s) bs"
    and "\<forall>x. x \<notin> set (brk_answer s nu # base # bs) \<longrightarrow> hsize s1 x = hsize s x" "\<not> (\<exists>b \<in> set bs. n \<le> hsize s b)"
  shows "allocates base s bs n nu (q + 16) s' bs'"
proof -
  note T = taken_block[OF assms(1,2,3)]
  have "hsize s' x = hsize s x" if x: "x \<noteq> base" "unat x \<notin> free_bytes (hsize s) bs \<union> granted s nu" for x
  proof -
    have "x \<notin> set bs" using assms(7) x(2) by auto
    moreover have "x \<noteq> brk_answer s nu" using x(2) assms(5) granted_units[OF assms(4)] by auto
    ultimately have "hsize s1 x = hsize s x" using assms(8) x(1) by simp
    then show ?thesis using T(2) x assms(6) by auto
  qed
  then show ?thesis using T(1) assms(2,6,9) by (auto simp: allocates_def taken_def)
qed

text \<open>The two cases of \<open>malloc\<close>: a free block is large enough, or \<open>sbrk\<close> is called.\<close>

lemma first_heap_sizes: "heap_ok base s bs \<Longrightarrow> b \<in> set bs \<Longrightarrow> hsize (first_heap base s) b = hsize s b"
proof -
  assume "heap_ok base s bs" "b \<in> set bs"
  moreover from first_heap_list(1)[OF this(1)] have "base \<notin> set bs"
    using sorted_blocks_distinct[of base "hsize (first_heap base s)" bs] by (simp add: free_list_def)
  ultimately show ?thesis using first_heap_list(4)[of base s bs] by metis
qed

lemma malloc_fits:
  assumes ok: "heap_ok base s bs" and nb: "unat nbytes \<le> 2 ^ 30" and fits: "\<exists>b \<in> set bs. nunits_of nbytes \<le> hsize s b"
  shows "\<exists>r s' bs'. malloc base nbytes s = Ok r s' \<and> allocates base s bs (nunits_of nbytes) nu r s' bs'"
proof -
  define s0 where "s0 = first_heap base s"
  define n where "n = nunits_of nbytes"
  note F = first_heap_list[OF ok, folded s0_def]
  have n: "0 < n" using nunits_bounds[OF nb] by (auto simp: n_def)
  have "\<not> (\<forall>b \<in> set bs. hsize s0 b < n)" using fits first_heap_sizes[OF ok] by (auto simp: not_less s0_def n_def)
  then obtain q s' bs' where t: "malloc base nbytes s = Ok (q + 16) s'" "taken base s0 bs n q s' bs'"
    using malloc_round[OF F(1) n] by (auto simp: malloc_start s0_def n_def)
  then have "allocates base s bs n nu (q + 16) s' bs'"
    using taken_block[OF F(1) t(2) n] F(2,4) fits by (auto simp: allocates_def taken_def n_def)
  with t(1) show ?thesis unfolding n_def by blast
qed

lemma malloc_grows:
  assumes ok: "heap_ok base s bs" and nb: "unat nbytes \<le> 2 ^ 30" and sb: "sbrk_sound base s bs (more_units nbytes)"
    and small: "\<not> (\<exists>b \<in> set bs. nunits_of nbytes \<le> hsize s b)"
  shows "\<exists>r s' bs'. malloc base nbytes s = Ok r s' \<and> allocates base s bs (nunits_of nbytes) (more_units nbytes) r s' bs'"
proof -
  define s0 where "s0 = first_heap base s"
  define n where "n = nunits_of nbytes"
  define nu where "nu = more_units nbytes"
  note F = first_heap_list[OF ok, folded s0_def]
  have n: "unat n < 2 ^ 27" "0 < n" using nunits_bounds[OF nb] by (auto simp: n_def)
  have nu: "unat nu < 2 ^ 27" "0 < unat nu" "nu = (if n < 4096 then 4096 else n)"
    using n by (auto simp: nu_def more_units_def n_def word_less_nat_alt)
  have g: "granted s0 nu = granted s nu" by (simp add: granted_def F(3))
  have sb0: "sbrk_sound base s0 bs nu" using sb g by (simp add: sbrk_sound_def F(2,3) nu_def)
  have base: "base \<noteq> 0" using ok by (simp add: heap_ok_def)
  have none: "\<forall>b \<in> set bs. hsize s0 b < n" using small first_heap_sizes[OF ok] by (auto simp: s0_def n_def)
  then obtain pp where pp: "malloc base nbytes s = loopk (malloc_step n) (pp, freep s0) s0"
    using malloc_round[OF F(1) n(2)] by (auto simp: malloc_start s0_def n_def not_le)
  have "hsize s0 (freep s0) < n" using F(1) none n(2) by (auto simp: free_list_def sorted_blocks_def)
  from malloc_more[OF F(1) base n nu(3) sb0 this, of pp, folded pp]
  consider "brk_answer s0 nu = -1" "malloc base nbytes s = Ok 0 (s0\<lparr>calls := calls s0 @ [SSbrk (sbrk_arg nu)]\<rparr>)"
    | q s1 bs1 s' bs' where "malloc base nbytes s = Ok (q + 16) s'" "free_list base s1 bs1" "taken base s1 bs1 n q s' bs'"
        "free_bytes (hsize s1) bs1 = free_bytes (hsize s0) bs \<union> granted s0 nu"
        "\<forall>x. x \<notin> set (brk_answer s0 nu # base # bs) \<longrightarrow> hsize s1 x = hsize s0 x" by blast
  then have "\<exists>r s' bs'. malloc base nbytes s = Ok r s' \<and> allocates base s bs n nu r s' bs'"
  proof cases
    case 1
    have "allocates base s bs n nu 0 (s0\<lparr>calls := calls s0 @ [SSbrk (sbrk_arg nu)]\<rparr>) bs"
      using 1(1) F small by (simp add: allocates_def free_list_def n_def)
    with 1(2) show ?thesis by blast
  next
    case 2
    have "\<forall>b \<in> set bs. unat b \<in> free_bytes (hsize s) bs" using in_free_bytes[of base "hsize s0" bs] F(1,2) by (simp add: free_list_def)
    then have "allocates base s bs n nu (q + 16) s' bs'"
      using allocates_grown[OF 2(2,3) n(2) nu(1,2), of s bs] 2(4,5) F(2,3,4) g small unfolding n_def by simp
    with 2(1) show ?thesis by blast
  qed
  then show ?thesis by (simp add: n_def nu_def)
qed

lemma malloc_run:
  assumes "heap_ok base s bs" "unat nbytes \<le> 2 ^ 30" "sbrk_sound base s bs (more_units nbytes)"
  shows "\<exists>r s' bs'. malloc base nbytes s = Ok r s' \<and> allocates base s bs (nunits_of nbytes) (more_units nbytes) r s' bs'"
  using malloc_fits[OF assms(1,2)] malloc_grows[OF assms] by blast

text \<open>
  C5: \<open>malloc\<close> returns, for requests of up to a gigabyte. It gives a block of at least the bytes asked for, apart from
  all free blocks and taken from the bytes that were free or, when no free block is large enough, from
  these and the new ones of \<open>sbrk\<close>; or 0 when none is and \<open>sbrk\<close> fails, and then nothing is lost. The free
  list stays a sorted ring of blocks that do not touch, and no header of an allocated block changes.
\<close>

theorem malloc_correct:
  assumes "heap_ok base s bs" "unat nbytes \<le> 2 ^ 30" "sbrk_sound base s bs (more_units nbytes)"
  shows "unat nbytes + 16 \<le> 16 * unat (nunits_of nbytes) \<and>
    (\<exists>r s' bs'. malloc base nbytes s = Ok r s' \<and> allocates base s bs (nunits_of nbytes) (more_units nbytes) r s' bs')"
  using malloc_run[OF assms] nunits_bounds(2)[OF assms(2)] by simp

text \<open>A program that has not allocated yet, in an environment that grows it at address 16384.\<close>

definition demo_heap :: heap where
  "demo_heap = \<lparr>env = \<lambda>_. \<lparr>rv = 16384, rbytes = [], rints = []\<rparr>, calls = [], hptr = \<lambda>_. 0, hsize = \<lambda>_. 0, freep = 0\<rparr>"

lemma demo_heap_ok: "heap_ok 4096 demo_heap []" "sbrk_sound 4096 demo_heap [] (more_units 100)"
proof -
  have "more_units 100 = 4096" by code_simp
  moreover have "granted demo_heap 4096 = {16384 ..< 16384 + 65536}"
    using granted_units[of 4096 demo_heap] by (simp add: brk_answer_def demo_heap_def)
  ultimately show "heap_ok 4096 demo_heap []" "sbrk_sound 4096 demo_heap [] (more_units 100)"
    by (auto simp: heap_ok_def sbrk_sound_def demo_heap_def brk_answer_def)
qed

theorem malloc_correct_witness:
  "\<exists>r s' bs'. malloc 4096 100 demo_heap = Ok r s' \<and> allocates 4096 demo_heap [] 8 4096 r s' bs'"
proof -
  have "nunits_of 100 = 8" "more_units 100 = 4096" by code_simp+
  with malloc_correct[OF demo_heap_ok(1) _ demo_heap_ok(2)] show ?thesis by simp
qed

text \<open>
  C15: What \<open>malloc\<close> has allocated can be freed: \<open>free\<close> finds the place of the block, joins it with its
  neighbours and returns, and then all the bytes that were free, and those that \<open>sbrk\<close> has granted,
  are free again.
\<close>

theorem malloc_free_roundtrip:
  assumes "heap_ok base s bs" "unat nbytes \<le> 2 ^ 30" "sbrk_sound base s bs (more_units nbytes)"
    and "malloc base nbytes s = Ok r s'" "r \<noteq> 0"
  shows "\<exists>s'' bs''. u_free r s' = Ok () s'' \<and> free_list base s'' bs'' \<and>
    free_bytes (hsize s'') bs'' = (if \<exists>b \<in> set bs. nunits_of nbytes \<le> hsize s b then free_bytes (hsize s) bs
      else free_bytes (hsize s) bs \<union> granted s (more_units nbytes))"
proof -
  obtain bs' where a: "allocates base s bs (nunits_of nbytes) (more_units nbytes) r s' bs'"
    using malloc_run[OF assms(1-3)] assms(4) by auto
  then obtain q where q: "r = q + 16" "fresh base (hsize s') bs' q" "blk_bytes (hsize s') q \<union> free_bytes (hsize s') bs' =
     (if \<exists>b \<in> set bs. nunits_of nbytes \<le> hsize s b then free_bytes (hsize s) bs else free_bytes (hsize s) bs \<union> granted s (more_units nbytes))"
    using assms(5) by (auto simp: allocates_def)
  have "free_list base s' bs'" using a by (simp add: allocates_def)
  from u_free_run[OF this q(2)] obtain s'' bs'' where "u_free (q + 16) s' = Ok () s''" "free_list base s'' bs''"
    "free_bytes (hsize s'') bs'' = blk_bytes (hsize s') q \<union> free_bytes (hsize s') bs'" by (auto simp: Un_commute)
  then show ?thesis using q(1,3) by (intro exI[of _ s''] exI[of _ bs'']) simp
qed

theorem malloc_free_roundtrip_witness:
  "\<exists>r s' s'' bs''. malloc 4096 100 demo_heap = Ok r s' \<and> u_free r s' = Ok () s'' \<and> free_list 4096 s'' bs'' \<and>
    free_bytes (hsize s'') bs'' = {16384 ..< 81920}"
proof -
  have n: "nunits_of 100 = 8" "more_units 100 = 4096" by code_simp+
  obtain r s' bs' where m: "malloc 4096 100 demo_heap = Ok r s'" and a: "allocates 4096 demo_heap [] 8 4096 r s' bs'"
    using malloc_run[OF demo_heap_ok(1) _ demo_heap_ok(2)] n by auto
  have "brk_answer demo_heap 4096 \<noteq> -1" by (simp add: brk_answer_def demo_heap_def)
  then obtain q where "r = q + 16" "fresh 4096 (hsize s') bs' q" using a by (auto simp: allocates_def)
  moreover have "q + 16 = 0 \<Longrightarrow> q = -16" by (simp add: eq_neg_iff_add_eq_0)
  ultimately have "r \<noteq> 0" by (auto simp: fresh_def blk_end_def)
  from malloc_free_roundtrip[OF demo_heap_ok(1) _ demo_heap_ok(2) m this] m
  show ?thesis using granted_units[of 4096 demo_heap] by (auto simp: n brk_answer_def demo_heap_def)
qed

end
