(* ===== verification/Spec2Isabelle.thy ===== *)
theory Spec2Isabelle
  imports Trap Pipe Procmem Bmap Grep Shround Utils Umalloc
begin

text \<open>
  A verification library of the xv6-riscv system of this repository: the kernel (\<^verbatim>\<open>src/kernel\<close>) and its user
  programs (\<^verbatim>\<open>src/user\<close>). The theories translate the C code function by function; their lemmas
  and theorems show what makes each part correct.

  \<^bold>\<open>How the code is written.\<close> Theory Prelude has the outcome monad of every routine: it returns (\<open>Ok\<close>), panics
  (\<open>Panic\<close> with the message of the code), spins forever (\<open>Spins\<close>) or gives up the processor (\<open>Sleeps\<close>). \<open>loopk\<close>
  is the C loop, a loop without end being \<open>Spins\<close>; \<open>loopk_rule\<close> is its rule of total correctness, so a
  theorem with \<open>Ok\<close> also says that the code returns. Unsigned integers, registers and addresses are words
  of their width. The C code has a few counters and identifiers of type \<open>int\<close>, which it steps by one and
  compares: the nesting depth \<open>noff\<close>, pids and \<open>nextpid\<close>, the reference counts of inodes and files,
  \<open>outstanding\<close> and \<open>n\<close> of the log. They are unbounded integers here, so an overflow after \<open>2 ^ 31\<close> steps,
  undefined in C, is not represented.
  The state of the kernel is a chain of records, each theory adding the variables of its source
  files; an operation is generic in what is added later. \<open>swtch\<close> ends a run with \<open>Sleeps\<close>, and the code
  behind it is a definition of its own, so that interleavings are sequences of runs. Two protocols are
  also modelled at the grain of single statements, as step relations of several harts: \<open>lock_step\<close> (\<open>acquire\<close>
  and \<open>release\<close>, theory Spinlock) and \<open>sw_step\<close> (\<open>sleep\<close> and \<open>wakeup\<close>, theory Procsync). They are written from the
  code like the sequential definitions, beside them; no lemma derives one from the other, and steps
  are sequentially consistent, which the fences of the code are there for.

  \<^bold>\<open>Machine and libraries.\<close>
  \<^item> Riscv, Csr: the constants and macros of param.h, memlayout.h and riscv.h, the control registers, start.c.
  \<^item> CString, Pages, Blocks: byte memory and string.c; memory by frames; integers in disk blocks.
  \<^item> Printf: the formatters of kernel/printf.c and user/printf.c; what is printed can be read back.

  \<^bold>\<open>Locks and memory.\<close>
  \<^item> Spinlock: spinlock.c. Mutual exclusion in all interleavings of any number of harts.
  \<^item> Kalloc: kalloc.c, the free list threaded through the free pages. Locale \<open>page_allocator\<close> is the contract
    of an allocator, interpreted on \<open>kalloc\<close> and \<open>kfree\<close>.
  \<^item> Walk, Vm: vm.c. Uvm, Freewalk, Uvmcopy, Ucopy, AddrSpace: the Sv39 tables stay trees, the walk agrees
    with the translation of the hardware, every operation changes the translations it is asked to,
    undoes its work when memory runs out, and loses no page; it fails only with fewer free pages than a
    stated number. Copies between the kernel and user space are exact.

  \<^bold>\<open>Processes.\<close>
  \<^item> Proc, Procfile: proc.c and exec.c. Procsync: wakeups are not lost, and a round of the scheduler resumes
    every runnable process, as the resumed code itself notes (\<open>noting\<close>). Procmem: a process slot takes
    exactly four pages and returns them.
  \<^item> Sleeplock, Calm: sleeplock.c, and its operations between critical sections.

  \<^bold>\<open>The file system.\<close>
  \<^item> Bio, Bcache, Buffers: bio.c. \<open>cache\<close> abstracts the buffers to the contents of all blocks, their
    reference counts and the buffers held; the list stays in order of use.
  \<^item> Log, Crash: log.c. The disk is its initial contents and the sequence of the writes, so that a
    prefix of the sequence is a crash. A commit is atomic, recovery is idempotent. A block write is
    atomic and complete when \<open>disk_rw\<close> returns: this is the contract of the driver in Virtio, which is
    assumed, not proved.
  \<^item> Fs: fs.c. Trans is the interface of the cache and the log for it: inside a transaction a block is
    read, changed and recorded. Over it, Balloc shows \<open>balloc\<close> and \<open>bfree\<close> correct on the bitmap, and Bmap
    shows that \<open>bmap\<close> extends the map of a file at the place asked for.
  \<^item> File, Ring, Pipe: file.c and pipe.c. The ring buffer refines a bounded queue (locale \<open>fifo\<close>).
  \<^item> Virtio: virtio_disk.c and plic.c. Uart: uart.c, console.c. The registers of the devices return arbitrary values.

  \<^bold>\<open>System calls and traps.\<close> Sysfile: sysfile.c and the argument access of syscall.c. Trap: sysproc.c, the dispatch
  with tracing, trap.c and main.c. These theories, Uart, Virtio, Csr and Procfile are definitions; no
  theorem is stated about them yet.

  \<^bold>\<open>User programs.\<close> A program is run against an environment that answers each system call as any function
  of the calls made so far; what a proof relies on is a hypothesis about this function.
  \<^item> Ulib: ulib.c and the output of printf.c. Grep: the matcher decides the language of the pattern, and
    grep writes the matching lines however \<open>read\<close> cuts the file.
  \<^item> Shparse, Sh, Shround: sh.c. The parser ends, its words become strings, and printing a command and
    parsing it gives it back.
  \<^item> Umalloc: umalloc.c. The free list stays a sorted ring, and blocks given out are apart from it.
  \<^item> Utils: cat, wc, echo, kill, ln, mkdir, rm, sleep, trace, zombie, sysinfotest, init, pingpong,
    primes, xargs, find and ls, as definitions.

  \<^bold>\<open>Bounds and fuel.\<close> The parser of the shell has a depth of four times the length of the line plus 4, which
  is enough for every line (\<open>parser_terminates\<close>). find recurses to a depth of 512; a path has at most
  496 bytes and every level adds one (\<open>find_deep_enough\<close>). malloc is shown correct for requests up to
  \<open>2 ^ 30\<close> bytes and heaps below \<open>2 ^ 36\<close>; beyond, sbrk gets a number cut to 32 bits. A transaction
  has the 30 blocks of the log that mkfs makes, of which \<open>log_write\<close> accepts 29; the theorems on the file system
  say how many they need. \<open>balloc\<close> is shown correct for a disk of at most \<open>2 ^ 31\<close> blocks less those of one bitmap
  block, so that its loop variable of type \<open>int\<close> does not overflow. \<open>printint\<close> is shown correct for the
  bases 10 and 16 and, with a sign, for all numbers but the smallest.

  \<^bold>\<open>Not modelled.\<close> The assembly files, whose effect on the trapframe and the context is assumed where the C
  code relies on it; mkfs, a program of the host; ramdisk.c, which is not linked and uses
  fields that do not exist; the test programs usertests, grind, forktest and stressfs; the build
  files. The system call stubs are generated by usys.pl and are the environment of the user programs.
\<close>

end
